(* ===== verification/Prelude.thy ===== *)
theory Prelude
  imports Main "HOL-Library.Word"
begin

text \<open>
  Shared vocabulary of the development.

  A C function of the repository is a HOL function that takes the state it reads or writes
  and returns the new state. It may also fail to return to its caller; \<open>stop\<close> lists
  the ways: the kernel's \<open>panic\<close> with its message, a process going to sleep on a
  channel (\<open>chan\<close>: what a process waits for, in C the address of that object), an undefined memory access, a process that leaves through \<open>exit\<close>, and a
  loop that used up the fuel given to it. A call that returns is \<open>Inr\<close>.
\<close>

datatype chan =
    AtProc nat
  | AtTicks
  | AtLog
  | AtBuf nat
  | AtDisk nat
  | AtInode nat
  | AtPipeRead nat
  | AtPipeWrite nat
  | AtInput

datatype stop =
    Panic string
  | Sleep chan
  | Fault string
  | Exited int
  | NoFuel

type_synonym 'a res = "stop + 'a"

text \<open>Sequencing: the rest of the function runs only when the call returned.\<close>

fun bindE :: "'e + 'a \<Rightarrow> ('a \<Rightarrow> 'e + 'b) \<Rightarrow> 'e + 'b" where
  "bindE (Inl e) f = Inl e"
| "bindE (Inr x) f = f x"

lemma bindE_Inr_iff [simp]: "bindE m f = Inr y \<longleftrightarrow> (\<exists>x. m = Inr x \<and> f x = Inr y)"
  by (cases m) auto

lemma bindE_assoc: "bindE (bindE m f) g = bindE m (\<lambda>x. bindE (f x) g)"
  by (cases m) auto

lemma bindE_cong [fundef_cong]:
  "m = m' \<Longrightarrow> (\<And>x. m' = Inr x \<Longrightarrow> f x = f' x) \<Longrightarrow> bindE m f = bindE m' f'"
  by (cases m') auto

lemma bindE_splits:
  "P (bindE m f) \<longleftrightarrow> (\<forall>e. m = Inl e \<longrightarrow> P (Inl e)) \<and> (\<forall>x. m = Inr x \<longrightarrow> P (f x))"
  by (cases m) auto

text \<open>A fold whose step may stop.\<close>

fun foldE :: "('a \<Rightarrow> 's \<Rightarrow> 'e + 's) \<Rightarrow> 'a list \<Rightarrow> 's \<Rightarrow> 'e + 's" where
  "foldE f [] s = Inr s"
| "foldE f (x # xs) s = bindE (f x s) (foldE f xs)"

lemma foldE_append: "foldE f (xs @ ys) s = bindE (foldE f xs s) (foldE f ys)"
proof (induction xs arbitrary: s)
  case (Cons x xs)
  show ?case by (cases "f x s") (simp_all add: Cons.IH)
qed simp

lemma foldE_invariant:
  assumes "foldE f xs s = Inr t" and "P s"
    and "\<And>x s t. x \<in> set xs \<Longrightarrow> P s \<Longrightarrow> f x s = Inr t \<Longrightarrow> P t"
  shows "P t"
  using assms
proof (induction xs arbitrary: s)
  case (Cons x xs)
  from Cons.prems(1) obtain u where u: "f x s = Inr u" and rest: "foldE f xs u = Inr t"
    by auto
  have "P u" using Cons.prems(2,3) u by (meson list.set_intros(1))
  with rest show ?case using Cons.IH Cons.prems(3) by (meson list.set_intros(2))
qed simp

text \<open>The first index at which a predicate holds: the shape of every C scan over a table.\<close>

fun first_idx :: "('a \<Rightarrow> bool) \<Rightarrow> 'a list \<Rightarrow> nat option" where
  "first_idx P [] = None"
| "first_idx P (x # xs) = (if P x then Some 0 else map_option Suc (first_idx P xs))"

lemma first_idx_None: "first_idx P xs = None \<longleftrightarrow> (\<forall>x \<in> set xs. \<not> P x)"
  by (induction xs) auto

lemma first_idx_Some:
  "first_idx P xs = Some i \<longleftrightarrow> i < length xs \<and> P (xs ! i) \<and> (\<forall>j < i. \<not> P (xs ! j))"
proof (induction xs arbitrary: i)
  case (Cons x xs)
  show ?case
    by (cases i) (auto simp: Cons.IH less_Suc_eq_0_disj)
qed simp

lemma first_idx_map: "first_idx P xs = first_idx (\<lambda>b. b) (map P xs)"
  by (induction xs) auto

lemma first_idx_SomeD:
  assumes "first_idx P xs = Some i"
  shows "i < length xs" "P (xs ! i)" "j < i \<Longrightarrow> \<not> P (xs ! j)"
  using assms by (auto simp: first_idx_Some)

text \<open>The fields of a list between its separators: \<open>strsep\<close> to the end of the string.\<close>

fun pieces :: "'a \<Rightarrow> 'a list \<Rightarrow> 'a list list" where
  "pieces d [] = [[]]"
| "pieces d (c # s) = (if c = d then [] # pieces d s else (c # hd (pieces d s)) # tl (pieces d s))"

lemma pieces_nonempty: "pieces d s \<noteq> []"
  by (induction s) auto

lemma pieces_plain: "d \<notin> set s \<Longrightarrow> pieces d s = [s]"
  by (induction s) auto

lemma pieces_sep: "d \<notin> set w \<Longrightarrow> pieces d (w @ d # s) = w # pieces d s"
  by (induction w) auto

text \<open>Signed and unsigned readings of a 32-bit word.\<close>

lemma sint32_range: "- (2 ^ 31) \<le> sint (w :: 32 word)" "sint (w :: 32 word) < 2 ^ 31"
  using sint_ge [of w] sint_lt [of w] by simp_all

lemma uint_of_sint32: "uint (w :: 32 word) = (if sint w < 0 then sint w + 2 ^ 32 else sint w)"
proof -
  have u: "uint w = sint w mod 2 ^ 32" using uint_sint [of w] by (simp add: take_bit_eq_mod)
  show ?thesis
  proof (cases "sint w < 0")
    case True
    have "sint w mod 2 ^ 32 = (sint w + 2 ^ 32) mod 2 ^ 32" by simp
    also have "\<dots> = sint w + 2 ^ 32" using True sint32_range(1) [of w] by (intro mod_pos_pos_trivial) simp_all
    finally show ?thesis using True u by simp
  next
    case False
    then have "sint w mod 2 ^ 32 = sint w" using sint32_range(2) [of w] by (intro mod_pos_pos_trivial) simp_all
    with False u show ?thesis by simp
  qed
qed

text \<open>The conversion of a wider integer (\<open>long\<close>, \<open>size_t\<close>, \<open>off_t\<close>) to \<open>int\<close>: the low 32 bits, read as two's complement.\<close>

definition to_int32 :: "int \<Rightarrow> int" where
  "to_int32 v = sint (word_of_int v :: 32 word)"

definition int32_range :: "int \<Rightarrow> bool" where
  "int32_range v \<longleftrightarrow> - (2 ^ 31) \<le> v \<and> v < 2 ^ 31"

lemma to_int32_id: "int32_range v \<Longrightarrow> to_int32 v = v"
  unfolding to_int32_def int32_range_def by (simp add: sint_sbintrunc' signed_take_bit_int_eq_self)

lemma int32_range_to_int32: "int32_range (to_int32 v)"
  unfolding to_int32_def int32_range_def
  using sint_ge [of "word_of_int v :: 32 word"] sint_lt [of "word_of_int v :: 32 word"] by simp

end
