(* ===== verification/Clib.thy ===== *)
theory Clib
  imports Prelude
begin

text \<open>
  The parts of the C standard library the user-level programs (\<open>KeyValueStore/kv.c\<close>,
  \<open>Wisconsin_Shell/wish.c\<close>) rely on, as functions on strings of bytes: decimal printing
  and \<open>strtol\<close>, the tokenisers \<open>strtok_r\<close> and \<open>strsep\<close> with their save pointer, and
  \<open>fgets\<close>. A string here is the contents up to, and without, the terminating NUL.
\<close>

abbreviation NUL :: char where "NUL \<equiv> CHR 0x00"
abbreviation NL :: char where "NL \<equiv> CHR 0x0A"

definition cstr :: "string \<Rightarrow> string" where
  "cstr s = takeWhile (\<lambda>c. c \<noteq> NUL) s"

lemma cstr_id [simp]: "NUL \<notin> set s \<Longrightarrow> cstr s = s"
  unfolding cstr_def by (auto simp: takeWhile_eq_all_conv)

lemma cstr_append_NUL: "NUL \<notin> set s \<Longrightarrow> cstr (s @ NUL # t) = s"
  unfolding cstr_def by (auto simp: takeWhile_append)

subsection \<open>Decimal numbers\<close>

definition digit_char :: "nat \<Rightarrow> char" where
  "digit_char d = char_of (48 + d)"

definition is_digit :: "char \<Rightarrow> bool" where
  "is_digit c \<longleftrightarrow> 48 \<le> (of_char c :: nat) \<and> (of_char c :: nat) \<le> 57"

definition digit_val :: "char \<Rightarrow> nat" where
  "digit_val c = of_char c - 48"

fun nat_dec :: "nat \<Rightarrow> string" where
  "nat_dec n = (if n < 10 then [digit_char n] else nat_dec (n div 10) @ [digit_char (n mod 10)])"

declare nat_dec.simps [simp del]

text \<open>What \<open>%d\<close> prints.\<close>

definition int_dec :: "int \<Rightarrow> string" where
  "int_dec k = (if k < 0 then ''-'' @ nat_dec (nat (- k)) else nat_dec (nat k))"

definition digits_val :: "string \<Rightarrow> nat" where
  "digits_val ds = foldl (\<lambda>n c. n * 10 + digit_val c) 0 ds"

lemma of_char_digit: "d < 10 \<Longrightarrow> (of_char (digit_char d) :: nat) = 48 + d"
  by (simp add: digit_char_def)

lemma is_digit_digit_char [simp]: "d < 10 \<Longrightarrow> is_digit (digit_char d)"
  by (simp add: is_digit_def of_char_digit)

lemma digit_val_digit_char [simp]: "d < 10 \<Longrightarrow> digit_val (digit_char d) = d"
  by (simp add: digit_val_def of_char_digit)

lemma nat_dec_not_Nil [simp]: "nat_dec n \<noteq> []"
  by (subst nat_dec.simps) simp

lemma nat_dec_digits: "c \<in> set (nat_dec n) \<Longrightarrow> is_digit c"
proof (induction n rule: nat_dec.induct)
  case (1 n)
  then show ?case by (cases "n < 10") (auto simp: nat_dec.simps [of n])
qed

lemma digits_val_nat_dec [simp]: "digits_val (nat_dec n) = n"
proof (induction n rule: nat_dec.induct)
  case (1 n)
  show ?case
  proof (cases "n < 10")
    case True
    then show ?thesis by (simp add: nat_dec.simps [of n] digits_val_def)
  next
    case False
    with 1 have "digits_val (nat_dec (n div 10)) = n div 10" by simp
    with False show ?thesis
      by (simp add: nat_dec.simps [of n] digits_val_def)
  qed
qed

text \<open>
  \<open>strtol(s, &end, 10)\<close> for a 64-bit \<open>long\<close>: the value, whether \<open>errno\<close> was set to
  \<open>ERANGE\<close>, and whether \<open>end == s\<close> (no digits).
\<close>

definition is_space :: "char \<Rightarrow> bool" where
  "is_space c \<longleftrightarrow> c = CHR '' '' \<or> (9 \<le> (of_char c :: nat) \<and> (of_char c :: nat) \<le> 13)"

record strtol_result =
  st_val :: int
  st_erange :: bool
  st_none :: bool

definition strtol10 :: "string \<Rightarrow> strtol_result" where
  "strtol10 s =
     (let t = dropWhile is_space s;
          neg = (t \<noteq> [] \<and> hd t = CHR ''-'');
          u = (if t \<noteq> [] \<and> (hd t = CHR ''-'' \<or> hd t = CHR ''+'') then tl t else t);
          ds = takeWhile is_digit u;
          v = (if neg then - int (digits_val ds) else int (digits_val ds))
      in if ds = [] then \<lparr>st_val = 0, st_erange = False, st_none = True\<rparr>
         else if v > 2 ^ 63 - 1 then \<lparr>st_val = 2 ^ 63 - 1, st_erange = True, st_none = False\<rparr>
         else if v < - (2 ^ 63) then \<lparr>st_val = - (2 ^ 63), st_erange = True, st_none = False\<rparr>
         else \<lparr>st_val = v, st_erange = False, st_none = False\<rparr>)"

lemma hd_nat_dec_digit: "is_digit (hd (nat_dec n))"
  by (rule nat_dec_digits, rule hd_in_set) simp

lemma is_digit_not_special:
  "is_digit c \<Longrightarrow> \<not> is_space c \<and> c \<noteq> CHR ''-'' \<and> c \<noteq> CHR ''+'' \<and> c \<noteq> CHR '','' \<and> c \<noteq> NUL \<and> c \<noteq> NL"
  by (auto simp: is_digit_def is_space_def)

lemma takeWhile_digits [simp]: "takeWhile is_digit (nat_dec n) = nat_dec n"
  by (auto simp: takeWhile_eq_all_conv nat_dec_digits)

lemma strtol10_nat_dec:
  assumes "n < 2 ^ 63"
  shows "strtol10 (nat_dec n) = \<lparr>st_val = int n, st_erange = False, st_none = False\<rparr>"
proof -
  have d: "dropWhile is_space (nat_dec n) = nat_dec n"
    using hd_nat_dec_digit [of n] is_digit_not_special
    by (cases "nat_dec n") auto
  have h: "hd (nat_dec n) \<noteq> CHR ''-''" "hd (nat_dec n) \<noteq> CHR ''+''"
    using hd_nat_dec_digit [of n] is_digit_not_special by auto
  have "int n < 2 ^ 63" using assms by (metis of_nat_less_iff of_nat_numeral of_nat_power)
  then show ?thesis by (simp add: strtol10_def Let_def d h)
qed

lemma strtol10_int_dec:
  assumes "int32_range k"
  shows "strtol10 (int_dec k) = \<lparr>st_val = k, st_erange = False, st_none = False\<rparr>"
proof (cases "k < 0")
  case True
  have "\<not> is_space (CHR ''-'')" by (simp add: is_space_def)
  with True assms show ?thesis
    by (simp add: strtol10_def Let_def int_dec_def int32_range_def)
next
  case False
  with assms have "nat k < 2 ^ 63" by (simp add: int32_range_def nat_less_iff)
  from strtol10_nat_dec [OF this] False show ?thesis by (simp add: int_dec_def)
qed

lemma int_dec_no_special:
  "c \<in> set (int_dec k) \<Longrightarrow> c \<noteq> CHR '','' \<and> c \<noteq> NUL \<and> c \<noteq> NL"
  by (auto simp: int_dec_def split: if_splits dest: nat_dec_digits is_digit_not_special)

lemma int_dec_not_Nil [simp]: "int_dec k \<noteq> []"
  by (simp add: int_dec_def)

subsection \<open>Tokenisers\<close>

text \<open>
  \<open>strtok_r\<close> with one delimiter: the token and the new save pointer, or \<open>None\<close> (and an
  empty save pointer) when only delimiters are left.
\<close>

definition strtok :: "char \<Rightarrow> string \<Rightarrow> (string \<times> string) option" where
  "strtok d s =
     (let t = dropWhile (\<lambda>c. c = d) s
      in if t = [] then None
         else Some (takeWhile (\<lambda>c. c \<noteq> d) t, drop 1 (dropWhile (\<lambda>c. c \<noteq> d) t)))"

lemma strtok_token:
  assumes "t \<noteq> []" "d \<notin> set t"
  shows "strtok d (t @ d # u) = Some (t, u)" "strtok d t = Some (t, [])"
proof -
  from assms obtain c cs where t: "t = c # cs" "c \<noteq> d" "d \<notin> set cs" by (cases t) auto
  have a: "\<And>x. x \<in> set cs \<Longrightarrow> x \<noteq> d" using t(3) by auto
  show "strtok d (t @ d # u) = Some (t, u)"
    using t a by (simp add: strtok_def takeWhile_append dropWhile_append)
  have "takeWhile (\<lambda>x. x \<noteq> d) cs = cs" "dropWhile (\<lambda>x. x \<noteq> d) cs = []"
    using a by (simp_all add: takeWhile_eq_all_conv dropWhile_eq_Nil_conv)
  with t show "strtok d t = Some (t, [])"
    by (simp add: strtok_def del: dropWhile_eq_Nil_conv)
qed

text \<open>\<open>fgets(buf, n, fp)\<close>: at most \<open>n - 1\<close> bytes, up to and with the first newline.\<close>

definition fgets :: "nat \<Rightarrow> string \<Rightarrow> (string \<times> string) option" where
  "fgets n s =
     (if s = [] then None
      else let a = take (n - 1) s; l = takeWhile (\<lambda>c. c \<noteq> NL) a
           in if length l < length a then Some (l @ [NL], drop (Suc (length l)) s)
              else Some (a, drop (n - 1) s))"

lemma fgets_shorter: "1 < n \<Longrightarrow> fgets n s = Some (l, r) \<Longrightarrow> length r < length s"
  by (cases s) (auto simp: fgets_def Let_def split: if_splits)

lemma fgets_line:
  assumes "NL \<notin> set l" "length l + 1 < n"
  shows "fgets n (l @ NL # r) = Some (l @ [NL], r)"
proof -
  obtain m where m: "n - 1 = length l + Suc m"
    using assms(2) by (metis add.commute less_diff_conv less_imp_Suc_add add_Suc_right)
  have t: "take (n - 1) (l @ NL # r) = l @ NL # take m r"
    unfolding m by simp
  have w: "takeWhile (\<lambda>c. c \<noteq> NL) (l @ NL # x) = l" for x
    using assms(1) by (auto simp: takeWhile_append)
  show ?thesis
    using t w by (simp add: fgets_def Let_def del: take_append)
qed

end
