(* ===== verification/Kv.thy ===== *)
theory Kv
  imports Clib
begin

text \<open>
  The key-value store \<open>KeyValueStore/kv.c\<close>: the array of (key, value pointer) items with
  its size and capacity, the C heap the value pointers point into, put, get, delete and
  clear, the command interpreter and the text database.

  Values are heap blocks of exactly \<open>strlen(value)\<close> bytes, as the code allocates them: the
  terminating NUL is not stored. Reading one back as a C string (\<open>%s\<close>, \<open>strcat\<close>)
  therefore runs on into whatever follows the block. What follows is the allocator's
  business, so it is the parameter \<open>slack\<close> of every reading operation: \<open>slack p\<close> are the
  bytes after the block at \<open>p\<close>. A block that was freed is no longer in the heap, and
  reading it or freeing it again is a \<open>Fault\<close>; fresh blocks never reuse an address, so a
  use after free is always seen. Address 0 is \<open>NULL\<close>.

  Any allocation may fail: \<open>grants n\<close> says whether the \<open>n\<close>-th one of the run succeeds and \<open>allocs\<close>
  counts them. The code tests only the two of \<open>initializeStore\<close>; a write through one of the others that failed
  is a \<open>Fault\<close>, and so is the doubling of \<open>capacity\<close> (an \<open>int\<close>) beyond its range. The other places where a size could
  leave the range are bounded by the array.
\<close>

type_synonym item = "int \<times> nat"

record kv =
  db_null :: bool           \<comment> \<open>\<open>db == NULL\<close>\<close>
  db_size :: nat
  db_cap :: nat
  db_arr :: "item list"     \<comment> \<open>the allocated array; only the first \<open>db_size\<close> items are live\<close>
  heap :: "nat \<Rightarrow> string option"
  brk :: nat                \<comment> \<open>the next address \<open>malloc\<close> gives\<close>
  out :: string             \<comment> \<open>standard output\<close>
  grants :: "nat \<Rightarrow> bool"    \<comment> \<open>which allocations succeed\<close>
  allocs :: nat             \<comment> \<open>the allocations so far\<close>

definition INITIAL_CAPACITY :: nat where
  "INITIAL_CAPACITY = 10000"

definition put_out :: "string \<Rightarrow> kv \<Rightarrow> kv" where
  "put_out t s = s\<lparr>out := out s @ t\<rparr>"

definition read_str :: "(nat \<Rightarrow> string) \<Rightarrow> nat \<Rightarrow> kv \<Rightarrow> string res" where
  "read_str slack p s =
     (case heap s p of
        None \<Rightarrow> Inl (Fault ''read of memory that is not allocated'')
      | Some b \<Rightarrow> Inr (cstr (b @ slack p)))"

text \<open>
  \<open>malloc(strlen(value))\<close> (or \<open>calloc\<close>) followed by the \<open>memcpy\<close> of those bytes, which is harmless after a failure
  only if there are none.
\<close>

definition new_value :: "string \<Rightarrow> kv \<Rightarrow> (nat \<times> kv) res" where
  "new_value v s =
     (let n = allocs s; s = s\<lparr>allocs := Suc n\<rparr>
      in if grants s n then Inr (brk s, s\<lparr>heap := (heap s)(brk s \<mapsto> v), brk := Suc (brk s)\<rparr>)
         else if v = [] then Inr (0, s)
         else Inl (Fault ''write to NULL''))"

definition free_value :: "nat \<Rightarrow> kv \<Rightarrow> kv res" where
  "free_value p s =
     (case heap s p of
        None \<Rightarrow> (if p = 0 then Inr s else Inl (Fault ''free of memory that is not allocated''))
      | Some b \<Rightarrow> Inr (s\<lparr>heap := (heap s)(p := None)\<rparr>))"

subsection \<open>The operations of the store\<close>

fun print_from :: "(nat \<Rightarrow> string) \<Rightarrow> item list \<Rightarrow> kv \<Rightarrow> kv res" where
  "print_from slack [] s = Inr s"
| "print_from slack (e # es) s =
     bindE (read_str slack (snd e) s) (\<lambda>v.
       print_from slack es (put_out (int_dec (fst e) @ '','' @ v @ [NL]) s))"

definition printAllStore :: "(nat \<Rightarrow> string) \<Rightarrow> kv \<Rightarrow> kv res" where
  "printAllStore slack s =
     (if db_null s then Inl (Fault ''NULL db'') else print_from slack (take (db_size s) (db_arr s)) s)"

fun copyArray :: "item list \<Rightarrow> item list \<Rightarrow> nat \<Rightarrow> item list" where
  "copyArray initial final 0 = final"
| "copyArray initial final (Suc n) = (copyArray initial final n)[n := initial ! n]"

definition live :: "kv \<Rightarrow> item list" where
  "live s = take (db_size s) (db_arr s)"

definition find_key :: "int \<Rightarrow> kv \<Rightarrow> nat option" where
  "find_key key s = first_idx (\<lambda>e. fst e = key) (live s)"

definition grow :: "kv \<Rightarrow> kv res" where
  "grow s =
     (if db_size s \<noteq> 0 \<and> db_size s = db_cap s
      then let s = put_out ''Increasing size'' s
           in if 2 ^ 31 \<le> db_cap s * 2 then Inl (Fault ''db->capacity overflows'')
              else
                let s = s\<lparr>db_cap := db_cap s * 2\<rparr>; n = allocs s; s = s\<lparr>allocs := Suc n\<rparr>
                in if \<not> grants s n then Inl (Fault ''write to NULL'')
                   else let arrNew = replicate (db_cap s) (0, 0)
                        in Inr (s\<lparr>db_arr := copyArray (db_arr s) arrNew (db_cap s div 2)\<rparr>)
      else Inr s)"

definition putinStore :: "int \<Rightarrow> string \<Rightarrow> kv \<Rightarrow> kv res" where
  "putinStore key value s =
     (if db_null s then Inr s
      else bindE (grow s) (\<lambda>s.
        case find_key key s of
           Some i \<Rightarrow>
             bindE (new_value value s) (\<lambda>(p, s).
               Inr (s\<lparr>db_arr := (db_arr s)[i := (fst (db_arr s ! i), p)]\<rparr>))
         | None \<Rightarrow>
             if db_size s < length (db_arr s)
             then bindE (new_value value s) (\<lambda>(p, s).
                    Inr (s\<lparr>db_arr := (db_arr s)[db_size s := (key, p)], db_size := Suc (db_size s)\<rparr>))
             else Inl (Fault ''write past the end of db->arr'')))"

text \<open>\<open>getFromStore\<close> prints the pair and returns the value pointer, \<open>None\<close> for \<open>NULL\<close>.\<close>

definition getFromStore :: "(nat \<Rightarrow> string) \<Rightarrow> int \<Rightarrow> kv \<Rightarrow> (nat option \<times> kv) res" where
  "getFromStore slack key s =
     (if db_null s then Inl (Fault ''NULL db'')
      else case find_key key s of
             None \<Rightarrow> Inr (None, s)
           | Some i \<Rightarrow>
               let e = db_arr s ! i in
               bindE (read_str slack (snd e) s) (\<lambda>v.
                 Inr (Some (snd e), put_out (int_dec (fst e) @ '','' @ v @ [NL]) s)))"

text \<open>The shifting loop of \<open>deleteKey\<close>: items \<open>i+1 .. n\<close> move one place down.\<close>

function shift_down :: "nat \<Rightarrow> nat \<Rightarrow> item list \<Rightarrow> item list" where
  "shift_down i n a = (if i < n then shift_down (Suc i) n (a[i := a ! Suc i]) else a)"
  by pat_completeness auto
termination
  by (relation "measure (\<lambda>(i, n, a). n - i)") auto

declare shift_down.simps [simp del]

definition deleteKey :: "int \<Rightarrow> kv \<Rightarrow> (bool \<times> kv) res" where
  "deleteKey key s =
     (if db_null s then Inl (Fault ''NULL db'')
      else case find_key key s of
             None \<Rightarrow> Inr (False, s)
           | Some i \<Rightarrow>
               let s = s\<lparr>db_arr := shift_down i (db_size s - 1) (db_arr s)\<rparr> in
               bindE (free_value (snd (db_arr s ! (db_size s - 1))) s) (\<lambda>s.
                 Inr (True, s\<lparr>db_size := db_size s - 1\<rparr>)))"

definition clearStore :: "kv \<Rightarrow> kv" where
  "clearStore s =
     (if db_null s then s
      else s\<lparr>db_arr := map (\<lambda>e. (fst e, 0)) (take (db_size s) (db_arr s)) @ drop (db_size s) (db_arr s),
             db_size := 0\<rparr>)"

text \<open>The set-up, with its two allocations; \<open>g\<close> says which allocations of the run succeed.\<close>

definition initializeStore :: "(nat \<Rightarrow> bool) \<Rightarrow> kv" where
  "initializeStore g =
     (if g 0 \<and> g 1
      then \<lparr>db_null = False, db_size = 0, db_cap = INITIAL_CAPACITY,
            db_arr = replicate INITIAL_CAPACITY (0, 0), heap = Map.empty, brk = 1, out = [], grants = g, allocs = 2\<rparr>
      else \<lparr>db_null = True, db_size = 0, db_cap = 0, db_arr = [], heap = Map.empty, brk = 1, out = [], grants = g,
            allocs = (if g 0 then 2 else 1)\<rparr>)"

subsection \<open>Loading, the commands, saving\<close>

text \<open>One line of \<open>database.txt\<close>: lines without two fields are skipped.\<close>

definition load_line :: "string \<Rightarrow> kv \<Rightarrow> kv res" where
  "load_line buff s =
     (case strtok (CHR '','') (cstr buff) of
        None \<Rightarrow> Inr s
      | Some (k, save) \<Rightarrow>
          (case strtok (CHR '','') save of
             None \<Rightarrow> Inr s
           | Some (v, save) \<Rightarrow>
               let v = takeWhile (\<lambda>c. c \<noteq> NL) v in
               if db_size s < length (db_arr s)
               then bindE (new_value v s) (\<lambda>(p, s).
                      Inr (s\<lparr>db_arr := (db_arr s)[db_size s := (to_int32 (st_val (strtol10 k)), p)],
                              db_size := Suc (db_size s)\<rparr>))
               else Inl (Fault ''write past the end of db->arr'')))"

function kv_load :: "string \<Rightarrow> kv \<Rightarrow> kv res" where
  "kv_load txt s =
     (case fgets 255 txt of
        None \<Rightarrow> Inr s
      | Some (buff, rest) \<Rightarrow>
          if db_null s then Inr s else bindE (load_line buff s) (kv_load rest))"
  by pat_completeness auto
termination
  by (relation "measure (\<lambda>(txt, s). length txt)") (auto intro: fgets_shorter [where n = 255])

declare kv_load.simps [simp del]

definition bad_command :: "kv \<Rightarrow> kv" where
  "bad_command s = put_out (''bad command'' @ [NL]) s"

text \<open>\<open>strtol\<close> on a key argument, \<open>None\<close> when the code answers \<open>bad command\<close>.\<close>

definition key_arg :: "string \<Rightarrow> int option" where
  "key_arg token =
     (let r = strtol10 token in
      if st_erange r \<or> st_none r then None else Some (to_int32 (st_val r)))"

abbreviation comma_tok :: "string \<Rightarrow> (string \<times> string) option" where
  "comma_tok \<equiv> strtok (CHR '','')"

definition cmd_p :: "string \<Rightarrow> kv \<Rightarrow> kv res" where
  "cmd_p save s =
     (case comma_tok save of
        None \<Rightarrow> Inr (bad_command s)
      | Some (token, save) \<Rightarrow>
          (case comma_tok save of
             None \<Rightarrow> Inr (bad_command s)
           | Some (v, save) \<Rightarrow>
               if comma_tok save \<noteq> None then Inr (bad_command s)
               else (case key_arg token of
                       None \<Rightarrow> Inr (bad_command s)
                     | Some key \<Rightarrow> putinStore key v s)))"

definition cmd_g :: "(nat \<Rightarrow> string) \<Rightarrow> string \<Rightarrow> kv \<Rightarrow> kv res" where
  "cmd_g slack save s =
     (case comma_tok save of
        None \<Rightarrow> Inr (bad_command s)
      | Some (token, save) \<Rightarrow>
          if comma_tok save \<noteq> None then Inr (bad_command s)
          else (case key_arg token of
                  None \<Rightarrow> Inr (bad_command s)
                | Some key \<Rightarrow>
                    bindE (getFromStore slack key s) (\<lambda>(value, s).
                      Inr (if value = None then put_out (int_dec key @ '' not found'' @ [NL]) s else s))))"

definition cmd_d :: "string \<Rightarrow> kv \<Rightarrow> kv res" where
  "cmd_d save s =
     (case comma_tok save of
        None \<Rightarrow> Inr (bad_command s)
      | Some (token, save) \<Rightarrow>
          if comma_tok save \<noteq> None then Inr (bad_command s)
          else (case key_arg token of
                  None \<Rightarrow> Inr (bad_command s)
                | Some key \<Rightarrow>
                    bindE (deleteKey key s) (\<lambda>(success, s).
                      Inr (if \<not> success then put_out (int_dec key @ '' not found'') s else s))))"

text \<open>
  One command-line argument. An argument with no token at all (empty, or only commas) makes
  the code call \<open>strcmp(NULL, "p")\<close>.
\<close>

definition kv_command :: "(nat \<Rightarrow> string) \<Rightarrow> string \<Rightarrow> kv \<Rightarrow> kv res" where
  "kv_command slack arg s =
     (case comma_tok arg of
        None \<Rightarrow> Inl (Fault ''strcmp of NULL'')
      | Some (token, save) \<Rightarrow>
          if token = ''p'' then cmd_p save s
          else if token = ''g'' then cmd_g slack save s
          else if token = ''c'' \<and> comma_tok save = None then Inr (clearStore s)
          else if token = ''d'' then cmd_d save s
          else if token = ''a'' \<and> comma_tok save = None then printAllStore slack s
          else Inr (bad_command s))"

text \<open>
  A line of the database is built in \<open>char num[100]\<close> with \<open>strcat\<close>, so a line of 100 bytes
  or more overruns the buffer.
\<close>

fun save_items :: "(nat \<Rightarrow> string) \<Rightarrow> kv \<Rightarrow> item list \<Rightarrow> string res" where
  "save_items slack s [] = Inr []"
| "save_items slack s (e # es) =
     bindE (read_str slack (snd e) s) (\<lambda>v.
       let num = int_dec (fst e) @ '','' @ v @ [NL] in
       if length num < 100 then bindE (save_items slack s es) (\<lambda>r. Inr (num @ r))
       else Inl (Fault ''overrun of num[100]''))"

definition kv_save :: "(nat \<Rightarrow> string) \<Rightarrow> kv \<Rightarrow> string res" where
  "kv_save slack s =
     (if db_null s then Inl (Fault ''NULL db'') else save_items slack s (live s))"

text \<open>
  \<open>main\<close>: the command-line arguments after the program name and the database file
  (\<open>None\<close> if it does not exist). The result is the output and the new database file.
  \<open>writable\<close> says whether opening the file for writing succeeds; if not, the first
  \<open>fputs\<close> writes to a \<open>NULL\<close> stream.
\<close>

definition kv_main ::
  "(nat \<Rightarrow> bool) \<Rightarrow> bool \<Rightarrow> (nat \<Rightarrow> string) \<Rightarrow> string list \<Rightarrow> string option \<Rightarrow>
   (string \<times> string option) res" where
  "kv_main g writable slack args file =
     (if args = [] then Inr ([], file)
      else bindE (case file of None \<Rightarrow> Inr (initializeStore g)
                  | Some txt \<Rightarrow> kv_load txt (initializeStore g)) (\<lambda>s.
           bindE (foldE (kv_command slack) args s) (\<lambda>s.
           bindE (kv_save slack s) (\<lambda>txt.
             if writable then Inr (out s, Some txt)
             else if db_size s = 0 then Inr (out s, file)
             else Inl (Fault ''fputs to a NULL stream'')))))"

subsection \<open>Well-formed stores and the map they stand for\<close>

definition wf_kv :: "kv \<Rightarrow> bool" where
  "wf_kv s \<longleftrightarrow> \<not> db_null s \<and> db_size s \<le> db_cap s \<and> length (db_arr s) = db_cap s \<and> 0 < db_cap s \<and>
     (\<forall>e \<in> set (live s). \<exists>v. heap s (snd e) = Some v \<and> NUL \<notin> set v) \<and>
     (\<forall>p. heap s p \<noteq> None \<longrightarrow> p < brk s)"

text \<open>The block behind a live item, and the contents of the store as a list of pairs.\<close>

definition block :: "kv \<Rightarrow> item \<Rightarrow> string" where
  "block s e = (case heap s (snd e) of Some v \<Rightarrow> v | None \<Rightarrow> [])"

definition contents :: "kv \<Rightarrow> (int \<times> string) list" where
  "contents s = map (\<lambda>e. (fst e, block s e)) (live s)"

definition kv_abs :: "kv \<Rightarrow> int \<Rightarrow> string option" where
  "kv_abs s = map_of (contents s)"

text \<open>What a reader finds behind a live item: the block, and what follows it in memory up to the next NUL.\<close>

definition shown :: "(nat \<Rightarrow> string) \<Rightarrow> kv \<Rightarrow> item \<Rightarrow> string" where
  "shown slack s e = block s e @ cstr (slack (snd e))"

lemma wf_kvD:
  assumes "wf_kv s"
  shows "\<not> db_null s" "db_size s \<le> db_cap s" "length (db_arr s) = db_cap s" "0 < db_cap s"
    "length (live s) = db_size s"
    "e \<in> set (live s) \<Longrightarrow> \<exists>v. heap s (snd e) = Some v \<and> NUL \<notin> set v"
    "heap s p \<noteq> None \<Longrightarrow> p < brk s"
  using assms by (auto simp: wf_kv_def live_def)

lemma read_str_block:
  assumes "wf_kv s" "e \<in> set (live s)"
  shows "read_str slack (snd e) s = Inr (shown slack s e)"
proof -
  obtain v where v: "heap s (snd e) = Some v" "NUL \<notin> set v"
    using wf_kvD(6) [OF assms] by blast
  then have "cstr (v @ slack (snd e)) = v @ cstr (slack (snd e))" by (auto simp: cstr_def takeWhile_append)
  with v show ?thesis by (simp add: read_str_def block_def shown_def)
qed

lemma map_of_first_idx:
  "map_of (map (\<lambda>e. (fst e, g e)) es) k =
     (case first_idx (\<lambda>e. fst e = k) es of None \<Rightarrow> None | Some i \<Rightarrow> Some (g (es ! i)))"
  by (induction es) (auto split: option.splits)

lemma kv_abs_find:
  "kv_abs s k = (case find_key k s of None \<Rightarrow> None | Some i \<Rightarrow> Some (block s (live s ! i)))"
  by (simp add: kv_abs_def contents_def find_key_def map_of_first_idx)

lemma find_keyD:
  assumes "find_key k s = Some i"
  shows "i < length (live s)" "fst (live s ! i) = k" "live s ! i \<in> set (live s)"
    "i < db_size s" "i < length (db_arr s)" "db_arr s ! i = live s ! i"
proof -
  show i: "i < length (live s)" "fst (live s ! i) = k"
    using assms first_idx_SomeD [OF assms [unfolded find_key_def]] by auto
  then show "live s ! i \<in> set (live s)" by (rule_tac nth_mem)
  show "i < db_size s" "i < length (db_arr s)" "db_arr s ! i = live s ! i"
    using i by (auto simp: live_def)
qed

lemma map_of_map_update:
  assumes "first_idx (\<lambda>e. fst e = k) es = Some i"
  shows "map_of ((map (\<lambda>e. (fst e, g e)) es)[i := (k, v)]) = (map_of (map (\<lambda>e. (fst e, g e)) es))(k \<mapsto> v)"
  using assms
proof (induction es arbitrary: i)
  case (Cons e es)
  then show ?case by (cases "fst e = k") (auto split: option.splits)
qed simp

lemma map_of_snoc_new:
  "first_idx (\<lambda>e. fst e = k) es = None \<Longrightarrow>
   map_of (map (\<lambda>e. (fst e, g e)) es @ [(k, v)]) = (map_of (map (\<lambda>e. (fst e, g e)) es))(k \<mapsto> v)"
  by (induction es) (auto simp: fun_eq_iff)

subsection \<open>Growing the array\<close>

lemma copyArray_nth:
  assumes "n \<le> length initial" "n \<le> length final"
  shows "length (copyArray initial final n) = length final \<and>
         take n (copyArray initial final n) = take n initial"
  using assms
proof (induction n)
  case (Suc n)
  then have l: "length (copyArray initial final n) = length final"
    and t: "take n (copyArray initial final n) = take n initial" by auto
  with Suc.prems show ?case by (simp add: take_Suc_conv_app_nth)
qed simp

lemma grow_props:
  assumes "wf_kv s" "\<forall>n. grants s n" "db_size s < 2 ^ 30"
  obtains t where "grow s = Inr t" "wf_kv t" "live t = live s" "heap t = heap s" "brk t = brk s"
    "db_size t = db_size s" "db_size t < db_cap t" "contents t = contents s" "grants t = grants s"
proof -
  note w = wf_kvD [OF assms(1)]
  have "\<exists>t. grow s = Inr t \<and> live t = live s \<and> heap t = heap s \<and> brk t = brk s \<and>
      db_null t = db_null s \<and> db_size t = db_size s \<and> length (db_arr t) = db_cap t \<and>
      db_size t < db_cap t \<and> grants t = grants s"
  proof (cases "db_size s \<noteq> 0 \<and> db_size s = db_cap s")
    case True
    then have "\<not> 2 ^ 31 \<le> db_cap s * 2" using assms(3) by simp
    then show ?thesis
      using True w(3,4) copyArray_nth [of "db_cap s" "db_arr s" "replicate (db_cap s * 2) (0,0)"] assms(2)
      by (simp add: grow_def Let_def live_def put_out_def)
  next
    case False
    with w(2-4) show ?thesis by (auto simp: grow_def)
  qed
  then obtain t where t: "grow s = Inr t" "live t = live s" "heap t = heap s" "brk t = brk s"
      "db_null t = db_null s" "db_size t = db_size s" "length (db_arr t) = db_cap t"
      "db_size t < db_cap t" "grants t = grants s" by blast
  moreover have "wf_kv t" using t assms(1) by (auto simp: wf_kv_def)
  moreover have "contents t = contents s" using t by (simp add: contents_def block_def)
  ultimately show thesis using that by blast
qed

subsection \<open>Put is a map update\<close>

lemma wf_put_at:
  assumes w: "wf_kv s" and i: "i < db_size s" and v: "NUL \<notin> set v"
    and t: "t = s\<lparr>heap := (heap s)(brk s \<mapsto> v), brk := Suc (brk s), allocs := Suc (allocs s), db_arr := (db_arr s)[i := (k, brk s)]\<rparr>"
  shows "wf_kv t" "live t = (live s)[i := (k, brk s)]" "contents t = (contents s)[i := (k, v)]"
proof -
  show l: "live t = (live s)[i := (k, brk s)]"
    using i by (simp add: t live_def take_update_swap)
  have fresh: "snd e \<noteq> brk s" if "e \<in> set (live s)" for e
    using wf_kvD(6,7) [OF w] that by fastforce
  then have b: "block t e = block s e" if "e \<in> set (live s)" for e
    using that by (simp add: block_def t)
  show "contents t = (contents s)[i := (k, v)]"
  proof (rule nth_equalityI)
    fix j assume "j < length (contents t)"
    then have j: "j < length (live s)" by (simp add: contents_def l)
    then have "live s ! j \<in> set (live s)" by simp
    with b have "block t (live s ! j) = block s (live s ! j)" by blast
    with j show "contents t ! j = (contents s)[i := (k, v)] ! j"
      by (cases "j = i") (simp_all add: contents_def l, simp add: block_def t)
  qed (simp add: contents_def l)
  have "\<exists>u. heap t (snd e) = Some u \<and> NUL \<notin> set u" if e: "e \<in> set (live t)" for e
  proof (cases "e = (k, brk s)")
    case True
    then show ?thesis using v by (simp add: t)
  next
    case False
    with e have m: "e \<in> set (live s)"
      unfolding l by (auto dest: set_update_subset_insert [THEN subsetD])
    from fresh [OF m] wf_kvD(6) [OF w m] show ?thesis by (simp add: t)
  qed
  with w show "wf_kv t" unfolding wf_kv_def by (auto simp: t less_SucI)
qed

lemma wf_put_end:
  assumes w: "wf_kv s" and n: "db_size s < db_cap s" and v: "NUL \<notin> set v"
    and t: "t = s\<lparr>heap := (heap s)(brk s \<mapsto> v), brk := Suc (brk s), allocs := Suc (allocs s),
                 db_arr := (db_arr s)[db_size s := (k, brk s)], db_size := Suc (db_size s)\<rparr>"
  shows "wf_kv t" "live t = live s @ [(k, brk s)]" "contents t = contents s @ [(k, v)]"
proof -
  show l: "live t = live s @ [(k, brk s)]"
    using n wf_kvD(3) [OF w] by (simp add: t live_def take_Suc_conv_app_nth)
  have fresh: "snd e \<noteq> brk s" if "e \<in> set (live s)" for e
    using wf_kvD(6,7) [OF w] that by fastforce
  then have b: "block t e = block s e" if "e \<in> set (live s)" for e
    using that by (simp add: block_def t)
  then show "contents t = contents s @ [(k, v)]"
    by (simp add: contents_def l) (simp add: block_def t)
  have "\<exists>u. heap t (snd e) = Some u \<and> NUL \<notin> set u" if e: "e \<in> set (live t)" for e
  proof (cases "e = (k, brk s)")
    case True
    then show ?thesis using v by (simp add: t)
  next
    case False
    with e have m: "e \<in> set (live s)"
      unfolding l by (auto dest: set_update_subset_insert [THEN subsetD])
    from fresh [OF m] wf_kvD(6) [OF w m] show ?thesis by (simp add: t)
  qed
  with w n show "wf_kv t" unfolding wf_kv_def by (auto simp: t less_SucI)
qed

lemma new_value_granted:
  "\<forall>n. grants s n \<Longrightarrow> new_value v s =
     Inr (brk s, s\<lparr>heap := (heap s)(brk s \<mapsto> v), brk := Suc (brk s), allocs := Suc (allocs s)\<rparr>)"
  by (simp add: new_value_def Let_def)

lemma putinStore_abs:
  assumes "wf_kv s" "\<forall>n. grants s n" "NUL \<notin> set v" "db_size s < 2 ^ 30"
  shows "\<exists>t. putinStore k v s = Inr t \<and> (wf_kv t \<and> (\<forall>n. grants t n)) \<and> kv_abs t = (kv_abs s)(k \<mapsto> v) \<and>
    db_size t \<le> Suc (db_size s)"
proof -
  obtain u where u: "grow s = Inr u" "wf_kv u" "live u = live s" "heap u = heap s" "brk u = brk s"
    "db_size u = db_size s" "db_size u < db_cap u" "contents u = contents s" "grants u = grants s"
    by (rule grow_props [OF assms(1,2,4)])
  have abs: "kv_abs u = kv_abs s" by (simp add: kv_abs_def u)
  have nv: "new_value v u = Inr (brk u, u\<lparr>heap := (heap u)(brk u \<mapsto> v), brk := Suc (brk u), allocs := Suc (allocs u)\<rparr>)"
    using assms(2) u(9) by (intro new_value_granted) simp
  have put: "putinStore k v s = (case find_key k u of
           Some i \<Rightarrow> bindE (new_value v u) (\<lambda>(p, s). Inr (s\<lparr>db_arr := (db_arr s)[i := (fst (db_arr s ! i), p)]\<rparr>))
         | None \<Rightarrow>
             if db_size u < length (db_arr u)
             then bindE (new_value v u) (\<lambda>(p, s).
                    Inr (s\<lparr>db_arr := (db_arr s)[db_size s := (k, p)], db_size := Suc (db_size s)\<rparr>))
             else Inl (Fault ''write past the end of db->arr''))"
    using wf_kvD(1) [OF assms(1)] u(1) by (simp add: putinStore_def)
  show ?thesis
  proof (cases "find_key k u")
    case None
    let ?t = "u\<lparr>heap := (heap u)(brk u \<mapsto> v), brk := Suc (brk u), allocs := Suc (allocs u),
                 db_arr := (db_arr u)[db_size u := (k, brk u)], db_size := Suc (db_size u)\<rparr>"
    note e = wf_put_end [OF u(2,7) assms(3) refl, of k]
    have "putinStore k v s = Inr ?t"
      using wf_kvD(3) [OF u(2)] u(7) None nv by (simp add: put)
    moreover have "kv_abs ?t = (kv_abs u)(k \<mapsto> v)"
      using map_of_snoc_new [OF None [unfolded find_key_def]] e(3)
      by (simp add: kv_abs_def contents_def)
    ultimately show ?thesis using e(1) abs u(6,9) assms(2) by (intro exI [of _ ?t]) simp
  next
    case (Some i)
    note f = find_keyD [OF Some]
    let ?t = "u\<lparr>heap := (heap u)(brk u \<mapsto> v), brk := Suc (brk u), allocs := Suc (allocs u),
                 db_arr := (db_arr u)[i := (k, brk u)]\<rparr>"
    note e = wf_put_at [OF u(2) f(4) assms(3) refl, of k]
    have "putinStore k v s = Inr ?t" using Some f nv by (simp add: put)
    moreover have "kv_abs ?t = (kv_abs u)(k \<mapsto> v)"
      using map_of_map_update [OF Some [unfolded find_key_def]] e(3)
      by (simp add: kv_abs_def contents_def)
    ultimately show ?thesis using e(1) abs u(6,9) assms(2) by (intro exI [of _ ?t]) simp
  qed
qed

text \<open>The allocations are not tested: the first one that fails ends the program with a write to address 0.\<close>

lemma putinStore_out_of_memory:
  assumes "\<not> db_null s" "db_size s < db_cap s" "length (db_arr s) = db_cap s" "\<not> grants s (allocs s)" "v \<noteq> []"
  shows "putinStore k v s = Inl (Fault ''write to NULL'')"
  using assms by (auto simp: putinStore_def grow_def new_value_def Let_def split: option.splits)

subsection \<open>The contract of a store\<close>

text \<open>
  What the command interpreter needs of the store: on well-formed stores and admissible
  values, and while there is room for a pair, put returns and updates the map. Facts about sequences of puts are proved
  once from the contract.
\<close>

locale map_store =
  fixes put :: "int \<Rightarrow> string \<Rightarrow> 's \<Rightarrow> 's res"
    and view :: "'s \<Rightarrow> int \<Rightarrow> string option"
    and ok :: "'s \<Rightarrow> bool"
    and good :: "string \<Rightarrow> bool"
    and taken :: "'s \<Rightarrow> nat"
    and limit :: nat
  assumes put_ok: "ok s \<Longrightarrow> good v \<Longrightarrow> taken s < limit \<Longrightarrow>
    \<exists>t. put k v s = Inr t \<and> ok t \<and> view t = (view s)(k \<mapsto> v) \<and> taken t \<le> Suc (taken s)"
begin

lemma puts_ok:
  assumes "ok s" "\<forall>(k, v) \<in> set kvs. good v" "taken s + length kvs \<le> limit"
  shows "\<exists>t. foldE (\<lambda>(k, v). put k v) kvs s = Inr t \<and> ok t \<and> view t = view s ++ map_of (rev kvs)"
  using assms
proof (induction kvs arbitrary: s)
  case Nil
  then show ?case by simp
next
  case (Cons kv kvs)
  obtain k v where kv: "kv = (k, v)" by fastforce
  with Cons.prems obtain u where u: "put k v s = Inr u" "ok u" "view u = (view s)(k \<mapsto> v)" "taken u \<le> Suc (taken s)"
    using put_ok [of s v k] by auto
  from Cons.IH [OF u(2)] Cons.prems(2,3) u(4) obtain t where
    "foldE (\<lambda>(k, v). put k v) kvs u = Inr t" "ok t" "view t = view u ++ map_of (rev kvs)"
    by auto
  then show ?case using u by (auto simp: kv map_add_def fun_eq_iff map_of_append split: option.splits)
qed

lemma put_other_key:
  assumes "ok s" "good v" "taken s < limit" "put k v s = Inr t" "k' \<noteq> k"
  shows "view t k' = view s k'" "view t k = Some v"
  using put_ok [OF assms(1-3), of k] assms(4,5) by auto

end

interpretation kvs: map_store putinStore kv_abs "\<lambda>s. wf_kv s \<and> (\<forall>n. grants s n)" "\<lambda>v. NUL \<notin> set v" db_size "2 ^ 30"
  by unfold_locales (rule putinStore_abs, auto)

subsection \<open>Get, clear, delete\<close>

lemma put_out_simps [simp]:
  "db_null (put_out t s) = db_null s" "db_size (put_out t s) = db_size s"
  "db_arr (put_out t s) = db_arr s" "heap (put_out t s) = heap s" "out (put_out t s) = out s @ t"
  "live (put_out t s) = live s" "block (put_out t s) = block s" "contents (put_out t s) = contents s"
  "wf_kv (put_out t s) = wf_kv s"
  by (simp_all add: put_out_def live_def block_def contents_def wf_kv_def fun_eq_iff)

lemma getFromStore_abs:
  assumes "wf_kv s"
  shows "\<exists>p t. getFromStore slack k s = Inr (p, t) \<and> (p = None \<longleftrightarrow> kv_abs s k = None) \<and>
     out t = out s @ (case p of None \<Rightarrow> []
       | Some q \<Rightarrow> int_dec k @ '','' @ the (kv_abs s k) @ cstr (slack q) @ [NL]) \<and>
     contents t = contents s \<and> wf_kv t"
proof (cases "find_key k s")
  case None
  then show ?thesis using wf_kvD(1) [OF assms(1)] assms(1)
    by (simp add: getFromStore_def kv_abs_find Let_def)
next
  case (Some i)
  note f = find_keyD [OF Some]
  have "read_str slack (snd (db_arr s ! i)) s = Inr (shown slack s (live s ! i))"
    using read_str_block [OF assms f(3)] f(6) by simp
  with Some f wf_kvD(1) [OF assms(1)] assms(1) show ?thesis
    by (simp add: getFromStore_def kv_abs_find shown_def Let_def)
qed

lemma clearStore_abs: "wf_kv s \<Longrightarrow> wf_kv (clearStore s) \<and> kv_abs (clearStore s) = Map.empty"
  by (auto simp: clearStore_def wf_kv_def live_def kv_abs_def contents_def)

lemma shift_down_eq:
  "i \<le> n \<Longrightarrow> n < length a \<Longrightarrow>
   shift_down i n a = take i a @ take (n - i) (drop (Suc i) a) @ drop n a"
proof (induction i n a rule: shift_down.induct)
  case (1 i n a)
  show ?case
  proof (cases "i < n")
    case True
    let ?b = "a[i := a ! Suc i]"
    from True 1 have "shift_down i n a = take (Suc i) ?b @ take (n - Suc i) (drop (Suc (Suc i)) ?b) @ drop n ?b"
      by (simp add: shift_down.simps [of i n a])
    moreover have "take (Suc i) ?b = take i a @ [a ! Suc i]"
      using True "1.prems" by (simp add: take_Suc_conv_app_nth)
    moreover have "take (n - i) (drop (Suc i) a) = a ! Suc i # take (n - Suc i) (drop (Suc (Suc i)) a)"
      using True "1.prems" by (subst Cons_nth_drop_Suc [symmetric]) (simp_all add: take_Cons' )
    ultimately show ?thesis using True by simp
  next
    case False
    with "1.prems" have "i = n" "n < length a" by simp_all
    then show ?thesis by (simp add: shift_down.simps [of n n a])
  qed
qed

definition remove_at :: "nat \<Rightarrow> 'a list \<Rightarrow> 'a list" where
  "remove_at i xs = take i xs @ drop (Suc i) xs"

lemma shift_down_live:
  assumes "i < n" "n \<le> length a"
  shows "take (n - 1) (shift_down i (n - 1) a) = remove_at i (take n a)"
    "shift_down i (n - 1) a ! (n - 1) = a ! (n - 1)"
    "length (shift_down i (n - 1) a) = length a"
proof -
  obtain m where n: "n = Suc m" using assms(1) by (cases n) auto
  have im: "i \<le> m" "m < length a" using assms n by auto
  have e: "shift_down i m a = take i a @ take (m - i) (drop (Suc i) a) @ drop m a"
    by (rule shift_down_eq [OF im])
  have l: "length (take i a @ take (m - i) (drop (Suc i) a)) = m"
    using im by (auto simp: min_def)
  show "take (n - 1) (shift_down i (n - 1) a) = remove_at i (take n a)"
    using im l append_eq_conv_conj [THEN iffD1, OF e [symmetric, folded append_assoc]]
    unfolding n by (simp add: remove_at_def drop_take)
  show "shift_down i (n - 1) a ! (n - 1) = a ! (n - 1)"
    using im l unfolding n e append_assoc [symmetric] diff_Suc_1 by (subst nth_append) simp
  show "length (shift_down i (n - 1) a) = length a"
    using im l unfolding n e append_assoc [symmetric] diff_Suc_1 length_append by simp
qed

text \<open>
  What \<open>deleteKey\<close> really does: the item is taken out of the array, but the block that is
  freed is the one of the \<^emph>\<open>last\<close> item of the old array.
\<close>

lemma deleteKey_eq:
  assumes "wf_kv s" "find_key k s = Some i"
  shows "\<exists>t. deleteKey k s = Inr (True, t) \<and> live t = remove_at i (live s) \<and>
     heap t = (heap s)(snd (last (live s)) := None) \<and> db_null t = db_null s"
proof -
  note w = wf_kvD [OF assms(1)] and f = find_keyD [OF assms(2)]
  let ?n = "db_size s"
  have n: "i < ?n" "?n \<le> length (db_arr s)" using f w by auto
  note sh = shift_down_live [OF n]
  have l: "last (live s) = db_arr s ! (?n - 1)"
    using n by (subst last_conv_nth) (auto simp: live_def)
  have "last (live s) \<in> set (live s)" using n w(5) by (intro last_in_set) auto
  then obtain v where "heap s (snd (db_arr s ! (?n - 1))) = Some v"
    using w(6) l by metis
  then show ?thesis
    using assms(2) w(1) sh unfolding l
    by (simp add: deleteKey_def Let_def free_value_def live_def del: One_nat_def)
qed

subsection \<open>Saving and loading\<close>

text \<open>A pair the text format can carry: no separator in the value, and a line that fits.\<close>

definition storable :: "int \<times> string \<Rightarrow> bool" where
  "storable e \<longleftrightarrow> int32_range (fst e) \<and> snd e \<noteq> [] \<and>
     CHR '','' \<notin> set (snd e) \<and> NUL \<notin> set (snd e) \<and> NL \<notin> set (snd e) \<and>
     length (int_dec (fst e)) + length (snd e) < 98"

definition line_of :: "int \<times> string \<Rightarrow> string" where
  "line_of e = int_dec (fst e) @ '','' @ snd e @ [NL]"

lemma save_items_lines:
  assumes "wf_kv s" "set es \<subseteq> set (live s)"
    and "\<forall>e \<in> set es. storable (fst e, shown slack s e)"
  shows "save_items slack s es = Inr (concat (map (\<lambda>e. line_of (fst e, shown slack s e)) es))"
  using assms(2,3)
proof (induction es)
  case (Cons e es)
  then have "read_str slack (snd e) s = Inr (shown slack s e)"
    using read_str_block [OF assms(1)] by simp
  with Cons show ?case by (simp add: line_of_def Let_def storable_def)
qed simp

lemma load_line_line:
  assumes "storable (k, v)" "db_size s < length (db_arr s)" "\<forall>n. grants s n"
  shows "load_line (line_of (k, v)) s =
     Inr (s\<lparr>heap := (heap s)(brk s \<mapsto> v), brk := Suc (brk s), allocs := Suc (allocs s),
            db_arr := (db_arr s)[db_size s := (k, brk s)], db_size := Suc (db_size s)\<rparr>)"
proof -
  have k: "int_dec k \<noteq> []" "CHR '','' \<notin> set (int_dec k)" "NUL \<notin> set (int_dec k)"
    using int_dec_no_special by fastforce+
  have v: "v @ [NL] \<noteq> []" "CHR '','' \<notin> set (v @ [NL])" "NUL \<notin> set (v @ [NL])" "NL \<notin> set v"
    using assms(1) by (auto simp: storable_def)
  have c: "cstr (line_of (k, v)) = int_dec k @ CHR '','' # (v @ [NL])"
    using k v by (simp add: line_of_def)
  have "takeWhile (\<lambda>c. c \<noteq> NL) (v @ [NL]) = v" using v(4) by (auto simp: takeWhile_append)
  moreover have "to_int32 (st_val (strtol10 (int_dec k))) = k"
    using assms(1) by (simp add: storable_def strtol10_int_dec to_int32_id)
  ultimately show ?thesis
    using assms(2) unfolding load_line_def c strtok_token(1) [OF k(1,2)]
    by (simp add: strtok_token(2) [OF v(1,2)] Let_def new_value_granted [OF assms(3)])
qed

lemma fgets_line_of:
  assumes "storable e"
  shows "fgets 255 (line_of e @ r) = Some (line_of e, r)"
proof -
  have nl: "NL \<notin> set (int_dec (fst e) @ '','' @ snd e)"
    using assms int_dec_no_special by (fastforce simp: storable_def)
  have len: "length (int_dec (fst e) @ '','' @ snd e) + 1 < 255"
    using assms by (simp add: storable_def)
  from fgets_line [OF nl len, of r] show ?thesis by (simp add: line_of_def)
qed

lemma kv_load_lines:
  assumes "wf_kv s" "\<forall>e \<in> set ps. storable e" "db_size s + length ps \<le> db_cap s" "\<forall>n. grants s n"
  shows "\<exists>t. kv_load (concat (map line_of ps)) s = Inr t \<and> wf_kv t \<and> contents t = contents s @ ps"
  using assms
proof (induction ps arbitrary: s)
  case Nil
  then show ?case by (simp add: kv_load.simps [of "[]"] fgets_def)
next
  case (Cons p ps)
  obtain k v where p: "p = (k, v)" by fastforce
  let ?u = "s\<lparr>heap := (heap s)(brk s \<mapsto> v), brk := Suc (brk s), allocs := Suc (allocs s),
            db_arr := (db_arr s)[db_size s := (k, brk s)], db_size := Suc (db_size s)\<rparr>"
  have st: "storable (k, v)" and n: "db_size s < db_cap s" using Cons.prems p by auto
  then have "NUL \<notin> set v" by (simp add: storable_def)
  note e = wf_put_end [OF Cons.prems(1) n this refl, of k]
  have "load_line (line_of (k, v)) s = Inr ?u"
    using load_line_line [OF st _ Cons.prems(4)] n wf_kvD(3) [OF Cons.prems(1)] by simp
  then have "kv_load (concat (map line_of (p # ps))) s = kv_load (concat (map line_of ps)) ?u"
    using fgets_line_of [OF st] wf_kvD(1) [OF Cons.prems(1)]
    by (subst kv_load.simps) (simp add: p)
  with Cons.IH [OF e(1)] Cons.prems e(3) show ?case by (auto simp: p)
qed

lemma initializeStore_wf:
  assumes "\<forall>n. g n"
  shows "wf_kv (initializeStore g)" "contents (initializeStore g) = []" "db_cap (initializeStore g) = 10000"
    "db_size (initializeStore g) = 0" "grants (initializeStore g) = g"
  using assms by (simp_all add: initializeStore_def wf_kv_def live_def contents_def INITIAL_CAPACITY_def)

section \<open>Properties\<close>

text \<open>
  C36. Put refines map update, for any sequence of puts: from a well-formed store (below,
  at and beyond the point where the array doubles) every put returns, and the map the store
  stands for is the old one overridden by the sequence, later puts winning. Every allocation
  succeeds (one that fails is written through, see \<open>putinStore_out_of_memory\<close>), and the store ends with at most
  \<open>2 ^ 30\<close> pairs, so that its capacity can still be doubled as an \<open>int\<close>.
\<close>

theorem kv_puts_refine_map:
  assumes "wf_kv s" and "\<forall>n. grants s n" and "\<forall>(k, v) \<in> set kvs. NUL \<notin> set v"
    and "db_size s + length kvs \<le> 2 ^ 30"
  shows "\<exists>t. foldE (\<lambda>(k, v). putinStore k v) kvs s = Inr t \<and> wf_kv t \<and>
     kv_abs t = kv_abs s ++ map_of (rev kvs)"
  using kvs.puts_ok [of s kvs] assms by blast

theorem kv_puts_refine_map_witness:
  "\<exists>t. foldE (\<lambda>(k, v). putinStore k v) [(1, ''a''), (2, ''b''), (1, ''c'')] (initializeStore (\<lambda>_. True)) = Inr t \<and>
     kv_abs t 1 = Some ''c'' \<and> kv_abs t 2 = Some ''b''"
proof -
  have g: "\<forall>n. (\<lambda>_. True) (n :: nat)" by simp
  note i = initializeStore_wf [OF g]
  have v: "\<forall>(k, v) \<in> set [(1::int, ''a''), (2, ''b''), (1, ''c'')]. NUL \<notin> set v" by simp
  have "\<forall>n. grants (initializeStore (\<lambda>_. True)) n" by (simp add: i(5))
  from kv_puts_refine_map [OF i(1) this v] show ?thesis
    by (auto simp: kv_abs_def i)
qed

text \<open>
  C37. Deleting a key that is not the last item frees the value of the last item, which is
  still live: afterwards saving the database reads freed memory, whatever follows the heap
  blocks. (\<open>deleteKey\<close> frees \<open>arr[size - 1].value\<close> after the shift, when that pointer is
  also \<open>arr[size - 2].value\<close>.)
\<close>

theorem kv_delete_frees_live_value:
  assumes "wf_kv s" and "find_key key s = Some i" and "Suc i < db_size s"
  shows "\<exists>t. deleteKey key s = Inr (True, t) \<and> live t = remove_at i (live s) \<and>
     heap t (snd (last (live t))) = None \<and> (\<exists>m. kv_save slack t = Inl m)"
proof -
  from deleteKey_eq [OF assms(1,2)] obtain t where t: "deleteKey key s = Inr (True, t)"
    "live t = remove_at i (live s)" "heap t = (heap s)(snd (last (live s)) := None)"
    "db_null t = db_null s" by blast
  have ne: "drop (Suc i) (live s) \<noteq> []" using assms(3) wf_kvD(5) [OF assms(1)] by simp
  then have "last (live t) = last (live s)" "live t \<noteq> []" by (simp_all add: t(2) remove_at_def)
  then have dead: "heap t (snd (last (live t))) = None" by (simp add: t(3))
  have stop: "\<exists>m. save_items slack t es = Inl m" if "e \<in> set es" "heap t (snd e) = None" for e es
    using that
  proof (induction es)
    case (Cons x es)
    then show ?case
      by (cases "read_str slack (snd x) t") (auto simp: read_str_def Let_def)
  qed simp
  from stop [OF last_in_set [OF \<open>live t \<noteq> []\<close>] dead] have "\<exists>m. kv_save slack t = Inl m"
    by (simp add: kv_save_def)
  with t dead show ?thesis by blast
qed

theorem kv_delete_frees_live_value_witness:
  "\<exists>s t. deleteKey 1 s = Inr (True, t) \<and> db_size s = 2 \<and> (\<exists>m. kv_save (\<lambda>_. [NUL]) t = Inl m)"
proof -
  let ?s = "\<lparr>db_null = False, db_size = 2, db_cap = 4, db_arr = [(1, 1), (2, 2), (0, 0), (0, 0)],
    heap = [1 \<mapsto> ''one'', 2 \<mapsto> ''two''], brk = 3, out = [], grants = \<lambda>_. True, allocs = 4\<rparr>"
  have w: "wf_kv ?s" by (auto simp: wf_kv_def live_def split: if_splits)
  have f: "find_key 1 ?s = Some 0" by (simp add: find_key_def live_def)
  have n: "Suc 0 < db_size ?s" by simp
  from kv_delete_frees_live_value [OF w f n, of "\<lambda>_. [NUL]"]
  obtain t m where "deleteKey 1 ?s = Inr (True, t)" "kv_save (\<lambda>_. [NUL]) t = Inl m" by blast
  moreover have "db_size ?s = 2" by simp
  ultimately show ?thesis by blast
qed

text \<open>
  C38. What a run leaves in the database file for the next one. The values are stored without their NUL, so
  \<open>kv_save\<close> writes each with the bytes that follow it in memory up to the next NUL, and \<open>kv_load\<close> reads exactly that back:
  the same keys in the same order, each value extended by what followed it. The pairs survive unchanged if and only if
  a NUL happens to follow every value. This is for at most \<open>INITIAL_CAPACITY\<close> pairs (more overrun the array) whose
  extended values are free of commas and newlines and fit a line, and when every allocation succeeds.
\<close>

theorem kv_save_load_roundtrip:
  assumes "wf_kv s" and "\<forall>e \<in> set (live s). storable (fst e, shown slack s e)"
    and "db_size s \<le> INITIAL_CAPACITY" and "\<forall>n. g n"
  shows "\<exists>txt t. kv_save slack s = Inr txt \<and> kv_load txt (initializeStore g) = Inr t \<and> wf_kv t \<and>
     contents t = map (\<lambda>e. (fst e, block s e @ cstr (slack (snd e)))) (live s) \<and>
     (contents t = contents s \<longleftrightarrow> (\<forall>e \<in> set (live s). cstr (slack (snd e)) = []))"
proof -
  let ?ps = "map (\<lambda>e. (fst e, shown slack s e)) (live s)"
  have "kv_save slack s = Inr (concat (map line_of ?ps))"
    using save_items_lines [OF assms(1) order_refl assms(2)] wf_kvD(1) [OF assms(1)] by (simp add: kv_save_def comp_def)
  moreover have "\<exists>t. kv_load (concat (map line_of ?ps)) (initializeStore g) = Inr t \<and> wf_kv t \<and>
      contents t = contents (initializeStore g) @ ?ps"
    by (rule kv_load_lines) (use assms wf_kvD(5) [OF assms(1)] in \<open>simp_all add: initializeStore_wf INITIAL_CAPACITY_def\<close>)
  moreover have "?ps = contents s \<longleftrightarrow> (\<forall>e \<in> set (live s). cstr (slack (snd e)) = [])"
    by (simp add: contents_def shown_def)
  ultimately show ?thesis using initializeStore_wf(2) [OF assms(4)] by (auto simp: shown_def)
qed

theorem kv_save_load_roundtrip_witness:
  "\<exists>s txt t. kv_save (\<lambda>p. if p = 2 then ''!'' @ [NUL] else [NUL]) s = Inr txt \<and> kv_load txt (initializeStore (\<lambda>_. True)) = Inr t \<and>
     contents s = [(1, ''one''), (-2, ''two'')] \<and> contents t = [(1, ''one''), (-2, ''two!'')]"
proof -
  let ?s = "\<lparr>db_null = False, db_size = 2, db_cap = 4, db_arr = [(1, 1), (-2, 2), (0, 0), (0, 0)],
    heap = [1 \<mapsto> ''one'', 2 \<mapsto> ''two''], brk = 3, out = [], grants = \<lambda>_. True, allocs = 4\<rparr>"
  let ?f = "\<lambda>p. if p = 2 then ''!'' @ [NUL] else [NUL]"
  have w: "wf_kv ?s" by (auto simp: wf_kv_def live_def split: if_splits)
  have l: "live ?s = [(1, 1), (-2, 2)]" by (simp add: live_def)
  have c: "contents ?s = [(1, ''one''), (-2, ''two'')]" by (simp add: contents_def block_def live_def)
  have s: "\<forall>e \<in> set (live ?s). storable (fst e, shown ?f ?s e)"
    unfolding l by (simp add: storable_def shown_def block_def cstr_def int32_range_def int_dec_def nat_dec.simps)
  have n: "db_size ?s \<le> INITIAL_CAPACITY" by (simp add: INITIAL_CAPACITY_def)
  have g: "\<forall>n. (\<lambda>_. True) (n :: nat)" by simp
  have e: "map (\<lambda>e. (fst e, block ?s e @ cstr (?f (snd e)))) (live ?s) = [(1, ''one''), (-2, ''two!'')]"
    unfolding l by (simp add: block_def cstr_def)
  from kv_save_load_roundtrip [OF w s n g, unfolded e] c show ?thesis by metis
qed

end
