(* ===== verification/Pzip.thy ===== *)
theory Pzip
  imports Prelude "HOL-Library.Signed_Division"
begin

text \<open>
  The sequential parts of \<open>ParallelZip/pzip.c\<close>: the bounded queue (\<open>put\<close>, \<open>get\<close>), the
  chunks the producer makes of the input files, the run-length encoding of one chunk by a
  consumer, and \<open>compressOutput\<close>, which merges runs across chunk boundaries and writes the
  result. How the threads share the queue is in \<open>Pzip_Threads\<close>.

  The \<open>address\<close> of a queue item points into a file mapping; it is modelled by the bytes of
  the mapping from that address on, so \<open>s += chunkSz\<close> drops \<open>chunkSz\<close> bytes. An encoded run
  is a record of 5 bytes, a 4-byte count and the character; chunks of encoded output are
  lists of such records. File sizes are \<open>nat\<close>; where the code passes one to \<open>ceiling\<close> it
  becomes an \<open>int\<close>, and so it does here (\<open>to_int32\<close>): a file of \<open>2^31\<close> bytes or more is
  counted as some other number of chunks. A signed addition that would overflow is a
  \<open>Fault\<close>. \<open>malloc\<close> is taken to return memory (the code never tests its result).
\<close>

type_synonym byte = "8 word"
type_synonym crec = "32 word \<times> byte"

record qitem =
  address :: "byte list"
  chunkNum :: nat
  chunkSize :: nat

text \<open>The queue and its counters, global variables of the program.\<close>

record ring =
  q :: "qitem list"
  numFull :: nat
  fillPtr :: nat
  usePtr :: nat

definition qLen :: nat where
  "qLen = 9"

text \<open>\<open>ceiling\<close>: signed division and remainder, which truncate towards zero.\<close>

definition ceiling_div :: "int \<Rightarrow> int \<Rightarrow> int" where
  "ceiling_div num1 num2 = num1 sdiv num2 + (if num1 smod num2 \<noteq> 0 then 1 else 0)"

definition put :: "qitem \<Rightarrow> ring \<Rightarrow> ring" where
  "put qObj r = r\<lparr>q := (q r)[fillPtr r := qObj], fillPtr := (fillPtr r + 1) mod qLen,
                  numFull := numFull r + 1\<rparr>"

definition get :: "ring \<Rightarrow> qitem \<times> ring" where
  "get r = (q r ! usePtr r, r\<lparr>usePtr := (usePtr r + 1) mod qLen, numFull := numFull r - 1\<rparr>)"

subsection \<open>Chunks of the input\<close>

text \<open>
  A command-line file as the producer meets it: it cannot be opened (skipped), \<open>fstat\<close> or
  \<open>mmap\<close> fails (the process exits), or it is mapped.
\<close>

datatype pfile = NoOpen | StatFails | MapFails "byte list" | Mapped "byte list"

fun file_chunks :: "nat \<Rightarrow> nat \<Rightarrow> nat \<Rightarrow> nat \<Rightarrow> byte list \<Rightarrow> nat \<Rightarrow> qitem list" where
  "file_chunks chunkSz loops fSize g s 0 = []"
| "file_chunks chunkSz loops fSize g s (Suc left) =
     (let i = loops - Suc left;
          obj = \<lparr>address = s, chunkNum = g,
                 chunkSize = (if fSize mod chunkSz = 0 then chunkSz
                              else if i = loops - 1 then fSize mod chunkSz else chunkSz)\<rparr>
      in obj # file_chunks chunkSz loops fSize (g + 1) (drop chunkSz s) left)"

text \<open>
  All items the producer puts, in order, starting at global chunk number \<open>globalPage\<close>.
  \<open>fSize\<close> is a \<open>size_t\<close>, converted to \<open>int\<close> in the call of \<open>ceiling\<close>; the loop over the
  chunks does nothing when \<open>loops\<close> is not positive.
\<close>

fun producer_items :: "nat \<Rightarrow> nat \<Rightarrow> pfile list \<Rightarrow> qitem list res" where
  "producer_items chunkSz globalPage [] = Inr []"
| "producer_items chunkSz globalPage (NoOpen # fs) = producer_items chunkSz globalPage fs"
| "producer_items chunkSz globalPage (StatFails # fs) = Inl (Exited 1)"
| "producer_items chunkSz globalPage (MapFails bs # fs) =
     (if bs = [] then producer_items chunkSz globalPage fs else Inl (Exited 1))"
| "producer_items chunkSz globalPage (Mapped bs # fs) =
     (let fSize = length bs;
          numChunks = ceiling_div (to_int32 (int fSize)) (int chunkSz);
          loops = nat numChunks
      in if fSize = 0 then producer_items chunkSz globalPage fs
         else if 2 ^ 31 \<le> globalPage + loops then Inl (Fault ''globalPage overflows'')
         else bindE (producer_items chunkSz (globalPage + loops) fs) (\<lambda>rest.
                Inr (file_chunks chunkSz loops fSize globalPage bs loops @ rest)))"

text \<open>
  The chunk count \<open>main\<close> computes to size the output array: the loop, from the value
  \<open>totalChunks\<close> has. The result of \<open>fstat\<close> is not tested here; when it fails, \<open>st\<close> is
  not set. The size is an \<open>off_t\<close>, again converted to \<open>int\<close>.
\<close>

fun total_chunks :: "nat \<Rightarrow> int \<Rightarrow> pfile list \<Rightarrow> int res" where
  "total_chunks chunkSz totalChunks [] = Inr totalChunks"
| "total_chunks chunkSz totalChunks (NoOpen # fs) = total_chunks chunkSz totalChunks fs"
| "total_chunks chunkSz totalChunks (StatFails # fs) = Inl (Fault ''st is not set'')"
| "total_chunks chunkSz totalChunks (MapFails bs # fs) =
     (let n = totalChunks + ceiling_div (to_int32 (int (length bs))) (int chunkSz)
      in if int32_range n then total_chunks chunkSz n fs else Inl (Fault ''totalChunks overflows''))"
| "total_chunks chunkSz totalChunks (Mapped bs # fs) =
     (let n = totalChunks + ceiling_div (to_int32 (int (length bs))) (int chunkSz)
      in if int32_range n then total_chunks chunkSz n fs else Inl (Fault ''totalChunks overflows''))"

subsection \<open>Run-length encoding of one chunk\<close>

text \<open>
  The inner loop. \<open>c\<close> is a \<open>char\<close> (signed) while \<open>inbuf[i+1]\<close> is an \<open>unsigned char\<close>, so
  the comparison is between the signed value of the one and the unsigned value of the
  other: for bytes from 128 on it is never true.
\<close>

function run_loop :: "byte list \<Rightarrow> nat \<Rightarrow> byte \<Rightarrow> nat \<Rightarrow> 32 word \<Rightarrow> nat \<times> 32 word" where
  "run_loop inbuf sz c i count =
     (if i + 1 < sz \<and> uint (inbuf ! (i + 1)) = sint c then run_loop inbuf sz c (i + 1) (count + 1)
      else (i, count))"
  by pat_completeness auto
termination
  by (relation "measure (\<lambda>(inbuf, sz, c, i, count). sz - i)") auto

declare run_loop.simps [simp del]

lemma run_loop_ge: "run_loop inbuf sz c i count = (i', n) \<Longrightarrow> i \<le> i'"
proof (induction inbuf sz c i count rule: run_loop.induct)
  case (1 inbuf sz c i count)
  then show ?case
    by (cases "i + 1 < sz \<and> uint (inbuf ! (i + 1)) = sint c")
      (auto simp: run_loop.simps [of inbuf sz c i count])
qed

function rle_loop :: "byte list \<Rightarrow> nat \<Rightarrow> nat \<Rightarrow> crec list \<Rightarrow> crec list" where
  "rle_loop inbuf sz i outbuf =
     (if i < sz
      then let c = inbuf ! i in
           if c = 0 then rle_loop inbuf sz (i + 1) outbuf
           else (case run_loop inbuf sz c i 1 of
                   (i', count) \<Rightarrow> rle_loop inbuf sz (i' + 1) (outbuf @ [(count, c)]))
      else outbuf)"
  by pat_completeness auto
termination
  by (relation "measure (\<lambda>(inbuf, sz, i, outbuf). sz - i)")
    (auto dest!: run_loop_ge [OF sym])

declare rle_loop.simps [simp del]

definition rle :: "qitem \<Rightarrow> crec list" where
  "rle obj = rle_loop (address obj) (chunkSize obj) 0 []"

subsection \<open>Merging the chunks\<close>

text \<open>The 5 bytes \<open>fwrite\<close> sends for a record, on a little-endian machine.\<close>

definition encode_rec :: "crec \<Rightarrow> byte list" where
  "encode_rec r = [ucast (fst r), ucast (drop_bit 8 (fst r)), ucast (drop_bit 16 (fst r)),
                   ucast (drop_bit 24 (fst r)), snd r]"

text \<open>
  The loop state: \<open>prevval\<close>, \<open>prevch\<close>, the record that ends at \<open>oldptr\<close> (none before the
  first record) as it stands in memory after the update, and what was written.
\<close>

record merge_state =
  prevval :: "32 word"
  prevch :: byte
  oldrec :: "crec option"
  written :: "byte list"

definition merge_step :: "crec \<Rightarrow> merge_state \<Rightarrow> merge_state res" where
  "merge_step r m =
     (let ch = snd r;
          val = (if ch = prevch m then fst r + prevval m else fst r);
          m' = m\<lparr>prevch := ch, prevval := val, oldrec := Some (val, ch)\<rparr>
      in if ch = prevch m then Inr m'
         else if prevch m \<noteq> 0
         then (case oldrec m of
                 None \<Rightarrow> Inl (Fault ''fwrite before the buffer'')
               | Some old \<Rightarrow> Inr (m'\<lparr>written := written m @ encode_rec old\<rparr>))
         else Inr m')"

definition merge_chunk :: "(nat \<Rightarrow> crec list option) \<Rightarrow> nat \<Rightarrow> merge_state \<Rightarrow> merge_state res" where
  "merge_chunk output i m =
     (case output i of
        None \<Rightarrow> Inl (Fault ''output entry never set'')
      | Some rs \<Rightarrow> foldE merge_step rs m)"

definition compressOutput :: "nat \<Rightarrow> (nat \<Rightarrow> crec list option) \<Rightarrow> byte list res" where
  "compressOutput totalChunks output =
     bindE (foldE (merge_chunk output) [0..<totalChunks]
              \<lparr>prevval = 0, prevch = 0, oldrec = None, written = []\<rparr>) (\<lambda>m.
       (case oldrec m of
          None \<Rightarrow> Inl (Fault ''fwrite before the buffer'')
        | Some old \<Rightarrow> Inr (written m @ encode_rec old)))"

section \<open>Specification: runs of a byte string\<close>

fun runs :: "'a list \<Rightarrow> (nat \<times> 'a) list" where
  "runs [] = []"
| "runs (x # xs) =
     (case runs xs of
        [] \<Rightarrow> [(1, x)]
      | (n, y) # rs \<Rightarrow> if x = y then (Suc n, y) # rs else (1, x) # (n, y) # rs)"

fun expand :: "(nat \<times> 'a) list \<Rightarrow> 'a list" where
  "expand [] = []"
| "expand ((n, x) # rs) = replicate n x @ expand rs"

definition wrec :: "nat \<times> byte \<Rightarrow> crec" where
  "wrec r = (of_nat (fst r), snd r)"

definition encode_runs :: "(nat \<times> byte) list \<Rightarrow> byte list" where
  "encode_runs rs = concat (map (encode_rec \<circ> wrec) rs)"

lemma expand_append [simp]: "expand (xs @ ys) = expand xs @ expand ys"
  by (induction xs rule: expand.induct) auto

lemma expand_runs: "expand (runs xs) = xs"
  by (induction xs) (auto split: list.splits)

lemma runs_hd: "runs (x # xs) = (n, y) # rs \<Longrightarrow> y = x"
  by (auto split: list.splits if_splits)

lemma runs_Cons_replicate:
  assumes "ys = [] \<or> hd ys \<noteq> c"
  shows "runs (replicate (Suc a) c @ ys) = (Suc a, c) # runs ys"
proof (induction a)
  case 0
  show ?case
  proof (cases ys)
    case (Cons y zs)
    then obtain n z rs where r: "runs ys = (n, z) # rs"
      by (cases "runs ys") (auto split: list.splits if_splits)
    with Cons have "z = y" using runs_hd by metis
    with Cons assms r show ?thesis by auto
  qed simp
next
  case (Suc a)
  then show ?case by simp
qed

text \<open>The runs are maximal: neighbouring runs have different characters.\<close>

fun adjacent_distinct :: "(nat \<times> 'a) list \<Rightarrow> bool" where
  "adjacent_distinct ((n, x) # (m, y) # rs) \<longleftrightarrow> x \<noteq> y \<and> adjacent_distinct ((m, y) # rs)"
| "adjacent_distinct _ \<longleftrightarrow> True"

lemma runs_maximal: "adjacent_distinct (runs xs)"
proof (induction xs)
  case (Cons x xs)
  then show ?case
    by (cases "runs xs"; cases "tl (runs xs)") (auto split: list.splits)
qed simp

section \<open>A chunk's encoding expands to the chunk without its NULs\<close>

lemma same_char:
  assumes "uint (x :: byte) = sint c"
  shows "x = c"
proof -
  have "x = of_int (uint x)" by simp
  also have "\<dots> = of_int (sint c)" by (simp only: assms)
  also have "\<dots> = c" by simp
  finally show ?thesis .
qed

lemma run_loop_spec:
  assumes "run_loop inbuf sz c i count = (i', n)" "i < sz"
  shows "\<exists>k. i' = i + k \<and> n = count + of_nat k \<and> i' < sz \<and> (\<forall>j \<in> {Suc i..i'}. inbuf ! j = c)"
  using assms
proof (induction inbuf sz c i count rule: run_loop.induct)
  case (1 inbuf sz c i count)
  show ?case
  proof (cases "i + 1 < sz \<and> uint (inbuf ! (i + 1)) = sint c")
    case True
    with 1 obtain k where k: "i' = i + 1 + k" "n = count + 1 + of_nat k" "i' < sz"
      "\<forall>j \<in> {Suc (i + 1)..i'}. inbuf ! j = c"
      by (auto simp: run_loop.simps [of inbuf sz c i count])
    moreover have "inbuf ! Suc i = c" using True same_char by auto
    moreover have "j = Suc i \<or> j \<in> {Suc (i + 1)..i'}" if "j \<in> {Suc i..i'}" for j
      using that by auto
    ultimately show ?thesis by (intro exI [of _ "Suc k"]) (auto simp del: atLeastAtMost_iff)
  next
    case False
    with 1(2,3) show ?thesis
      by (auto simp: run_loop.simps [of inbuf sz c i count] intro: exI [of _ 0])
  qed
qed

definition rle_ok :: "(nat \<times> byte) list \<Rightarrow> bool" where
  "rle_ok rs \<longleftrightarrow> (\<forall>(n, c) \<in> set rs. 0 < n \<and> c \<noteq> 0)"

definition nonzero :: "byte list \<Rightarrow> byte list" where
  "nonzero bs = filter (\<lambda>c. c \<noteq> 0) bs"

lemma nonzero_simps [simp]:
  "nonzero [] = []" "nonzero (xs @ ys) = nonzero xs @ nonzero ys"
  "nonzero (x # xs) = (if x = 0 then nonzero xs else x # nonzero xs)"
  by (auto simp: nonzero_def)

lemma nonzero_concat: "nonzero (concat xss) = concat (map nonzero xss)"
  by (induction xss) auto

lemma drop_run:
  assumes "\<forall>j \<in> {Suc i..i + k}. xs ! j = c" "i + k < length xs" "xs ! i = c"
  shows "drop i xs = replicate (Suc k) c @ drop (Suc (i + k)) xs"
  using assms
proof (induction k arbitrary: i)
  case 0
  then show ?case using Cons_nth_drop_Suc [of i xs] by simp
next
  case (Suc k)
  from Suc.prems have "drop (Suc i) xs = replicate (Suc k) c @ drop (Suc (Suc i + k)) xs"
    by (intro Suc.IH) auto
  moreover have "drop i xs = c # drop (Suc i) xs"
    using Suc.prems by (simp add: Cons_nth_drop_Suc [symmetric])
  ultimately show ?case by simp
qed

lemma rle_loop_spec:
  assumes "sz \<le> length inbuf"
  shows "\<exists>rs. rle_loop inbuf sz i outbuf = outbuf @ map wrec rs \<and>
     expand rs = nonzero (drop i (take sz inbuf)) \<and> rle_ok rs"
  using assms
proof (induction inbuf sz i outbuf rule: rle_loop.induct)
  case (1 inbuf sz i outbuf)
  let ?xs = "take sz inbuf"
  consider "sz \<le> i" | "i < sz" "inbuf ! i = 0" | "i < sz" "inbuf ! i \<noteq> 0" by linarith
  then show ?case
  proof cases
    case 1
    then show ?thesis
      by (auto simp: rle_loop.simps [of inbuf sz i outbuf] rle_ok_def intro!: exI [of _ "[]"])
  next
    case 2
    with "1.IH"(1) [OF 2(1) refl 2(2) "1.prems"]
    obtain rs where "rle_loop inbuf sz (i + 1) outbuf = outbuf @ map wrec rs"
      "expand rs = nonzero (drop (i + 1) ?xs)" "rle_ok rs" by blast
    moreover have "drop i ?xs = 0 # drop (i + 1) ?xs"
      using 2 "1.prems" by (simp add: Cons_nth_drop_Suc [symmetric])
    ultimately show ?thesis using 2
      by (auto simp: rle_loop.simps [of inbuf sz i outbuf])
  next
    case 3
    let ?c = "inbuf ! i"
    obtain i' n where r: "run_loop inbuf sz ?c i 1 = (i', n)" by fastforce
    from run_loop_spec [OF this 3(1)] obtain k where k: "i' = i + k" "n = of_nat (Suc k)"
      "i + k < sz" "\<forall>j \<in> {Suc i..i + k}. inbuf ! j = ?c" by auto
    from "1.IH"(2) [OF 3(1) refl 3(2) r [symmetric] "1.prems"]
    obtain rs where rs: "rle_loop inbuf sz (i' + 1) (outbuf @ [(n, ?c)]) = (outbuf @ [(n, ?c)]) @ map wrec rs"
      "expand rs = nonzero (drop (i' + 1) ?xs)" "rle_ok rs" by blast
    have "drop i ?xs = replicate (Suc k) ?c @ drop (Suc (i + k)) ?xs"
      using k "1.prems" 3 by (intro drop_run) auto
    then have "nonzero (drop i ?xs) = replicate (Suc k) ?c @ nonzero (drop (i' + 1) ?xs)"
      using 3(2) k(1) by (simp add: nonzero_def)
    then show ?thesis using 3 r rs k(2)
      by (intro exI [of _ "(Suc k, ?c) # rs"])
        (auto simp: rle_loop.simps [of inbuf sz i outbuf] rle_ok_def wrec_def)
  qed
qed

lemma rle_spec:
  assumes "chunkSize obj \<le> length (address obj)"
  shows "\<exists>rs. rle obj = map wrec rs \<and> expand rs = nonzero (take (chunkSize obj) (address obj)) \<and> rle_ok rs"
  using rle_loop_spec [OF assms, of 0 "[]"] by (simp add: rle_def)

section \<open>Merging chunk encodings\<close>

lemma wrec_add: "(of_nat n :: 32 word) + of_nat a = of_nat (a + n)"
  by simp

lemma replicate_merge: "replicate a c @ replicate n c @ ys = replicate (a + n) c @ ys"
  by (simp add: replicate_add)

text \<open>Merging from a pending run \<open>(a, c)\<close>.\<close>

lemma merge_pending:
  assumes "rle_ok rs" "0 < a" "c \<noteq> 0"
    and "m = \<lparr>prevval = of_nat a, prevch = c, oldrec = Some (wrec (a, c)), written = w\<rparr>"
  shows "\<exists>m' old. foldE merge_step (map wrec rs) m = Inr m' \<and> oldrec m' = Some old \<and>
     written m' @ encode_rec old = w @ encode_runs (runs (replicate a c @ expand rs))"
  using assms
proof (induction rs arbitrary: a c m w)
  case Nil
  then show ?case
    using runs_Cons_replicate [of "[]" c "a - 1"] by (cases "wrec (a, c)") (simp add: encode_runs_def)
next
  case (Cons r rs)
  obtain n d where r: "r = (n, d)" by fastforce
  have n: "0 < n" "d \<noteq> 0" and ok: "rle_ok rs" using Cons.prems(1) r by (auto simp: rle_ok_def)
  show ?case
  proof (cases "d = c")
    case True
    let ?m = "\<lparr>prevval = of_nat (a + n), prevch = c, oldrec = Some (wrec (a + n, c)), written = w\<rparr>"
    have "merge_step (wrec r) m = Inr ?m"
      using True Cons.prems(4) by (simp add: merge_step_def r wrec_def Let_def add.commute)
    with Cons.IH [OF ok _ Cons.prems(3) refl, of "a + n" w] Cons.prems(2) True show ?thesis
      by (simp add: r replicate_add)
  next
    case False
    let ?w = "w @ encode_rec (wrec (a, c))"
    let ?m = "\<lparr>prevval = of_nat n, prevch = d, oldrec = Some (wrec (n, d)), written = ?w\<rparr>"
    have "merge_step (wrec r) m = Inr ?m"
      using False Cons.prems(3,4) by (simp add: merge_step_def r wrec_def Let_def)
    moreover have "runs (replicate a c @ replicate n d @ expand rs) = (a, c) # runs (replicate n d @ expand rs)"
      using runs_Cons_replicate [of "replicate n d @ expand rs" c "a - 1"] False n(1) Cons.prems(2)
      by (cases n) simp_all
    ultimately show ?thesis
      using Cons.IH [OF ok n refl, of ?w] by (simp add: r encode_runs_def)
  qed
qed

lemma merge_all:
  assumes "rle_ok rs" "rs \<noteq> []"
  shows "\<exists>m' old. foldE merge_step (map wrec rs) \<lparr>prevval = 0, prevch = 0, oldrec = None, written = []\<rparr> = Inr m' \<and>
     oldrec m' = Some old \<and> written m' @ encode_rec old = encode_runs (runs (expand rs))"
proof -
  obtain n d rs' where rs: "rs = (n, d) # rs'" using assms(2) by (cases rs) auto
  with assms(1) have n: "0 < n" "d \<noteq> 0" "rle_ok rs'" by (auto simp: rle_ok_def)
  have "merge_step (wrec (n, d)) \<lparr>prevval = 0, prevch = 0, oldrec = None, written = []\<rparr> =
      Inr \<lparr>prevval = of_nat n, prevch = d, oldrec = Some (wrec (n, d)), written = []\<rparr>"
    using n(2) by (simp add: merge_step_def wrec_def Let_def)
  with merge_pending [OF n(3,1,2) refl, of "[]"] show ?thesis by (simp add: rs)
qed

lemma fold_merge_chunks:
  assumes "\<forall>i \<in> set is. output i = Some (map wrec (f i))"
  shows "foldE (merge_chunk output) is m = foldE merge_step (map wrec (concat (map f is))) m"
  using assms
proof (induction "is" arbitrary: m)
  case (Cons i "is")
  then show ?case
    by (simp add: foldE_append merge_chunk_def) (metis (mono_tags) bindE_cong)
qed simp

lemma rle_ok_concat: "\<forall>i \<in> set is. rle_ok (f i) \<Longrightarrow> rle_ok (concat (map f is))"
  by (auto simp: rle_ok_def)

lemma expand_concat: "expand (concat (map f is)) = concat (map (\<lambda>i. expand (f i)) is)"
  by (induction "is") auto

lemma rle_ok_expand_Nil: "rle_ok rs \<Longrightarrow> expand rs = [] \<longleftrightarrow> rs = []"
  by (cases rs) (auto simp: rle_ok_def)

lemma compressOutput_spec:
  assumes "\<forall>i < n. \<exists>rs. output i = Some (map wrec rs) \<and> expand rs = d i \<and> rle_ok rs"
  shows "compressOutput n output =
     (let bs = concat (map d [0..<n]) in
      if bs = [] then Inl (Fault ''fwrite before the buffer'') else Inr (encode_runs (runs bs)))"
proof -
  obtain f where f: "\<forall>i < n. output i = Some (map wrec (f i)) \<and> expand (f i) = d i \<and> rle_ok (f i)"
    using assms by metis
  let ?rs = "concat (map f [0..<n])"
  have ok: "rle_ok ?rs" using f by (intro rle_ok_concat) auto
  have ex: "expand ?rs = concat (map d [0..<n])"
    unfolding expand_concat using f by (intro arg_cong [of _ _ concat]) auto
  have fold: "foldE (merge_chunk output) [0..<n] m = foldE merge_step (map wrec ?rs) m" for m
    using f by (intro fold_merge_chunks) auto
  show ?thesis
  proof (cases "?rs = []")
    case True
    then have e: "concat (map d [0..<n]) = []" using ex by (metis expand.simps(1))
    show ?thesis unfolding compressOutput_def fold e True by simp
  next
    case False
    then have e: "concat (map d [0..<n]) \<noteq> []" using ex rle_ok_expand_Nil [OF ok] by simp
    from merge_all [OF ok False] e show ?thesis
      unfolding compressOutput_def fold ex by auto
  qed
qed

section \<open>The chunks cover the files\<close>

definition chunk_data :: "qitem \<Rightarrow> byte list" where
  "chunk_data x = take (chunkSize x) (address x)"

definition good_item :: "qitem \<Rightarrow> bool" where
  "good_item x \<longleftrightarrow> chunkSize x \<le> length (address x)"

definition last_size :: "nat \<Rightarrow> nat \<Rightarrow> nat" where
  "last_size fSize cs = (if fSize mod cs = 0 then cs else fSize mod cs)"

text \<open>For the sizes an \<open>int\<close> can hold, \<open>ceiling\<close> is the number of chunks of a file.\<close>

definition chunk_count :: "nat \<Rightarrow> nat \<Rightarrow> nat" where
  "chunk_count fSize cs = fSize div cs + (if fSize mod cs \<noteq> 0 then 1 else 0)"

lemma chunk_count_0 [simp]: "chunk_count 0 cs = 0"
  by (simp add: chunk_count_def)

lemma ceiling_div_count: "ceiling_div (int a) (int b) = int (chunk_count a b)"
proof -
  have "int a sdiv int b = int (a div b)" "int a smod int b = int (a mod b)"
    by (cases "a = 0"; cases "b = 0"; simp add: signed_divide_int_def signed_modulo_int_def zdiv_int zmod_int)+
  then show ?thesis by (simp add: ceiling_div_def chunk_count_def)
qed

lemma ceiling_div_size:
  assumes "fSize < 2 ^ 31"
  shows "ceiling_div (to_int32 (int fSize)) (int cs) = int (chunk_count fSize cs)"
proof -
  have "int32_range (int fSize)" using assms by (simp add: int32_range_def)
  then show ?thesis by (simp add: to_int32_id ceiling_div_count)
qed

lemma chunk_count_split:
  assumes "0 < cs" "0 < fSize"
  shows "0 < chunk_count fSize cs" "fSize = (chunk_count fSize cs - 1) * cs + last_size fSize cs"
proof -
  have e: "fSize = fSize div cs * cs + fSize mod cs" by simp
  show "0 < chunk_count fSize cs" using assms e by (auto simp: chunk_count_def div_greater_zero_iff
      intro: ccontr)
  show "fSize = (chunk_count fSize cs - 1) * cs + last_size fSize cs"
  proof (cases "fSize mod cs = 0")
    case True
    with e assms obtain d where "fSize div cs = Suc d" by (cases "fSize div cs") auto
    with True e show ?thesis by (simp add: chunk_count_def last_size_def)
  next
    case False
    with e show ?thesis by (simp add: chunk_count_def last_size_def)
  qed
qed

text \<open>
  A file of at least \<open>2^31\<close> and at most \<open>2^32 - chunkSz\<close> bytes is counted as a number of
  chunks that is not positive: the producer puts nothing for it.
\<close>

lemma big_file_skipped:
  assumes "0 < cs" "2 ^ 31 \<le> length bs" "length bs + cs \<le> 2 ^ 32"
  shows "ceiling_div (to_int32 (int (length bs))) (int cs) \<le> 0"
    and "g < 2 ^ 31 \<Longrightarrow> producer_items cs g (Mapped bs # fs) = producer_items cs g fs"
proof -
  let ?z = "to_int32 (int (length bs))"
  have z: "?z = int (length bs) - 2 ^ 32"
  proof -
    have "(word_of_int (int (length bs) - 2 ^ 32) :: 32 word) = word_of_int (int (length bs))"
      by (simp only: word_of_int_eq_iff) (simp add: take_bit_eq_mod mod_diff_right_eq [of _ "2 ^ 32", symmetric])
    then have "?z = to_int32 (int (length bs) - 2 ^ 32)" by (simp only: to_int32_def)
    also have "\<dots> = int (length bs) - 2 ^ 32"
      using assms by (intro to_int32_id) (simp add: int32_range_def)
    finally show ?thesis .
  qed
  have "?z < 0" "int cs \<le> - ?z" using assms by (simp_all add: z)
  then have "1 \<le> - ?z div int cs" using assms(1) zdiv_mono1 [of "int cs" "- ?z" "int cs"] by simp
  then have "?z sdiv int cs \<le> - 1" using \<open>?z < 0\<close> assms(1) by (simp add: signed_divide_int_def)
  then show c: "ceiling_div ?z (int cs) \<le> 0" by (simp add: ceiling_div_def)
  have "0 < length bs" using assms(2) by (rule less_le_trans [rotated]) simp
  then show "producer_items cs g (Mapped bs # fs) = producer_items cs g fs" if "g < 2 ^ 31"
    using c that by (cases "producer_items cs g fs") (auto simp: Let_def)
qed

lemma file_chunks_spec:
  assumes "left \<le> loops" "0 < left \<Longrightarrow> length s = (left - 1) * cs + last_size fSize cs"
    "left = 0 \<Longrightarrow> s = []"
  shows "concat (map chunk_data (file_chunks cs loops fSize g s left)) = s \<and>
     map chunkNum (file_chunks cs loops fSize g s left) = [g..<g + left] \<and>
     (\<forall>x \<in> set (file_chunks cs loops fSize g s left). good_item x)"
  using assms
proof (induction left arbitrary: g s)
  case (Suc left)
  show ?case
  proof (cases "left = 0")
    case True
    then have "loops - Suc left = loops - 1" by simp
    with True Suc.prems show ?thesis
      by (simp add: Let_def chunk_data_def good_item_def last_size_def)
  next
    case False
    then obtain l where l: "left = Suc l" by (cases left) auto
    have len: "length s = cs + (l * cs + last_size fSize cs)" using Suc.prems(2) by (simp add: l)
    then have "length (drop cs s) = (left - 1) * cs + last_size fSize cs" by (simp add: l)
    with Suc.IH [of "drop cs s" "g + 1"] Suc.prems(1) l
    have ih: "concat (map chunk_data (file_chunks cs loops fSize (g + 1) (drop cs s) left)) = drop cs s"
      "map chunkNum (file_chunks cs loops fSize (g + 1) (drop cs s) left) = [g + 1..<g + 1 + left]"
      "\<forall>x \<in> set (file_chunks cs loops fSize (g + 1) (drop cs s) left). good_item x" by simp_all
    have "loops - Suc left \<noteq> loops - 1" using Suc.prems(1) l by linarith
    then have size: "(if fSize mod cs = 0 then cs
        else if loops - Suc left = loops - 1 then fSize mod cs else cs) = cs" by simp
    have "[g..<g + Suc left] = g # [g + 1..<g + 1 + left]" by (simp add: upt_rec)
    moreover have "chunk_data \<lparr>address = s, chunkNum = g, chunkSize = cs\<rparr> = take cs s"
      "good_item \<lparr>address = s, chunkNum = g, chunkSize = cs\<rparr>"
      using len by (simp_all add: chunk_data_def good_item_def)
    ultimately show ?thesis using ih
      by (simp add: Let_def size del: upt.simps)
  qed
qed simp

fun file_bytes :: "pfile \<Rightarrow> byte list" where
  "file_bytes (Mapped bs) = bs"
| "file_bytes (MapFails bs) = bs"
| "file_bytes _ = []"

definition fits_int :: "pfile list \<Rightarrow> bool" where
  "fits_int fs \<longleftrightarrow> (\<forall>f \<in> set fs. length (file_bytes f) < 2 ^ 31)"

definition count_chunks :: "nat \<Rightarrow> pfile list \<Rightarrow> nat" where
  "count_chunks cs fs = (\<Sum>f \<leftarrow> fs. chunk_count (length (file_bytes f)) cs)"

lemma count_chunks_simps [simp]:
  "count_chunks cs [] = 0"
  "count_chunks cs (f # fs) = chunk_count (length (file_bytes f)) cs + count_chunks cs fs"
  by (simp_all add: count_chunks_def)

lemma fits_int_simps [simp]:
  "fits_int []" "fits_int (f # fs) \<longleftrightarrow> length (file_bytes f) < 2 ^ 31 \<and> fits_int fs"
  by (simp_all add: fits_int_def)

lemma producer_items_spec:
  assumes "0 < cs" "fits_int fs" "producer_items cs g fs = Inr items" "g < 2 ^ 31"
  shows "concat (map chunk_data items) = concat (map file_bytes fs) \<and>
     map chunkNum items = [g..<g + count_chunks cs fs] \<and> (\<forall>x \<in> set items. good_item x) \<and>
     total_chunks cs (int g) fs = Inr (int (g + count_chunks cs fs))"
  using assms(2-4)
proof (induction fs arbitrary: g items)
  case (Cons f fs)
  note IH = Cons.IH
  have g: "int32_range (int g)" using Cons.prems(3) by (simp add: int32_range_def)
  show ?case
  proof (cases f)
    case (Mapped bs)
    let ?n = "chunk_count (length bs) cs"
    have cnt: "ceiling_div (to_int32 (int (length bs))) (int cs) = int ?n"
      using Cons.prems(1) Mapped by (simp add: ceiling_div_size)
    show ?thesis
    proof (cases "bs = []")
      case True
      then have "producer_items cs g fs = Inr items" using Cons.prems(2) Mapped by simp
      with IH [OF _ this Cons.prems(3)] Cons.prems(1) True Mapped g cnt show ?thesis by simp
    next
      case False
      have lt: "g + ?n < 2 ^ 31"
        using Cons.prems(2) False Mapped cnt by (auto simp: Let_def split: if_splits)
      with False Cons.prems(2) Mapped cnt obtain rest where rest: "producer_items cs (g + ?n) fs = Inr rest"
        and items: "items = file_chunks cs ?n (length bs) g bs ?n @ rest"
        by (auto simp: Let_def)
      have "0 < length bs" using False by simp
      from chunk_count_split [OF assms(1) this]
        file_chunks_spec [of ?n ?n bs cs "length bs" g]
      have "concat (map chunk_data (file_chunks cs ?n (length bs) g bs ?n)) = bs \<and>
        map chunkNum (file_chunks cs ?n (length bs) g bs ?n) = [g..<g + ?n] \<and>
        (\<forall>x \<in> set (file_chunks cs ?n (length bs) g bs ?n). good_item x)" by simp
      moreover have "int32_range (int g + int ?n)" using lt by (simp add: int32_range_def)
      moreover have "fits_int fs" using Cons.prems(1) by simp
      ultimately show ?thesis using IH [OF _ rest lt]
        upt_add_eq_append [of g "g + ?n" "count_chunks cs fs"] cnt
        by (auto simp: items Mapped add.assoc)
    qed
  qed (use Cons g in \<open>auto simp: ceiling_div_size split: if_splits\<close>)
qed simp

lemma file_bytes_chunks:
  assumes "0 < cs" "fits_int fs" "producer_items cs 0 fs = Inr items" "i < count_chunks cs fs"
  shows "length items = count_chunks cs fs" "chunkNum (items ! i) = i" "good_item (items ! i)"
proof -
  from producer_items_spec [OF assms(1-3)] have m: "map chunkNum items = [0..<count_chunks cs fs]"
    and g: "\<forall>x \<in> set items. good_item x" by auto
  show l: "length items = count_chunks cs fs" using arg_cong [OF m, of length] by simp
  show "chunkNum (items ! i) = i" using arg_cong [OF m, of "\<lambda>xs. xs ! i"] assms(4) l by simp
  show "good_item (items ! i)" using g l assms(4) by simp
qed

text \<open>
  When every chunk has been encoded into its entry of \<open>output\<close>, the program writes the runs
  of the concatenated files without their NUL bytes.
\<close>

lemma compressOutput_files:
  assumes "0 < cs" "fits_int fs" "producer_items cs 0 fs = Inr items"
    and "\<forall>x \<in> set items. output (chunkNum x) = Some (rle x)"
  shows "compressOutput (count_chunks cs fs) output =
     (let bs = nonzero (concat (map file_bytes fs)) in
      if bs = [] then Inl (Fault ''fwrite before the buffer'') else Inr (encode_runs (runs bs)))"
proof -
  let ?n = "count_chunks cs fs"
  note it = file_bytes_chunks [OF assms(1-3)]
  have len: "length items = ?n"
    using producer_items_spec [OF assms(1-3)] length_map [of chunkNum items] by simp
  have "\<exists>rs. output i = Some (map wrec rs) \<and> expand rs = nonzero (chunk_data (items ! i)) \<and> rle_ok rs"
    if "i < ?n" for i
  proof -
    have "output i = Some (rle (items ! i))" using assms(4) it(2) [OF that] that len by (metis nth_mem)
    with rle_spec [of "items ! i"] it(3) [OF that] show ?thesis
      by (auto simp: good_item_def chunk_data_def)
  qed
  moreover have "concat (map (\<lambda>i. nonzero (chunk_data (items ! i))) [0..<?n]) =
      nonzero (concat (map file_bytes fs))"
  proof -
    have "map (\<lambda>i. nonzero (chunk_data (items ! i))) [0..<?n] = map nonzero (map chunk_data items)"
      using len by (intro nth_equalityI) simp_all
    then show ?thesis
      using producer_items_spec [OF assms(1-3)] nonzero_concat [of "map chunk_data items"] by simp
  qed
  ultimately show ?thesis
    using compressOutput_spec [of ?n "output" "\<lambda>i. nonzero (chunk_data (items ! i))"] by metis
qed

end
