(* ===== verification/Queues.thy ===== *)
theory Queues
  imports Prelude
begin

text \<open>
  The bounded first-in first-out queue: its contract, which the ring of \<open>pzip.c\<close> (\<open>Pzip_Threads\<close>), the
  kernel's pipes (\<open>File\<close>) and its console input (\<open>Line_Input\<close>) meet, and the arithmetic of rings whose
  indices run freely over all 32-bit values and are reduced when they are used.
\<close>

locale bounded_queue =
  fixes enq :: "'a \<Rightarrow> 'q \<Rightarrow> 'q"
    and deq :: "'q \<Rightarrow> 'a \<times> 'q"
    and elems :: "'q \<Rightarrow> 'a list"
    and inv :: "'q \<Rightarrow> bool"
    and cap :: nat
  assumes enq_ok: "inv r \<Longrightarrow> length (elems r) < cap \<Longrightarrow> inv (enq x r) \<and> elems (enq x r) = elems r @ [x]"
    and deq_ok: "inv r \<Longrightarrow> elems r = x # xs \<Longrightarrow> fst (deq r) = x \<and> inv (snd (deq r)) \<and> elems (snd (deq r)) = xs"
    and in_cap: "inv r \<Longrightarrow> length (elems r) \<le> cap"
begin

lemma deq_set:
  assumes "inv r" "elems r \<noteq> []" "deq r = (x, r')"
  shows "inv r'" "elems r = x # elems r'"
  using deq_ok [OF assms(1), of "hd (elems r)" "tl (elems r)"] assms(2,3) by auto

lemma enq_set:
  assumes "inv r" "length (elems r) \<noteq> cap"
  shows "inv (enq x r)" "elems (enq x r) = elems r @ [x]"
  using enq_ok [OF assms(1)] in_cap [OF assms(1)] assms(2) by auto

lemma enq_all:
  "inv r \<Longrightarrow> length (elems r) + length xs \<le> cap \<Longrightarrow> inv (fold enq xs r) \<and> elems (fold enq xs r) = elems r @ xs"
proof (induction xs arbitrary: r)
  case (Cons x xs)
  then have "inv (enq x r)" "elems (enq x r) = elems r @ [x]" using enq_set [of r x] by auto
  with Cons.IH [of "enq x r"] Cons.prems(2) show ?case by simp
qed simp

lemma enq_enq_deq:
  "inv r \<Longrightarrow> elems r = [] \<Longrightarrow> 1 < cap \<Longrightarrow> fst (deq (enq y (enq x r))) = x"
  using enq_ok [of r x] enq_ok [of "enq x r" y] deq_ok [of "enq y (enq x r)" x "[y]"] by simp

end

section \<open>Slots of a ring\<close>

lemma slot_inj:
  assumes "(a + j) mod n = (a + k) mod n" "j < n" "k < (n :: nat)"
  shows "j = k"
proof -
  have "j = k" if "j \<le> k" "(a + k) mod n = (a + j) mod n" "k < n" for j k n :: nat
  proof -
    from that have "n dvd k - j" by (simp add: mod_eq_dvd_iff_nat)
    with that show ?thesis by (metis diff_is_0_eq dvd_imp_le le_antisym less_imp_diff_less not_le not_less_zero neq0_conv)
  qed
  from this [of j k n] this [of k j n] assms show ?thesis by (cases "j \<le> k") auto
qed

section \<open>Rings with free-running indices\<close>

text \<open>The contents between a read index and a write index of a ring of \<open>n\<close> slots.\<close>

definition span :: "nat \<Rightarrow> (nat \<Rightarrow> 'a) \<Rightarrow> 32 word \<Rightarrow> 32 word \<Rightarrow> 'a list" where
  "span n d r w = map (\<lambda>k. d ((unat r + k) mod n)) [0..<unat (w - r)]"

lemma length_span [simp]: "length (span n d r w) = unat (w - r)"
  by (simp add: span_def)

lemma span_empty [simp]: "span n d r w = [] \<longleftrightarrow> r = w"
  by (auto simp: span_def unat_eq_0)

lemma unat_sub_add_mod:
  fixes r w :: "32 word"
  assumes "n dvd 2 ^ 32"
  shows "(unat r + unat (w - r)) mod n = unat w mod n"
proof -
  have "unat w = (unat r + unat (w - r)) mod 2 ^ 32"
    using unat_word_ariths(1) [of r "w - r"] by simp
  then show ?thesis using mod_mod_cancel [OF assms, of "unat r + unat (w - r)"] by simp
qed

lemma unat_succ_sub:
  fixes r w :: "32 word"
  assumes "Suc (unat (w - r)) < 2 ^ 32"
  shows "unat (w + 1 - r) = Suc (unat (w - r))"
proof -
  have e: "w + 1 - r = (w - r) + 1" by simp
  show ?thesis unfolding e unat_word_ariths(1) using assms by simp
qed

lemma unat_sub_succ:
  fixes r w :: "32 word"
  assumes "r \<noteq> w"
  shows "unat (w - r) = Suc (unat (w - (r + 1)))"
proof -
  have e: "1 + (w - (r + 1)) = w - r" by simp
  have "w - r \<noteq> 0" using assms by auto
  then show ?thesis by (metis e unatSuc)
qed

lemma span_push:
  assumes "n dvd 2 ^ 32" "n < 2 ^ 32" "unat (w - r) < n"
  shows "span n (d(unat w mod n := b)) r (w + 1) = span n d r w @ [b]"
proof -
  let ?m = "unat (w - r)"
  have "unat (w + 1 - r) = Suc ?m" using assms(2,3) by (intro unat_succ_sub) linarith
  moreover have "(unat r + k) mod n \<noteq> unat w mod n" if "k < ?m" for k
    using slot_inj [of "unat r" k n ?m] that assms unat_sub_add_mod [OF assms(1), of r w] by auto
  ultimately show ?thesis using unat_sub_add_mod [OF assms(1), of r w] by (simp add: span_def)
qed

lemma span_pop:
  assumes "n dvd 2 ^ 32" "r \<noteq> w"
  shows "span n d r w = d (unat r mod n) # span n d (r + 1) w"
proof -
  let ?m = "unat (w - (r + 1))"
  have "(unat (r + 1) + k) mod n = (unat r + Suc k) mod n" for k
  proof -
    have "unat (r + 1) mod n = (unat r + 1) mod n"
      using mod_mod_cancel [OF assms(1), of "unat r + 1"] unat_word_ariths(1) [of r 1] by simp
    then show ?thesis by (metis add.commute add_Suc_right mod_add_left_eq plus_1_eq_Suc)
  qed
  moreover have "[0..<Suc ?m] = 0 # map Suc [0..<?m]" using upt_conv_Cons [of 0 "Suc ?m"] map_Suc_upt [of 0 ?m] by simp
  ultimately show ?thesis using unat_sub_succ [OF assms(2)] by (simp add: span_def del: upt_Suc)
qed

lemma span_drop_last:
  assumes "r \<noteq> w"
  shows "span n d r (w - 1) = butlast (span n d r w)"
proof -
  have e: "1 + (w - 1 - r) = w - r" by simp
  have "w - r \<noteq> 0" using assms by auto
  then have "unat (w - r) = Suc (unat (w - 1 - r))" by (metis e unatSuc)
  then show ?thesis by (simp add: span_def butlast_append)
qed

end
