(* ===== verification/Pzip_Threads.thy ===== *)
theory Pzip_Threads
  imports Pzip Queues "HOL-Library.Product_Lexorder"
begin

text \<open>
  The threads of \<open>ParallelZip/pzip.c\<close>: one producer and any number of consumers, sharing
  the queue under one mutex with the condition variables \<open>fill\<close> and \<open>empty\<close>. A step is
  one critical section (the code between \<open>pthread_mutex_lock\<close> and the unlock or wait that
  ends it) or one chunk's worth of private work; which thread moves is not determined.
  A thread in \<open>pthread_cond_wait\<close> only moves when a signal or broadcast has released it.
  \<open>munmap\<close> of a chunk is taken to succeed (the chunks are page-aligned).
\<close>

datatype producer_pc =
    PPut "qitem list"      \<comment> \<open>about to lock the mutex; the items still to be put\<close>
  | PWait "qitem list"     \<comment> \<open>waiting on \<open>empty\<close>\<close>
  | PDone

datatype consumer_pc =
    CCheck                 \<comment> \<open>about to compute \<open>flag\<close>\<close>
  | CLoop                  \<comment> \<open>\<open>flag\<close> was set: about to lock the mutex\<close>
  | CWait                  \<comment> \<open>waiting on \<open>fill\<close>\<close>
  | CWork qitem            \<comment> \<open>has taken an item\<close>
  | CDone

record pz =
  rb :: ring
  isComplete :: bool
  producer :: producer_pc
  consumers :: "consumer_pc list"
  outp :: "nat \<Rightarrow> crec list option"

text \<open>\<open>pthread_cond_signal(&fill)\<close> releases one waiting consumer, if there is one.\<close>

definition signal_fill :: "consumer_pc list \<Rightarrow> consumer_pc list \<Rightarrow> bool" where
  "signal_fill cs cs' \<longleftrightarrow>
     (if CWait \<in> set cs then \<exists>j < length cs. cs ! j = CWait \<and> cs' = cs[j := CLoop] else cs' = cs)"

definition broadcast_fill :: "consumer_pc list \<Rightarrow> consumer_pc list" where
  "broadcast_fill cs = map (\<lambda>c. if c = CWait then CLoop else c) cs"

text \<open>\<open>pthread_cond_signal(&empty)\<close>: the producer is the only thread that waits there.\<close>

definition signal_empty :: "producer_pc \<Rightarrow> producer_pc" where
  "signal_empty p = (case p of PWait xs \<Rightarrow> PPut xs | _ \<Rightarrow> p)"

inductive pz_step :: "pz \<Rightarrow> pz \<Rightarrow> bool" where
  p_put: "producer s = PPut (x # xs) \<Longrightarrow> numFull (rb s) \<noteq> qLen \<Longrightarrow> signal_fill (consumers s) cs' \<Longrightarrow>
     pz_step s (s\<lparr>rb := put x (rb s), producer := PPut xs, consumers := cs'\<rparr>)"
| p_wait: "producer s = PPut (x # xs) \<Longrightarrow> numFull (rb s) = qLen \<Longrightarrow>
     pz_step s (s\<lparr>producer := PWait (x # xs)\<rparr>)"
| p_done: "producer s = PPut [] \<Longrightarrow>
     pz_step s (s\<lparr>isComplete := True, producer := PDone, consumers := broadcast_fill (consumers s)\<rparr>)"
| c_check: "i < length (consumers s) \<Longrightarrow> consumers s ! i = CCheck \<Longrightarrow>
     flag = (numFull (rb s) \<noteq> 0 \<or> \<not> isComplete s) \<Longrightarrow>
     pz_step s (s\<lparr>consumers := (consumers s)[i := (if flag then CLoop else CDone)]\<rparr>)"
| c_wait: "i < length (consumers s) \<Longrightarrow> consumers s ! i = CLoop \<Longrightarrow> numFull (rb s) = 0 \<Longrightarrow> \<not> isComplete s \<Longrightarrow>
     pz_step s (s\<lparr>consumers := (consumers s)[i := CWait]\<rparr>)"
| c_get: "i < length (consumers s) \<Longrightarrow> consumers s ! i = CLoop \<Longrightarrow> numFull (rb s) \<noteq> 0 \<Longrightarrow>
     get (rb s) = (obj, r') \<Longrightarrow>
     pz_step s (s\<lparr>rb := r', producer := signal_empty (producer s), consumers := (consumers s)[i := CWork obj]\<rparr>)"
| c_skip: "i < length (consumers s) \<Longrightarrow> consumers s ! i = CLoop \<Longrightarrow> numFull (rb s) = 0 \<Longrightarrow> isComplete s \<Longrightarrow>
     pz_step s (s\<lparr>consumers := (consumers s)[i := CCheck]\<rparr>)"
| c_work: "i < length (consumers s) \<Longrightarrow> consumers s ! i = CWork obj \<Longrightarrow>
     pz_step s (s\<lparr>outp := (outp s)(chunkNum obj \<mapsto> rle obj), consumers := (consumers s)[i := CCheck]\<rparr>)"

definition pz_init :: "qitem list \<Rightarrow> nat \<Rightarrow> qitem list \<Rightarrow> pz" where
  "pz_init items nthreads junk =
     \<lparr>rb = \<lparr>q = junk, numFull = 0, fillPtr = 0, usePtr = 0\<rparr>, isComplete = False,
      producer = PPut items, consumers = replicate nthreads CCheck, outp = Map.empty\<rparr>"

inductive pz_reach :: "pz \<Rightarrow> pz \<Rightarrow> bool" for s0 where
  pz_start: "pz_reach s0 s0"
| pz_next: "pz_reach s0 s \<Longrightarrow> pz_step s t \<Longrightarrow> pz_reach s0 t"

text \<open>What \<open>main\<close> waits for with \<open>pthread_join\<close>.\<close>

definition pz_final :: "pz \<Rightarrow> bool" where
  "pz_final s \<longleftrightarrow> producer s = PDone \<and> (\<forall>c \<in> set (consumers s). c = CDone)"

section \<open>The ring as a bounded queue\<close>

definition ring_elems :: "ring \<Rightarrow> qitem list" where
  "ring_elems r = map (\<lambda>k. q r ! ((usePtr r + k) mod qLen)) [0..<numFull r]"

definition ring_inv :: "ring \<Rightarrow> bool" where
  "ring_inv r \<longleftrightarrow> length (q r) = qLen \<and> numFull r \<le> qLen \<and> usePtr r < qLen \<and>
     fillPtr r = (usePtr r + numFull r) mod qLen"

lemma qLen_pos [simp]: "0 < qLen"
  by (simp add: qLen_def)

lemma length_ring_elems [simp]: "length (ring_elems r) = numFull r"
  by (simp add: ring_elems_def)

lemma ring_slot_step: "((a + 1) mod qLen + k) mod qLen = (a + Suc k) mod qLen"
  by (simp add: mod_add_left_eq add.commute [of a])

lemma ring_put:
  assumes "ring_inv r" "length (ring_elems r) < qLen"
  shows "ring_inv (put x r) \<and> ring_elems (put x r) = ring_elems r @ [x]"
proof -
  let ?n = "numFull r" and ?u = "usePtr r"
  have f: "fillPtr r = (?u + ?n) mod qLen" "length (q r) = qLen" "?n < qLen"
    using assms by (auto simp: ring_inv_def)
  have "q (put x r) ! ((?u + k) mod qLen) = q r ! ((?u + k) mod qLen)" if "k < ?n" for k
    using that f slot_inj [of ?u k qLen ?n] by (auto simp: put_def nth_list_update)
  moreover have "q (put x r) ! ((?u + ?n) mod qLen) = x" using f by (simp add: put_def)
  ultimately have "ring_elems (put x r) = ring_elems r @ [x]"
    by (simp add: ring_elems_def) (simp add: put_def)
  moreover have "ring_inv (put x r)"
    using assms f by (simp add: ring_inv_def put_def mod_Suc_eq)
  ultimately show ?thesis by simp
qed

lemma ring_get:
  assumes "ring_inv r" "ring_elems r = x # xs"
  shows "fst (get r) = x \<and> ring_inv (snd (get r)) \<and> ring_elems (snd (get r)) = xs"
proof -
  have n: "numFull r = Suc (length xs)" using length_ring_elems [of r] assms(2) by simp
  have e: "map (\<lambda>k. q r ! ((usePtr r + k) mod qLen)) [0..<Suc (length xs)] = x # xs"
    using assms(2) by (simp add: ring_elems_def n)
  have u: "usePtr r mod qLen = usePtr r" using assms(1) by (simp add: ring_inv_def)
  have x: "q r ! usePtr r = x" using arg_cong [OF e, of "\<lambda>l. l ! 0"] u by (simp del: upt_Suc)
  have "ring_elems (snd (get r)) = xs"
  proof (rule nth_equalityI)
    fix k assume "k < length (ring_elems (snd (get r)))"
    then have k: "k < length xs" by (simp add: ring_elems_def get_def n)
    then have "ring_elems (snd (get r)) ! k = q r ! ((usePtr r + Suc k) mod qLen)"
      using ring_slot_step [of "usePtr r" k] by (simp add: ring_elems_def get_def n)
    also have "\<dots> = xs ! k" using arg_cong [OF e, of "\<lambda>l. l ! Suc k"] k by (simp del: upt_Suc)
    finally show "ring_elems (snd (get r)) ! k = xs ! k" .
  qed (simp add: ring_elems_def get_def n)
  moreover have "ring_inv (snd (get r))"
    using assms(1) n ring_slot_step [of "usePtr r" "length xs"] by (simp add: ring_inv_def get_def)
  ultimately show ?thesis by (simp add: get_def x)
qed

interpretation pq: bounded_queue put get ring_elems ring_inv qLen
  by unfold_locales (use ring_put ring_get in blast, use ring_put ring_get in blast, simp add: ring_inv_def)

section \<open>The invariant of the threads\<close>

definition remaining :: "pz \<Rightarrow> qitem list" where
  "remaining s = (case producer s of PPut xs \<Rightarrow> xs | PWait xs \<Rightarrow> xs | PDone \<Rightarrow> [])"

definition inflight :: "pz \<Rightarrow> qitem set" where
  "inflight s = set (remaining s) \<union> set (ring_elems (rb s)) \<union> {x. CWork x \<in> set (consumers s)}"

definition awake :: "consumer_pc \<Rightarrow> bool" where
  "awake c \<longleftrightarrow> c \<noteq> CWait \<and> c \<noteq> CDone"

definition pz_inv :: "qitem list \<Rightarrow> pz \<Rightarrow> bool" where
  "pz_inv items s \<longleftrightarrow>
     ring_inv (rb s) \<and> inflight s \<subseteq> set items \<and>
     (\<forall>x \<in> set items. x \<in> inflight s \<or> outp s (chunkNum x) = Some (rle x)) \<and>
     (isComplete s \<longleftrightarrow> producer s = PDone) \<and>
     (\<forall>xs. producer s = PWait xs \<longrightarrow> xs \<noteq> [] \<and> numFull (rb s) = qLen) \<and>
     (CWait \<in> set (consumers s) \<longrightarrow> \<not> isComplete s) \<and>
     (CDone \<in> set (consumers s) \<longrightarrow> isComplete s \<and> numFull (rb s) = 0) \<and>
     (numFull (rb s) \<noteq> 0 \<and> consumers s \<noteq> [] \<longrightarrow> (\<exists>c \<in> set (consumers s). awake c))"

lemma pz_invD:
  assumes "pz_inv items s"
  shows "ring_inv (rb s)" "inflight s \<subseteq> set items"
    "x \<in> set items \<Longrightarrow> x \<in> inflight s \<or> outp s (chunkNum x) = Some (rle x)"
    "isComplete s \<longleftrightarrow> producer s = PDone"
    "producer s = PWait xs \<Longrightarrow> xs \<noteq> [] \<and> numFull (rb s) = qLen"
    "CWait \<in> set (consumers s) \<Longrightarrow> \<not> isComplete s"
    "CDone \<in> set (consumers s) \<Longrightarrow> isComplete s \<and> numFull (rb s) = 0"
    "numFull (rb s) \<noteq> 0 \<Longrightarrow> consumers s \<noteq> [] \<Longrightarrow> \<exists>c \<in> set (consumers s). awake c"
  using assms unfolding pz_inv_def by blast+

lemma pz_invI:
  assumes "ring_inv (rb s)" "inflight s \<subseteq> set items"
    "\<And>x. x \<in> set items \<Longrightarrow> x \<in> inflight s \<or> outp s (chunkNum x) = Some (rle x)"
    "isComplete s \<longleftrightarrow> producer s = PDone"
    "\<And>xs. producer s = PWait xs \<Longrightarrow> xs \<noteq> [] \<and> numFull (rb s) = qLen"
    "CWait \<in> set (consumers s) \<Longrightarrow> \<not> isComplete s"
    "CDone \<in> set (consumers s) \<Longrightarrow> isComplete s \<and> numFull (rb s) = 0"
    "numFull (rb s) \<noteq> 0 \<Longrightarrow> consumers s \<noteq> [] \<Longrightarrow> \<exists>c \<in> set (consumers s). awake c"
  shows "pz_inv items s"
  using assms unfolding pz_inv_def by blast

lemma in_set_update_other:
  "x \<in> set cs \<Longrightarrow> x \<noteq> cs ! i \<Longrightarrow> x \<in> set (cs[i := c])"
  by (metis in_set_conv_nth length_list_update nth_list_update_neq)

lemma in_set_updateD: "x \<in> set (cs[i := c]) \<Longrightarrow> x = c \<or> x \<in> set cs"
  using set_update_subset_insert by fastforce

lemma set_update_self: "i < length cs \<Longrightarrow> c \<in> set (cs[i := c])"
  by (simp add: set_update_memI)

text \<open>What a move of consumer \<open>i\<close> to a state that is not \<open>CWork\<close> does to the work set.\<close>

lemma work_update:
  assumes "i < length cs" "\<And>x. c \<noteq> CWork x" "\<And>x. cs ! i \<noteq> CWork x"
  shows "CWork x \<in> set (cs[i := c]) \<longleftrightarrow> CWork x \<in> set cs"
  using assms in_set_updateD [of "CWork x" cs i c] in_set_update_other [of "CWork x" cs i c] by metis

lemma signal_fill_all:
  assumes "signal_fill cs cs'"
  shows "(CWork x \<in> set cs' \<longleftrightarrow> CWork x \<in> set cs) \<and> (CDone \<in> set cs' \<longleftrightarrow> CDone \<in> set cs) \<and>
    (CWait \<in> set cs' \<longrightarrow> CWait \<in> set cs) \<and> length cs' = length cs \<and>
    (cs' \<noteq> [] \<longrightarrow> CDone \<notin> set cs \<longrightarrow> (\<exists>c \<in> set cs'. awake c))"
proof (cases "CWait \<in> set cs")
  case False
  with assms have "cs' = cs" by (simp add: signal_fill_def)
  with False show ?thesis by (cases cs) (auto simp: awake_def)
next
  case True
  with assms obtain j where j: "j < length cs" "cs ! j = CWait" "cs' = cs[j := CLoop]"
    by (auto simp: signal_fill_def)
  have "awake CLoop" by (simp add: awake_def)
  moreover have "CLoop \<in> set cs'" using j by (simp add: set_update_memI)
  ultimately show ?thesis
    using j by (auto dest: in_set_updateD intro: in_set_update_other)
qed

lemmas signal_fill_facts = signal_fill_all [THEN conjunct1]
  signal_fill_all [THEN conjunct2, THEN conjunct1]
  signal_fill_all [THEN conjunct2, THEN conjunct2, THEN conjunct1, rule_format]
  signal_fill_all [THEN conjunct2, THEN conjunct2, THEN conjunct2, THEN conjunct1]
  signal_fill_all [THEN conjunct2, THEN conjunct2, THEN conjunct2, THEN conjunct2, rule_format]

lemma broadcast_facts [simp]:
  "CWork x \<in> set (broadcast_fill cs) \<longleftrightarrow> CWork x \<in> set cs"
  "CDone \<in> set (broadcast_fill cs) \<longleftrightarrow> CDone \<in> set cs" "CWait \<notin> set (broadcast_fill cs)"
  "broadcast_fill cs = [] \<longleftrightarrow> cs = []"
  "c \<in> set cs \<Longrightarrow> awake c \<Longrightarrow> c \<in> set (broadcast_fill cs)"
  by (auto simp: broadcast_fill_def awake_def split: if_splits)

lemma rb_numFull_put [simp]: "numFull (put x r) = Suc (numFull r)"
  by (simp add: put_def)

lemma pz_inv_init:
  assumes "length junk = qLen"
  shows "pz_inv items (pz_init items n junk)"
  using assms by (auto simp: pz_inv_def pz_init_def ring_inv_def inflight_def remaining_def ring_elems_def)

text \<open>The four moves of a consumer that touch neither the queue nor its item.\<close>

lemma pz_inv_consumer:
  assumes inv: "pz_inv items s" and i: "i < length (consumers s)"
    and old: "\<And>x. consumers s ! i \<noteq> CWork x" and new: "\<And>x. c \<noteq> CWork x"
    and w: "c = CWait \<Longrightarrow> \<not> isComplete s \<and> numFull (rb s) = 0"
    and d: "c = CDone \<Longrightarrow> isComplete s \<and> numFull (rb s) = 0"
  shows "pz_inv items (s\<lparr>consumers := (consumers s)[i := c]\<rparr>)"
proof -
  let ?t = "s\<lparr>consumers := (consumers s)[i := c]\<rparr>"
  have "inflight ?t = inflight s"
    using work_update [OF i new old] by (simp add: inflight_def remaining_def)
  moreover have "\<exists>k \<in> set (consumers ?t). awake k" if "numFull (rb s) \<noteq> 0"
    using that w d set_update_self [OF i, of c] by (auto simp: awake_def)
  ultimately show ?thesis
    using inv w d unfolding pz_inv_def by (auto dest: in_set_updateD)
qed

lemma pz_inv_step:
  assumes "pz_step s t" "pz_inv items s" "inj_on chunkNum (set items)"
  shows "pz_inv items t"
  using assms
proof (induction rule: pz_step.induct)
  case (p_put s x xs cs')
  note inv = pz_invD [OF p_put.prems(1)]
  have n: "numFull (rb s) < qLen" using inv(1) p_put(2) by (simp add: ring_inv_def)
  with pq.enq_ok [OF inv(1), of x] have r: "ring_inv (put x (rb s))"
    "ring_elems (put x (rb s)) = ring_elems (rb s) @ [x]" by simp_all
  note sf = signal_fill_facts [OF p_put(3)]
  let ?t = "s\<lparr>rb := put x (rb s), producer := PPut xs, consumers := cs'\<rparr>"
  have "inflight ?t = inflight s"
    using p_put(1) sf(1) r(2) by (auto simp: inflight_def remaining_def)
  moreover have "\<not> isComplete s" using inv(4) p_put(1) by simp
  moreover have "CDone \<notin> set (consumers s)" using inv(7) \<open>\<not> isComplete s\<close> by blast
  ultimately have fl: "inflight ?t = inflight s" and nd: "CDone \<notin> set cs'" and nc: "\<not> isComplete s"
    using sf(2) by blast+
  show ?case
  proof (rule pz_invI)
    show "x \<in> inflight ?t \<or> outp ?t (chunkNum x) = Some (rle x)" if "x \<in> set items" for x
      using inv(3) [OF that] fl by simp
    show "\<exists>c \<in> set (consumers ?t). awake c" if "consumers ?t \<noteq> []"
      using that sf(5) \<open>CDone \<notin> set (consumers s)\<close> by simp
  qed (use r(1) inv(2) fl nc nd in simp_all)
next
  case (p_wait s x xs)
  note inv = pz_invD [OF p_wait.prems(1)]
  have fl: "inflight (s\<lparr>producer := PWait (x # xs)\<rparr>) = inflight s"
    using p_wait(1) by (simp add: inflight_def remaining_def)
  show ?case
    by (rule pz_invI) (use inv(1-3,6-8) inv(4) p_wait(1,2) fl in simp_all)
next
  case (p_done s)
  note inv = pz_invD [OF p_done.prems(1)]
  let ?t = "s\<lparr>isComplete := True, producer := PDone, consumers := broadcast_fill (consumers s)\<rparr>"
  have fl: "inflight ?t = inflight s" using p_done(1) by (simp add: inflight_def remaining_def)
  have nd: "CDone \<notin> set (consumers s)" using inv(4,7) p_done(1) by auto
  show ?case
  proof (rule pz_invI)
    show "x \<in> inflight ?t \<or> outp ?t (chunkNum x) = Some (rle x)" if "x \<in> set items" for x
      using inv(3) [OF that] fl by simp
    show "\<exists>c \<in> set (consumers ?t). awake c" if "numFull (rb ?t) \<noteq> 0" "consumers ?t \<noteq> []"
      using that inv(8) broadcast_facts(5) by fastforce
  qed (use inv(1,2) fl nd in simp_all)
next
  case (c_check i s flag)
  then show ?case by (intro pz_inv_consumer) auto
next
  case (c_wait i s)
  then show ?case by (intro pz_inv_consumer) auto
next
  case (c_get i s obj r')
  note inv = pz_invD [OF c_get.prems(1)]
  have ne: "ring_elems (rb s) \<noteq> []" using c_get(3) by (metis length_ring_elems list.size(3))
  note dq = pq.deq_set [OF inv(1) ne c_get(4)]
  let ?t = "s\<lparr>rb := r', producer := signal_empty (producer s), consumers := (consumers s)[i := CWork obj]\<rparr>"
  have "remaining ?t = remaining s"
    by (simp add: remaining_def signal_empty_def split: producer_pc.splits)
  moreover have "CWork x \<in> set ((consumers s)[i := CWork obj]) \<longleftrightarrow> x = obj \<or> CWork x \<in> set (consumers s)" for x
    using c_get(1,2) in_set_updateD [of "CWork x" "consumers s" i "CWork obj"]
      in_set_update_other [of "CWork x" "consumers s" i] set_update_self [OF c_get(1)] by fastforce
  ultimately have fl: "inflight ?t = inflight s" using dq(2) by (auto simp: inflight_def)
  have pr: "signal_empty (producer s) \<noteq> PWait xs" "signal_empty (producer s) = PDone \<longleftrightarrow> producer s = PDone" for xs
    by (simp_all add: signal_empty_def split: producer_pc.splits)
  have nd: "CDone \<notin> set ((consumers s)[i := CWork obj])"
    using inv(7) c_get(3) by (auto dest: in_set_updateD)
  show ?case
  proof (rule pz_invI)
    show "x \<in> inflight ?t \<or> outp ?t (chunkNum x) = Some (rle x)" if "x \<in> set items" for x
      using inv(3) [OF that] fl by simp
    show "\<exists>c \<in> set (consumers ?t). awake c"
      using set_update_self [OF c_get(1), of "CWork obj"] by (auto simp: awake_def)
    show "\<not> isComplete ?t" if "CWait \<in> set (consumers ?t)"
      using that inv(6) by (auto dest: in_set_updateD)
  qed (use dq(1) inv(2,4) fl pr nd in simp_all)
next
  case (c_skip i s)
  then show ?case by (intro pz_inv_consumer) auto
next
  case (c_work i s obj)
  note inv = pz_invD [OF c_work.prems(1)]
  let ?t = "s\<lparr>outp := (outp s)(chunkNum obj \<mapsto> rle obj), consumers := (consumers s)[i := CCheck]\<rparr>"
  have sub: "inflight ?t \<subseteq> inflight s"
    by (auto simp: inflight_def remaining_def dest: in_set_updateD)
  have sup: "x \<in> inflight ?t" if "x \<in> inflight s" "x \<noteq> obj" for x
    using that c_work(2) in_set_update_other [of "CWork x" "consumers s" i CCheck]
    by (auto simp: inflight_def remaining_def)
  have "CWork obj \<in> set (consumers s)" using c_work(1,2) by (metis nth_mem)
  then have obj: "obj \<in> set items" using inv(2) by (auto simp: inflight_def)
  have out: "x \<in> inflight ?t \<or> outp ?t (chunkNum x) = Some (rle x)" if x: "x \<in> set items" for x
  proof (cases "x = obj")
    case False
    then have "chunkNum x \<noteq> chunkNum obj"
      using inj_onD [OF c_work.prems(2)] x obj by blast
    with inv(3) [OF x] sup [OF _ False] show ?thesis by auto
  qed simp
  show ?case
  proof (rule pz_invI)
    show "\<exists>c \<in> set (consumers ?t). awake c"
      using set_update_self [OF c_work(1), of CCheck] by (auto simp: awake_def)
    show "\<not> isComplete ?t" if "CWait \<in> set (consumers ?t)"
      using that inv(6) by (auto dest: in_set_updateD)
    show "isComplete ?t \<and> numFull (rb ?t) = 0" if "CDone \<in> set (consumers ?t)"
      using that inv(7) by (auto dest: in_set_updateD)
    show "inflight ?t \<subseteq> set items" using sub inv(2) by blast
  qed (use inv(1,4,5) out in simp_all)
qed

lemma pz_reach_inv:
  assumes "pz_reach (pz_init items n junk) s" "length junk = qLen" "inj_on chunkNum (set items)"
  shows "pz_inv items s"
  using assms(1) by induction (auto intro: pz_inv_init [OF assms(2)] pz_inv_step [OF _ _ assms(3)])

section \<open>Progress and termination\<close>

lemma signal_fill_total: "\<exists>cs'. signal_fill cs cs'"
  by (auto simp: signal_fill_def in_set_conv_nth)

lemma awake_steps:
  assumes "i < length (consumers s)" "awake (consumers s ! i)"
  shows "\<exists>t. pz_step s t"
proof (cases "consumers s ! i")
  case CLoop
  consider "numFull (rb s) \<noteq> 0" | "numFull (rb s) = 0" "isComplete s" | "numFull (rb s) = 0" "\<not> isComplete s"
    by blast
  then show ?thesis
    using CLoop assms(1) c_wait c_skip c_get surj_pair [of "get (rb s)"] by cases blast+
next
  case CCheck
  then show ?thesis using c_check assms(1) by blast
next
  case (CWork x)
  then show ?thesis using c_work assms(1) by blast
qed (use assms in \<open>auto simp: awake_def\<close>)

lemma pz_progress:
  assumes "pz_inv items s" "consumers s \<noteq> []" "\<not> pz_final s"
  shows "\<exists>t. pz_step s t"
proof -
  note inv = pz_invD [OF assms(1)]
  have aw: "\<exists>t. pz_step s t" if "c \<in> set (consumers s)" "awake c" for c
    using that awake_steps by (auto simp: in_set_conv_nth)
  show ?thesis
  proof (cases "producer s")
    case (PPut xs)
    then show ?thesis
      using p_put p_wait p_done signal_fill_total by (cases xs) blast+
  next
    case (PWait xs)
    with inv(5) have "numFull (rb s) \<noteq> 0" using qLen_pos by fastforce
    with inv(8) assms(2) aw show ?thesis by blast
  next
    case PDone
    with assms(3) obtain c where c: "c \<in> set (consumers s)" "c \<noteq> CDone" by (auto simp: pz_final_def)
    moreover have "c \<noteq> CWait" using inv(4,6) PDone c(1) by auto
    ultimately show ?thesis using aw by (simp add: awake_def)
  qed
qed

definition is_work :: "consumer_pc \<Rightarrow> nat" where
  "is_work c = (case c of CWork x \<Rightarrow> 1 | _ \<Rightarrow> 0)"

text \<open>Work that is left, counted in thirds of an item.\<close>

definition pz_phase :: "pz \<Rightarrow> nat" where
  "pz_phase s = 3 * length (remaining s) + 2 * numFull (rb s) + sum_list (map is_work (consumers s)) +
     (if producer s = PDone then 0 else 1)"

definition quiet :: "pz \<Rightarrow> bool" where
  "quiet s \<longleftrightarrow> isComplete s \<and> numFull (rb s) = 0"

definition crank :: "bool \<Rightarrow> consumer_pc \<Rightarrow> nat" where
  "crank qt c = (case c of CLoop \<Rightarrow> (if qt then 2 else 1) | CCheck \<Rightarrow> (if qt then 1 else 2) | _ \<Rightarrow> 0)"

definition pz_rank :: "pz \<Rightarrow> nat" where
  "pz_rank s = sum_list (map (crank (quiet s)) (consumers s)) +
     (case producer s of PPut _ \<Rightarrow> 1 | _ \<Rightarrow> 0)"

lemma sum_list_map_update:
  fixes f :: "'a \<Rightarrow> nat"
  assumes "i < length cs"
  shows "sum_list (map f (cs[i := c])) + f (cs ! i) = sum_list (map f cs) + f c"
  using assms by (induction cs arbitrary: i) (auto split: nat.splits)

lemma sum_work_same:
  assumes "\<And>c. c \<in> set cs \<Longrightarrow> f c = (0::nat)"
  shows "sum_list (map f cs) = 0"
  using assms by (induction cs) auto

lemma signal_fill_work:
  assumes "signal_fill cs cs'"
  shows "sum_list (map is_work cs') = sum_list (map is_work cs)"
proof (cases "CWait \<in> set cs")
  case True
  with assms obtain j where "j < length cs" "cs ! j = CWait" "cs' = cs[j := CLoop]"
    by (auto simp: signal_fill_def)
  with sum_list_map_update [of j cs is_work CLoop] show ?thesis by (simp add: is_work_def)
qed (use assms in \<open>simp add: signal_fill_def\<close>)

lemma broadcast_work: "sum_list (map is_work (broadcast_fill cs)) = sum_list (map is_work cs)"
  by (induction cs) (auto simp: broadcast_fill_def is_work_def)

lemma pz_step_decreases:
  assumes "pz_step s t"
  shows "pz_phase t < pz_phase s \<or> pz_phase t = pz_phase s \<and> pz_rank t < pz_rank s"
  using assms
proof (induction rule: pz_step.induct)
  case (p_put s x xs cs')
  then show ?case
    using signal_fill_work [OF p_put(3)] by (simp add: pz_phase_def remaining_def)
next
  case (p_wait s x xs)
  then show ?case by (simp add: pz_phase_def pz_rank_def remaining_def quiet_def)
next
  case (p_done s)
  then show ?case by (simp add: pz_phase_def remaining_def broadcast_work)
next
  case (c_check i s flag)
  then show ?case
    using sum_list_map_update [OF c_check(1), of is_work "if flag then CLoop else CDone"]
      sum_list_map_update [OF c_check(1), of "crank (quiet s)" "if flag then CLoop else CDone"]
    by (auto simp: pz_phase_def pz_rank_def remaining_def quiet_def is_work_def crank_def)
next
  case (c_wait i s)
  then show ?case
    using sum_list_map_update [OF c_wait(1), of is_work CWait]
      sum_list_map_update [OF c_wait(1), of "crank (quiet s)" CWait]
    by (auto simp: pz_phase_def pz_rank_def remaining_def quiet_def is_work_def crank_def)
next
  case (c_get i s obj r')
  let ?t = "s\<lparr>rb := r', producer := signal_empty (producer s), consumers := (consumers s)[i := CWork obj]\<rparr>"
  have "remaining ?t = remaining s" "signal_empty (producer s) = PDone \<longleftrightarrow> producer s = PDone"
    by (simp_all add: remaining_def signal_empty_def split: producer_pc.splits)
  moreover have "numFull (rb s) = Suc (numFull r')" using c_get(3,4) by (auto simp: get_def)
  ultimately show ?case
    using sum_list_map_update [OF c_get(1), of is_work "CWork obj"] c_get(2)
    by (simp add: pz_phase_def is_work_def)
next
  case (c_skip i s)
  then show ?case
    using sum_list_map_update [OF c_skip(1), of is_work CCheck]
      sum_list_map_update [OF c_skip(1), of "crank (quiet s)" CCheck]
    by (auto simp: pz_phase_def pz_rank_def remaining_def quiet_def is_work_def crank_def)
next
  case (c_work i s obj)
  then show ?case
    using sum_list_map_update [OF c_work(1), of is_work CCheck]
    by (simp add: pz_phase_def remaining_def is_work_def)
qed

lemma pz_steps_wf: "wfp (\<lambda>t s. pz_step s t)"
proof -
  have "(\<lambda>t s. pz_step s t) \<le> (\<lambda>t s. (t, s) \<in> measures [pz_phase, pz_rank])"
    using pz_step_decreases by fastforce
  then show ?thesis
    by (rule wfp_subset [rotated]) (simp only: wfp_def Collect_mem_eq case_prod_eta wf_measures split_def prod.collapse)
qed

lemma pz_reach_consumers:
  "pz_reach (pz_init items n junk) s \<Longrightarrow> length (consumers s) = n"
proof (induction rule: pz_reach.induct)
  case (pz_next s t)
  from pz_next(2,3) show ?case
    by (induction rule: pz_step.induct) (simp_all add: signal_fill_facts broadcast_fill_def)
qed (simp add: pz_init_def)

lemma producer_items_inj:
  assumes "0 < cs" "fits_int fs" "producer_items cs 0 fs = Inr items"
  shows "inj_on chunkNum (set items)"
proof -
  have "distinct (map chunkNum items)" using producer_items_spec [OF assms] by simp
  then show ?thesis by (simp add: distinct_map)
qed

section \<open>Properties\<close>

text \<open>
  C3. Parallel compression is sequential compression: for any number of consumer threads and
  any schedule, when all threads have finished, the program writes the maximal runs of the
  concatenated files without their NUL bytes (each as a 4-byte count, modulo \<open>2^32\<close>, and
  the byte), whatever the chunk size. If nothing but NULs is left (as for empty files), it
  writes 5 bytes from before a buffer instead. Every file has fewer than \<open>2^31\<close> bytes (a
  larger one is miscounted, see \<open>big_file_skipped\<close>), and the producer does not leave through \<open>exit\<close>; the chunk count \<open>main\<close> computes is then exact.
\<close>

theorem pzip_any_schedule_correct:
  assumes "0 < cs" and "\<forall>f \<in> set fs. length (file_bytes f) < 2 ^ 31"
    and "producer_items cs 0 fs = Inr items" and "length junk = qLen"
    and "pz_reach (pz_init items n junk) s" and "pz_final s"
    and "0 < n"
  shows "bindE (total_chunks cs 0 fs) (\<lambda>totalChunks. compressOutput (nat totalChunks) (outp s)) =
     (let bs = nonzero (concat (map file_bytes fs)) in
      if bs = [] then Inl (Fault ''fwrite before the buffer'') else Inr (encode_runs (runs bs)))"
proof -
  have fit: "fits_int fs" using assms(2) by (simp add: fits_int_def)
  note inv = pz_invD [OF pz_reach_inv [OF assms(5,4) producer_items_inj [OF assms(1) fit assms(3)]]]
  have f: "producer s = PDone" "\<forall>c \<in> set (consumers s). c = CDone"
    using assms(6) by (auto simp: pz_final_def)
  have "consumers s \<noteq> []" using pz_reach_consumers [OF assms(5)] assms(7) by auto
  with f(2) have "CDone \<in> set (consumers s)" by (cases "consumers s") auto
  then have "ring_elems (rb s) = []" using inv(7) by (metis length_0_conv length_ring_elems)
  then have "inflight s = {}" using f by (auto simp: inflight_def remaining_def)
  then have "\<forall>x \<in> set items. outp s (chunkNum x) = Some (rle x)" using inv(3) by simp
  moreover have "total_chunks cs 0 fs = Inr (int (count_chunks cs fs))"
    using producer_items_spec [OF assms(1) fit assms(3)] by simp
  ultimately show ?thesis using compressOutput_files [OF assms(1) fit assms(3)] by simp
qed

lemma pz_reach_final:
  assumes "0 < n" "length junk = qLen" "inj_on chunkNum (set items)"
  shows "\<exists>s. pz_reach (pz_init items n junk) s \<and> pz_final s"
proof -
  have "\<exists>t. pz_reach (pz_init items n junk) t \<and> pz_final t" if "pz_reach (pz_init items n junk) s" for s
    using pz_steps_wf that
  proof (induction s rule: wfp_induct_rule)
    case (less s)
    show ?case
    proof (cases "pz_final s")
      case False
      have "consumers s \<noteq> []" using pz_reach_consumers [OF less.prems] assms(1) by auto
      with pz_progress [OF pz_reach_inv [OF less.prems assms(2,3)] _ False]
      obtain t where "pz_step s t" by blast
      with less show ?thesis using pz_next by blast
    qed (use less in blast)
  qed
  then show ?thesis using pz_start by blast
qed

theorem pzip_any_schedule_correct_witness:
  "\<exists>items s. producer_items 2 0 [Mapped [97, 97, 97, 0, 98], NoOpen, Mapped [98]] = Inr items \<and>
     pz_reach (pz_init items 3 (replicate 9 \<lparr>address = [], chunkNum = 0, chunkSize = 0\<rparr>)) s \<and> pz_final s \<and>
     bindE (total_chunks 2 0 [Mapped [97, 97, 97, 0, 98], NoOpen, Mapped [98]])
       (\<lambda>totalChunks. compressOutput (nat totalChunks) (outp s)) =
       Inr [3, 0, 0, 0, 97, 2, 0, 0, 0, 98]"
proof -
  let ?fs = "[Mapped [97, 97, 97, 0, 98], NoOpen, Mapped [98]]"
  let ?junk = "replicate 9 \<lparr>address = [], chunkNum = 0, chunkSize = 0\<rparr> :: qitem list"
  have sz: "\<forall>f \<in> set ?fs. length (file_bytes f) < 2 ^ 31" by simp
  then have fit: "fits_int ?fs" by (simp add: fits_int_def)
  have "ceiling_div (to_int32 5) 2 = 3" "ceiling_div (to_int32 1) 2 = 1"
    using ceiling_div_size [of 5 2] ceiling_div_size [of 1 2] by (simp_all add: chunk_count_def)
  then obtain items where it: "producer_items 2 0 ?fs = Inr items" by (simp add: Let_def)
  have j: "length ?junk = qLen" by (simp add: qLen_def)
  have pos: "(0::nat) < 2" "(0::nat) < 3" by simp_all
  from pz_reach_final [OF pos(2) j producer_items_inj [OF pos(1) fit it]] obtain s where
    s: "pz_reach (pz_init items 3 ?junk) s" "pz_final s" by blast
  have "bindE (total_chunks 2 0 ?fs) (\<lambda>totalChunks. compressOutput (nat totalChunks) (outp s)) =
      Inr [3, 0, 0, 0, 97, 2, 0, 0, 0, 98]"
    unfolding pzip_any_schedule_correct [OF pos(1) sz it j s pos(2)]
    by (simp add: Let_def encode_runs_def encode_rec_def wrec_def)
  with it s show ?thesis by blast
qed

text \<open>
  C17. The threads cannot deadlock or lose a wakeup, and they finish: in every reachable state
  in which not all threads are done some thread can take a step, without relying on
  spurious wakeups, and there is no infinite run under any scheduler.
\<close>

theorem pzip_threads_finish:
  assumes "0 < n" and "length junk = qLen" and "inj_on chunkNum (set items)"
  shows "wfp (\<lambda>t s. pz_step s t) \<and>
     (\<forall>s. pz_reach (pz_init items n junk) s \<longrightarrow> \<not> pz_final s \<longrightarrow> (\<exists>t. pz_step s t))"
proof (intro conjI allI impI)
  fix s assume s: "pz_reach (pz_init items n junk) s" "\<not> pz_final s"
  have "consumers s \<noteq> []" using pz_reach_consumers [OF s(1)] assms(1) by auto
  with pz_progress [OF pz_reach_inv [OF s(1) assms(2,3)]] s(2) show "\<exists>t. pz_step s t" by blast
qed (rule pz_steps_wf)

theorem pzip_threads_finish_witness:
  "\<exists>t. pz_step (pz_init [\<lparr>address = [97], chunkNum = 0, chunkSize = 1\<rparr>] 2
     (replicate 9 \<lparr>address = [], chunkNum = 0, chunkSize = 0\<rparr>)) t"
proof -
  let ?i = "pz_init [\<lparr>address = [97], chunkNum = 0, chunkSize = 1\<rparr>] 2
     (replicate 9 \<lparr>address = [], chunkNum = 0, chunkSize = 0\<rparr>)"
  have n: "(0::nat) < 2" by simp
  have j: "length (replicate 9 \<lparr>address = [], chunkNum = 0, chunkSize = 0\<rparr> :: qitem list) = qLen"
    by (simp add: qLen_def)
  have i: "inj_on chunkNum (set [\<lparr>address = [97], chunkNum = 0, chunkSize = 1\<rparr>])" by simp
  have "\<not> pz_final ?i" by (simp add: pz_final_def pz_init_def)
  with pzip_threads_finish [OF n j i] pz_start show ?thesis by blast
qed

end
