(* ===== verification/Mem.thy ===== *)
theory Mem
  imports Prelude
begin

unbundle bit_operations_syntax

text \<open>
  The 32-bit byte-addressed memory the xv6 kernel runs in, little-endian 32-bit accesses to
  it, and the kernel's \<open>string.c\<close> on it. A pointer is a \<open>32 word\<close>; pointer arithmetic
  wraps. Functions that only read (\<open>memcmp\<close>, \<open>strncmp\<close>, \<open>strlen\<close>) take the bytes from a
  pointer on as a function of the offset, \<open>view m p\<close>; functions that write return the new
  memory (their C result, the destination pointer, is not used by any caller).
\<close>

type_synonym mem = "32 word \<Rightarrow> 8 word"

definition view :: "mem \<Rightarrow> 32 word \<Rightarrow> nat \<Rightarrow> 8 word" where
  "view m p i = m (p + of_nat i)"

definition read32 :: "mem \<Rightarrow> 32 word \<Rightarrow> 32 word" where
  "read32 m a = ucast (m a) OR push_bit 8 (ucast (m (a + 1))) OR push_bit 16 (ucast (m (a + 2))) OR
     push_bit 24 (ucast (m (a + 3)))"

definition read16 :: "mem \<Rightarrow> 32 word \<Rightarrow> 32 word" where
  "read16 m a = push_bit 8 (ucast (m (a + 1))) OR ucast (m a)"

definition write32 :: "mem \<Rightarrow> 32 word \<Rightarrow> 32 word \<Rightarrow> mem" where
  "write32 m a w = m(a := ucast w, a + 1 := ucast (drop_bit 8 w), a + 2 := ucast (drop_bit 16 w),
     a + 3 := ucast (drop_bit 24 w))"

section \<open>string.c\<close>

subsection \<open>memset\<close>

fun stosb :: "mem \<Rightarrow> 32 word \<Rightarrow> 8 word \<Rightarrow> nat \<Rightarrow> mem" where
  "stosb m d c 0 = m"
| "stosb m d c (Suc n) = stosb (m(d := c)) (d + 1) c n"

fun stosl :: "mem \<Rightarrow> 32 word \<Rightarrow> 32 word \<Rightarrow> nat \<Rightarrow> mem" where
  "stosl m d w 0 = m"
| "stosl m d w (Suc n) = stosl (write32 m d w) (d + 4) w n"

definition memset :: "mem \<Rightarrow> 32 word \<Rightarrow> 32 word \<Rightarrow> nat \<Rightarrow> mem" where
  "memset m dst c n =
     (if unat dst mod 4 = 0 \<and> n mod 4 = 0
      then let c = c AND 0xFF
           in stosl m dst (push_bit 24 c OR push_bit 16 c OR push_bit 8 c OR c) (n div 4)
      else stosb m dst (ucast c) n)"

subsection \<open>memcmp, memmove\<close>

fun memcmp :: "(nat \<Rightarrow> 8 word) \<Rightarrow> (nat \<Rightarrow> 8 word) \<Rightarrow> nat \<Rightarrow> int" where
  "memcmp s1 s2 0 = 0"
| "memcmp s1 s2 (Suc n) =
     (if s1 0 \<noteq> s2 0 then uint (s1 0) - uint (s2 0)
      else memcmp (\<lambda>i. s1 (Suc i)) (\<lambda>i. s2 (Suc i)) n)"

fun copy_up :: "mem \<Rightarrow> 32 word \<Rightarrow> 32 word \<Rightarrow> nat \<Rightarrow> mem" where
  "copy_up m d s 0 = m"
| "copy_up m d s (Suc n) = copy_up (m(d := m s)) (d + 1) (s + 1) n"

fun copy_down :: "mem \<Rightarrow> 32 word \<Rightarrow> 32 word \<Rightarrow> nat \<Rightarrow> mem" where
  "copy_down m d s 0 = m"
| "copy_down m d s (Suc n) = copy_down (m(d - 1 := m (s - 1))) (d - 1) (s - 1) n"

definition memmove :: "mem \<Rightarrow> 32 word \<Rightarrow> 32 word \<Rightarrow> nat \<Rightarrow> mem" where
  "memmove m dst src n =
     (if src < dst \<and> src + of_nat n > dst
      then copy_down m (dst + of_nat n) (src + of_nat n) n
      else copy_up m dst src n)"

definition memcpy :: "mem \<Rightarrow> 32 word \<Rightarrow> 32 word \<Rightarrow> nat \<Rightarrow> mem" where
  "memcpy m dst src n = memmove m dst src n"

subsection \<open>Strings\<close>

fun strncmp :: "(nat \<Rightarrow> 8 word) \<Rightarrow> (nat \<Rightarrow> 8 word) \<Rightarrow> nat \<Rightarrow> int" where
  "strncmp p q 0 = 0"
| "strncmp p q (Suc n) =
     (if p 0 \<noteq> 0 \<and> p 0 = q 0 then strncmp (\<lambda>i. p (Suc i)) (\<lambda>i. q (Suc i)) n
      else uint (p 0) - uint (q 0))"

text \<open>The count is C's \<open>int n\<close>; a negative count is no iteration.\<close>

fun strncpy_loop :: "mem \<Rightarrow> 32 word \<Rightarrow> 32 word \<Rightarrow> nat \<Rightarrow> mem" where
  "strncpy_loop m s t 0 = m"
| "strncpy_loop m s t (Suc n) =
     (let c = m t; m = m(s := c)
      in if c \<noteq> 0 then strncpy_loop m (s + 1) (t + 1) n else stosb m (s + 1) 0 n)"

definition strncpy :: "mem \<Rightarrow> 32 word \<Rightarrow> 32 word \<Rightarrow> int \<Rightarrow> mem" where
  "strncpy m s t n = strncpy_loop m s t (nat n)"

fun safestrcpy_loop :: "mem \<Rightarrow> 32 word \<Rightarrow> 32 word \<Rightarrow> nat \<Rightarrow> mem" where
  "safestrcpy_loop m s t 0 = m(s := 0)"
| "safestrcpy_loop m s t (Suc n) =
     (let c = m t; m = m(s := c)
      in if c \<noteq> 0 then safestrcpy_loop m (s + 1) (t + 1) n else m(s + 1 := 0))"

definition safestrcpy :: "mem \<Rightarrow> 32 word \<Rightarrow> 32 word \<Rightarrow> int \<Rightarrow> mem" where
  "safestrcpy m s t n = (if n \<le> 0 then m else safestrcpy_loop m s t (nat n - 1))"

text \<open>\<open>strlen\<close> runs until it meets a NUL; \<open>None\<close> when there is none.\<close>

partial_function (option) strlen_from :: "(nat \<Rightarrow> 8 word) \<Rightarrow> nat \<Rightarrow> nat option" where
  "strlen_from s n = (if s n = 0 then Some n else strlen_from s (Suc n))"

definition strlen :: "(nat \<Rightarrow> 8 word) \<Rightarrow> nat option" where
  "strlen s = strlen_from s 0"

section \<open>Facts on bytes and words\<close>

lemma unat_of_nat32: "n < 2 ^ 32 \<Longrightarrow> unat (of_nat n :: 32 word) = n"
  by (simp add: unat_of_nat)

lemma unat_lt32: "unat (x :: 32 word) < 2 ^ 32"
  using unsigned_less [of x, where ?'a = nat] by simp

lemma unat_add_of_nat32: "unat ((x :: 32 word) + of_nat k) = (unat x + k) mod 2 ^ 32"
  by (simp add: unat_word_ariths(1) unat_of_nat mod_simps)

lemma unat_minus_1: "unat (- 1 :: 32 word) = 2 ^ 32 - 1"
  by (simp add: unsigned_minus_1_eq_mask mask_eq_exp_minus_1)

lemma unat_pred:
  fixes x :: "32 word"
  assumes "x \<noteq> 0"
  shows "unat (x - 1) = unat x - 1"
proof -
  have "1 \<le> x" using assms by (simp add: word_le_nat_alt unat_gt_0 Suc_leI)
  then show ?thesis by (simp add: unat_sub)
qed

lemma unat_Suc_split:
  fixes x :: "32 word"
  assumes "n < 2 ^ 32"
  shows "unat x < Suc n \<longleftrightarrow> x = 0 \<or> unat (x - 1) < n"
proof (cases "x = 0")
  case False
  then have "0 < unat x" by (simp add: unat_gt_0)
  with unat_pred [OF False] False show ?thesis by auto
qed simp

text \<open>Writing the byte \<open>c\<close> to \<open>n\<close> consecutive addresses.\<close>

definition fill :: "mem \<Rightarrow> 32 word \<Rightarrow> 8 word \<Rightarrow> nat \<Rightarrow> mem" where
  "fill m d c n = (\<lambda>a. if unat (a - d) < n then c else m a)"

lemma stosb_fill: "n \<le> 2 ^ 32 \<Longrightarrow> stosb m d c n = fill m d c n"
proof (induction n arbitrary: m d)
  case (Suc n)
  then have n: "n < 2 ^ 32" by simp
  have "fill (m(d := c)) (d + 1) c n a = fill m d c (Suc n) a" for a
    using unat_Suc_split [OF n, of "a - d"] by (auto simp: fill_def diff_diff_eq)
  with Suc show ?case by auto
qed (simp add: fill_def)

lemma fill_add:
  assumes "k + n \<le> 2 ^ 32"
  shows "fill (fill m d c k) (d + of_nat k) c n = fill m d c (k + n)"
proof
  fix a
  have u: "unat (a - (d + of_nat k)) = unat (a - d) - k" if "k \<le> unat (a - d)"
  proof -
    have k: "unat (of_nat k :: 32 word) = k"
      using that unat_lt32 [of "a - d"] by (intro unat_of_nat32) linarith
    then have "(of_nat k :: 32 word) \<le> a - d" using that by (simp add: word_le_nat_alt)
    then have "unat (a - d - of_nat k) = unat (a - d) - k" using k by (simp add: unat_sub)
    then show ?thesis by (simp add: diff_diff_eq)
  qed
  have w: "unat (a - (d + of_nat k)) \<ge> n" if "unat (a - d) < k"
  proof (rule ccontr)
    assume "\<not> n \<le> unat (a - (d + of_nat k))"
    then have lt: "unat (a - (d + of_nat k)) < n" by simp
    have "a - d = (a - (d + of_nat k)) + of_nat k" by simp
    then have "unat (a - d) = (unat (a - (d + of_nat k)) + k) mod 2 ^ 32"
      using unat_add_of_nat32 [of "a - (d + of_nat k)" k] by simp
    moreover have "unat (a - (d + of_nat k)) + k < 2 ^ 32" using lt assms by simp
    ultimately show False using that by simp
  qed
  show "fill (fill m d c k) (d + of_nat k) c n a = fill m d c (k + n) a"
    using u w by (cases "unat (a - d) < k") (auto simp: fill_def)
qed

lemma and_0xFF: "(c::32 word) AND 0xFF = ucast (ucast c :: 8 word)"
proof -
  have "(0xFF :: 32 word) = mask 8" by (simp add: mask_eq_exp_minus_1)
  then have "c AND 0xFF = take_bit 8 c" by (simp only: take_bit_eq_mask [of 8 c])
  then show ?thesis by (simp add: unsigned_ucast_eq)
qed
lemma bit8_high: "8 \<le> j \<Longrightarrow> \<not> bit (c :: 8 word) j"
  using bit_imp_le_length [of c j] by auto

lemma bit_rep_byte:
  fixes c :: "8 word"
  assumes "n < 8" "k \<in> {0, 8, 16, 24}"
  shows "bit (push_bit 24 (ucast c) OR push_bit 16 (ucast c) OR push_bit 8 (ucast c) OR (ucast c :: 32 word)) (k + n)
     = bit c n"
  using assms by (auto simp: bit_or_iff bit_push_bit_iff bit_unsigned_iff bit8_high)

lemma byte_of_word:
  fixes c :: "8 word"
  defines "w \<equiv> push_bit 24 (ucast c) OR push_bit 16 (ucast c) OR push_bit 8 (ucast c) OR (ucast c :: 32 word)"
  shows "ucast w = c" "ucast (drop_bit 8 w) = c" "ucast (drop_bit 16 w) = c" "ucast (drop_bit 24 w) = c"
proof -
  have *: "ucast (drop_bit k w) = c" if "k \<in> {0,8,16,24}" for k
  proof (rule bit_word_eqI)
    fix n assume "n < LENGTH(8)"
    then have n: "n < 8" by simp
    show "bit (ucast (drop_bit k w) :: 8 word) n = bit c n"
      using bit_rep_byte [OF n that, of c] n
      by (simp only: bit_unsigned_iff bit_drop_bit_eq o_def w_def) simp
  qed
  show "ucast w = c" using * [of 0] by simp
  show "ucast (drop_bit 8 w) = c" "ucast (drop_bit 16 w) = c" "ucast (drop_bit 24 w) = c"
   using *[of 8] *[of 16] *[of 24] by simp_all
qed
lemma write32_fill:
  fixes c :: "8 word"
  shows "write32 m d (push_bit 24 (ucast c) OR push_bit 16 (ucast c) OR push_bit 8 (ucast c) OR ucast c) =
     fill m d c 4"
proof -
  have "stosb m d c 4 = fill m d c 4" by (rule stosb_fill) simp
  moreover have "stosb m d c 4 = m(d := c, d + 1 := c, d + 2 := c, d + 3 := c)"
    by (simp add: numeral_eq_Suc ac_simps)
  ultimately show ?thesis by (simp only: write32_def byte_of_word)
qed

lemma stosl_fill:
  fixes c :: "8 word"
  assumes "4 * n \<le> 2 ^ 32"
  shows "stosl m d (push_bit 24 (ucast c) OR push_bit 16 (ucast c) OR push_bit 8 (ucast c) OR ucast c) n =
     fill m d c (4 * n)"
  using assms
proof (induction n arbitrary: m d)
  case (Suc n)
  have "fill (fill m d c 4) (d + of_nat 4) c (4 * n) = fill m d c (4 + 4 * n)"
    using Suc.prems by (intro fill_add) simp
  with Suc show ?case by (simp add: write32_fill)
qed (simp add: fill_def)

lemma memset_fill: "n \<le> 2 ^ 32 \<Longrightarrow> memset m d c n = fill m d (ucast c) n"
proof -
  assume n: "n \<le> 2 ^ 32"
  show ?thesis
  proof (cases "unat d mod 4 = 0 \<and> n mod 4 = 0")
    case True
    then have "4 * (n div 4) = n" by (metis mult_div_mod_eq add_0_right)
    with True n stosl_fill [of "n div 4" m d "ucast c"] show ?thesis
      by (simp add: memset_def Let_def and_0xFF)
  qed (use n in \<open>auto simp: memset_def stosb_fill\<close>)
qed

text \<open>The memory after \<open>n\<close> bytes at \<open>s\<close> have been copied to \<open>d\<close>, as if all at once.\<close>

definition copied :: "mem \<Rightarrow> 32 word \<Rightarrow> 32 word \<Rightarrow> nat \<Rightarrow> mem" where
  "copied m d s n = (\<lambda>a. if unat (a - d) < n then m (s + (a - d)) else m a)"

lemma copy_up_copied:
  assumes "n \<le> 2 ^ 32" "\<And>i. 0 < i \<Longrightarrow> i < n \<Longrightarrow> (d::32 word) \<noteq> s + of_nat i"
  shows "copy_up m d s n = copied m d s n"
  using assms
proof (induction n arbitrary: m d s)
  case (Suc n)
  then have n: "n < 2 ^ 32" by simp
  let ?m = "m(d := m s)"
  have ih: "copy_up ?m (d + 1) (s + 1) n = copied ?m (d + 1) (s + 1) n"
  proof (rule Suc.IH)
    fix i :: nat
    assume "0 < i" "i < n"
    then have "d \<noteq> s + of_nat i" using Suc.prems(2) [of i] by simp
    then show "d + 1 \<noteq> s + 1 + of_nat i" by (metis add.commute add.left_commute add_left_cancel)
  qed (use n in simp)
  have "copied ?m (d + 1) (s + 1) n a = copied m d s (Suc n) a" for a
  proof -
    let ?x = "a - d"
    consider "?x = 0" | "?x \<noteq> 0" "unat (?x - 1) < n" | "?x \<noteq> 0" "\<not> unat (?x - 1) < n" by blast
    then show ?thesis
    proof cases
      case 1
      then have "unat (a - (d + 1)) = 2 ^ 32 - 1"
        by (simp add: diff_diff_eq [symmetric] unat_minus_1)
      then have "\<not> unat (a - (d + 1)) < n" using n by simp
      with 1 show ?thesis by (simp add: copied_def)
    next
      case 2
      then have x: "unat ?x < Suc n" using unat_Suc_split [OF n] by blast
      moreover have "0 < unat ?x" using 2(1) by (simp add: unat_gt_0)
      ultimately have "d \<noteq> s + of_nat (unat ?x)" using Suc.prems(2) [of "unat ?x"] by simp
      then have "s + ?x \<noteq> d" by simp
      moreover have "s + 1 + (a - (d + 1)) = s + ?x" by simp
      ultimately show ?thesis using 2 x by (simp add: copied_def diff_diff_eq)
    next
      case 3
      then have "\<not> unat ?x < Suc n" "a \<noteq> d" using unat_Suc_split [OF n] by auto
      with 3 show ?thesis by (simp add: copied_def diff_diff_eq)
    qed
  qed
  with ih show ?case by auto
qed (simp add: copied_def)

lemma copy_down_copied:
  assumes "n \<le> 2 ^ 32" "\<And>i j. i < j \<Longrightarrow> j < n \<Longrightarrow> (s::32 word) + of_nat i \<noteq> d + of_nat j"
  shows "copy_down m (d + of_nat n) (s + of_nat n) n = copied m d s n"
  using assms
proof (induction n arbitrary: m)
  case (Suc n)
  then have n: "n < 2 ^ 32" by simp
  let ?m = "m(d + of_nat n := m (s + of_nat n))"
  have "copy_down ?m (d + of_nat n) (s + of_nat n) n = copied ?m d s n"
    by (rule Suc.IH) (use Suc.prems in auto)
  moreover have "copied ?m d s n a = copied m d s (Suc n) a" for a
  proof -
    let ?k = "unat (a - d)"
    have a: "a = d + of_nat ?k" by simp
    consider "?k < n" | "?k = n" | "n < ?k" by linarith
    then show ?thesis
    proof cases
      case 1
      then have "s + of_nat ?k \<noteq> d + of_nat n" using Suc.prems(2) [of ?k n] by blast
      then have "s + (a - d) \<noteq> d + of_nat n" by simp
      with 1 show ?thesis by (simp add: copied_def)
    next
      case 2
      then have "a = d + of_nat n" using a by simp
      with 2 show ?thesis by (simp add: copied_def)
    next
      case 3
      then have "a \<noteq> d + of_nat n" using unat_of_nat32 [OF n] by auto
      with 3 show ?thesis by (simp add: copied_def)
    qed
  qed
  ultimately have "copy_down ?m (d + of_nat n) (s + of_nat n) n = copied m d s (Suc n)" by auto
  then show ?case by (simp add: algebra_simps)
qed (simp add: copied_def)

lemma of_nat32_eq_iff:
  "i < 2 ^ 32 \<Longrightarrow> j < 2 ^ 32 \<Longrightarrow> (of_nat i :: 32 word) = of_nat j \<longleftrightarrow> i = j"
  by (metis unat_of_nat32)

lemma unat_plus_of_nat: "unat (x :: 32 word) + k < 2 ^ 32 \<Longrightarrow> unat (x + of_nat k) = unat x + k"
  by (simp add: unat_add_of_nat32)

lemma memmove_copied:
  assumes s: "unat s + n < 2 ^ 32" and d: "unat d + n < 2 ^ 32"
  shows "memmove m d s n = copied m d s n"
proof -
  have at: "unat (s + of_nat i) = unat s + i" "unat (d + of_nat i) = unat d + i" if "i \<le> n" for i
    using that s d by (auto intro!: unat_plus_of_nat)
  show ?thesis
  proof (cases "s < d \<and> s + of_nat n > d")
    case True
    then have "unat s < unat d" by (simp add: word_less_nat_alt)
    have "copy_down m (d + of_nat n) (s + of_nat n) n = copied m d s n"
    proof (rule copy_down_copied)
      show "s + of_nat i \<noteq> d + of_nat j" if "i < j" "j < n" for i j
        proof
        assume "s + of_nat i = d + of_nat j"
        then have "unat s + i = unat d + j" using at(1) [of i] at(2) [of j] that by simp
        with that \<open>unat s < unat d\<close> show False by simp
      qed
    qed (use s in simp)
    with True show ?thesis by (simp add: memmove_def)
  next
    case False
    then have "unat d \<le> unat s \<or> unat s + n \<le> unat d"
      using at(1) [of n] by (auto simp: word_less_nat_alt)
    then have "copy_up m d s n = copied m d s n"
      by (intro copy_up_copied) (use s at(1) in \<open>auto simp: word_unat_eq_iff\<close>)
    with False show ?thesis by (auto simp: memmove_def)
  qed
qed

subsection \<open>32-bit accesses\<close>

lemma bit_ucast_byte: "bit (ucast (b :: 8 word) :: 32 word) n \<longleftrightarrow> bit b n"
  using bit8_high [of n b] by (auto simp: bit_unsigned_iff dest: bit_imp_le_length)

lemma bytes_of_word32:
  fixes w :: "32 word"
  shows "(ucast (ucast w :: 8 word) :: 32 word) OR push_bit 8 (ucast (ucast (drop_bit 8 w) :: 8 word)) OR
     push_bit 16 (ucast (ucast (drop_bit 16 w) :: 8 word)) OR
     push_bit 24 (ucast (ucast (drop_bit 24 w) :: 8 word)) = w" (is "?l = w")
proof (rule bit_word_eqI)
  fix n assume "n < LENGTH(32)"
  then have n: "n < 32" by simp
  have byte: "bit (ucast (drop_bit k w) :: 8 word) j \<longleftrightarrow> j < 8 \<and> bit w (k + j)" for k j
    by (auto simp: bit_unsigned_iff bit_drop_bit_eq)
  have byte0: "bit (ucast w :: 8 word) j \<longleftrightarrow> j < 8 \<and> bit w j" for j
    using byte [of 0 j] by simp
  consider "n < 8" | "8 \<le> n" "n < 16" | "16 \<le> n" "n < 24" | "24 \<le> n" using n by linarith
  then show "bit ?l n = bit w n"
    using n by cases (auto simp: bit_or_iff bit_push_bit_iff bit_ucast_byte byte byte0)
qed

lemma offs4:
  "a \<noteq> a + (1 :: 32 word)" "a \<noteq> a + (2 :: 32 word)" "a \<noteq> a + (3 :: 32 word)"
  "a + 1 \<noteq> a + (2 :: 32 word)" "a + 1 \<noteq> a + (3 :: 32 word)" "a + 2 \<noteq> a + (3 :: 32 word)"
  by (simp_all add: eq_neg_iff_add_eq_0)

lemma read32_write32 [simp]: "read32 (write32 m a w) a = w"
  using bytes_of_word32 [of w] offs4 [of a] by (simp only: read32_def write32_def fun_upd_apply not_sym if_False if_True refl)

lemma read32_cong:
  assumes "\<And>i. i < 4 \<Longrightarrow> m (a + of_nat i) = m' (a + of_nat i)"
  shows "read32 m a = read32 m' a"
  using assms [of 0] assms [of 1] assms [of 2] assms [of 3] by (simp add: read32_def)

lemma write32_other:
  assumes "\<And>i. i < 4 \<Longrightarrow> b \<noteq> a + of_nat i"
  shows "write32 m a w b = m b"
  using assms [of 0] assms [of 1] assms [of 2] assms [of 3] by (simp add: write32_def)

section \<open>String functions\<close>

lemma strncmp_0_iff:
  "strncmp p q n = 0 \<longleftrightarrow> (\<forall>i < n. p i = q i \<or> (\<exists>j < i. p j = 0 \<and> q j = 0))"
proof (induction n arbitrary: p q)
  case (Suc n)
  show ?case
  proof (cases "p 0 \<noteq> 0 \<and> p 0 = q 0")
    case True
    have "(\<forall>i < Suc n. p i = q i \<or> (\<exists>j < i. p j = 0 \<and> q j = 0)) \<longleftrightarrow>
      (\<forall>i < n. p (Suc i) = q (Suc i) \<or> (\<exists>j < i. p (Suc j) = 0 \<and> q (Suc j) = 0))"
      using True by (auto simp: All_less_Suc2 Ex_less_Suc2)
    moreover have "strncmp p q (Suc n) = strncmp (\<lambda>i. p (Suc i)) (\<lambda>i. q (Suc i)) n" using True by auto
    ultimately show ?thesis by (simp only: Suc.IH)
  next
    case False
    have "p 0 = q 0 \<longleftrightarrow> uint (p 0) - uint (q 0) = 0" by (simp add: word_uint_eq_iff)
    with False show ?thesis by (auto simp: All_less_Suc2)
  qed
qed simp

lemma memcmp_0_iff: "memcmp p q n = 0 \<longleftrightarrow> (\<forall>i < n. p i = q i)"
  by (induction p q n rule: memcmp.induct) (auto simp: All_less_Suc2 word_uint_eq_iff)

lemma strlen_from_Some:
  assumes "n \<le> k" "s k = 0" "\<And>i. n \<le> i \<Longrightarrow> i < k \<Longrightarrow> s i \<noteq> 0"
  shows "strlen_from s n = Some k"
  using assms by (induction "k - n" arbitrary: n) (subst strlen_from.simps; fastforce)+

text \<open>The bytes \<open>safestrcpy\<close> leaves: the source up to its NUL or up to \<open>n - 1\<close> bytes, then a
  NUL; no byte outside the \<open>n\<close> bytes at \<open>s\<close> changes.\<close>

lemma safestrcpy_loop_bound:
  "(\<And>i. i \<le> n \<Longrightarrow> a \<noteq> s + of_nat i) \<Longrightarrow> safestrcpy_loop m s t n a = m a"
proof (induction n arbitrary: m s t)
  case (Suc n)
  have a: "a \<noteq> s" "a \<noteq> s + 1" using Suc.prems [of 0] Suc.prems [of 1] by auto
  have "a \<noteq> s + 1 + of_nat i" if "i \<le> n" for i using Suc.prems [of "Suc i"] that by (simp add: ac_simps)
  then show ?case using a by (simp add: Let_def Suc.IH)
qed (use add_0_right in fastforce)

lemma safestrcpy_bound:
  assumes "\<And>i. int i < n \<Longrightarrow> a \<noteq> s + of_nat i"
  shows "safestrcpy m s t n a = m a"
proof (cases "n \<le> 0")
  case False
  have "safestrcpy_loop m s t (nat n - 1) a = m a"
  proof (rule safestrcpy_loop_bound)
    fix i assume "i \<le> nat n - 1"
    then have "int i < n" using False by linarith
    then show "a \<noteq> s + of_nat i" by (rule assms)
  qed
  with False show ?thesis by (simp add: safestrcpy_def)
qed (simp add: safestrcpy_def)

lemma safestrcpy_loop_terminated:
  assumes "unat s + n < 2 ^ 32"
  shows "\<exists>k \<le> n. safestrcpy_loop m s t n (s + of_nat k) = 0"
  using assms
proof (induction n arbitrary: m s t)
  case (Suc n)
  have s1: "unat (s + 1) = unat s + 1" using unat_plus_of_nat [of s 1] Suc.prems by simp
  show ?case
  proof (cases "m t = 0")
    case True
    then show ?thesis by (intro exI [of _ 1]) (simp add: Let_def)
  next
    case False
    obtain k where "k \<le> n" "safestrcpy_loop (m(s := m t)) (s + 1) (t + 1) n (s + 1 + of_nat k) = 0"
      using Suc.IH [of "s + 1"] Suc.prems s1 by force
    with False show ?thesis by (intro exI [of _ "Suc k"]) (simp add: Let_def ac_simps)
  qed
qed simp

section \<open>Properties\<close>

text \<open>
  \<open>memmove\<close> on ranges that do not wrap around the address space leaves in the destination
  the \<open>n\<close> bytes the source held before the call, also when the two ranges overlap, and changes
  no byte outside the destination.
\<close>

theorem memmove_overlap_safe:
  assumes "unat s + n < 2 ^ 32" "unat d + n < 2 ^ 32"
  shows "memmove m d s n a =
    (if unat d \<le> unat a \<and> unat a < unat d + n then m (s + (a - d)) else m a)"
proof -
  have "unat (a - d) < n \<longleftrightarrow> unat d \<le> unat a \<and> unat a < unat d + n"
  proof (cases "d \<le> a")
    case True
    then show ?thesis by (auto simp: unat_sub word_le_nat_alt)
  next
    case False
    then have "unat a < unat d" by (simp add: word_le_nat_alt)
    moreover have "unat (a - d) = 2 ^ 32 + unat a - unat d"
      using False by (simp add: unat_sub_if' word_le_nat_alt)
    ultimately show ?thesis using assms(2) by auto
  qed
  then show ?thesis by (simp add: memmove_copied [OF assms] copied_def)
qed

theorem memmove_overlap_safe_witness:
  "map (memmove (\<lambda>a. ucast a) 102 100 4) [100, 101, 102, 103, 104, 105, 106] = [100, 101, 100, 101, 102, 103, 106]"
  using memmove_overlap_safe [of 100 4 102 "\<lambda>a. ucast a"] by simp


end
