(* ===== verification/Mmu.thy ===== *)
theory Mmu
  imports Mem
begin

text \<open>
  The page arithmetic of \<open>mmu.h\<close> and the address map of \<open>memlayout.h\<close>: page-directory and
  page-table indices, rounding, the parts of a page-table entry, and the kernel's direct
  mapping. Each macro is a definition on \<open>32 word\<close>; the lemmas give its value as a natural
  number, which is what the proofs about page tables use.
\<close>

section \<open>Macros\<close>

abbreviation PGSIZE :: "32 word" where "PGSIZE \<equiv> 4096"
abbreviation PTE_P :: "32 word" where "PTE_P \<equiv> 1"
abbreviation PTE_W :: "32 word" where "PTE_W \<equiv> 2"
abbreviation PTE_U :: "32 word" where "PTE_U \<equiv> 4"
abbreviation EXTMEM :: "32 word" where "EXTMEM \<equiv> 0x100000"
abbreviation PHYSTOP :: "32 word" where "PHYSTOP \<equiv> 0xE000000"
abbreviation DEVSPACE :: "32 word" where "DEVSPACE \<equiv> 0xFE000000"
abbreviation KERNBASE :: "32 word" where "KERNBASE \<equiv> 0x80000000"
abbreviation KERNLINK :: "32 word" where "KERNLINK \<equiv> 0x80100000"

definition PDX :: "32 word \<Rightarrow> 32 word" where
  "PDX va = drop_bit 22 va AND 0x3FF"

definition PTX :: "32 word \<Rightarrow> 32 word" where
  "PTX va = drop_bit 12 va AND 0x3FF"

definition PGADDR :: "32 word \<Rightarrow> 32 word \<Rightarrow> 32 word \<Rightarrow> 32 word" where
  "PGADDR d t o' = push_bit 22 d OR push_bit 12 t OR o'"

definition PGROUNDUP :: "32 word \<Rightarrow> 32 word" where
  "PGROUNDUP sz = (sz + PGSIZE - 1) AND NOT (PGSIZE - 1)"

definition PGROUNDDOWN :: "32 word \<Rightarrow> 32 word" where
  "PGROUNDDOWN a = a AND NOT (PGSIZE - 1)"

definition PTE_ADDR :: "32 word \<Rightarrow> 32 word" where
  "PTE_ADDR pte = pte AND NOT 0xFFF"

definition PTE_FLAGS :: "32 word \<Rightarrow> 32 word" where
  "PTE_FLAGS pte = pte AND 0xFFF"

definition V2P :: "32 word \<Rightarrow> 32 word" where
  "V2P a = a - KERNBASE"

definition P2V :: "32 word \<Rightarrow> 32 word" where
  "P2V a = a + KERNBASE"

section \<open>Their values\<close>

lemma P2V_V2P [simp]: "P2V (V2P a) = a" "V2P (P2V a) = a"
  by (simp_all add: P2V_def V2P_def)

lemma mask12: "(0xFFF :: 32 word) = mask 12"
  by (simp add: mask_eq_exp_minus_1)

lemma mask10: "(0x3FF :: 32 word) = mask 10"
  by (simp add: mask_eq_exp_minus_1)

lemma and_not_mask12: "(a :: 32 word) AND NOT 0xFFF = push_bit 12 (drop_bit 12 a)"
  unfolding mask12 by (rule bit_word_eqI) (auto simp: bit_simps)

lemma unat_down: "unat ((a :: 32 word) AND - 4096) = unat a div 4096 * 4096"
proof -
  have "unat a div 4096 * 4096 < 2 ^ 32" using unat_lt32 [of a] by (simp add: le_less_trans [OF div_times_less_eq_dividend])
  then have "unat (push_bit 12 (drop_bit 12 a)) = unat a div 4096 * 4096"
    by (simp only: unsigned_push_bit_eq unat_drop_bit_eq)
      (simp add: push_bit_eq_mult drop_bit_eq_div take_bit_eq_mod)
  moreover have "a AND - 4096 = push_bit 12 (drop_bit 12 a)" using and_not_mask12 [of a] by simp
  ultimately show ?thesis by simp
qed

lemma unat_PGROUNDDOWN: "unat (PGROUNDDOWN a) = unat a div 4096 * 4096"
  using unat_down [of a] by (simp add: PGROUNDDOWN_def)

lemma unat_PTE_ADDR: "unat (PTE_ADDR a) = unat a div 4096 * 4096"
  using unat_down [of a] by (simp add: PTE_ADDR_def)

lemma unat_PGROUNDUP:
  assumes "unat a \<le> 2 ^ 32 - 4096"
  shows "unat (PGROUNDUP a) = (unat a + 4095) div 4096 * 4096"
proof -
  have "unat (a + of_nat 4095) = unat a + 4095"
    by (rule unat_plus_of_nat) (use assms in simp)
  then show ?thesis
    using unat_down [of "4095 + a"] by (simp add: PGROUNDUP_def add.commute)
qed

lemma unat_PTE_FLAGS: "unat (PTE_FLAGS a) = unat a mod 4096"
  unfolding PTE_FLAGS_def mask12 take_bit_eq_mask [symmetric] unsigned_take_bit_eq
  by (simp add: take_bit_eq_mod)

lemma unat_PTX: "unat (PTX a) = unat a div 4096 mod 1024"
  unfolding PTX_def mask10 take_bit_eq_mask [symmetric] unsigned_take_bit_eq unat_drop_bit_eq
  by (simp add: take_bit_eq_mod drop_bit_eq_div)

lemma unat_PDX: "unat (PDX a) = unat a div 2 ^ 22"
proof -
  have "unat a div 2 ^ 22 < 1024" using unat_lt32 [of a] by simp
  then show ?thesis
    unfolding PDX_def mask10 take_bit_eq_mask [symmetric] unsigned_take_bit_eq unat_drop_bit_eq
    by (simp add: take_bit_eq_mod drop_bit_eq_div)
qed

text \<open>A page-aligned address joined with flag bits, and taken apart again.\<close>

definition aligned :: "32 word \<Rightarrow> bool" where
  "aligned a = (unat a mod 4096 = 0)"

lemma aligned_take_bit: "aligned a \<longleftrightarrow> take_bit 12 a = 0"
  unfolding aligned_def word_unat_eq_iff unsigned_take_bit_eq by (simp add: take_bit_eq_mod)

lemma bit_aligned: "aligned a \<Longrightarrow> n < 12 \<Longrightarrow> \<not> bit a n"
  unfolding aligned_take_bit by (metis bit_0_eq bit_take_bit_iff bot_apply bot_bool_def)

lemma bit_aligned_ge: "aligned a \<Longrightarrow> bit a n \<Longrightarrow> 12 \<le> n"
  using bit_aligned [of a n] by (meson not_le)

lemma bit_flags: "unat f < 4096 \<Longrightarrow> 12 \<le> n \<Longrightarrow> \<not> bit (f :: 32 word) n"
proof -
  assume "unat f < 4096" "12 \<le> n"
  then have "take_bit 12 f = f"
    unfolding word_unat_eq_iff unsigned_take_bit_eq by (simp add: take_bit_eq_mod)
  then show ?thesis using \<open>12 \<le> n\<close> by (metis bit_take_bit_iff not_less)
qed

lemma PTE_ADDR_or: "aligned a \<Longrightarrow> unat f < 4096 \<Longrightarrow> PTE_ADDR (a OR f) = a"
  unfolding PTE_ADDR_def mask12
  by (rule bit_word_eqI) (auto simp: bit_simps not_less dest: bit_aligned_ge bit_flags)

lemma PTE_FLAGS_or: "aligned a \<Longrightarrow> unat f < 4096 \<Longrightarrow> PTE_FLAGS (a OR f) = f"
  unfolding PTE_FLAGS_def mask12
  by (rule bit_word_eqI) (auto simp: bit_simps not_less dest: bit_aligned bit_flags)

lemma aligned_round [simp]:
  "aligned (PGROUNDDOWN a)" "aligned (PTE_ADDR a)" "aligned 0" "aligned (PGROUNDUP a)"
  by (simp_all add: aligned_def unat_PGROUNDDOWN unat_PTE_ADDR)
    (simp add: PGROUNDUP_def unat_down)

lemma aligned_P2V [simp]: "aligned (P2V a) = aligned a" "aligned (V2P a) = aligned a"
proof -
  have *: "unat (a + of_nat 2147483648) mod 4096 = unat a mod 4096" for a :: "32 word"
  proof -
    have "(unat a + 524288 * 4096) mod 4096 = unat a mod 4096" by (rule mod_mult_self1)
    then show ?thesis by (simp only: unat_add_of_nat32) (simp add: mod_mod_cancel)
  qed
  have **: "aligned (P2V a) = aligned a" for a using * [of a] by (simp add: aligned_def P2V_def)
  show "aligned (P2V a) = aligned a" by (rule **)
  show "aligned (V2P a) = aligned a" using ** [of "V2P a"] by simp
qed

lemma aligned_plus: "aligned a \<Longrightarrow> aligned (a + PGSIZE)"
proof -
  assume "aligned a"
  have "unat (a + of_nat 4096) mod 4096 = unat a mod 4096"
    by (simp only: unat_add_of_nat32) (simp add: mod_mod_cancel)
  then show ?thesis using \<open>aligned a\<close> by (simp add: aligned_def)
qed

section \<open>Pages\<close>

lemma aligned_mod4: "aligned p \<Longrightarrow> unat p mod 4 = 0"
  unfolding aligned_def by (auto simp: mod_eq_0_iff_dvd elim: dvd_trans [rotated])

lemma PGROUNDDOWN_aligned: "aligned p \<Longrightarrow> PGROUNDDOWN p = p"
  unfolding word_unat_eq_iff unat_PGROUNDDOWN aligned_def
  by (metis add_0_right div_mult_mod_eq)

lemma page_offset: "unat (a - PGROUNDDOWN a) = unat a mod 4096"
proof -
  have "PGROUNDDOWN a \<le> a"
    unfolding word_le_nat_alt unat_PGROUNDDOWN by simp
  then have "unat (a - PGROUNDDOWN a) = unat a - unat a div 4096 * 4096"
    by (simp add: unat_sub unat_PGROUNDDOWN)
  then show ?thesis by (simp add: minus_div_mult_eq_mod)
qed

lemma PGROUNDDOWN_plus:
  assumes "aligned p" "i < 4096"
  shows "PGROUNDDOWN (p + of_nat i) = p" "unat (p + of_nat i) = unat p + i"
proof -
  obtain k where k: "unat p = k * 4096" using assms(1) unfolding aligned_def by (auto simp: mod_eq_0_iff_dvd dvd_def mult.commute)
  then have "k < 1048576" using unat_lt32 [of p] by simp
  then have "unat p + i < 2 ^ 32" using k assms(2) by simp
  then show u: "unat (p + of_nat i) = unat p + i" by (rule unat_plus_of_nat)
  have "(unat p + i) div 4096 = k" using k assms(2) by simp
  then show "PGROUNDDOWN (p + of_nat i) = p"
    unfolding word_unat_eq_iff unat_PGROUNDDOWN u using k by simp
qed

lemma in_page_iff: "aligned p \<Longrightarrow> unat (a - p) < 4096 \<longleftrightarrow> PGROUNDDOWN a = p"
proof
  assume "aligned p" "unat (a - p) < 4096"
  then show "PGROUNDDOWN a = p" using PGROUNDDOWN_plus(1) [of p "unat (a - p)"] by simp
next
  assume "PGROUNDDOWN a = p"
  then show "unat (a - p) < 4096" using page_offset [of a] by auto
qed

text \<open>Two memories that agree except on the pages of a set.\<close>

definition agree_off :: "32 word set \<Rightarrow> mem \<Rightarrow> mem \<Rightarrow> bool" where
  "agree_off S m m' = (\<forall>a. PGROUNDDOWN a \<notin> S \<longrightarrow> m' a = m a)"

lemma agree_off_refl [simp]: "agree_off S m m"
  by (simp add: agree_off_def)

lemma agree_off_trans: "agree_off S m m' \<Longrightarrow> agree_off T m' m'' \<Longrightarrow> agree_off (S \<union> T) m m''"
  by (simp add: agree_off_def)

lemma agree_off_mono: "agree_off S m m' \<Longrightarrow> S \<subseteq> T \<Longrightarrow> agree_off T m m'"
  by (auto simp: agree_off_def)

lemma mod4_room: "y mod 4 = 0 \<Longrightarrow> y < 4096 \<Longrightarrow> i < 4 \<Longrightarrow> y + i < (4096 :: nat)"
  by (auto simp: mod_eq_0_iff_dvd elim!: dvdE)

lemma agree_off_read32:
  assumes "agree_off S m m'" "PGROUNDDOWN a \<notin> S" "unat a mod 4 = 0"
  shows "read32 m' a = read32 m a"
proof (rule read32_cong)
  fix i :: nat assume i: "i < 4"
  let ?p = "PGROUNDDOWN a"
  have "unat a mod 4096 mod 4 = 0" using assms(3) by (simp add: mod_mod_cancel)
  moreover have "unat a mod 4096 < 4096" by simp
  ultimately have "unat a mod 4096 + i < 4096" using i by (rule mod4_room)
  then have "PGROUNDDOWN (?p + of_nat (unat a mod 4096 + i)) = ?p"
    by (rule PGROUNDDOWN_plus(1) [OF aligned_round(1)])
  moreover have "?p + of_nat (unat a mod 4096 + i) = a + of_nat i"
  proof -
    have "of_nat (unat (a - ?p)) = a - ?p" by simp
    then have "of_nat (unat a mod 4096) = a - ?p" by (simp only: page_offset)
    then show ?thesis by (simp only: of_nat_add) (simp add: algebra_simps)
  qed
  ultimately have "PGROUNDDOWN (a + of_nat i) = ?p" by (simp only:)
  then show "m' (a + of_nat i) = m (a + of_nat i)" using assms(1,2) by (simp add: agree_off_def)
qed

lemma agree_off_fill: "aligned p \<Longrightarrow> agree_off {p} m (fill m p c 4096)"
  by (simp add: agree_off_def fill_def in_page_iff)


lemma plus_small4: "unat a mod 4 = 0 \<Longrightarrow> i < 4 \<Longrightarrow> unat ((a :: 32 word) + of_nat i) = unat a + i"
proof -
  assume a: "unat a mod 4 = 0" "i < 4"
  obtain k where k: "unat a = 4 * k" using a(1) by (auto simp: mod_eq_0_iff_dvd elim!: dvdE)
  then have "k < 1073741824" using unat_lt32 [of a] by simp
  then have "unat a + i < 2 ^ 32" using k a(2) by simp
  then show ?thesis by (rule unat_plus_of_nat)
qed

lemma read32_write32_other:
  assumes "unat a mod 4 = 0" "unat b mod 4 = 0" "a \<noteq> b"
  shows "read32 (write32 m a w) b = read32 m b"
proof (rule read32_cong, rule write32_other)
  fix i j :: nat assume ij: "i < 4" "j < 4"
  show "b + of_nat i \<noteq> a + of_nat j"
  proof
    assume "b + of_nat i = a + of_nat j"
    then have "unat b + i = unat a + j" using plus_small4 assms ij by metis
    then have "(unat b + i) div 4 = (unat a + j) div 4" by simp
    then have "unat b div 4 = unat a div 4" using assms(1,2) ij by (simp add: div_add1_eq)
    then have "unat a = unat b" using assms(1,2) by (metis div_mult_mod_eq)
    with assms(3) show False by (simp add: word_unat_eq_iff)
  qed
qed

lemma PGROUNDDOWN_plus4:
  assumes "unat (a :: 32 word) mod 4 = 0" "i < 4"
  shows "PGROUNDDOWN (a + of_nat i) = PGROUNDDOWN a"
proof -
  have "(unat a + i) div 4 = unat a div 4" using assms by (simp add: div_add1_eq)
  then have "(unat a + i) div 4 div 1024 = unat a div 4 div 1024" by simp
  then have "(unat a + i) div 4096 = unat a div 4096" by (simp add: div_mult2_eq [symmetric])
  then show ?thesis using plus_small4 [OF assms] by (simp add: word_unat_eq_iff unat_PGROUNDDOWN)
qed

lemma agree_off_write32_at:
  assumes "unat a mod 4 = 0"
  shows "agree_off {PGROUNDDOWN a} m (write32 m a w)"
proof -
  have "write32 m a w b = m b" if "PGROUNDDOWN b \<noteq> PGROUNDDOWN a" for b
    by (rule write32_other) (use PGROUNDDOWN_plus4 [OF assms] that in auto)
  then show ?thesis by (simp add: agree_off_def)
qed

lemma read32_fill_page:
  assumes "aligned p" "\<And>a. PGROUNDDOWN a = p \<Longrightarrow> m a = 0" "PGROUNDDOWN a = p" "unat a mod 4 = 0"
  shows "read32 m a = 0"
proof -
  have "read32 m a = read32 (\<lambda>_. 0) a"
    by (rule read32_cong) (use PGROUNDDOWN_plus4 [OF assms(4)] assms(2,3) in simp)
  then show ?thesis by (simp add: read32_def)
qed

text \<open>The address of entry \<open>i\<close> of a table page.\<close>

lemma entry_addr:
  assumes "aligned T" "unat i < 1024"
  shows "PGROUNDDOWN (T + 4 * i) = T" "unat (T + 4 * i) = unat T + 4 * unat i" "unat (T + 4 * i) mod 4 = 0"
proof -
  have *: "T + 4 * i = T + of_nat (4 * unat i)" by simp
  show "PGROUNDDOWN (T + 4 * i) = T" unfolding * by (rule PGROUNDDOWN_plus) (use assms in auto)
  show u: "unat (T + 4 * i) = unat T + 4 * unat i" unfolding * by (rule PGROUNDDOWN_plus) (use assms in auto)
  show "unat (T + 4 * i) mod 4 = 0" unfolding u using aligned_mod4 [OF assms(1)] by (simp add: mod_add_eq [symmetric])
qed

lemma PTX_lt [simp]: "unat (PTX va) < 1024"
  by (simp add: unat_PTX)

lemma PDX_lt [simp]: "unat (PDX va) < 1024"
  using unat_lt32 [of va] by (simp add: unat_PDX)

lemma page_of_indices:
  "PDX a = PDX b \<and> PTX a = PTX b \<longleftrightarrow> PGROUNDDOWN a = PGROUNDDOWN b"
proof -
  have d: "n div 2 ^ 22 = n div 4096 div 1024" for n :: nat by (simp add: div_mult2_eq [symmetric])
  have "PDX a = PDX b \<and> PTX a = PTX b \<longleftrightarrow> unat a div 4096 = unat b div 4096"
    unfolding word_unat_eq_iff unat_PDX unat_PTX d by (metis div_mult_mod_eq)
  then show ?thesis by (simp add: word_unat_eq_iff unat_PGROUNDDOWN)
qed


end
