(* ===== verification/Spinlock.thy ===== *)
theory Spinlock
  imports Mmu
begin

text \<open>
  Spinlocks on several CPUs, \<open>spinlock.c\<close> and \<open>mycpu\<close> of \<open>proc.c\<close>. The state is the CPUs'
  interrupt bookkeeping and the locks; one step of \<open>lock_step\<close> is one atomic access to a lock
  by one CPU: the \<open>xchg\<close>, recording the holder, clearing it, the final store. Between its steps
  a CPU runs arbitrary kernel code.
\<close>

section \<open>State\<close>

record cpu =
  apicid :: nat
  ncli :: int
  intena :: bool
  eflags_IF :: bool

record spinlock =
  locked :: bool
  lcpu :: "nat option"
  lpcs :: "32 word list"

text \<open>Where a CPU is: in kernel code, spinning in \<open>acquire\<close>, between the \<open>xchg\<close> and recording the
  holder, in \<open>release\<close> between clearing the holder and the store, and before its \<open>popcli\<close>.\<close>

datatype lock_pc = Outside | Spinning nat | Taken nat | Clearing nat | Popping

record machine =
  cpus :: "nat \<Rightarrow> cpu"
  locks :: "nat \<Rightarrow> spinlock"
  pcs :: "nat \<Rightarrow> lock_pc"

definition mycpu :: "nat \<Rightarrow> bool \<Rightarrow> nat \<Rightarrow> (nat \<Rightarrow> cpu) \<Rightarrow> nat res" where
  "mycpu ncpu interrupts lapicid cs =
     (if interrupts then Inl (Panic ''mycpu called with interrupts enabled'')
      else case first_idx (\<lambda>i. apicid (cs i) = lapicid) [0..<ncpu] of
        Some i \<Rightarrow> Inr i | None \<Rightarrow> Inl (Panic ''unknown apicid''))"

definition initlock :: "spinlock" where
  "initlock = \<lparr>locked = False, lcpu = None, lpcs = []\<rparr>"

definition pushcli :: "cpu \<Rightarrow> cpu" where
  "pushcli c =
     (let eflags = eflags_IF c; c = c\<lparr>eflags_IF := False\<rparr>;
          c = (if ncli c = 0 then c\<lparr>intena := eflags\<rparr> else c)
      in c\<lparr>ncli := ncli c + 1\<rparr>)"

definition popcli :: "cpu \<Rightarrow> cpu res" where
  "popcli c =
     (if eflags_IF c then Inl (Panic ''popcli - interruptible'')
      else
        let c = c\<lparr>ncli := ncli c - 1\<rparr>
        in if ncli c < 0 then Inl (Panic ''popcli'')
           else Inr (if ncli c = 0 \<and> intena c then c\<lparr>eflags_IF := True\<rparr> else c))"

definition holding :: "nat \<Rightarrow> spinlock \<Rightarrow> bool" where
  "holding me lk = (locked lk \<and> lcpu lk = Some me)"

text \<open>The program counters on the call stack, by following the chain of saved frame pointers.\<close>

fun pcs_chain :: "mem \<Rightarrow> nat \<Rightarrow> 32 word \<Rightarrow> 32 word list" where
  "pcs_chain m 0 ebp = []"
| "pcs_chain m (Suc k) ebp =
     (if ebp = 0 \<or> ebp < KERNBASE \<or> ebp = 0xFFFFFFFF then replicate (Suc k) 0
      else read32 m (ebp + 4) # pcs_chain m k (read32 m ebp))"

definition getcallerpcs :: "mem \<Rightarrow> 32 word \<Rightarrow> 32 word list" where
  "getcallerpcs m v = pcs_chain m 10 (v - 8)"

section \<open>Steps\<close>

definition cpu_upd :: "nat \<Rightarrow> cpu \<Rightarrow> lock_pc \<Rightarrow> machine \<Rightarrow> machine" where
  "cpu_upd c d pc s = s\<lparr>cpus := (cpus s)(c := d), pcs := (pcs s)(c := pc)\<rparr>"

definition lock_upd :: "nat \<Rightarrow> spinlock \<Rightarrow> nat \<Rightarrow> lock_pc \<Rightarrow> machine \<Rightarrow> machine" where
  "lock_upd l k c pc s = s\<lparr>locks := (locks s)(l := k), pcs := (pcs s)(c := pc)\<rparr>"

text \<open>\<open>None\<close> is the panic that ends the system.\<close>

inductive lock_step :: "machine \<Rightarrow> machine option \<Rightarrow> bool" where
  acquire_begin: "pcs s c = Outside \<Longrightarrow> \<not> holding c (locks s l) \<Longrightarrow>
    lock_step s (Some (cpu_upd c (pushcli (cpus s c)) (Spinning l) s))"
| acquire_panic: "pcs s c = Outside \<Longrightarrow> holding c (locks s l) \<Longrightarrow> lock_step s None"
| acquire_spin: "pcs s c = Spinning l \<Longrightarrow> locked (locks s l) \<Longrightarrow> lock_step s (Some s)"
| acquire_xchg: "pcs s c = Spinning l \<Longrightarrow> \<not> locked (locks s l) \<Longrightarrow>
    lock_step s (Some (lock_upd l ((locks s l)\<lparr>locked := True\<rparr>) c (Taken l) s))"
| acquire_record: "pcs s c = Taken l \<Longrightarrow>
    lock_step s (Some (lock_upd l ((locks s l)\<lparr>lcpu := Some c, lpcs := pc10\<rparr>) c Outside s))"
| release_panic: "pcs s c = Outside \<Longrightarrow> \<not> holding c (locks s l) \<Longrightarrow> lock_step s None"
| release_begin: "pcs s c = Outside \<Longrightarrow> holding c (locks s l) \<Longrightarrow>
    lock_step s (Some (lock_upd l ((locks s l)\<lparr>lcpu := None, lpcs := (lpcs (locks s l))[0 := 0]\<rparr>) c (Clearing l) s))"
| release_store: "pcs s c = Clearing l \<Longrightarrow>
    lock_step s (Some (lock_upd l ((locks s l)\<lparr>locked := False\<rparr>) c Popping s))"
| release_pop: "pcs s c = Popping \<Longrightarrow> popcli (cpus s c) = Inr d \<Longrightarrow> lock_step s (Some (cpu_upd c d Outside s))"
| interrupts: "pcs s c = Outside \<Longrightarrow> ncli (cpus s c) = 0 \<Longrightarrow>
    lock_step s (Some (cpu_upd c ((cpus s c)\<lparr>eflags_IF := b\<rparr>) Outside s))"
| release_pop_panic: "pcs s c = Popping \<Longrightarrow> popcli (cpus s c) = Inl e \<Longrightarrow> lock_step s None"

definition boot :: "machine" where
  "boot = \<lparr>cpus = (\<lambda>i. \<lparr>apicid = i, ncli = 0, intena = False, eflags_IF = True\<rparr>), locks = (\<lambda>_. initlock),
     pcs = (\<lambda>_. Outside)\<rparr>"

inductive lock_run :: "machine \<Rightarrow> bool" where
  lock_boot: "lock_run boot"
| lock_more: "lock_run s \<Longrightarrow> lock_step s (Some t) \<Longrightarrow> lock_run t"

inductive_cases lock_stepE: "lock_step s (Some t)"

section \<open>Mutual exclusion\<close>

text \<open>The CPU has the lock: it is recorded as holder, or it is about to be, or it has not yet
  stored the lock back.\<close>

definition owns :: "machine \<Rightarrow> nat \<Rightarrow> nat \<Rightarrow> bool" where
  "owns s c l = (lcpu (locks s l) = Some c \<or> pcs s c = Taken l \<or> pcs s c = Clearing l)"

text \<open>The depth of \<open>pushcli\<close> a CPU is at: one for every lock it has, and one while it is inside
  \<open>acquire\<close> or \<open>release\<close> without a lock.\<close>

fun pc_depth :: "lock_pc \<Rightarrow> int" where
  "pc_depth (Spinning l) = 1"
| "pc_depth Popping = 1"
| "pc_depth _ = 0"

definition depth :: "machine \<Rightarrow> nat \<Rightarrow> int" where
  "depth s c = int (card {l. owns s c l}) + pc_depth (pcs s c)"

definition lock_inv :: "machine \<Rightarrow> bool" where
  "lock_inv s \<longleftrightarrow>
     (\<forall>l c. owns s c l \<longrightarrow> locked (locks s l)) \<and>
     (\<forall>l c d. owns s c l \<longrightarrow> owns s d l \<longrightarrow> c = d) \<and>
     (\<forall>l c. pcs s c = Taken l \<or> pcs s c = Clearing l \<longrightarrow> lcpu (locks s l) = None) \<and>
     (\<forall>l. locked (locks s l) \<longrightarrow> (\<exists>c. owns s c l)) \<and>
     (\<forall>c. finite {l. owns s c l} \<and> ncli (cpus s c) = depth s c \<and> (0 < ncli (cpus s c) \<longrightarrow> \<not> eflags_IF (cpus s c)))"

lemma lock_inv_boot: "lock_inv boot"
  by (auto simp: lock_inv_def boot_def owns_def initlock_def depth_def)

lemma lock_invD:
  assumes "lock_inv s"
  shows "owns s c l \<Longrightarrow> locked (locks s l)" "owns s c l \<Longrightarrow> owns s d l \<Longrightarrow> c = d"
    "pcs s c = Taken l \<Longrightarrow> lcpu (locks s l) = None" "pcs s c = Clearing l \<Longrightarrow> lcpu (locks s l) = None"
    "locked (locks s l) \<Longrightarrow> \<exists>c. owns s c l" "finite {l. owns s c l}" "ncli (cpus s c) = depth s c"
    "0 < ncli (cpus s c) \<Longrightarrow> \<not> eflags_IF (cpus s c)"
  using assms by (auto simp: lock_inv_def)

lemma lock_invI:
  assumes "\<And>c l. owns s c l \<Longrightarrow> locked (locks s l)" "\<And>c d l. owns s c l \<Longrightarrow> owns s d l \<Longrightarrow> c = d"
    "\<And>c l. pcs s c = Taken l \<or> pcs s c = Clearing l \<Longrightarrow> lcpu (locks s l) = None"
    "\<And>l. locked (locks s l) \<Longrightarrow> \<exists>c. owns s c l" "\<And>c. finite {l. owns s c l}"
    "\<And>c. ncli (cpus s c) = depth s c" "\<And>c. 0 < ncli (cpus s c) \<Longrightarrow> \<not> eflags_IF (cpus s c)"
  shows "lock_inv s"
  using assms unfolding lock_inv_def by blast

text \<open>A step that changes only the CPU \<open>c\<close>: the counters have to be checked for it alone.\<close>

lemma lock_inv_cpu:
  assumes inv: "lock_inv s" and pcs: "pcs s c \<in> {Outside, Popping}" "pc' = Outside \<or> (\<exists>l. pc' = Spinning l)"
    and n: "ncli d = int (card {l. owns s c l}) + pc_depth pc'"
    and i: "0 < ncli d \<Longrightarrow> \<not> eflags_IF d"
  shows "lock_inv (cpu_upd c d pc' s)"
proof -
  let ?t = "cpu_upd c d pc' s"
  have o: "owns ?t = owns s"
    using pcs by (auto simp: owns_def cpu_upd_def fun_eq_iff)
  have dep: "depth ?t e = (if e = c then int (card {l. owns s c l}) + pc_depth pc' else depth s e)" for e
    unfolding depth_def o using pcs(2) by (auto simp: cpu_upd_def split: if_splits)
  show ?thesis
    using inv pcs(2) n i unfolding lock_inv_def o dep by (auto simp: cpu_upd_def split: if_splits)
qed

text \<open>A step that changes the lock \<open>l\<close> and where \<open>c\<close> is, but not what any CPU owns.\<close>

lemma lock_inv_same_owner:
  assumes inv: "lock_inv s" and o: "owns (lock_upd l k c pc' s) = owns s" and k: "locked k = locked (locks s l)"
    and pc: "pc_depth (pcs s c) = pc_depth pc'"
    and n: "\<And>d m. (pcs (lock_upd l k c pc' s) d = Taken m \<or> pcs (lock_upd l k c pc' s) d = Clearing m) \<Longrightarrow>
      lcpu (locks (lock_upd l k c pc' s) m) = None"
  shows "lock_inv (lock_upd l k c pc' s)"
proof -
  have "depth (lock_upd l k c pc' s) e = depth s e" for e
    unfolding depth_def o using pc by (simp add: lock_upd_def)
  moreover have "locked (locks (lock_upd l k c pc' s) m) = locked (locks s m)" for m
    using k by (simp add: lock_upd_def)
  moreover have "cpus (lock_upd l k c pc' s) = cpus s" by (simp add: lock_upd_def)
  ultimately show ?thesis using inv n unfolding lock_inv_def o by metis
qed

lemma lock_inv_xchg:
  assumes inv: "lock_inv s" and pc: "pcs s c = Spinning l" and free: "\<not> locked (locks s l)"
  shows "lock_inv (lock_upd l ((locks s l)\<lparr>locked := True\<rparr>) c (Taken l) s)" (is "lock_inv ?t")
proof -
  note d = lock_invD [OF inv]
  have none: "\<not> owns s e l" for e using d(1) free by blast
  then have lc: "lcpu (locks s l) = None" by (cases "lcpu (locks s l)") (auto simp: owns_def)
  have o: "owns ?t e m \<longleftrightarrow> owns s e m \<or> (e = c \<and> m = l)" for e m
    using pc none by (auto simp: owns_def lock_upd_def)
  have "{m. owns ?t c m} = insert l {m. owns s c m}" using o by auto
  then have dep: "depth ?t e = depth s e" for e
    using o none d(6) [of c] pc by (cases "e = c") (auto simp: depth_def lock_upd_def)
  have fin: "finite {m. owns ?t e m}" for e
  proof -
    have "{m. owns ?t e m} \<subseteq> insert l {m. owns s e m}" using o by auto
    then show ?thesis using d(6) by (meson finite.insertI finite_subset)
  qed
  have f2: "owns ?t e m \<Longrightarrow> owns ?t f m \<Longrightarrow> e = f" for e f m
    using o none d(2) by metis
  have f1: "owns ?t e m \<Longrightarrow> locked (locks ?t m)" for e m
    using o d(1) by (auto simp: lock_upd_def)
  have f4: "locked (locks ?t m) \<Longrightarrow> \<exists>e. owns ?t e m" for m
    using o d(5) by (auto simp: lock_upd_def split: if_splits)
  have f3: "pcs ?t e = Taken m \<or> pcs ?t e = Clearing m \<Longrightarrow> lcpu (locks ?t m) = None" for e m
    using d(3,4) lc by (auto simp: lock_upd_def split: if_splits)
  have cp: "cpus ?t = cpus s" by (simp add: lock_upd_def)
  show ?thesis
  proof (rule lock_invI)
    show "\<And>e m. owns ?t e m \<Longrightarrow> locked (locks ?t m)" by (rule f1)
    show "\<And>e f m. owns ?t e m \<Longrightarrow> owns ?t f m \<Longrightarrow> e = f" by (rule f2)
    show "\<And>e m. pcs ?t e = Taken m \<or> pcs ?t e = Clearing m \<Longrightarrow> lcpu (locks ?t m) = None" by (rule f3)
    show "\<And>m. locked (locks ?t m) \<Longrightarrow> \<exists>e. owns ?t e m" by (rule f4)
    show "\<And>e. finite {m. owns ?t e m}" by (rule fin)
    show "\<And>e. ncli (cpus ?t e) = depth ?t e" unfolding cp dep by (rule d(7))
    show "\<And>e. 0 < ncli (cpus ?t e) \<Longrightarrow> \<not> eflags_IF (cpus ?t e)" unfolding cp by (rule d(8))
  qed
qed

lemma lock_inv_store:
  assumes inv: "lock_inv s" and pc: "pcs s c = Clearing l"
  shows "lock_inv (lock_upd l ((locks s l)\<lparr>locked := False\<rparr>) c Popping s)" (is "lock_inv ?t")
proof -
  note d = lock_invD [OF inv]
  have own: "owns s c l" using pc by (simp add: owns_def)
  have lc: "lcpu (locks s l) = None" using d(4) pc by simp
  have o: "owns ?t e m \<longleftrightarrow> owns s e m \<and> m \<noteq> l" for e m
  proof (cases "m = l")
    case True
    have "\<not> owns ?t e l"
    proof
      assume a: "owns ?t e l"
      then have "e \<noteq> c" using lc by (auto simp: owns_def lock_upd_def)
      with a have "owns s e l" using lc by (auto simp: owns_def lock_upd_def)
      with \<open>e \<noteq> c\<close> show False using d(2) own by blast
    qed
    with True show ?thesis by simp
  qed (use pc in \<open>auto simp: owns_def lock_upd_def\<close>)
  have "{m. owns ?t c m} = {m. owns s c m} - {l}" using o by auto
  moreover have "card {m. owns s c m} = Suc (card ({m. owns s c m} - {l}))"
    using card_Suc_Diff1 [OF d(6) [of c], of l] own by simp
  ultimately have "depth ?t c = depth s c" using pc by (simp add: depth_def lock_upd_def)
  moreover have "depth ?t e = depth s e" if "e \<noteq> c" for e
  proof -
    have "{m. owns ?t e m} = {m. owns s e m}" using o d(2) own that by blast
    with that show ?thesis by (simp add: depth_def lock_upd_def)
  qed
  ultimately have dep: "depth ?t e = depth s e" for e by metis
  have fin: "finite {m. owns ?t e m}" for e using o d(6) [of e] by simp
  have f2: "owns ?t e m \<Longrightarrow> owns ?t f m \<Longrightarrow> e = f" for e f m using o d(2) by metis
  have f1: "owns ?t e m \<Longrightarrow> locked (locks ?t m)" for e m using o d(1) by (auto simp: lock_upd_def)
  have f4: "locked (locks ?t m) \<Longrightarrow> \<exists>e. owns ?t e m" for m
    using o d(5) by (auto simp: lock_upd_def split: if_splits)
  have f3: "pcs ?t e = Taken m \<or> pcs ?t e = Clearing m \<Longrightarrow> lcpu (locks ?t m) = None" for e m
    using d(3,4) lc by (auto simp: lock_upd_def split: if_splits)
  have cp: "cpus ?t = cpus s" by (simp add: lock_upd_def)
  show ?thesis
  proof (rule lock_invI)
    show "\<And>e m. owns ?t e m \<Longrightarrow> locked (locks ?t m)" by (rule f1)
    show "\<And>e f m. owns ?t e m \<Longrightarrow> owns ?t f m \<Longrightarrow> e = f" by (rule f2)
    show "\<And>e m. pcs ?t e = Taken m \<or> pcs ?t e = Clearing m \<Longrightarrow> lcpu (locks ?t m) = None" by (rule f3)
    show "\<And>m. locked (locks ?t m) \<Longrightarrow> \<exists>e. owns ?t e m" by (rule f4)
    show "\<And>e. finite {m. owns ?t e m}" by (rule fin)
    show "\<And>e. ncli (cpus ?t e) = depth ?t e" unfolding cp dep by (rule d(7))
    show "\<And>e. 0 < ncli (cpus ?t e) \<Longrightarrow> \<not> eflags_IF (cpus ?t e)" unfolding cp by (rule d(8))
  qed
qed

lemma lock_inv_step:
  assumes inv: "lock_inv s" and st: "lock_step s (Some t)"
  shows "lock_inv t"
  using st
proof cases
  case (acquire_begin c l)
  then show ?thesis
    using lock_invD(7) [OF inv, of c]
    by (simp, intro lock_inv_cpu [OF inv]) (auto simp: pushcli_def Let_def depth_def)
next
  case acquire_spin
  then show ?thesis using inv by simp
next
  case (acquire_xchg c l)
  then show ?thesis using lock_inv_xchg [OF inv] by simp
next
  case (acquire_record c l pc10)
  note n = lock_invD(3) [OF inv acquire_record(2)]
  have own: "owns s c l" using acquire_record by (simp add: owns_def)
  show ?thesis unfolding acquire_record(1)
  proof (rule lock_inv_same_owner [OF inv])
    show "owns (lock_upd l ((locks s l)\<lparr>lcpu := Some c, lpcs := pc10\<rparr>) c Outside s) = owns s"
      using acquire_record(2) n by (auto simp: owns_def lock_upd_def fun_eq_iff)
    fix d m assume "pcs (lock_upd l ((locks s l)\<lparr>lcpu := Some c, lpcs := pc10\<rparr>) c Outside s) d = Taken m \<or>
      pcs (lock_upd l ((locks s l)\<lparr>lcpu := Some c, lpcs := pc10\<rparr>) c Outside s) d = Clearing m"
    then have d: "d \<noteq> c" "pcs s d = Taken m \<or> pcs s d = Clearing m" by (auto simp: lock_upd_def split: if_splits)
    then have "m \<noteq> l" using lock_invD(2) [OF inv own, of d] by (auto simp: owns_def)
    with d lock_invD(3,4) [OF inv] show "lcpu (locks (lock_upd l ((locks s l)\<lparr>lcpu := Some c, lpcs := pc10\<rparr>) c Outside s) m) = None"
      by (auto simp: lock_upd_def)
  qed (use acquire_record in simp_all)
next
  case (release_begin c l)
  have h: "locked (locks s l)" "lcpu (locks s l) = Some c" using release_begin by (simp_all add: holding_def)
  show ?thesis unfolding release_begin(1)
  proof (rule lock_inv_same_owner [OF inv])
    show "owns (lock_upd l ((locks s l)\<lparr>lcpu := None, lpcs := (lpcs (locks s l))[0 := 0]\<rparr>) c (Clearing l) s) = owns s"
      using release_begin(2) h by (auto simp: owns_def lock_upd_def fun_eq_iff)
  qed (use release_begin lock_invD(3,4) [OF inv] in \<open>auto simp: lock_upd_def split: if_splits\<close>)
next
  case (release_store c l)
  then show ?thesis using lock_inv_store [OF inv] by simp
next
  case (release_pop c d)
  then show ?thesis
    using lock_invD(7) [OF inv, of c]
    by (simp, intro lock_inv_cpu [OF inv]) (auto simp: popcli_def Let_def depth_def split: if_splits)
next
  case (interrupts c b)
  then show ?thesis
    using lock_invD(7) [OF inv, of c]
    by (simp, intro lock_inv_cpu [OF inv]) (auto simp: depth_def)
qed


lemma lock_run_inv: "lock_run s \<Longrightarrow> lock_inv s"
  by (induction rule: lock_run.induct) (auto intro: lock_inv_boot lock_inv_step)

section \<open>Properties\<close>

text \<open>
  C15. Mutual exclusion: in every state that any number of CPUs can reach by interleaved
  \<open>acquire\<close> and \<open>release\<close> calls, at most one CPU has a given lock (from its successful \<open>xchg\<close> to
  its store in \<open>release\<close>), a CPU with a lock runs with interrupts off, and its \<open>ncli\<close> is the
  number of locks it has, plus one while it is waiting in \<open>acquire\<close> or about to \<open>popcli\<close>.
\<close>

theorem spinlock_mutual_exclusion:
  assumes "lock_run s"
  shows "(owns s c l \<longrightarrow> owns s d l \<longrightarrow> c = d) \<and> (owns s c l \<longrightarrow> \<not> eflags_IF (cpus s c)) \<and>
    ncli (cpus s c) = int (card {l. owns s c l}) + pc_depth (pcs s c)"
proof -
  note d = lock_invD [OF lock_run_inv [OF assms]]
  have "owns s c l \<Longrightarrow> 0 < card {l. owns s c l}" using d(6) [of c] by (auto simp: card_gt_0_iff)
  moreover have "0 \<le> pc_depth pc" for pc by (cases pc) auto
  ultimately have "owns s c l \<Longrightarrow> 0 < ncli (cpus s c)" using d(7) [of c] by (simp add: depth_def add_pos_nonneg)
  with d(2) d(8) [of c] d(7) [of c] show ?thesis by (auto simp: depth_def)
qed

lemma two_cpus_run:
  defines "s1 \<equiv> cpu_upd 0 (pushcli (cpus boot 0)) (Spinning 7) boot"
  defines "s2 \<equiv> lock_upd 7 ((locks s1 7)\<lparr>locked := True\<rparr>) 0 (Taken 7) s1"
  defines "s3 \<equiv> cpu_upd 1 (pushcli (cpus s2 1)) (Spinning 7) s2"
  shows "lock_run s3" "owns s3 0 7" "pcs s3 1 = Spinning 7"
proof -
  have "lock_step boot (Some s1)" unfolding s1_def
    by (rule acquire_begin) (simp_all add: boot_def holding_def initlock_def)
  then have r1: "lock_run s1" using lock_boot lock_more by blast
  have "lock_step s1 (Some s2)" unfolding s2_def
    by (rule acquire_xchg) (simp_all add: s1_def cpu_upd_def boot_def initlock_def)
  then have r2: "lock_run s2" using r1 lock_more by blast
  have "lock_step s2 (Some s3)" unfolding s3_def
    by (rule acquire_begin) (simp_all add: s2_def s1_def lock_upd_def cpu_upd_def boot_def holding_def initlock_def)
  then show "lock_run s3" using r2 lock_more by blast
  show "owns s3 0 7" "pcs s3 1 = Spinning 7"
    by (simp_all add: owns_def s3_def s2_def lock_upd_def cpu_upd_def)
qed

theorem spinlock_mutual_exclusion_witness:
  "\<exists>s. lock_run s \<and> owns s 0 7 \<and> pcs s 1 = Spinning 7 \<and> \<not> owns s 1 7 \<and> \<not> eflags_IF (cpus s 0)"
  using two_cpus_run spinlock_mutual_exclusion [OF two_cpus_run(1), of 0 7 1] by auto

lemma spinning_not_holder: "lock_run s \<Longrightarrow> pcs s c = Spinning l \<Longrightarrow> lcpu (locks s l) \<noteq> Some c"
proof (induction arbitrary: c l rule: lock_run.induct)
  case lock_boot
  then show ?case by (simp add: boot_def)
next
  case (lock_more s t)
  note d = lock_invD [OF lock_run_inv [OF lock_more.hyps(1)]]
  from lock_more.hyps(2) show ?case
  proof cases
    case (acquire_begin e m)
    then show ?thesis
      using lock_more.IH [of c l] lock_more.prems d(1) [of c l]
      by (auto simp: cpu_upd_def holding_def owns_def split: if_splits)
  qed (use lock_more.IH [of c l] lock_more.prems in
      \<open>auto simp: cpu_upd_def lock_upd_def split: if_splits\<close>)
qed

text \<open>
  No self-deadlock and no panic in \<open>release\<close>: a CPU that spins in \<open>acquire\<close> is not the one
  that has the lock, since holding it already is caught before, and the \<open>popcli\<close> that ends
  \<open>release\<close> succeeds and lets interrupts through again only at depth zero.
\<close>

theorem spinlock_no_self_deadlock:
  assumes "lock_run s"
  shows "(pcs s c = Spinning l \<longrightarrow> \<not> owns s c l) \<and>
    (pcs s c = Popping \<longrightarrow> (\<exists>d. popcli (cpus s c) = Inr d \<and> (eflags_IF d \<longrightarrow> {l. owns s c l} = {})))"
proof -
  note d = lock_invD [OF lock_run_inv [OF assms]]
  have "\<exists>d. popcli (cpus s c) = Inr d \<and> (eflags_IF d \<longrightarrow> {l. owns s c l} = {})" if p: "pcs s c = Popping"
  proof -
    have n: "ncli (cpus s c) = int (card {l. owns s c l}) + 1" using d(7) [of c] p by (simp add: depth_def)
    then have "\<not> eflags_IF (cpus s c)" using d(8) by simp
    then show ?thesis using n d(6) [of c] by (auto simp: popcli_def Let_def)
  qed
  then show ?thesis using spinning_not_holder [OF assms] by (auto simp: owns_def)
qed

theorem spinlock_no_self_deadlock_witness:
  "\<exists>s. lock_run s \<and> pcs s 1 = Spinning 7 \<and> \<not> owns s 1 7"
  using two_cpus_run spinlock_no_self_deadlock [OF two_cpus_run(1), of 1 7] by auto

end
