(* ===== verification/Kalloc.thy ===== *)
theory Kalloc
  imports Mmu
begin

text \<open>
  The physical page allocator, \<open>kalloc.c\<close>. The free list is threaded through the free pages
  themselves: the first word of a free page holds the address of the next one. The record
  \<open>phys\<close> holds the machine's memory (at kernel virtual addresses), the head of that list, the
  addresses \<open>end\<close> and \<open>data\<close> the linker script defines, and what the kernel has printed.
  Every later state of the kernel extends it. The spinlock \<open>kmem.lock\<close> makes \<open>kfree\<close> and
  \<open>kalloc\<close> atomic and has no other effect here (locks are modelled in \<open>Spinlock\<close>).

  \<open>page_alloc\<close> is the contract the virtual-memory code relies on; it is interpreted on
  \<open>kalloc\<close> and \<open>kfree\<close>.
\<close>

section \<open>State and operations\<close>

record phys =
  pmem :: mem
  freelist :: "32 word"
  use_lock :: bool
  kend :: "32 word"
  kdata :: "32 word"
  kout :: "string list"

definition cprintf :: "string \<Rightarrow> ('a) phys_scheme \<Rightarrow> 'a phys_scheme" where
  "cprintf msg s = s\<lparr>kout := kout s @ [msg]\<rparr>"

definition kfree :: "32 word \<Rightarrow> 'a phys_scheme \<Rightarrow> 'a phys_scheme res" where
  "kfree v s =
     (if unat v mod 4096 \<noteq> 0 \<or> v < kend s \<or> V2P v \<ge> PHYSTOP then Inl (Panic ''kfree'')
      else
        let s = s\<lparr>pmem := memset (pmem s) v 1 4096\<rparr>;
            s = s\<lparr>pmem := write32 (pmem s) v (freelist s)\<rparr>
        in Inr (s\<lparr>freelist := v\<rparr>))"

definition kalloc :: "'a phys_scheme \<Rightarrow> 32 word \<times> 'a phys_scheme" where
  "kalloc s =
     (let r = freelist s
      in if r \<noteq> 0 then (r, s\<lparr>freelist := read32 (pmem s) r\<rparr>) else (0, s))"

lemma kfree_room: "kfree v s = Inr t \<Longrightarrow> unat v < 0x8E000000"
  unfolding kfree_def V2P_def
  by (auto simp: word_le_nat_alt unat_sub_if' split: if_splits)

function freerange_loop :: "32 word \<Rightarrow> 32 word \<Rightarrow> 'a phys_scheme \<Rightarrow> 'a phys_scheme res" where
  "freerange_loop p vend s =
     (if p + PGSIZE \<le> vend then bindE (kfree p s) (\<lambda>s. freerange_loop (p + PGSIZE) vend s) else Inr s)"
  by pat_completeness auto
termination
proof (relation "measure (\<lambda>(p, vend, s). 2 ^ 32 - unat p)")
  fix p vend :: "32 word" and s t :: "'a phys_scheme"
  assume "kfree p s = Inr t"
  then have "unat p < 0x8E000000" by (rule kfree_room)
  then have "unat (p + of_nat 4096) = unat p + 4096" by (intro unat_plus_of_nat) simp
  with \<open>unat p < 0x8E000000\<close>
  show "((p + PGSIZE, vend, t), p, vend, s) \<in> measure (\<lambda>(p, vend, s). 2 ^ 32 - unat p)" by simp
qed simp

declare freerange_loop.simps [simp del]

definition freerange :: "32 word \<Rightarrow> 32 word \<Rightarrow> 'a phys_scheme \<Rightarrow> 'a phys_scheme res" where
  "freerange vstart vend s = freerange_loop (PGROUNDUP vstart) vend s"

definition kinit1 :: "32 word \<Rightarrow> 32 word \<Rightarrow> 'a phys_scheme \<Rightarrow> 'a phys_scheme res" where
  "kinit1 vstart vend s = freerange vstart vend (s\<lparr>use_lock := False\<rparr>)"

definition kinit2 :: "32 word \<Rightarrow> 32 word \<Rightarrow> 'a phys_scheme \<Rightarrow> 'a phys_scheme res" where
  "kinit2 vstart vend s = bindE (freerange vstart vend s) (\<lambda>s. Inr (s\<lparr>use_lock := True\<rparr>))"

section \<open>The free list\<close>

text \<open>\<open>flist m h ps\<close>: the list that starts at \<open>h\<close> in memory \<open>m\<close> runs through the pages \<open>ps\<close>.\<close>

fun flist :: "mem \<Rightarrow> 32 word \<Rightarrow> 32 word list \<Rightarrow> bool" where
  "flist m h [] = (h = 0)"
| "flist m h (p # ps) = (h = p \<and> p \<noteq> 0 \<and> flist m (read32 m p) ps)"

definition page_ok :: "'a phys_scheme \<Rightarrow> 32 word \<Rightarrow> bool" where
  "page_ok s p = (aligned p \<and> kend s \<le> p \<and> V2P p < PHYSTOP)"

definition free_pages :: "'a phys_scheme \<Rightarrow> 32 word list \<Rightarrow> bool" where
  "free_pages s ps = (flist (pmem s) (freelist s) ps \<and> distinct ps \<and> (\<forall>p \<in> set ps. page_ok s p))"

lemma page_ok_0 [simp]: "\<not> page_ok s 0"
  by (simp add: page_ok_def V2P_def)

lemma page_ok_update [simp]:
  "page_ok (s\<lparr>pmem := m\<rparr>) p = page_ok s p" "page_ok (s\<lparr>freelist := h\<rparr>) p = page_ok s p"
  "page_ok (s\<lparr>kout := out\<rparr>) p = page_ok s p"
  by (simp_all add: page_ok_def)

lemma flist_frame:
  assumes "flist m h ps" "agree_off S m m'" "set ps \<inter> S = {}" "\<And>p. p \<in> set ps \<Longrightarrow> aligned p"
  shows "flist m' h ps"
  using assms
proof (induction ps arbitrary: h)
  case (Cons p ps)
  have p: "aligned p" "p \<notin> S" using Cons.prems(3,4) by auto
  then have "read32 m' p = read32 m p"
    using agree_off_read32 [OF Cons.prems(2), of p] by (simp add: PGROUNDDOWN_aligned aligned_mod4)
  with Cons show ?case by auto
qed simp

lemma agree_off_write32:
  assumes "aligned p" shows "agree_off {p} m (write32 m p w)"
proof -
  have "write32 m p w a = m a" if "PGROUNDDOWN a \<noteq> p" for a
  proof (rule write32_other)
    fix i :: nat assume "i < 4"
    then show "a \<noteq> p + of_nat i" using PGROUNDDOWN_plus(1) [OF assms, of i] that by auto
  qed
  then show ?thesis by (simp add: agree_off_def)
qed

lemma agree_off_memset: "aligned p \<Longrightarrow> agree_off {p} m (memset m p c 4096)"
  by (simp add: memset_fill agree_off_fill)

text \<open>What \<open>kfree\<close> does on a page, and when it panics.\<close>

lemma kfree_page:
  assumes "page_ok s v"
  obtains m where "kfree v s = Inr (s\<lparr>pmem := m, freelist := v\<rparr>)" "read32 m v = freelist s"
    "agree_off {v} (pmem s) m"
proof
  let ?m = "write32 (memset (pmem s) v 1 4096) v (freelist s)"
  show "kfree v s = Inr (s\<lparr>pmem := ?m, freelist := v\<rparr>)"
    using assms by (auto simp: kfree_def page_ok_def aligned_def not_le not_less Let_def)
  show "agree_off {v} (pmem s) ?m"
    using agree_off_trans [OF agree_off_memset agree_off_write32, of v v] assms by (auto simp: page_ok_def)
qed simp

lemma kfree_panics_iff: "kfree v s = Inl (Panic ''kfree'') \<longleftrightarrow> \<not> page_ok s v"
  by (auto simp: kfree_def page_ok_def aligned_def not_le not_less Let_def)

lemma kfree_push:
  assumes "free_pages s ps" "page_ok s v" "v \<notin> set ps"
  obtains m where "kfree v s = Inr (s\<lparr>pmem := m, freelist := v\<rparr>)"
    "free_pages (s\<lparr>pmem := m, freelist := v\<rparr>) (v # ps)" "agree_off {v} (pmem s) m"
proof -
  obtain m where m: "kfree v s = Inr (s\<lparr>pmem := m, freelist := v\<rparr>)" "read32 m v = freelist s"
    "agree_off {v} (pmem s) m" using kfree_page [OF assms(2)] by blast
  have "flist m (freelist s) ps"
    by (rule flist_frame [OF _ m(3)]) (use assms in \<open>auto simp: free_pages_def page_ok_def\<close>)
  moreover have "v \<noteq> 0" using assms(2) by (metis page_ok_0)
  ultimately have "free_pages (s\<lparr>pmem := m, freelist := v\<rparr>) (v # ps)"
    using assms m(2) by (simp add: free_pages_def)
  with m that show thesis by blast
qed

lemma kalloc_empty: "free_pages s [] \<Longrightarrow> kalloc s = (0, s)"
  by (simp add: free_pages_def kalloc_def)

lemma kalloc_pop:
  assumes "free_pages s (p # ps)"
  shows "kalloc s = (p, s\<lparr>freelist := read32 (pmem s) p\<rparr>)"
    "free_pages (s\<lparr>freelist := read32 (pmem s) p\<rparr>) ps" "page_ok s p" "p \<notin> set ps"
  using assms by (auto simp: free_pages_def kalloc_def)

lemma free_pages_frame:
  assumes "free_pages s ps" "agree_off S (pmem s) m" "set ps \<inter> S = {}"
  shows "free_pages (s\<lparr>pmem := m\<rparr>) ps"
proof -
  have "flist m (freelist s) ps"
    by (rule flist_frame [OF _ assms(2,3)]) (use assms(1) in \<open>auto simp: free_pages_def page_ok_def\<close>)
  then show ?thesis using assms(1) by (simp add: free_pages_def)
qed

lemma free_pages_unique: "free_pages s ps \<Longrightarrow> free_pages s qs \<Longrightarrow> ps = qs"
proof -
  have "flist m h ps \<Longrightarrow> flist m h qs \<Longrightarrow> ps = qs" for m h ps qs
  proof (induction ps arbitrary: h qs)
    case Nil then show ?case by (cases qs) auto
  next
    case (Cons p ps) then show ?case by (cases qs) auto
  qed
  then show "free_pages s ps \<Longrightarrow> free_pages s qs \<Longrightarrow> ps = qs" unfolding free_pages_def by blast
qed

section \<open>Initialisation\<close>

text \<open>The pages \<open>freerange\<close> frees, lowest first: \<open>n\<close> pages from \<open>p\<close> on.\<close>

definition page_seq :: "32 word \<Rightarrow> nat \<Rightarrow> 32 word list" where
  "page_seq p n = map (\<lambda>i. p + of_nat (4096 * i)) [0..<n]"

lemma page_seq_Suc: "page_seq p (Suc n) = p # page_seq (p + PGSIZE) n"
proof -
  have "[0..<Suc n] = 0 # map Suc [0..<n]" by (simp only: upt_conv_Cons map_Suc_upt zero_less_Suc)
  moreover have "p + of_nat (4096 * Suc i) = p + PGSIZE + of_nat (4096 * i)" for i
    by (simp only: mult_Suc_right of_nat_add of_nat_numeral add.assoc)
  ultimately show ?thesis unfolding page_seq_def by (simp only: list.map map_map o_def) simp
qed

lemma page_ok_between:
  assumes "aligned p" "kend s \<le> p" "KERNBASE \<le> kend s" "unat p < 0x8E000000"
  shows "page_ok s p"
proof -
  have "KERNBASE \<le> p" using assms(2,3) by simp
  then have "unat (p - KERNBASE) = unat p - 0x80000000" by (simp add: unat_sub)
  then have "V2P p < PHYSTOP" using assms(4) \<open>KERNBASE \<le> p\<close> by (simp add: V2P_def word_less_nat_alt word_le_nat_alt)
  with assms show ?thesis by (simp add: page_ok_def)
qed

lemma freerange_loop_pages:
  assumes "aligned p" "KERNBASE \<le> kend s" "kend s \<le> p" "unat vend \<le> 0x8E000000"
    "unat vend = unat p + 4096 * n + r" "r < 4096" "free_pages s ps" "\<forall>q \<in> set ps. q < p"
  shows "\<exists>t. freerange_loop p vend s = Inr t \<and> free_pages t (rev (page_seq p n) @ ps)"
  using assms
proof (induction n arbitrary: p s ps)
  case 0
  have up: "unat (p + of_nat 4096) = unat p + 4096"
    by (rule unat_plus_of_nat) (use 0 in simp)
  have "\<not> p + PGSIZE \<le> vend" using 0 up by (simp add: word_le_nat_alt)
  then show ?case using 0 by (simp add: freerange_loop.simps [of p] page_seq_def)
next
  case (Suc n)
  have up: "unat (p + of_nat 4096) = unat p + 4096"
    by (rule unat_plus_of_nat) (use Suc.prems in simp)
  then have le: "p + PGSIZE \<le> vend" "p \<le> p + PGSIZE" using Suc.prems(5) by (simp_all add: word_le_nat_alt)
  have ok: "page_ok s p"
    by (rule page_ok_between) (use Suc.prems in simp_all)
  have "p \<notin> set ps" using Suc.prems(8) by auto
  then obtain m where m: "kfree p s = Inr (s\<lparr>pmem := m, freelist := p\<rparr>)"
    "free_pages (s\<lparr>pmem := m, freelist := p\<rparr>) (p # ps)"
    using kfree_push [OF Suc.prems(7) ok] by blast
  have "\<exists>t. freerange_loop (p + PGSIZE) vend (s\<lparr>pmem := m, freelist := p\<rparr>) = Inr t \<and>
      free_pages t (rev (page_seq (p + PGSIZE) n) @ p # ps)"
  proof (rule Suc.IH [OF _ _ _ _ _ _ m(2)])
    show "aligned (p + PGSIZE)" using Suc.prems(1) by (rule aligned_plus)
    show "kend (s\<lparr>pmem := m, freelist := p\<rparr>) \<le> p + PGSIZE" using Suc.prems(3) le(2) by simp
    show "unat vend = unat (p + PGSIZE) + 4096 * n + r" using Suc.prems(5) up by simp
    show "\<forall>q \<in> set (p # ps). q < p + PGSIZE"
      using Suc.prems(8) up by (auto simp: word_less_nat_alt)
  qed (use Suc.prems in simp_all)
  then show ?case using m(1) le(1) by (simp add: freerange_loop.simps [of p] page_seq_Suc)
qed

text \<open>The contract of the allocator, and what follows from it alone.\<close>

locale page_alloc =
  fixes free :: "'s \<Rightarrow> 'p list \<Rightarrow> bool" and alloc :: "'s \<Rightarrow> 'p option \<times> 's"
    and release :: "'p \<Rightarrow> 's \<Rightarrow> 'e + 's" and valid :: "'s \<Rightarrow> 'p \<Rightarrow> bool"
  assumes alloc_none: "free s [] \<Longrightarrow> alloc s = (None, s)"
    and alloc_some: "free s (p # ps) \<Longrightarrow> \<exists>t. alloc s = (Some p, t) \<and> free t ps \<and> valid t p"
    and valid_alloc: "free s ps \<Longrightarrow> alloc s = (r, t) \<Longrightarrow> valid t = valid s"
    and release_ok: "free s ps \<Longrightarrow> valid s p \<Longrightarrow> p \<notin> set ps \<Longrightarrow>
      \<exists>t. release p s = Inr t \<and> free t (p # ps) \<and> valid t = valid s"
    and free_distinct: "free s ps \<Longrightarrow> distinct ps"
begin

fun alloc_n :: "nat \<Rightarrow> 's \<Rightarrow> 'p list option \<times> 's" where
  "alloc_n 0 s = (Some [], s)"
| "alloc_n (Suc n) s =
     (case alloc s of (None, s) \<Rightarrow> (None, s)
      | (Some p, s) \<Rightarrow> (case alloc_n n s of (None, s) \<Rightarrow> (None, s) | (Some ps, s) \<Rightarrow> (Some (p # ps), s)))"

lemma alloc_n_take:
  "free s ps \<Longrightarrow> n \<le> length ps \<Longrightarrow> \<exists>t. alloc_n n s = (Some (take n ps), t) \<and> free t (drop n ps)"
proof (induction n arbitrary: s ps)
  case (Suc n)
  then obtain p qs where ps: "ps = p # qs" by (cases ps) auto
  then obtain t where t: "alloc s = (Some p, t)" "free t qs" using alloc_some Suc.prems(1) by blast
  with Suc.IH [OF t(2)] Suc.prems ps show ?case by auto
qed simp

lemma alloc_distinct:
  assumes "free s ps" "n \<le> length ps" "alloc_n n s = (Some qs, t)"
  shows "distinct qs" "length qs = n"
  using alloc_n_take [OF assms(1,2)] free_distinct [OF assms(1)] assms by auto

lemma free_then_alloc:
  assumes "free s ps" "valid s p" "p \<notin> set ps"
  shows "\<exists>t u. release p s = Inr t \<and> alloc t = (Some p, u) \<and> free u ps"
  using release_ok [OF assms] alloc_some by blast

end

definition kalloc_opt :: "'a phys_scheme \<Rightarrow> 32 word option \<times> 'a phys_scheme" where
  "kalloc_opt s = (case kalloc s of (p, s) \<Rightarrow> (if p = 0 then None else Some p, s))"

interpretation kmem: page_alloc free_pages kalloc_opt kfree page_ok
proof
  fix s :: "'a phys_scheme" and p ps
  assume "free_pages s (p # ps)"
  note pop = kalloc_pop [OF this]
  have "p \<noteq> 0" using pop(3) by (metis page_ok_0)
  with pop show "\<exists>t. kalloc_opt s = (Some p, t) \<and> free_pages t ps \<and> page_ok t p"
    by (simp add: kalloc_opt_def)
next
  fix s :: "'a phys_scheme" and p ps
  assume "free_pages s ps" "page_ok s p" "p \<notin> set ps"
  from kfree_push [OF this] obtain m where "kfree p s = Inr (s\<lparr>pmem := m, freelist := p\<rparr>)"
    "free_pages (s\<lparr>pmem := m, freelist := p\<rparr>) (p # ps)" by blast
  then show "\<exists>t. kfree p s = Inr t \<and> free_pages t (p # ps) \<and> page_ok t = page_ok s"
    by (auto simp: fun_eq_iff)
qed (auto simp: kalloc_opt_def kalloc_empty free_pages_def kalloc_def fun_eq_iff page_ok_def Let_def split: if_splits)

section \<open>Properties\<close>

text \<open>
  C32. After \<open>kinit2\<close> on a range above the kernel image that holds \<open>n\<close> whole pages, the free
  list consists of exactly these \<open>n\<close> pages, each once, in front of the pages that were free
  before, and \<open>n\<close> calls of the allocator hand out these pages and leave the earlier list.
\<close>

theorem kinit2_frees_range:
  assumes "KERNBASE \<le> kend s" "kend s \<le> PGROUNDUP vstart" "unat vend \<le> 0x8E000000"
    "unat vend = unat (PGROUNDUP vstart) + 4096 * n + r" "r < 4096"
    "free_pages s ps" "\<forall>q \<in> set ps. q < PGROUNDUP vstart"
  shows "\<exists>t u. kinit2 vstart vend s = Inr t \<and>
    free_pages t (rev (page_seq (PGROUNDUP vstart) n) @ ps) \<and>
    kmem.alloc_n n t = (Some (rev (page_seq (PGROUNDUP vstart) n)), u) \<and> free_pages u ps"
proof -
  let ?qs = "rev (page_seq (PGROUNDUP vstart) n)"
  from freerange_loop_pages [OF aligned_round(4) assms] obtain t
    where t: "freerange vstart vend s = Inr t" "free_pages t (?qs @ ps)"
    unfolding freerange_def by blast
  then have f: "free_pages (t\<lparr>use_lock := True\<rparr>) (?qs @ ps)"
    by (simp add: free_pages_def page_ok_def)
  have "length ?qs = n" by (simp add: page_seq_def)
  then show ?thesis using t f kmem.alloc_n_take [OF f, of n] by (auto simp: kinit2_def)
qed

theorem kinit2_frees_range_witness:
  "let s = \<lparr>pmem = (\<lambda>a. 7), freelist = 0, use_lock = False, kend = 0x80115000, kdata = 0x80108000, kout = []\<rparr>
   in \<exists>t u. kinit2 0x80400001 0x80403010 s = Inr t \<and>
     free_pages t (rev (page_seq 0x80401000 2)) \<and>
     kmem.alloc_n 2 t = (Some [0x80402000, 0x80401000], u) \<and> free_pages u []"
proof -
  let ?s = "\<lparr>pmem = (\<lambda>a. 7), freelist = 0, use_lock = False, kend = 0x80115000, kdata = 0x80108000, kout = []\<rparr>"
  have up: "PGROUNDUP 0x80400001 = 0x80401000" by (simp add: PGROUNDUP_def)
  have seq: "page_seq 0x80401000 2 = [0x80401000, 0x80402000]"
    by (simp add: page_seq_def numeral_2_eq_2)
  show ?thesis
    using kinit2_frees_range [of ?s "0x80400001" "0x80403010" 2 16 "[]"]
    by (simp add: up seq Let_def free_pages_def)
qed

text \<open>
  A page that is given to \<open>kfree\<close> while it is allocated is accepted exactly when it is a
  page-aligned address between the end of the kernel image and the top of physical memory (any
  other address panics), is the next page handed out, and no byte outside it has changed.
\<close>

theorem kfree_then_kalloc:
  assumes "free_pages s ps" "v \<notin> set ps"
  shows "if page_ok s v
    then \<exists>t u. kfree v s = Inr t \<and> kalloc t = (v, u) \<and> free_pages u ps \<and> agree_off {v} (pmem s) (pmem u)
    else kfree v s = Inl (Panic ''kfree'')"
proof (cases "page_ok s v")
  case True
  obtain m where m: "kfree v s = Inr (s\<lparr>pmem := m, freelist := v\<rparr>)"
    "free_pages (s\<lparr>pmem := m, freelist := v\<rparr>) (v # ps)" "agree_off {v} (pmem s) m"
    using kfree_push [OF assms(1) True assms(2)] by blast
  from kalloc_pop(1,2) [OF m(2)] m True show ?thesis by auto
next
  case False
  then show ?thesis by (simp add: kfree_panics_iff)
qed

theorem kfree_then_kalloc_witness:
  "let s = \<lparr>pmem = (\<lambda>a. 7), freelist = 0, use_lock = False, kend = 0x80115000, kdata = 0x80108000, kout = []\<rparr>
   in (\<exists>t u. kfree 0x80400000 s = Inr t \<and> kalloc t = (0x80400000, u) \<and> free_pages u []) \<and>
     kfree 0x80114000 s = Inl (Panic ''kfree'')"
proof -
  let ?s = "\<lparr>pmem = (\<lambda>a. 7), freelist = 0, use_lock = False, kend = 0x80115000, kdata = 0x80108000, kout = []\<rparr>"
  have "free_pages ?s []" by (simp add: free_pages_def)
  from kfree_then_kalloc [OF this, of "0x80400000"] kfree_then_kalloc [OF this, of "0x80114000"]
  show ?thesis by (auto simp: page_ok_def aligned_def V2P_def Let_def)
qed

end
