(* ===== verification/Vm.thy ===== *)
theory Vm
  imports Kalloc
begin

text \<open>
  Page tables, \<open>vm.c\<close>: walking and creating page-table pages in memory, mapping ranges,
  growing, shrinking, copying and freeing user memory, and copying out to user addresses.
  A NULL page-table entry pointer is \<open>0\<close>. The loops over pages carry the number of iterations
  they can still make; the lemmas show when it suffices. \<open>loaduvm\<close> is with \<open>exec\<close> (it reads an
  inode), \<open>switchuvm\<close> with the scheduler.
\<close>

section \<open>Operations\<close>

definition walkpgdir :: "32 word \<Rightarrow> 32 word \<Rightarrow> bool \<Rightarrow> 'a phys_scheme \<Rightarrow> 32 word \<times> 'a phys_scheme" where
  "walkpgdir pgdir va alloc s =
     (let pde = pgdir + 4 * PDX va; w = read32 (pmem s) pde
      in if w AND PTE_P \<noteq> 0 then (P2V (PTE_ADDR w) + 4 * PTX va, s)
         else if \<not> alloc then (0, s)
         else case kalloc s of (pgtab, s) \<Rightarrow>
           if pgtab = 0 then (0, s)
           else
             let s = s\<lparr>pmem := memset (pmem s) pgtab 0 4096\<rparr>;
                 s = s\<lparr>pmem := write32 (pmem s) pde (V2P pgtab OR PTE_P OR PTE_W OR PTE_U)\<rparr>
             in (pgtab + 4 * PTX va, s))"

fun mappages_loop :: "nat \<Rightarrow> 32 word \<Rightarrow> 32 word \<Rightarrow> 32 word \<Rightarrow> 32 word \<Rightarrow> 32 word \<Rightarrow> 'a phys_scheme \<Rightarrow>
    (int \<times> 'a phys_scheme) res" where
  "mappages_loop 0 pgdir a last' pa perm s = Inl NoFuel"
| "mappages_loop (Suc k) pgdir a last' pa perm s =
     (case walkpgdir pgdir a True s of (pte, s) \<Rightarrow>
        if pte = 0 then Inr (-1, s)
        else if read32 (pmem s) pte AND PTE_P \<noteq> 0 then Inl (Panic ''remap'')
        else
          let s = s\<lparr>pmem := write32 (pmem s) pte (pa OR perm OR PTE_P)\<rparr>
          in if a = last' then Inr (0, s)
             else mappages_loop k pgdir (a + PGSIZE) last' (pa + PGSIZE) perm s)"

definition mappages :: "32 word \<Rightarrow> 32 word \<Rightarrow> 32 word \<Rightarrow> 32 word \<Rightarrow> 32 word \<Rightarrow> 'a phys_scheme \<Rightarrow>
    (int \<times> 'a phys_scheme) res" where
  "mappages pgdir va sz pa perm s =
     (let a = PGROUNDDOWN va; last' = PGROUNDDOWN (va + sz - 1)
      in mappages_loop (Suc (unat (last' - a) div 4096)) pgdir a last' pa perm s)"

fun deallocuvm_loop :: "nat \<Rightarrow> 32 word \<Rightarrow> 32 word \<Rightarrow> 32 word \<Rightarrow> 'a phys_scheme \<Rightarrow> 'a phys_scheme res" where
  "deallocuvm_loop 0 pgdir a oldsz s = (if a < oldsz then Inl NoFuel else Inr s)"
| "deallocuvm_loop (Suc k) pgdir a oldsz s =
     (if \<not> a < oldsz then Inr s
      else
        let pte = fst (walkpgdir pgdir a False s)
        in if pte = 0 then
             (let a = PGADDR (PDX a + 1) 0 0 - PGSIZE in deallocuvm_loop k pgdir (a + PGSIZE) oldsz s)
           else if read32 (pmem s) pte AND PTE_P \<noteq> 0 then
             (let pa = PTE_ADDR (read32 (pmem s) pte)
              in if pa = 0 then Inl (Panic ''kfree'')
                 else bindE (kfree (P2V pa) s) (\<lambda>s.
                   let s = s\<lparr>pmem := write32 (pmem s) pte 0\<rparr>
                   in deallocuvm_loop k pgdir (a + PGSIZE) oldsz s))
           else deallocuvm_loop k pgdir (a + PGSIZE) oldsz s)"

definition deallocuvm :: "32 word \<Rightarrow> 32 word \<Rightarrow> 32 word \<Rightarrow> 'a phys_scheme \<Rightarrow> (32 word \<times> 'a phys_scheme) res" where
  "deallocuvm pgdir oldsz newsz s =
     (if newsz \<ge> oldsz then Inr (oldsz, s)
      else bindE (deallocuvm_loop (Suc (unat oldsz div 4096)) pgdir (PGROUNDUP newsz) oldsz s)
             (\<lambda>s. Inr (newsz, s)))"

definition freevm_entry :: "32 word \<Rightarrow> nat \<Rightarrow> 'a phys_scheme \<Rightarrow> 'a phys_scheme res" where
  "freevm_entry pgdir i s =
     (let w = read32 (pmem s) (pgdir + 4 * of_nat i)
      in if w AND PTE_P \<noteq> 0 then kfree (P2V (PTE_ADDR w)) s else Inr s)"

definition freevm :: "32 word \<Rightarrow> 'a phys_scheme \<Rightarrow> 'a phys_scheme res" where
  "freevm pgdir s =
     (if pgdir = 0 then Inl (Panic ''freevm: no pgdir'')
      else bindE (deallocuvm pgdir KERNBASE 0 s) (\<lambda>(_, s).
        bindE (foldE (freevm_entry pgdir) [0..<1024] s) (kfree pgdir)))"

definition kmap :: "32 word \<Rightarrow> (32 word \<times> 32 word \<times> 32 word \<times> 32 word) list" where
  "kmap data =
     [(KERNBASE, 0, EXTMEM, PTE_W),
      (KERNLINK, V2P KERNLINK, V2P data, 0),
      (data, V2P data, PHYSTOP, PTE_W),
      (DEVSPACE, DEVSPACE, 0, PTE_W)]"

fun map_kernel :: "32 word \<Rightarrow> (32 word \<times> 32 word \<times> 32 word \<times> 32 word) list \<Rightarrow> 'a phys_scheme \<Rightarrow>
    (32 word \<times> 'a phys_scheme) res" where
  "map_kernel pgdir [] s = Inr (pgdir, s)"
| "map_kernel pgdir ((virt, phys_start, phys_end, perm) # ks) s =
     bindE (mappages pgdir virt (phys_end - phys_start) phys_start perm s) (\<lambda>(r, s).
       if r < 0 then bindE (freevm pgdir s) (\<lambda>s. Inr (0, s)) else map_kernel pgdir ks s)"

definition setupkvm :: "'a phys_scheme \<Rightarrow> (32 word \<times> 'a phys_scheme) res" where
  "setupkvm s =
     (case kalloc s of (pgdir, s) \<Rightarrow>
        if pgdir = 0 then Inr (0, s)
        else
          let s = s\<lparr>pmem := memset (pmem s) pgdir 0 4096\<rparr>
          in if P2V PHYSTOP > DEVSPACE then Inl (Panic ''PHYSTOP too high'')
             else map_kernel pgdir (kmap (kdata s)) s)"

definition inituvm :: "32 word \<Rightarrow> 32 word \<Rightarrow> nat \<Rightarrow> 'a phys_scheme \<Rightarrow> 'a phys_scheme res" where
  "inituvm pgdir init sz s =
     (if sz \<ge> 4096 then Inl (Panic ''inituvm: more than a page'')
      else case kalloc s of (mem, s) \<Rightarrow>
        if mem = 0 then Inl (Fault ''inituvm: memset of a null page'')
        else
          let s = s\<lparr>pmem := memset (pmem s) mem 0 4096\<rparr>
          in bindE (mappages pgdir 0 PGSIZE (V2P mem) (PTE_W OR PTE_U) s) (\<lambda>(_, s).
               Inr (s\<lparr>pmem := memmove (pmem s) mem init sz\<rparr>)))"

fun allocuvm_loop :: "nat \<Rightarrow> 32 word \<Rightarrow> 32 word \<Rightarrow> 32 word \<Rightarrow> 32 word \<Rightarrow> 'a phys_scheme \<Rightarrow>
    (32 word \<times> 'a phys_scheme) res" where
  "allocuvm_loop 0 pgdir a oldsz newsz s = (if a < newsz then Inl NoFuel else Inr (newsz, s))"
| "allocuvm_loop (Suc k) pgdir a oldsz newsz s =
     (if \<not> a < newsz then Inr (newsz, s)
      else case kalloc s of (mem, s) \<Rightarrow>
        if mem = 0 then
          (let s = cprintf ''allocuvm out of memory'' s
           in bindE (deallocuvm pgdir newsz oldsz s) (\<lambda>(_, s). Inr (0, s)))
        else
          let s = s\<lparr>pmem := memset (pmem s) mem 0 4096\<rparr>
          in bindE (mappages pgdir a PGSIZE (V2P mem) (PTE_W OR PTE_U) s) (\<lambda>(r, s).
               if r < 0 then
                 (let s = cprintf ''allocuvm out of memory (2)'' s
                  in bindE (deallocuvm pgdir newsz oldsz s) (\<lambda>(_, s).
                       bindE (kfree mem s) (\<lambda>s. Inr (0, s))))
               else allocuvm_loop k pgdir (a + PGSIZE) oldsz newsz s))"

definition allocuvm :: "32 word \<Rightarrow> 32 word \<Rightarrow> 32 word \<Rightarrow> 'a phys_scheme \<Rightarrow> (32 word \<times> 'a phys_scheme) res" where
  "allocuvm pgdir oldsz newsz s =
     (if newsz \<ge> KERNBASE then Inr (0, s)
      else if newsz < oldsz then Inr (oldsz, s)
      else allocuvm_loop (Suc (unat newsz div 4096)) pgdir (PGROUNDUP oldsz) oldsz newsz s)"

definition clearpteu :: "32 word \<Rightarrow> 32 word \<Rightarrow> 'a phys_scheme \<Rightarrow> 'a phys_scheme res" where
  "clearpteu pgdir uva s =
     (let pte = fst (walkpgdir pgdir uva False s)
      in if pte = 0 then Inl (Panic ''clearpteu'')
         else Inr (s\<lparr>pmem := write32 (pmem s) pte (read32 (pmem s) pte AND NOT PTE_U)\<rparr>))"

fun copyuvm_loop :: "nat \<Rightarrow> 32 word \<Rightarrow> 32 word \<Rightarrow> 32 word \<Rightarrow> 32 word \<Rightarrow> 'a phys_scheme \<Rightarrow>
    (32 word \<times> 'a phys_scheme) res" where
  "copyuvm_loop 0 pgdir d i sz s = (if i < sz then Inl NoFuel else Inr (d, s))"
| "copyuvm_loop (Suc k) pgdir d i sz s =
     (if \<not> i < sz then Inr (d, s)
      else
        let pte = fst (walkpgdir pgdir i False s)
        in if pte = 0 then Inl (Panic ''copyuvm: pte should exist'')
           else if read32 (pmem s) pte AND PTE_P = 0 then Inl (Panic ''copyuvm: page not present'')
           else
             let pa = PTE_ADDR (read32 (pmem s) pte); flags = PTE_FLAGS (read32 (pmem s) pte)
             in case kalloc s of (mem, s) \<Rightarrow>
               if mem = 0 then bindE (freevm d s) (\<lambda>s. Inr (0, s))
               else
                 let s = s\<lparr>pmem := memmove (pmem s) mem (P2V pa) 4096\<rparr>
                 in bindE (mappages d i PGSIZE (V2P mem) flags s) (\<lambda>(r, s).
                      if r < 0
                      then bindE (kfree mem s) (\<lambda>s. bindE (freevm d s) (\<lambda>s. Inr (0, s)))
                      else copyuvm_loop k pgdir d (i + PGSIZE) sz s))"

definition copyuvm :: "32 word \<Rightarrow> 32 word \<Rightarrow> 'a phys_scheme \<Rightarrow> (32 word \<times> 'a phys_scheme) res" where
  "copyuvm pgdir sz s =
     bindE (setupkvm s) (\<lambda>(d, s).
       if d = 0 then Inr (0, s) else copyuvm_loop (unat sz div 4096) pgdir d PGSIZE sz s)"

definition uva2ka :: "32 word \<Rightarrow> 32 word \<Rightarrow> 'a phys_scheme \<Rightarrow> 32 word res" where
  "uva2ka pgdir uva s =
     (let pte = fst (walkpgdir pgdir uva False s)
      in if pte = 0 then Inl (Fault ''uva2ka: null pte'')
         else if read32 (pmem s) pte AND PTE_P = 0 then Inr 0
         else if read32 (pmem s) pte AND PTE_U = 0 then Inr 0
         else Inr (P2V (PTE_ADDR (read32 (pmem s) pte))))"

lemma copyout_step: "len \<noteq> 0 \<Longrightarrow> unat (len - min (PGSIZE - (va - PGROUNDDOWN va)) len) < unat len"
proof -
  assume len: "len \<noteq> 0"
  have "unat (va - PGROUNDDOWN va) < 4096" by (simp add: page_offset)
  then have "va - PGROUNDDOWN va < PGSIZE" by (simp add: word_less_nat_alt)
  then have "PGSIZE - (va - PGROUNDDOWN va) \<noteq> 0" by auto
  with len have m: "min (PGSIZE - (va - PGROUNDDOWN va)) len \<noteq> 0" by (simp add: min_def)
  have "min (PGSIZE - (va - PGROUNDDOWN va)) len \<le> len" by simp
  then have "unat (len - min (PGSIZE - (va - PGROUNDDOWN va)) len) =
      unat len - unat (min (PGSIZE - (va - PGROUNDDOWN va)) len)" by (rule unat_sub)
  with m len show ?thesis by (simp add: unat_gt_0)
qed

function copyout :: "32 word \<Rightarrow> 32 word \<Rightarrow> 32 word \<Rightarrow> 32 word \<Rightarrow> 'a phys_scheme \<Rightarrow> (int \<times> 'a phys_scheme) res" where
  "copyout pgdir va buf len s =
     (if len = 0 then Inr (0, s)
      else
        let va0 = PGROUNDDOWN va
        in bindE (uva2ka pgdir va0 s) (\<lambda>pa0.
             if pa0 = 0 then Inr (-1, s)
             else
               let n = min (PGSIZE - (va - va0)) len;
                   s = s\<lparr>pmem := memmove (pmem s) (pa0 + (va - va0)) buf (unat n)\<rparr>
               in copyout pgdir (va0 + PGSIZE) (buf + n) (len - n) s))"
  by pat_completeness auto
termination
  by (relation "measure (\<lambda>(pgdir, va, buf, len, s). unat len)") (simp_all add: copyout_step)

declare copyout.simps [simp del]

section \<open>The page table as a function\<close>

definition present :: "32 word \<Rightarrow> bool" where
  "present w = (w AND PTE_P \<noteq> 0)"

definition pde_at :: "mem \<Rightarrow> 32 word \<Rightarrow> 32 word \<Rightarrow> 32 word" where
  "pde_at m D i = read32 m (D + 4 * i)"

definition table_at :: "mem \<Rightarrow> 32 word \<Rightarrow> 32 word \<Rightarrow> 32 word" where
  "table_at m D i = P2V (PTE_ADDR (pde_at m D i))"

definition slot_at :: "mem \<Rightarrow> 32 word \<Rightarrow> 32 word \<Rightarrow> 32 word" where
  "slot_at m D va = table_at m D (PDX va) + 4 * PTX va"

text \<open>The entry that governs the page of \<open>va\<close>; \<open>0\<close> when there is no table for it.\<close>

definition pte_at :: "mem \<Rightarrow> 32 word \<Rightarrow> 32 word \<Rightarrow> 32 word" where
  "pte_at m D va = (if present (pde_at m D (PDX va)) then read32 m (slot_at m D va) else 0)"

text \<open>A directory \<open>D\<close> whose pages are allocated and distinct, beside the free list \<open>ps\<close>.\<close>

definition pt_wf :: "'a phys_scheme \<Rightarrow> 32 word \<Rightarrow> 32 word list \<Rightarrow> bool" where
  "pt_wf s D ps = (free_pages s ps \<and> page_ok s D \<and> D \<notin> set ps \<and>
     (\<forall>i. unat i < 1024 \<longrightarrow> present (pde_at (pmem s) D i) \<longrightarrow>
        page_ok s (table_at (pmem s) D i) \<and> table_at (pmem s) D i \<notin> set ps \<and> table_at (pmem s) D i \<noteq> D \<and>
        (\<forall>j. unat j < 1024 \<longrightarrow> present (pde_at (pmem s) D j) \<longrightarrow>
           table_at (pmem s) D i = table_at (pmem s) D j \<longrightarrow> i = j)))"

lemma not_present_0 [simp]: "\<not> present 0"
  by (simp add: present_def)

lemma present_or: "present (w OR 1)" "present (w OR 1 OR v)"
  unfolding present_def
  by (metis bit_and_iff bit_or_iff bit_1_iff bit_0_eq bot_apply bot_bool_def possible_bit_word len_gt_0 possible_bit_0)+

lemma pte_at_page: "PGROUNDDOWN a = PGROUNDDOWN b \<Longrightarrow> pte_at m D a = pte_at m D b"
  unfolding page_of_indices [symmetric] by (simp add: pte_at_def slot_at_def)

lemma walkpgdir_noalloc:
  "walkpgdir D va False s = (if present (pde_at (pmem s) D (PDX va)) then slot_at (pmem s) D va else 0, s)"
  by (simp add: walkpgdir_def present_def pde_at_def slot_at_def table_at_def Let_def)

lemma pt_wf_D: "pt_wf s D ps \<Longrightarrow> page_ok s D" "pt_wf s D ps \<Longrightarrow> aligned D" "pt_wf s D ps \<Longrightarrow> D \<notin> set ps"
  "pt_wf s D ps \<Longrightarrow> free_pages s ps"
  by (simp_all add: pt_wf_def page_ok_def)

lemma pt_wf_table:
  assumes "pt_wf s D ps" "present (pde_at (pmem s) D i)" "unat i < 1024"
  shows "page_ok s (table_at (pmem s) D i)" "aligned (table_at (pmem s) D i)"
    "table_at (pmem s) D i \<notin> set ps" "table_at (pmem s) D i \<noteq> D"
  using assms by (auto simp: pt_wf_def page_ok_def)

lemma pt_wf_inj:
  "pt_wf s D ps \<Longrightarrow> present (pde_at (pmem s) D i) \<Longrightarrow> present (pde_at (pmem s) D j) \<Longrightarrow>
    unat i < 1024 \<Longrightarrow> unat j < 1024 \<Longrightarrow> table_at (pmem s) D i = table_at (pmem s) D j \<Longrightarrow> i = j"
  unfolding pt_wf_def by blast

lemma slot_nonzero:
  assumes "pt_wf s D ps" "present (pde_at (pmem s) D (PDX va))"
  shows "slot_at (pmem s) D va \<noteq> 0"
proof
  assume 0: "slot_at (pmem s) D va = 0"
  note T = pt_wf_table [OF assms PDX_lt]
  have "PGROUNDDOWN (slot_at (pmem s) D va) = table_at (pmem s) D (PDX va)"
    unfolding slot_at_def by (rule entry_addr) (simp_all add: T)
  moreover have "PGROUNDDOWN 0 = 0" by (simp add: PGROUNDDOWN_def)
  ultimately show False using T(1) 0 by (metis page_ok_0)
qed

text \<open>A write that spares the directory and its tables changes no translation.\<close>

definition pt_pages :: "mem \<Rightarrow> 32 word \<Rightarrow> 32 word set" where
  "pt_pages m D = insert D (table_at m D ` {i. unat i < 1024 \<and> present (pde_at m D i)})"

lemma pde_at_frame:
  assumes "agree_off S m m'" "aligned D" "D \<notin> S" "unat i < 1024"
  shows "pde_at m' D i = pde_at m D i" "table_at m' D i = table_at m D i"
proof -
  show "pde_at m' D i = pde_at m D i"
    unfolding pde_at_def by (rule agree_off_read32 [OF assms(1)]) (use entry_addr [OF assms(2,4)] assms(3) in simp_all)
  then show "table_at m' D i = table_at m D i" by (simp add: table_at_def)
qed

lemma pt_frame:
  assumes "pt_wf s D ps" "agree_off S (pmem s) m" "pt_pages (pmem s) D \<inter> S = {}"
  shows "pte_at m D = pte_at (pmem s) D" "pt_pages m D = pt_pages (pmem s) D"
    "\<And>i. unat i < 1024 \<Longrightarrow> pde_at m D i = pde_at (pmem s) D i"
    "\<And>i. unat i < 1024 \<Longrightarrow> table_at m D i = table_at (pmem s) D i"
proof -
  have D: "aligned D" "D \<notin> S" using assms by (auto simp: pt_pages_def dest: pt_wf_D)
  note f = pde_at_frame [OF assms(2) D]
  show "\<And>i. unat i < 1024 \<Longrightarrow> pde_at m D i = pde_at (pmem s) D i"
    "\<And>i. unat i < 1024 \<Longrightarrow> table_at m D i = table_at (pmem s) D i" by (simp_all add: f)
  show "pt_pages m D = pt_pages (pmem s) D" unfolding pt_pages_def
    by (intro arg_cong [of _ _ "insert D"] image_cong Collect_cong conj_cong) (auto simp: f)
  show "pte_at m D = pte_at (pmem s) D"
  proof
    fix va
    show "pte_at m D va = pte_at (pmem s) D va"
    proof (cases "present (pde_at (pmem s) D (PDX va))")
      case True
      note T = pt_wf_table [OF assms(1) True PDX_lt]
      have "table_at (pmem s) D (PDX va) \<notin> S" using True assms(3) PDX_lt unfolding pt_pages_def by blast
      then have "read32 m (slot_at (pmem s) D va) = read32 (pmem s) (slot_at (pmem s) D va)"
        unfolding slot_at_def
        by (intro agree_off_read32 [OF assms(2)]) (simp_all only: entry_addr(1,3) [OF T(2) PTX_lt] not_False_eq_True)
      with True show ?thesis by (simp add: pte_at_def f slot_at_def)
    qed (simp add: pte_at_def f)
  qed
qed

lemma pt_wf_frame:
  assumes "pt_wf s D ps" "agree_off S (pmem s) m" "pt_pages (pmem s) D \<inter> S = {}" "set ps \<inter> S = {}"
  shows "pt_wf (s\<lparr>pmem := m\<rparr>) D ps"
  using assms(1) free_pages_frame [OF pt_wf_D(4) [OF assms(1)] assms(2,4)]
  by (simp add: pt_wf_def pt_frame(3,4) [OF assms(1-3)])

text \<open>Writing an entry.\<close>

lemma write_slot:
  fixes w :: "32 word"
  assumes wf: "pt_wf s D ps" and p: "present (pde_at (pmem s) D (PDX va))"
  defines "m \<equiv> write32 (pmem s) (slot_at (pmem s) D va) w"
  shows "pt_wf (s\<lparr>pmem := m\<rparr>) D ps"
    "pte_at m D va' = (if PGROUNDDOWN va' = PGROUNDDOWN va then w else pte_at (pmem s) D va')"
    "agree_off {table_at (pmem s) D (PDX va)} (pmem s) m"
    "pt_pages m D = pt_pages (pmem s) D"
proof -
  let ?T = "table_at (pmem s) D (PDX va)" and ?a = "slot_at (pmem s) D va"
  note T = pt_wf_table [OF wf p PDX_lt]
  have a: "PGROUNDDOWN ?a = ?T" "unat ?a mod 4 = 0"
    unfolding slot_at_def using entry_addr(1,3) [OF T(2) PTX_lt] by auto
  show ag: "agree_off {?T} (pmem s) m"
    using agree_off_write32_at [OF a(2)] a(1) by (simp add: m_def)
  have f: "pde_at m D i = pde_at (pmem s) D i" "table_at m D i = table_at (pmem s) D i" if "unat i < 1024" for i
    using pde_at_frame [OF ag] pt_wf_D(2) [OF wf] T(4) that by auto
  show "pt_pages m D = pt_pages (pmem s) D" unfolding pt_pages_def
    by (intro arg_cong [of _ _ "insert D"] image_cong Collect_cong conj_cong) (auto simp: f)
  have "free_pages (s\<lparr>pmem := m\<rparr>) ps"
    by (rule free_pages_frame [OF pt_wf_D(4) [OF wf] ag]) (use T(3) in simp)
  then show "pt_wf (s\<lparr>pmem := m\<rparr>) D ps" using wf by (simp add: pt_wf_def f)
  show "pte_at m D va' = (if PGROUNDDOWN va' = PGROUNDDOWN va then w else pte_at (pmem s) D va')"
  proof (cases "present (pde_at (pmem s) D (PDX va'))")
    case True
    note T' = pt_wf_table [OF wf True PDX_lt]
    let ?b = "slot_at (pmem s) D va'"
    have b: "PGROUNDDOWN ?b = table_at (pmem s) D (PDX va')" "unat ?b mod 4 = 0"
      unfolding slot_at_def using entry_addr(1,3) [OF T'(2) PTX_lt] by auto
    have eq: "?b = ?a \<longleftrightarrow> PGROUNDDOWN va' = PGROUNDDOWN va"
    proof
      assume ab: "?b = ?a"
      then have t: "table_at (pmem s) D (PDX va') = ?T" using a(1) b(1) by simp
      then have "PDX va' = PDX va" using pt_wf_inj [OF wf True p PDX_lt PDX_lt] by simp
      moreover have "unat ?T + 4 * unat (PTX va') = unat ?T + 4 * unat (PTX va)"
        using ab t entry_addr(2) [OF T(2) PTX_lt] unfolding slot_at_def by metis
      then have "PTX va' = PTX va" by (simp add: word_unat_eq_iff)
      ultimately show "PGROUNDDOWN va' = PGROUNDDOWN va" using page_of_indices by blast
    next
      assume "PGROUNDDOWN va' = PGROUNDDOWN va"
      then show "?b = ?a" unfolding page_of_indices [symmetric] by (simp add: slot_at_def)
    qed
    have "pte_at m D va' = read32 m ?b" using True by (simp add: pte_at_def f slot_at_def)
    also have "\<dots> = (if ?b = ?a then w else read32 (pmem s) ?b)"
      unfolding m_def using read32_write32_other [OF a(2) b(2)] by auto
    finally show ?thesis using True eq by (simp add: pte_at_def)
  next
    case False
    then have "PDX va' \<noteq> PDX va" using p by auto
    then have "PGROUNDDOWN va' \<noteq> PGROUNDDOWN va" using page_of_indices by blast
    with False show ?thesis by (simp add: pte_at_def f)
  qed
qed


text \<open>Creating a table page. \<open>s\<close> has no table for \<open>va\<close>; the page \<open>p\<close> becomes one.\<close>

lemma walkpgdir_new:
  assumes wf: "pt_wf s D (p # ps)" and np: "\<not> present (pde_at (pmem s) D (PDX va))"
  obtains m h where
    "walkpgdir D va True s = (slot_at m D va, s\<lparr>freelist := h, pmem := m\<rparr>)"
    "pt_wf (s\<lparr>freelist := h, pmem := m\<rparr>) D ps" "pte_at m D = pte_at (pmem s) D"
    "present (pde_at m D (PDX va))" "pt_pages m D = insert p (pt_pages (pmem s) D)"
    "agree_off {p, D} (pmem s) m"
proof -
  note pop = kalloc_pop [OF pt_wf_D(4) [OF wf]]
  let ?h = "read32 (pmem s) p"
  define pde where "pde = D + 4 * PDX va"
  define m1 where "m1 = memset (pmem s) p 0 4096"
  define w where "w = V2P p OR PTE_P OR PTE_W OR PTE_U"
  define m where "m = write32 m1 pde w"
  have D: "aligned D" "p \<noteq> D" using wf pt_wf_D [OF wf] by auto
  have p: "aligned p" "p \<noteq> 0" using pop(3) by (auto simp: page_ok_def) (metis page_ok_0 pop(3))
  have pde: "PGROUNDDOWN pde = D" "unat pde mod 4 = 0"
    unfolding pde_def using entry_addr(1,3) [OF D(1) PDX_lt] by auto
  have ag1: "agree_off {p} (pmem s) m1" unfolding m1_def by (rule agree_off_memset [OF p(1)])
  have ag2: "agree_off {D} m1 m" using agree_off_write32_at [OF pde(2)] pde(1) by (simp add: m_def)
  have ag: "agree_off {p, D} (pmem s) m"
    using agree_off_trans [OF ag1 ag2] by (simp add: insert_commute)
  have w: "present w" "PTE_ADDR w = V2P p"
  proof -
    have "w = V2P p OR 7" unfolding w_def by (simp add: or.assoc)
    moreover have "unat (7 :: 32 word) < 4096" by simp
    ultimately show "PTE_ADDR w = V2P p" using PTE_ADDR_or [of "V2P p" 7] p(1) by simp
    show "present w" unfolding w_def by (metis or.commute or.left_commute present_or(1))
  qed
  have old: "pde_at m D i = (if i = PDX va then w else pde_at (pmem s) D i)" if i: "unat i < 1024" for i
  proof (cases "i = PDX va")
    case True
    then show ?thesis by (simp add: pde_at_def m_def pde_def)
  next
    case False
    have "pde_at m D i = pde_at m1 D i"
      unfolding pde_at_def m_def
    proof (rule read32_write32_other [OF pde(2)])
      show "unat (D + 4 * i) mod 4 = 0" using entry_addr(3) [OF D(1) i] .
      have "unat (D + 4 * i) \<noteq> unat pde"
        using False unfolding pde_def entry_addr(2) [OF D(1) i] entry_addr(2) [OF D(1) PDX_lt]
        by (simp add: word_unat_eq_iff)
      then show "pde \<noteq> D + 4 * i" by auto
    qed
    also have "\<dots> = pde_at (pmem s) D i" using pde_at_frame(1) [OF ag1 D(1) _ i] D(2) by simp
    finally show ?thesis using False by simp
  qed
  have tab: "table_at m D i = (if i = PDX va then p else table_at (pmem s) D i)" if "unat i < 1024" for i
    using old [OF that] w(2) by (simp add: table_at_def)
  have pres: "present (pde_at m D (PDX va))" using old [OF PDX_lt] w(1) by simp
  have zero: "read32 m (p + 4 * PTX a) = 0" for a
  proof -
    have e: "PGROUNDDOWN (p + 4 * PTX a) = p" "unat (p + 4 * PTX a) mod 4 = 0"
      using entry_addr(1,3) [OF p(1) PTX_lt] by auto
    have "m b = 0" if "PGROUNDDOWN b = p" for b
    proof -
      have "m b = m1 b" using ag2 that D(2) by (simp add: agree_off_def)
      also have "\<dots> = 0" using that in_page_iff [OF p(1)] by (simp add: m1_def memset_fill fill_def)
      finally show ?thesis .
    qed
    then show ?thesis by (rule read32_fill_page [OF p(1) _ e])
  qed
  have p_new: "p \<notin> pt_pages (pmem s) D"
    using D(2) pt_wf_table(3) [OF wf] by (auto simp: pt_pages_def)
  have pte: "pte_at m D va' = pte_at (pmem s) D va'" for va'
  proof (cases "PDX va' = PDX va")
    case True
    then have "pte_at m D va' = read32 m (p + 4 * PTX va')"
      using pres tab [OF PDX_lt] by (simp add: pte_at_def slot_at_def)
    with True np zero show ?thesis by (simp add: pte_at_def)
  next
    case False
    show ?thesis
    proof (cases "present (pde_at (pmem s) D (PDX va'))")
      case True
      note T = pt_wf_table [OF wf True PDX_lt]
      have "read32 m (slot_at (pmem s) D va') = read32 (pmem s) (slot_at (pmem s) D va')"
        unfolding slot_at_def
        by (rule agree_off_read32 [OF ag]) (use entry_addr(1,3) [OF T(2) PTX_lt] T in auto)
      with False True show ?thesis by (simp add: pte_at_def old tab slot_at_def)
    qed (use False in \<open>simp add: pte_at_def old\<close>)
  qed
  have pages: "pt_pages m D = insert p (pt_pages (pmem s) D)"
  proof -
    have "{i. unat i < 1024 \<and> present (pde_at m D i)} =
        insert (PDX va) {i. unat i < 1024 \<and> present (pde_at (pmem s) D i)}"
      using old w(1) by auto
    moreover have "table_at m D ` {i. unat i < 1024 \<and> present (pde_at (pmem s) D i)} =
        table_at (pmem s) D ` {i. unat i < 1024 \<and> present (pde_at (pmem s) D i)}"
      by (rule image_cong) (use tab np in auto)
    ultimately show ?thesis using tab [OF PDX_lt] by (auto simp: pt_pages_def)
  qed
  have fp: "free_pages (s\<lparr>freelist := ?h, pmem := m\<rparr>) ps"
    using free_pages_frame [OF pop(2), of "{p, D}" m] ag pop(4) pt_wf_D(3) [OF wf] by simp
  have "pt_wf (s\<lparr>freelist := ?h, pmem := m\<rparr>) D ps"
    unfolding pt_wf_def
  proof (intro conjI allI impI)
    show "page_ok (s\<lparr>freelist := ?h, pmem := m\<rparr>) D" "D \<notin> set ps" using pt_wf_D [OF wf] by auto
  next
    fix i assume i: "unat i < 1024" "present (pde_at (pmem (s\<lparr>freelist := ?h, pmem := m\<rparr>)) D i)"
    then have pi: "i \<noteq> PDX va \<Longrightarrow> present (pde_at (pmem s) D i)" using old by auto
    note T = pt_wf_table [OF wf pi i(1)]
    have t: "table_at m D i = (if i = PDX va then p else table_at (pmem s) D i)" by (rule tab [OF i(1)])
    show "page_ok (s\<lparr>freelist := ?h, pmem := m\<rparr>) (table_at (pmem (s\<lparr>freelist := ?h, pmem := m\<rparr>)) D i)"
      using T(1) pop(3) t by auto
    show "table_at (pmem (s\<lparr>freelist := ?h, pmem := m\<rparr>)) D i \<notin> set ps" using T(3) pop(4) t by auto
    show "table_at (pmem (s\<lparr>freelist := ?h, pmem := m\<rparr>)) D i \<noteq> D" using T(4) D(2) t by auto
    fix j assume j: "unat j < 1024" "present (pde_at (pmem (s\<lparr>freelist := ?h, pmem := m\<rparr>)) D j)"
      and eq: "table_at (pmem (s\<lparr>freelist := ?h, pmem := m\<rparr>)) D i = table_at (pmem (s\<lparr>freelist := ?h, pmem := m\<rparr>)) D j"
    then have pj: "j \<noteq> PDX va \<Longrightarrow> present (pde_at (pmem s) D j)" using old by auto
    have "i \<noteq> PDX va \<Longrightarrow> p \<noteq> table_at (pmem s) D i" "j \<noteq> PDX va \<Longrightarrow> p \<noteq> table_at (pmem s) D j"
      using p_new pi pj i(1) j(1) unfolding pt_pages_def by blast+
    then show "i = j" using eq t tab [OF j(1)] pt_wf_inj [OF wf pi pj i(1) j(1)]
      by (auto split: if_splits)
  qed (use fp in simp)
  moreover have "walkpgdir D va True s = (slot_at m D va, s\<lparr>freelist := ?h, pmem := m\<rparr>)"
    using np pop(1) p(2) tab [OF PDX_lt]
    by (simp add: walkpgdir_def pde_at_def present_def slot_at_def m_def m1_def w_def pde_def Let_def)
  ultimately show thesis using that pte pres pages ag by blast
qed

text \<open>Walking with allocation, on both branches.\<close>

lemma walkpgdir_alloc:
  assumes wf: "pt_wf s D ps" and enough: "present (pde_at (pmem s) D (PDX va)) \<or> ps \<noteq> []"
  obtains m h qs where
    "walkpgdir D va True s = (slot_at m D va, s\<lparr>freelist := h, pmem := m\<rparr>)"
    "pt_wf (s\<lparr>freelist := h, pmem := m\<rparr>) D qs" "qs = ps \<or> (\<exists>p. ps = p # qs)" "pte_at m D = pte_at (pmem s) D"
    "present (pde_at m D (PDX va))" "pt_pages m D \<union> set qs = pt_pages (pmem s) D \<union> set ps"
    "agree_off (pt_pages m D) (pmem s) m"
proof (cases "present (pde_at (pmem s) D (PDX va))")
  case True
  then show ?thesis
    using wf by (intro that [of "pmem s" "freelist s" ps]) (simp_all add: walkpgdir_def present_def pde_at_def slot_at_def table_at_def Let_def)
next
  case False
  with enough obtain p qs where ps: "ps = p # qs" by (cases ps) auto
  obtain m h where *:
    "walkpgdir D va True s = (slot_at m D va, s\<lparr>freelist := h, pmem := m\<rparr>)"
    "pt_wf (s\<lparr>freelist := h, pmem := m\<rparr>) D qs" "pte_at m D = pte_at (pmem s) D"
    "present (pde_at m D (PDX va))" "pt_pages m D = insert p (pt_pages (pmem s) D)"
    "agree_off {p, D} (pmem s) m"
    using walkpgdir_new [OF wf [unfolded ps] False] by blast
  have "agree_off (pt_pages m D) (pmem s) m"
    by (rule agree_off_mono [OF *(6)]) (simp add: *(5), simp add: pt_pages_def)
  then show ?thesis using * ps by (intro that [of m h qs]) auto
qed

text \<open>Mapping one page.\<close>

lemma map_page:
  assumes wf: "pt_wf s D ps" and va: "aligned va" and free: "\<not> present (pte_at (pmem s) D va)"
    and enough: "present (pde_at (pmem s) D (PDX va)) \<or> ps \<noteq> []"
  obtains m h qs where
    "mappages D va PGSIZE pa perm s = Inr (0, s\<lparr>freelist := h, pmem := m\<rparr>)"
    "pt_wf (s\<lparr>freelist := h, pmem := m\<rparr>) D qs" "qs = ps \<or> (\<exists>p. ps = p # qs)"
    "\<And>va'. pte_at m D va' = (if PGROUNDDOWN va' = va then pa OR perm OR PTE_P else pte_at (pmem s) D va')"
    "pt_pages m D \<union> set qs = pt_pages (pmem s) D \<union> set ps" "agree_off (pt_pages m D) (pmem s) m"
proof -
  obtain m1 h qs where w:
    "walkpgdir D va True s = (slot_at m1 D va, s\<lparr>freelist := h, pmem := m1\<rparr>)"
    "pt_wf (s\<lparr>freelist := h, pmem := m1\<rparr>) D qs" "qs = ps \<or> (\<exists>p. ps = p # qs)" "pte_at m1 D = pte_at (pmem s) D"
    "present (pde_at m1 D (PDX va))" "pt_pages m1 D \<union> set qs = pt_pages (pmem s) D \<union> set ps"
    "agree_off (pt_pages m1 D) (pmem s) m1"
    using walkpgdir_alloc [OF wf enough] by blast
  let ?s1 = "s\<lparr>freelist := h, pmem := m1\<rparr>" and ?e = "pa OR perm OR PTE_P"
  have p1: "present (pde_at (pmem ?s1) D (PDX va))" using w(5) by simp
  note ws = write_slot [OF w(2) p1, of ?e, simplified]
  let ?m = "write32 m1 (slot_at m1 D va) ?e"
  have slot: "slot_at m1 D va \<noteq> 0" using slot_nonzero [OF w(2) p1] by simp
  have old: "\<not> present (read32 m1 (slot_at m1 D va))"
    using free w(4,5) by (metis pte_at_def)
  have last: "PGROUNDDOWN va = va" "PGROUNDDOWN (va + PGSIZE - 1) = va" "PGROUNDDOWN (4095 + va) = va"
    using PGROUNDDOWN_aligned [OF va] PGROUNDDOWN_plus(1) [OF va, of 4095] by (simp_all add: add.commute)
  have "mappages D va PGSIZE pa perm s = Inr (0, s\<lparr>freelist := h, pmem := ?m\<rparr>)"
    using slot old by (simp add: mappages_def last w(1) present_def Let_def)
  moreover have "pt_wf (s\<lparr>freelist := h, pmem := ?m\<rparr>) D qs" using ws(1) by simp
  moreover have "pte_at ?m D va' = (if PGROUNDDOWN va' = va then ?e else pte_at (pmem s) D va')" for va'
    using ws(2) [of va'] last(1) w(4) by simp
  moreover have "pt_pages ?m D = pt_pages m1 D" using ws(4) by simp
  moreover have "agree_off (pt_pages m1 D) (pmem s) ?m"
  proof -
    have "table_at m1 D (PDX va) \<in> pt_pages m1 D" using w(5) PDX_lt unfolding pt_pages_def by blast
    then have "agree_off (pt_pages m1 D) m1 ?m" using ws(3) by (auto intro: agree_off_mono)
    from agree_off_trans [OF w(7) this] show ?thesis by simp
  qed
  ultimately show ?thesis using that w(3,6) by metis
qed

section \<open>Growing user memory\<close>

text \<open>The pages from \<open>a\<close> up to \<open>newsz\<close>, and what \<open>allocuvm\<close> leaves for them: each has a
  page of its own out of the free list, cleared and writable for the user.\<close>

definition user_page :: "32 word \<Rightarrow> 32 word" where
  "user_page p = V2P p OR (PTE_W OR PTE_U) OR PTE_P"

definition grown :: "32 word \<Rightarrow> 32 word \<Rightarrow> 32 word \<Rightarrow> 'a phys_scheme \<Rightarrow> 32 word list \<Rightarrow> 'a phys_scheme \<Rightarrow>
    32 word list \<Rightarrow> (32 word \<Rightarrow> 32 word) \<Rightarrow> bool" where
  "grown D a newsz s ps t qs f =
     (pt_wf t D qs \<and>
      (\<forall>va. pte_at (pmem t) D va =
         (if a \<le> PGROUNDDOWN va \<and> PGROUNDDOWN va < newsz then user_page (f (PGROUNDDOWN va))
          else pte_at (pmem s) D va)) \<and>
      inj_on f {x. aligned x \<and> a \<le> x \<and> x < newsz} \<and>
      (\<forall>x. aligned x \<longrightarrow> a \<le> x \<longrightarrow> x < newsz \<longrightarrow>
         f x \<in> set ps \<and> f x \<notin> set qs \<and> f x \<notin> pt_pages (pmem t) D \<and>
         (\<forall>b. PGROUNDDOWN b = f x \<longrightarrow> pmem t b = 0)) \<and>
      pt_pages (pmem t) D \<subseteq> pt_pages (pmem s) D \<union> set ps \<and> set qs \<subseteq> set ps \<and>
      agree_off (pt_pages (pmem s) D \<union> set ps) (pmem s) (pmem t))"

lemma page_le_down: "aligned a \<Longrightarrow> a \<le> PGROUNDDOWN va \<longleftrightarrow> a \<le> va"
proof -
  assume "aligned a"
  then obtain k where k: "unat a = k * 4096" unfolding aligned_def by (auto simp: mod_eq_0_iff_dvd elim!: dvdE)
  have "k * 4096 \<le> n div 4096 * 4096 \<longleftrightarrow> k * 4096 \<le> n" for n :: nat
    by (simp add: less_eq_div_iff_mult_less_eq)
  then show ?thesis unfolding word_le_nat_alt unat_PGROUNDDOWN k by simp
qed


lemma aligned_step:
  assumes "aligned a" "aligned x" "unat a + 4096 < 2 ^ 32"
  shows "a \<le> x \<longleftrightarrow> x = a \<or> a + PGSIZE \<le> x"
proof -
  obtain k where k: "unat a = k * 4096" using assms(1) unfolding aligned_def by (auto simp: mod_eq_0_iff_dvd elim!: dvdE)
  obtain j where j: "unat x = j * 4096" using assms(2) unfolding aligned_def by (auto simp: mod_eq_0_iff_dvd elim!: dvdE)
  have "unat (a + of_nat 4096) = unat a + 4096" using assms(3) by (rule unat_plus_of_nat)
  then have u: "unat (a + PGSIZE) = k * 4096 + 4096" using k by simp
  have "k * 4096 + 4096 \<le> j * 4096 \<longleftrightarrow> k < j" by linarith
  then have "k * 4096 \<le> j * 4096 \<longleftrightarrow> j * 4096 = k * 4096 \<or> k * 4096 + 4096 \<le> j * 4096" by auto
  then show ?thesis unfolding word_le_nat_alt word_unat_eq_iff u k j .
qed

lemma pt_wf_not_free: "pt_wf s D ps \<Longrightarrow> pt_pages (pmem s) D \<inter> set ps = {}"
  by (auto simp: pt_pages_def dest: pt_wf_D pt_wf_table)

lemma pt_wf_kalloc:
  assumes "pt_wf s D (p # ps)"
  shows "pt_wf (s\<lparr>freelist := read32 (pmem s) p\<rparr>) D ps"
  using assms kalloc_pop(2) [OF pt_wf_D(4) [OF assms]] by (auto simp: pt_wf_def)

lemma allocuvm_step:
  assumes wf: "pt_wf s D ps" and len: "2 \<le> length ps" and a: "aligned a" "a < newsz"
    and free: "\<not> present (pte_at (pmem s) D a)"
  obtains p t qs where
    "\<And>k oldsz. allocuvm_loop (Suc k) D a oldsz newsz s = allocuvm_loop k D (a + PGSIZE) oldsz newsz t"
    "pt_wf t D qs" "length ps \<le> length qs + 2" "p \<in> set ps" "p \<notin> set qs" "p \<notin> pt_pages (pmem t) D"
    "\<And>va. pte_at (pmem t) D va = (if PGROUNDDOWN va = a then user_page p else pte_at (pmem s) D va)"
    "\<And>b. PGROUNDDOWN b = p \<Longrightarrow> pmem t b = 0"
    "pt_pages (pmem t) D \<union> set qs \<subseteq> pt_pages (pmem s) D \<union> set ps" "set qs \<subseteq> set ps"
    "agree_off (pt_pages (pmem s) D \<union> set ps) (pmem s) (pmem t)"
proof -
  from len obtain p ps1 where ps: "ps = p # ps1" "ps1 \<noteq> []"
    by (cases ps; cases "tl ps") auto
  note pop = kalloc_pop [OF pt_wf_D(4) [OF wf [unfolded ps(1)]]]
  let ?s1 = "s\<lparr>freelist := read32 (pmem s) p\<rparr>"
  let ?m = "memset (pmem s) p 0 4096"
  let ?s2 = "?s1\<lparr>pmem := ?m\<rparr>"
  have p: "aligned p" "p \<noteq> 0" using pop(3) by (auto simp: page_ok_def) (metis page_ok_0 pop(3))
  have wf1: "pt_wf ?s1 D ps1" using pt_wf_kalloc wf ps by blast
  have ag: "agree_off {p} (pmem ?s1) ?m" using agree_off_memset [OF p(1)] by simp
  have dis: "pt_pages (pmem ?s1) D \<inter> {p} = {}" using pt_wf_not_free [OF wf] ps by auto
  have wf2: "pt_wf ?s2 D ps1" by (rule pt_wf_frame [OF wf1 ag dis]) (use pop(4) in simp)
  note fr = pt_frame [OF wf1 ag dis, simplified]
  have free2: "\<not> present (pte_at (pmem ?s2) D a)" using free fr(1) by simp
  obtain m h qs where *:
    "mappages D a PGSIZE (V2P p) (PTE_W OR PTE_U) ?s2 = Inr (0, ?s2\<lparr>freelist := h, pmem := m\<rparr>)"
    "pt_wf (?s2\<lparr>freelist := h, pmem := m\<rparr>) D qs" "qs = ps1 \<or> (\<exists>p. ps1 = p # qs)"
    "\<And>va'. pte_at m D va' = (if PGROUNDDOWN va' = a then V2P p OR (PTE_W OR PTE_U) OR PTE_P else pte_at (pmem ?s2) D va')"
    "pt_pages m D \<union> set qs = pt_pages (pmem ?s2) D \<union> set ps1" "agree_off (pt_pages m D) (pmem ?s2) m"
    using map_page [OF wf2 a(1) free2 disjI2 [OF ps(2)], of "V2P p" "PTE_W OR PTE_U"] by blast
  let ?t = "?s2\<lparr>freelist := h, pmem := m\<rparr>"
  have qs: "set qs \<subseteq> set ps1" using *(3) by auto
  have pages: "pt_pages m D \<union> set qs = pt_pages (pmem s) D \<union> set ps1" using *(5) fr(2) by simp
  have pn: "p \<notin> pt_pages m D" "p \<notin> set qs" using pages pop(4) dis qs by auto
  show thesis
  proof (rule that [of ?t qs p])
    show "allocuvm_loop (Suc k) D a oldsz newsz s = allocuvm_loop k D (a + PGSIZE) oldsz newsz ?t" for k oldsz
      using a(2) ps pop(1) p(2) *(1) by (simp add: Let_def)
    show "pt_wf ?t D qs" by (rule *(2))
    show "length ps \<le> length qs + 2" using *(3) ps by auto
    show "p \<in> set ps" "p \<notin> set qs" "p \<notin> pt_pages (pmem ?t) D" using ps pn by auto
    show "pte_at (pmem ?t) D va = (if PGROUNDDOWN va = a then user_page p else pte_at (pmem s) D va)" for va
      using *(4) fr(1) by (simp add: user_page_def)
    show "pmem ?t b = 0" if "PGROUNDDOWN b = p" for b
      using *(6) that pn in_page_iff [OF p(1)] by (simp add: agree_off_def memset_fill fill_def)
    show "pt_pages (pmem ?t) D \<union> set qs \<subseteq> pt_pages (pmem s) D \<union> set ps" using pages ps by auto
    show "set qs \<subseteq> set ps" using qs ps by auto
    have "agree_off ({p} \<union> pt_pages m D) (pmem s) m"
      using agree_off_trans [OF ag, of "pt_pages m D" m] *(6) by simp
    then have "agree_off (pt_pages (pmem s) D \<union> set ps) (pmem s) m"
      by (rule agree_off_mono) (use pages ps in auto)
    then show "agree_off (pt_pages (pmem s) D \<union> set ps) (pmem s) (pmem ?t)" by simp
  qed
qed


lemma grown_refl: "pt_wf s D ps \<Longrightarrow> \<not> a < newsz \<Longrightarrow> grown D a newsz s ps s ps f"
  by (auto simp: grown_def not_less inj_on_def dest: order_trans)

lemma grown_step:
  assumes a: "aligned a" "a < newsz" "unat a + 4096 < 2 ^ 32"
    and st: "pt_wf t D qs" "p \<in> set ps" "p \<notin> set qs" "p \<notin> pt_pages (pmem t) D"
    "\<And>va. pte_at (pmem t) D va = (if PGROUNDDOWN va = a then user_page p else pte_at (pmem s) D va)"
    "\<And>b. PGROUNDDOWN b = p \<Longrightarrow> pmem t b = 0"
    "pt_pages (pmem t) D \<union> set qs \<subseteq> pt_pages (pmem s) D \<union> set ps" "set qs \<subseteq> set ps"
    "agree_off (pt_pages (pmem s) D \<union> set ps) (pmem s) (pmem t)"
    and g: "grown D (a + PGSIZE) newsz t qs u rs f"
  shows "grown D a newsz s ps u rs (f(a := p))"
proof -
  have step: "a \<le> x \<longleftrightarrow> x = a \<or> a + PGSIZE \<le> x" if "aligned x" for x
    using aligned_step [OF a(1) that a(3)] .
  have na: "\<not> a + PGSIZE \<le> a"
  proof -
    have "unat (a + of_nat 4096) = unat a + 4096" using a(3) by (rule unat_plus_of_nat)
    then show ?thesis by (simp add: word_le_nat_alt)
  qed
  have fx: "f x \<in> set qs \<and> f x \<notin> set rs \<and> f x \<notin> pt_pages (pmem u) D \<and> (\<forall>b. PGROUNDDOWN b = f x \<longrightarrow> pmem u b = 0)"
    if "aligned x" "a + PGSIZE \<le> x" "x < newsz" for x using g that by (simp add: grown_def)
  have ag: "agree_off (pt_pages (pmem t) D \<union> set qs) (pmem t) (pmem u)" using g by (simp add: grown_def)
  have pt: "pte_at (pmem u) D va =
      (if a \<le> PGROUNDDOWN va \<and> PGROUNDDOWN va < newsz then user_page ((f(a := p)) (PGROUNDDOWN va))
       else pte_at (pmem s) D va)" for va
  proof -
    have "pte_at (pmem u) D va = (if a + PGSIZE \<le> PGROUNDDOWN va \<and> PGROUNDDOWN va < newsz
        then user_page (f (PGROUNDDOWN va)) else pte_at (pmem t) D va)" using g by (simp add: grown_def)
    then show ?thesis using step [of "PGROUNDDOWN va"] na a(2) by (auto simp: st(5))
  qed
  have inj: "inj_on (f(a := p)) {x. aligned x \<and> a \<le> x \<and> x < newsz}"
  proof (rule inj_onI)
    fix x y
    assume xy: "x \<in> {x. aligned x \<and> a \<le> x \<and> x < newsz}" "y \<in> {x. aligned x \<and> a \<le> x \<and> x < newsz}"
      "(f(a := p)) x = (f(a := p)) y"
    have "inj_on f {x. aligned x \<and> a + PGSIZE \<le> x \<and> x < newsz}" using g by (simp add: grown_def)
    then show "x = y"
      using xy step fx st(3) by (cases "x = a"; cases "y = a") (auto dest: inj_onD)
  qed
  have pages: "(f(a := p)) x \<in> set ps \<and> (f(a := p)) x \<notin> set rs \<and> (f(a := p)) x \<notin> pt_pages (pmem u) D \<and>
      (\<forall>b. PGROUNDDOWN b = (f(a := p)) x \<longrightarrow> pmem u b = 0)"
    if x: "aligned x" "a \<le> x" "x < newsz" for x
  proof (cases "x = a")
    case True
    have "set rs \<subseteq> set qs" "pt_pages (pmem u) D \<subseteq> pt_pages (pmem t) D \<union> set qs" using g by (simp_all add: grown_def)
    then have "p \<notin> set rs" "p \<notin> pt_pages (pmem u) D" using st(3,4) by auto
    moreover have "pmem u b = 0" if "PGROUNDDOWN b = p" for b
      using ag st(3,4,6) that by (simp add: agree_off_def)
    ultimately show ?thesis using True st(2) by simp
  next
    case False
    then show ?thesis using fx [OF x(1) _ x(3)] step [OF x(1)] x(2) st(8) by auto
  qed
  have "agree_off (pt_pages (pmem s) D \<union> set ps) (pmem s) (pmem u)"
  proof -
    have "agree_off (pt_pages (pmem s) D \<union> set ps) (pmem t) (pmem u)"
      by (rule agree_off_mono [OF ag st(7)])
    from agree_off_trans [OF st(9) this] show ?thesis by simp
  qed
  moreover have "pt_pages (pmem u) D \<subseteq> pt_pages (pmem s) D \<union> set ps" "set rs \<subseteq> set ps" "pt_wf u D rs"
    using g st(7,8) by (auto simp: grown_def)
  ultimately show ?thesis using pt inj pages by (simp add: grown_def)
qed

lemma allocuvm_loop_grows:
  assumes "pt_wf s D ps" "aligned a" "unat newsz \<le> unat a + 4096 * n" "newsz < KERNBASE" "2 * n \<le> length ps"
    and "\<And>va. a \<le> PGROUNDDOWN va \<Longrightarrow> PGROUNDDOWN va < newsz \<Longrightarrow> \<not> present (pte_at (pmem s) D va)"
    and "n \<le> k"
  shows "\<exists>t qs f. allocuvm_loop k D a oldsz newsz s = Inr (newsz, t) \<and> grown D a newsz s ps t qs f"
  using assms
proof (induction n arbitrary: s ps a k)
  case 0
  then have na: "\<not> a < newsz" by (simp add: word_less_nat_alt)
  then have "allocuvm_loop k D a oldsz newsz s = Inr (newsz, s)" by (cases k) auto
  then show ?case using grown_refl [OF 0(1) na] by blast
next
  case (Suc n)
  obtain k' where k: "k = Suc k'" "n \<le> k'" using Suc.prems(7) by (cases k) auto
  show ?case
  proof (cases "a < newsz")
    case False
    then have "allocuvm_loop k D a oldsz newsz s = Inr (newsz, s)" using k(1) by simp
    then show ?thesis using grown_refl [OF Suc.prems(1) False] by blast
  next
    case True
    have a3: "unat a + 4096 < 2 ^ 32" using True Suc.prems(4) by (simp add: word_less_nat_alt)
    have up: "unat (a + of_nat 4096) = unat a + 4096" using a3 by (rule unat_plus_of_nat)
    have np: "\<not> present (pte_at (pmem s) D a)"
      using Suc.prems(6) [of a] True PGROUNDDOWN_aligned [OF Suc.prems(2)] by simp
    have len: "2 \<le> length ps" using Suc.prems(5) by simp
    obtain p t qs where st:
      "\<And>k oldsz. allocuvm_loop (Suc k) D a oldsz newsz s = allocuvm_loop k D (a + PGSIZE) oldsz newsz t"
      "pt_wf t D qs" "length ps \<le> length qs + 2" "p \<in> set ps" "p \<notin> set qs" "p \<notin> pt_pages (pmem t) D"
      "\<And>va. pte_at (pmem t) D va = (if PGROUNDDOWN va = a then user_page p else pte_at (pmem s) D va)"
      "\<And>b. PGROUNDDOWN b = p \<Longrightarrow> pmem t b = 0"
      "pt_pages (pmem t) D \<union> set qs \<subseteq> pt_pages (pmem s) D \<union> set ps" "set qs \<subseteq> set ps"
      "agree_off (pt_pages (pmem s) D \<union> set ps) (pmem s) (pmem t)"
      by (rule allocuvm_step [OF Suc.prems(1) len Suc.prems(2) True np], rule that)
    have "\<exists>u rs f. allocuvm_loop k' D (a + PGSIZE) oldsz newsz t = Inr (newsz, u) \<and>
        grown D (a + PGSIZE) newsz t qs u rs f"
    proof (rule Suc.IH [OF st(2) aligned_plus [OF Suc.prems(2)] _ Suc.prems(4) _ _ k(2)])
      show "unat newsz \<le> unat (a + PGSIZE) + 4096 * n" using Suc.prems(3) up by simp
      show "2 * n \<le> length qs" using Suc.prems(5) st(3) by simp
      fix va assume va: "a + PGSIZE \<le> PGROUNDDOWN va" "PGROUNDDOWN va < newsz"
      then have "a \<le> PGROUNDDOWN va" "PGROUNDDOWN va \<noteq> a" using up by (auto simp: word_le_nat_alt)
      then show "\<not> present (pte_at (pmem t) D va)" using st(7) Suc.prems(6) va by simp
    qed
    then obtain u rs f where u: "allocuvm_loop k' D (a + PGSIZE) oldsz newsz t = Inr (newsz, u)"
      "grown D (a + PGSIZE) newsz t qs u rs f" by blast
    have "grown D a newsz s ps u rs (f(a := p))"
      by (rule grown_step [OF Suc.prems(2) True a3 st(2,4,5,6,7,8,9,10,11) u(2)])
    with u(1) st(1) k(1) show ?thesis by auto
  qed
qed

lemma div_ceil: "(d :: nat) \<le> 4096 * ((d + 4095) div 4096)"
proof -
  define q where "q = (d + 4095) div 4096"
  have "d + 4095 < 4096 + q * 4096" unfolding q_def by (rule dividend_less_div_times) simp
  then show ?thesis unfolding q_def [symmetric] by linarith
qed

text \<open>
  C6. Growing user memory: with a page and a page table to spare for every new page, \<open>allocuvm\<close>
  returns the new size; every page from the rounded-up old size on is mapped, writable and for
  the user, to its own cleared page taken from the free list, every other translation is as
  before, and no byte outside the page tables and the formerly free pages has changed.
\<close>

theorem allocuvm_grows:
  assumes "pt_wf s D ps" "oldsz \<le> newsz" "newsz < KERNBASE"
    and "2 * ((unat newsz - unat (PGROUNDUP oldsz) + 4095) div 4096) \<le> length ps"
    and "\<And>va. PGROUNDUP oldsz \<le> PGROUNDDOWN va \<Longrightarrow> PGROUNDDOWN va < newsz \<Longrightarrow> \<not> present (pte_at (pmem s) D va)"
  shows "\<exists>t qs f. allocuvm D oldsz newsz s = Inr (newsz, t) \<and> grown D (PGROUNDUP oldsz) newsz s ps t qs f"
proof -
  let ?n = "(unat newsz - unat (PGROUNDUP oldsz) + 4095) div 4096"
  have n: "unat newsz \<le> unat (PGROUNDUP oldsz) + 4096 * ?n"
    using div_ceil [of "unat newsz - unat (PGROUNDUP oldsz)"] by (simp only: le_diff_conv add.commute)
  have fuel: "?n \<le> Suc (unat newsz div 4096)"
  proof -
    have "?n \<le> (unat newsz + 4096) div 4096" by (rule div_le_mono) simp
    then show ?thesis by simp
  qed
  from allocuvm_loop_grows [OF assms(1) aligned_round(4) n assms(3,4,5) fuel] assms(2,3)
  show ?thesis by (auto simp: allocuvm_def)
qed

lemma small_machine:
  defines "s \<equiv> \<lparr>pmem = write32 (\<lambda>_. 0) 0x80401000 0x80402000, freelist = 0x80401000, use_lock = True,
      kend = 0x80115000, kdata = 0x80108000, kout = []\<rparr>"
  shows "pt_wf s 0x80400000 [0x80401000, 0x80402000]" "\<not> present (pte_at (pmem s) 0x80400000 va)"
proof -
  let ?m = "write32 (\<lambda>_. 0) 0x80401000 0x80402000"
  have z: "read32 (\<lambda>_. 0) b = 0" for b by (simp add: read32_def)
  have r: "read32 ?m 0x80402000 = 0" by (subst read32_write32_other) (simp_all add: z)
  have D: "aligned 0x80400000" by (simp add: aligned_def)
  have "pde_at ?m 0x80400000 i = 0" if "unat i < 1024" for i
  proof -
    have "PGROUNDDOWN (0x80400000 + 4 * i) = 0x80400000" using entry_addr(1) [OF D that] .
    moreover have "PGROUNDDOWN 0x80401000 = 0x80401000" by (simp add: PGROUNDDOWN_def)
    ultimately have "0x80401000 \<noteq> 0x80400000 + 4 * i" by auto
    then show ?thesis
      unfolding pde_at_def using entry_addr(3) [OF D that] z by (subst read32_write32_other) simp_all
  qed
  then have np: "\<not> present (pde_at ?m 0x80400000 i)" if "unat i < 1024" for i using that by simp
  then show "\<not> present (pte_at (pmem s) 0x80400000 va)" by (simp add: pte_at_def s_def)
  show "pt_wf s 0x80400000 [0x80401000, 0x80402000]"
  proof -
    have "free_pages s [0x80401000, 0x80402000]"
      by (simp add: s_def free_pages_def page_ok_def aligned_def V2P_def r)
    moreover have "page_ok s 0x80400000" by (simp add: s_def page_ok_def aligned_def V2P_def)
    moreover have "pmem s = ?m" by (simp add: s_def)
    ultimately show ?thesis using np by (simp add: pt_wf_def)
  qed
qed

theorem allocuvm_grows_witness:
  "let s = \<lparr>pmem = write32 (\<lambda>_. 0) 0x80401000 0x80402000, freelist = 0x80401000, use_lock = True,
      kend = 0x80115000, kdata = 0x80108000, kout = []\<rparr>
   in \<exists>t qs f. allocuvm 0x80400000 0 100 s = Inr (100, t) \<and>
     grown 0x80400000 0 100 s [0x80401000, 0x80402000] t qs f"
proof -
  have up: "PGROUNDUP 0 = 0" by (simp add: PGROUNDUP_def)
  show ?thesis
    using allocuvm_grows [OF small_machine(1), of 0 100] small_machine(2) by (simp add: up)
qed

section \<open>Shrinking user memory\<close>

definition frame_at :: "mem \<Rightarrow> 32 word \<Rightarrow> 32 word \<Rightarrow> 32 word" where
  "frame_at m D va = P2V (PTE_ADDR (pte_at m D va))"

text \<open>User memory is well formed: below \<open>KERNBASE\<close> every mapped page has a frame of its own that
  is neither free nor part of the page table.\<close>

definition um_wf :: "'a phys_scheme \<Rightarrow> 32 word \<Rightarrow> 32 word list \<Rightarrow> bool" where
  "um_wf s D ps = (pt_wf s D ps \<and>
     (\<forall>va. va < KERNBASE \<longrightarrow> present (pte_at (pmem s) D va) \<longrightarrow>
        page_ok s (frame_at (pmem s) D va) \<and> frame_at (pmem s) D va \<notin> pt_pages (pmem s) D \<and>
        frame_at (pmem s) D va \<notin> set ps \<and>
        (\<forall>vb. vb < KERNBASE \<longrightarrow> present (pte_at (pmem s) D vb) \<longrightarrow>
           frame_at (pmem s) D va = frame_at (pmem s) D vb \<longrightarrow> PGROUNDDOWN va = PGROUNDDOWN vb)))"

lemma um_wfD:
  assumes "um_wf s D ps"
  shows "pt_wf s D ps"
    "va < KERNBASE \<Longrightarrow> present (pte_at (pmem s) D va) \<Longrightarrow> page_ok s (frame_at (pmem s) D va)"
    "va < KERNBASE \<Longrightarrow> present (pte_at (pmem s) D va) \<Longrightarrow> frame_at (pmem s) D va \<notin> pt_pages (pmem s) D"
    "va < KERNBASE \<Longrightarrow> present (pte_at (pmem s) D va) \<Longrightarrow> frame_at (pmem s) D va \<notin> set ps"
    "va < KERNBASE \<Longrightarrow> present (pte_at (pmem s) D va) \<Longrightarrow> vb < KERNBASE \<Longrightarrow> present (pte_at (pmem s) D vb) \<Longrightarrow>
      frame_at (pmem s) D va = frame_at (pmem s) D vb \<Longrightarrow> PGROUNDDOWN va = PGROUNDDOWN vb"
  using assms unfolding um_wf_def by blast+

lemma present_pde: "present (pte_at m D va) \<Longrightarrow> present (pde_at m D (PDX va))"
  by (auto simp: pte_at_def split: if_splits)

text \<open>Freeing the frame of one mapped page and clearing its entry.\<close>

lemma dealloc_page:
  assumes wf: "um_wf s D ps" and kend: "KERNBASE < kend s" and a: "a < KERNBASE" "present (pte_at (pmem s) D a)"
  defines "v \<equiv> frame_at (pmem s) D a"
  obtains u m where
    "fst (walkpgdir D a False s) \<noteq> 0" "read32 (pmem s) (fst (walkpgdir D a False s)) = pte_at (pmem s) D a"
    "PTE_ADDR (pte_at (pmem s) D a) \<noteq> 0" "kfree v s = Inr u"
    "u\<lparr>pmem := write32 (pmem u) (fst (walkpgdir D a False s)) 0\<rparr> = s\<lparr>freelist := v, pmem := m\<rparr>"
    "um_wf (s\<lparr>freelist := v, pmem := m\<rparr>) D (v # ps)"
    "\<And>va. pte_at m D va = (if PGROUNDDOWN va = PGROUNDDOWN a then 0 else pte_at (pmem s) D va)"
    "pt_pages m D = pt_pages (pmem s) D" "agree_off (insert v (pt_pages (pmem s) D)) (pmem s) m"
proof -
  note d = um_wfD [OF wf]
  have pd: "present (pde_at (pmem s) D (PDX a))" using present_pde [OF a(2)] .
  have walk: "fst (walkpgdir D a False s) = slot_at (pmem s) D a" using pd by (simp add: walkpgdir_noalloc)
  have slot: "slot_at (pmem s) D a \<noteq> 0" using slot_nonzero [OF d(1) pd] .
  have rd: "read32 (pmem s) (slot_at (pmem s) D a) = pte_at (pmem s) D a" using pd by (simp add: pte_at_def)
  have v: "page_ok s v" "v \<notin> set ps" "v \<notin> pt_pages (pmem s) D" using d a unfolding v_def by blast+
  have pa: "PTE_ADDR (pte_at (pmem s) D a) \<noteq> 0"
  proof
    assume "PTE_ADDR (pte_at (pmem s) D a) = 0"
    then have "v = KERNBASE" by (simp add: v_def frame_at_def P2V_def)
    then have "kend s \<le> KERNBASE" using v(1) by (simp add: page_ok_def)
    with kend show False by (meson leD)
  qed
  obtain m1 where m1: "kfree v s = Inr (s\<lparr>pmem := m1, freelist := v\<rparr>)"
    "free_pages (s\<lparr>pmem := m1, freelist := v\<rparr>) (v # ps)" "agree_off {v} (pmem s) m1"
    using kfree_push [OF pt_wf_D(4) [OF d(1)] v(1,2)] by blast
  have dis: "pt_pages (pmem s) D \<inter> {v} = {}" using v(3) by simp
  note fr = pt_frame [OF d(1) m1(3) dis]
  let ?u = "s\<lparr>pmem := m1, freelist := v\<rparr>"
  have D: "v \<noteq> D" using v(3) by (auto simp: pt_pages_def)
  have tabs: "table_at (pmem s) D i \<noteq> v" if "unat i < 1024" "present (pde_at (pmem s) D i)" for i
    using v(3) that unfolding pt_pages_def by blast
  have wf1: "pt_wf ?u D (v # ps)"
    using d(1) m1(2) D tabs unfolding pt_wf_def by (auto simp: fr(3,4))
  have pd1: "present (pde_at (pmem ?u) D (PDX a))" using pd fr(3) by simp
  note ws = write_slot [OF wf1 pd1, where w = 0, simplified]
  have sl: "slot_at m1 D a = slot_at (pmem s) D a" using fr(4) by (simp add: slot_at_def)
  let ?m = "write32 m1 (slot_at m1 D a) 0"
  have pte: "pte_at ?m D va = (if PGROUNDDOWN va = PGROUNDDOWN a then 0 else pte_at (pmem s) D va)" for va
    using ws(2) fr(1) by simp
  have pg: "pt_pages ?m D = pt_pages (pmem s) D" using ws(4) fr(2) by simp
  have wf2: "pt_wf (s\<lparr>freelist := v, pmem := ?m\<rparr>) D (v # ps)" using ws(1) by simp
  have um: "um_wf (s\<lparr>freelist := v, pmem := ?m\<rparr>) D (v # ps)"
    unfolding um_wf_def
  proof (intro conjI allI impI)
    fix va assume va: "va < KERNBASE" "present (pte_at (pmem (s\<lparr>freelist := v, pmem := ?m\<rparr>)) D va)"
    then have ne: "PGROUNDDOWN va \<noteq> PGROUNDDOWN a" and p: "present (pte_at (pmem s) D va)"
      using pte by (auto split: if_splits)
    then have fa: "frame_at ?m D va = frame_at (pmem s) D va" using pte by (simp add: frame_at_def)
    show "page_ok (s\<lparr>freelist := v, pmem := ?m\<rparr>) (frame_at (pmem (s\<lparr>freelist := v, pmem := ?m\<rparr>)) D va)"
      using d(2) [OF va(1) p] fa by simp
    show "frame_at (pmem (s\<lparr>freelist := v, pmem := ?m\<rparr>)) D va \<notin> pt_pages (pmem (s\<lparr>freelist := v, pmem := ?m\<rparr>)) D"
      using d(3) [OF va(1) p] fa pg by simp
    show "frame_at (pmem (s\<lparr>freelist := v, pmem := ?m\<rparr>)) D va \<notin> set (v # ps)"
      using d(4) [OF va(1) p] d(5) [OF va(1) p a] ne fa by (auto simp: v_def)
    fix vb assume vb: "vb < KERNBASE" "present (pte_at (pmem (s\<lparr>freelist := v, pmem := ?m\<rparr>)) D vb)"
      "frame_at (pmem (s\<lparr>freelist := v, pmem := ?m\<rparr>)) D va = frame_at (pmem (s\<lparr>freelist := v, pmem := ?m\<rparr>)) D vb"
    then have pb: "present (pte_at (pmem s) D vb)" "frame_at ?m D vb = frame_at (pmem s) D vb"
      using pte by (auto simp: frame_at_def split: if_splits)
    then show "PGROUNDDOWN va = PGROUNDDOWN vb" using d(5) [OF va(1) p vb(1) pb(1)] vb(3) fa by simp
  qed (use wf2 in simp)
  have "agree_off (insert v (pt_pages (pmem s) D)) (pmem s) ?m"
  proof -
    have "table_at m1 D (PDX a) \<in> pt_pages (pmem s) D"
      using pd fr(4) PDX_lt unfolding pt_pages_def by force
    then have "agree_off (insert v (pt_pages (pmem s) D)) (pmem s) ?m"
      using agree_off_trans [OF m1(3) ws(3)] by (auto intro: agree_off_mono)
    then show ?thesis .
  qed
  then show thesis
    using that [of ?u ?m] walk slot rd pa m1(1) sl um pte pg by simp
qed

text \<open>Where the loop skips, nothing is mapped up to the next directory entry.\<close>

lemma skip_target:
  assumes "a < KERNBASE"
  shows "unat (PGADDR (PDX a + 1) 0 0) = (unat a div 2 ^ 22 + 1) * 2 ^ 22"
proof -
  have "unat a div 2 ^ 22 < 512" using assms by (simp add: word_less_nat_alt)
  then have "unat (PDX a + of_nat 1) = unat a div 2 ^ 22 + 1"
    by (subst unat_plus_of_nat) (simp_all add: unat_PDX)
  then have p: "unat (PDX a + 1) = unat a div 2 ^ 22 + 1" by simp
  have "unat (push_bit 22 (PDX a + 1)) = (unat a div 2 ^ 22 + 1) * 2 ^ 22"
    unfolding unsigned_push_bit_eq p using \<open>unat a div 2 ^ 22 < 512\<close>
    by (simp add: push_bit_eq_mult take_bit_eq_mod)
  then show ?thesis by (simp add: PGADDR_def)
qed

lemma skipped_unmapped:
  assumes "\<not> present (pde_at m D (PDX a))" "a < KERNBASE" "a \<le> x" "x < PGADDR (PDX a + 1) 0 0"
  shows "\<not> present (pte_at m D x)"
proof -
  have "unat x < (unat a div 2 ^ 22 + 1) * 2 ^ 22" "unat a \<le> unat x"
    using assms(3,4) skip_target [OF assms(2)] by (simp_all add: word_less_nat_alt word_le_nat_alt)
  then have "unat x div 2 ^ 22 = unat a div 2 ^ 22"
    by (intro antisym) (simp add: less_mult_imp_div_less flip: less_Suc_eq_le, rule div_le_mono)
  then have "PDX x = PDX a" by (simp add: word_unat_eq_iff unat_PDX)
  with assms(1) show ?thesis by (simp add: pte_at_def)
qed

definition shrunk :: "32 word \<Rightarrow> 32 word \<Rightarrow> 32 word \<Rightarrow> 'a phys_scheme \<Rightarrow> 32 word list \<Rightarrow> 'a phys_scheme \<Rightarrow>
    32 word list \<Rightarrow> bool" where
  "shrunk D a oldsz s ps t fs =
     (um_wf t D (fs @ ps) \<and> kend t = kend s \<and>
      (\<forall>va. pte_at (pmem t) D va =
         (if a \<le> PGROUNDDOWN va \<and> PGROUNDDOWN va < oldsz \<and> present (pte_at (pmem s) D va) then 0
          else pte_at (pmem s) D va)) \<and>
      set fs = frame_at (pmem s) D ` {x. aligned x \<and> a \<le> x \<and> x < oldsz \<and> present (pte_at (pmem s) D x)} \<and>
      pt_pages (pmem t) D = pt_pages (pmem s) D \<and>
      agree_off (set fs \<union> pt_pages (pmem s) D) (pmem s) (pmem t))"

lemma shrunk_empty:
  assumes "um_wf s D ps" "\<And>x. a \<le> x \<Longrightarrow> x < oldsz \<Longrightarrow> \<not> present (pte_at (pmem s) D x)"
  shows "shrunk D a oldsz s ps s []"
proof -
  have "\<not> present (pte_at (pmem s) D va)" if "a \<le> PGROUNDDOWN va" "PGROUNDDOWN va < oldsz" for va
    using assms(2) [OF that] pte_at_page [of "PGROUNDDOWN va" va] PGROUNDDOWN_aligned by simp
  with assms show ?thesis by (auto simp: shrunk_def)
qed

lemma shrunk_from:
  assumes "shrunk D b oldsz s ps t fs" "a \<le> b" "\<And>x. a \<le> x \<Longrightarrow> x < b \<Longrightarrow> x < oldsz \<Longrightarrow> \<not> present (pte_at (pmem s) D x)"
  shows "shrunk D a oldsz s ps t fs"
proof -
  have np: "\<not> present (pte_at (pmem s) D va)" if "a \<le> PGROUNDDOWN va" "PGROUNDDOWN va < b" "PGROUNDDOWN va < oldsz" for va
    using assms(3) [OF that] pte_at_page [of "PGROUNDDOWN va" va] PGROUNDDOWN_aligned by simp
  have "{x. aligned x \<and> a \<le> x \<and> x < oldsz \<and> present (pte_at (pmem s) D x)} =
      {x. aligned x \<and> b \<le> x \<and> x < oldsz \<and> present (pte_at (pmem s) D x)}"
    using assms(2,3) by (auto simp: not_le[symmetric] dest: order_trans)
  moreover have "(a \<le> PGROUNDDOWN va \<and> PGROUNDDOWN va < oldsz \<and> present (pte_at (pmem s) D va)) =
      (b \<le> PGROUNDDOWN va \<and> PGROUNDDOWN va < oldsz \<and> present (pte_at (pmem s) D va))" for va
    using np assms(2) by (meson leI order_trans)
  ultimately have "shrunk D a oldsz s ps t fs = shrunk D b oldsz s ps t fs"
    unfolding shrunk_def by presburger
  with assms(1) show ?thesis by simp
qed


lemma shrunk_step:
  assumes a: "aligned a" "a < oldsz" "oldsz \<le> KERNBASE" "present (pte_at (pmem s) D a)"
    and pte: "\<And>va. pte_at m D va = (if PGROUNDDOWN va = PGROUNDDOWN a then 0 else pte_at (pmem s) D va)"
    and pg: "pt_pages m D = pt_pages (pmem s) D" "agree_off (insert v (pt_pages (pmem s) D)) (pmem s) m"
    and v: "v = frame_at (pmem s) D a"
    and sh: "shrunk D (a + PGSIZE) oldsz (s\<lparr>freelist := v, pmem := m\<rparr>) (v # ps) t fs"
  shows "shrunk D a oldsz s ps t (fs @ [v])"
proof -
  have a3: "unat a + 4096 < 2 ^ 32" using a(2,3) by (simp add: word_less_nat_alt word_le_nat_alt)
  have up: "unat (a + of_nat 4096) = unat a + 4096" using a3 by (rule unat_plus_of_nat)
  have pa: "PGROUNDDOWN a = a" using a(1) by (rule PGROUNDDOWN_aligned)
  have step: "a \<le> x \<longleftrightarrow> x = a \<or> a + PGSIZE \<le> x" if "aligned x" for x
    using aligned_step [OF a(1) that a3] .
  have na: "\<not> a + PGSIZE \<le> a" using up by (simp add: word_le_nat_alt)
  have same: "pte_at m D x = pte_at (pmem s) D x" if "aligned x" "a + PGSIZE \<le> x" for x
    using pte [of x] that na PGROUNDDOWN_aligned [OF that(1)] pa by auto
  then have same_frame: "frame_at m D x = frame_at (pmem s) D x" if "aligned x" "a + PGSIZE \<le> x" for x
    using that by (simp add: frame_at_def)
  note sh' = sh [unfolded shrunk_def, simplified]
  have "{x. aligned x \<and> a \<le> x \<and> x < oldsz \<and> present (pte_at (pmem s) D x)} =
      insert a {x. aligned x \<and> a + PGSIZE \<le> x \<and> x < oldsz \<and> present (pte_at m D x)}"
    using step same a by auto
  moreover have "frame_at (pmem s) D ` {x. aligned x \<and> a + PGSIZE \<le> x \<and> x < oldsz \<and> present (pte_at m D x)} =
      frame_at m D ` {x. aligned x \<and> a + PGSIZE \<le> x \<and> x < oldsz \<and> present (pte_at m D x)}"
    by (rule image_cong) (auto simp: same_frame)
  ultimately have fs: "set (fs @ [v]) = frame_at (pmem s) D ` {x. aligned x \<and> a \<le> x \<and> x < oldsz \<and> present (pte_at (pmem s) D x)}"
    using sh' v by simp
  have pt: "pte_at (pmem t) D va = (if a \<le> PGROUNDDOWN va \<and> PGROUNDDOWN va < oldsz \<and> present (pte_at (pmem s) D va)
      then 0 else pte_at (pmem s) D va)" for va
  proof (cases "PGROUNDDOWN va = a")
    case True
    then have "pte_at (pmem s) D va = pte_at (pmem s) D a" by (intro pte_at_page) (simp add: pa)
    then show ?thesis using sh' pte [of va] True pa na a(2,4) by simp
  next
    case False
    then show ?thesis using sh' pte [of va] pa step [of "PGROUNDDOWN va"] by simp
  qed
  have ag: "agree_off (set (fs @ [v]) \<union> pt_pages (pmem s) D) (pmem s) (pmem t)"
  proof -
    have "agree_off (insert v (pt_pages (pmem s) D) \<union> (set fs \<union> pt_pages m D)) (pmem s) (pmem t)"
      using agree_off_trans [OF pg(2)] sh' by blast
    then show ?thesis by (rule agree_off_mono) (auto simp: pg)
  qed
  have "um_wf t D ((fs @ [v]) @ ps)" "kend t = kend s" "pt_pages (pmem t) D = pt_pages (pmem s) D"
    using sh' pg by simp_all
  with pt ag fs show ?thesis unfolding shrunk_def by blast
qed

lemma deallocuvm_loop_shrinks:
  assumes "um_wf s D ps" "KERNBASE < kend s" "aligned a" "oldsz \<le> KERNBASE" "unat oldsz \<le> unat a + 4096 * k"
  shows "\<exists>t fs. deallocuvm_loop k D a oldsz s = Inr t \<and> shrunk D a oldsz s ps t fs"
  using assms
proof (induction k arbitrary: s ps a)
  case 0
  then have "\<not> a < oldsz" by (simp add: word_less_nat_alt)
  moreover from this have "shrunk D a oldsz s ps s []"
    by (intro shrunk_empty [OF 0(1)]) (meson le_less_trans)
  ultimately show ?case by auto
next
  case (Suc k)
  show ?case
  proof (cases "a < oldsz")
    case False
    then have "shrunk D a oldsz s ps s []"
      by (intro shrunk_empty [OF Suc.prems(1)]) (meson le_less_trans)
    with False show ?thesis by auto
  next
    case True
    have aK: "a < KERNBASE" using True Suc.prems(4) by simp
    have a3: "unat a + 4096 < 2 ^ 32" using aK by (simp add: word_less_nat_alt)
    have up: "unat (a + of_nat 4096) = unat a + 4096" using a3 by (rule unat_plus_of_nat)
    note wf = um_wfD(1) [OF Suc.prems(1)]
    consider (skip) "\<not> present (pde_at (pmem s) D (PDX a))"
      | (none) "present (pde_at (pmem s) D (PDX a))" "\<not> present (pte_at (pmem s) D a)"
      | (page) "present (pte_at (pmem s) D a)" by blast
    then show ?thesis
    proof cases
      case skip
      let ?b = "PGADDR (PDX a + 1) 0 0"
      have b: "unat ?b = (unat a div 2 ^ 22 + 1) * 2 ^ 22" by (rule skip_target [OF aK])
      have "unat a + 4096 \<le> unat ?b"
      proof -
        obtain j where j: "unat a = j * 4096" using Suc.prems(3) unfolding aligned_def by (auto simp: mod_eq_0_iff_dvd elim!: dvdE)
        have "unat a div 2 ^ 22 = j div 1024" unfolding j by (simp add: div_mult2_eq [of _ 4096 1024, simplified])
        moreover have "j < (j div 1024 + 1) * 1024" using dividend_less_div_times [of 1024 j] by simp
        ultimately show ?thesis unfolding b j by simp
      qed
      moreover have "aligned ?b" unfolding aligned_def b by (simp add: mod_mult_left_eq [symmetric])
      ultimately have "\<exists>t fs. deallocuvm_loop k D ?b oldsz s = Inr t \<and> shrunk D ?b oldsz s ps t fs"
        using Suc.IH [OF Suc.prems(1,2) _ Suc.prems(4), of ?b] Suc.prems(5) by simp
      then obtain t fs where t: "deallocuvm_loop k D ?b oldsz s = Inr t" "shrunk D ?b oldsz s ps t fs" by blast
      have "shrunk D a oldsz s ps t fs"
        by (rule shrunk_from [OF t(2)])
          (use \<open>unat a + 4096 \<le> unat ?b\<close> skipped_unmapped [OF skip aK] in \<open>auto simp: word_le_nat_alt\<close>)
      moreover have "deallocuvm_loop (Suc k) D a oldsz s = Inr t"
        using True skip t(1) by (simp add: walkpgdir_noalloc)
      ultimately show ?thesis by blast
    next
      case none
      have "\<exists>t fs. deallocuvm_loop k D (a + PGSIZE) oldsz s = Inr t \<and> shrunk D (a + PGSIZE) oldsz s ps t fs"
        by (rule Suc.IH) (use Suc.prems up aligned_plus in auto)
      then obtain t fs where t: "deallocuvm_loop k D (a + PGSIZE) oldsz s = Inr t" "shrunk D (a + PGSIZE) oldsz s ps t fs" by blast
      have "\<not> present (pte_at (pmem s) D x)" if "a \<le> x" "x < a + PGSIZE" for x
      proof -
        have "unat (x - a) < 4096" using that up by (simp add: unat_sub word_less_nat_alt word_le_nat_alt)
        then have "PGROUNDDOWN x = a" using in_page_iff [OF Suc.prems(3)] by simp
        then have "pte_at (pmem s) D x = pte_at (pmem s) D a"
          by (intro pte_at_page) (simp add: PGROUNDDOWN_aligned [OF Suc.prems(3)])
        with none(2) show ?thesis by simp
      qed
      then have "shrunk D a oldsz s ps t fs"
        by (intro shrunk_from [OF t(2)]) (use up in \<open>auto simp: word_le_nat_alt\<close>)
      moreover have "deallocuvm_loop (Suc k) D a oldsz s = Inr t"
        using True none t(1) slot_nonzero [OF wf none(1)]
        by (simp add: walkpgdir_noalloc pte_at_def present_def)
      ultimately show ?thesis by blast
    next
      case page
      let ?v = "frame_at (pmem s) D a"
      obtain u m where d:
        "fst (walkpgdir D a False s) \<noteq> 0" "read32 (pmem s) (fst (walkpgdir D a False s)) = pte_at (pmem s) D a"
        "PTE_ADDR (pte_at (pmem s) D a) \<noteq> 0" "kfree ?v s = Inr u"
        "u\<lparr>pmem := write32 (pmem u) (fst (walkpgdir D a False s)) 0\<rparr> = s\<lparr>freelist := ?v, pmem := m\<rparr>"
        "um_wf (s\<lparr>freelist := ?v, pmem := m\<rparr>) D (?v # ps)"
        "\<And>va. pte_at m D va = (if PGROUNDDOWN va = PGROUNDDOWN a then 0 else pte_at (pmem s) D va)"
        "pt_pages m D = pt_pages (pmem s) D" "agree_off (insert ?v (pt_pages (pmem s) D)) (pmem s) m"
        by (rule dealloc_page [OF Suc.prems(1,2) aK page], rule that)
      let ?t = "s\<lparr>freelist := ?v, pmem := m\<rparr>"
      have "\<exists>t fs. deallocuvm_loop k D (a + PGSIZE) oldsz ?t = Inr t \<and> shrunk D (a + PGSIZE) oldsz ?t (?v # ps) t fs"
        by (rule Suc.IH [OF d(6)]) (use Suc.prems up aligned_plus in auto)
      then obtain t fs where t: "deallocuvm_loop k D (a + PGSIZE) oldsz ?t = Inr t"
        "shrunk D (a + PGSIZE) oldsz ?t (?v # ps) t fs" by blast
      have "shrunk D a oldsz s ps t (fs @ [?v])"
        by (rule shrunk_step [OF Suc.prems(3) True Suc.prems(4) page d(7,8,9) refl t(2)])
      moreover have "deallocuvm_loop (Suc k) D a oldsz s = Inr t"
        using True d(1,3,4) page t(1) d(5)
        by (simp add: d(2) present_def Let_def frame_at_def)
      ultimately show ?thesis by blast
    qed
  qed
qed


text \<open>
  C9. Shrinking user memory: although it jumps over the parts of the address space that have no
  page table, \<open>deallocuvm\<close> returns, clears exactly the mapped entries between the new size,
  rounded up, and the old size, gives exactly their frames back to the allocator, each once, and
  changes no byte outside these frames and the page tables.
\<close>

theorem deallocuvm_frees:
  assumes "um_wf s D ps" "KERNBASE < kend s" "newsz \<le> oldsz" "oldsz \<le> KERNBASE"
  shows "\<exists>t fs. deallocuvm D oldsz newsz s = Inr (newsz, t) \<and> shrunk D (PGROUNDUP newsz) oldsz s ps t fs \<and>
    distinct fs"
proof (cases "newsz = oldsz")
  case True
  have "oldsz \<le> PGROUNDUP oldsz"
  proof -
    have "unat oldsz \<le> 2 ^ 32 - 4096" using assms(4) by (simp add: word_le_nat_alt)
    then have u: "unat (PGROUNDUP oldsz) = (unat oldsz + 4095) div 4096 * 4096" by (rule unat_PGROUNDUP)
    show ?thesis using div_ceil [of "unat oldsz"] by (simp add: word_le_nat_alt u mult.commute)
  qed
  then have "shrunk D (PGROUNDUP newsz) oldsz s ps s []"
    using True by (intro shrunk_empty [OF assms(1)]) (meson leD le_less_trans)
  moreover have "deallocuvm D oldsz newsz s = Inr (newsz, s)" using True by (simp add: deallocuvm_def)
  ultimately show ?thesis by (metis distinct.simps(1))
next
  case False
  then have lt: "newsz < oldsz" using assms(3) by simp
  have fuel: "unat oldsz \<le> unat (PGROUNDUP newsz) + 4096 * Suc (unat oldsz div 4096)"
    using dividend_less_div_times [of 4096 "unat oldsz"] by simp
  obtain t fs where t: "deallocuvm_loop (Suc (unat oldsz div 4096)) D (PGROUNDUP newsz) oldsz s = Inr t"
    "shrunk D (PGROUNDUP newsz) oldsz s ps t fs"
    using deallocuvm_loop_shrinks [OF assms(1,2) aligned_round(4) assms(4) fuel] by blast
  have "um_wf t D (fs @ ps)" using t(2) by (simp add: shrunk_def)
  then have "distinct fs" by (auto dest!: um_wfD(1) pt_wf_D(4) simp: free_pages_def)
  then show ?thesis using t lt by (auto simp: deallocuvm_def not_le simp del: deallocuvm_loop.simps)
qed

definition one_page_mem :: mem where
  "one_page_mem = write32 (write32 (\<lambda>_. 0) 0x80400000 0x401007) 0x80401000 0x402007"

lemma one_page_pde: "unat i < 1024 \<Longrightarrow> pde_at one_page_mem 0x80400000 i = (if i = 0 then 0x401007 else 0)"
proof -
  assume i: "unat i < 1024"
  have D: "aligned 0x80400000" by (simp add: aligned_def)
  have "PGROUNDDOWN (0x80400000 + 4 * i) = 0x80400000" using entry_addr(1) [OF D i] .
  moreover have "PGROUNDDOWN 0x80401000 = 0x80401000" by (simp add: PGROUNDDOWN_def)
  ultimately have ne: "0x80401000 \<noteq> 0x80400000 + 4 * i" by auto
  have m4: "unat (0x80400000 + 4 * i) mod 4 = 0" using entry_addr(3) [OF D i] .
  have "pde_at one_page_mem 0x80400000 i = read32 (write32 (\<lambda>_. 0) 0x80400000 0x401007) (0x80400000 + 4 * i)"
    unfolding pde_at_def one_page_mem_def using ne m4 by (subst read32_write32_other) simp_all
  also have "\<dots> = (if i = 0 then 0x401007 else 0)"
  proof (cases "i = 0")
    case False
    have "unat (0x80400000 + 4 * i) \<noteq> unat (0x80400000 :: 32 word)"
      using False entry_addr(2) [OF D i] by (simp add: word_unat_eq_iff)
    then have "0x80400000 \<noteq> 0x80400000 + 4 * i" by metis
    with m4 False show ?thesis by (subst read32_write32_other) (simp_all add: read32_def)
  qed simp
  finally show ?thesis .
qed

lemma one_page_pte: "pte_at one_page_mem 0x80400000 va = (if PGROUNDDOWN va = 0 then 0x402007 else 0)"
proof -
  have T: "table_at one_page_mem 0x80400000 0 = 0x80401000"
    by (simp add: table_at_def one_page_pde PTE_ADDR_def P2V_def)
  have A: "aligned 0x80401000" by (simp add: aligned_def)
  have z: "PDX 0 = 0" "PTX 0 = 0" "PGROUNDDOWN 0 = 0" by (simp_all add: PDX_def PTX_def PGROUNDDOWN_def)
  have "read32 one_page_mem (0x80401000 + 4 * PTX va) = (if PTX va = 0 then 0x402007 else 0)"
  proof (cases "PTX va = 0")
    case False
    have "unat (0x80401000 + 4 * PTX va) \<noteq> unat (0x80401000 :: 32 word)"
      using False entry_addr(2) [OF A PTX_lt, of va] by (simp add: word_unat_eq_iff)
    then have 1: "0x80401000 \<noteq> 0x80401000 + 4 * PTX va" by metis
    have page_ne: "(0x80400000 :: 32 word) \<noteq> 0x80401000" by simp
    have "PGROUNDDOWN (0x80401000 + 4 * PTX va) = 0x80401000" using entry_addr(1) [OF A PTX_lt] .
    moreover have "PGROUNDDOWN 0x80400000 = 0x80400000" by (simp add: PGROUNDDOWN_def)
    ultimately have 2: "0x80400000 \<noteq> 0x80401000 + 4 * PTX va"
      using page_ne by metis
    have m4: "unat (0x80401000 + 4 * PTX va) mod 4 = 0" using entry_addr(3) [OF A PTX_lt] .
    show ?thesis using 1 2 m4 False
      by (simp add: one_page_mem_def read32_write32_other) (simp add: read32_def)
  qed (simp add: one_page_mem_def)
  then have "pte_at one_page_mem 0x80400000 va = (if PDX va = 0 \<and> PTX va = 0 then 0x402007 else 0)"
    using T by (simp add: pte_at_def one_page_pde slot_at_def present_def) (simp add: one_page_mem_def)
  also have "(PDX va = 0 \<and> PTX va = 0) = (PGROUNDDOWN va = 0)"
    using page_of_indices [of va 0] z by simp
  finally show ?thesis .
qed

theorem deallocuvm_frees_witness:
  "let s = \<lparr>pmem = one_page_mem, freelist = 0, use_lock = True, kend = 0x80115000, kdata = 0x80108000, kout = []\<rparr>
   in \<exists>t fs. deallocuvm 0x80400000 100 0 s = Inr (0, t) \<and> shrunk 0x80400000 0 100 s [] t fs \<and> distinct fs"
proof -
  let ?s = "\<lparr>pmem = one_page_mem, freelist = 0, use_lock = True, kend = 0x80115000, kdata = 0x80108000, kout = []\<rparr>"
  have up: "PGROUNDUP 0 = 0" by (simp add: PGROUNDUP_def)
  have T: "table_at one_page_mem 0x80400000 0 = 0x80401000"
    by (simp add: table_at_def one_page_pde PTE_ADDR_def P2V_def)
  have pg: "pt_pages one_page_mem 0x80400000 = {0x80400000, 0x80401000}"
  proof -
    have "{i. unat i < 1024 \<and> present (pde_at one_page_mem 0x80400000 i)} = {0}"
      by (auto simp: one_page_pde present_def split: if_splits)
    then show ?thesis by (simp add: pt_pages_def T)
  qed
  have "pt_wf ?s 0x80400000 []"
    using T by (auto simp: pt_wf_def free_pages_def page_ok_def aligned_def V2P_def one_page_pde split: if_splits)
  then have "um_wf ?s 0x80400000 []"
    unfolding um_wf_def by (simp add: one_page_pte frame_at_def PTE_ADDR_def P2V_def pg page_ok_def aligned_def V2P_def)
  from deallocuvm_frees [OF this, of 0 100] show ?thesis by (simp add: up)
qed

end
