(* ===== verification/Vm_Frames.thy ===== *)
theory Vm_Frames
  imports Vm
begin

text \<open>
  What the page allocator and the page-table code leave alone: everything of the machine but the
  memory, the free list and the console, whatever the state and on every branch. The operations
  on processes and files are built on these frames.

  \<open>keeps \<pi> s m\<close> says this of a computation \<open>m\<close> started after \<open>s\<close>, where \<open>\<pi>\<close> takes the state out of the
  result; the collection \<open>keeps\<close> has one rule per construct and per function, so that each frame
  lemma is proved by applying it along the definition.
\<close>

definition mem_only :: "'a phys_scheme \<Rightarrow> 'a phys_scheme \<Rightarrow> bool" where
  "mem_only s t =
     (use_lock t = use_lock s \<and> kend t = kend s \<and> kdata t = kdata s \<and> phys.more t = phys.more s)"

definition keeps :: "('r \<Rightarrow> 'a phys_scheme) \<Rightarrow> 'a phys_scheme \<Rightarrow> 'r res \<Rightarrow> bool" where
  "keeps p s m = (case m of Inl e \<Rightarrow> True | Inr x \<Rightarrow> mem_only s (p x))"

named_theorems keepI

lemma mem_only_refl [simp, keepI]: "mem_only s s"
  by (simp add: mem_only_def)

lemma mem_only_trans [trans]: "mem_only s t \<Longrightarrow> mem_only t u \<Longrightarrow> mem_only s u"
  by (simp add: mem_only_def)

lemma mem_only_pmem [keepI]: "mem_only s t \<Longrightarrow> mem_only s (t\<lparr>pmem := m\<rparr>)"
  by (simp add: mem_only_def)

lemma mem_only_freelist [keepI]: "mem_only s t \<Longrightarrow> mem_only s (t\<lparr>freelist := h\<rparr>)"
  by (simp add: mem_only_def)

lemma mem_only_cprintf [keepI]: "mem_only s t \<Longrightarrow> mem_only s (cprintf msg t)"
  by (simp add: mem_only_def cprintf_def)

lemma keeps_Inl [keepI]: "keeps p s (Inl e)"
  by (simp add: keeps_def)

lemma keeps_Inr [keepI]: "mem_only s (p x) \<Longrightarrow> keeps p s (Inr x)"
  by (simp add: keeps_def)

lemma keeps_Inr_pair [keepI]: "mem_only s t \<Longrightarrow> keeps snd s (Inr (x, t))"
  by (simp add: keeps_def)

lemma keeps_Inr_id [keepI]: "mem_only s t \<Longrightarrow> keeps (\<lambda>t. t) s (Inr t)"
  by (simp add: keeps_def)

lemma keeps_bind [keepI]:
  "keeps (\<lambda>t. t) s m \<Longrightarrow> (\<And>t. mem_only s t \<Longrightarrow> keeps p s (f t)) \<Longrightarrow> keeps p s (bindE m f)"
  by (cases m) (auto simp: keeps_def)

lemma keeps_bind_pair [keepI]:
  "keeps snd s m \<Longrightarrow> (\<And>x t. mem_only s t \<Longrightarrow> keeps p s (f x t)) \<Longrightarrow> keeps p s (bindE m (\<lambda>(x, t). f x t))"
  by (cases m) (auto simp: keeps_def)

lemma keeps_if [keepI]:
  "(c \<Longrightarrow> keeps p s a) \<Longrightarrow> (\<not> c \<Longrightarrow> keeps p s b) \<Longrightarrow> keeps p s (if c then a else b)"
  by simp

lemma keeps_kalloc [keepI]:
  "mem_only s t \<Longrightarrow> (\<And>q u. mem_only s u \<Longrightarrow> keeps p s (f q u)) \<Longrightarrow> keeps p s (case kalloc t of (q, u) \<Rightarrow> f q u)"
  by (auto simp: kalloc_def Let_def intro: mem_only_freelist)

lemma keepsD: "keeps p s (Inr x) \<Longrightarrow> mem_only s (p x)"
  by (simp add: keeps_def)

lemma keeps_foldE [keepI]:
  assumes "mem_only s t" "\<And>x t. x \<in> set xs \<Longrightarrow> mem_only s t \<Longrightarrow> keeps (\<lambda>t. t) s (f x t)"
  shows "keeps (\<lambda>t. t) s (foldE f xs t)"
proof (cases "foldE f xs t")
  case (Inr u)
  then have "mem_only s u"
  proof (rule foldE_invariant [of f xs t u "mem_only s"])
    fix x v w assume "x \<in> set xs" "mem_only s v" "f x v = Inr w"
    then show "mem_only s w" using assms(2) [of x v] by (simp add: keeps_def)
  qed (rule assms(1))
  then show ?thesis using Inr by (simp add: keeps_def)
qed (simp add: keeps_def)

section \<open>The allocator and the page tables\<close>

lemma keeps_kfree [keepI]: "mem_only s t \<Longrightarrow> keeps (\<lambda>t. t) s (kfree v t)"
  unfolding kfree_def Let_def by (intro keepI)

lemma mem_only_walkpgdir: "mem_only s t \<Longrightarrow> walkpgdir D va alloc t = (e, u) \<Longrightarrow> mem_only s u"
  by (auto simp: walkpgdir_def kalloc_def Let_def split: if_splits prod.splits
      intro: mem_only_pmem mem_only_freelist)

lemma keeps_walkpgdir [keepI]:
  "mem_only s t \<Longrightarrow> (\<And>e u. mem_only s u \<Longrightarrow> keeps p s (f e u)) \<Longrightarrow>
    keeps p s (case walkpgdir D va alloc t of (e, u) \<Rightarrow> f e u)"
  by (cases "walkpgdir D va alloc t") (auto intro: mem_only_walkpgdir)

lemma keeps_mappages_loop: "mem_only s t \<Longrightarrow> keeps snd s (mappages_loop k D a l pa perm t)"
proof (induction k arbitrary: a pa t)
  case (Suc k)
  then show ?case unfolding mappages_loop.simps Let_def by (intro keepI Suc.IH)
qed (simp add: keeps_def)

lemma keeps_mappages [keepI]: "mem_only s t \<Longrightarrow> keeps snd s (mappages D va n pa perm t)"
  unfolding mappages_def Let_def by (rule keeps_mappages_loop)

lemma keeps_deallocuvm_loop: "mem_only s t \<Longrightarrow> keeps (\<lambda>t. t) s (deallocuvm_loop k D a old t)"
proof (induction k arbitrary: a t)
  case (Suc k)
  then show ?case unfolding deallocuvm_loop.simps Let_def by (intro keepI Suc.IH)
qed (simp add: keeps_def)

lemma keeps_deallocuvm [keepI]: "mem_only s t \<Longrightarrow> keeps snd s (deallocuvm D old new t)"
  unfolding deallocuvm_def by (intro keepI keeps_deallocuvm_loop)

lemma keeps_freevm [keepI]: "mem_only s t \<Longrightarrow> keeps (\<lambda>t. t) s (freevm D t)"
  unfolding freevm_def freevm_entry_def Let_def by (intro keepI)

lemma keeps_map_kernel: "mem_only s t \<Longrightarrow> keeps snd s (map_kernel D ks t)"
proof (induction ks arbitrary: t)
  case (Cons k ks)
  then show ?case by (cases k) (simp only: map_kernel.simps, intro keepI Cons.IH)
qed (simp add: keeps_def)

lemma keeps_setupkvm [keepI]: "mem_only s t \<Longrightarrow> keeps snd s (setupkvm t)"
  unfolding setupkvm_def Let_def by (intro keepI keeps_map_kernel)

lemma keeps_inituvm [keepI]: "mem_only s t \<Longrightarrow> keeps (\<lambda>t. t) s (inituvm D i n t)"
  unfolding inituvm_def Let_def by (intro keepI)

lemma keeps_allocuvm_loop: "mem_only s t \<Longrightarrow> keeps snd s (allocuvm_loop k D a old new t)"
proof (induction k arbitrary: a t)
  case (Suc k)
  then show ?case unfolding allocuvm_loop.simps Let_def by (intro keepI Suc.IH)
qed (simp add: keeps_def)

lemma keeps_allocuvm [keepI]: "mem_only s t \<Longrightarrow> keeps snd s (allocuvm D old new t)"
  unfolding allocuvm_def by (intro keepI keeps_allocuvm_loop)

lemma keeps_copyuvm_loop: "mem_only s t \<Longrightarrow> keeps snd s (copyuvm_loop k D d i n t)"
proof (induction k arbitrary: i t)
  case (Suc k)
  then show ?case unfolding copyuvm_loop.simps Let_def by (intro keepI Suc.IH)
qed (simp add: keeps_def)

lemma keeps_copyuvm [keepI]: "mem_only s t \<Longrightarrow> keeps snd s (copyuvm D n t)"
  unfolding copyuvm_def by (intro keepI keeps_copyuvm_loop)

lemma keeps_clearpteu [keepI]: "mem_only s t \<Longrightarrow> keeps (\<lambda>t. t) s (clearpteu D va t)"
  unfolding clearpteu_def Let_def by (intro keepI)

lemma keeps_copyout [keepI]: "mem_only s t \<Longrightarrow> keeps snd s (copyout D va buf len t)"
proof (induction D va buf len t rule: copyout.induct)
  case (1 D va buf len t)
  show ?case
  proof (cases "len = 0 \<or> (\<exists>e. uva2ka D (PGROUNDDOWN va) t = Inl e) \<or> uva2ka D (PGROUNDDOWN va) t = Inr 0")
    case True
    then show ?thesis using 1(2) by (subst copyout.simps) (auto simp: keeps_def Let_def)
  next
    case False
    then obtain pa where pa: "uva2ka D (PGROUNDDOWN va) t = Inr pa" "pa \<noteq> 0" "len \<noteq> 0"
      by (cases "uva2ka D (PGROUNDDOWN va) t") auto
    show ?thesis using 1(1) [OF pa(3) refl pa(1,2) refl refl] 1(2) pa
      by (subst copyout.simps) (simp add: Let_def mem_only_pmem)
  qed
qed

text \<open>As facts about results.\<close>

lemma kfree_mem_only: "kfree v s = Inr t \<Longrightarrow> mem_only s t"
  using keeps_kfree [of s s v] by (simp add: keeps_def)

lemma freevm_mem_only: "freevm D s = Inr t \<Longrightarrow> mem_only s t"
  using keeps_freevm [of s s D] by (simp add: keeps_def)

lemma copyuvm_mem_only: "copyuvm D n s = Inr (r, t) \<Longrightarrow> mem_only s t"
  using keeps_copyuvm [of s s D n] by (simp add: keeps_def)

lemma allocuvm_mem_only: "allocuvm D old new s = Inr (r, t) \<Longrightarrow> mem_only s t"
  using keeps_allocuvm [of s s D old new] by (simp add: keeps_def)

lemma deallocuvm_mem_only: "deallocuvm D old new s = Inr (r, t) \<Longrightarrow> mem_only s t"
  using keeps_deallocuvm [of s s D old new] by (simp add: keeps_def)

lemma setupkvm_mem_only: "setupkvm s = Inr (r, t) \<Longrightarrow> mem_only s t"
  using keeps_setupkvm [of s s] by (simp add: keeps_def)

lemma inituvm_mem_only: "inituvm D i n s = Inr t \<Longrightarrow> mem_only s t"
  using keeps_inituvm [of s s D i n] by (simp add: keeps_def)

end
