(* ===== verification/Printf.thy ===== *)
theory Printf
  imports Clib
begin

text \<open>
  Formatted output: the kernel's \<open>printint\<close> and \<open>cprintf\<close> (\<open>console.c\<close>) and the user library's
  \<open>printint\<close> and \<open>printf\<close> (\<open>printf.c\<close>). An argument is the machine word or the string the
  directive reads; a directive without a matching argument reads whatever is on the stack, which
  is \<open>Fault\<close>. The output is the string of bytes given to \<open>consputc\<close> or \<open>putc\<close>.
\<close>

section \<open>Numbers\<close>

text \<open>The digits in the order they are stored in \<open>buf\<close>, lowest first; the bases used are 10 and 16.\<close>

function digit_loop :: "string \<Rightarrow> nat \<Rightarrow> nat \<Rightarrow> string" where
  "digit_loop digits base x =
     digits ! (x mod base) # (if x div base \<noteq> 0 \<and> 2 \<le> base then digit_loop digits base (x div base) else [])"
  by pat_completeness auto
termination
  by (relation "measure (\<lambda>(digits, base, x). x)")
    (simp_all, metis One_nat_def Suc_1 Suc_le_lessD div_less_dividend div_0 gr0I)

declare digit_loop.simps [simp del]

abbreviation lower_digits :: string where "lower_digits \<equiv> ''0123456789abcdef''"
abbreviation upper_digits :: string where "upper_digits \<equiv> ''0123456789ABCDEF''"

definition printint :: "32 word \<Rightarrow> nat \<Rightarrow> bool \<Rightarrow> string" where
  "printint xx base sign =
     (let sign = (sign \<and> sint xx < 0);
          x = (if sign then - xx else xx);
          buf = digit_loop lower_digits base (unat x);
          buf = (if sign then buf @ ''-'' else buf)
      in rev buf)"

definition user_printint :: "32 word \<Rightarrow> nat \<Rightarrow> bool \<Rightarrow> string" where
  "user_printint xx base sg =
     (let neg = (sg \<and> sint xx < 0);
          x = (if neg then - xx else xx);
          buf = digit_loop upper_digits base (unat x);
          buf = (if neg then buf @ ''-'' else buf)
      in rev buf)"

section \<open>Formats\<close>

datatype arg = Word "32 word" | Str "string option"

definition str_arg :: "string option \<Rightarrow> string" where
  "str_arg so = (case so of None \<Rightarrow> ''(null)'' | Some s \<Rightarrow> s)"

text \<open>One directive of \<open>cprintf\<close>, the character after \<open>%\<close>: what it prints and the arguments left.\<close>

definition cdirective :: "char \<Rightarrow> arg list \<Rightarrow> (string \<times> arg list) res" where
  "cdirective c args =
     (if c = CHR ''d'' then
        (case args of Word w # as \<Rightarrow> Inr (printint w 10 True, as) | _ \<Rightarrow> Inl (Fault ''missing argument''))
      else if c = CHR ''x'' \<or> c = CHR ''p'' then
        (case args of Word w # as \<Rightarrow> Inr (printint w 16 False, as) | _ \<Rightarrow> Inl (Fault ''missing argument''))
      else if c = CHR ''s'' then
        (case args of Str so # as \<Rightarrow> Inr (str_arg so, as) | _ \<Rightarrow> Inl (Fault ''missing argument''))
      else if c = CHR ''%'' then Inr (''%'', args)
      else Inr ([CHR ''%'', c], args))"

fun cprintf_fmt :: "string \<Rightarrow> arg list \<Rightarrow> string res" where
  "cprintf_fmt [] args = Inr []"
| "cprintf_fmt [c] args = Inr (if c = CHR ''%'' then [] else [c])"
| "cprintf_fmt (c # d # fmt) args =
     (if c \<noteq> CHR ''%'' then bindE (cprintf_fmt (d # fmt) args) (\<lambda>out. Inr (c # out))
      else bindE (cdirective d args) (\<lambda>(s, args). bindE (cprintf_fmt fmt args) (\<lambda>out. Inr (s @ out))))"

definition user_directive :: "char \<Rightarrow> arg list \<Rightarrow> (string \<times> arg list) res" where
  "user_directive c args =
     (if c = CHR ''d'' then
        (case args of Word w # as \<Rightarrow> Inr (user_printint w 10 True, as) | _ \<Rightarrow> Inl (Fault ''missing argument''))
      else if c = CHR ''x'' \<or> c = CHR ''p'' then
        (case args of Word w # as \<Rightarrow> Inr (user_printint w 16 False, as) | _ \<Rightarrow> Inl (Fault ''missing argument''))
      else if c = CHR ''s'' then
        (case args of Str so # as \<Rightarrow> Inr (str_arg so, as) | _ \<Rightarrow> Inl (Fault ''missing argument''))
      else if c = CHR ''c'' then
        (case args of Word w # as \<Rightarrow> Inr ([char_of (unat w)], as) | _ \<Rightarrow> Inl (Fault ''missing argument''))
      else if c = CHR ''%'' then Inr (''%'', args)
      else Inr ([CHR ''%'', c], args))"

text \<open>The loop of \<open>printf\<close>, with its variable \<open>state\<close>: a \<open>%\<close> has just been read.\<close>

fun printf_loop :: "bool \<Rightarrow> string \<Rightarrow> arg list \<Rightarrow> string res" where
  "printf_loop state [] ap = Inr []"
| "printf_loop state (c # fmt) ap =
     (if \<not> state then
        if c = CHR ''%'' then printf_loop True fmt ap
        else bindE (printf_loop False fmt ap) (\<lambda>out. Inr (c # out))
      else bindE (user_directive c ap) (\<lambda>(s, ap). bindE (printf_loop False fmt ap) (\<lambda>out. Inr (s @ out))))"

definition printf :: "string \<Rightarrow> arg list \<Rightarrow> string res" where
  "printf fmt ap = printf_loop False fmt ap"

section \<open>Decimal numbers are printed as such\<close>

lemma digit_loop_dec:
  assumes "\<And>d. d < 10 \<Longrightarrow> digits ! d = digit_char d"
  shows "digit_loop digits 10 x = rev (nat_dec x)"
proof (induction x rule: nat_dec.induct)
  case (1 x)
  then show ?case
    using assms by (subst digit_loop.simps, subst nat_dec.simps) (auto simp: not_less)
qed

lemma digits_dec: "d < 10 \<Longrightarrow> lower_digits ! d = digit_char d" "d < 10 \<Longrightarrow> upper_digits ! d = digit_char d"
proof -
  have c: "d = 0 \<or> d = 1 \<or> d = 2 \<or> d = 3 \<or> d = 4 \<or> d = 5 \<or> d = 6 \<or> d = 7 \<or> d = 8 \<or> d = 9" if "d < 10"
    using that by presburger
  show "d < 10 \<Longrightarrow> lower_digits ! d = digit_char d" "d < 10 \<Longrightarrow> upper_digits ! d = digit_char d"
    by (drule c; elim disjE; simp add: digit_char_def char_of_def bit_iff_odd)+
qed

lemma unat_uminus_neg: "sint (w :: 32 word) < 0 \<Longrightarrow> int (unat (- w)) = - sint w"
proof -
  assume neg: "sint w < 0"
  then have "w \<noteq> 0" by auto
  then have "uint w \<noteq> 0" by (simp add: uint_0_iff)
  then have "0 < uint w" using uint_ge_0 [of w] by linarith
  have "uint (- w) = (- uint w) mod 2 ^ 32" by (simp add: uint_word_ariths)
  also have "\<dots> = 2 ^ 32 - uint w"
    using uint_lt2p [of w] \<open>0 < uint w\<close> by (simp add: zmod_zminus1_eq_if)
  finally show ?thesis using neg uint_of_sint32 [of w] by simp
qed

lemma length_nat_dec: "0 < k \<Longrightarrow> n < 10 ^ k \<Longrightarrow> length (nat_dec n) \<le> k"
proof (induction k arbitrary: n)
  case (Suc k)
  show ?case
  proof (cases "n < 10")
    case False
    then have "0 < k" using Suc.prems by (cases k) auto
    moreover have "n div 10 < 10 ^ k" using Suc.prems by (simp add: div_less_iff_less_mult mult.commute)
    ultimately have "length (nat_dec (n div 10)) \<le> k" by (rule Suc.IH)
    with False show ?thesis by (simp add: nat_dec.simps [of n])
  qed (simp add: nat_dec.simps [of n])
qed simp

text \<open>
  \<open>%d\<close>, in the kernel's \<open>printint\<close> as in the user library's, prints the decimal numeral of the
  signed value of its argument, the least 32-bit integer included, in at most 11 of the 16
  bytes of \<open>buf\<close>.
\<close>

theorem printint_decimal:
  "printint w 10 True = int_dec (sint w) \<and> user_printint w 10 True = int_dec (sint w) \<and>
    length (printint w 10 True) \<le> 11"
proof -
  have abs: "nat (if sint w < 0 then - sint w else sint w) = unat (if sint w < 0 then - w else w)"
  proof (cases "sint w < 0")
    case True
    then show ?thesis using unat_uminus_neg by (simp add: flip: unat_uminus_neg)
  next
    case False
    then have "sint w = uint w" using uint_of_sint32 [of w] by simp
    then show ?thesis using False by simp
  qed
  have dec: "printint w 10 True = int_dec (sint w)" "user_printint w 10 True = int_dec (sint w)"
    using abs by (auto simp: printint_def user_printint_def int_dec_def Let_def digit_loop_dec digits_dec)
  have "length (nat_dec (unat v)) < 11" for v :: "32 word"
  proof -
    have "length (nat_dec (unat v)) \<le> 10"
      by (rule length_nat_dec) (use unsigned_less [of v, where ?'a = nat] in simp_all)
    then show ?thesis by simp
  qed
  then have "length (printint w 10 True) \<le> 11"
    by (auto simp: printint_def Let_def digit_loop_dec digits_dec Suc_le_eq less_imp_le)
  with dec show ?thesis by simp
qed

lemma printint_dec_eq: "printint w 10 True = user_printint w 10 True"
  by (simp add: printint_def user_printint_def Let_def digit_loop_dec digits_dec)

fun plain_format :: "string \<Rightarrow> bool" where
  "plain_format [] = True"
| "plain_format [c] = True"
| "plain_format (c # d # fmt) =
     (if c \<noteq> CHR ''%'' then plain_format (d # fmt) else d \<notin> {CHR ''x'', CHR ''p'', CHR ''c''} \<and> plain_format fmt)"

text \<open>
  \<open>printf\<close>'s state machine and \<open>cprintf\<close>'s two-character steps print the same for every format
  without the directives in which they differ (\<open>%x\<close> and \<open>%p\<close>, printed with upper-case digits by
  one and lower-case digits by the other, and \<open>%c\<close>), whatever the arguments, faults included.
\<close>

theorem printf_agrees_cprintf:
  "plain_format fmt \<Longrightarrow> printf fmt args = cprintf_fmt fmt args"
proof -
  have dir: "(user_directive d args) = (cdirective d args)"
    if "d \<notin> {CHR ''x'', CHR ''p'', CHR ''c''}" for d args
    using that printint_dec_eq by (auto simp: user_directive_def cdirective_def split: list.splits arg.splits)
  have "printf_loop False fmt args = cprintf_fmt fmt args"
    if "plain_format fmt" for fmt args
    using that
  proof (induction fmt args rule: cprintf_fmt.induct)
    case (3 c d fmt args)
    show ?case
    proof (cases "c = CHR ''%''")
      case True
      with 3(3) have d: "d \<notin> {CHR ''x'', CHR ''p'', CHR ''c''}" "plain_format fmt" by auto
      have ih: "cdirective d args = Inr (x, as) \<Longrightarrow> printf_loop False fmt as = cprintf_fmt fmt as" for x as
        using 3(2) [of "(x, as)" x as] True d(2) by simp
      show ?thesis using True dir [OF d(1), of args] ih by (cases "cdirective d args") auto
    next
      case False
      with 3(3) have "plain_format (d # fmt)" by simp
      from 3(1) [OF False this] False show ?thesis by (simp del: printf_loop.simps(2) add: printf_loop.simps(2) [of False c])
    qed
  qed simp_all
  then show "plain_format fmt \<Longrightarrow> printf fmt args = cprintf_fmt fmt args" by (simp add: printf_def)
qed

theorem printf_agrees_cprintf_witness:
  "plain_format ''%s: %d%%'' \<and> printf ''%s: %d%%'' [Str None, Word 7] = cprintf_fmt ''%s: %d%%'' [Str None, Word 7]"
proof
  show f: "plain_format ''%s: %d%%''" by simp
  show "printf ''%s: %d%%'' [Str None, Word 7] = cprintf_fmt ''%s: %d%%'' [Str None, Word 7]"
    by (rule printf_agrees_cprintf [OF f])
qed

end
