(* ===== verification/Proc.thy ===== *)
theory Proc
  imports Vm_Frames Printf
begin

text \<open>
  Processes, \<open>proc.c\<close>: the process table, allocation of a slot with its kernel stack, memory
  growth, the tickets scheduler, sleep and wakeup, kill, wait and the process statistics.
  \<open>fork\<close>, \<open>exit\<close> and \<open>userinit\<close>, which also use files, are in \<open>Process\<close>. Pointers into the table
  are slot indices. Every operation runs under \<open>ptable.lock\<close> where the code takes it, so it is
  one atomic step here. The machine has one CPU; \<open>swtch\<close>, the context switch, is a parameter of
  the scheduler: what the chosen process does until it switches back.
\<close>

section \<open>State\<close>

datatype procstate = UNUSED | EMBRYO | SLEEPING | RUNNABLE | RUNNING | ZOMBIE

record proc =
  p_sz :: "32 word"
  p_pgdir :: "32 word"
  p_kstack :: "32 word"
  p_state :: procstate
  p_pid :: int
  p_parent :: "nat option"
  p_tf :: "32 word"
  p_context :: "32 word"
  p_chan :: "chan option"
  p_killed :: bool
  p_ofile :: "nat option list"
  p_cwd :: "nat option"
  p_name :: string
  p_tickets :: int
  p_ticksAcc :: int
  p_inuse :: int

abbreviation NPROC :: nat where "NPROC \<equiv> 64"
abbreviation NOFILE :: nat where "NOFILE \<equiv> 16"

record kern = phys +
  procs :: "proc list"
  cur :: "nat option"
  initproc :: "nat option"
  nextpid :: int
  ticks :: "32 word"
  kpgdir :: "32 word"
  cr3 :: "32 word"
  esp0 :: "32 word"
  forkret_at :: "32 word"
  trapret_at :: "32 word"

definition upd_proc :: "nat \<Rightarrow> (proc \<Rightarrow> proc) \<Rightarrow> 'a kern_scheme \<Rightarrow> 'a kern_scheme" where
  "upd_proc i f s = s\<lparr>procs := (procs s)[i := f (procs s ! i)]\<rparr>"

section \<open>Page tables of processes\<close>

definition switchkvm :: "'a kern_scheme \<Rightarrow> 'a kern_scheme" where
  "switchkvm s = s\<lparr>cr3 := V2P (kpgdir s)\<rparr>"

definition kvmalloc :: "'a kern_scheme \<Rightarrow> 'a kern_scheme res" where
  "kvmalloc s = bindE (setupkvm s) (\<lambda>(d, s). Inr (switchkvm (s\<lparr>kpgdir := d\<rparr>)))"

definition switchuvm :: "nat option \<Rightarrow> 'a kern_scheme \<Rightarrow> 'a kern_scheme res" where
  "switchuvm po s =
     (case po of None \<Rightarrow> Inl (Panic ''switchuvm: no process'')
      | Some i \<Rightarrow>
        let p = procs s ! i
        in if p_kstack p = 0 then Inl (Panic ''switchuvm: no kstack'')
           else if p_pgdir p = 0 then Inl (Panic ''switchuvm: no pgdir'')
           else Inr (s\<lparr>esp0 := p_kstack p + 4096, cr3 := V2P (p_pgdir p)\<rparr>))"

section \<open>Slots\<close>

definition allocproc :: "'a kern_scheme \<Rightarrow> nat option \<times> 'a kern_scheme" where
  "allocproc s =
     (case first_idx (\<lambda>p. p_state p = UNUSED) (procs s) of
        None \<Rightarrow> (None, s)
      | Some i \<Rightarrow>
        let s = upd_proc i (\<lambda>p. p\<lparr>p_state := EMBRYO, p_pid := nextpid s, p_tickets := 1, p_ticksAcc := 0,
              p_inuse := 0\<rparr>) s;
            s = s\<lparr>nextpid := nextpid s + 1\<rparr>
        in case kalloc s of (k, s) \<Rightarrow>
             let s = upd_proc i (\<lambda>p. p\<lparr>p_kstack := k\<rparr>) s
             in if k = 0 then (None, upd_proc i (\<lambda>p. p\<lparr>p_state := UNUSED\<rparr>) s)
                else
                  let tf = k + 4096 - 76;
                      s = upd_proc i (\<lambda>p. p\<lparr>p_tf := tf\<rparr>) s;
                      sp = tf - 4;
                      s = s\<lparr>pmem := write32 (pmem s) sp (trapret_at s)\<rparr>;
                      sp = sp - 20;
                      s = upd_proc i (\<lambda>p. p\<lparr>p_context := sp\<rparr>) s;
                      s = s\<lparr>pmem := memset (pmem s) sp 0 20\<rparr>;
                      s = s\<lparr>pmem := write32 (pmem s) (sp + 16) (forkret_at s)\<rparr>
                  in (Some i, s))"

definition growproc :: "32 word \<Rightarrow> 'a kern_scheme \<Rightarrow> (int \<times> 'a kern_scheme) res" where
  "growproc n s =
     (case cur s of None \<Rightarrow> Inl (Fault ''growproc: no process'')
      | Some i \<Rightarrow>
        let sz = p_sz (procs s ! i); pgdir = p_pgdir (procs s ! i);
            finish = (\<lambda>(sz, s). bindE (switchuvm (Some i) (upd_proc i (\<lambda>p. p\<lparr>p_sz := sz\<rparr>) s)) (\<lambda>s. Inr (0, s)))
        in if 0 <s n then
             bindE (allocuvm pgdir sz (sz + n) s) (\<lambda>(sz, s). if sz = 0 then Inr (-1, s) else finish (sz, s))
           else if n <s 0 then
             bindE (deallocuvm pgdir sz (sz + n) s) (\<lambda>(sz, s). if sz = 0 then Inr (-1, s) else finish (sz, s))
           else finish (sz, s))"

section \<open>Sleep, wakeup, kill\<close>

definition wakeup1 :: "chan \<Rightarrow> 'a kern_scheme \<Rightarrow> 'a kern_scheme" where
  "wakeup1 ch s = s\<lparr>procs := map (\<lambda>p. if p_state p = SLEEPING \<and> p_chan p = Some ch
      then p\<lparr>p_state := RUNNABLE\<rparr> else p) (procs s)\<rparr>"

definition wakeup :: "chan \<Rightarrow> 'a kern_scheme \<Rightarrow> 'a kern_scheme" where
  "wakeup ch s = wakeup1 ch s"

text \<open>Going to sleep, up to the switch to the scheduler, and what is done after it.\<close>

definition sleep_on :: "chan \<Rightarrow> 'a kern_scheme \<Rightarrow> 'a kern_scheme res" where
  "sleep_on ch s =
     (case cur s of None \<Rightarrow> Inl (Panic ''sleep'')
      | Some i \<Rightarrow> Inr (upd_proc i (\<lambda>p. p\<lparr>p_chan := Some ch, p_state := SLEEPING\<rparr>) s))"

definition sleep_return :: "'a kern_scheme \<Rightarrow> 'a kern_scheme" where
  "sleep_return s = (case cur s of None \<Rightarrow> s | Some i \<Rightarrow> upd_proc i (\<lambda>p. p\<lparr>p_chan := None\<rparr>) s)"

definition yield :: "'a kern_scheme \<Rightarrow> 'a kern_scheme res" where
  "yield s =
     (case cur s of None \<Rightarrow> Inl (Fault ''yield: no process'')
      | Some i \<Rightarrow> Inr (upd_proc i (\<lambda>p. p\<lparr>p_state := RUNNABLE\<rparr>) s))"

definition kill :: "int \<Rightarrow> 'a kern_scheme \<Rightarrow> int \<times> 'a kern_scheme" where
  "kill pid s =
     (case first_idx (\<lambda>p. p_pid p = pid) (procs s) of
        None \<Rightarrow> (-1, s)
      | Some i \<Rightarrow> (0, upd_proc i (\<lambda>p. p\<lparr>p_killed := True,
            p_state := if p_state p = SLEEPING then RUNNABLE else p_state p\<rparr>) s))"

text \<open>One pass of the loop in \<open>wait\<close>: the pid of the reaped child, \<open>-1\<close>, or (\<open>None\<close>) the caller
  now sleeps and will make another pass.\<close>

fun wait_scan :: "nat \<Rightarrow> nat \<Rightarrow> proc list \<Rightarrow> bool \<Rightarrow> nat option \<times> bool" where
  "wait_scan c i [] kids = (None, kids)"
| "wait_scan c i (p # ps) kids =
     (if p_parent p \<noteq> Some c then wait_scan c (Suc i) ps kids
      else if p_state p = ZOMBIE then (Some i, True) else wait_scan c (Suc i) ps True)"

definition wait_pass :: "'a kern_scheme \<Rightarrow> (int option \<times> 'a kern_scheme) res" where
  "wait_pass s =
     (case cur s of None \<Rightarrow> Inl (Fault ''wait: no process'')
      | Some c \<Rightarrow>
        (case wait_scan c 0 (procs s) False of
           (Some i, _) \<Rightarrow>
             let pid = p_pid (procs s ! i)
             in bindE (kfree (p_kstack (procs s ! i)) s) (\<lambda>s.
                let s = upd_proc i (\<lambda>p. p\<lparr>p_kstack := 0\<rparr>) s
                in bindE (freevm (p_pgdir (procs s ! i)) s) (\<lambda>s.
                   Inr (Some pid, upd_proc i (\<lambda>p. p\<lparr>p_pid := 0, p_parent := None, p_name := [],
                     p_killed := False, p_state := UNUSED\<rparr>) s)))
         | (None, havekids) \<Rightarrow>
             if \<not> havekids \<or> p_killed (procs s ! c) then Inr (Some (-1), s)
             else bindE (sleep_on (AtProc c) s) (\<lambda>s. Inr (None, s))))"

section \<open>The scheduler\<close>

text \<open>\<open>run_slices\<close> is the inner loop: the chosen process \<open>p\<close> runs for as many slices in a row as it
  has tickets, as long as it comes back runnable.\<close>

fun run_slices :: "nat \<Rightarrow> (nat \<Rightarrow> 'a kern_scheme \<Rightarrow> 'a kern_scheme res) \<Rightarrow> nat \<Rightarrow> int \<Rightarrow> 'a kern_scheme \<Rightarrow>
    'a kern_scheme res" where
  "run_slices fuel swtch p i s =
     (if i \<le> p_tickets (procs s ! p) \<and> p_state (procs s ! p) = RUNNABLE then
        case fuel of 0 \<Rightarrow> Inl NoFuel
        | Suc k \<Rightarrow>
          let s = upd_proc p (\<lambda>q. q\<lparr>p_state := RUNNING, p_inuse := 1, p_ticksAcc := to_int32 (p_ticksAcc q + 1)\<rparr>) s
          in bindE (swtch p s) (run_slices k swtch p (to_int32 (i + 1)))
      else Inr s)"

definition schedule_proc :: "nat \<Rightarrow> (nat \<Rightarrow> 'a kern_scheme \<Rightarrow> 'a kern_scheme res) \<Rightarrow> nat \<Rightarrow> 'a kern_scheme \<Rightarrow>
    'a kern_scheme res" where
  "schedule_proc fuel swtch p s =
     (if p_state (procs s ! p) \<noteq> RUNNABLE then Inr s
      else
        let s = s\<lparr>cur := Some p\<rparr>
        in bindE (switchuvm (Some p) s) (\<lambda>s.
           bindE (run_slices fuel swtch p 1 s) (\<lambda>s. Inr ((switchkvm s)\<lparr>cur := None\<rparr>))))"

definition scheduler_round :: "nat \<Rightarrow> (nat \<Rightarrow> 'a kern_scheme \<Rightarrow> 'a kern_scheme res) \<Rightarrow> 'a kern_scheme \<Rightarrow>
    'a kern_scheme res" where
  "scheduler_round fuel swtch s = foldE (schedule_proc fuel swtch) [0..<length (procs s)] s"

definition scheduler :: "nat \<Rightarrow> nat \<Rightarrow> (nat \<Rightarrow> 'a kern_scheme \<Rightarrow> 'a kern_scheme res) \<Rightarrow> 'a kern_scheme \<Rightarrow>
    'a kern_scheme res" where
  "scheduler rounds fuel swtch s =
     foldE (\<lambda>_. scheduler_round fuel swtch) [0..<rounds] (s\<lparr>cur := None\<rparr>)"

section \<open>User memory\<close>

text \<open>A kernel access to an address goes through the page table of the current process. Below
  \<open>KERNBASE\<close> it faults when the page is not present, or not writable for a store (the kernel runs
  with write protection on; \<open>PTE_U\<close> is not checked in kernel mode), and a page fault taken in the
  kernel ends in \<open>panic("trap")\<close>.\<close>

definition user_ref :: "bool \<Rightarrow> 32 word \<Rightarrow> 'a kern_scheme \<Rightarrow> 32 word res" where
  "user_ref wr a s =
     (if a \<ge> KERNBASE then Inr a
      else case cur s of None \<Rightarrow> Inl (Panic ''trap'')
      | Some i \<Rightarrow>
        let pte = fst (walkpgdir (p_pgdir (procs s ! i)) a False s); w = read32 (pmem s) pte
        in if pte = 0 \<or> w AND PTE_P = 0 \<or> (wr \<and> w AND PTE_W = 0) then Inl (Panic ''trap'')
           else Inr (P2V (PTE_ADDR w) + (a AND 0xFFF)))"

definition uload8 :: "32 word \<Rightarrow> 'a kern_scheme \<Rightarrow> 8 word res" where
  "uload8 a s = bindE (user_ref False a s) (\<lambda>k. Inr (pmem s k))"

definition ustore8 :: "32 word \<Rightarrow> 8 word \<Rightarrow> 'a kern_scheme \<Rightarrow> 'a kern_scheme res" where
  "ustore8 a b s = bindE (user_ref True a s) (\<lambda>k. Inr (s\<lparr>pmem := (pmem s)(k := b)\<rparr>))"

fun uloads :: "32 word \<Rightarrow> nat \<Rightarrow> 'a kern_scheme \<Rightarrow> 8 word list res" where
  "uloads a 0 s = Inr []"
| "uloads a (Suc n) s = bindE (uload8 a s) (\<lambda>b. bindE (uloads (a + 1) n s) (\<lambda>bs. Inr (b # bs)))"

fun ustores :: "32 word \<Rightarrow> 8 word list \<Rightarrow> 'a kern_scheme \<Rightarrow> 'a kern_scheme res" where
  "ustores a [] s = Inr s"
| "ustores a (b # bs) s = bindE (ustore8 a b s) (ustores (a + 1) bs)"

definition word_bytes :: "32 word \<Rightarrow> 8 word list" where
  "word_bytes w = [ucast w, ucast (drop_bit 8 w), ucast (drop_bit 16 w), ucast (drop_bit 24 w)]"

definition bytes_word :: "8 word list \<Rightarrow> 32 word" where
  "bytes_word bs = ucast (bs ! 0) OR push_bit 8 (ucast (bs ! 1)) OR push_bit 16 (ucast (bs ! 2)) OR
     push_bit 24 (ucast (bs ! 3))"

definition uload32 :: "32 word \<Rightarrow> 'a kern_scheme \<Rightarrow> 32 word res" where
  "uload32 a s = bindE (uloads a 4 s) (\<lambda>bs. Inr (bytes_word bs))"

definition ustore32 :: "32 word \<Rightarrow> 32 word \<Rightarrow> 'a kern_scheme \<Rightarrow> 'a kern_scheme res" where
  "ustore32 a w s = ustores a (word_bytes w) s"

section \<open>Process statistics\<close>

text \<open>\<open>fill\<close> writes a \<open>struct pstat\<close>: four arrays of \<open>NPROC\<close> words, in the order \<open>inuse\<close>, \<open>tickets\<close>,
  \<open>pid\<close>, \<open>ticks\<close>.\<close>

definition fill_entry :: "32 word \<Rightarrow> nat \<Rightarrow> 'a kern_scheme \<Rightarrow> 'a kern_scheme res" where
  "fill_entry st i s =
     (let p = procs s ! i; at = (\<lambda>base. st + of_nat (base + 4 * i))
      in bindE (ustore32 (at 512) (word_of_int (p_pid p)) s) (\<lambda>s.
         bindE (ustore32 (at 256) (word_of_int (p_tickets p)) s) (\<lambda>s.
         bindE (ustore32 (at 0) (word_of_int (p_inuse p)) s) (\<lambda>s.
         ustore32 (at 768) (word_of_int (p_ticksAcc p)) s))))"

definition fill_pstat :: "32 word \<Rightarrow> 'a kern_scheme \<Rightarrow> (int \<times> 'a kern_scheme) res" where
  "fill_pstat st s = bindE (foldE (fill_entry st) [0..<length (procs s)] s) (\<lambda>s. Inr (0, s))"

section \<open>The table\<close>

lemma mem_only_procs:
  "mem_only s t \<Longrightarrow> procs t = procs s" "mem_only s t \<Longrightarrow> cur t = cur s" "mem_only s t \<Longrightarrow> nextpid t = nextpid s"
  "mem_only s t \<Longrightarrow> initproc t = initproc s" "mem_only s t \<Longrightarrow> ticks t = ticks s" "mem_only s t \<Longrightarrow> kpgdir t = kpgdir s"
  by (cases s; cases t; simp add: mem_only_def)+

lemma upd_proc_simps [simp]:
  "length (procs (upd_proc i f s)) = length (procs s)"
  "i < length (procs s) \<Longrightarrow> procs (upd_proc i f s) ! i = f (procs s ! i)"
  "j \<noteq> i \<Longrightarrow> procs (upd_proc i f s) ! j = procs s ! j"
  "cur (upd_proc i f s) = cur s" "pmem (upd_proc i f s) = pmem s" "nextpid (upd_proc i f s) = nextpid s"
  "kpgdir (upd_proc i f s) = kpgdir s"
  by (simp_all add: upd_proc_def)

lemma wakeup1_nth:
  "i < length (procs s) \<Longrightarrow> procs (wakeup1 ch s) ! i =
     (if p_state (procs s ! i) = SLEEPING \<and> p_chan (procs s ! i) = Some ch
      then (procs s ! i)\<lparr>p_state := RUNNABLE\<rparr> else procs s ! i)"
  by (simp add: wakeup1_def)

section \<open>Tickets\<close>

text \<open>
  To say in which order processes run, the state is extended by a list of the processes switched to, and
  \<open>logged swtch\<close> is a switch that writes it; the kernel does not read it.
\<close>

record slog = kern +
  switches :: "nat list"

definition logged :: "(nat \<Rightarrow> 'a slog_scheme \<Rightarrow> 'a slog_scheme res) \<Rightarrow> nat \<Rightarrow> 'a slog_scheme \<Rightarrow> 'a slog_scheme res" where
  "logged swtch p s = swtch p (s\<lparr>switches := switches s @ [p]\<rparr>)"

text \<open>The processes that can run: what \<open>switchuvm\<close> asks for is there, and the inner loop ends within its fuel.\<close>

definition can_run :: "nat \<Rightarrow> 'a kern_scheme \<Rightarrow> bool" where
  "can_run fuel s \<longleftrightarrow> (\<forall>q < length (procs s). p_state (procs s ! q) \<in> {RUNNABLE, RUNNING} \<longrightarrow>
     p_kstack (procs s ! q) \<noteq> 0 \<and> p_pgdir (procs s ! q) \<noteq> 0 \<and> p_tickets (procs s ! q) \<le> int fuel)"

lemma can_run_update:
  assumes "can_run fuel s" "p < length (procs s)"
    "p_state (f (procs s ! p)) \<in> {RUNNABLE, RUNNING} \<Longrightarrow>
       p_kstack (f (procs s ! p)) \<noteq> 0 \<and> p_pgdir (f (procs s ! p)) \<noteq> 0 \<and> p_tickets (f (procs s ! p)) \<le> int fuel"
  shows "can_run fuel (upd_proc p f s)"
  using assms unfolding can_run_def upd_proc_def by (simp add: nth_list_update)

lemma can_run_same_procs: "procs t = procs s \<Longrightarrow> can_run fuel t = can_run fuel s"
  by (simp add: can_run_def)

text \<open>The slices of one visit, from the loop index \<open>i\<close> on: \<open>k\<close> of them.\<close>

definition slices_are :: "nat \<Rightarrow> nat \<Rightarrow> nat \<Rightarrow> nat \<Rightarrow> 'a slog_scheme \<Rightarrow> 'a slog_scheme \<Rightarrow> bool" where
  "slices_are fuel p n k s t \<longleftrightarrow> can_run fuel t \<and> length (procs t) = length (procs s) \<and>
     switches t = switches s @ replicate k p \<and> k \<le> n \<and>
     (word_of_int (p_ticksAcc (procs t ! p)) :: 32 word) = word_of_int (p_ticksAcc (procs s ! p)) + of_nat k \<and>
     (k < n \<longrightarrow> p_state (procs t ! p) \<noteq> RUNNABLE)"

text \<open>A visit of the scan to \<open>p\<close>, with \<open>k\<close> slices.\<close>

definition visited :: "nat \<Rightarrow> nat \<Rightarrow> nat \<Rightarrow> 'a slog_scheme \<Rightarrow> 'a slog_scheme \<Rightarrow> bool" where
  "visited fuel p k s t \<longleftrightarrow>
     (if p_state (procs s ! p) = RUNNABLE then slices_are fuel p (nat (p_tickets (procs s ! p))) k s t else k = 0 \<and> t = s)"

text \<open>
  What a slice is: the process \<open>p\<close> that is running comes back to the scheduler of the same CPU, in any state
  (yielded, asleep, a zombie). It may change everything, in particular wake, create or reap other processes, but
  its own tickets and its own count, and it leaves processes that can run.
\<close>

lemma slice_step:
  "i \<le> p_tickets (procs s ! p) \<Longrightarrow> p_state (procs s ! p) = RUNNABLE \<Longrightarrow> run_slices (Suc k) swtch p i s =
     bindE (swtch p (upd_proc p (\<lambda>q. q\<lparr>p_state := RUNNING, p_inuse := 1, p_ticksAcc := to_int32 (p_ticksAcc q + 1)\<rparr>) s))
       (run_slices k swtch p (to_int32 (i + 1)))"
  by (simp add: Let_def)

lemma slice_end: "p_tickets (procs s ! p) < i \<or> p_state (procs s ! p) \<noteq> RUNNABLE \<Longrightarrow> run_slices n swtch p i s = Inr s"
  by (auto simp: run_slices.simps)

locale timeslice =
  fixes fuel :: nat and swtch :: "nat \<Rightarrow> 'a slog_scheme \<Rightarrow> 'a slog_scheme res"
  assumes comes_back: "p < length (procs s) \<Longrightarrow> cur s = Some p \<Longrightarrow> p_state (procs s ! p) = RUNNING \<Longrightarrow> can_run fuel s \<Longrightarrow>
    \<exists>t. swtch p s = Inr t \<and> can_run fuel t \<and> cur t = Some p \<and> length (procs t) = length (procs s) \<and>
      switches t = switches s \<and> p_tickets (procs t ! p) = p_tickets (procs s ! p) \<and>
      p_ticksAcc (procs t ! p) = p_ticksAcc (procs s ! p)"
    and small: "fuel < 2 ^ 31 - 1"
begin

lemma slices:
  assumes "p < length (procs s)" "cur s = Some p" "can_run fuel s" "1 \<le> i" "p_tickets (procs s ! p) \<le> int fuel"
    "nat (p_tickets (procs s ! p) + 1 - i) \<le> n"
  shows "\<exists>t k. run_slices n (logged swtch) p i s = Inr t \<and>
    slices_are fuel p (nat (p_tickets (procs s ! p) + 1 - i)) k s t"
  using assms
proof (induction n arbitrary: i s)
  case 0
  then have "\<not> i \<le> p_tickets (procs s ! p)" by simp
  with 0 show ?case by (auto simp: slices_are_def intro!: exI [of _ 0])
next
  case (Suc m)
  show ?case
  proof (cases "i \<le> p_tickets (procs s ! p) \<and> p_state (procs s ! p) = RUNNABLE")
    case False
    with Suc.prems show ?thesis by (auto simp: slices_are_def intro!: exI [of _ 0])
  next
    case True
    let ?f = "\<lambda>q. q\<lparr>p_state := RUNNING, p_inuse := 1, p_ticksAcc := to_int32 (p_ticksAcc q + 1)\<rparr>"
    let ?u = "upd_proc p ?f s" and ?w = "(upd_proc p ?f s)\<lparr>switches := switches (upd_proc p ?f s) @ [p]\<rparr>"
    have "can_run fuel ?u"
      using Suc.prems(1,3) True by (intro can_run_update) (auto simp: can_run_def)
    then have r: "can_run fuel ?w" by (simp add: can_run_same_procs [of ?w ?u])
    have "p < length (procs ?w)" "cur ?w = Some p" "p_state (procs ?w ! p) = RUNNING" using Suc.prems by simp_all
    from comes_back [OF this r] obtain t where t: "swtch p ?w = Inr t" "can_run fuel t" "cur t = Some p"
      "length (procs t) = length (procs s)" "switches t = switches s @ [p]"
      "p_tickets (procs t ! p) = p_tickets (procs s ! p)"
      "p_ticksAcc (procs t ! p) = to_int32 (p_ticksAcc (procs s ! p) + 1)"
      using Suc.prems(1) by (auto simp: upd_proc_def)
    have i: "to_int32 (i + 1) = i + 1"
      using Suc.prems(4,5) True small by (intro to_int32_id) (simp add: int32_range_def)
    have n: "nat (p_tickets (procs s ! p) + 1 - i) = Suc (nat (p_tickets (procs t ! p) + 1 - (i + 1)))"
      unfolding t(6) using True by linarith
    have "\<exists>v k. run_slices m (logged swtch) p (i + 1) t = Inr v \<and>
        slices_are fuel p (nat (p_tickets (procs t ! p) + 1 - (i + 1))) k t v"
      by (rule Suc.IH) (use t Suc.prems n in auto)
    then obtain v k where v: "run_slices m (logged swtch) p (i + 1) t = Inr v"
      "slices_are fuel p (nat (p_tickets (procs t ! p) + 1 - (i + 1))) k t v" by blast
    have "run_slices (Suc m) (logged swtch) p i s = Inr v"
      using True v(1) t(1) i by (simp add: logged_def Let_def)
    moreover have "(word_of_int (p_ticksAcc (procs t ! p)) :: 32 word) = word_of_int (p_ticksAcc (procs s ! p)) + 1"
      by (simp add: t(7) to_int32_def)
    then have "slices_are fuel p (nat (p_tickets (procs s ! p) + 1 - i)) (Suc k) s v"
      using v(2) t(4,5) unfolding n slices_are_def by simp
    ultimately show ?thesis by blast
  qed
qed

lemma visit:
  assumes "p < length (procs s)" "can_run fuel s"
  shows "\<exists>t k. schedule_proc fuel (logged swtch) p s = Inr t \<and> can_run fuel t \<and> length (procs t) = length (procs s) \<and>
    switches t = switches s @ replicate k p \<and> visited fuel p k s t"
proof (cases "p_state (procs s ! p) = RUNNABLE")
  case False
  with assms(2) show ?thesis by (intro exI [of _ s] exI [of _ 0]) (simp add: schedule_proc_def visited_def)
next
  case True
  let ?u = "s\<lparr>cur := Some p, esp0 := p_kstack (procs s ! p) + 4096, cr3 := V2P (p_pgdir (procs s ! p))\<rparr>"
  have ok: "p_kstack (procs s ! p) \<noteq> 0" "p_pgdir (procs s ! p) \<noteq> 0" "p_tickets (procs s ! p) \<le> int fuel"
    using assms True by (auto simp: can_run_def)
  have "can_run fuel ?u" using assms(2) by (simp add: can_run_same_procs [of ?u s])
  then have "\<exists>t k. run_slices fuel (logged swtch) p 1 ?u = Inr t \<and>
      slices_are fuel p (nat (p_tickets (procs ?u ! p) + 1 - 1)) k ?u t"
    using assms(1) ok(3) by (intro slices) auto
  then obtain t k where t: "run_slices fuel (logged swtch) p 1 ?u = Inr t"
    "slices_are fuel p (nat (p_tickets (procs s ! p))) k s t" by (auto simp: slices_are_def)
  let ?v = "(switchkvm t)\<lparr>cur := None\<rparr>"
  have "slices_are fuel p (nat (p_tickets (procs s ! p))) k s ?v"
    using t(2) can_run_same_procs [of ?v t] by (simp add: slices_are_def switchkvm_def)
  moreover have "schedule_proc fuel (logged swtch) p s = Inr ?v"
    using True ok t(1) by (simp add: schedule_proc_def switchuvm_def Let_def)
  ultimately show ?thesis using True
    by (intro exI [of _ ?v] exI [of _ k]) (simp add: visited_def, simp add: slices_are_def)
qed

lemma scan:
  assumes "n \<le> length (procs s)" "can_run fuel s"
  shows "\<exists>t k. foldE (schedule_proc fuel (logged swtch)) [0..<n] s = Inr t \<and> can_run fuel t \<and>
    length (procs t) = length (procs s) \<and>
    switches t = switches s @ concat (map (\<lambda>p. replicate (k p) p) [0..<n]) \<and>
    (\<forall>p < n. \<exists>u v. foldE (schedule_proc fuel (logged swtch)) [0..<p] s = Inr u \<and>
       schedule_proc fuel (logged swtch) p u = Inr v \<and> visited fuel p (k p) u v)"
  using assms(1)
proof (induction n)
  case 0
  with assms(2) show ?case by simp
next
  case (Suc n)
  then obtain t k where t: "foldE (schedule_proc fuel (logged swtch)) [0..<n] s = Inr t" "can_run fuel t"
    "length (procs t) = length (procs s)"
    "switches t = switches s @ concat (map (\<lambda>p. replicate (k p) p) [0..<n])"
    "\<forall>p < n. \<exists>u v. foldE (schedule_proc fuel (logged swtch)) [0..<p] s = Inr u \<and>
       schedule_proc fuel (logged swtch) p u = Inr v \<and> visited fuel p (k p) u v" by auto
  have "n < length (procs t)" using Suc.prems t(3) by simp
  from visit [OF this t(2)] obtain v j where v: "schedule_proc fuel (logged swtch) n t = Inr v" "can_run fuel v"
    "length (procs v) = length (procs t)" "switches v = switches t @ replicate j n" "visited fuel n j t v" by blast
  let ?k = "k(n := j)"
  have "map (\<lambda>p. replicate (?k p) p) [0..<n] = map (\<lambda>p. replicate (k p) p) [0..<n]"
    by (rule map_cong) auto
  moreover have "concat (map f [0..<Suc n]) = concat (map f [0..<n]) @ f n" for f :: "nat \<Rightarrow> nat list" by simp
  ultimately have "concat (map (\<lambda>p. replicate (?k p) p) [0..<Suc n]) =
      concat (map (\<lambda>p. replicate (k p) p) [0..<n]) @ replicate j n" by (simp only: fun_upd_same)
  moreover have "\<exists>u v. foldE (schedule_proc fuel (logged swtch)) [0..<p] s = Inr u \<and>
       schedule_proc fuel (logged swtch) p u = Inr v \<and> visited fuel p (?k p) u v" if "p < Suc n" for p
    using t(1,5) v(1,5) that by (cases "p = n") auto
  ultimately show ?case using t v
    by (intro exI [of _ v] exI [of _ ?k]) (simp add: foldE_append)
qed

end

definition preempted :: "nat \<Rightarrow> 'a kern_scheme \<Rightarrow> 'a kern_scheme res" where
  "preempted p s = yield s"

text \<open>The process that computes until the timer interrupt makes it yield.\<close>

interpretation tick: timeslice NPROC preempted
proof
  fix p and s :: "'a slog_scheme"
  assume a: "p < length (procs s)" "cur s = Some p" "p_state (procs s ! p) = RUNNING" "can_run NPROC s"
  then have "can_run NPROC (upd_proc p (\<lambda>p. p\<lparr>p_state := RUNNABLE\<rparr>) s)"
    by (intro can_run_update) (auto simp: can_run_def)
  with a show "\<exists>t. preempted p s = Inr t \<and> can_run NPROC t \<and> cur t = Some p \<and> length (procs t) = length (procs s) \<and>
      switches t = switches s \<and> p_tickets (procs t ! p) = p_tickets (procs s ! p) \<and>
      p_ticksAcc (procs t ! p) = p_ticksAcc (procs s ! p)"
    by (auto simp: preempted_def yield_def upd_proc_def)
qed simp

text \<open>
  C11. Proportional share: one pass of the scheduler over the table visits the slots in their order, and a slot whose
  process is runnable when the scan reaches it runs for as many slices in a row as the process has tickets, or fewer if
  it comes back not runnable (asleep or a zombie) after the last of them; every other slot is passed over. \<open>ticksAcc\<close>
  grows by that number, modulo \<open>2 ^ 32\<close>. During its slices a process may block, exit, wake, create and reap others; it is
  only asked to come back on its CPU, with its own tickets and count as they were, and to leave the runnable
  processes with a kernel stack, a page directory and at most \<open>fuel\<close> tickets, \<open>fuel\<close> below the largest \<open>int\<close>.
\<close>

theorem scheduler_proportional_share:
  fixes s :: "'a slog_scheme"
  assumes "\<And>p (s :: 'a slog_scheme). p < length (procs s) \<Longrightarrow> cur s = Some p \<Longrightarrow> p_state (procs s ! p) = RUNNING \<Longrightarrow>
      can_run fuel s \<Longrightarrow>
      \<exists>t. swtch p s = Inr t \<and> can_run fuel t \<and> cur t = Some p \<and> length (procs t) = length (procs s) \<and>
        switches t = switches s \<and> p_tickets (procs t ! p) = p_tickets (procs s ! p) \<and>
        p_ticksAcc (procs t ! p) = p_ticksAcc (procs s ! p)"
    and "fuel < 2 ^ 31 - 1" and "can_run fuel s"
  shows "\<exists>t k. scheduler_round fuel (logged swtch) s = Inr t \<and>
    switches t = switches s @ concat (map (\<lambda>p. replicate (k p) p) [0..<length (procs s)]) \<and>
    (\<forall>p < length (procs s). \<exists>u v. foldE (schedule_proc fuel (logged swtch)) [0..<p] s = Inr u \<and>
       schedule_proc fuel (logged swtch) p u = Inr v \<and>
       (if p_state (procs u ! p) = RUNNABLE
        then k p \<le> nat (p_tickets (procs u ! p)) \<and>
          (k p < nat (p_tickets (procs u ! p)) \<longrightarrow> p_state (procs v ! p) \<noteq> RUNNABLE) \<and>
          (word_of_int (p_ticksAcc (procs v ! p)) :: 32 word) = word_of_int (p_ticksAcc (procs u ! p)) + of_nat (k p)
        else k p = 0 \<and> v = u))"
proof -
  have ts: "timeslice fuel swtch" by unfold_locales (use assms(1,2) in blast)+
  from timeslice.scan [OF ts order_refl assms(3)]
  obtain t k where t: "scheduler_round fuel (logged swtch) s = Inr t"
    "switches t = switches s @ concat (map (\<lambda>p. replicate (k p) p) [0..<length (procs s)])"
    "\<forall>p < length (procs s). \<exists>u v. foldE (schedule_proc fuel (logged swtch)) [0..<p] s = Inr u \<and>
       schedule_proc fuel (logged swtch) p u = Inr v \<and> visited fuel p (k p) u v"
    unfolding scheduler_round_def by blast
  show ?thesis
    using t unfolding visited_def slices_are_def by meson
qed

definition idle_proc :: proc where
  "idle_proc = \<lparr>p_sz = 4096, p_pgdir = 0x80400000, p_kstack = 0x80401000, p_state = RUNNABLE, p_pid = 1,
     p_parent = None, p_tf = 0, p_context = 0, p_chan = None, p_killed = False, p_ofile = replicate NOFILE None,
     p_cwd = None, p_name = ''sh'', p_tickets = 1, p_ticksAcc = 0, p_inuse = 0\<rparr>"

definition idle_kern :: "proc list \<Rightarrow> kern" where
  "idle_kern ps = \<lparr>pmem = (\<lambda>_. 0), freelist = 0, use_lock = True, kend = 0x80115000, kdata = 0x80108000, kout = [],
     procs = ps, cur = None, initproc = Some 0, nextpid = 9, ticks = 0, kpgdir = 0x80300000, cr3 = 0x300000,
     esp0 = 0, forkret_at = 0x80103000, trapret_at = 0x80106000\<rparr>"

definition idle_log :: "proc list \<Rightarrow> slog" where
  "idle_log ps = kern.extend (idle_kern ps) (slog.fields [])"

theorem scheduler_proportional_share_witness:
  "let s = idle_log [idle_proc\<lparr>p_tickets := 2\<rparr>, idle_proc\<lparr>p_state := SLEEPING\<rparr>, idle_proc]
   in \<exists>t k. scheduler_round 2 (logged preempted) s = Inr t \<and>
     switches t = concat (map (\<lambda>p. replicate (k p) p) [0..<3]) \<and> switches t = [0, 0, 2]"
proof -
  let ?s = "idle_log [idle_proc\<lparr>p_tickets := 2\<rparr>, idle_proc\<lparr>p_state := SLEEPING\<rparr>, idle_proc]"
  have run: "can_run 2 ?s"
    by (auto simp: can_run_def idle_log_def kern.defs slog.defs idle_kern_def idle_proc_def less_Suc_eq numeral_3_eq_3)
  have yields: "\<exists>t. preempted p s = Inr t \<and> can_run 2 t \<and> cur t = Some p \<and> length (procs t) = length (procs s) \<and>
      switches t = switches s \<and> p_tickets (procs t ! p) = p_tickets (procs s ! p) \<and>
      p_ticksAcc (procs t ! p) = p_ticksAcc (procs s ! p)"
    if a: "p < length (procs s)" "cur s = Some p" "p_state (procs s ! p) = RUNNING" "can_run 2 s" for p and s :: slog
  proof -
    have "can_run 2 (upd_proc p (\<lambda>p. p\<lparr>p_state := RUNNABLE\<rparr>) s)"
      using a by (intro can_run_update) (auto simp: can_run_def)
    with a show ?thesis by (auto simp: preempted_def yield_def upd_proc_def)
  qed
  have small: "(2 :: nat) < 2 ^ 31 - 1" by simp
  from scheduler_proportional_share [OF yields small run]
  obtain t k where t: "scheduler_round 2 (logged preempted) ?s = Inr t"
    "switches t = switches ?s @ concat (map (\<lambda>p. replicate (k p) p) [0..<length (procs ?s)])"
    by blast
  have i: "to_int32 1 = 1" "to_int32 2 = 2" "to_int32 3 = 3"
    by (simp_all add: to_int32_id int32_range_def)
  have "\<exists>t. scheduler_round (Suc (Suc 0)) (logged preempted) ?s = Inr t \<and> switches t = [0, 0, 2]"
    unfolding idle_log_def kern.defs slog.defs idle_kern_def idle_proc_def
    by (simp add: scheduler_round_def upt_rec schedule_proc_def switchuvm_def Let_def slice_step slice_end i
        logged_def preempted_def yield_def upd_proc_def switchkvm_def del: run_slices.simps)
  then have "switches t = [0, 0, 2]" using t(1) by (auto simp: numeral_2_eq_2)
  moreover have "switches ?s = []" "length (procs ?s) = 3"
    by (simp_all add: idle_log_def kern.defs slog.defs idle_kern_def)
  then have "switches t = concat (map (\<lambda>p. replicate (k p) p) [0..<3])" using t(2) by (simp only: append_Nil)
  ultimately show ?thesis unfolding Let_def using t(1) by blast
qed

text \<open>
  \<open>settickets\<close> accepts every positive \<open>int\<close>. With the largest one, \<open>i <= p->tickets\<close> holds for every value of the
  \<open>int\<close> \<open>i\<close>, which wraps around: the scheduler never leaves its inner loop while that process comes back
  runnable, whatever fuel is given to it, and no other process runs on this CPU again.
\<close>

lemma slices_forever:
  assumes "\<And>u. p < length (procs u) \<Longrightarrow> p_state (procs u ! p) = RUNNING \<Longrightarrow> p_tickets (procs u ! p) = 2 ^ 31 - 1 \<Longrightarrow>
      cur u = Some p \<Longrightarrow> \<exists>t. swtch p u = Inr t \<and> cur t = Some p \<and> p < length (procs t) \<and> p_state (procs t ! p) = RUNNABLE \<and>
        p_tickets (procs t ! p) = 2 ^ 31 - 1"
    and "p < length (procs s)" "p_state (procs s ! p) = RUNNABLE" "p_tickets (procs s ! p) = 2 ^ 31 - 1" "cur s = Some p"
    and "i \<le> 2 ^ 31 - 1"
  shows "run_slices n swtch p i s = Inl NoFuel"
  using assms(2-)
proof (induction n arbitrary: i s)
  case (Suc n)
  let ?u = "upd_proc p (\<lambda>q. q\<lparr>p_state := RUNNING, p_inuse := 1, p_ticksAcc := to_int32 (p_ticksAcc q + 1)\<rparr>) s"
  have "p < length (procs ?u)" "p_state (procs ?u ! p) = RUNNING" "p_tickets (procs ?u ! p) = 2 ^ 31 - 1" "cur ?u = Some p"
    using Suc.prems by simp_all
  from assms(1) [OF this] obtain t where t: "swtch p ?u = Inr t" "cur t = Some p" "p < length (procs t)"
    "p_state (procs t ! p) = RUNNABLE" "p_tickets (procs t ! p) = 2 ^ 31 - 1" by blast
  have "to_int32 (i + 1) \<le> 2 ^ 31 - 1" using int32_range_to_int32 [of "i + 1"] by (simp add: int32_range_def)
  from Suc.IH [OF t(3,4,5,2) this] t(1) Suc.prems show ?case by (subst slice_step) simp_all
qed (simp add: run_slices.simps)

theorem largest_tickets_starve:
  assumes "\<And>u. p < length (procs u) \<Longrightarrow> p_state (procs u ! p) = RUNNING \<Longrightarrow> p_tickets (procs u ! p) = 2 ^ 31 - 1 \<Longrightarrow>
      cur u = Some p \<Longrightarrow> \<exists>t. swtch p u = Inr t \<and> cur t = Some p \<and> p < length (procs t) \<and> p_state (procs t ! p) = RUNNABLE \<and>
        p_tickets (procs t ! p) = 2 ^ 31 - 1"
    and "p < length (procs s)" "p_state (procs s ! p) = RUNNABLE" "p_tickets (procs s ! p) = 2 ^ 31 - 1"
    and "p_kstack (procs s ! p) \<noteq> 0" "p_pgdir (procs s ! p) \<noteq> 0"
  shows "schedule_proc fuel swtch p s = Inl NoFuel"
proof -
  let ?u = "s\<lparr>cur := Some p, esp0 := p_kstack (procs s ! p) + 4096, cr3 := V2P (p_pgdir (procs s ! p))\<rparr>"
  have "run_slices fuel swtch p 1 ?u = Inl NoFuel"
    by (rule slices_forever [where swtch = swtch and p = p]) (fact assms(1), use assms(2-4) in simp_all)
  then show ?thesis using assms(3,5,6) by (simp add: schedule_proc_def switchuvm_def Let_def)
qed

theorem largest_tickets_starve_witness:
  "\<forall>fuel. schedule_proc fuel preempted 0 (idle_kern [idle_proc\<lparr>p_tickets := 2147483647\<rparr>, idle_proc]) = Inl NoFuel"
proof
  fix fuel
  have y: "\<exists>t. preempted 0 u = Inr t \<and> cur t = Some 0 \<and> 0 < length (procs t) \<and> p_state (procs t ! 0) = RUNNABLE \<and>
      p_tickets (procs t ! 0) = 2 ^ 31 - 1"
    if "0 < length (procs u)" "p_tickets (procs u ! 0) = 2 ^ 31 - 1" "cur u = Some 0" for u :: kern
    using that by (simp add: preempted_def yield_def flip: length_greater_0_conv)
  show "schedule_proc fuel preempted 0 (idle_kern [idle_proc\<lparr>p_tickets := 2147483647\<rparr>, idle_proc]) = Inl NoFuel"
    by (rule largest_tickets_starve) (use y in \<open>simp_all add: idle_kern_def idle_proc_def\<close>)
qed

section \<open>Kill\<close>

lemma allocproc_Some:
  assumes "allocproc s = (Some j, t)"
  shows "first_idx (\<lambda>p. p_state p = UNUSED) (procs s) = Some j" "j < length (procs s)"
    "p_state (procs t ! j) = EMBRYO" "p_pid (procs t ! j) = nextpid s" "nextpid t = nextpid s + 1"
    "p_killed (procs t ! j) = p_killed (procs s ! j)" "p_tickets (procs t ! j) = 1" "p_ticksAcc (procs t ! j) = 0"
    "p_inuse (procs t ! j) = 0" "length (procs t) = length (procs s)" "p_parent (procs t ! j) = p_parent (procs s ! j)"
    "q \<noteq> j \<Longrightarrow> procs t ! q = procs s ! q" "p_kstack (procs t ! j) \<noteq> 0" "cur t = cur s"
    "initproc t = initproc s"
proof -
  from assms show f: "first_idx (\<lambda>p. p_state p = UNUSED) (procs s) = Some j"
    unfolding allocproc_def by (auto simp: Let_def kalloc_def split: option.splits if_splits)
  then show "j < length (procs s)" by (rule first_idx_SomeD)
  then show "p_state (procs t ! j) = EMBRYO" "p_pid (procs t ! j) = nextpid s" "nextpid t = nextpid s + 1"
    "p_killed (procs t ! j) = p_killed (procs s ! j)" "p_tickets (procs t ! j) = 1" "p_ticksAcc (procs t ! j) = 0"
    "p_inuse (procs t ! j) = 0" "length (procs t) = length (procs s)" "p_parent (procs t ! j) = p_parent (procs s ! j)"
    "q \<noteq> j \<Longrightarrow> procs t ! q = procs s ! q" "p_kstack (procs t ! j) \<noteq> 0" "cur t = cur s" "initproc t = initproc s"
    using assms f unfolding allocproc_def
    by (auto simp: Let_def kalloc_def upd_proc_def split: if_splits)
qed

lemma allocproc_None:
  assumes "allocproc s = (None, t)"
  shows "(\<forall>p \<in> set (procs s). p_state p \<noteq> UNUSED) \<and> t = s \<or>
    (\<exists>i < length (procs s). first_idx (\<lambda>p. p_state p = UNUSED) (procs s) = Some i \<and> freelist s = 0 \<and>
       length (procs t) = length (procs s) \<and> p_state (procs t ! i) = UNUSED \<and> p_pid (procs t ! i) = nextpid s \<and>
       p_parent (procs t ! i) = p_parent (procs s ! i) \<and> (\<forall>q. q \<noteq> i \<longrightarrow> procs t ! q = procs s ! q) \<and> nextpid t = nextpid s + 1 \<and> cur t = cur s \<and> initproc t = initproc s)"
proof (cases "first_idx (\<lambda>p. p_state p = UNUSED) (procs s)")
  case None
  then have "t = s" using assms by (simp add: allocproc_def)
  with None show ?thesis by (simp add: first_idx_None)
next
  case (Some i)
  then have "i < length (procs s)" by (rule first_idx_SomeD)
  with Some show ?thesis using assms
    by (auto simp: allocproc_def Let_def kalloc_def upd_proc_def split: if_splits)
qed

text \<open>
  C34. \<open>kill\<close> marks the first slot with the given pid, whatever its state; since \<open>wait\<close> resets the
  pid of a reaped slot to 0 and \<open>allocproc\<close> does not reset \<open>killed\<close>, \<open>kill(0)\<close> succeeds on a free
  slot and the next process created in it is born killed.
\<close>

theorem kill_zero_marks_next_process:
  assumes "first_idx (\<lambda>p. p_pid p = 0) (procs s) = Some i"
    and "first_idx (\<lambda>p. p_state p = UNUSED) (procs s) = Some i"
    and "kill 0 s = (r, t)" "allocproc t = (Some j, u)"
  shows "r = 0 \<and> j = i \<and> p_killed (procs u ! i) \<and> p_pid (procs u ! i) = nextpid s \<and> p_state (procs u ! i) = EMBRYO"
proof -
  have i: "i < length (procs s)" using assms(1) by (rule first_idx_SomeD)
  have st: "p_state (procs s ! i) = UNUSED" using assms(2) by (rule first_idx_SomeD)
  have t: "r = 0" "t = upd_proc i (\<lambda>p. p\<lparr>p_killed := True, p_state := UNUSED\<rparr>) s"
    using assms(1,3) i st by (auto simp: kill_def upd_proc_def)
  have "first_idx (\<lambda>p. p_state p = UNUSED) (procs t) = Some i"
    using assms(2) i t(2) by (auto simp: first_idx_Some upd_proc_def nth_list_update)
  then have "j = i" using allocproc_Some(1) [OF assms(4)] by simp
  with allocproc_Some [OF assms(4)] t i show ?thesis by simp
qed

theorem kill_zero_marks_next_process_witness:
  "let s = (idle_kern [idle_proc, idle_proc\<lparr>p_state := UNUSED, p_pid := 0\<rparr>])\<lparr>freelist := 0x80400000\<rparr>
   in p_killed (procs (snd (allocproc (snd (kill 0 s)))) ! 1) \<and> p_pid (procs (snd (allocproc (snd (kill 0 s)))) ! 1) = 9"
proof -
  let ?s = "(idle_kern [idle_proc, idle_proc\<lparr>p_state := UNUSED, p_pid := 0\<rparr>])\<lparr>freelist := 0x80400000\<rparr>"
  let ?t = "snd (kill 0 ?s)"
  have k: "kill 0 ?s = (0, ?t)" by (simp add: kill_def idle_kern_def idle_proc_def)
  have u: "allocproc ?t = (Some 1, snd (allocproc ?t))"
    by (simp add: allocproc_def kill_def idle_kern_def idle_proc_def upd_proc_def kalloc_def Let_def)
  have "p_killed (procs (snd (allocproc ?t)) ! 1) \<and> p_pid (procs (snd (allocproc ?t)) ! 1) = nextpid ?s"
    using kill_zero_marks_next_process [OF _ _ k u, of 1] by (simp add: idle_kern_def idle_proc_def)
  moreover have "nextpid ?s = 9" by (simp add: idle_kern_def)
  ultimately show ?thesis by (simp add: Let_def)
qed

section \<open>Wait\<close>

lemma wait_scan_spec:
  "wait_scan c i ps kids =
     (case first_idx (\<lambda>p. p_parent p = Some c \<and> p_state p = ZOMBIE) ps of
        Some j \<Rightarrow> (Some (i + j), True)
      | None \<Rightarrow> (None, kids \<or> (\<exists>p \<in> set ps. p_parent p = Some c)))"
  by (induction c i ps kids rule: wait_scan.induct) (auto split: option.splits)


text \<open>
  A pass of \<open>wait\<close>: with a zombie child it reaps the first one in table order and
  returns its pid, leaving that slot unused and every other slot alone; otherwise it returns -1
  when there is no child or the caller was killed, and else the caller is asleep on its own
  slot, having changed nothing but its own state.
\<close>

theorem wait_pass_outcome:
  assumes "cur s = Some c" "c < length (procs s)" "wait_pass s = Inr (r, t)"
  shows "case first_idx (\<lambda>p. p_parent p = Some c \<and> p_state p = ZOMBIE) (procs s) of
      Some i \<Rightarrow> r = Some (p_pid (procs s ! i)) \<and> p_state (procs t ! i) = UNUSED \<and> p_pid (procs t ! i) = 0 \<and>
        p_parent (procs t ! i) = None \<and> (\<forall>q. q \<noteq> i \<longrightarrow> procs t ! q = procs s ! q)
    | None \<Rightarrow>
        if (\<forall>p \<in> set (procs s). p_parent p \<noteq> Some c) \<or> p_killed (procs s ! c) then r = Some (-1) \<and> t = s
        else r = None \<and> t = upd_proc c (\<lambda>p. p\<lparr>p_chan := Some (AtProc c), p_state := SLEEPING\<rparr>) s"
proof (cases "first_idx (\<lambda>p. p_parent p = Some c \<and> p_state p = ZOMBIE) (procs s)")
  case (Some i)
  then have i: "i < length (procs s)" by (rule first_idx_SomeD)
  from Some assms(1,3) obtain u v where u: "kfree (p_kstack (procs s ! i)) s = Inr u"
    "freevm (p_pgdir (procs (upd_proc i (\<lambda>p. p\<lparr>p_kstack := 0\<rparr>) u) ! i)) (upd_proc i (\<lambda>p. p\<lparr>p_kstack := 0\<rparr>) u) = Inr v"
    "r = Some (p_pid (procs s ! i))"
    "t = upd_proc i (\<lambda>p. p\<lparr>p_pid := 0, p_parent := None, p_name := [], p_killed := False, p_state := UNUSED\<rparr>) v"
    by (auto simp: wait_pass_def wait_scan_spec Let_def)
  have "procs u = procs s" using kfree_mem_only [OF u(1)] by (rule mem_only_procs)
  moreover have "procs v = procs (upd_proc i (\<lambda>p. p\<lparr>p_kstack := 0\<rparr>) u)"
    using freevm_mem_only [OF u(2)] by (rule mem_only_procs)
  ultimately show ?thesis using Some u(3,4) i by (auto simp: upd_proc_def)
next
  case None
  then show ?thesis using assms
    by (auto simp: wait_pass_def wait_scan_spec sleep_on_def split: if_splits)
qed

theorem wait_pass_outcome_witness:
  "let s = (idle_kern [idle_proc, idle_proc\<lparr>p_parent := Some 0\<rparr>])\<lparr>cur := Some 0\<rparr>
   in \<exists>t. wait_pass s = Inr (None, t) \<and> p_state (procs t ! 0) = SLEEPING \<and> p_chan (procs t ! 0) = Some (AtProc 0)"
proof -
  let ?s = "(idle_kern [idle_proc, idle_proc\<lparr>p_parent := Some 0\<rparr>])\<lparr>cur := Some 0\<rparr>"
  obtain r t where w: "wait_pass ?s = Inr (r, t)"
    by (simp add: wait_pass_def wait_scan_spec sleep_on_def idle_kern_def idle_proc_def)
  have "r = None \<and> t = upd_proc 0 (\<lambda>p. p\<lparr>p_chan := Some (AtProc 0), p_state := SLEEPING\<rparr>) ?s"
    using wait_pass_outcome [OF _ _ w, of 0] by (simp add: idle_kern_def idle_proc_def)
  moreover have "0 < length (procs ?s)" by (simp add: idle_kern_def)
  ultimately show ?thesis using w by (simp add: Let_def)
qed

end
