(* ===== verification/Bio.thy ===== *)
theory Bio
  imports Proc
begin

text \<open>
  Sleeping locks (\<open>sleeplock.c\<close>) and the block cache (\<open>bio.c\<close>) over the disk. A block is a
  function from byte offsets to bytes; the disk maps block numbers to blocks, and \<open>dwrites\<close>
  records the writes that have reached it, oldest first. The doubly linked list of buffers is the
  list \<open>mru\<close> of buffer indices, most recently used first. \<open>iderw\<close> is the synchronous driver of
  \<open>memide.c\<close>; \<open>Ide\<close> relates the interrupt-driven one to it. A call that would sleep is
  \<open>Sleep\<close>, and the model does not follow the call beyond it.
\<close>

unbundle bit_operations_syntax

section \<open>Blocks\<close>

type_synonym block = "nat \<Rightarrow> 8 word"

abbreviation BSIZE :: nat where "BSIZE \<equiv> 512"
abbreviation FSSIZE :: nat where "FSSIZE \<equiv> 1000"

definition rd16 :: "block \<Rightarrow> nat \<Rightarrow> 16 word" where
  "rd16 b i = ucast (b i) OR push_bit 8 (ucast (b (i + 1)))"

definition wr16 :: "nat \<Rightarrow> 16 word \<Rightarrow> block \<Rightarrow> block" where
  "wr16 i w b = b(i := ucast w, i + 1 := ucast (drop_bit 8 w))"

definition rd32 :: "block \<Rightarrow> nat \<Rightarrow> 32 word" where
  "rd32 b i = ucast (b i) OR push_bit 8 (ucast (b (i + 1))) OR push_bit 16 (ucast (b (i + 2))) OR
     push_bit 24 (ucast (b (i + 3)))"

definition wr32 :: "nat \<Rightarrow> 32 word \<Rightarrow> block \<Rightarrow> block" where
  "wr32 i w b = b(i := ucast w, i + 1 := ucast (drop_bit 8 w), i + 2 := ucast (drop_bit 16 w),
     i + 3 := ucast (drop_bit 24 w))"

lemma rd32_wr32 [simp]: "rd32 (wr32 i w b) i = w"
  using bytes_of_word32 [of w] by (simp add: rd32_def wr32_def)

lemma rd32_wr32_other: "i + 4 \<le> j \<or> j + 4 \<le> i \<Longrightarrow> rd32 (wr32 i w b) j = rd32 b j"
  by (auto simp: rd32_def wr32_def)

lemma bytes_of_word16:
  fixes w :: "16 word"
  shows "(ucast (ucast w :: 8 word) :: 16 word) OR push_bit 8 (ucast (ucast (drop_bit 8 w) :: 8 word)) = w" (is "?l = w")
proof (rule bit_word_eqI)
  fix n assume "n < LENGTH(16)"
  then have n: "n < 16" by simp
  have c: "bit (ucast (b :: 8 word) :: 16 word) j \<longleftrightarrow> bit b j" for b j
    using bit8_high [of j b] by (auto simp: bit_unsigned_iff dest: bit_imp_le_length)
  have b8: "bit (ucast (drop_bit k w) :: 8 word) j \<longleftrightarrow> j < 8 \<and> bit w (k + j)" for k j
    by (auto simp: bit_unsigned_iff bit_drop_bit_eq)
  have b0: "bit (ucast w :: 8 word) j \<longleftrightarrow> j < 8 \<and> bit w j" for j using b8 [of 0 j] by simp
  show "bit ?l n = bit w n"
    using n by (cases "n < 8") (auto simp: bit_or_iff bit_push_bit_iff c b8 b0 not_less)
qed

lemma rd16_wr16 [simp]: "rd16 (wr16 i w b) i = w"
  using bytes_of_word16 [of w] by (simp add: rd16_def wr16_def)

lemma rd16_wr16_other: "i + 2 \<le> j \<or> j + 2 \<le> i \<Longrightarrow> rd16 (wr16 i w b) j = rd16 b j"
  by (auto simp: rd16_def wr16_def)

section \<open>Sleeping locks\<close>

record sleeplock =
  sl_locked :: bool
  sl_pid :: int

definition initsleeplock :: sleeplock where
  "initsleeplock = \<lparr>sl_locked = False, sl_pid = 0\<rparr>"

lemma sleeplock_eta: "(lk :: sleeplock)\<lparr>sl_locked := a, sl_pid := p\<rparr> = \<lparr>sl_locked = a, sl_pid = p\<rparr>"
  by (cases lk) simp

definition mypid :: "'a kern_scheme \<Rightarrow> int res" where
  "mypid s = (case cur s of None \<Rightarrow> Inl (Fault ''no current process'') | Some i \<Rightarrow> Inr (p_pid (procs s ! i)))"

definition acquiresleep :: "chan \<Rightarrow> sleeplock \<Rightarrow> 'a kern_scheme \<Rightarrow> sleeplock res" where
  "acquiresleep ch lk s =
     (if sl_locked lk then Inl (Sleep ch)
      else bindE (mypid s) (\<lambda>pid. Inr (lk\<lparr>sl_locked := True, sl_pid := pid\<rparr>)))"

definition releasesleep :: "chan \<Rightarrow> sleeplock \<Rightarrow> 'a kern_scheme \<Rightarrow> sleeplock \<times> 'a kern_scheme" where
  "releasesleep ch lk s = (lk\<lparr>sl_locked := False, sl_pid := 0\<rparr>, wakeup ch s)"

definition holdingsleep :: "sleeplock \<Rightarrow> 'a kern_scheme \<Rightarrow> bool" where
  "holdingsleep lk s = (sl_locked lk \<and> mypid s = Inr (sl_pid lk))"

section \<open>The cache\<close>

abbreviation NBUF :: nat where "NBUF \<equiv> 30"

record buf =
  b_valid :: bool
  b_dirty :: bool
  b_dev :: nat
  b_blockno :: nat
  b_lock :: sleeplock
  b_refcnt :: nat
  b_data :: block

record bio = kern +
  bufs :: "buf list"
  mru :: "nat list"
  disk :: "nat \<Rightarrow> block"
  disksize :: nat
  dwrites :: "(nat \<times> block) list"

definition upd_buf :: "nat \<Rightarrow> (buf \<Rightarrow> buf) \<Rightarrow> 'a bio_scheme \<Rightarrow> 'a bio_scheme" where
  "upd_buf i f s = s\<lparr>bufs := (bufs s)[i := f (bufs s ! i)]\<rparr>"

definition binit :: "'a bio_scheme \<Rightarrow> 'a bio_scheme" where
  "binit s = s\<lparr>mru := rev [0..<NBUF], bufs := map (\<lambda>b. b\<lparr>b_lock := initsleeplock\<rparr>) (bufs s)\<rparr>"

definition lock_buf :: "nat \<Rightarrow> 'a bio_scheme \<Rightarrow> (nat \<times> 'a bio_scheme) res" where
  "lock_buf i s =
     bindE (acquiresleep (AtBuf i) (b_lock (bufs s ! i)) s) (\<lambda>lk.
       Inr (i, upd_buf i (\<lambda>b. b\<lparr>b_lock := lk\<rparr>) s))"

definition bget :: "nat \<Rightarrow> nat \<Rightarrow> 'a bio_scheme \<Rightarrow> (nat \<times> 'a bio_scheme) res" where
  "bget dev blockno s =
     (case find (\<lambda>i. b_dev (bufs s ! i) = dev \<and> b_blockno (bufs s ! i) = blockno) (mru s) of
        Some i \<Rightarrow> lock_buf i (upd_buf i (\<lambda>b. b\<lparr>b_refcnt := b_refcnt b + 1\<rparr>) s)
      | None \<Rightarrow>
        (case find (\<lambda>i. b_refcnt (bufs s ! i) = 0 \<and> \<not> b_dirty (bufs s ! i)) (rev (mru s)) of
           Some i \<Rightarrow> lock_buf i (upd_buf i (\<lambda>b. b\<lparr>b_dev := dev, b_blockno := blockno, b_valid := False,
               b_dirty := False, b_refcnt := 1\<rparr>) s)
         | None \<Rightarrow> Inl (Panic ''bget: no buffers'')))"

definition iderw :: "nat \<Rightarrow> 'a bio_scheme \<Rightarrow> 'a bio_scheme res" where
  "iderw i s =
     (let b = bufs s ! i
      in if \<not> holdingsleep (b_lock b) s then Inl (Panic ''iderw: buf not locked'')
         else if b_valid b \<and> \<not> b_dirty b then Inl (Panic ''iderw: nothing to do'')
         else if b_dev b \<noteq> 1 then Inl (Panic ''iderw: request not for disk 1'')
         else if b_blockno b \<ge> disksize s then Inl (Panic ''iderw: block out of range'')
         else if b_dirty b then
           Inr (upd_buf i (\<lambda>b. b\<lparr>b_dirty := False, b_valid := True\<rparr>)
             (s\<lparr>disk := (disk s)(b_blockno b := b_data b), dwrites := dwrites s @ [(b_blockno b, b_data b)]\<rparr>))
         else Inr (upd_buf i (\<lambda>b. b\<lparr>b_data := disk s (b_blockno b), b_valid := True\<rparr>) s))"

definition bread :: "nat \<Rightarrow> nat \<Rightarrow> 'a bio_scheme \<Rightarrow> (nat \<times> 'a bio_scheme) res" where
  "bread dev blockno s =
     bindE (bget dev blockno s) (\<lambda>(i, s).
       if \<not> b_valid (bufs s ! i) then bindE (iderw i s) (\<lambda>s. Inr (i, s)) else Inr (i, s))"

definition bwrite :: "nat \<Rightarrow> 'a bio_scheme \<Rightarrow> 'a bio_scheme res" where
  "bwrite i s =
     (if \<not> holdingsleep (b_lock (bufs s ! i)) s then Inl (Panic ''bwrite'')
      else iderw i (upd_buf i (\<lambda>b. b\<lparr>b_dirty := True\<rparr>) s))"

definition brelse :: "nat \<Rightarrow> 'a bio_scheme \<Rightarrow> 'a bio_scheme res" where
  "brelse i s =
     (if \<not> holdingsleep (b_lock (bufs s ! i)) s then Inl (Panic ''brelse'')
      else
        case releasesleep (AtBuf i) (b_lock (bufs s ! i)) s of (lk, s) \<Rightarrow>
          let s = upd_buf i (\<lambda>b. b\<lparr>b_lock := lk\<rparr>) s;
              s = upd_buf i (\<lambda>b. b\<lparr>b_refcnt := b_refcnt b - 1\<rparr>) s
          in if b_refcnt (bufs s ! i) = 0 then Inr (s\<lparr>mru := i # remove1 i (mru s)\<rparr>) else Inr s)"

text \<open>Changing the contents of a locked buffer.\<close>

definition set_data :: "nat \<Rightarrow> (block \<Rightarrow> block) \<Rightarrow> 'a bio_scheme \<Rightarrow> 'a bio_scheme" where
  "set_data i f s = upd_buf i (\<lambda>b. b\<lparr>b_data := f (b_data b)\<rparr>) s"

section \<open>The cache as a view of the disk\<close>

text \<open>\<open>holds b i s\<close>: buffer \<open>i\<close> is for block \<open>b\<close> of the disk (device 1). The block as seen through the
  cache is the contents of its valid buffer, and the disk's when there is none.\<close>

definition holds :: "nat \<Rightarrow> nat \<Rightarrow> 'a bio_scheme \<Rightarrow> bool" where
  "holds b i s = (i < NBUF \<and> b_dev (bufs s ! i) = 1 \<and> b_blockno (bufs s ! i) = b)"

definition view_block :: "'a bio_scheme \<Rightarrow> nat \<Rightarrow> block" where
  "view_block s b =
     (case first_idx (\<lambda>u. b_dev u = 1 \<and> b_blockno u = b \<and> b_valid u) (bufs s) of
        Some i \<Rightarrow> b_data (bufs s ! i) | None \<Rightarrow> disk s b)"

text \<open>The invariant, while the running process holds the buffers \<open>H\<close> and nobody else any.\<close>

definition bio_inv :: "'a bio_scheme \<Rightarrow> nat set \<Rightarrow> bool" where
  "bio_inv s H \<longleftrightarrow>
     length (bufs s) = NBUF \<and> distinct (mru s) \<and> set (mru s) = {..<NBUF} \<and> H \<subseteq> {..<NBUF} \<and>
     (\<exists>c. cur s = Some c \<and> c < length (procs s)) \<and>
     (\<forall>i < NBUF. b_refcnt (bufs s ! i) = (if i \<in> H then 1 else 0) \<and>
        sl_locked (b_lock (bufs s ! i)) = (i \<in> H) \<and>
        (i \<in> H \<longrightarrow> mypid s = Inr (sl_pid (b_lock (bufs s ! i)))) \<and>
        (b_dirty (bufs s ! i) \<longrightarrow> b_valid (bufs s ! i) \<and> b_dev (bufs s ! i) = 1) \<and>
        (b_dev (bufs s ! i) = 1 \<and> b_valid (bufs s ! i) \<and> \<not> b_dirty (bufs s ! i) \<and> i \<notin> H \<longrightarrow>
           b_data (bufs s ! i) = disk s (b_blockno (bufs s ! i)))) \<and>
     (\<forall>b i j. holds b i s \<longrightarrow> holds b j s \<longrightarrow> i = j)"

definition same_rest :: "'a bio_scheme \<Rightarrow> 'a bio_scheme \<Rightarrow> bool" where
  "same_rest s t = (disksize t = disksize s \<and> bio.more t = bio.more s \<and> cur t = cur s)"

definition dirty_bufs :: "'a bio_scheme \<Rightarrow> nat set" where
  "dirty_bufs s = {i. i < NBUF \<and> b_dirty (bufs s ! i)}"

lemma same_rest_refl [simp]: "same_rest s s"
  by (simp add: same_rest_def)

lemma same_rest_trans [trans]: "same_rest s t \<Longrightarrow> same_rest t u \<Longrightarrow> same_rest s u"
  by (simp add: same_rest_def)

lemma upd_buf_simps [simp]:
  "length (bufs (upd_buf i f s)) = length (bufs s)"
  "i < length (bufs s) \<Longrightarrow> bufs (upd_buf i f s) ! i = f (bufs s ! i)"
  "j \<noteq> i \<Longrightarrow> bufs (upd_buf i f s) ! j = bufs s ! j"
  "mru (upd_buf i f s) = mru s" "disk (upd_buf i f s) = disk s" "disksize (upd_buf i f s) = disksize s"
  "dwrites (upd_buf i f s) = dwrites s" "cur (upd_buf i f s) = cur s" "procs (upd_buf i f s) = procs s"
  "mypid (upd_buf i f s) = mypid s" "bio.more (upd_buf i f s) = bio.more s"
  by (simp_all add: upd_buf_def mypid_def split: option.split)

lemma mypid_update [simp]:
  "mypid (s\<lparr>bufs := x\<rparr>) = mypid s" "mypid (s\<lparr>disk := d\<rparr>) = mypid s" "mypid (s\<lparr>dwrites := w\<rparr>) = mypid s"
  "mypid (s\<lparr>mru := l\<rparr>) = mypid s"
  by (simp_all add: mypid_def split: option.split)

lemma bio_invD:
  assumes "bio_inv s H"
  shows "length (bufs s) = NBUF" "distinct (mru s)" "set (mru s) = {..<NBUF}" "H \<subseteq> {..<NBUF}"
    "i < NBUF \<Longrightarrow> b_refcnt (bufs s ! i) = (if i \<in> H then 1 else 0)"
    "i < NBUF \<Longrightarrow> sl_locked (b_lock (bufs s ! i)) = (i \<in> H)"
    "i \<in> H \<Longrightarrow> mypid s = Inr (sl_pid (b_lock (bufs s ! i)))"
    "i < NBUF \<Longrightarrow> b_dirty (bufs s ! i) \<Longrightarrow> b_valid (bufs s ! i)"
    "i < NBUF \<Longrightarrow> b_dirty (bufs s ! i) \<Longrightarrow> b_dev (bufs s ! i) = 1"
    "i < NBUF \<Longrightarrow> b_dev (bufs s ! i) = 1 \<Longrightarrow> b_valid (bufs s ! i) \<Longrightarrow> \<not> b_dirty (bufs s ! i) \<Longrightarrow> i \<notin> H \<Longrightarrow>
      b_data (bufs s ! i) = disk s (b_blockno (bufs s ! i))"
    "holds b i s \<Longrightarrow> holds b j s \<Longrightarrow> i = j"
    "\<exists>p. mypid s = Inr p" "\<exists>c. cur s = Some c \<and> c < length (procs s)"
  using assms unfolding bio_inv_def by (auto simp: mypid_def)

lemma bio_inv_holdingsleep: "bio_inv s H \<Longrightarrow> i \<in> H \<Longrightarrow> holdingsleep (b_lock (bufs s ! i)) s"
  using bio_invD(4) [of s H] bio_invD(6) [of s H i] bio_invD(7) [of s H i] by (auto simp: holdingsleep_def)

lemma view_cached:
  assumes "bio_inv s H" "holds b i s" "b_valid (bufs s ! i)"
  shows "view_block s b = b_data (bufs s ! i)"
proof -
  note d = bio_invD [OF assms(1)]
  have "first_idx (\<lambda>u. b_dev u = 1 \<and> b_blockno u = b \<and> b_valid u) (bufs s) = Some i"
    unfolding first_idx_Some
  proof (intro conjI allI impI)
    show "i < length (bufs s)" "b_dev (bufs s ! i) = 1" "b_blockno (bufs s ! i) = b" "b_valid (bufs s ! i)"
      using assms(2,3) d(1) by (auto simp: holds_def)
    fix j assume "j < i"
    then have "\<not> holds b j s" using d(11) [OF assms(2), of j] by auto
    then show "\<not> (b_dev (bufs s ! j) = 1 \<and> b_blockno (bufs s ! j) = b \<and> b_valid (bufs s ! j))"
      using \<open>j < i\<close> assms(2) by (auto simp: holds_def)
  qed
  then show ?thesis by (simp add: view_block_def)
qed

lemma view_uncached:
  assumes "bio_inv s H" "\<And>i. holds b i s \<Longrightarrow> \<not> b_valid (bufs s ! i)"
  shows "view_block s b = disk s b"
proof -
  have "first_idx (\<lambda>u. b_dev u = 1 \<and> b_blockno u = b \<and> b_valid u) (bufs s) = None"
    unfolding first_idx_None using assms(2) bio_invD(1) [OF assms(1)]
    by (auto simp: in_set_conv_nth holds_def)
  then show ?thesis by (simp add: view_block_def)
qed

text \<open>Two states with the invariant have the same view when their valid buffers agree.\<close>

lemma view_cong:
  assumes "bio_inv s H" "bio_inv t K"
    and "\<And>i. holds b i s \<Longrightarrow> b_valid (bufs s ! i) \<Longrightarrow>
      (holds b i t \<and> b_valid (bufs t ! i) \<and> b_data (bufs t ! i) = b_data (bufs s ! i)) \<or>
      ((\<forall>j. holds b j t \<longrightarrow> \<not> b_valid (bufs t ! j)) \<and> b_data (bufs s ! i) = disk t b)"
    and "(\<And>i. holds b i s \<Longrightarrow> \<not> b_valid (bufs s ! i)) \<Longrightarrow> view_block t b = disk s b"
  shows "view_block t b = view_block s b"
proof (cases "\<exists>i. holds b i s \<and> b_valid (bufs s ! i)")
  case True
  then obtain i where i: "holds b i s" "b_valid (bufs s ! i)" by blast
  from assms(3) [OF i] show ?thesis
    using view_cached [OF assms(1) i] view_cached [OF assms(2)] view_uncached [OF assms(2), of b] by metis
next
  case False
  then show ?thesis using view_uncached [OF assms(1), of b] assms(4) by metis
qed


lemma view_same:
  assumes "bio_inv s H" "bio_inv t K" "\<And>j. holds c j t = holds c j s"
    and "\<And>j. holds c j s \<Longrightarrow> b_valid (bufs t ! j) = b_valid (bufs s ! j)"
    and "\<And>j. holds c j s \<Longrightarrow> b_valid (bufs s ! j) \<Longrightarrow> b_data (bufs t ! j) = b_data (bufs s ! j)"
    and "(\<And>j. holds c j s \<Longrightarrow> \<not> b_valid (bufs s ! j)) \<Longrightarrow> disk t c = disk s c"
  shows "view_block t c = view_block s c"
proof (rule view_cong [OF assms(1,2)])
  fix j assume j: "holds c j s" "b_valid (bufs s ! j)"
  show "(holds c j t \<and> b_valid (bufs t ! j) \<and> b_data (bufs t ! j) = b_data (bufs s ! j)) \<or>
      ((\<forall>k. holds c k t \<longrightarrow> \<not> b_valid (bufs t ! k)) \<and> b_data (bufs s ! j) = disk t c)"
    using assms(3-5) j by blast
next
  assume nv: "\<And>j. holds c j s \<Longrightarrow> \<not> b_valid (bufs s ! j)"
  have "view_block t c = disk t c"
    by (rule view_uncached [OF assms(2)]) (use assms(3,4) nv in blast)
  then show "view_block t c = disk s c" using assms(6) nv by simp
qed

text \<open>Taking a buffer: \<open>i\<close> becomes a locked, valid buffer for block \<open>b\<close> with the contents \<open>b\<close> had.\<close>

lemma take_buffer:
  assumes inv: "bio_inv s H" and i: "i < NBUF" "i \<notin> H" and p: "mypid s = Inr p"
    and other: "\<And>j. holds b j s \<Longrightarrow> j = i"
    and old: "holds b i s \<or> \<not> b_dirty (bufs s ! i)"
    and u: "b_dev u = 1" "b_blockno u = b" "b_valid u" "b_data u = view_block s b"
      "b_dirty u = b_dirty (bufs s ! i)" "b_refcnt u = 1" "b_lock u = \<lparr>sl_locked = True, sl_pid = p\<rparr>"
    and t: "t = upd_buf i (\<lambda>_. u) s"
  shows "bio_inv t (insert i H)" "view_block t = view_block s"
proof -
  note d = bio_invD [OF inv]
  have len: "i < length (bufs s)" using d(1) i by simp
  have bt: "bufs t ! j = (if j = i then u else bufs s ! j)" for j using t len by auto
  have ho: "holds c j t \<longleftrightarrow> (if j = i then c = b else holds c j s)" for c j
    using bt i u by (auto simp: holds_def)
  show inv': "bio_inv t (insert i H)"
    unfolding bio_inv_def
  proof (intro conjI allI impI)
    show "length (bufs t) = NBUF" "distinct (mru t)" "set (mru t) = {..<NBUF}" "insert i H \<subseteq> {..<NBUF}"
      "\<exists>c. cur t = Some c \<and> c < length (procs t)" using d(1-4,13) i t by auto
    fix j assume j: "j < NBUF"
    show "b_refcnt (bufs t ! j) = (if j \<in> insert i H then 1 else 0)" using d(5) [OF j] u bt by auto
    show "sl_locked (b_lock (bufs t ! j)) = (j \<in> insert i H)" using d(6) [OF j] u bt by auto
    show "mypid t = Inr (sl_pid (b_lock (bufs t ! j)))" if "j \<in> insert i H"
      using that d(7) [of j] p u bt t by auto
    show "b_valid (bufs t ! j)" if "b_dirty (bufs t ! j)" using that u(3) d(8) [OF j] bt by (auto split: if_splits)
    show "b_dev (bufs t ! j) = 1" if "b_dirty (bufs t ! j)" using that u(1) d(9) [OF j] bt by (auto split: if_splits)
    show "b_data (bufs t ! j) = disk t (b_blockno (bufs t ! j))"
      if "b_dev (bufs t ! j) = 1 \<and> b_valid (bufs t ! j) \<and> \<not> b_dirty (bufs t ! j) \<and> j \<notin> insert i H"
      using that d(10) [OF j] bt t by auto
  next
    fix c j k assume "holds c j t" "holds c k t"
    then show "j = k" using ho other d(11) [of c j k] by (metis (full_types))
  qed
  have "view_block t c = view_block s c" for c
  proof (cases "c = b")
    case True
    have "view_block t b = b_data u" using view_cached [OF inv', of b i] ho bt u by simp
    with True u show ?thesis by simp
  next
    case False
    have st: "holds c j t = (j \<noteq> i \<and> holds c j s)" for j using ho False by auto
    show ?thesis
    proof (rule view_cong [OF inv inv'])
      fix j assume j: "holds c j s" "b_valid (bufs s ! j)"
      show "(holds c j t \<and> b_valid (bufs t ! j) \<and> b_data (bufs t ! j) = b_data (bufs s ! j)) \<or>
        ((\<forall>k. holds c k t \<longrightarrow> \<not> b_valid (bufs t ! k)) \<and> b_data (bufs s ! j) = disk t c)"
      proof (cases "j = i")
        case True
        then have "\<not> b_dirty (bufs s ! i)" using old j(1) False by (auto simp: holds_def)
        then have "b_data (bufs s ! j) = disk t c" using d(10) [of i] i j True t by (auto simp: holds_def)
        moreover have "\<not> holds c k t" for k using st d(11) [OF j(1), of k] True by auto
        ultimately show ?thesis by blast
      next
        case False
        then show ?thesis using st j bt by auto
      qed
    next
      assume "\<And>j. holds c j s \<Longrightarrow> \<not> b_valid (bufs s ! j)"
      then have "\<And>j. holds c j t \<Longrightarrow> \<not> b_valid (bufs t ! j)" using st bt by auto
      then show "view_block t c = disk s c" using view_uncached [OF inv', of c] t by simp
    qed
  qed
  then show "view_block t = view_block s" by blast
qed

lemma upd_buf_twice: "i < length (bufs s) \<Longrightarrow> upd_buf i f (upd_buf i g s) = upd_buf i (\<lambda>_. f (g (bufs s ! i))) s"
  by (simp add: upd_buf_def)

lemma upd_buf_const: "i < length (bufs s) \<Longrightarrow> upd_buf i f s = upd_buf i (\<lambda>_. f (bufs s ! i)) s"
  by (simp add: upd_buf_def)

lemma bread_ok:
  assumes inv: "bio_inv s H" and b: "b < disksize s" and nh: "\<And>i. i \<in> H \<Longrightarrow> \<not> holds b i s"
    and avail: "(\<exists>i. holds b i s) \<or> (\<exists>i < NBUF. i \<notin> H \<and> \<not> b_dirty (bufs s ! i))"
  obtains i t where "bread 1 b s = Inr (i, t)" "i < NBUF" "i \<notin> H" "bio_inv t (insert i H)" "holds b i t"
    "b_valid (bufs t ! i)" "b_data (bufs t ! i) = view_block s b" "view_block t = view_block s" "disk t = disk s"
    "dwrites t = dwrites s" "same_rest s t" "dirty_bufs t = dirty_bufs s" "\<And>j. j \<noteq> i \<Longrightarrow> bufs t ! j = bufs s ! j"
    "holds b i s \<or> \<not> b_dirty (bufs s ! i)"
proof -
  note d = bio_invD [OF inv]
  obtain p where p: "mypid s = Inr p" using d(12) by blast
  have "\<exists>i u. bread 1 b s = Inr (i, upd_buf i (\<lambda>_. u) s) \<and> i < NBUF \<and> i \<notin> H \<and> (\<forall>j. holds b j s \<longrightarrow> j = i) \<and>
    (holds b i s \<or> \<not> b_dirty (bufs s ! i)) \<and> b_dev u = 1 \<and> b_blockno u = b \<and> b_valid u \<and>
    b_data u = view_block s b \<and> b_dirty u = b_dirty (bufs s ! i) \<and> b_refcnt u = 1 \<and>
    b_lock u = \<lparr>sl_locked = True, sl_pid = p\<rparr>"
  proof (cases "\<exists>i. holds b i s")
    case True
    then obtain i where i: "holds b i s" by blast
    then have iH: "i \<notin> H" "i < NBUF" "i < length (bufs s)" using nh d(1) by (auto simp: holds_def)
    have uniq: "\<forall>j. holds b j s \<longrightarrow> j = i" using d(11) [OF i] by blast
    have c: "b_dev (bufs s ! i) = 1" "b_blockno (bufs s ! i) = b" using i by (simp_all add: holds_def)
    have f: "find (\<lambda>i. b_dev (bufs s ! i) = 1 \<and> b_blockno (bufs s ! i) = b) (mru s) = Some i"
    proof -
      have "find (\<lambda>i. b_dev (bufs s ! i) = 1 \<and> b_blockno (bufs s ! i) = b) (mru s) \<noteq> None"
        using i iH(2) d(3) by (auto simp: find_None_iff holds_def)
      then obtain j where j: "find (\<lambda>i. b_dev (bufs s ! i) = 1 \<and> b_blockno (bufs s ! i) = b) (mru s) = Some j" by blast
      then have "holds b j s" using d(3) by (auto simp: find_Some_iff holds_def)
      then show ?thesis using j d(11) [OF i] by simp
    qed
    let ?lk = "\<lparr>sl_locked = True, sl_pid = p\<rparr>"
    let ?v = "(bufs s ! i)\<lparr>b_refcnt := 1, b_lock := ?lk\<rparr>"
    have g: "bget 1 b s = Inr (i, upd_buf i (\<lambda>_. ?v) s)"
      using f d(5,6) [OF iH(2)] iH p
      by (simp add: bget_def lock_buf_def acquiresleep_def sleeplock_eta upd_buf_twice upd_buf_const [of i s "\<lambda>b. b\<lparr>b_refcnt := Suc (b_refcnt b)\<rparr>"])
    show ?thesis
    proof (cases "b_valid (bufs s ! i)")
      case True
      then have "bread 1 b s = Inr (i, upd_buf i (\<lambda>_. ?v) s)" using g iH by (simp add: bread_def)
      moreover have "b_data (bufs s ! i) = view_block s b" using view_cached [OF inv i True] by simp
      ultimately show ?thesis
        by (intro exI [of _ i] exI [of _ ?v] conjI) (rule uniq | simp add: c i iH True)+
    next
      case False
      then have nd: "\<not> b_dirty (bufs s ! i)" using d(8) [OF iH(2)] by blast
      let ?w = "?v\<lparr>b_data := disk s b, b_valid := True\<rparr>"
      have "iderw i (upd_buf i (\<lambda>_. ?v) s) = Inr (upd_buf i (\<lambda>_. ?w) s)"
        using False nd i b iH p by (simp add: iderw_def holdingsleep_def holds_def upd_buf_twice)
      then have "bread 1 b s = Inr (i, upd_buf i (\<lambda>_. ?w) s)" using g iH False by (simp add: bread_def)
      moreover have "view_block s b = disk s b"
        by (rule view_uncached [OF inv]) (use uniq False in blast)
      ultimately show ?thesis
        by (intro exI [of _ i] exI [of _ ?w] conjI) (rule uniq | simp add: c i iH nd)+
    qed
  next
    case False
    have f1: "find (\<lambda>i. b_dev (bufs s ! i) = 1 \<and> b_blockno (bufs s ! i) = b) (mru s) = None"
      using False d(3) by (auto simp: find_None_iff holds_def)
    have "find (\<lambda>i. b_refcnt (bufs s ! i) = 0 \<and> \<not> b_dirty (bufs s ! i)) (rev (mru s)) \<noteq> None"
      using avail False d(3,5) by (auto simp: find_None_iff)
    then obtain i where f2: "find (\<lambda>i. b_refcnt (bufs s ! i) = 0 \<and> \<not> b_dirty (bufs s ! i)) (rev (mru s)) = Some i"
      by blast
    then have i: "i < NBUF" "b_refcnt (bufs s ! i) = 0" "\<not> b_dirty (bufs s ! i)" "i < length (bufs s)"
      using d(1,3) by (auto simp: find_Some_iff) (metis length_rev lessThan_iff nth_mem set_rev)+
    then have iH: "i \<notin> H" using d(5) [of i] by (auto split: if_splits)
    let ?w = "(bufs s ! i)\<lparr>b_dev := 1, b_blockno := b, b_dirty := False, b_refcnt := 1,
      b_lock := \<lparr>sl_locked = True, sl_pid = p\<rparr>, b_data := disk s b, b_valid := True\<rparr>"
    have "bread 1 b s = Inr (i, upd_buf i (\<lambda>_. ?w) s)"
      using f1 f2 i iH d(6) [OF i(1)] p b
      by (simp add: bread_def bget_def lock_buf_def acquiresleep_def sleeplock_eta iderw_def holdingsleep_def upd_buf_twice
          upd_buf_const [of i s "\<lambda>b'. b'\<lparr>b_dev := Suc 0, b_blockno := b, b_valid := False, b_dirty := False, b_refcnt := Suc 0\<rparr>"])
    moreover have "view_block s b = disk s b"
      by (rule view_uncached [OF inv]) (use False in auto)
    ultimately show ?thesis using i iH False by (intro exI [of _ i] exI [of _ ?w]) auto
  qed
  then obtain i u where iu: "bread 1 b s = Inr (i, upd_buf i (\<lambda>_. u) s)" "i < NBUF" "i \<notin> H"
    "\<And>j. holds b j s \<Longrightarrow> j = i" "holds b i s \<or> \<not> b_dirty (bufs s ! i)" "b_dev u = 1" "b_blockno u = b" "b_valid u"
    "b_data u = view_block s b" "b_dirty u = b_dirty (bufs s ! i)" "b_refcnt u = 1"
    "b_lock u = \<lparr>sl_locked = True, sl_pid = p\<rparr>" by blast
  let ?t = "upd_buf i (\<lambda>_. u) s"
  note tk = take_buffer [OF inv iu(2,3) p iu(4,5,6,7,8,9,10,11,12) refl]
  have bt: "bufs ?t ! j = (if j = i then u else bufs s ! j)" for j using d(1) iu(2) by auto
  show thesis
    by (rule that [OF iu(1,2,3) tk(1)])
      (use tk(2) iu bt in \<open>auto simp: holds_def same_rest_def dirty_bufs_def split: if_splits\<close>)
qed


lemma set_data_ok:
  assumes inv: "bio_inv s H" and i: "i \<in> H" "holds b i s" "b_valid (bufs s ! i)"
  shows "bio_inv (set_data i f s) H" "view_block (set_data i f s) = (view_block s)(b := f (b_data (bufs s ! i)))"
    "disk (set_data i f s) = disk s" "dwrites (set_data i f s) = dwrites s" "same_rest s (set_data i f s)"
    "dirty_bufs (set_data i f s) = dirty_bufs s" "holds c j (set_data i f s) = holds c j s"
    "bufs (set_data i f s) ! j = (if j = i then (bufs s ! i)\<lparr>b_data := f (b_data (bufs s ! i))\<rparr> else bufs s ! j)"
proof -
  note d = bio_invD [OF inv]
  let ?t = "set_data i f s"
  have len: "i < length (bufs s)" using d(1) i by (simp add: holds_def)
  have bt: "bufs ?t ! j = (if j = i then (bufs s ! i)\<lparr>b_data := f (b_data (bufs s ! i))\<rparr> else bufs s ! j)" for j
    using len by (simp add: set_data_def)
  then show "bufs ?t ! j = (if j = i then (bufs s ! i)\<lparr>b_data := f (b_data (bufs s ! i))\<rparr> else bufs s ! j)" .
  have ho: "holds c j ?t = holds c j s" for c j using bt by (simp add: holds_def)
  then show "holds c j ?t = holds c j s" .
  show "disk ?t = disk s" "dwrites ?t = dwrites s" "same_rest s ?t" by (simp_all add: set_data_def same_rest_def)
  show "dirty_bufs ?t = dirty_bufs s" using bt by (auto simp: dirty_bufs_def split: if_splits)
  have m: "mypid ?t = mypid s" "mru ?t = mru s" "disk ?t = disk s" "length (bufs ?t) = length (bufs s)"
    "cur ?t = cur s" "procs ?t = procs s" by (simp_all add: set_data_def)
  show inv': "bio_inv ?t H"
    using inv i(1) unfolding bio_inv_def ho m by (auto simp: bt)
  have "view_block ?t c = ((view_block s)(b := f (b_data (bufs s ! i)))) c" for c
  proof (cases "c = b")
    case True
    then show ?thesis using view_cached [OF inv', of b i] ho bt i by simp
  next
    case False
    have "view_block ?t c = view_block s c"
    proof (rule view_same [OF inv inv'])
      fix j assume "holds c j s"
      then have "j \<noteq> i" using False i(2) by (auto simp: holds_def)
      then show "b_valid (bufs ?t ! j) = b_valid (bufs s ! j)" "b_data (bufs ?t ! j) = b_data (bufs s ! j)"
        using bt by simp_all
    qed (simp_all add: ho m)
    with False show ?thesis by simp
  qed
  then show "view_block ?t = (view_block s)(b := f (b_data (bufs s ! i)))" by blast
qed

lemma bwrite_ok:
  assumes inv: "bio_inv s H" and i: "i \<in> H" "holds b i s" "b_valid (bufs s ! i)" and b: "b < disksize s"
  obtains t where "bwrite i s = Inr t" "bio_inv t H" "view_block t = view_block s"
    "disk t = (disk s)(b := b_data (bufs s ! i))" "dwrites t = dwrites s @ [(b, b_data (bufs s ! i))]"
    "same_rest s t" "dirty_bufs t = dirty_bufs s - {i}" "\<And>c j. holds c j t = holds c j s"
    "\<And>j. bufs t ! j = (if j = i then (bufs s ! i)\<lparr>b_dirty := False\<rparr> else bufs s ! j)"
proof -
  note d = bio_invD [OF inv]
  define x where "x = b_data (bufs s ! i)"
  define u where "u = upd_buf i (\<lambda>b. b\<lparr>b_dirty := True\<rparr>) s"
  define t where "t = upd_buf i (\<lambda>b. b\<lparr>b_dirty := False, b_valid := True\<rparr>)
      (u\<lparr>disk := (disk u)(b := x), dwrites := dwrites u @ [(b, x)]\<rparr>)"
  have len: "i < length (bufs s)" "i < NBUF" using d(1) i by (simp_all add: holds_def)
  have hs: "holdingsleep (b_lock (bufs s ! i)) s" using bio_inv_holdingsleep [OF inv i(1)] .
  have bu: "bufs u ! i = (bufs s ! i)\<lparr>b_dirty := True\<rparr>" "disksize u = disksize s" "mypid u = mypid s"
    using len by (simp_all add: u_def)
  have "bwrite i s = iderw i u" using hs by (simp add: bwrite_def u_def)
  also have "\<dots> = Inr t"
    using hs i b by (simp add: iderw_def holdingsleep_def bu holds_def t_def x_def Let_def)
  finally have w: "bwrite i s = Inr t" .
  have "(bufs s ! i)\<lparr>b_dirty := True, b_dirty := False, b_valid := True\<rparr> = (bufs s ! i)\<lparr>b_dirty := False\<rparr>"
    using i(3) by (cases "bufs s ! i") simp
  then have bt: "bufs t ! j = (if j = i then (bufs s ! i)\<lparr>b_dirty := False\<rparr> else bufs s ! j)" for j
    using len by (simp add: t_def u_def upd_buf_def)
  have ho: "holds c j t = holds c j s" for c j using bt by (simp add: holds_def)
  have m: "mypid t = mypid s" "mru t = mru s" "length (bufs t) = length (bufs s)"
    "cur t = cur s" "procs t = procs s" "disk t = (disk s)(b := x)" "dwrites t = dwrites s @ [(b, x)]"
    "disksize t = disksize s" "bio.more t = bio.more s" by (simp_all add: t_def u_def)
  have inv': "bio_inv t H"
    unfolding bio_inv_def
  proof (intro conjI allI impI)
    show "length (bufs t) = NBUF" "distinct (mru t)" "set (mru t) = {..<NBUF}" "H \<subseteq> {..<NBUF}"
      "\<exists>c. cur t = Some c \<and> c < length (procs t)" using d(1-4,13) m by auto
    fix j assume j: "j < NBUF"
    show "b_refcnt (bufs t ! j) = (if j \<in> H then 1 else 0)" using d(5) [OF j] bt by auto
    show "sl_locked (b_lock (bufs t ! j)) = (j \<in> H)" using d(6) [OF j] bt by auto
    show "mypid t = Inr (sl_pid (b_lock (bufs t ! j)))" if "j \<in> H" using that d(7) [of j] bt m by auto
    show "b_valid (bufs t ! j)" if "b_dirty (bufs t ! j)" using that d(8) [OF j] bt by (auto split: if_splits)
    show "b_dev (bufs t ! j) = 1" if "b_dirty (bufs t ! j)" using that d(9) [OF j] bt by (auto split: if_splits)
    show "b_data (bufs t ! j) = disk t (b_blockno (bufs t ! j))"
      if "b_dev (bufs t ! j) = 1 \<and> b_valid (bufs t ! j) \<and> \<not> b_dirty (bufs t ! j) \<and> j \<notin> H"
    proof -
      have ji: "j \<noteq> i" using that i(1) by auto
      then have "b_blockno (bufs s ! j) \<noteq> b" using that d(11) [OF i(2), of j] j bt by (auto simp: holds_def)
      then show ?thesis using that d(10) [OF j] bt ji m(6) by auto
    qed
  next
    fix c j k assume "holds c j t" "holds c k t"
    then show "j = k" using ho d(11) by metis
  qed
  have "view_block t c = view_block s c" for c
  proof (rule view_same [OF inv inv'])
    assume "\<And>j. holds c j s \<Longrightarrow> \<not> b_valid (bufs s ! j)"
    then have "c \<noteq> b" using i by auto
    then show "disk t c = disk s c" using m(6) by simp
  qed (use ho bt in simp_all)
  then have v: "view_block t = view_block s" by blast
  have "dirty_bufs t = dirty_bufs s - {i}" unfolding dirty_bufs_def by (auto simp: bt split: if_splits)
  then show thesis using that [OF w inv' v] m ho bt by (simp add: same_rest_def x_def)
qed

lemma wakeup_simps:
  "mypid (wakeup ch s) = mypid s" if "\<exists>c. cur s = Some c \<and> c < length (procs s)"
  using that by (auto simp: mypid_def wakeup_def wakeup1_nth) (simp_all add: wakeup1_def)

lemma brelse_ok:
  assumes inv: "bio_inv s H" and i: "i \<in> H"
    and coh: "b_dev (bufs s ! i) = 1 \<Longrightarrow> b_valid (bufs s ! i) \<Longrightarrow> \<not> b_dirty (bufs s ! i) \<Longrightarrow>
      b_data (bufs s ! i) = disk s (b_blockno (bufs s ! i))"
  obtains t where "brelse i s = Inr t" "bio_inv t (H - {i})" "view_block t = view_block s" "disk t = disk s"
    "dwrites t = dwrites s" "same_rest s t" "dirty_bufs t = dirty_bufs s" "\<And>c j. holds c j t = holds c j s"
    "\<And>j. j \<noteq> i \<Longrightarrow> bufs t ! j = bufs s ! j"
proof -
  note d = bio_invD [OF inv]
  have iN: "i < NBUF" "i < length (bufs s)" using d(1,4) i by auto
  have hs: "holdingsleep (b_lock (bufs s ! i)) s" using bio_inv_holdingsleep [OF inv i] .
  let ?w = "wakeup (AtBuf i) s"
  let ?v = "(bufs s ! i)\<lparr>b_lock := \<lparr>sl_locked = False, sl_pid = 0\<rparr>, b_refcnt := 0\<rparr>"
  let ?t = "(upd_buf i (\<lambda>_. ?v) ?w)\<lparr>mru := i # remove1 i (mru s)\<rparr>"
  have wk: "bufs ?w = bufs s" "mru ?w = mru s" "disk ?w = disk s" "dwrites ?w = dwrites s" "cur ?w = cur s"
    "length (procs ?w) = length (procs s)" "disksize ?w = disksize s" "bio.more ?w = bio.more s"
    by (simp_all add: wakeup_def wakeup1_def)
  have "b_refcnt (bufs s ! i) = 1" using d(5) [OF iN(1)] i by simp
  then have r: "brelse i s = Inr ?t"
    using hs iN wk by (simp add: brelse_def releasesleep_def sleeplock_eta Let_def upd_buf_def)
  have bt: "bufs ?t ! j = (if j = i then ?v else bufs s ! j)" for j using iN wk by (simp add: upd_buf_def)
  have ho: "holds c j ?t = holds c j s" for c j using bt by (simp add: holds_def)
  have mp: "mypid ?t = mypid s"
    using wakeup_simps [OF d(13), of "AtBuf i"] by (simp add: mypid_def upd_buf_def split: option.splits)
  have m: "length (bufs ?t) = length (bufs s)" "cur ?t = cur s" "length (procs ?t) = length (procs s)" "disk ?t = disk s"
    "mru ?t = i # remove1 i (mru s)" using wk by (simp_all add: upd_buf_def)
  have inv': "bio_inv ?t (H - {i})"
    unfolding bio_inv_def
  proof (intro conjI allI impI)
    show "length (bufs ?t) = NBUF" "distinct (mru ?t)" "set (mru ?t) = {..<NBUF}" "H - {i} \<subseteq> {..<NBUF}"
      using d(1-4) m iN by auto
    show "\<exists>c. cur ?t = Some c \<and> c < length (procs ?t)" using d(13) m by simp
    fix j assume j: "j < NBUF"
    show "b_refcnt (bufs ?t ! j) = (if j \<in> H - {i} then 1 else 0)" using d(5) [OF j] bt by auto
    show "sl_locked (b_lock (bufs ?t ! j)) = (j \<in> H - {i})" using d(6) [OF j] bt by auto
    show "mypid ?t = Inr (sl_pid (b_lock (bufs ?t ! j)))" if "j \<in> H - {i}" using that d(7) [of j] bt mp by auto
    show "b_valid (bufs ?t ! j)" if "b_dirty (bufs ?t ! j)" using that d(8) [OF j] bt by (auto split: if_splits)
    show "b_dev (bufs ?t ! j) = 1" if "b_dirty (bufs ?t ! j)" using that d(9) [OF j] bt by (auto split: if_splits)
    show "b_data (bufs ?t ! j) = disk ?t (b_blockno (bufs ?t ! j))"
      if "b_dev (bufs ?t ! j) = 1 \<and> b_valid (bufs ?t ! j) \<and> \<not> b_dirty (bufs ?t ! j) \<and> j \<notin> H - {i}"
      using that d(10) [OF j] coh bt m(4) by (auto split: if_splits)
  next
    fix c j k assume "holds c j ?t" "holds c k ?t"
    then show "j = k" using ho d(11) by metis
  qed
  have "view_block ?t c = view_block s c" for c
    by (rule view_same [OF inv inv']) (use ho bt m(4) in simp_all)
  then have v: "view_block ?t = view_block s" by blast
  have "b_dirty (bufs ?t ! j) = b_dirty (bufs s ! j)" for j unfolding bt by simp
  then have "dirty_bufs ?t = dirty_bufs s" unfolding dirty_bufs_def by blast
  then show thesis
    using that [OF r inv' v m(4)] ho bt wk by (simp add: same_rest_def upd_buf_def)
qed


section \<open>One block at a time\<close>

text \<open>The blocks with changes that are not on the disk yet.\<close>

definition dirty_blocks :: "'a bio_scheme \<Rightarrow> nat set" where
  "dirty_blocks s = {b. \<exists>i. holds b i s \<and> i \<in> dirty_bufs s}"

lemma clean_view:
  assumes "bio_inv s {}" "b \<notin> dirty_blocks s"
  shows "view_block s b = disk s b"
proof (cases "\<exists>i. holds b i s \<and> b_valid (bufs s ! i)")
  case True
  then obtain i where i: "holds b i s" "b_valid (bufs s ! i)" by blast
  then have "\<not> b_dirty (bufs s ! i)" using assms(2) by (auto simp: dirty_blocks_def dirty_bufs_def holds_def)
  then show ?thesis using bio_invD(10) [OF assms(1), of i] i view_cached [OF assms(1) i] by (auto simp: holds_def)
next
  case False
  then show ?thesis using view_uncached [OF assms(1)] by blast
qed

text \<open>Room for one more buffer: block \<open>b\<close> is in a dirty buffer, or there is a clean one to recycle.\<close>

definition room :: "nat \<Rightarrow> 'a bio_scheme \<Rightarrow> bool" where
  "room n s = (n + card (dirty_bufs s) \<le> NBUF)"

lemma room_clean:
  assumes "room n s" "card K < n" "finite K"
  shows "\<exists>i < NBUF. i \<notin> K \<and> \<not> b_dirty (bufs s ! i)"
proof (rule ccontr)
  assume "\<not> ?thesis"
  then have "{..<NBUF} \<subseteq> K \<union> dirty_bufs s" by (auto simp: dirty_bufs_def)
  moreover have "finite (K \<union> dirty_bufs s)" using assms(3) by (simp add: dirty_bufs_def)
  ultimately have "card {..<NBUF} \<le> card (K \<union> dirty_bufs s)" by (rule card_mono [rotated])
  then have "NBUF \<le> card (K \<union> dirty_bufs s)" by simp
  also have "\<dots> \<le> card K + card (dirty_bufs s)" by (rule card_Un_le)
  finally show False using assms(1,2) by (simp add: room_def)
qed

lemma finite_dirty [simp]: "finite (dirty_bufs s)"
  by (simp add: dirty_bufs_def)

lemma room_mono: "room n s \<Longrightarrow> dirty_bufs t \<subseteq> dirty_bufs s \<Longrightarrow> room n t"
  unfolding room_def using card_mono [OF finite_dirty, of "dirty_bufs t" s] by linarith

text \<open>Read, change and write through one block, as \<open>write_head\<close> does.\<close>

definition rewrite_block :: "nat \<Rightarrow> nat \<Rightarrow> (block \<Rightarrow> block) \<Rightarrow> 'a bio_scheme \<Rightarrow> 'a bio_scheme res" where
  "rewrite_block dev b f s =
     bindE (bread dev b s) (\<lambda>(i, s). bindE (bwrite i (set_data i f s)) (brelse i))"

lemma rewrite_block_ok:
  assumes inv: "bio_inv s {}" and b: "b < disksize s" and r: "room 1 s"
  obtains t where "rewrite_block 1 b f s = Inr t" "bio_inv t {}" "view_block t = (view_block s)(b := f (view_block s b))"
    "disk t = (disk s)(b := f (view_block s b))" "dwrites t = dwrites s @ [(b, f (view_block s b))]" "same_rest s t"
    "dirty_bufs t \<subseteq> dirty_bufs s" "dirty_blocks t = dirty_blocks s - {b}"
proof -
  have "\<exists>i < NBUF. i \<notin> {} \<and> \<not> b_dirty (bufs s ! i)" by (rule room_clean [OF r]) auto
  then obtain i u where u: "bread 1 b s = Inr (i, u)" "i < NBUF" "bio_inv u {i}" "holds b i u"
    "b_valid (bufs u ! i)" "b_data (bufs u ! i) = view_block s b" "view_block u = view_block s" "disk u = disk s"
    "dwrites u = dwrites s" "same_rest s u" "dirty_bufs u = dirty_bufs s" "\<And>j. j \<noteq> i \<Longrightarrow> bufs u ! j = bufs s ! j"
    "holds b i s \<or> \<not> b_dirty (bufs s ! i)"
    using bread_ok [OF inv b] by (metis empty_iff)
  have iI: "i \<in> {i}" by simp
  note sd = set_data_ok [OF u(3) iI u(4,5), where f = f]
  let ?v = "set_data i f u"
  have v: "holds b i ?v" "b_valid (bufs ?v ! i)" "b_data (bufs ?v ! i) = f (view_block s b)" "b < disksize ?v"
    using sd(5,7,8) u(4-6,10) b by (auto simp: same_rest_def)
  obtain w where w: "bwrite i ?v = Inr w" "bio_inv w {i}" "view_block w = view_block ?v"
    "disk w = (disk ?v)(b := b_data (bufs ?v ! i))" "dwrites w = dwrites ?v @ [(b, b_data (bufs ?v ! i))]"
    "same_rest ?v w" "dirty_bufs w = dirty_bufs ?v - {i}" "\<And>c j. holds c j w = holds c j ?v"
    "\<And>j. bufs w ! j = (if j = i then (bufs ?v ! i)\<lparr>b_dirty := False\<rparr> else bufs ?v ! j)"
    using bwrite_ok [OF sd(1) iI v(1,2,4)] by blast
  have coh: "b_data (bufs w ! i) = disk w (b_blockno (bufs w ! i))"
    using w(4,9) v(1) by (simp add: holds_def)
  obtain t where t: "brelse i w = Inr t" "bio_inv t ({i} - {i})" "view_block t = view_block w" "disk t = disk w"
    "dwrites t = dwrites w" "same_rest w t" "dirty_bufs t = dirty_bufs w" "\<And>c j. holds c j t = holds c j w"
    using brelse_ok [OF w(2) iI] coh by metis
  have other: "holds c j u \<longleftrightarrow> holds c j s" if "j \<noteq> i" for c j using u(12) that by (simp add: holds_def)
  have "dirty_blocks t = dirty_blocks s - {b}"
  proof -
    have dt: "dirty_bufs t = dirty_bufs s - {i}" using t(7) w(7) sd(6) u(11) by simp
    have ht: "holds c j t = holds c j u" for c j using t(8) w(8) sd(7) by simp
    have uq: "holds b j s \<Longrightarrow> j \<noteq> i \<Longrightarrow> False" for j
      using other [of j b] bio_invD(11) [OF u(3) u(4)] by blast
    have id: "i \<in> dirty_bufs s \<Longrightarrow> holds c i s \<Longrightarrow> c = b" for c
      using u(13) by (auto simp: dirty_bufs_def holds_def)
    have "(\<exists>j. holds c j u \<and> j \<in> dirty_bufs s - {i}) \<longleftrightarrow> (\<exists>j. holds c j s \<and> j \<in> dirty_bufs s) \<and> c \<noteq> b" for c
    proof
      assume "\<exists>j. holds c j u \<and> j \<in> dirty_bufs s - {i}"
      then obtain j where j: "holds c j u" "j \<in> dirty_bufs s" "j \<noteq> i" by blast
      then show "(\<exists>j. holds c j s \<and> j \<in> dirty_bufs s) \<and> c \<noteq> b" using other [OF j(3)] uq by blast
    next
      assume r: "(\<exists>j. holds c j s \<and> j \<in> dirty_bufs s) \<and> c \<noteq> b"
      then obtain j where j: "holds c j s" "j \<in> dirty_bufs s" by blast
      then have "j \<noteq> i" using r id by blast
      then show "\<exists>j. holds c j u \<and> j \<in> dirty_bufs s - {i}" using j other by blast
    qed
    then show ?thesis unfolding dirty_blocks_def dt ht by blast
  qed
  moreover have "same_rest s t" using t(6) w(6) sd(5) u(10) by (simp add: same_rest_def)
  moreover have "rewrite_block 1 b f s = Inr t" using u(1) w(1) t(1) by (simp add: rewrite_block_def)
  moreover have "bio_inv t {}" using t(2) by simp
  moreover have "view_block t = (view_block s)(b := f (view_block s b))" using t(3) w(3) sd(2) u(6,7) by simp
  moreover have "disk t = (disk s)(b := f (view_block s b))" using t(4) w(4) sd(3) u(8) v(3) by simp
  moreover have "dwrites t = dwrites s @ [(b, f (view_block s b))]" using t(5) w(5) sd(4) u(9) v(3) by simp
  moreover have "dirty_bufs t \<subseteq> dirty_bufs s" using t(7) w(7) sd(6) u(11) by blast
  ultimately show thesis by (intro that [of t]) assumption+
qed

text \<open>Copy a block to another, with two buffers, as \<open>install_trans\<close> and \<open>write_log\<close> do; they differ in
  the order in which the two are taken and released.\<close>

definition copy_block :: "bool \<Rightarrow> nat \<Rightarrow> nat \<Rightarrow> nat \<Rightarrow> 'a bio_scheme \<Rightarrow> 'a bio_scheme res" where
  "copy_block src_first dev a c s =
     (if src_first then
        bindE (bread dev a s) (\<lambda>(i, s). bindE (bread dev c s) (\<lambda>(j, s).
          bindE (bwrite j (set_data j (\<lambda>_. b_data (bufs s ! i)) s)) (\<lambda>s. bindE (brelse i s) (brelse j))))
      else
        bindE (bread dev c s) (\<lambda>(j, s). bindE (bread dev a s) (\<lambda>(i, s).
          bindE (bwrite j (set_data j (\<lambda>_. b_data (bufs s ! i)) s)) (\<lambda>s. bindE (brelse i s) (brelse j)))))"

lemma take_two:
  assumes inv: "bio_inv s {}" and b: "x < disksize s" "y < disksize s" "x \<noteq> y"
    and r: "room 2 s \<or> room 1 s \<and> (x \<in> dirty_blocks s \<or> y \<in> dirty_blocks s)"
  obtains i u j v where "bread 1 x s = Inr (i, u)" "bread 1 y u = Inr (j, v)" "i \<noteq> j" "bio_inv v {i, j}"
    "holds x i v" "holds y j v" "b_valid (bufs v ! i)" "b_valid (bufs v ! j)"
    "b_data (bufs v ! i) = view_block s x" "b_data (bufs v ! j) = view_block s y"
    "view_block v = view_block s" "disk v = disk s" "dwrites v = dwrites s" "same_rest s v"
    "dirty_bufs v = dirty_bufs s" "dirty_blocks v = dirty_blocks s"
proof -
  have "\<exists>i < NBUF. i \<notin> {} \<and> \<not> b_dirty (bufs s ! i)" by (rule room_clean [of 1]) (use r in \<open>auto simp: room_def\<close>)
  then obtain i u where u: "bread 1 x s = Inr (i, u)" "i < NBUF" "bio_inv u {i}" "holds x i u"
    "b_valid (bufs u ! i)" "b_data (bufs u ! i) = view_block s x" "view_block u = view_block s" "disk u = disk s"
    "dwrites u = dwrites s" "same_rest s u" "dirty_bufs u = dirty_bufs s" "\<And>j. j \<noteq> i \<Longrightarrow> bufs u ! j = bufs s ! j"
    "holds x i s \<or> \<not> b_dirty (bufs s ! i)"
    using bread_ok [OF inv b(1)] by (metis empty_iff)
  have hu: "holds c k u = holds c k s" if "k \<noteq> i" for c k using u(12) that by (simp add: holds_def)
  have avail: "(\<exists>k. holds y k u) \<or> (\<exists>k < NBUF. k \<notin> {i} \<and> \<not> b_dirty (bufs u ! k))"
  proof -
    consider (two) "room 2 s" | (src) "room 1 s" "x \<in> dirty_blocks s" | (dst) "y \<in> dirty_blocks s" using r by blast
    then show ?thesis
    proof cases
      case two
      have "\<exists>k < NBUF. k \<notin> {i} \<and> \<not> b_dirty (bufs s ! k)" by (rule room_clean [OF two]) auto
      then show ?thesis using u(12) by (metis singletonI)
    next
      case src
      then obtain k where k: "holds x k s" "k \<in> dirty_bufs s" by (auto simp: dirty_blocks_def)
      have "k = i" using hu [of k x] k bio_invD(11) [OF u(3) u(4), of k] by blast
      then have di: "i \<in> dirty_bufs s" using k by simp
      have "\<exists>k < NBUF. k \<notin> {} \<and> \<not> b_dirty (bufs s ! k)" by (rule room_clean [OF src(1)]) auto
      then obtain k where "k < NBUF" "\<not> b_dirty (bufs s ! k)" by blast
      moreover from this have "k \<noteq> i" using di by (auto simp: dirty_bufs_def)
      ultimately show ?thesis using u(12) by auto
    next
      case dst
      then obtain k where k: "holds y k s" "k \<in> dirty_bufs s" by (auto simp: dirty_blocks_def)
      then have "k \<noteq> i" using u(13) b(3) by (auto simp: holds_def dirty_bufs_def)
      then show ?thesis using hu k by blast
    qed
  qed
  have nh: "\<And>k. k \<in> {i} \<Longrightarrow> \<not> holds y k u" using u(4) b(3) by (auto simp: holds_def)
  have yu: "y < disksize u" using u(10) b(2) by (simp add: same_rest_def)
  obtain j v where v: "bread 1 y u = Inr (j, v)" "j \<notin> {i}" "bio_inv v (insert j {i})" "holds y j v"
    "b_valid (bufs v ! j)" "b_data (bufs v ! j) = view_block u y" "view_block v = view_block u" "disk v = disk u"
    "dwrites v = dwrites u" "same_rest u v" "dirty_bufs v = dirty_bufs u" "\<And>k. k \<noteq> j \<Longrightarrow> bufs v ! k = bufs u ! k"
    "holds y j u \<or> \<not> b_dirty (bufs u ! j)"
    using bread_ok [OF u(3) yu nh avail] by metis
  have ji: "i \<noteq> j" using v(2) by blast
  have hv: "holds c k v = holds c k u" if "k \<noteq> j" for c k using v(12) that by (simp add: holds_def)
  have db: "dirty_blocks v = dirty_blocks s"
  proof -
    have "holds c k v \<longleftrightarrow> holds c k s" if k: "k \<in> dirty_bufs s" for c k
    proof -
      consider "k = i" | "k = j" | "k \<noteq> i" "k \<noteq> j" by blast
      then show ?thesis
      proof cases
        case 1
        then have "holds x k s" "holds x k v" using k u(4,13) hv [OF ji] by (auto simp: dirty_bufs_def)
        then show ?thesis by (auto simp: holds_def)
      next
        case 2
        then have "holds y k s" "holds y k v" using k v(4,13) u(12) [of j] hu [of j] ji by (auto simp: dirty_bufs_def)
        then show ?thesis by (auto simp: holds_def)
      next
        case 3
        then show ?thesis using hv hu by simp
      qed
    qed
    then show ?thesis unfolding dirty_blocks_def using v(11) u(11) by auto
  qed
  show thesis
    by (rule that [OF u(1) v(1) ji _ _ v(4) _ v(5) _ _ _ _ _ _ _ db])
      (use v(3,6-11) u(4-11) hv [OF ji] v(12) [OF ji] in \<open>auto simp: insert_commute intro: same_rest_trans\<close>)
qed

lemma copy_block_ok:
  assumes inv: "bio_inv s {}" and b: "a < disksize s" "c < disksize s" "a \<noteq> c"
    and r: "room 2 s \<or> room 1 s \<and> (a \<in> dirty_blocks s \<or> c \<in> dirty_blocks s)"
  obtains t where "copy_block sf 1 a c s = Inr t" "bio_inv t {}" "view_block t = (view_block s)(c := view_block s a)"
    "disk t = (disk s)(c := view_block s a)" "dwrites t = dwrites s @ [(c, view_block s a)]" "same_rest s t"
    "dirty_bufs t \<subseteq> dirty_bufs s" "dirty_blocks t = dirty_blocks s - {c}"
proof -
  obtain i u j v where rd: "if sf then bread 1 a s = Inr (i, u) \<and> bread 1 c u = Inr (j, v)
      else bread 1 c s = Inr (j, u) \<and> bread 1 a u = Inr (i, v)"
    and v: "i \<noteq> j" "bio_inv v {i, j}" "holds a i v" "holds c j v" "b_valid (bufs v ! i)" "b_valid (bufs v ! j)"
    "b_data (bufs v ! i) = view_block s a" "view_block v = view_block s" "disk v = disk s"
    "dwrites v = dwrites s" "same_rest s v" "dirty_bufs v = dirty_bufs s" "dirty_blocks v = dirty_blocks s"
  proof (cases sf)
    case True
    show thesis
    proof (rule take_two [OF inv b r], goal_cases)
      case (1 i u j v)
      then show thesis by (intro that [of i u j v]) (simp_all add: True)
    qed
  next
    case False
    have b': "c \<noteq> a" and r': "room 2 s \<or> room 1 s \<and> (c \<in> dirty_blocks s \<or> a \<in> dirty_blocks s)" using b(3) r by auto
    show thesis
    proof (rule take_two [OF inv b(2,1) b' r'], goal_cases)
      case (1 j u i v)
      then show thesis by (intro that [of i u j v]) (simp_all add: False insert_commute)
    qed
  qed
  have jJ: "j \<in> {i, j}" and iI: "i \<in> {i, j}" by simp_all
  note sd = set_data_ok [OF v(2) jJ v(4,6), where f = "\<lambda>_. view_block s a"]
  let ?w = "set_data j (\<lambda>_. view_block s a) v"
  have w0: "holds c j ?w" "b_valid (bufs ?w ! j)" "c < disksize ?w" "b_data (bufs ?w ! j) = view_block s a"
    using sd(5,7,8) v(4,6,11) b by (auto simp: same_rest_def)
  obtain w where w: "bwrite j ?w = Inr w" "bio_inv w {i, j}" "view_block w = view_block ?w"
    "disk w = (disk ?w)(c := b_data (bufs ?w ! j))" "dwrites w = dwrites ?w @ [(c, b_data (bufs ?w ! j))]"
    "same_rest ?w w" "dirty_bufs w = dirty_bufs ?w - {j}" "\<And>c k. holds c k w = holds c k ?w"
    "\<And>k. bufs w ! k = (if k = j then (bufs ?w ! j)\<lparr>b_dirty := False\<rparr> else bufs ?w ! k)"
    using bwrite_ok [OF sd(1) jJ w0(1-3)] by blast
  have hi: "holds a i w" using w(8) sd(7) v(3) by simp
  have bi: "bufs w ! i = bufs v ! i" using w(9) [of i] sd(8) v(1) by simp
  have cohi: "b_data (bufs w ! i) = disk w (b_blockno (bufs w ! i))" if "\<not> b_dirty (bufs w ! i)"
  proof -
    have "i \<notin> dirty_bufs s" using that bi v(12) by (auto simp: dirty_bufs_def)
    then have "a \<notin> dirty_blocks s"
      using v(13,12) bio_invD(11) [OF v(2,3)] by (auto simp: dirty_blocks_def)
    then have "view_block s a = disk s a" by (rule clean_view [OF inv])
    then show ?thesis using bi v(7) hi w(4) sd(3) v(9) b(3) by (simp add: holds_def)
  qed
  obtain x where x: "brelse i w = Inr x" "bio_inv x ({i, j} - {i})" "view_block x = view_block w" "disk x = disk w"
    "dwrites x = dwrites w" "same_rest w x" "dirty_bufs x = dirty_bufs w" "\<And>c k. holds c k x = holds c k w"
    "\<And>k. k \<noteq> i \<Longrightarrow> bufs x ! k = bufs w ! k"
    using brelse_ok [OF w(2) iI] cohi by metis
  have jx: "j \<in> {i, j} - {i}" using v(1) by simp
  have cohj: "b_data (bufs x ! j) = disk x (b_blockno (bufs x ! j))"
    using w(4,9) w0 x(4,8,9) v(1) by (simp add: holds_def)
  obtain t where t: "brelse j x = Inr t" "bio_inv t ({i, j} - {i} - {j})" "view_block t = view_block x" "disk t = disk x"
    "dwrites t = dwrites x" "same_rest x t" "dirty_bufs t = dirty_bufs x" "\<And>c k. holds c k t = holds c k x"
    using brelse_ok [OF x(2) jx] cohj by metis
  have e: "copy_block sf 1 a c s = Inr t"
    using rd w(1) x(1) t(1) v(7) by (auto simp: copy_block_def split: if_splits)
  have dt: "dirty_bufs t = dirty_bufs s - {j}" using t(7) x(7) w(7) sd(6) v(12) by simp
  have ht: "holds c' k t = holds c' k v" for c' k using t(8) x(8) w(8) sd(7) by simp
  have "dirty_blocks t = dirty_blocks v - {c}"
  proof -
    have "(c' = c) = (k = j)" if "holds c' k v" for c' k
    proof
      assume "c' = c"
      then show "k = j" using that bio_invD(11) [OF v(2) v(4), of k] by simp
    next
      assume "k = j"
      then show "c' = c" using that v(4) by (simp add: holds_def)
    qed
    then show ?thesis unfolding dirty_blocks_def dt ht v(12) by blast
  qed
  moreover have "bio_inv t {}"
  proof -
    have "{i, j} - {i} - {j} = {}" by blast
    then show ?thesis using t(2) by (simp only:)
  qed
  moreover have "same_rest s t" using t(6) x(6) w(6) sd(5) v(11) by (simp add: same_rest_def)
  moreover have "view_block t = (view_block s)(c := view_block s a)" using t(3) x(3) w(3) sd(2) v(8) by simp
  moreover have "disk t = (disk s)(c := view_block s a)" using t(4) x(4) w(4) sd(3) v(9) w0(4) by simp
  moreover have "dwrites t = dwrites s @ [(c, view_block s a)]" using t(5) x(5) w(5) sd(4) v(10) w0(4) by simp
  moreover have "dirty_bufs t \<subseteq> dirty_bufs s" using dt by blast
  ultimately show thesis using e v(13) by (intro that [of t]) (assumption | simp only:)+
qed

end
