(* ===== verification/Log.thy ===== *)
theory Log
  imports Bio
begin

text \<open>
  The redo log of the file system, \<open>log.c\<close>, with \<open>readsb\<close> of \<open>fs.c\<close>. \<open>l_blocks\<close> is \<open>log.lh\<close>: the
  numbers of the blocks the transaction has changed so far, \<open>n\<close> being its length. The commit
  protocol is related to crashes by the writes it sends to the disk (\<open>dwrites\<close> of \<open>Bio\<close>): the disk
  after a crash is the old one with a prefix of them applied.
\<close>

section \<open>State\<close>

abbreviation LOGSIZE :: nat where "LOGSIZE \<equiv> 30"
abbreviation MAXOPBLOCKS :: int where "MAXOPBLOCKS \<equiv> 10"

record superblock =
  sb_size :: "32 word"
  sb_nblocks :: "32 word"
  sb_ninodes :: "32 word"
  sb_nlog :: "32 word"
  sb_logstart :: "32 word"
  sb_inodestart :: "32 word"
  sb_bmapstart :: "32 word"

record logst = bio +
  l_start :: nat
  l_size :: int
  l_outstanding :: int
  l_committing :: bool
  l_dev :: nat
  l_blocks :: "nat list"

section \<open>Operations\<close>

definition readsb :: "nat \<Rightarrow> 'a bio_scheme \<Rightarrow> (superblock \<times> 'a bio_scheme) res" where
  "readsb dev s =
     bindE (bread dev 1 s) (\<lambda>(i, s).
       let d = b_data (bufs s ! i);
           sb = \<lparr>sb_size = rd32 d 0, sb_nblocks = rd32 d 4, sb_ninodes = rd32 d 8, sb_nlog = rd32 d 12,
             sb_logstart = rd32 d 16, sb_inodestart = rd32 d 20, sb_bmapstart = rd32 d 24\<rparr>
       in bindE (brelse i s) (\<lambda>s. Inr (sb, s)))"

definition install_trans :: "'a logst_scheme \<Rightarrow> 'a logst_scheme res" where
  "install_trans s =
     foldE (\<lambda>tail. copy_block True (l_dev s) (l_start s + tail + 1) (l_blocks s ! tail)) [0..<length (l_blocks s)] s"

definition head_blocks :: "block \<Rightarrow> nat list" where
  "head_blocks d = map (\<lambda>i. unat (rd32 d (4 + 4 * i))) [0..<nat (sint (rd32 d 0))]"

definition read_head :: "'a logst_scheme \<Rightarrow> 'a logst_scheme res" where
  "read_head s =
     bindE (bread (l_dev s) (l_start s) s) (\<lambda>(i, s).
       let d = b_data (bufs s ! i)
       in if sint (rd32 d 0) > int LOGSIZE then Inl (Fault ''read_head: log.lh.block'')
          else brelse i (s\<lparr>l_blocks := head_blocks d\<rparr>))"

fun wr_ints :: "nat \<Rightarrow> nat list \<Rightarrow> block \<Rightarrow> block" where
  "wr_ints i [] b = b"
| "wr_ints i (x # xs) b = wr_ints (i + 4) xs (wr32 i (of_nat x) b)"

definition head_data :: "nat list \<Rightarrow> block \<Rightarrow> block" where
  "head_data bs d = wr_ints 4 bs (wr32 0 (of_nat (length bs)) d)"

definition write_head :: "'a logst_scheme \<Rightarrow> 'a logst_scheme res" where
  "write_head s = rewrite_block (l_dev s) (l_start s) (head_data (l_blocks s)) s"

definition recover_from_log :: "'a logst_scheme \<Rightarrow> 'a logst_scheme res" where
  "recover_from_log s =
     bindE (read_head s) (\<lambda>s. bindE (install_trans s) (\<lambda>s. write_head (s\<lparr>l_blocks := []\<rparr>)))"

definition initlog :: "nat \<Rightarrow> 'a logst_scheme \<Rightarrow> 'a logst_scheme res" where
  "initlog dev s =
     bindE (readsb dev s) (\<lambda>(sb, s).
       recover_from_log (s\<lparr>l_start := unat (sb_logstart sb), l_size := sint (sb_nlog sb), l_dev := dev\<rparr>))"

definition begin_op :: "'a logst_scheme \<Rightarrow> 'a logst_scheme res" where
  "begin_op s =
     (if l_committing s then Inl (Sleep AtLog)
      else if int (length (l_blocks s)) + (l_outstanding s + 1) * MAXOPBLOCKS > int LOGSIZE then Inl (Sleep AtLog)
      else Inr (s\<lparr>l_outstanding := l_outstanding s + 1\<rparr>))"

definition write_log :: "'a logst_scheme \<Rightarrow> 'a logst_scheme res" where
  "write_log s =
     foldE (\<lambda>tail. copy_block False (l_dev s) (l_blocks s ! tail) (l_start s + tail + 1)) [0..<length (l_blocks s)] s"

definition commit :: "'a logst_scheme \<Rightarrow> 'a logst_scheme res" where
  "commit s =
     (if length (l_blocks s) > 0 then
        bindE (write_log s) (\<lambda>s. bindE (write_head s) (\<lambda>s. bindE (install_trans s) (\<lambda>s.
          write_head (s\<lparr>l_blocks := []\<rparr>))))
      else Inr s)"

definition end_op :: "'a logst_scheme \<Rightarrow> 'a logst_scheme res" where
  "end_op s =
     (let s = s\<lparr>l_outstanding := l_outstanding s - 1\<rparr>
      in if l_committing s then Inl (Panic ''log.committing'')
         else if l_outstanding s = 0 then
           bindE (commit (s\<lparr>l_committing := True\<rparr>)) (\<lambda>s. Inr (wakeup AtLog (s\<lparr>l_committing := False\<rparr>)))
         else Inr (wakeup AtLog s))"

definition log_write :: "nat \<Rightarrow> 'a logst_scheme \<Rightarrow> 'a logst_scheme res" where
  "log_write i s =
     (if length (l_blocks s) \<ge> LOGSIZE \<or> int (length (l_blocks s)) \<ge> l_size s - 1 then Inl (Panic ''too big a transaction'')
      else if l_outstanding s < 1 then Inl (Panic ''log_write outside of trans'')
      else
        let b = b_blockno (bufs s ! i);
            s = (case first_idx (\<lambda>x. x = b) (l_blocks s) of
                   Some k \<Rightarrow> s\<lparr>l_blocks := (l_blocks s)[k := b]\<rparr>
                 | None \<Rightarrow> s\<lparr>l_blocks := l_blocks s @ [b]\<rparr>)
        in Inr (upd_buf i (\<lambda>b. b\<lparr>b_dirty := True\<rparr>) s))"

section \<open>Headers\<close>

lemma rd32_wr_ints_before: "j + 4 \<le> i \<Longrightarrow> rd32 (wr_ints i xs b) j = rd32 b j"
  by (induction i xs b rule: wr_ints.induct) (simp_all add: rd32_wr32_other)

lemma rd32_wr_ints: "k < length xs \<Longrightarrow> rd32 (wr_ints i xs b) (i + 4 * k) = of_nat (xs ! k)"
proof (induction xs arbitrary: i b k)
  case (Cons x xs)
  show ?case
  proof (cases k)
    case 0
    then show ?thesis by (simp add: rd32_wr_ints_before)
  next
    case (Suc m)
    then show ?thesis using Cons.IH [of m "i + 4"] Cons.prems by (simp add: algebra_simps)
  qed
qed simp

lemma sint_of_nat32: "n < 2 ^ 31 \<Longrightarrow> sint (of_nat n :: 32 word) = int n"
  by (simp add: sint_uint uint_nat unat_of_nat32 signed_take_bit_int_eq_self)

lemma head_blocks_head_data:
  assumes "length bs < 2 ^ 31" "\<forall>b \<in> set bs. b < 2 ^ 31"
  shows "head_blocks (head_data bs d) = bs"
proof (rule nth_equalityI)
  have n: "rd32 (head_data bs d) 0 = of_nat (length bs)" by (simp add: head_data_def rd32_wr_ints_before)
  then show len: "length (head_blocks (head_data bs d)) = length bs"
    using assms(1) by (simp add: head_blocks_def sint_of_nat32)
  fix i assume "i < length (head_blocks (head_data bs d))"
  then have i: "i < length bs" using len by simp
  then have "bs ! i < 2 ^ 31" using assms(2) by simp
  then show "head_blocks (head_data bs d) ! i = bs ! i"
    using i len rd32_wr_ints [OF i, of 4] by (simp add: head_blocks_def head_data_def unat_of_nat32)
qed

lemma head_blocks_zero: "sint (rd32 d 0) = 0 \<Longrightarrow> head_blocks d = []"
  by (simp add: head_blocks_def)

section \<open>Writes\<close>

definition apply_writes :: "(nat \<times> block) list \<Rightarrow> (nat \<Rightarrow> block) \<Rightarrow> nat \<Rightarrow> block" where
  "apply_writes ws d = foldl (\<lambda>d (b, x). d(b := x)) d ws"

lemma apply_writes_simps [simp]:
  "apply_writes [] d = d" "apply_writes ((b, x) # ws) d = apply_writes ws (d(b := x))"
  "apply_writes (ws @ ws') d = apply_writes ws' (apply_writes ws d)"
  by (simp_all add: apply_writes_def)

lemma apply_writes_other: "b \<notin> fst ` set ws \<Longrightarrow> apply_writes ws d b = d b"
  by (induction ws arbitrary: d) auto

lemma apply_writes_in:
  "b \<in> fst ` set ws \<Longrightarrow> (\<And>x. (b, x) \<in> set ws \<Longrightarrow> x = y) \<Longrightarrow> apply_writes ws d b = y"
proof (induction ws arbitrary: d)
  case (Cons w ws)
  obtain c x where w: "w = (c, x)" by (cases w)
  show ?case
  proof (cases "b \<in> fst ` set ws")
    case True
    then show ?thesis using Cons.IH Cons.prems(2) w by simp
  next
    case False
    then have "c = b" "x = y" using Cons.prems w by auto
    then show ?thesis using apply_writes_other [OF False] w by simp
  qed
qed simp

text \<open>Copying a list of blocks, each to a place that no other one is read from.\<close>

lemma copy_blocks_ok:
  assumes "bio_inv s {}" "\<forall>(a, c) \<in> set ps. a < disksize s \<and> c < disksize s"
    and "fst ` set ps \<inter> snd ` set ps = {}"
    and "room 2 s \<or> room 1 s \<and> (fst ` set ps \<subseteq> dirty_blocks s \<or> snd ` set ps \<subseteq> dirty_blocks s \<and> distinct (map snd ps))"
  shows "\<exists>t. foldE (\<lambda>(a, c). copy_block sf 1 a c) ps s = Inr t \<and> bio_inv t {} \<and>
    view_block t = apply_writes (map (\<lambda>(a, c). (c, view_block s a)) ps) (view_block s) \<and>
    disk t = apply_writes (map (\<lambda>(a, c). (c, view_block s a)) ps) (disk s) \<and>
    dwrites t = dwrites s @ map (\<lambda>(a, c). (c, view_block s a)) ps \<and> same_rest s t \<and>
    dirty_bufs t \<subseteq> dirty_bufs s \<and> dirty_blocks t = dirty_blocks s - snd ` set ps"
  using assms
proof (induction ps arbitrary: s)
  case (Cons p ps)
  obtain a c where p: "p = (a, c)" by (cases p)
  have ac: "a < disksize s" "c < disksize s" "a \<noteq> c" using Cons.prems(2,3) p by auto
  have r: "room 2 s \<or> room 1 s \<and> (a \<in> dirty_blocks s \<or> c \<in> dirty_blocks s)" using Cons.prems(4) p by auto
  obtain u where u: "copy_block sf 1 a c s = Inr u" "bio_inv u {}" "view_block u = (view_block s)(c := view_block s a)"
    "disk u = (disk s)(c := view_block s a)" "dwrites u = dwrites s @ [(c, view_block s a)]" "same_rest s u"
    "dirty_bufs u \<subseteq> dirty_bufs s" "dirty_blocks u = dirty_blocks s - {c}"
    by (rule copy_block_ok [OF Cons.prems(1) ac r])
  have v: "view_block u x = view_block s x" if "x \<in> fst ` set ps" for x
    using that Cons.prems(3) p u(3) by auto
  have ws: "map (\<lambda>(a, c). (c, view_block u a)) ps = map (\<lambda>(a, c). (c, view_block s a)) ps"
    by (rule map_cong [OF refl]) (use v in force)
  have rm: "room n s \<Longrightarrow> room n u" for n by (rule room_mono [OF _ u(7)])
  have c: "c \<notin> fst ` set ps" "distinct (map snd (p # ps)) \<Longrightarrow> c \<notin> snd ` set ps" using Cons.prems(3) p by auto
  have "\<exists>t. foldE (\<lambda>(a, c). copy_block sf 1 a c) ps u = Inr t \<and> bio_inv t {} \<and>
    view_block t = apply_writes (map (\<lambda>(a, c). (c, view_block u a)) ps) (view_block u) \<and>
    disk t = apply_writes (map (\<lambda>(a, c). (c, view_block u a)) ps) (disk u) \<and>
    dwrites t = dwrites u @ map (\<lambda>(a, c). (c, view_block u a)) ps \<and> same_rest u t \<and>
    dirty_bufs t \<subseteq> dirty_bufs u \<and> dirty_blocks t = dirty_blocks u - snd ` set ps"
  proof (rule Cons.IH [OF u(2)])
    show "\<forall>(a, c) \<in> set ps. a < disksize u \<and> c < disksize u" using Cons.prems(2) u(6) by (auto simp: same_rest_def)
    show "fst ` set ps \<inter> snd ` set ps = {}" using Cons.prems(3) by auto
    show "room 2 u \<or> room 1 u \<and> (fst ` set ps \<subseteq> dirty_blocks u \<or> snd ` set ps \<subseteq> dirty_blocks u \<and> distinct (map snd ps))"
      using Cons.prems(4) rm c u(8) by auto
  qed
  then obtain t where t: "foldE (\<lambda>(a, c). copy_block sf 1 a c) ps u = Inr t" "bio_inv t {}"
    "view_block t = apply_writes (map (\<lambda>(a, c). (c, view_block u a)) ps) (view_block u)"
    "disk t = apply_writes (map (\<lambda>(a, c). (c, view_block u a)) ps) (disk u)"
    "dwrites t = dwrites u @ map (\<lambda>(a, c). (c, view_block u a)) ps" "same_rest u t"
    "dirty_bufs t \<subseteq> dirty_bufs u" "dirty_blocks t = dirty_blocks u - snd ` set ps" by blast
  have "same_rest s t" using u(6) t(6) by (simp add: same_rest_def)
  moreover have "dirty_bufs t \<subseteq> dirty_bufs s" using u(7) t(7) by blast
  moreover have "dirty_blocks t = dirty_blocks s - snd ` set (p # ps)" using u(8) t(8) p by auto
  moreover have "foldE (\<lambda>(a, c). copy_block sf 1 a c) (p # ps) s = Inr t" using u(1) t(1) p by simp
  ultimately show ?case using t(2-5) u(3-5) unfolding ws by (intro exI [of _ t]) (simp add: p)
qed (auto simp: same_rest_def)

section \<open>Commit\<close>

definition log_area :: "'a logst_scheme \<Rightarrow> nat set" where
  "log_area s = {l_start s ..< l_start s + nat (l_size s)}"

text \<open>Between two calls of a transaction: the changed blocks are exactly those in the header in
  memory, none of them belongs to the log, and the header on disk is empty.\<close>

definition log_inv :: "'a logst_scheme \<Rightarrow> bool" where
  "log_inv s \<longleftrightarrow> bio_inv s {} \<and> l_dev s = 1 \<and> distinct (l_blocks s) \<and> length (l_blocks s) < LOGSIZE \<and>
     int (length (l_blocks s)) < l_size s \<and> l_start s + nat (l_size s) \<le> disksize s \<and> disksize s \<le> 2 ^ 31 \<and>
     (\<forall>b \<in> set (l_blocks s). b < disksize s \<and> b \<notin> log_area s) \<and> dirty_blocks s = set (l_blocks s) \<and>
     sint (rd32 (disk s (l_start s)) 0) = 0"

lemma log_invD:
  assumes "log_inv s"
  shows "bio_inv s {}" "l_dev s = 1" "distinct (l_blocks s)" "length (l_blocks s) < LOGSIZE"
    "int (length (l_blocks s)) < l_size s" "l_start s + nat (l_size s) \<le> disksize s" "disksize s \<le> 2 ^ 31"
    "b \<in> set (l_blocks s) \<Longrightarrow> b < disksize s" "b \<in> set (l_blocks s) \<Longrightarrow> b \<notin> log_area s"
    "dirty_blocks s = set (l_blocks s)" "sint (rd32 (disk s (l_start s)) 0) = 0"
  using assms unfolding log_inv_def by auto

lemma card_dirty:
  assumes "bio_inv s H"
  shows "card (dirty_bufs s) \<le> card (dirty_blocks s)"
proof -
  let ?f = "\<lambda>i. b_blockno (bufs s ! i)"
  have h: "holds (?f i) i s" if "i \<in> dirty_bufs s" for i
    using that bio_invD(9) [OF assms, of i] by (auto simp: dirty_bufs_def holds_def)
  have "inj_on ?f (dirty_bufs s)"
    by (rule inj_onI) (metis h bio_invD(11) [OF assms])
  then have "card (dirty_bufs s) = card (?f ` dirty_bufs s)" by (rule card_image [symmetric])
  also have img: "?f ` dirty_bufs s = dirty_blocks s"
    using h by (auto simp: dirty_blocks_def holds_def image_def)
  finally show ?thesis by simp
qed

lemma log_inv_room: "log_inv s \<Longrightarrow> room 1 s"
  using card_dirty [of s "{}"] log_invD(1,3,4,10) [of s] by (auto simp: room_def distinct_card)

text \<open>The four groups of writes a commit makes.\<close>

definition log_writes :: "'a logst_scheme \<Rightarrow> (nat \<times> block) list" where
  "log_writes s = map (\<lambda>i. (l_start s + i + 1, view_block s (l_blocks s ! i))) [0..<length (l_blocks s)]"

definition home_writes :: "'a logst_scheme \<Rightarrow> (nat \<times> block) list" where
  "home_writes s = map (\<lambda>i. (l_blocks s ! i, view_block s (l_blocks s ! i))) [0..<length (l_blocks s)]"

definition head_write :: "'a logst_scheme \<Rightarrow> nat \<times> block" where
  "head_write s = (l_start s, head_data (l_blocks s) (view_block s (l_start s)))"

definition clear_write :: "'a logst_scheme \<Rightarrow> nat \<times> block" where
  "clear_write s = (l_start s, head_data [] (head_data (l_blocks s) (view_block s (l_start s))))"

definition commit_writes :: "'a logst_scheme \<Rightarrow> (nat \<times> block) list" where
  "commit_writes s = (if l_blocks s = [] then [] else log_writes s @ [head_write s] @ home_writes s @ [clear_write s])"

lemma l_fields:
  assumes "same_rest s t"
  shows "l_start t = l_start s" "l_size t = l_size s" "l_dev t = l_dev s" "l_blocks t = l_blocks s"
    "l_outstanding t = l_outstanding s" "l_committing t = l_committing s" "disksize t = disksize s" "cur t = cur s"
    "logst.more t = logst.more s"
  using assms by (cases s; cases t; simp add: same_rest_def)+

lemma log_area_head: "log_inv s \<Longrightarrow> l_start s \<in> log_area s" "log_inv s \<Longrightarrow> i < length (l_blocks s) \<Longrightarrow> l_start s + i + 1 \<in> log_area s"
  using log_invD(5) [of s] by (auto simp: log_area_def)

lemma foldE_map: "foldE (\<lambda>x. f (g x)) xs s = foldE f (map g xs) s"
  by (induction xs arbitrary: s) (auto intro: bindE_cong)

lemma write_log_pairs:
  "write_log s = foldE (\<lambda>(a, c). copy_block False (l_dev s) a c)
     (map (\<lambda>i. (l_blocks s ! i, l_start s + i + 1)) [0..<length (l_blocks s)]) s"
  unfolding write_log_def by (subst foldE_map [symmetric]) simp

lemma install_trans_pairs:
  "install_trans s = foldE (\<lambda>(a, c). copy_block True (l_dev s) a c)
     (map (\<lambda>i. (l_start s + i + 1, l_blocks s ! i)) [0..<length (l_blocks s)]) s"
  unfolding install_trans_def by (subst foldE_map [symmetric]) simp

lemma l_update_bio [simp]:
  "bio_inv (s\<lparr>l_blocks := x0\<rparr>) H = bio_inv s H" "view_block (s\<lparr>l_blocks := x0\<rparr>) = view_block s"
  "dirty_bufs (s\<lparr>l_blocks := x0\<rparr>) = dirty_bufs s" "dirty_blocks (s\<lparr>l_blocks := x0\<rparr>) = dirty_blocks s"
  "room n (s\<lparr>l_blocks := x0\<rparr>) = room n s"
  "bio_inv (s\<lparr>l_start := x1\<rparr>) H = bio_inv s H" "view_block (s\<lparr>l_start := x1\<rparr>) = view_block s"
  "dirty_bufs (s\<lparr>l_start := x1\<rparr>) = dirty_bufs s" "dirty_blocks (s\<lparr>l_start := x1\<rparr>) = dirty_blocks s"
  "room n (s\<lparr>l_start := x1\<rparr>) = room n s"
  "bio_inv (s\<lparr>l_size := x2\<rparr>) H = bio_inv s H" "view_block (s\<lparr>l_size := x2\<rparr>) = view_block s"
  "dirty_bufs (s\<lparr>l_size := x2\<rparr>) = dirty_bufs s" "dirty_blocks (s\<lparr>l_size := x2\<rparr>) = dirty_blocks s"
  "room n (s\<lparr>l_size := x2\<rparr>) = room n s"
  "bio_inv (s\<lparr>l_dev := x3\<rparr>) H = bio_inv s H" "view_block (s\<lparr>l_dev := x3\<rparr>) = view_block s"
  "dirty_bufs (s\<lparr>l_dev := x3\<rparr>) = dirty_bufs s" "dirty_blocks (s\<lparr>l_dev := x3\<rparr>) = dirty_blocks s"
  "room n (s\<lparr>l_dev := x3\<rparr>) = room n s"
  "bio_inv (s\<lparr>l_outstanding := x4\<rparr>) H = bio_inv s H" "view_block (s\<lparr>l_outstanding := x4\<rparr>) = view_block s"
  "dirty_bufs (s\<lparr>l_outstanding := x4\<rparr>) = dirty_bufs s" "dirty_blocks (s\<lparr>l_outstanding := x4\<rparr>) = dirty_blocks s"
  "room n (s\<lparr>l_outstanding := x4\<rparr>) = room n s"
  "bio_inv (s\<lparr>l_committing := x5\<rparr>) H = bio_inv s H" "view_block (s\<lparr>l_committing := x5\<rparr>) = view_block s"
  "dirty_bufs (s\<lparr>l_committing := x5\<rparr>) = dirty_bufs s" "dirty_blocks (s\<lparr>l_committing := x5\<rparr>) = dirty_blocks s"
  "room n (s\<lparr>l_committing := x5\<rparr>) = room n s"
  by (simp_all add: bio_inv_def holds_def mypid_def dirty_bufs_def dirty_blocks_def view_block_def room_def fun_eq_iff
      split: option.split)

lemma commit_ok:
  assumes inv: "log_inv s"
  obtains t where "commit s = Inr t" "bio_inv t {}" "dwrites t = dwrites s @ commit_writes s"
    "disk t = apply_writes (commit_writes s) (disk s)" "view_block t = apply_writes (commit_writes s) (view_block s)"
    "dirty_blocks t = {}" "l_blocks t = []" "same_rest s (t\<lparr>l_blocks := l_blocks s\<rparr>)"
proof (cases "l_blocks s = []")
  case True
  have "s\<lparr>l_blocks := l_blocks s\<rparr> = s" by (cases s) simp
  then have "same_rest s (s\<lparr>l_blocks := l_blocks s\<rparr>)" by simp
  then show thesis
    using True log_invD(1,10) [OF inv] by (intro that [of s]) (simp_all add: commit_def commit_writes_def)
next
  case False
  note d = log_invD [OF inv]
  let ?n = "length (l_blocks s)"
  let ?dev = "Suc 0"
  have dev: "l_dev s = ?dev" using d(2) by simp
  let ?lp = "map (\<lambda>i. (l_blocks s ! i, l_start s + i + 1)) [0..<?n]"
  let ?ip = "map (\<lambda>i. (l_start s + i + 1, l_blocks s ! i)) [0..<?n]"
  have lg: "l_start s + i + 1 \<in> log_area s" "l_start s + i + 1 < disksize s" if "i < ?n" for i
    using log_area_head(2) [OF inv that] d(6) by (auto simp: log_area_def)
  have bl: "l_blocks s ! i \<in> set (l_blocks s)" "l_blocks s ! i < disksize s" "l_blocks s ! i \<notin> log_area s" if "i < ?n" for i
    using d(8,9) nth_mem [OF that] by auto
  have ls: "l_start s < disksize s" "l_start s \<in> log_area s" using log_area_head(1) [OF inv] d(6) by (auto simp: log_area_def)
  have set_lp: "fst ` set ?lp = set (l_blocks s)" "snd ` set ?lp \<subseteq> log_area s - {l_start s}"
    "snd ` set ?ip = set (l_blocks s)" "fst ` set ?ip \<subseteq> log_area s - {l_start s}"
  proof -
    have "map fst ?lp = l_blocks s" "map snd ?ip = l_blocks s" by (simp_all add: comp_def map_nth)
    then show "fst ` set ?lp = set (l_blocks s)" "snd ` set ?ip = set (l_blocks s)" by (metis set_map)+
  qed (use lg in auto)
  have sep: "set (l_blocks s) \<inter> log_area s = {}" using d(9) by blast
  have "\<exists>t. foldE (\<lambda>(a, c). copy_block False 1 a c) ?lp s = Inr t \<and> bio_inv t {} \<and>
    view_block t = apply_writes (map (\<lambda>(a, c). (c, view_block s a)) ?lp) (view_block s) \<and>
    disk t = apply_writes (map (\<lambda>(a, c). (c, view_block s a)) ?lp) (disk s) \<and>
    dwrites t = dwrites s @ map (\<lambda>(a, c). (c, view_block s a)) ?lp \<and> same_rest s t \<and>
    dirty_bufs t \<subseteq> dirty_bufs s \<and> dirty_blocks t = dirty_blocks s - snd ` set ?lp"
    by (rule copy_blocks_ok [OF d(1)])
      (use lg bl set_lp sep log_inv_room [OF inv] d(10) in \<open>fastforce, blast, simp\<close>)
  moreover have "map (\<lambda>(a, c). (c, view_block s a)) ?lp = log_writes s" by (simp add: log_writes_def)
  ultimately obtain u where u: "write_log s = Inr u" "bio_inv u {}" "view_block u = apply_writes (log_writes s) (view_block s)"
    "disk u = apply_writes (log_writes s) (disk s)" "dwrites u = dwrites s @ log_writes s" "same_rest s u"
    "dirty_bufs u \<subseteq> dirty_bufs s" "dirty_blocks u = dirty_blocks s - snd ` set ?lp"
    unfolding write_log_pairs dev by auto
  note uf = l_fields [OF u(6)]
  have not_head: "l_start s \<notin> fst ` set (log_writes s)" by (auto simp: log_writes_def)
  have uh: "view_block u (l_start s) = view_block s (l_start s)" unfolding u(3) by (rule apply_writes_other [OF not_head])
  have ud: "dirty_blocks u = set (l_blocks s)" unfolding u(8) d(10) using set_lp(2) sep by blast
  have ru: "room 1 u" by (rule room_mono [OF log_inv_room [OF inv] u(7)])
  have lsu: "l_start s < disksize u" using ls(1) uf by simp
  obtain w where w: "rewrite_block 1 (l_start s) (head_data (l_blocks s)) u = Inr w" "bio_inv w {}"
    "view_block w = (view_block u)(l_start s := snd (head_write s))"
    "disk w = (disk u)(l_start s := snd (head_write s))" "dwrites w = dwrites u @ [head_write s]" "same_rest u w"
    "dirty_bufs w \<subseteq> dirty_bufs u" "dirty_blocks w = dirty_blocks u - {l_start s}"
    by (rule rewrite_block_ok [OF u(2) lsu ru]) (simp add: head_write_def uh)
  note wf = l_fields [OF w(6)]
  have wh: "write_head u = Inr w" using w(1) uf d(2) by (simp add: write_head_def)
  have rw: "room 1 w" by (rule room_mono [OF ru w(7)])
  have wd: "dirty_blocks w = set (l_blocks s)" unfolding w(8) ud using ls(2) sep by blast
  have dist: "distinct (map snd ?ip)" using d(3) by (simp add: comp_def map_nth)
  have "\<exists>t. foldE (\<lambda>(a, c). copy_block True 1 a c) ?ip w = Inr t \<and> bio_inv t {} \<and>
    view_block t = apply_writes (map (\<lambda>(a, c). (c, view_block w a)) ?ip) (view_block w) \<and>
    disk t = apply_writes (map (\<lambda>(a, c). (c, view_block w a)) ?ip) (disk w) \<and>
    dwrites t = dwrites w @ map (\<lambda>(a, c). (c, view_block w a)) ?ip \<and> same_rest w t \<and>
    dirty_bufs t \<subseteq> dirty_bufs w \<and> dirty_blocks t = dirty_blocks w - snd ` set ?ip"
    by (rule copy_blocks_ok [OF w(2)])
      (use lg bl set_lp sep rw wd dist wf uf in \<open>fastforce, blast, simp\<close>)
  moreover have iw: "map (\<lambda>(a, c). (c, view_block w a)) ?ip = home_writes s"
  proof -
    have "view_block w (l_start s + i + 1) = view_block s (l_blocks s ! i)" if "i < ?n" for i
    proof -
      have "view_block w (l_start s + i + 1) = apply_writes (log_writes s) (view_block s) (l_start s + i + 1)"
        by (simp add: w(3) u(3))
      also have "\<dots> = view_block s (l_blocks s ! i)"
        by (rule apply_writes_in) (use that in \<open>auto simp: log_writes_def image_def\<close>)
      finally show ?thesis .
    qed
    then show ?thesis by (simp add: home_writes_def)
  qed
  ultimately obtain v where v: "install_trans w = Inr v" "bio_inv v {}" "view_block v = apply_writes (home_writes s) (view_block w)"
    "disk v = apply_writes (home_writes s) (disk w)" "dwrites v = dwrites w @ home_writes s" "same_rest w v"
    "dirty_bufs v \<subseteq> dirty_bufs w" "dirty_blocks v = dirty_blocks w - snd ` set ?ip"
    unfolding install_trans_pairs wf uf dev by auto
  note vf = l_fields [OF v(6)]
  have vh: "view_block v (l_start s) = snd (head_write s)"
  proof -
    have "l_start s \<notin> fst ` set (home_writes s)" using sep ls(2) bl by (auto simp: home_writes_def)
    then show ?thesis using v(3) w(3) apply_writes_other by simp
  qed
  let ?v = "v\<lparr>l_blocks := []\<rparr>"
  have v': "bio_inv ?v {}" "l_start s < disksize ?v" "room 1 ?v"
    using v(2,7) ls(1) vf wf uf room_mono [OF rw v(7)] by simp_all
  obtain t where t: "rewrite_block 1 (l_start s) (head_data []) ?v = Inr t" "bio_inv t {}"
    "view_block t = (view_block v)(l_start s := snd (clear_write s))"
    "disk t = (disk v)(l_start s := snd (clear_write s))" "dwrites t = dwrites v @ [clear_write s]" "same_rest ?v t"
    "dirty_bufs t \<subseteq> dirty_bufs v" "dirty_blocks t = dirty_blocks v - {l_start s}"
    by (rule rewrite_block_ok [OF v']) (simp add: clear_write_def vh head_write_def)
  have th: "write_head ?v = Inr t" using t(1) vf wf uf d(2) by (simp add: write_head_def)
  have cw: "commit_writes s = log_writes s @ [head_write s] @ home_writes s @ [clear_write s]"
    using False by (simp add: commit_writes_def)
  have hw: "head_write s = (l_start s, snd (head_write s))" "clear_write s = (l_start s, snd (clear_write s))"
    by (simp_all add: head_write_def clear_write_def)
  have ap: "apply_writes (commit_writes s) x = (apply_writes (home_writes s)
      ((apply_writes (log_writes s) x)(l_start s := snd (head_write s))))(l_start s := snd (clear_write s))" for x
    unfolding cw by (subst hw(1), subst hw(2)) simp
  have "commit s = Inr t" using False u(1) wh v(1) th by (simp add: commit_def)
  moreover have "dwrites t = dwrites s @ commit_writes s" using t(5) v(5) w(5) u(5) cw by simp
  moreover have "disk t = apply_writes (commit_writes s) (disk s)" using t(4) v(4) w(4) u(4) ap by simp
  moreover have "view_block t = apply_writes (commit_writes s) (view_block s)" using t(3) v(3) w(3) u(3) ap by simp
  moreover have "dirty_blocks t = {}" unfolding t(8) v(8) wd set_lp(3) by blast
  moreover have "l_blocks t = []" using l_fields(4) [OF t(6)] by simp
  moreover have "same_rest s (t\<lparr>l_blocks := l_blocks s\<rparr>)"
    using t(6) v(6) w(6) u(6) by (cases s; cases t; cases v; cases w; cases u) (simp add: same_rest_def)
  ultimately show thesis using t(2) by (intro that [of t]) assumption+
qed

section \<open>Recovery\<close>

lemma reads_ok:
  assumes inv: "bio_inv s {}" and b: "b < disksize s" and r: "room 1 s"
  obtains i u where "bread 1 b s = Inr (i, u)" "b_data (bufs u ! i) = view_block s b" "bio_inv u {i}" "same_rest s u"
    "b_dev (bufs u ! i) = 1" "b_valid (bufs u ! i)" "b_blockno (bufs u ! i) = b"
    "\<not> b_dirty (bufs u ! i) \<longrightarrow> b_data (bufs u ! i) = disk u (b_blockno (bufs u ! i))"
    "view_block u = view_block s" "disk u = disk s" "dwrites u = dwrites s" "dirty_bufs u = dirty_bufs s"
    "dirty_blocks u = dirty_blocks s"
proof -
  have "\<exists>i < NBUF. i \<notin> {} \<and> \<not> b_dirty (bufs s ! i)" by (rule room_clean [OF r]) auto
  then obtain i u where u: "bread 1 b s = Inr (i, u)" "i < NBUF" "bio_inv u {i}" "holds b i u"
    "b_valid (bufs u ! i)" "b_data (bufs u ! i) = view_block s b" "view_block u = view_block s" "disk u = disk s"
    "dwrites u = dwrites s" "same_rest s u" "dirty_bufs u = dirty_bufs s" "\<And>j. j \<noteq> i \<Longrightarrow> bufs u ! j = bufs s ! j"
    "holds b i s \<or> \<not> b_dirty (bufs s ! i)"
    using bread_ok [OF inv b] by (metis empty_iff)
  have di: "i \<in> dirty_bufs s \<Longrightarrow> holds c i u = holds c i s" for c
    using u(4,13) by (auto simp: dirty_bufs_def holds_def)
  have hu: "holds c j u = holds c j s" if "j \<in> dirty_bufs s" for c j
    using u(12) di that by (cases "j = i") (auto simp: holds_def)
  then have db: "dirty_blocks u = dirty_blocks s" unfolding dirty_blocks_def u(11) by blast
  have coh: "\<not> b_dirty (bufs u ! i) \<longrightarrow> b_data (bufs u ! i) = disk u (b_blockno (bufs u ! i))"
  proof
    assume that: "\<not> b_dirty (bufs u ! i)"
    have "i \<notin> dirty_bufs s" using that u(11) by (auto simp: dirty_bufs_def)
    then have "b \<notin> dirty_blocks u"
      using u(11) bio_invD(11) [OF u(3,4)] by (auto simp: dirty_blocks_def)
    then have "view_block s b = disk s b" using clean_view [OF inv] db by simp
    then show "b_data (bufs u ! i) = disk u (b_blockno (bufs u ! i))" using u(4,6,8) by (simp add: holds_def)
  qed
  show thesis
    by (rule that [OF u(1,6,3,10) _ u(5) _ coh u(7,8,9,11) db]) (use u(4) in \<open>simp_all add: holds_def\<close>)
qed

lemma read_release:
  assumes inv: "bio_inv s {}" and b: "b < disksize s" and r: "room 1 s"
  obtains i u t where "bread 1 b s = Inr (i, u)" "b_data (bufs u ! i) = view_block s b" "brelse i u = Inr t"
    "bio_inv t {}" "view_block t = view_block s" "disk t = disk s" "dwrites t = dwrites s" "same_rest s t"
    "dirty_bufs t = dirty_bufs s" "dirty_blocks t = dirty_blocks s"
proof -
  obtain i u where u: "bread 1 b s = Inr (i, u)" "b_data (bufs u ! i) = view_block s b" "bio_inv u {i}" "same_rest s u"
    "b_dev (bufs u ! i) = 1" "b_valid (bufs u ! i)" "b_blockno (bufs u ! i) = b"
    "\<not> b_dirty (bufs u ! i) \<longrightarrow> b_data (bufs u ! i) = disk u (b_blockno (bufs u ! i))"
    "view_block u = view_block s" "disk u = disk s" "dwrites u = dwrites s" "dirty_bufs u = dirty_bufs s"
    "dirty_blocks u = dirty_blocks s"
    by (rule reads_ok [OF inv b r])
  have i: "i \<in> {i}" by simp
  obtain t where t: "brelse i u = Inr t" "bio_inv t ({i} - {i})" "view_block t = view_block u" "disk t = disk u"
    "dwrites t = dwrites u" "same_rest u t" "dirty_bufs t = dirty_bufs u" "\<And>c j. holds c j t = holds c j u"
    using brelse_ok [OF u(3) i u(8) [THEN mp]] by metis
  have "dirty_blocks t = dirty_blocks u" unfolding dirty_blocks_def t(7,8) ..
  then have "dirty_blocks t = dirty_blocks s" using u(13) by simp
  moreover have "same_rest s t" using t(6) u(4) by (simp add: same_rest_def)
  moreover have "bio_inv t {}" using t(2) by simp
  ultimately show thesis using t(3,4,5,7) u(9-12) by (intro that [OF u(1,2) t(1)]) simp_all
qed

text \<open>After a reboot: nothing is cached.\<close>

definition fresh :: "'a bio_scheme \<Rightarrow> bool" where
  "fresh s = (bio_inv s {} \<and> (\<forall>i < NBUF. \<not> b_valid (bufs s ! i)))"

lemma freshD:
  assumes "fresh s"
  shows "bio_inv s {}" "view_block s = disk s" "dirty_bufs s = {}" "dirty_blocks s = {}" "room n s \<longleftrightarrow> n \<le> NBUF"
proof -
  show i: "bio_inv s {}" using assms by (simp add: fresh_def)
  show "dirty_bufs s = {}" using assms bio_invD(8) [OF i] by (auto simp: fresh_def dirty_bufs_def)
  then show "dirty_blocks s = {}" "room n s \<longleftrightarrow> n \<le> NBUF" by (simp_all add: dirty_blocks_def room_def)
  have "view_block s b = disk s b" for b
    by (rule view_uncached [OF i]) (use assms in \<open>auto simp: fresh_def holds_def\<close>)
  then show "view_block s = disk s" by blast
qed

definition replay_writes :: "nat \<Rightarrow> (nat \<Rightarrow> block) \<Rightarrow> (nat \<times> block) list" where
  "replay_writes ls d = (let bs = head_blocks (d ls) in map (\<lambda>i. (bs ! i, d (ls + i + 1))) [0..<length bs]) @
     [(ls, head_data [] (d ls))]"

text \<open>A disk whose log area starts at block \<open>ls\<close> with \<open>n\<close> blocks, and whose header names blocks of
  the disk outside of it.\<close>

definition good_log :: "nat \<Rightarrow> int \<Rightarrow> nat \<Rightarrow> (nat \<Rightarrow> block) \<Rightarrow> bool" where
  "good_log ls n sz d \<longleftrightarrow>
     0 < n \<and> ls + nat n \<le> sz \<and> sz \<le> 2 ^ 31 \<and> 1 < sz \<and>
     unat (rd32 (d 1) 16) = ls \<and> sint (rd32 (d 1) 12) = n \<and>
     sint (rd32 (d ls) 0) < n \<and> sint (rd32 (d ls) 0) \<le> int LOGSIZE \<and>
     (\<forall>b \<in> set (head_blocks (d ls)). b < sz \<and> b \<notin> {ls ..< ls + nat n})"

lemma initlog_ok:
  assumes f: "fresh s" and g: "good_log ls n (disksize s) (disk s)"
  obtains t where "initlog 1 s = Inr t" "bio_inv t {}" "view_block t = disk t" "dirty_blocks t = {}"
    "disk t = apply_writes (replay_writes ls (disk s)) (disk s)"
    "l_start t = ls" "l_size t = n" "l_dev t = 1" "l_blocks t = []" "disksize t = disksize s"
proof -
  note d = freshD [OF f]
  have gl: "0 < n" "ls + nat n \<le> disksize s" "1 < disksize s" "unat (rd32 (disk s 1) 16) = ls" "sint (rd32 (disk s 1) 12) = n"
    "sint (rd32 (disk s ls) 0) < n" "sint (rd32 (disk s ls) 0) \<le> int LOGSIZE"
    "\<forall>b \<in> set (head_blocks (disk s ls)). b < disksize s \<and> b \<notin> {ls ..< ls + nat n}"
    using g by (auto simp: good_log_def)
  have r1: "room 1 s" using d(5) by simp
  obtain i u v where u: "bread 1 1 s = Inr (i, u)" "b_data (bufs u ! i) = view_block s 1" "brelse i u = Inr v"
    "bio_inv v {}" "view_block v = view_block s" "disk v = disk s" "dwrites v = dwrites s" "same_rest s v"
    "dirty_bufs v = dirty_bufs s" "dirty_blocks v = dirty_blocks s"
    by (rule read_release [OF d(1) gl(3) r1])
  let ?v = "v\<lparr>l_start := ls, l_size := n, l_dev := 1\<rparr>"
  have iv: "initlog 1 s = recover_from_log ?v"
    using u(1,2,3) gl(4,5) d(2) by (simp add: initlog_def readsb_def Let_def)
  have inv_v: "bio_inv ?v {}" "view_block ?v = disk s" "disk ?v = disk s" "disksize ?v = disksize s" "dirty_bufs ?v = {}"
    using u(4-6,8,9) d(2,3) by (simp_all add: same_rest_def)
  have lsz: "ls < disksize ?v" using inv_v(4) gl(1,2) by simp
  have rv: "room 1 ?v" using inv_v(5) by (simp add: room_def)
  obtain j w where w: "bread 1 ls ?v = Inr (j, w)" "b_data (bufs w ! j) = view_block ?v ls" "bio_inv w {j}" "same_rest ?v w"
    "b_dev (bufs w ! j) = 1" "b_valid (bufs w ! j)" "b_blockno (bufs w ! j) = ls"
    "\<not> b_dirty (bufs w ! j) \<longrightarrow> b_data (bufs w ! j) = disk w (b_blockno (bufs w ! j))"
    "view_block w = view_block ?v" "disk w = disk ?v" "dwrites w = dwrites ?v" "dirty_bufs w = dirty_bufs ?v"
    "dirty_blocks w = dirty_blocks ?v"
    by (rule reads_ok [OF inv_v(1) lsz rv])
  let ?bs = "head_blocks (disk s ls)"
  let ?w = "w\<lparr>l_blocks := ?bs\<rparr>"
  have jj: "j \<in> {j}" by simp
  have w': "bio_inv ?w {j}" "b_data (bufs ?w ! j) = disk ?w (b_blockno (bufs ?w ! j))"
    using w(2,3,7,10) inv_v by simp_all
  obtain x where x: "brelse j ?w = Inr x" "bio_inv x ({j} - {j})" "view_block x = view_block ?w" "disk x = disk ?w"
    "same_rest ?w x" "dirty_bufs x = dirty_bufs ?w"
    using brelse_ok [OF w'(1) jj w'(2)] by metis
  have ri: "read_head ?v = Inr x"
    using w(1,2) x(1) gl(7) inv_v(2) by (simp add: read_head_def Let_def)
  have xf: "l_start x = ls" "l_size x = n" "l_dev x = 1" "l_blocks x = ?bs" "disksize x = disksize s"
    using l_fields [OF x(5)] l_fields [OF w(4)] inv_v(4) by simp_all
  have xv: "view_block x = disk s" "disk x = disk s" "dirty_bufs x = {}" "bio_inv x {}" "dirty_blocks x = {}"
    using x w(9,10,12) inv_v by (simp_all add: dirty_blocks_def)
  let ?ip = "map (\<lambda>i. (ls + i + 1, ?bs ! i)) [0..<length ?bs]"
  have len: "int (length ?bs) < n" using gl(1,6) by (simp add: head_blocks_def)
  have tgt: "?bs ! i < disksize s" "?bs ! i \<notin> {ls ..< ls + nat n}" if "i < length ?bs" for i
    using gl(8) nth_mem [OF that] by auto
  have src: "ls + i + 1 \<in> {ls ..< ls + nat n}" "ls + i + 1 < disksize s" if "i < length ?bs" for i
    using that len gl(2) by auto
  have sep: "fst ` set ?ip \<subseteq> {ls ..< ls + nat n}" "snd ` set ?ip \<inter> {ls ..< ls + nat n} = {}"
    using src tgt by (auto simp: image_def)
  have "\<exists>t. foldE (\<lambda>(a, c). copy_block True 1 a c) ?ip x = Inr t \<and> bio_inv t {} \<and>
    view_block t = apply_writes (map (\<lambda>(a, c). (c, view_block x a)) ?ip) (view_block x) \<and>
    disk t = apply_writes (map (\<lambda>(a, c). (c, view_block x a)) ?ip) (disk x) \<and>
    dwrites t = dwrites x @ map (\<lambda>(a, c). (c, view_block x a)) ?ip \<and> same_rest x t \<and>
    dirty_bufs t \<subseteq> dirty_bufs x \<and> dirty_blocks t = dirty_blocks x - snd ` set ?ip"
  proof (rule copy_blocks_ok [OF xv(4)])
    show "\<forall>(a, c) \<in> set ?ip. a < disksize x \<and> c < disksize x" using src tgt xf(5) by auto
    show "fst ` set ?ip \<inter> snd ` set ?ip = {}" using sep by blast
    show "room 2 x \<or> room 1 x \<and> (fst ` set ?ip \<subseteq> dirty_blocks x \<or> snd ` set ?ip \<subseteq> dirty_blocks x \<and> distinct (map snd ?ip))"
      using xv(3) by (simp add: room_def)
  qed
  then obtain y where y0: "foldE (\<lambda>(a, c). copy_block True 1 a c) ?ip x = Inr y" "bio_inv y {}"
    "view_block y = apply_writes (map (\<lambda>(a, c). (c, view_block x a)) ?ip) (view_block x)"
    "disk y = apply_writes (map (\<lambda>(a, c). (c, view_block x a)) ?ip) (disk x)" "same_rest x y"
    "dirty_bufs y \<subseteq> dirty_bufs x" "dirty_blocks y = dirty_blocks x - snd ` set ?ip" by blast
  have iw: "map (\<lambda>(a, c). (c, disk s a)) ?ip = map (\<lambda>i. (?bs ! i, disk s (ls + i + 1))) [0..<length ?bs]" by simp
  have "install_trans x = foldE (\<lambda>(a, c). copy_block True 1 a c) ?ip x"
    unfolding install_trans_pairs xf ..
  then have "install_trans x = Inr y" using y0(1) by (rule trans)
  note y = this y0(2) y0(3,4) [unfolded xv(1,2) iw] y0(5-7)
  note yf = l_fields [OF y(5)]
  let ?y = "y\<lparr>l_blocks := []\<rparr>"
  have y': "bio_inv ?y {}" "ls < disksize ?y" "room 1 ?y"
    using y(2,6) yf xf lsz inv_v(4) xv(3) by (simp_all add: room_def)
  have hv: "view_block y ls = disk s ls"
  proof -
    have "ls \<notin> fst ` set (map (\<lambda>i. (?bs ! i, disk s (ls + i + 1))) [0..<length ?bs])"
      using tgt gl(1) by (force simp: image_def)
    then show ?thesis unfolding y(3) by (rule apply_writes_other)
  qed
  obtain t where t: "rewrite_block 1 ls (head_data []) ?y = Inr t" "bio_inv t {}"
    "view_block t = (view_block y)(ls := head_data [] (disk s ls))"
    "disk t = (disk y)(ls := head_data [] (disk s ls))" "same_rest ?y t"
    "dirty_blocks t = dirty_blocks y - {ls}"
    by (rule rewrite_block_ok [OF y']) (simp add: hv)
  have "write_head ?y = Inr t" using t(1) yf xf by (simp add: write_head_def)
  then have "initlog 1 s = Inr t" using iv ri y(1) by (simp add: recover_from_log_def)
  moreover have "disk t = apply_writes (replay_writes ls (disk s)) (disk s)"
    by (simp add: t(4) y(4) replay_writes_def Let_def)
  moreover have "view_block t = disk t" by (simp add: t(3,4) y(3,4))
  moreover have "dirty_blocks t = {}" using t(6) y(7) xv(5) by simp
  moreover have "l_start t = ls" "l_size t = n" "l_dev t = 1" "l_blocks t = []" "disksize t = disksize s"
    using l_fields(1-4,7) [OF t(5)] yf(1-3,7) xf(1-3,5) by simp_all
  ultimately show thesis using t(2) by (intro that [of t]) assumption+
qed

section \<open>Crashes\<close>

lemma writes_of:
  assumes inv: "log_inv s"
  shows "fst ` set (log_writes s) \<subseteq> log_area s - {l_start s}" "fst ` set (home_writes s) = set (l_blocks s)"
    "length (log_writes s) = length (l_blocks s)" "length (home_writes s) = length (l_blocks s)"
    "i < length (l_blocks s) \<Longrightarrow> apply_writes (log_writes s) d (l_start s + i + 1) = view_block s (l_blocks s ! i)"
    "(b, x) \<in> set (home_writes s) \<Longrightarrow> x = view_block s b"
proof -
  show "fst ` set (log_writes s) \<subseteq> log_area s - {l_start s}"
    using log_area_head(2) [OF inv] by (auto simp: log_writes_def)
  have "map fst (home_writes s) = l_blocks s" by (simp add: home_writes_def comp_def map_nth)
  then show "fst ` set (home_writes s) = set (l_blocks s)" by (metis set_map)
  show "length (log_writes s) = length (l_blocks s)" "length (home_writes s) = length (l_blocks s)"
    by (simp_all add: log_writes_def home_writes_def)
  show "i < length (l_blocks s) \<Longrightarrow> apply_writes (log_writes s) d (l_start s + i + 1) = view_block s (l_blocks s ! i)"
    by (rule apply_writes_in) (auto simp: log_writes_def image_def)
  show "(b, x) \<in> set (home_writes s) \<Longrightarrow> x = view_block s b" by (auto simp: home_writes_def)
qed

lemma head_of_head_data: "rd32 (head_data bs d) 0 = of_nat (length bs)"
  by (simp add: head_data_def rd32_wr_ints_before)

text \<open>The disk after \<open>k\<close> of the writes of a commit.\<close>

lemma crash_disk:
  fixes k :: nat
  assumes inv: "log_inv s"
  defines "d \<equiv> apply_writes (take k (commit_writes s)) (disk s)" and "n \<equiv> length (l_blocks s)"
  shows "b \<notin> log_area s \<Longrightarrow> b \<notin> set (l_blocks s) \<Longrightarrow> d b = disk s b"
    and "k \<le> n \<Longrightarrow> d (l_start s) = disk s (l_start s)"
    and "k \<le> n \<Longrightarrow> b \<notin> log_area s \<Longrightarrow> d b = disk s b"
    and "n < k \<Longrightarrow> k \<le> 2 * n + 1 \<Longrightarrow> n \<noteq> 0 \<Longrightarrow> d (l_start s) = snd (head_write s)"
    and "n < k \<Longrightarrow> k \<le> 2 * n + 1 \<Longrightarrow> i < n \<Longrightarrow> d (l_start s + i + 1) = view_block s (l_blocks s ! i)"
    and "2 * n + 1 < k \<Longrightarrow> n \<noteq> 0 \<Longrightarrow> d (l_start s) = snd (clear_write s)"
    and "2 * n + 1 < k \<Longrightarrow> b \<in> set (l_blocks s) \<Longrightarrow> d b = view_block s b"
proof -
  note w = writes_of [OF inv] and ls = log_area_head(1) [OF inv]
  have sep: "set (l_blocks s) \<inter> log_area s = {}" using log_invD(9) [OF inv] by blast
  have hw: "head_write s = (l_start s, snd (head_write s))" "clear_write s = (l_start s, snd (clear_write s))"
    by (simp_all add: head_write_def clear_write_def)
  have fsts: "fst ` set (commit_writes s) \<subseteq> log_area s \<union> set (l_blocks s)"
    using w(1,2) ls by (auto simp: commit_writes_def head_write_def clear_write_def)
  show "b \<notin> log_area s \<Longrightarrow> b \<notin> set (l_blocks s) \<Longrightarrow> d b = disk s b"
    unfolding d_def by (rule apply_writes_other) (use fsts in \<open>auto dest!: in_set_takeD\<close>)
  have tk: "take k (commit_writes s) = take k (log_writes s)" if "k \<le> n"
    using that w(3) by (auto simp: commit_writes_def n_def)
  show "d (l_start s) = disk s (l_start s)" if "k \<le> n"
    unfolding d_def tk [OF that] by (rule apply_writes_other) (use w(1) in \<open>auto dest!: in_set_takeD\<close>)
  show "d b = disk s b" if "k \<le> n" "b \<notin> log_area s"
    unfolding d_def tk [OF that(1)] by (rule apply_writes_other) (use w(1) that(2) in \<open>auto dest!: in_set_takeD\<close>)
  have mid: "\<exists>m. d = apply_writes (take m (home_writes s))
      ((apply_writes (log_writes s) (disk s))(l_start s := snd (head_write s)))" if "n < k" "k \<le> 2 * n + 1" "n \<noteq> 0"
  proof -
    have "take k (commit_writes s) = log_writes s @ [(l_start s, snd (head_write s))] @ take (k - n - 1) (home_writes s)"
      using that w(3,4) hw(1) by (auto simp: commit_writes_def n_def take_Cons' )
    then show ?thesis unfolding d_def by (intro exI [of _ "k - n - 1"]) simp
  qed
  have nh: "l_start s \<notin> fst ` set (take m (home_writes s))" "l_start s + i + 1 \<notin> fst ` set (take m (home_writes s))"
    if "i < n" for m i
    using w(2) sep ls log_area_head(2) [OF inv, of i] that unfolding n_def by (force dest!: in_set_takeD)+
  show "d (l_start s) = snd (head_write s)" if "n < k" "k \<le> 2 * n + 1" "n \<noteq> 0"
    using mid [OF that] apply_writes_other [OF nh(1) [of 0]] that(3) by auto
  show "d (l_start s + i + 1) = view_block s (l_blocks s ! i)" if "n < k" "k \<le> 2 * n + 1" "i < n"
  proof -
    from that(3) have "n \<noteq> 0" by simp
    from mid [OF that(1,2) this] show ?thesis
      using apply_writes_other [OF nh(2) [OF that(3)]] w(5) [of i] that(3) by (auto simp: n_def)
  qed
  have all: "d = (apply_writes (home_writes s) ((apply_writes (log_writes s) (disk s))(l_start s := snd (head_write s))))
      (l_start s := snd (clear_write s))" if "2 * n + 1 < k" "n \<noteq> 0"
  proof -
    have "commit_writes s = log_writes s @ [(l_start s, snd (head_write s))] @ home_writes s @ [(l_start s, snd (clear_write s))]"
      using that(2) hw by (simp add: commit_writes_def n_def)
    moreover from this have "take k (commit_writes s) = commit_writes s" using that(1) w(3,4) by (simp add: n_def)
    ultimately show ?thesis unfolding d_def by simp
  qed
  then show "2 * n + 1 < k \<Longrightarrow> n \<noteq> 0 \<Longrightarrow> d (l_start s) = snd (clear_write s)" by simp
  show "d b = view_block s b" if "2 * n + 1 < k" "b \<in> set (l_blocks s)"
  proof -
    have "n \<noteq> 0" "b \<noteq> l_start s" using that(2) sep ls by (auto simp: n_def)
    moreover have "apply_writes (home_writes s) x b = view_block s b" for x
      by (rule apply_writes_in) (use that(2) w(2,6) in auto)
    ultimately show ?thesis using all [OF that(1)] by simp
  qed
qed

lemma replay_head:
  assumes "sint (rd32 (d ls) 0) = 0"
  shows "replay_writes ls d = [(ls, head_data [] (d ls))]"
  using assms by (simp add: replay_writes_def head_blocks_zero)

lemma replay_full:
  assumes "head_blocks (d ls) = bs" "\<And>i. i < length bs \<Longrightarrow> d (ls + i + 1) = f (bs ! i)" "b \<noteq> ls"
  shows "apply_writes (replay_writes ls d) d b = (if b \<in> set bs then f b else d b)"
proof -
  let ?ws = "map (\<lambda>i. (bs ! i, d (ls + i + 1))) [0..<length bs]"
  have "map fst ?ws = bs" by (simp add: comp_def map_nth)
  then have fs: "fst ` set ?ws = set bs" by (metis set_map)
  have "apply_writes ?ws d b = (if b \<in> set bs then f b else d b)"
    using apply_writes_other [of b ?ws d] apply_writes_in [of b ?ws "f b" d] fs assms(2) by auto
  then show ?thesis using assms(3) by (simp add: replay_writes_def assms(1) Let_def)
qed

lemma commit_crash:
  assumes inv: "log_inv s" and g: "good_log (l_start s) (l_size s) (disksize s) (disk s)"
    and sb: "1 \<notin> log_area s" "1 \<notin> set (l_blocks s)"
    and f: "fresh c" and dc: "disksize c = disksize s" "disk c = apply_writes (take k (commit_writes s)) (disk s)"
  shows "\<exists>t u. commit s = Inr t \<and> dwrites t = dwrites s @ commit_writes s \<and> initlog 1 c = Inr u \<and> log_inv u \<and>
    (\<forall>b. b \<notin> log_area s \<longrightarrow>
       view_block u b = (if k \<le> length (l_blocks s) then disk s b else view_block s b))"
proof -
  let ?n = "length (l_blocks s)"
  note d = log_invD [OF inv] and cd = crash_disk [OF inv, where k = k, folded dc(2)]
  have ls: "l_start s \<in> log_area s" by (rule log_area_head(1) [OF inv])
  obtain t where t: "commit s = Inr t" "dwrites t = dwrites s @ commit_writes s" by (rule commit_ok [OF inv])
  have bs31: "\<forall>b \<in> set (l_blocks s). b < 2 ^ 31" using d(7,8) by force
  have clean: "view_block s b = disk s b" if "b \<notin> set (l_blocks s)" for b
    using clean_view [OF d(1)] that d(10) by blast
  have hd0: "sint (rd32 (head_data [] x) 0) = 0" for x by (simp add: head_of_head_data)
  have hdn: "sint (rd32 (head_data (l_blocks s) x) 0) = int ?n" "head_blocks (head_data (l_blocks s) x) = l_blocks s" for x
    using d(4) bs31 by (simp_all add: head_of_head_data sint_of_nat32 head_blocks_head_data)
  consider (old) "k \<le> ?n \<or> ?n = 0" | (mid) "?n < k" "k \<le> 2 * ?n + 1" "?n \<noteq> 0" | (new) "2 * ?n + 1 < k" "?n \<noteq> 0"
    by linarith
  then have h: "(head_blocks (disk c (l_start s)) = [] \<or> head_blocks (disk c (l_start s)) = l_blocks s) \<and>
     sint (rd32 (disk c (l_start s)) 0) = int (length (head_blocks (disk c (l_start s)))) \<and>
     (\<forall>b. b \<notin> log_area s \<longrightarrow> apply_writes (replay_writes (l_start s) (disk c)) (disk c) b =
       (if k \<le> ?n then disk s b else view_block s b))"
  proof cases
    case old
    have e: "disk c b = disk s b" if "b \<notin> log_area s \<or> b = l_start s" for b
      using old cd(2,3) that
      by (cases "k \<le> ?n") (auto simp: dc(2) commit_writes_def)
    have z: "sint (rd32 (disk c (l_start s)) 0) = 0" using e d(11) by simp
    have "apply_writes (replay_writes (l_start s) (disk c)) (disk c) b = disk s b" if "b \<notin> log_area s" for b
      using that e ls by (auto simp: replay_head [where d = "disk c", OF z])
    moreover have "?n = 0 \<Longrightarrow> view_block s b = disk s b" for b using clean by simp
    ultimately show ?thesis using z old by (auto simp: head_blocks_zero)
  next
    case mid
    have h: "disk c (l_start s) = head_data (l_blocks s) (view_block s (l_start s))"
      using cd(4) [OF mid] by (simp add: head_write_def)
    have "apply_writes (replay_writes (l_start s) (disk c)) (disk c) b = view_block s b" if "b \<notin> log_area s" for b
    proof -
      have "b \<noteq> l_start s" using that ls by blast
      then have "apply_writes (replay_writes (l_start s) (disk c)) (disk c) b =
          (if b \<in> set (l_blocks s) then view_block s b else disk c b)"
        using cd(5) [OF mid(1,2)] h hdn(2) by (intro replay_full) simp_all
      then show ?thesis using cd(1) [OF that] clean by simp
    qed
    then show ?thesis using h hdn mid(1) by simp
  next
    case new
    have z: "sint (rd32 (disk c (l_start s)) 0) = 0" using cd(6) [OF new] hd0 by (simp add: clear_write_def)
    have "apply_writes (replay_writes (l_start s) (disk c)) (disk c) b = view_block s b" if "b \<notin> log_area s" for b
    proof (cases "b \<in> set (l_blocks s)")
      case True
      then show ?thesis using cd(7) [OF new(1) True] that ls by (auto simp: replay_head [where d = "disk c", OF z])
    next
      case False
      then show ?thesis using cd(1) [OF that False] clean [OF False] that ls
        by (auto simp: replay_head [where d = "disk c", OF z])
    qed
    then show ?thesis using z new(1) by (simp add: head_blocks_zero)
  qed
  have g': "good_log (l_start s) (l_size s) (disksize c) (disk c)"
    using g h cd(1) [OF sb] d(4,5,8,9) unfolding good_log_def dc(1)
    by (auto simp: log_area_def)
  obtain u where u: "initlog 1 c = Inr u" "bio_inv u {}" "view_block u = disk u" "dirty_blocks u = {}"
    "disk u = apply_writes (replay_writes (l_start s) (disk c)) (disk c)"
    "l_start u = l_start s" "l_size u = l_size s" "l_dev u = 1" "l_blocks u = []" "disksize u = disksize c"
    by (rule initlog_ok [OF f g'])
  have "disk u (l_start s) = head_data [] (disk c (l_start s))" by (simp add: u(5) replay_writes_def)
  then have "log_inv u"
    using u(2,4,6-10) d(5-7) hd0 dc(1) by (simp add: log_inv_def)
  then show ?thesis using t u(1,3,5) h by auto
qed

text \<open>
  C2. Commits are atomic: whenever the machine stops while \<open>end_op\<close> commits a transaction, after any
  number \<open>k\<close> of the block writes \<open>commit\<close> makes, the next boot's \<open>initlog\<close> returns, and outside of the log
  every block is what it was before the transaction when \<open>k\<close> did not reach the write of the header,
  and what the transaction made it otherwise.
\<close>

theorem commit_atomic:
  assumes inv: "log_inv s" and g: "good_log (l_start s) (l_size s) (disksize s) (disk s)"
    and sb: "1 \<notin> log_area s" "1 \<notin> set (l_blocks s)"
    and f: "fresh c" and dc: "disksize c = disksize s" "disk c = apply_writes (take k (commit_writes s)) (disk s)"
  shows "\<exists>t u. commit s = Inr t \<and> dwrites t = dwrites s @ commit_writes s \<and> initlog 1 c = Inr u \<and> log_inv u \<and>
    (\<forall>b. b \<notin> log_area s \<longrightarrow>
       view_block u b = (if k \<le> length (l_blocks s) then disk s b else view_block s b))"
  by (rule commit_crash [OF assms])

text \<open>A running process, a cache and a disk with the layout \<open>mkfs\<close> gives it.\<close>

definition free_buf :: buf where
  "free_buf = \<lparr>b_valid = False, b_dirty = False, b_dev = 0, b_blockno = 0, b_lock = initsleeplock, b_refcnt = 0,
     b_data = (\<lambda>_. 0)\<rparr>"

definition mkfs_disk :: "nat \<Rightarrow> block" where
  "mkfs_disk = (\<lambda>_ _. 0)(1 := wr_ints 0 [1000, 941, 200, 30, 2, 32, 58] (\<lambda>_. 0))"

definition fs_state :: "buf list \<Rightarrow> (nat \<Rightarrow> block) \<Rightarrow> nat list \<Rightarrow> logst" where
  "fs_state bl d bs = \<lparr>pmem = (\<lambda>_. 0), freelist = 0, use_lock = True, kend = 0x80115000, kdata = 0x80108000, kout = [],
     procs = [idle_proc\<lparr>p_state := RUNNING\<rparr>], cur = Some 0, initproc = Some 0, nextpid = 9, ticks = 0,
     kpgdir = 0x80300000, cr3 = 0x300000, esp0 = 0, forkret_at = 0x80103000, trapret_at = 0x80106000,
     bufs = bl @ replicate (NBUF - length bl) free_buf, mru = [0..<NBUF], disk = d, disksize = 1000, dwrites = [],
     l_start = 2, l_size = 30, l_outstanding = 1, l_committing = False, l_dev = 1, l_blocks = bs\<rparr>"

lemma fs_state_simps [simp]:
  "bufs (fs_state bl d bs) = bl @ replicate (NBUF - length bl) free_buf" "mru (fs_state bl d bs) = [0..<NBUF]"
  "disk (fs_state bl d bs) = d" "disksize (fs_state bl d bs) = 1000" "dwrites (fs_state bl d bs) = []"
  "l_start (fs_state bl d bs) = 2" "l_size (fs_state bl d bs) = 30" "l_outstanding (fs_state bl d bs) = 1"
  "l_committing (fs_state bl d bs) = False" "l_dev (fs_state bl d bs) = 1" "l_blocks (fs_state bl d bs) = bs"
  "cur (fs_state bl d bs) = Some 0" "mypid (fs_state bl d bs) = Inr 1"
  "procs (fs_state bl d bs) = [idle_proc\<lparr>p_state := RUNNING\<rparr>]"
  by (simp_all add: fs_state_def mypid_def idle_proc_def)

definition dirty_buf :: "nat \<Rightarrow> block \<Rightarrow> buf" where
  "dirty_buf b x = free_buf\<lparr>b_valid := True, b_dirty := True, b_dev := 1, b_blockno := b, b_data := x\<rparr>"

lemma sample_bufs [simp]:
  "\<not> b_valid free_buf" "\<not> b_dirty free_buf" "b_dev free_buf = 0" "b_refcnt free_buf = 0" "\<not> sl_locked (b_lock free_buf)"
  "b_valid (dirty_buf b x)" "b_dirty (dirty_buf b x)" "b_dev (dirty_buf b x) = 1" "b_blockno (dirty_buf b x) = b"
  "b_refcnt (dirty_buf b x) = 0" "\<not> sl_locked (b_lock (dirty_buf b x))" "b_data (dirty_buf b x) = x"
  by (simp_all add: free_buf_def dirty_buf_def initsleeplock_def)

lemma sample_nth: "i < NBUF \<Longrightarrow> (dirty_buf b x # replicate 29 free_buf) ! i = (if i = 0 then dirty_buf b x else free_buf)"
  by (cases i) simp_all

lemma fs_state_fresh: "fresh (fs_state [] d bs)"
  by (auto simp: fresh_def bio_inv_def holds_def)

lemma fs_state_holds: "holds c i (fs_state [dirty_buf b x] d bs) \<longleftrightarrow> i = 0 \<and> c = b"
  by (auto simp: holds_def sample_nth split: if_splits)

lemma fs_state_bio_inv: "bio_inv (fs_state [dirty_buf b x] d bs) {}"
  unfolding bio_inv_def fs_state_holds by (auto simp: sample_nth split: if_splits)

lemma fs_state_dirty: "dirty_blocks (fs_state [dirty_buf b x] d bs) = {b}"
  unfolding dirty_blocks_def fs_state_holds dirty_bufs_def by (auto simp: sample_nth)

lemma fs_state_log_inv: "b < 1000 \<Longrightarrow> 32 \<le> b \<Longrightarrow> log_inv (fs_state [dirty_buf b x] mkfs_disk [b])"
  using fs_state_bio_inv [of b x mkfs_disk "[b]"] fs_state_dirty [of b x mkfs_disk "[b]"]
  by (simp add: log_inv_def log_area_def mkfs_disk_def rd32_def)

lemma mkfs_disk_good: "good_log 2 30 1000 mkfs_disk"
proof -
  have r: "rd32 (mkfs_disk 1) 16 = 2" "rd32 (mkfs_disk 1) 12 = 30"
    using rd32_wr_ints [of 4 "[1000, 941, 200, 30, 2, 32, 58]" 0 "\<lambda>_. 0"]
      rd32_wr_ints [of 3 "[1000, 941, 200, 30, 2, 32, 58]" 0 "\<lambda>_. 0"] by (simp_all add: mkfs_disk_def)
  have z: "rd32 (mkfs_disk 2) 0 = 0" by (simp add: mkfs_disk_def rd32_def)
  show ?thesis unfolding good_log_def r z by (simp add: head_blocks_def z)
qed

theorem commit_atomic_witness:
  "let s = fs_state [dirty_buf 59 (\<lambda>_. 7)] mkfs_disk [59];
       boot = (\<lambda>k. initlog 1 (fs_state [] (apply_writes (take k (commit_writes s)) mkfs_disk) []))
   in \<exists>u v. boot 1 = Inr u \<and> view_block u 59 = (\<lambda>_. 0) \<and> boot 2 = Inr v \<and> view_block v 59 = (\<lambda>_. 7)"
proof -
  let ?s = "fs_state [dirty_buf 59 (\<lambda>_. 7)] mkfs_disk [59]"
  let ?c = "\<lambda>k. fs_state [] (apply_writes (take k (commit_writes ?s)) mkfs_disk) []"
  have inv: "log_inv ?s" by (rule fs_state_log_inv) simp_all
  have "view_block ?s 59 = b_data (bufs ?s ! 0)"
    by (rule view_cached [OF log_invD(1) [OF inv]]) (simp_all add: fs_state_holds)
  then have v: "view_block ?s 59 = (\<lambda>_. 7)" by simp
  have "\<exists>t u. commit ?s = Inr t \<and> dwrites t = dwrites ?s @ commit_writes ?s \<and> initlog 1 (?c k) = Inr u \<and> log_inv u \<and>
    (\<forall>b. b \<notin> log_area ?s \<longrightarrow>
       view_block u b = (if k \<le> length (l_blocks ?s) then disk ?s b else view_block ?s b))" for k
    by (rule commit_atomic [OF inv]) (simp_all add: mkfs_disk_good fs_state_fresh log_area_def)
  from this [of 1] this [of 2] show ?thesis
    using v by (fastforce simp: log_area_def mkfs_disk_def Let_def)
qed

section \<open>Space in the log\<close>

text \<open>The cache never touches what is above it.\<close>

lemma bget_more: "bget dev b s = Inr (i, t) \<Longrightarrow> bio.more t = bio.more s"
  by (auto simp: bget_def lock_buf_def upd_buf_def split: option.splits)

lemma iderw_more: "iderw i s = Inr t \<Longrightarrow> bio.more t = bio.more s"
  by (auto simp: iderw_def Let_def upd_buf_def split: if_splits)

lemma bread_more: "bread dev b s = Inr (i, t) \<Longrightarrow> bio.more t = bio.more s"
  by (auto simp: bread_def split: if_splits dest!: bget_more iderw_more)

lemma bwrite_more: "bwrite i s = Inr t \<Longrightarrow> bio.more t = bio.more s"
  by (auto simp: bwrite_def split: if_splits dest!: iderw_more)

lemma wakeup_more: "bio.more (wakeup ch s) = bio.more s"
  by (simp add: wakeup_def wakeup1_def)

lemma brelse_more: "brelse i s = Inr t \<Longrightarrow> bio.more t = bio.more s"
  by (auto simp: brelse_def releasesleep_def Let_def upd_buf_def wakeup_more split: if_splits)

lemma set_data_more: "bio.more (set_data i f s) = bio.more s"
  by (simp add: set_data_def)

lemmas bio_more = bread_more bwrite_more brelse_more

lemma rewrite_block_more: "rewrite_block dev b f s = Inr t \<Longrightarrow> bio.more t = bio.more s"
  by (auto simp: rewrite_block_def set_data_more dest!: bio_more)

lemma copy_block_more: "copy_block sf dev a c s = Inr t \<Longrightarrow> bio.more t = bio.more s"
  by (auto simp: copy_block_def set_data_more split: if_splits dest!: bio_more)

lemma foldE_more:
  assumes "foldE f xs s = Inr t" "\<And>x s t. f x s = Inr t \<Longrightarrow> bio.more t = bio.more s"
  shows "bio.more t = bio.more s"
  using assms by (induction xs arbitrary: s) auto

lemma install_trans_more: "install_trans s = Inr t \<Longrightarrow> bio.more t = bio.more s"
  unfolding install_trans_def by (rule foldE_more) (auto intro: copy_block_more)

lemma write_log_more: "write_log s = Inr t \<Longrightarrow> bio.more t = bio.more s"
  unfolding write_log_def by (rule foldE_more) (auto intro: copy_block_more)

lemma more_fields:
  assumes "bio.more t = bio.more s"
  shows "l_start t = l_start s" "l_size t = l_size s" "l_dev t = l_dev s" "l_blocks t = l_blocks s"
    "l_outstanding t = l_outstanding s" "l_committing t = l_committing s" "logst.more t = logst.more s"
  using assms by (cases s; cases t; simp)+

lemma commit_fields:
  assumes "commit s = Inr t"
  shows "l_blocks t = []" "l_size t = l_size s" "l_outstanding t = l_outstanding s"
proof -
  have "l_blocks t = [] \<and> l_size t = l_size s \<and> l_outstanding t = l_outstanding s"
  proof (cases "l_blocks s = []")
    case True
    with assms show ?thesis by (simp add: commit_def)
  next
    case False
    with assms obtain u v w where r: "write_log s = Inr u" "write_head u = Inr v" "install_trans v = Inr w"
      "write_head (w\<lparr>l_blocks := []\<rparr>) = Inr t" by (auto simp: commit_def)
    note m = more_fields [OF write_log_more [OF r(1)]]
      more_fields [OF rewrite_block_more [OF r(2) [unfolded write_head_def]]]
      more_fields [OF install_trans_more [OF r(3)]] more_fields [OF rewrite_block_more [OF r(4) [unfolded write_head_def]]]
    show ?thesis by (simp add: m)
  qed
  then show "l_blocks t = []" "l_size t = l_size s" "l_outstanding t = l_outstanding s" by simp_all
qed

text \<open>
  The history of the file system calls: \<open>R\<close> gives, for each call that is inside a transaction, how
  many more blocks it may still add to the log; a call begins with \<open>MAXOPBLOCKS\<close>.
\<close>

inductive fs_history :: "'a logst_scheme \<Rightarrow> nat list \<Rightarrow> bool" where
  start: "l_blocks s = [] \<Longrightarrow> l_outstanding s = 0 \<Longrightarrow> fs_history s []"
| begins: "fs_history s R \<Longrightarrow> begin_op s = Inr t \<Longrightarrow> fs_history t (10 # R)"
| absorbs: "fs_history s R \<Longrightarrow> b_blockno (bufs s ! i) \<in> set (l_blocks s) \<Longrightarrow> log_write i s = Inr t \<Longrightarrow> fs_history t R"
| adds: "fs_history s R \<Longrightarrow> k < length R \<Longrightarrow> 0 < R ! k \<Longrightarrow> log_write i s = Inr t \<Longrightarrow> fs_history t (R[k := R ! k - 1])"
| ends: "fs_history s (R @ r # Q) \<Longrightarrow> end_op s = Inr t \<Longrightarrow> fs_history t (R @ Q)"
| other: "fs_history s R \<Longrightarrow> l_blocks t = l_blocks s \<Longrightarrow> l_outstanding t = l_outstanding s \<Longrightarrow> fs_history t R"

lemma log_write_fields:
  assumes "log_write i s = Inr t"
  shows "l_blocks t = (if b_blockno (bufs s ! i) \<in> set (l_blocks s) then l_blocks s else l_blocks s @ [b_blockno (bufs s ! i)])"
    "l_outstanding t = l_outstanding s" "l_size t = l_size s" "l_committing t = l_committing s"
proof -
  let ?b = "b_blockno (bufs s ! i)"
  have keep: "(l_blocks s)[k := ?b] = l_blocks s" if "first_idx (\<lambda>x. x = ?b) (l_blocks s) = Some k" for k
    using first_idx_SomeD(2) [OF that] by (metis list_update_id)
  have "first_idx (\<lambda>x. x = ?b) (l_blocks s) = None \<longleftrightarrow> ?b \<notin> set (l_blocks s)" by (auto simp: first_idx_None)
  then show "l_blocks t = (if ?b \<in> set (l_blocks s) then l_blocks s else l_blocks s @ [?b])"
    "l_outstanding t = l_outstanding s" "l_size t = l_size s" "l_committing t = l_committing s"
    using assms keep by (auto simp: log_write_def Let_def upd_buf_def split: if_splits option.splits)
qed

lemma sum_list_dec: "k < length R \<Longrightarrow> 0 < R ! k \<Longrightarrow> Suc (sum_list (R[k := R ! k - 1])) = sum_list (R :: nat list)"
  by (induction R arbitrary: k) (auto simp: nth_Cons' split: nat.splits)

lemma sum_list_le_10: "\<forall>r \<in> set R. r \<le> 10 \<Longrightarrow> sum_list R \<le> 10 * length (R :: nat list)"
  by (induction R) auto

lemma end_op_fields:
  assumes "end_op s = Inr t"
  shows "l_outstanding t = l_outstanding s - 1" "l_blocks t = [] \<or> l_blocks t = l_blocks s" "l_size t = l_size s"
proof -
  let ?s = "s\<lparr>l_outstanding := l_outstanding s - 1\<rparr>"
  have "l_outstanding t = l_outstanding s - 1 \<and> (l_blocks t = [] \<or> l_blocks t = l_blocks s) \<and> l_size t = l_size s"
  proof (cases "l_outstanding s = 1")
    case True
    with assms obtain u where "commit (?s\<lparr>l_committing := True\<rparr>) = Inr u" "t = wakeup AtLog (u\<lparr>l_committing := False\<rparr>)"
      by (auto simp: end_op_def Let_def split: if_splits)
    then show ?thesis using commit_fields [of "?s\<lparr>l_committing := True\<rparr>" u] by (simp add: wakeup_def wakeup1_def)
  next
    case False
    then have "t = wakeup AtLog ?s" using assms by (auto simp: end_op_def Let_def split: if_splits)
    then show ?thesis by (simp add: wakeup_def wakeup1_def)
  qed
  then show "l_outstanding t = l_outstanding s - 1" "l_blocks t = [] \<or> l_blocks t = l_blocks s" "l_size t = l_size s"
    by simp_all
qed

lemma fs_history_reserved:
  "fs_history s R \<Longrightarrow> length (l_blocks s) + sum_list R \<le> LOGSIZE \<and> l_outstanding s = int (length R) \<and> (\<forall>r \<in> set R. r \<le> 10)"
proof (induction rule: fs_history.induct)
  case (begins s R t)
  then show ?case using sum_list_le_10 [of R] by (auto simp: begin_op_def split: if_splits)
next
  case (absorbs s R i t)
  then show ?case using log_write_fields [OF absorbs(3)] by auto
next
  case (adds s R k i t)
  then show ?case using log_write_fields [OF adds(4)] sum_list_dec [OF adds(2,3)]
    by (auto dest!: set_update_subset_insert [THEN subsetD] nth_mem)
next
  case (ends s R r Q t)
  then show ?case using end_op_fields [OF ends(2)] by auto
qed (auto)

text \<open>
  C14. The reservations of \<open>begin_op\<close> are enough for a log of more than \<open>LOGSIZE\<close> blocks: in any
  interleaving of file system calls in which no call adds more than \<open>MAXOPBLOCKS\<close> blocks to the log (writes of a
  block that is in the log already are absorbed and not counted), \<open>log_write\<close> does not panic on a call that has so
  far added fewer than \<open>MAXOPBLOCKS\<close> blocks, whether it adds another or is absorbed. Nothing is said of a
  call that has added all its blocks: \<open>log_write\<close> looks at the length of the log before it looks for the block, so
  in a full log it panics on an absorbed block too.
\<close>

theorem log_write_never_panics:
  assumes "fs_history s R" "k < length R" "0 < R ! k" "int LOGSIZE < l_size s"
  shows "\<exists>t. log_write i s = Inr t \<and> fs_history t (R[k := R ! k - 1]) \<and>
    (b_blockno (bufs s ! i) \<in> set (l_blocks s) \<longrightarrow> l_blocks t = l_blocks s \<and> fs_history t R)"
proof -
  note r = fs_history_reserved [OF assms(1)]
  have "0 < sum_list R" using assms(2,3) by (meson elem_le_sum_list less_le_trans)
  then have n: "length (l_blocks s) < LOGSIZE" "int (length (l_blocks s)) < l_size s - 1" "\<not> l_outstanding s < 1"
    using r assms(2,4) by auto
  then obtain t where t: "log_write i s = Inr t" by (auto simp: log_write_def Let_def)
  show ?thesis
    using t fs_history.adds [OF assms(1-3) t] fs_history.absorbs [OF assms(1) _ t] log_write_fields(1) [OF t] by auto
qed

theorem log_write_never_panics_witness:
  "let s = (fs_state [dirty_buf 59 (\<lambda>_. 7)] mkfs_disk [])\<lparr>l_outstanding := 0, l_size := 31\<rparr>
   in \<exists>t u. begin_op s = Inr t \<and> log_write 0 t = Inr u \<and> fs_history u [9]"
proof -
  let ?s = "(fs_state [dirty_buf 59 (\<lambda>_. 7)] mkfs_disk [])\<lparr>l_outstanding := 0, l_size := 31\<rparr>"
  let ?t = "?s\<lparr>l_outstanding := 1\<rparr>"
  have t: "begin_op ?s = Inr ?t" by (simp add: begin_op_def)
  have "fs_history ?s []" by (rule fs_history.start) simp_all
  then have "fs_history ?t [10]" by (rule fs_history.begins) (rule t)
  then have "\<exists>u. log_write 0 ?t = Inr u \<and> fs_history u ([10][0 := [10] ! 0 - 1])"
    using log_write_never_panics [of ?t "[10]" 0 0] by auto
  then show ?thesis using t by (auto simp: Let_def)
qed

lemma log_writes_fill:
  assumes "l_blocks s = []" "0 < l_outstanding s" "l_size s = 30" "inj_on (\<lambda>i. b_blockno (bufs s ! i)) {..<NBUF}" "k \<le> 29"
  shows "\<exists>t. foldE log_write [0..<k] s = Inr t \<and> l_blocks t = map (\<lambda>i. b_blockno (bufs s ! i)) [0..<k] \<and>
    l_size t = 30 \<and> (\<forall>i. b_blockno (bufs t ! i) = b_blockno (bufs s ! i)) \<and> l_outstanding t = l_outstanding s"
  using assms(5)
proof (induction k)
  case 0
  then show ?case using assms by simp
next
  case (Suc k)
  then obtain t where t: "foldE log_write [0..<k] s = Inr t" "l_blocks t = map (\<lambda>i. b_blockno (bufs s ! i)) [0..<k]"
    "l_size t = 30" "\<forall>i. b_blockno (bufs t ! i) = b_blockno (bufs s ! i)" "l_outstanding t = l_outstanding s" by auto
  have "first_idx (\<lambda>x. x = b_blockno (bufs t ! k)) (l_blocks t) = None"
    using t(2,4) Suc.prems inj_onD [OF assms(4)] by (fastforce simp: first_idx_None)
  then have w: "log_write k t = Inr (upd_buf k (\<lambda>b. b\<lparr>b_dirty := True\<rparr>) (t\<lparr>l_blocks := l_blocks t @ [b_blockno (bufs t ! k)]\<rparr>))"
    using t assms(2) Suc.prems by (simp add: log_write_def)
  have "b_blockno ((bufs t)[k := (bufs t ! k)\<lparr>b_dirty := True\<rparr>] ! i) = b_blockno (bufs t ! i)" for i
    by (cases "k < length (bufs t)") (auto simp: nth_list_update list_update_beyond)
  then show ?case using t w by (auto simp: foldE_append upd_buf_def)
qed

text \<open>
  C33. With the log that \<open>mkfs\<close> makes (\<open>nlog\<close> is \<open>LOGSIZE\<close>, of which one block is the header) they are not:
  three calls that each stay within the \<open>MAXOPBLOCKS\<close> blocks they were granted fill the log, and the
  last \<open>log_write\<close> panics.
\<close>

theorem mkfs_log_too_small:
  assumes "l_blocks s = []" "l_outstanding s = 0" "\<not> l_committing s" "l_size s = 30"
    "inj_on (\<lambda>i. b_blockno (bufs s ! i)) {..<NBUF}"
  shows "\<exists>t u. foldE (\<lambda>_. begin_op) [0..<3] s = Inr t \<and> foldE log_write [0..<29] t = Inr u \<and>
    log_write 29 u = Inl (Panic ''too big a transaction'')"
proof -
  let ?t = "s\<lparr>l_outstanding := 3\<rparr>"
  have t: "foldE (\<lambda>_. begin_op) [0..<3] s = Inr ?t"
    using assms(1-3) by (simp add: begin_op_def upt_rec)
  obtain u where u: "foldE log_write [0..<29] ?t = Inr u" "l_blocks u = map (\<lambda>i. b_blockno (bufs ?t ! i)) [0..<29]" "l_size u = 30"
    using log_writes_fill [of ?t 29] assms by auto
  then have "log_write 29 u = Inl (Panic ''too big a transaction'')" by (simp add: log_write_def)
  with t u(1) show ?thesis by blast
qed

theorem mkfs_log_too_small_witness:
  "let s = (fs_state (map (\<lambda>b. dirty_buf b (\<lambda>_. 7)) [100..<130]) mkfs_disk [])\<lparr>l_outstanding := 0\<rparr>
   in \<exists>t u. foldE (\<lambda>_. begin_op) [0..<3] s = Inr t \<and> foldE log_write [0..<29] t = Inr u \<and>
    log_write 29 u = Inl (Panic ''too big a transaction'')"
  unfolding Let_def by (rule mkfs_log_too_small) (auto simp: inj_on_def simp del: upt_rec_numeral)

end
