(* ===== verification/Inode.thy ===== *)
theory Inode
  imports Log
begin

text \<open>
  Blocks and inodes: the first two layers of \<open>fs.c\<close> above the log. The inode cache is the list
  \<open>inodes\<close>; a pointer to an inode is an index into it. Fields of an inode on disk are read and written at
  their byte offsets in the block (\<open>struct dinode\<close> of \<open>fs.h\<close>, 64 bytes, eight to a block).
\<close>

unbundle bit_operations_syntax

section \<open>State\<close>

abbreviation NDIRECT :: nat where "NDIRECT \<equiv> 12"
abbreviation NINDIRECT :: nat where "NINDIRECT \<equiv> 128"
abbreviation MAXFILE :: nat where "MAXFILE \<equiv> 140"
abbreviation IPB :: nat where "IPB \<equiv> 8"
abbreviation BPB :: nat where "BPB \<equiv> 4096"
abbreviation NINODE :: nat where "NINODE \<equiv> 50"
abbreviation ROOTDEV :: nat where "ROOTDEV \<equiv> 1"
abbreviation ROOTINO :: nat where "ROOTINO \<equiv> 1"
abbreviation T_DIR :: "16 word" where "T_DIR \<equiv> 1"
abbreviation T_FILE :: "16 word" where "T_FILE \<equiv> 2"
abbreviation T_DEV :: "16 word" where "T_DEV \<equiv> 3"

record inode =
  i_dev :: nat
  i_inum :: nat
  i_ref :: int
  i_lock :: sleeplock
  i_valid :: bool
  i_type :: "16 word"
  i_major :: "16 word"
  i_minor :: "16 word"
  i_nlink :: "16 word"
  i_size :: "32 word"
  i_addrs :: "32 word list"

record fsst = logst +
  fs_sb :: superblock
  inodes :: "inode list"

definition upd_ino :: "nat \<Rightarrow> (inode \<Rightarrow> inode) \<Rightarrow> 'a fsst_scheme \<Rightarrow> 'a fsst_scheme" where
  "upd_ino i f s = s\<lparr>inodes := (inodes s)[i := f (inodes s ! i)]\<rparr>"

abbreviation IBLOCK :: "nat \<Rightarrow> superblock \<Rightarrow> nat" where
  "IBLOCK i sb \<equiv> i div IPB + unat (sb_inodestart sb)"

abbreviation BBLOCK :: "nat \<Rightarrow> superblock \<Rightarrow> nat" where
  "BBLOCK b sb \<equiv> b div BPB + unat (sb_bmapstart sb)"

section \<open>Blocks\<close>

definition bzero :: "nat \<Rightarrow> nat \<Rightarrow> 'a logst_scheme \<Rightarrow> 'a logst_scheme res" where
  "bzero dev bno s =
     bindE (bread dev bno s) (\<lambda>(i, s).
     bindE (log_write i (set_data i (\<lambda>_ _. 0) s)) (brelse i))"

definition bit_used :: "block \<Rightarrow> nat \<Rightarrow> bool" where
  "bit_used d bi = (d (bi div 8) AND push_bit (bi mod 8) 1 \<noteq> 0)"

definition mark_used :: "nat \<Rightarrow> block \<Rightarrow> block" where
  "mark_used bi d = d(bi div 8 := d (bi div 8) OR push_bit (bi mod 8) 1)"

definition mark_free :: "nat \<Rightarrow> block \<Rightarrow> block" where
  "mark_free bi d = d(bi div 8 := d (bi div 8) AND NOT (push_bit (bi mod 8) 1))"

fun balloc_from :: "nat \<Rightarrow> nat list \<Rightarrow> 'a fsst_scheme \<Rightarrow> (nat \<times> 'a fsst_scheme) res" where
  "balloc_from dev [] s = Inl (Panic ''balloc: out of blocks'')"
| "balloc_from dev (b # bs) s =
     bindE (bread dev (BBLOCK b (fs_sb s)) s) (\<lambda>(i, s).
       case find (\<lambda>bi. \<not> bit_used (b_data (bufs s ! i)) bi) [0..<min BPB (unat (sb_size (fs_sb s)) - b)] of
         Some bi \<Rightarrow>
           bindE (log_write i (set_data i (mark_used bi) s)) (\<lambda>s. bindE (brelse i s) (\<lambda>s.
           bindE (bzero dev (b + bi) s) (\<lambda>s. Inr (b + bi, s))))
       | None \<Rightarrow> bindE (brelse i s) (balloc_from dev bs))"

definition balloc :: "nat \<Rightarrow> 'a fsst_scheme \<Rightarrow> (nat \<times> 'a fsst_scheme) res" where
  "balloc dev s = balloc_from dev (map (\<lambda>k. k * BPB) [0..<(unat (sb_size (fs_sb s)) + BPB - 1) div BPB]) s"

definition bfree :: "nat \<Rightarrow> nat \<Rightarrow> 'a fsst_scheme \<Rightarrow> 'a fsst_scheme res" where
  "bfree dev b s =
     bindE (bread dev (BBLOCK b (fs_sb s)) s) (\<lambda>(i, s).
       let bi = b mod BPB
       in if \<not> bit_used (b_data (bufs s ! i)) bi then Inl (Panic ''freeing free block'')
          else bindE (log_write i (set_data i (mark_free bi) s)) (brelse i))"

section \<open>The inode cache\<close>

definition iinit :: "nat \<Rightarrow> 'a fsst_scheme \<Rightarrow> 'a fsst_scheme res" where
  "iinit dev s =
     (let s = s\<lparr>inodes := map (\<lambda>ip. ip\<lparr>i_lock := initsleeplock\<rparr>) (inodes s)\<rparr>
      in bindE (readsb dev s) (\<lambda>(sb, s). Inr (s\<lparr>fs_sb := sb\<rparr>)))"

definition iget :: "nat \<Rightarrow> nat \<Rightarrow> 'a fsst_scheme \<Rightarrow> (nat \<times> 'a fsst_scheme) res" where
  "iget dev inum s =
     (case first_idx (\<lambda>ip. i_ref ip > 0 \<and> i_dev ip = dev \<and> i_inum ip = inum) (inodes s) of
        Some i \<Rightarrow> Inr (i, upd_ino i (\<lambda>ip. ip\<lparr>i_ref := i_ref ip + 1\<rparr>) s)
      | None \<Rightarrow>
        (case first_idx (\<lambda>ip. i_ref ip = 0) (inodes s) of
           None \<Rightarrow> Inl (Panic ''iget: no inodes'')
         | Some i \<Rightarrow>
           Inr (i, upd_ino i (\<lambda>ip. ip\<lparr>i_dev := dev, i_inum := inum, i_ref := 1, i_valid := False\<rparr>) s)))"

definition idup :: "nat \<Rightarrow> 'a fsst_scheme \<Rightarrow> nat \<times> 'a fsst_scheme" where
  "idup i s = (i, upd_ino i (\<lambda>ip. ip\<lparr>i_ref := i_ref ip + 1\<rparr>) s)"

text \<open>The fields of the \<open>dinode\<close> that starts at byte \<open>o\<close> of a block.\<close>

definition dinode_at :: "nat \<Rightarrow> nat" where
  "dinode_at inum = inum mod IPB * 64"

fun rd_words :: "block \<Rightarrow> nat \<Rightarrow> nat \<Rightarrow> 32 word list" where
  "rd_words d i 0 = []"
| "rd_words d i (Suc n) = rd32 d i # rd_words d (i + 4) n"

fun wr_words :: "nat \<Rightarrow> 32 word list \<Rightarrow> block \<Rightarrow> block" where
  "wr_words i [] d = d"
| "wr_words i (w # ws) d = wr_words (i + 4) ws (wr32 i w d)"

definition load_dinode :: "block \<Rightarrow> nat \<Rightarrow> inode \<Rightarrow> inode" where
  "load_dinode d j ip = ip\<lparr>i_type := rd16 d j, i_major := rd16 d (j + 2), i_minor := rd16 d (j + 4),
     i_nlink := rd16 d (j + 6), i_size := rd32 d (j + 8), i_addrs := rd_words d (j + 12) (NDIRECT + 1)\<rparr>"

definition store_dinode :: "inode \<Rightarrow> nat \<Rightarrow> block \<Rightarrow> block" where
  "store_dinode ip j d = wr_words (j + 12) (i_addrs ip) (wr32 (j + 8) (i_size ip) (wr16 (j + 6) (i_nlink ip)
     (wr16 (j + 4) (i_minor ip) (wr16 (j + 2) (i_major ip) (wr16 j (i_type ip) d)))))"

definition clear_dinode :: "nat \<Rightarrow> block \<Rightarrow> block" where
  "clear_dinode j d = (\<lambda>k. if j \<le> k \<and> k < j + 64 then 0 else d k)"

fun ialloc_from :: "nat \<Rightarrow> 16 word \<Rightarrow> nat list \<Rightarrow> 'a fsst_scheme \<Rightarrow> (nat \<times> 'a fsst_scheme) res" where
  "ialloc_from dev ty [] s = Inl (Panic ''ialloc: no inodes'')"
| "ialloc_from dev ty (inum # inums) s =
     bindE (bread dev (IBLOCK inum (fs_sb s)) s) (\<lambda>(i, s).
       if rd16 (b_data (bufs s ! i)) (dinode_at inum) = 0 then
         bindE (log_write i (set_data i (wr16 (dinode_at inum) ty \<circ> clear_dinode (dinode_at inum)) s)) (\<lambda>s.
         bindE (brelse i s) (iget dev inum))
       else bindE (brelse i s) (ialloc_from dev ty inums))"

definition ialloc :: "nat \<Rightarrow> 16 word \<Rightarrow> 'a fsst_scheme \<Rightarrow> (nat \<times> 'a fsst_scheme) res" where
  "ialloc dev ty s = ialloc_from dev ty [1..<unat (sb_ninodes (fs_sb s))] s"

definition iupdate :: "nat \<Rightarrow> 'a fsst_scheme \<Rightarrow> 'a fsst_scheme res" where
  "iupdate i s =
     (let ip = inodes s ! i
      in bindE (bread (i_dev ip) (IBLOCK (i_inum ip) (fs_sb s)) s) (\<lambda>(k, s).
         bindE (log_write k (set_data k (store_dinode ip (dinode_at (i_inum ip))) s)) (brelse k)))"

definition ilock :: "nat \<Rightarrow> 'a fsst_scheme \<Rightarrow> 'a fsst_scheme res" where
  "ilock i s =
     (if i_ref (inodes s ! i) < 1 then Inl (Panic ''ilock'')
      else bindE (acquiresleep (AtInode i) (i_lock (inodes s ! i)) s) (\<lambda>lk.
        let s = upd_ino i (\<lambda>ip. ip\<lparr>i_lock := lk\<rparr>) s; ip = inodes s ! i
        in if i_valid ip then Inr s
           else bindE (bread (i_dev ip) (IBLOCK (i_inum ip) (fs_sb s)) s) (\<lambda>(k, s).
                let s = upd_ino i (load_dinode (b_data (bufs s ! k)) (dinode_at (i_inum ip))) s
                in bindE (brelse k s) (\<lambda>s.
                   let s = upd_ino i (\<lambda>ip. ip\<lparr>i_valid := True\<rparr>) s
                   in if i_type (inodes s ! i) = 0 then Inl (Panic ''ilock: no type'') else Inr s))))"

definition iunlock :: "nat \<Rightarrow> 'a fsst_scheme \<Rightarrow> 'a fsst_scheme res" where
  "iunlock i s =
     (if \<not> holdingsleep (i_lock (inodes s ! i)) s \<or> i_ref (inodes s ! i) < 1 then Inl (Panic ''iunlock'')
      else case releasesleep (AtInode i) (i_lock (inodes s ! i)) s of (lk, s) \<Rightarrow>
        Inr (upd_ino i (\<lambda>ip. ip\<lparr>i_lock := lk\<rparr>) s))"

section \<open>Contents\<close>

definition bmap :: "nat \<Rightarrow> nat \<Rightarrow> 'a fsst_scheme \<Rightarrow> (nat \<times> 'a fsst_scheme) res" where
  "bmap i bn s =
     (let ip = inodes s ! i
      in if bn < NDIRECT then
           let addr = i_addrs ip ! bn
           in if addr = 0 then
                bindE (balloc (i_dev ip) s) (\<lambda>(a, s).
                  Inr (a, upd_ino i (\<lambda>ip. ip\<lparr>i_addrs := (i_addrs ip)[bn := of_nat a]\<rparr>) s))
              else Inr (unat addr, s)
         else
           let bn = bn - NDIRECT
           in if bn < NINDIRECT then
                bindE
                  (let addr = i_addrs ip ! NDIRECT
                   in if addr = 0 then
                        bindE (balloc (i_dev ip) s) (\<lambda>(a, s).
                          Inr (a, upd_ino i (\<lambda>ip. ip\<lparr>i_addrs := (i_addrs ip)[NDIRECT := of_nat a]\<rparr>) s))
                      else Inr (unat addr, s))
                  (\<lambda>(ind, s).
                   bindE (bread (i_dev ip) ind s) (\<lambda>(k, s).
                     let addr = rd32 (b_data (bufs s ! k)) (4 * bn)
                     in bindE
                          (if addr = 0 then
                             bindE (balloc (i_dev ip) s) (\<lambda>(a, s).
                             bindE (log_write k (set_data k (wr32 (4 * bn) (of_nat a)) s)) (\<lambda>s. Inr (a, s)))
                           else Inr (unat addr, s))
                          (\<lambda>(a, s). bindE (brelse k s) (\<lambda>s. Inr (a, s)))))
              else Inl (Panic ''bmap: out of range''))"

definition itrunc :: "nat \<Rightarrow> 'a fsst_scheme \<Rightarrow> 'a fsst_scheme res" where
  "itrunc i s =
     (let dev = i_dev (inodes s ! i)
      in bindE
           (foldE (\<lambda>k s.
              if i_addrs (inodes s ! i) ! k \<noteq> 0 then
                bindE (bfree dev (unat (i_addrs (inodes s ! i) ! k)) s) (\<lambda>s.
                  Inr (upd_ino i (\<lambda>ip. ip\<lparr>i_addrs := (i_addrs ip)[k := 0]\<rparr>) s))
              else Inr s) [0..<NDIRECT] s)
        (\<lambda>s. bindE
           (let ind = i_addrs (inodes s ! i) ! NDIRECT
            in if ind \<noteq> 0 then
                 bindE (bread dev (unat ind) s) (\<lambda>(k, s).
                 bindE
                   (foldE (\<lambda>j s.
                      let a = rd32 (b_data (bufs s ! k)) (4 * j) in if a \<noteq> 0 then bfree dev (unat a) s else Inr s)
                      [0..<NINDIRECT] s)
                   (\<lambda>s. bindE (brelse k s) (\<lambda>s. bindE (bfree dev (unat ind) s) (\<lambda>s.
                        Inr (upd_ino i (\<lambda>ip. ip\<lparr>i_addrs := (i_addrs ip)[NDIRECT := 0]\<rparr>) s)))))
               else Inr s)
        (\<lambda>s. iupdate i (upd_ino i (\<lambda>ip. ip\<lparr>i_size := 0\<rparr>) s))))"

definition iput :: "nat \<Rightarrow> 'a fsst_scheme \<Rightarrow> 'a fsst_scheme res" where
  "iput i s =
     bindE (acquiresleep (AtInode i) (i_lock (inodes s ! i)) s) (\<lambda>lk.
       let s = upd_ino i (\<lambda>ip. ip\<lparr>i_lock := lk\<rparr>) s; ip = inodes s ! i
       in bindE
            (if i_valid ip \<and> i_nlink ip = 0 \<and> i_ref ip = 1 then
               bindE (itrunc i s) (\<lambda>s. bindE (iupdate i (upd_ino i (\<lambda>ip. ip\<lparr>i_type := 0\<rparr>) s)) (\<lambda>s.
                 Inr (upd_ino i (\<lambda>ip. ip\<lparr>i_valid := False\<rparr>) s)))
             else Inr s)
            (\<lambda>s. case releasesleep (AtInode i) (i_lock (inodes s ! i)) s of (lk, s) \<Rightarrow>
               let s = upd_ino i (\<lambda>ip. ip\<lparr>i_lock := lk\<rparr>) s
               in Inr (upd_ino i (\<lambda>ip. ip\<lparr>i_ref := i_ref ip - 1\<rparr>) s)))"

definition iunlockput :: "nat \<Rightarrow> 'a fsst_scheme \<Rightarrow> 'a fsst_scheme res" where
  "iunlockput i s = bindE (iunlock i s) (iput i)"

text \<open>\<open>struct stat\<close>: type, device, inode number, links, size.\<close>

record stat =
  st_type :: "16 word"
  st_dev :: "32 word"
  st_ino :: "32 word"
  st_nlink :: "16 word"
  st_size :: "32 word"

definition stati :: "nat \<Rightarrow> 'a fsst_scheme \<Rightarrow> stat" where
  "stati i s =
     (let ip = inodes s ! i
      in \<lparr>st_type = i_type ip, st_dev = of_nat (i_dev ip), st_ino = of_nat (i_inum ip), st_nlink = i_nlink ip,
          st_size = i_size ip\<rparr>)"

end
