(* ===== verification/Console.thy ===== *)
theory Console
  imports Inode Spinlock
begin

text \<open>
  The console, \<open>console.c\<close>: the text screen behind \<open>cgaputc\<close> (cells of video memory and the cursor
  position kept in the CRT controller), the serial line, the line discipline of \<open>consoleintr\<close> and
  the device functions \<open>consoleread\<close> and \<open>consolewrite\<close>; and \<open>procdump\<close> of \<open>proc.c\<close>, which control-P
  runs. The input ring has three free-running indices: read, write (end of the last complete line) and
  edit. When \<open>consoleread\<close> has to wait for input the model ends with \<open>Sleep\<close>: a result \<open>Inr\<close> of a function above it
  says nothing of a process that is asleep here.
\<close>

unbundle bit_operations_syntax

section \<open>State\<close>

abbreviation INPUT_BUF :: nat where "INPUT_BUF \<equiv> 128"
abbreviation BACKSPACE :: int where "BACKSPACE \<equiv> 0x100"
abbreviation CTRL_D :: int where "CTRL_D \<equiv> 4"
abbreviation CTRL_H :: int where "CTRL_H \<equiv> 8"
abbreviation CTRL_P :: int where "CTRL_P \<equiv> 16"
abbreviation CTRL_U :: int where "CTRL_U \<equiv> 21"

record console = fsst +
  crt :: "nat \<Rightarrow> 16 word"
  crt_pos :: nat
  uart_out :: "8 word list"
  in_buf :: "nat \<Rightarrow> 8 word"
  in_r :: "32 word"
  in_w :: "32 word"
  in_e :: "32 word"

section \<open>The screen\<close>

definition cgaputc :: "int \<Rightarrow> 'a console_scheme \<Rightarrow> 'a console_scheme res" where
  "cgaputc c s =
     (let pos = crt_pos s;
          (pos, cells) =
            (if c = 10 then (pos + (80 - pos mod 80), crt s)
             else if c = BACKSPACE then ((if pos > 0 then pos - 1 else pos), crt s)
             else (pos + 1, (crt s)(pos := (word_of_int c AND 0xFF) OR 0x0700)))
      in if pos > 25 * 80 then Inl (Panic ''pos under/overflow'')
         else
           let (pos, cells) =
             (if pos div 80 \<ge> 24 then
                (pos - 80, \<lambda>k. if k < 23 * 80 then cells (k + 80) else if pos - 80 \<le> k \<and> k < 24 * 80 then 0 else cells k)
              else (pos, cells))
           in Inr (s\<lparr>crt_pos := pos, crt := cells(pos := 0x0720)\<rparr>))"

definition uartputc :: "int \<Rightarrow> 'a console_scheme \<Rightarrow> 'a console_scheme" where
  "uartputc c s = s\<lparr>uart_out := uart_out s @ [word_of_int c]\<rparr>"

definition consputc :: "int \<Rightarrow> 'a console_scheme \<Rightarrow> 'a console_scheme res" where
  "consputc c s =
     (if c = BACKSPACE then cgaputc c (uartputc 8 (uartputc 32 (uartputc 8 s))) else cgaputc c (uartputc c s))"

section \<open>Listing the processes\<close>

definition states :: "procstate \<Rightarrow> string" where
  "states st = (case st of UNUSED \<Rightarrow> ''unused'' | EMBRYO \<Rightarrow> ''embryo'' | SLEEPING \<Rightarrow> ''sleep '' | RUNNABLE \<Rightarrow> ''runble''
     | RUNNING \<Rightarrow> ''run   '' | ZOMBIE \<Rightarrow> ''zombie'')"

definition cprintf_msg :: "string \<Rightarrow> arg list \<Rightarrow> 'a phys_scheme \<Rightarrow> 'a phys_scheme res" where
  "cprintf_msg fmt args s = bindE (cprintf_fmt fmt args) (\<lambda>msg. Inr (cprintf msg s))"

definition procdump_one :: "nat \<Rightarrow> 'a kern_scheme \<Rightarrow> 'a kern_scheme res" where
  "procdump_one i s =
     (let p = procs s ! i
      in if p_state p = UNUSED then Inr s
         else
           bindE (cprintf_msg ''%d %s %s'' [Word (word_of_int (p_pid p)), Str (Some (states (p_state p))), Str (Some (p_name p))] s) (\<lambda>s.
           bindE
             (if p_state p = SLEEPING then
                foldE (\<lambda>pc. cprintf_msg '' %p'' [Word pc])
                  (takeWhile (\<lambda>pc. pc \<noteq> 0) (getcallerpcs (pmem s) (read32 (pmem s) (p_context p + 12) + 8))) s
              else Inr s)
             (cprintf_msg [CHR 0x0A] [])))"

definition procdump :: "'a kern_scheme \<Rightarrow> 'a kern_scheme res" where
  "procdump s = foldE procdump_one [0..<length (procs s)] s"

section \<open>Input\<close>

definition in_at :: "32 word \<Rightarrow> nat" where
  "in_at i = unat i mod INPUT_BUF"

text \<open>\<open>killline\<close> is the loop of control-U; the fuel is the number of characters being edited.\<close>

fun killline :: "nat \<Rightarrow> 'a console_scheme \<Rightarrow> 'a console_scheme res" where
  "killline fuel s =
     (if in_e s \<noteq> in_w s \<and> in_buf s (in_at (in_e s - 1)) \<noteq> 10 then
        case fuel of 0 \<Rightarrow> Inl NoFuel
        | Suc k \<Rightarrow> bindE (consputc BACKSPACE (s\<lparr>in_e := in_e s - 1\<rparr>)) (killline k)
      else Inr s)"

definition console_char :: "int \<Rightarrow> 'a console_scheme \<Rightarrow> 'a console_scheme res" where
  "console_char c s =
     (if c = CTRL_P then Inr s
      else if c = CTRL_U then killline (unat (in_e s - in_w s)) s
      else if c = CTRL_H \<or> c = 0x7F then
        (if in_e s \<noteq> in_w s then consputc BACKSPACE (s\<lparr>in_e := in_e s - 1\<rparr>) else Inr s)
      else if c \<noteq> 0 \<and> in_e s - in_r s < of_nat INPUT_BUF then
        let c = (if c = 13 then 10 else c);
            s = s\<lparr>in_buf := (in_buf s)(in_at (in_e s) := word_of_int c), in_e := in_e s + 1\<rparr>
        in bindE (consputc c s) (\<lambda>s.
             if c = 10 \<or> c = CTRL_D \<or> in_e s = in_r s + of_nat INPUT_BUF then Inr (wakeup AtInput (s\<lparr>in_w := in_e s\<rparr>))
             else Inr s)
      else Inr s)"

text \<open>\<open>cs\<close> is what \<open>getc\<close> returns, up to the first negative value.\<close>

definition consoleintr :: "int list \<Rightarrow> 'a console_scheme \<Rightarrow> 'a console_scheme res" where
  "consoleintr cs s =
     bindE (foldE console_char cs s) (\<lambda>s. if CTRL_P \<in> set cs then procdump s else Inr s)"

section \<open>The device\<close>

text \<open>The loop of \<open>consoleread\<close> with \<open>n\<close> characters to go: whether the process was killed while it
  waited, and the characters read.\<close>

fun consoleread_loop :: "nat \<Rightarrow> nat \<Rightarrow> 8 word list \<Rightarrow> 'a console_scheme \<Rightarrow>
    (bool \<times> 8 word list \<times> 'a console_scheme) res" where
  "consoleread_loop target 0 got s = Inr (False, got, s)"
| "consoleread_loop target (Suc n) got s =
     (if in_r s = in_w s then
        (case cur s of None \<Rightarrow> Inl (Panic ''sleep'')
         | Some p \<Rightarrow> if p_killed (procs s ! p) then Inr (True, got, s) else Inl (Sleep AtInput))
      else
        let c = in_buf s (in_at (in_r s)); s = s\<lparr>in_r := in_r s + 1\<rparr>
        in if c = 4 then Inr (False, got, if Suc n < target then s\<lparr>in_r := in_r s - 1\<rparr> else s)
           else if c = 10 then Inr (False, got @ [c], s)
           else consoleread_loop target n (got @ [c]) s)"

definition consoleread :: "nat \<Rightarrow> 32 word option \<Rightarrow> 32 word \<Rightarrow> 'a console_scheme \<Rightarrow>
    (int \<times> 8 word list \<times> 'a console_scheme) res" where
  "consoleread ip dst n s =
     bindE (iunlock ip s) (\<lambda>s.
     bindE (consoleread_loop (unat n) (nat (sint n)) [] s) (\<lambda>(dead, bs, s).
     bindE (case dst of None \<Rightarrow> Inr s | Some a \<Rightarrow> ustores a bs s) (\<lambda>s.
     bindE (ilock ip s) (\<lambda>s. Inr (if dead then -1 else int (length bs), bs, s)))))"

text \<open>\<open>bs\<close> are the bytes of the buffer, \<open>n\<close> of them when \<open>n\<close> is positive.\<close>

definition consolewrite :: "nat \<Rightarrow> 8 word list \<Rightarrow> int \<Rightarrow> 'a console_scheme \<Rightarrow> (int \<times> 'a console_scheme) res" where
  "consolewrite ip bs n s =
     bindE (iunlock ip s) (\<lambda>s.
     bindE (foldE (\<lambda>b. consputc (uint b)) bs s) (\<lambda>s.
     bindE (ilock ip s) (\<lambda>s. Inr (n, s))))"

end
