(* ===== verification/Fs.thy ===== *)
theory Fs
  imports Console
begin

text \<open>
  Files, directories and path names: the upper three layers of \<open>fs.c\<close>. Data moves between a file
  and user or kernel memory (an address) or a local variable of the caller (a list of bytes): \<open>readi\<close>
  returns the bytes it copied and stores them when it has an address, and \<open>writei\<close> takes either.
  A path or a name is the list of its bytes before the NUL.
\<close>

unbundle bit_operations_syntax

section \<open>Reading and writing\<close>

abbreviation NDEV :: int where "NDEV \<equiv> 10"
abbreviation CONSOLE :: int where "CONSOLE \<equiv> 1"

text \<open>\<open>devsw\<close> has functions for the console only.\<close>

definition has_dev :: "16 word \<Rightarrow> bool" where
  "has_dev major \<longleftrightarrow> \<not> sint major < 0 \<and> \<not> sint major \<ge> NDEV \<and> sint major = CONSOLE"

definition block_bytes :: "block \<Rightarrow> nat \<Rightarrow> nat \<Rightarrow> 8 word list" where
  "block_bytes d j m = map (\<lambda>k. d (j + k)) [0..<m]"

definition put_bytes :: "nat \<Rightarrow> 8 word list \<Rightarrow> block \<Rightarrow> block" where
  "put_bytes j bs d = (\<lambda>k. if j \<le> k \<and> k < j + length bs then bs ! (k - j) else d k)"

definition store_at :: "32 word option \<Rightarrow> 8 word list \<Rightarrow> 'a kern_scheme \<Rightarrow> 'a kern_scheme res" where
  "store_at dst bs s = (case dst of None \<Rightarrow> Inr s | Some a \<Rightarrow> ustores a bs s)"

definition fetch_from :: "32 word + 8 word list \<Rightarrow> nat \<Rightarrow> 'a kern_scheme \<Rightarrow> 8 word list res" where
  "fetch_from src m s = (case src of Inl a \<Rightarrow> uloads a m s | Inr bs \<Rightarrow> Inr (take m bs))"

definition advance :: "nat \<Rightarrow> 32 word + 8 word list \<Rightarrow> 32 word + 8 word list" where
  "advance m src = (case src of Inl a \<Rightarrow> Inl (a + of_nat m) | Inr bs \<Rightarrow> Inr (drop m bs))"

abbreviation chunk :: "nat \<Rightarrow> nat \<Rightarrow> nat" where
  "chunk off todo \<equiv> min todo (BSIZE - off mod BSIZE)"

function readi_loop :: "nat \<Rightarrow> 32 word option \<Rightarrow> nat \<Rightarrow> nat \<Rightarrow> 8 word list \<Rightarrow> 'a console_scheme \<Rightarrow>
    (8 word list \<times> 'a console_scheme) res" where
  "readi_loop i dst off todo got s =
     (if todo = 0 then Inr (got, s)
      else bindE (bmap i (off div BSIZE) s) (\<lambda>(b, s).
           bindE (bread (i_dev (inodes s ! i)) b s) (\<lambda>(k, s).
             let m = chunk off todo; bs = block_bytes (b_data (bufs s ! k)) (off mod BSIZE) m
             in bindE (store_at dst bs s) (\<lambda>s. bindE (brelse k s)
                  (readi_loop i (map_option (\<lambda>a. a + of_nat m) dst) (off + m) (todo - m) (got @ bs))))))"
  by pat_completeness auto
termination
  by (relation "measure (\<lambda>(i, dst, off, todo, got, s). todo)") (auto simp: min_def)

definition readi :: "nat \<Rightarrow> 32 word option \<Rightarrow> 32 word \<Rightarrow> 32 word \<Rightarrow> 'a console_scheme \<Rightarrow>
    (int \<times> 8 word list \<times> 'a console_scheme) res" where
  "readi i dst off n s =
     (let ip = inodes s ! i
      in if i_type ip = T_DEV then
           (if has_dev (i_major ip) then consoleread i dst n s else Inr (-1, [], s))
         else if off > i_size ip \<or> off + n < off then Inr (-1, [], s)
         else
           let n = (if off + n > i_size ip then i_size ip - off else n)
           in bindE (readi_loop i dst (unat off) (unat n) [] s) (\<lambda>(bs, s). Inr (sint n, bs, s)))"

function writei_loop :: "nat \<Rightarrow> 32 word + 8 word list \<Rightarrow> nat \<Rightarrow> nat \<Rightarrow> 'a console_scheme \<Rightarrow>
    (nat \<times> 'a console_scheme) res" where
  "writei_loop i src off todo s =
     (if todo = 0 then Inr (off, s)
      else bindE (bmap i (off div BSIZE) s) (\<lambda>(b, s).
           bindE (bread (i_dev (inodes s ! i)) b s) (\<lambda>(k, s).
             let m = chunk off todo
             in bindE (fetch_from src m s) (\<lambda>bs.
                bindE (log_write k (set_data k (put_bytes (off mod BSIZE) bs) s)) (\<lambda>s.
                bindE (brelse k s) (writei_loop i (advance m src) (off + m) (todo - m)))))))"
  by pat_completeness auto
termination
  by (relation "measure (\<lambda>(i, src, off, todo, s). todo)") (auto simp: min_def)

definition writei :: "nat \<Rightarrow> 32 word + 8 word list \<Rightarrow> 32 word \<Rightarrow> 32 word \<Rightarrow> 'a console_scheme \<Rightarrow>
    (int \<times> 'a console_scheme) res" where
  "writei i src off n s =
     (let ip = inodes s ! i
      in if i_type ip = T_DEV then
           (if has_dev (i_major ip) then bindE (fetch_from src (nat (sint n)) s) (\<lambda>bs. consolewrite i bs (sint n) s) else Inr (-1, s))
         else if off > i_size ip \<or> off + n < off then Inr (-1, s)
         else if unat (off + n) > MAXFILE * BSIZE then Inr (-1, s)
         else bindE (writei_loop i src (unat off) (unat n) s) (\<lambda>(off, s).
                if n > 0 \<and> off > unat (i_size (inodes s ! i)) then
                  bindE (iupdate i (upd_ino i (\<lambda>ip. ip\<lparr>i_size := of_nat off\<rparr>) s)) (\<lambda>s. Inr (sint n, s))
                else Inr (sint n, s)))"

section \<open>Directories\<close>

abbreviation DIRSIZ :: nat where "DIRSIZ \<equiv> 14"

definition cbyte :: "8 word list \<Rightarrow> nat \<Rightarrow> 8 word" where
  "cbyte bs i = (if i < length bs then bs ! i else 0)"

definition namecmp :: "8 word list \<Rightarrow> 8 word list \<Rightarrow> int" where
  "namecmp p q = strncmp (cbyte p) (cbyte q) DIRSIZ"

definition de_inum :: "8 word list \<Rightarrow> 16 word" where
  "de_inum de = ucast (de ! 0) OR push_bit 8 (ucast (de ! 1))"

definition de_name :: "8 word list \<Rightarrow> 8 word list" where
  "de_name de = drop 2 de"

definition mk_dirent :: "8 word list \<Rightarrow> 16 word \<Rightarrow> 8 word list" where
  "mk_dirent name inum = [ucast inum, ucast (drop_bit 8 inum)] @ map (cbyte name) [0..<DIRSIZ]"

definition dirent_offs :: "nat \<Rightarrow> nat list" where
  "dirent_offs sz = map (\<lambda>k. 16 * k) [0..<(sz + 15) div 16]"

fun dirlookup_from :: "nat \<Rightarrow> 8 word list \<Rightarrow> nat list \<Rightarrow> 'a console_scheme \<Rightarrow>
    ((nat \<times> nat) option \<times> 'a console_scheme) res" where
  "dirlookup_from dp name [] s = Inr (None, s)"
| "dirlookup_from dp name (off # offs) s =
     bindE (readi dp None (of_nat off) 16 s) (\<lambda>(r, de, s).
       if r \<noteq> 16 then Inl (Panic ''dirlookup read'')
       else if de_inum de = 0 then dirlookup_from dp name offs s
       else if namecmp name (de_name de) = 0 then
         bindE (iget (i_dev (inodes s ! dp)) (unat (de_inum de)) s) (\<lambda>(ip, s). Inr (Some (ip, off), s))
       else dirlookup_from dp name offs s)"

definition dirlookup :: "nat \<Rightarrow> 8 word list \<Rightarrow> 'a console_scheme \<Rightarrow>
    ((nat \<times> nat) option \<times> 'a console_scheme) res" where
  "dirlookup dp name s =
     (if i_type (inodes s ! dp) \<noteq> T_DIR then Inl (Panic ''dirlookup not DIR'')
      else dirlookup_from dp name (dirent_offs (unat (i_size (inodes s ! dp)))) s)"

text \<open>The offset of the first empty entry, or of the end of the directory.\<close>

fun dirlink_slot :: "nat \<Rightarrow> nat list \<Rightarrow> nat \<Rightarrow> 'a console_scheme \<Rightarrow> (nat \<times> 'a console_scheme) res" where
  "dirlink_slot dp [] fin s = Inr (fin, s)"
| "dirlink_slot dp (off # offs) fin s =
     bindE (readi dp None (of_nat off) 16 s) (\<lambda>(r, de, s).
       if r \<noteq> 16 then Inl (Panic ''dirlink read'')
       else if de_inum de = 0 then Inr (off, s) else dirlink_slot dp offs (off + 16) s)"

definition dirlink :: "nat \<Rightarrow> 8 word list \<Rightarrow> nat \<Rightarrow> 'a console_scheme \<Rightarrow> (int \<times> 'a console_scheme) res" where
  "dirlink dp name inum s =
     bindE (dirlookup dp name s) (\<lambda>(r, s).
       case r of
         Some (ip, _) \<Rightarrow> bindE (iput ip s) (\<lambda>s. Inr (-1, s))
       | None \<Rightarrow>
         bindE (dirlink_slot dp (dirent_offs (unat (i_size (inodes s ! dp)))) 0 s) (\<lambda>(off, s).
         bindE (writei dp (Inr (mk_dirent name (of_nat inum))) (of_nat off) 16 s) (\<lambda>(r, s).
           if r \<noteq> 16 then Inl (Panic ''dirlink'') else Inr (0, s))))"

section \<open>Paths\<close>

abbreviation slash :: "8 word" where "slash \<equiv> 0x2F"

definition skipelem :: "8 word list \<Rightarrow> (8 word list \<times> 8 word list) option" where
  "skipelem path =
     (let path = dropWhile (\<lambda>c. c = slash) path
      in if path = [] then None
         else
           let elem = takeWhile (\<lambda>c. c \<noteq> slash) path; rest = dropWhile (\<lambda>c. c \<noteq> slash) path
           in Some (dropWhile (\<lambda>c. c = slash) rest, take DIRSIZ elem))"

lemma skipelem_shorter: "skipelem path = Some (rest, name) \<Longrightarrow> length rest < length path"
proof -
  assume sk: "skipelem path = Some (rest, name)"
  let ?p = "dropWhile (\<lambda>c. c = slash) path"
  have p: "?p \<noteq> []" "rest = dropWhile (\<lambda>c. c = slash) (dropWhile (\<lambda>c. c \<noteq> slash) ?p)"
    using sk by (auto simp: skipelem_def Let_def split: if_splits)
  have "hd ?p \<noteq> slash" using hd_dropWhile [OF p(1)] .
  then have "length (dropWhile (\<lambda>c. c \<noteq> slash) ?p) < length ?p"
    using p(1) by (cases ?p) (auto simp: le_imp_less_Suc length_dropWhile_le)
  moreover have "length rest \<le> length (dropWhile (\<lambda>c. c \<noteq> slash) ?p)" unfolding p(2) by (rule length_dropWhile_le)
  moreover have "length ?p \<le> length path" by (rule length_dropWhile_le)
  ultimately show ?thesis by linarith
qed

function namex_loop :: "8 word list \<Rightarrow> bool \<Rightarrow> 8 word list \<Rightarrow> nat \<Rightarrow> 'a console_scheme \<Rightarrow>
    ((nat \<times> 8 word list) option \<times> 'a console_scheme) res" where
  "namex_loop path nameiparent name ip s =
     (case skipelem path of
        None \<Rightarrow> if nameiparent then bindE (iput ip s) (\<lambda>s. Inr (None, s)) else Inr (Some (ip, name), s)
      | Some (rest, name) \<Rightarrow>
        bindE (ilock ip s) (\<lambda>s.
          if i_type (inodes s ! ip) \<noteq> T_DIR then bindE (iunlockput ip s) (\<lambda>s. Inr (None, s))
          else if nameiparent \<and> rest = [] then bindE (iunlock ip s) (\<lambda>s. Inr (Some (ip, name), s))
          else bindE (dirlookup ip name s) (\<lambda>(r, s).
            case r of
              None \<Rightarrow> bindE (iunlockput ip s) (\<lambda>s. Inr (None, s))
            | Some (nxt, _) \<Rightarrow> bindE (iunlockput ip s) (namex_loop rest nameiparent name nxt))))"
  by pat_completeness auto
termination
  by (relation "measure (\<lambda>(path, p, name, ip, s). length path)") (auto dest: skipelem_shorter)

definition namex :: "8 word list \<Rightarrow> bool \<Rightarrow> 'a console_scheme \<Rightarrow> ((nat \<times> 8 word list) option \<times> 'a console_scheme) res" where
  "namex path nameiparent s =
     bindE
       (if path \<noteq> [] \<and> hd path = slash then iget ROOTDEV ROOTINO s
        else case cur s of None \<Rightarrow> Inl (Fault ''namex: no process'')
          | Some p \<Rightarrow> (case p_cwd (procs s ! p) of None \<Rightarrow> Inl (Fault ''namex: cwd'') | Some d \<Rightarrow> Inr (idup d s)))
       (\<lambda>(ip, s). namex_loop path nameiparent [] ip s)"

definition namei :: "8 word list \<Rightarrow> 'a console_scheme \<Rightarrow> (nat option \<times> 'a console_scheme) res" where
  "namei path s = bindE (namex path False s) (\<lambda>(r, s). Inr (map_option fst r, s))"

definition nameiparent :: "8 word list \<Rightarrow> 'a console_scheme \<Rightarrow> ((nat \<times> 8 word list) option \<times> 'a console_scheme) res" where
  "nameiparent path s = namex path True s"


section \<open>Path names are sequences of components\<close>

definition components :: "8 word list \<Rightarrow> 8 word list list" where
  "components path = map (take DIRSIZ) (filter (\<lambda>e. e \<noteq> []) (pieces slash path))"

lemma components_skip: "components (dropWhile (\<lambda>c. c = slash) p) = components p"
  by (induction p) (auto simp: components_def)

lemma components_word:
  assumes "e \<noteq> []" "slash \<notin> set e" "r = [] \<or> hd r = slash"
  shows "components (e @ r) = take DIRSIZ e # components r"
proof (cases r)
  case Nil
  with assms show ?thesis by (simp add: components_def pieces_plain)
next
  case (Cons c q)
  with assms show ?thesis by (simp add: components_def pieces_sep)
qed

lemma components_step:
  "components path = (case skipelem path of None \<Rightarrow> [] | Some (rest, name) \<Rightarrow> name # components rest)"
proof -
  let ?p = "dropWhile (\<lambda>c. c = slash) path"
  let ?r = "dropWhile (\<lambda>c. c \<noteq> slash) ?p" and ?e = "takeWhile (\<lambda>c. c \<noteq> slash) ?p"
  have "components ?p = take DIRSIZ ?e # components (dropWhile (\<lambda>c. c = slash) ?r)" if ne: "?p \<noteq> []"
  proof -
    have "?e \<noteq> []" using hd_dropWhile [OF ne] ne by (cases ?p) auto
    moreover have "slash \<notin> set ?e" by (auto dest: set_takeWhileD)
    moreover have "?r = [] \<or> hd ?r = slash" using hd_dropWhile [of "\<lambda>c. c \<noteq> slash" ?p] by auto
    ultimately have "components (?e @ ?r) = take DIRSIZ ?e # components ?r" by (rule components_word)
    then show ?thesis using components_skip [of ?r] by simp
  qed
  moreover have "components path = []" if e: "?p = []"
    using components_skip [of path] unfolding e by (simp add: components_def)
  ultimately show ?thesis using components_skip [of path]
    by (simp add: skipelem_def Let_def del: dropWhile_eq_Nil_conv)
qed

lemma components_nil_rest:
  assumes "skipelem path = Some (rest, name)"
  shows "components rest = [] \<longleftrightarrow> rest = []"
proof -
  obtain q where q: "rest = dropWhile (\<lambda>c. c = slash) q" using assms by (auto simp: skipelem_def Let_def split: if_splits)
  have "skipelem rest \<noteq> None" if "rest \<noteq> []"
  proof -
    have "hd rest \<noteq> slash" unfolding q by (rule hd_dropWhile) (use that q in simp)
    with that show ?thesis by (cases rest) (auto simp: skipelem_def Let_def)
  qed
  then show ?thesis using components_step [of rest] by (auto simp: components_def split: option.splits)
qed

declare namex_loop.simps [simp del]

lemma namex_loop_components:
  "components p = components q \<Longrightarrow> namex_loop p par name ip s = namex_loop q par name ip s"
proof (induction p par name ip s arbitrary: q rule: namex_loop.induct)
  case (1 p par name ip s)
  show ?case
  proof (cases "skipelem p")
    case None
    then have "components q = []" using components_step [of p] 1(2) by simp
    then have "skipelem q = None" using components_step [of q] by (auto split: option.splits)
    with None show ?thesis by (simp add: namex_loop.simps [of p] namex_loop.simps [of q])
  next
    case (Some e)
    then obtain rest elem where p: "skipelem p = Some (rest, elem)" by (cases e) auto
    then have "components q = elem # components rest" using components_step [of p] 1(2) by simp
    then obtain rest' where q: "skipelem q = Some (rest', elem)" "components rest' = components rest"
      using components_step [of q] by (auto split: option.splits)
    have e: "rest' = [] \<longleftrightarrow> rest = []" using components_nil_rest [OF p] components_nil_rest [OF q(1)] q(2) by simp
    have ih: "namex_loop rest par elem nxt u = namex_loop rest' par elem nxt u"
      if "ilock ip s = Inr v" "\<not> i_type (inodes v ! ip) \<noteq> T_DIR" "\<not> (par \<and> rest = [])"
        "dirlookup ip elem v = Inr (Some (nxt, k), w)" "iunlockput ip w = Inr u" for v nxt k w u
      by (rule 1(1) [OF p refl that(1) that(2) that(3) that(4) refl refl refl that(5) q(2) [symmetric]])
    have "bindE (dirlookup ip elem v) (\<lambda>(r, s). case r of None \<Rightarrow> bindE (iunlockput ip s) (\<lambda>s. Inr (None, s))
        | Some (nxt, _) \<Rightarrow> bindE (iunlockput ip s) (namex_loop rest par elem nxt)) =
      bindE (dirlookup ip elem v) (\<lambda>(r, s). case r of None \<Rightarrow> bindE (iunlockput ip s) (\<lambda>s. Inr (None, s))
        | Some (nxt, _) \<Rightarrow> bindE (iunlockput ip s) (namex_loop rest' par elem nxt))"
      if "ilock ip s = Inr v" "\<not> i_type (inodes v ! ip) \<noteq> T_DIR" "\<not> (par \<and> rest = [])" for v
      by (intro bindE_cong refl) (auto split: option.splits intro!: bindE_cong ih [OF that])
    then show ?thesis unfolding namex_loop.simps [of p] namex_loop.simps [of q] p q(1) option.case prod.case e
      by (intro bindE_cong refl) simp
  qed
qed

text \<open>
  C25. Looking up a path depends only on whether it starts at the root and on its components: the non-empty
  pieces between the slashes, of which only the first 14 bytes count. More than one slash in a row, or a
  slash at the end, make no difference, whatever the state of the disk and the caches.
\<close>

theorem namex_components:
  assumes "components p = components q" "(p \<noteq> [] \<and> hd p = slash) = (q \<noteq> [] \<and> hd q = slash)"
  shows "namex p par s = namex q par s"
  unfolding namex_def assms(2) by (intro bindE_cong refl) (auto intro: namex_loop_components [OF assms(1)])

theorem namex_components_witness:
  "\<forall>par (s :: console). namex [slash, slash, 97, slash, 98, slash] par s = namex [slash, 97, slash, slash, 98] par s"
  by (intro allI, rule namex_components) (simp_all add: components_def)

end
