(* ===== verification/File.thy ===== *)
theory File
  imports Fs Queues
begin

text \<open>
  Pipes (\<open>pipe.c\<close>) and open files (\<open>file.c\<close>). A \<open>struct pipe\<close> lives in a page from \<open>kalloc\<close>; \<open>pipes\<close>
  gives the structure at each page address. A pipe operation that has to wait goes to sleep
  (\<open>sleep_on\<close>) and answers \<open>Blocked i\<close>: \<open>i\<close> bytes are done, and when the process is woken it goes on with
  the rest. (\<open>Gone\<close> is the answer of a call that ended the process; it is used by \<open>Syscall\<close>.)
\<close>

section \<open>State\<close>

datatype ftype = FD_NONE | FD_PIPE | FD_INODE

record openfile =
  f_type :: ftype
  f_ref :: int
  f_readable :: bool
  f_writable :: bool
  f_pipe :: "32 word"
  f_ip :: nat
  f_off :: "32 word"

abbreviation NFILE :: nat where "NFILE \<equiv> 100"
abbreviation PIPESIZE :: nat where "PIPESIZE \<equiv> 512"

record pipe =
  pp_data :: "nat \<Rightarrow> 8 word"
  pp_nread :: "32 word"
  pp_nwrite :: "32 word"
  pp_readopen :: bool
  pp_writeopen :: bool

record filest = console +
  ftable :: "openfile list"
  pipes :: "32 word \<Rightarrow> pipe"

datatype wait_result = Finished int | Blocked nat | Gone

definition upd_file :: "nat \<Rightarrow> (openfile \<Rightarrow> openfile) \<Rightarrow> 'a filest_scheme \<Rightarrow> 'a filest_scheme" where
  "upd_file i f s = s\<lparr>ftable := (ftable s)[i := f (ftable s ! i)]\<rparr>"

definition upd_pipe :: "32 word \<Rightarrow> (pipe \<Rightarrow> pipe) \<Rightarrow> 'a filest_scheme \<Rightarrow> 'a filest_scheme" where
  "upd_pipe p f s = s\<lparr>pipes := (pipes s)(p := f (pipes s p))\<rparr>"

definition killed :: "'a kern_scheme \<Rightarrow> bool" where
  "killed s = (case cur s of None \<Rightarrow> False | Some i \<Rightarrow> p_killed (procs s ! i))"

abbreviation at_read :: "32 word \<Rightarrow> chan" where "at_read p \<equiv> AtPipeRead (unat p)"
abbreviation at_write :: "32 word \<Rightarrow> chan" where "at_write p \<equiv> AtPipeWrite (unat p)"

section \<open>Pipes\<close>

definition pipeclose :: "32 word \<Rightarrow> bool \<Rightarrow> 'a filest_scheme \<Rightarrow> 'a filest_scheme res" where
  "pipeclose p writable s =
     (let s = (if writable then wakeup (at_read p) (upd_pipe p (\<lambda>q. q\<lparr>pp_writeopen := False\<rparr>) s)
               else wakeup (at_write p) (upd_pipe p (\<lambda>q. q\<lparr>pp_readopen := False\<rparr>) s))
      in if \<not> pp_readopen (pipes s p) \<and> \<not> pp_writeopen (pipes s p) then kfree p s else Inr s)"

definition pipe_put :: "8 word \<Rightarrow> pipe \<Rightarrow> pipe" where
  "pipe_put b q = q\<lparr>pp_data := (pp_data q)(unat (pp_nwrite q) mod PIPESIZE := b), pp_nwrite := pp_nwrite q + 1\<rparr>"

definition pipe_get :: "pipe \<Rightarrow> 8 word \<times> pipe" where
  "pipe_get q = (pp_data q (unat (pp_nread q) mod PIPESIZE), q\<lparr>pp_nread := pp_nread q + 1\<rparr>)"

text \<open>\<open>todo\<close> bytes from \<open>addr\<close> are left to write, \<open>i\<close> are written. The size \<open>n\<close> of a write is not negative here:
  \<open>sys_write\<close> has it from \<open>argptr\<close>, which refuses a negative one.\<close>

fun pipewrite_loop :: "32 word \<Rightarrow> 32 word \<Rightarrow> nat \<Rightarrow> nat \<Rightarrow> 'a filest_scheme \<Rightarrow>
    (wait_result \<times> 'a filest_scheme) res" where
  "pipewrite_loop p addr 0 i s = Inr (Finished (int i), wakeup (at_read p) s)"
| "pipewrite_loop p addr (Suc todo) i s =
     (let q = pipes s p
      in if pp_nwrite q = pp_nread q + of_nat PIPESIZE then
           (if \<not> pp_readopen q \<or> killed s then Inr (Finished (-1), s)
            else bindE (sleep_on (at_write p) (wakeup (at_read p) s)) (\<lambda>s. Inr (Blocked i, s)))
         else
           bindE (uload8 addr s) (\<lambda>b. pipewrite_loop p (addr + 1) todo (i + 1) (upd_pipe p (pipe_put b) s)))"

definition pipewrite :: "32 word \<Rightarrow> 32 word \<Rightarrow> nat \<Rightarrow> nat \<Rightarrow> 'a filest_scheme \<Rightarrow>
    (wait_result \<times> 'a filest_scheme) res" where
  "pipewrite p addr n i s = pipewrite_loop p (addr + of_nat i) (n - i) i s"

fun piperead_loop :: "32 word \<Rightarrow> 32 word \<Rightarrow> nat \<Rightarrow> nat \<Rightarrow> 'a filest_scheme \<Rightarrow> (nat \<times> 'a filest_scheme) res" where
  "piperead_loop p addr 0 i s = Inr (i, s)"
| "piperead_loop p addr (Suc todo) i s =
     (let q = pipes s p
      in if pp_nread q = pp_nwrite q then Inr (i, s)
         else
           let b = fst (pipe_get q); s = upd_pipe p (\<lambda>q. snd (pipe_get q)) s
           in bindE (ustore8 addr b s) (piperead_loop p (addr + 1) todo (i + 1)))"

definition piperead :: "32 word \<Rightarrow> 32 word \<Rightarrow> nat \<Rightarrow> 'a filest_scheme \<Rightarrow> (wait_result \<times> 'a filest_scheme) res" where
  "piperead p addr n s =
     (let q = pipes s p
      in if pp_nread q = pp_nwrite q \<and> pp_writeopen q then
           (if killed s then Inr (Finished (-1), s)
            else bindE (sleep_on (at_read p) s) (\<lambda>s. Inr (Blocked 0, s)))
         else bindE (piperead_loop p addr n 0 s) (\<lambda>(i, s). Inr (Finished (int i), wakeup (at_write p) s)))"

section \<open>Files\<close>

definition filealloc :: "'a filest_scheme \<Rightarrow> nat option \<times> 'a filest_scheme" where
  "filealloc s =
     (case first_idx (\<lambda>f. f_ref f = 0) (ftable s) of
        None \<Rightarrow> (None, s)
      | Some i \<Rightarrow> (Some i, upd_file i (\<lambda>f. f\<lparr>f_ref := 1\<rparr>) s))"

definition filedup :: "nat \<Rightarrow> 'a filest_scheme \<Rightarrow> (nat \<times> 'a filest_scheme) res" where
  "filedup i s =
     (if f_ref (ftable s ! i) < 1 then Inl (Panic ''filedup'')
      else Inr (i, upd_file i (\<lambda>f. f\<lparr>f_ref := f_ref f + 1\<rparr>) s))"

definition fileclose :: "nat \<Rightarrow> 'a filest_scheme \<Rightarrow> 'a filest_scheme res" where
  "fileclose i s =
     (if f_ref (ftable s ! i) < 1 then Inl (Panic ''fileclose'')
      else
        let s = upd_file i (\<lambda>f. f\<lparr>f_ref := f_ref f - 1\<rparr>) s
        in if f_ref (ftable s ! i) > 0 then Inr s
           else
             let ff = ftable s ! i; s = upd_file i (\<lambda>f. f\<lparr>f_ref := 0, f_type := FD_NONE\<rparr>) s
             in case f_type ff of
                  FD_PIPE \<Rightarrow> pipeclose (f_pipe ff) (f_writable ff) s
                | FD_INODE \<Rightarrow> bindE (begin_op s) (\<lambda>s. bindE (iput (f_ip ff) s) end_op)
                | FD_NONE \<Rightarrow> Inr s)"

definition half_bytes :: "16 word \<Rightarrow> 8 word list" where
  "half_bytes w = [ucast w, ucast (drop_bit 8 w)]"

text \<open>Storing a \<open>struct stat\<close>, whose padding stays as it is.\<close>

definition put_stat :: "32 word \<Rightarrow> stat \<Rightarrow> 'a kern_scheme \<Rightarrow> 'a kern_scheme res" where
  "put_stat a st s =
     bindE (ustores (a + 4) (word_bytes (st_dev st)) s) (\<lambda>s.
     bindE (ustores (a + 8) (word_bytes (st_ino st)) s) (\<lambda>s.
     bindE (ustores a (half_bytes (st_type st)) s) (\<lambda>s.
     bindE (ustores (a + 12) (half_bytes (st_nlink st)) s) (\<lambda>s.
     ustores (a + 16) (word_bytes (st_size st)) s))))"

definition filestat :: "nat \<Rightarrow> 32 word \<Rightarrow> 'a filest_scheme \<Rightarrow> (int \<times> 'a filest_scheme) res" where
  "filestat i st s =
     (let f = ftable s ! i
      in if f_type f = FD_INODE then
           bindE (ilock (f_ip f) s) (\<lambda>s. bindE (put_stat st (stati (f_ip f) s) s) (\<lambda>s.
           bindE (iunlock (f_ip f) s) (\<lambda>s. Inr (0, s))))
         else Inr (-1, s))"

definition fileread :: "nat \<Rightarrow> 32 word \<Rightarrow> 32 word \<Rightarrow> 'a filest_scheme \<Rightarrow> (wait_result \<times> 'a filest_scheme) res" where
  "fileread i addr n s =
     (let f = ftable s ! i
      in if \<not> f_readable f then Inr (Finished (-1), s)
         else case f_type f of
           FD_PIPE \<Rightarrow> piperead (f_pipe f) addr (nat (sint n)) s
         | FD_INODE \<Rightarrow>
             bindE (ilock (f_ip f) s) (\<lambda>s.
             bindE (readi (f_ip f) (Some addr) (f_off f) n s) (\<lambda>(r, _, s).
               let s = (if r > 0 then upd_file i (\<lambda>f. f\<lparr>f_off := f_off f + word_of_int r\<rparr>) s else s)
               in bindE (iunlock (f_ip f) s) (\<lambda>s. Inr (Finished r, s))))
         | FD_NONE \<Rightarrow> Inl (Panic ''fileread''))"

abbreviation write_max :: nat where "write_max \<equiv> 1536"

text \<open>One round of \<open>filewrite\<close> on an inode: \<open>n1\<close> bytes in a transaction of their own.\<close>

definition write_round :: "nat \<Rightarrow> 32 word \<Rightarrow> nat \<Rightarrow> 'a filest_scheme \<Rightarrow> (int \<times> 'a filest_scheme) res" where
  "write_round i addr n1 s =
     (let f = ftable s ! i
      in bindE (begin_op s) (\<lambda>s. bindE (ilock (f_ip f) s) (\<lambda>s.
         bindE (writei (f_ip f) (Inl addr) (f_off f) (of_nat n1) s) (\<lambda>(r, s).
           let s = (if r > 0 then upd_file i (\<lambda>f. f\<lparr>f_off := f_off f + word_of_int r\<rparr>) s else s)
           in bindE (iunlock (f_ip f) s) (\<lambda>s. bindE (end_op s) (\<lambda>s. Inr (r, s)))))))"

function filewrite_loop :: "nat \<Rightarrow> 32 word \<Rightarrow> nat \<Rightarrow> 'a filest_scheme \<Rightarrow> (bool \<times> 'a filest_scheme) res" where
  "filewrite_loop i addr todo s =
     (if todo = 0 then Inr (True, s)
      else
        let n1 = min todo write_max
        in bindE (write_round i addr n1 s) (\<lambda>(r, s).
             if r < 0 then Inr (False, s)
             else if r \<noteq> int n1 then Inl (Panic ''short filewrite'')
             else filewrite_loop i (addr + of_nat n1) (todo - n1) s))"
  by pat_completeness auto
termination
  by (relation "measure (\<lambda>(i, addr, todo, s). todo)") (auto simp: min_def)

text \<open>\<open>written\<close> is 0, or what an earlier call that was \<open>Blocked\<close> on a pipe had written.\<close>

definition filewrite :: "nat \<Rightarrow> 32 word \<Rightarrow> 32 word \<Rightarrow> nat \<Rightarrow> 'a filest_scheme \<Rightarrow>
    (wait_result \<times> 'a filest_scheme) res" where
  "filewrite i addr n written s =
     (let f = ftable s ! i
      in if \<not> f_writable f then Inr (Finished (-1), s)
         else case f_type f of
           FD_PIPE \<Rightarrow> pipewrite (f_pipe f) addr (nat (sint n)) written s
         | FD_INODE \<Rightarrow>
             if sint n < 0 then Inr (Finished (-1), s)
             else bindE (filewrite_loop i addr (nat (sint n)) s) (\<lambda>(ok, s). Inr (Finished (if ok then sint n else -1), s))
         | FD_NONE \<Rightarrow> Inl (Panic ''filewrite''))"

section \<open>Making a pipe\<close>

definition pipealloc :: "'a filest_scheme \<Rightarrow> ((nat \<times> nat) option \<times> 'a filest_scheme) res" where
  "pipealloc s =
     (case filealloc s of
        (None, s) \<Rightarrow> Inr (None, s)
      | (Some f0, s) \<Rightarrow>
        (case filealloc s of
           (None, s) \<Rightarrow> bindE (fileclose f0 s) (\<lambda>s. Inr (None, s))
         | (Some f1, s) \<Rightarrow>
           (case kalloc s of (p, s) \<Rightarrow>
              if p = 0 then bindE (fileclose f0 s) (\<lambda>s. bindE (fileclose f1 s) (\<lambda>s. Inr (None, s)))
              else
                let s = upd_pipe p (\<lambda>q. q\<lparr>pp_readopen := True, pp_writeopen := True, pp_nwrite := 0, pp_nread := 0\<rparr>) s;
                    s = upd_file f0 (\<lambda>f. f\<lparr>f_type := FD_PIPE, f_readable := True, f_writable := False, f_pipe := p\<rparr>) s;
                    s = upd_file f1 (\<lambda>f. f\<lparr>f_type := FD_PIPE, f_readable := False, f_writable := True, f_pipe := p\<rparr>) s
                in Inr (Some (f0, f1), s))))"


section \<open>A pipe is a bounded queue of bytes\<close>

definition pipe_elems :: "pipe \<Rightarrow> 8 word list" where
  "pipe_elems q = span PIPESIZE (pp_data q) (pp_nread q) (pp_nwrite q)"

definition pipe_inv :: "pipe \<Rightarrow> bool" where
  "pipe_inv q \<longleftrightarrow> unat (pp_nwrite q - pp_nread q) \<le> PIPESIZE"

lemma pipesize_dvd: "PIPESIZE dvd 2 ^ 32" "PIPESIZE < 2 ^ 32"
  by simp_all

lemma pipe_put_ok:
  assumes "pipe_inv q" "length (pipe_elems q) < PIPESIZE"
  shows "pipe_inv (pipe_put b q) \<and> pipe_elems (pipe_put b q) = pipe_elems q @ [b]"
proof -
  have len: "unat (pp_nwrite q - pp_nread q) < PIPESIZE" using assms(2) by (simp add: pipe_elems_def)
  then have "unat (pp_nwrite q + 1 - pp_nread q) = Suc (unat (pp_nwrite q - pp_nread q))"
    by (intro unat_succ_sub) simp
  with span_push [OF pipesize_dvd len] len show ?thesis
    by (simp add: pipe_put_def pipe_elems_def pipe_inv_def)
qed

lemma pipe_get_ok:
  assumes "pipe_inv q" "pipe_elems q = b # bs"
  shows "fst (pipe_get q) = b \<and> pipe_inv (snd (pipe_get q)) \<and> pipe_elems (snd (pipe_get q)) = bs"
proof -
  have ne: "pp_nread q \<noteq> pp_nwrite q" using assms(2) by (auto simp: pipe_elems_def span_def)
  show ?thesis using span_pop [OF pipesize_dvd(1) ne, of "pp_data q"] unat_sub_succ [OF ne] assms
    by (simp add: pipe_get_def pipe_elems_def pipe_inv_def)
qed

interpretation pp: bounded_queue pipe_put pipe_get pipe_elems pipe_inv PIPESIZE
  by unfold_locales (use pipe_put_ok pipe_get_ok in blast, use pipe_put_ok pipe_get_ok in blast,
    simp add: pipe_inv_def pipe_elems_def)

lemma pipe_full_iff:
  assumes "pipe_inv q"
  shows "pp_nwrite q = pp_nread q + of_nat PIPESIZE \<longleftrightarrow> length (pipe_elems q) = PIPESIZE"
proof -
  have "(w :: 32 word) = 512 \<longleftrightarrow> unat w = 512" for w by (simp add: word_unat_eq_iff)
  from this [of "pp_nwrite q - pp_nread q"] show ?thesis
    by (simp add: pipe_elems_def eq_diff_eq add.commute) (metis add_diff_cancel_left' diff_add_cancel)
qed

lemma upd_pipe_simps [simp]:
  "pipes (upd_pipe p f s) p = f (pipes s p)" "p' \<noteq> p \<Longrightarrow> pipes (upd_pipe p f s) p' = pipes s p'"
  "pmem (upd_pipe p f s) = pmem s" "procs (upd_pipe p f s) = procs s" "cur (upd_pipe p f s) = cur s"
  by (simp_all add: upd_pipe_def)

lemma user_ref_upd_pipe [simp]: "user_ref w a (upd_pipe p f s) = user_ref w a s"
  by (simp add: user_ref_def walkpgdir_def Let_def split: option.split)

lemma uload8_upd_pipe [simp]: "uload8 a (upd_pipe p f s) = uload8 a s"
  by (simp add: uload8_def)

lemma uloads_upd_pipe [simp]: "uloads a n (upd_pipe p f s) = uloads a n s"
  by (induction n arbitrary: a) simp_all

lemma wakeup_pipes [simp]:
  "pmem (wakeup ch s) = pmem s" "pipes (wakeup ch (s :: 'a filest_scheme)) = pipes (s :: 'a filest_scheme)"
  by (simp_all add: wakeup_def wakeup1_def)

lemma sleep_on_keeps:
  "sleep_on ch s = Inr t \<Longrightarrow> pmem t = pmem s"
  "sleep_on ch (s :: 'a filest_scheme) = Inr t \<Longrightarrow> pipes t = pipes s"
  by (auto simp: sleep_on_def upd_proc_def split: option.splits)


lemma pipewrite_loop_appends:
  assumes "pipe_inv (pipes s p)" "pipewrite_loop p addr n i s = Inr (r, t)"
  shows "pmem t = pmem s \<and> (\<forall>p'. p' \<noteq> p \<longrightarrow> pipes t p' = pipes s p') \<and> pipe_inv (pipes t p) \<and>
    (\<exists>bs. uloads addr (length bs) s = Inr bs \<and> pipe_elems (pipes t p) = pipe_elems (pipes s p) @ bs \<and>
      (r = Finished (int (i + n)) \<and> length bs = n \<or>
       length bs < n \<and> length (pipe_elems (pipes t p)) = PIPESIZE \<and>
       (r = Blocked (i + length bs) \<or> r = Finished (-1) \<and> (\<not> pp_readopen (pipes s p) \<or> killed s))))"
  using assms
proof (induction p addr n i s rule: pipewrite_loop.induct)
  case (1 p addr i s)
  then show ?case by (intro conjI exI [of _ "[]"]) auto
next
  case (2 p addr n i s)
  let ?q = "pipes s p"
  show ?case
  proof (cases "pp_nwrite ?q = pp_nread ?q + of_nat PIPESIZE")
    case True
    then have "length (pipe_elems ?q) = PIPESIZE" using pipe_full_iff [OF 2(2)] by simp
    then show ?thesis using 2(2,3) True
      by (intro conjI exI [of _ "[]"]) (auto simp: sleep_on_keeps split: if_splits dest: sleep_on_keeps)
  next
    case False
    let ?u = "\<lambda>b. upd_pipe p (pipe_put b) s"
    from 2(3) False obtain b where b: "uload8 addr s = Inr b"
      and run: "pipewrite_loop p (addr + 1) n (i + 1) (?u b) = Inr (r, t)" by auto
    from False have "length (pipe_elems ?q) \<noteq> PIPESIZE" using pipe_full_iff [OF 2(2)] by simp
    note q = pp.enq_set [OF 2(2) this, of b]
    have k: "killed (?u b) = killed s" by (cases "cur s") (simp_all add: killed_def)
    have "pp_readopen (pipe_put b ?q) = pp_readopen ?q" by (simp add: pipe_put_def)
    with 2(1) [OF refl False b _ run] q k obtain bs where ih:
      "pmem t = pmem s" "\<forall>p'. p' \<noteq> p \<longrightarrow> pipes t p' = pipes s p'" "pipe_inv (pipes t p)"
      "uloads (addr + 1) (length bs) s = Inr bs" "pipe_elems (pipes t p) = pipe_elems ?q @ b # bs"
      "r = Finished (int (Suc (i + n))) \<and> length bs = n \<or>
       length bs < n \<and> length (pipe_elems (pipes t p)) = PIPESIZE \<and>
       (r = Blocked (Suc (i + length bs)) \<or> r = Finished (-1) \<and> (\<not> pp_readopen ?q \<or> killed s))"
      by auto
    then show ?thesis using b by (intro conjI exI [of _ "b # bs"]) auto
  qed
qed

text \<open>
  C18. \<open>pipewrite\<close> on a pipe adds bytes of the writer's memory, in order, to the end of the queue, across
  the wrap-around of the ring and of the 32-bit counters. It has added all of them when it answers the
  count; otherwise the pipe is full, and either it waits, with the number added, or there is no reader or
  the writer was killed, and it answers -1. No other pipe and no memory changes.
\<close>

theorem pipewrite_appends:
  assumes "pipe_inv (pipes s p)" "i \<le> n" "pipewrite p addr n i s = Inr (r, t)"
  shows "pmem t = pmem s \<and> (\<forall>p'. p' \<noteq> p \<longrightarrow> pipes t p' = pipes s p') \<and> pipe_inv (pipes t p) \<and>
    (\<exists>bs. uloads (addr + of_nat i) (length bs) s = Inr bs \<and> pipe_elems (pipes t p) = pipe_elems (pipes s p) @ bs \<and>
      (r = Finished (int n) \<and> length bs = n - i \<or>
       length bs < n - i \<and> length (pipe_elems (pipes t p)) = PIPESIZE \<and>
       (r = Blocked (i + length bs) \<or> r = Finished (-1) \<and> (\<not> pp_readopen (pipes s p) \<or> killed s))))"
  using pipewrite_loop_appends [OF assms(1) assms(3) [unfolded pipewrite_def]] assms(2) by simp

lemma user_ref_pmem_only:
  "ustore8 a b s = Inr t \<Longrightarrow> \<exists>m. t = s\<lparr>pmem := m\<rparr>"
  by (auto simp: ustore8_def)

lemma ustore8_upd_pipe:
  "ustore8 a b (upd_pipe p f s) = Inr t \<Longrightarrow> \<exists>u. ustore8 a b s = Inr u \<and> t = upd_pipe p f u"
  by (auto simp: ustore8_def upd_pipe_def user_ref_upd_pipe [unfolded upd_pipe_def])

lemma ustores_upd_pipe:
  "ustores a bs (upd_pipe p f s) = Inr t \<Longrightarrow> \<exists>u. ustores a bs s = Inr u \<and> t = upd_pipe p f u"
  by (induction bs arbitrary: a s) (auto dest!: ustore8_upd_pipe)

lemma piperead_loop_takes:
  assumes "pipe_inv (pipes s p)" "piperead_loop p addr n i s = Inr (k, t)"
  shows "(\<forall>p'. p' \<noteq> p \<longrightarrow> pipes t p' = pipes s p') \<and> pipe_inv (pipes t p) \<and>
    k = i + min n (length (pipe_elems (pipes s p))) \<and> pipe_elems (pipes t p) = drop n (pipe_elems (pipes s p)) \<and>
    (\<exists>u. ustores addr (take n (pipe_elems (pipes s p))) s = Inr u \<and> pmem t = pmem u)"
  using assms
proof (induction p addr n i s rule: piperead_loop.induct)
  case (2 p addr n i s)
  let ?q = "pipes s p"
  show ?case
  proof (cases "pp_nread ?q = pp_nwrite ?q")
    case True
    then have "pipe_elems ?q = []" by (simp add: pipe_elems_def)
    with True 2(2,3) show ?thesis by auto
  next
    case False
    then have "pipe_elems ?q \<noteq> []" by (simp add: pipe_elems_def)
    then obtain b bs where q: "pipe_elems ?q = b # bs" by (cases "pipe_elems ?q") auto
    note g = pipe_get_ok [OF 2(2) q]
    let ?w = "upd_pipe p (\<lambda>q. snd (pipe_get q)) s"
    from 2(3) False g obtain v where v: "ustore8 addr b ?w = Inr v"
      and run: "piperead_loop p (addr + 1) n (i + 1) v = Inr (k, t)" by (auto simp: upd_pipe_def Let_def)
    from ustore8_upd_pipe [OF v] obtain v0 where v0: "ustore8 addr b s = Inr v0" "v = upd_pipe p (\<lambda>q. snd (pipe_get q)) v0" by auto
    from user_ref_pmem_only [OF v] have pv: "pipes v = pipes ?w" by auto
    have "pipe_inv (pipes v p)" "pipe_elems (pipes v p) = bs" using g pv by simp_all
    moreover have "pipe_inv (pipes v p) \<Longrightarrow> ?thesis" if e: "pipe_elems (pipes v p) = bs"
    proof -
      assume inv: "pipe_inv (pipes v p)"
      from 2(1) [OF refl False refl refl _ inv run] v g e have ih:
        "\<forall>p'. p' \<noteq> p \<longrightarrow> pipes t p' = pipes v p'" "pipe_inv (pipes t p)" "k = Suc (i + min n (length bs))"
        "pipe_elems (pipes t p) = drop n bs" "\<exists>u. ustores (addr + 1) (take n bs) v = Inr u \<and> pmem t = pmem u" by auto
      from ih(5) v0(2) obtain u where u: "ustores (addr + 1) (take n bs) v0 = Inr u" "pmem t = pmem u"
        by (auto dest: ustores_upd_pipe)
      show ?thesis using ih(1-4) q v0(1) u pv by auto
    qed
    ultimately show ?thesis by blast
  qed
qed simp

text \<open>
  C21. \<open>piperead\<close> on an empty pipe with a writer waits, or answers -1 if the reader was killed. In every other
  case it takes as many bytes as it was asked for and the pipe has from the front of the queue, stores them
  in the reader's memory in order and answers their number.
\<close>

theorem piperead_takes:
  assumes "pipe_inv (pipes s p)" "piperead p addr n s = Inr (r, t)"
  shows "if pipe_elems (pipes s p) = [] \<and> pp_writeopen (pipes s p) then
      pipes t = pipes s \<and> r = (if killed s then Finished (-1) else Blocked 0)
    else pipe_inv (pipes t p) \<and> r = Finished (int (min n (length (pipe_elems (pipes s p))))) \<and>
      pipe_elems (pipes t p) = drop n (pipe_elems (pipes s p)) \<and> (\<forall>p'. p' \<noteq> p \<longrightarrow> pipes t p' = pipes s p') \<and>
      (\<exists>u. ustores addr (take n (pipe_elems (pipes s p))) s = Inr u \<and> pmem t = pmem u)"
proof (cases "pipe_elems (pipes s p) = [] \<and> pp_writeopen (pipes s p)")
  case True
  with assms(2) show ?thesis by (auto simp: piperead_def Let_def pipe_elems_def split: if_splits dest: sleep_on_keeps)
next
  case False
  with assms(2) obtain k u where "piperead_loop p addr n 0 s = Inr (k, u)" "r = Finished (int k)" "t = wakeup (at_write p) u"
    by (auto simp: piperead_def Let_def pipe_elems_def split: if_splits)
  with piperead_loop_takes [OF assms(1)] have "pipe_inv (pipes t p) \<and> r = Finished (int (min n (length (pipe_elems (pipes s p))))) \<and>
      pipe_elems (pipes t p) = drop n (pipe_elems (pipes s p)) \<and> (\<forall>p'. p' \<noteq> p \<longrightarrow> pipes t p' = pipes s p') \<and>
      (\<exists>u. ustores addr (take n (pipe_elems (pipes s p))) s = Inr u \<and> pmem t = pmem u)" by fastforce
  then show ?thesis unfolding if_not_P [OF False] .
qed


section \<open>A small state\<close>

text \<open>Process 1 runs, on the file system of \<open>mkfs_disk\<close>, with the given inode cache, files and pipes.\<close>

definition free_inode :: inode where
  "free_inode = \<lparr>i_dev = 0, i_inum = 0, i_ref = 0, i_lock = initsleeplock, i_valid = False, i_type = 0, i_major = 0,
     i_minor = 0, i_nlink = 0, i_size = 0, i_addrs = replicate 13 0\<rparr>"

definition file_state :: "inode list \<Rightarrow> openfile list \<Rightarrow> (32 word \<Rightarrow> pipe) \<Rightarrow> filest" where
  "file_state is fs ps = \<lparr>pmem = (\<lambda>_. 0), freelist = 0, use_lock = True, kend = 0x80115000, kdata = 0x80108000, kout = [],
     procs = [idle_proc\<lparr>p_state := RUNNING\<rparr>], cur = Some 0, initproc = Some 0, nextpid = 9, ticks = 0,
     kpgdir = 0x80300000, cr3 = 0x300000, esp0 = 0, forkret_at = 0x80103000, trapret_at = 0x80106000,
     bufs = replicate NBUF free_buf, mru = [0..<NBUF], disk = mkfs_disk, disksize = 1000, dwrites = [],
     l_start = 2, l_size = 30, l_outstanding = 1, l_committing = False, l_dev = 1, l_blocks = [],
     fs_sb = \<lparr>sb_size = 1000, sb_nblocks = 941, sb_ninodes = 200, sb_nlog = 30, sb_logstart = 2, sb_inodestart = 32,
       sb_bmapstart = 58\<rparr>,
     inodes = is, crt = (\<lambda>_. 0x0720), crt_pos = 0, uart_out = [], in_buf = (\<lambda>_. 0), in_r = 0, in_w = 0, in_e = 0,
     ftable = fs, pipes = ps\<rparr>"

lemma file_state_simps [simp]:
  "pipes (file_state is fs ps) = ps" "ftable (file_state is fs ps) = fs" "inodes (file_state is fs ps) = is"
  "pmem (file_state is fs ps) = (\<lambda>_. 0)" "cur (file_state is fs ps) = Some 0"
  "procs (file_state is fs ps) = [idle_proc\<lparr>p_state := RUNNING\<rparr>]"
  by (simp_all add: file_state_def)

definition wrapped_pipe :: pipe where
  "wrapped_pipe = \<lparr>pp_data = (\<lambda>_. 0)(511 := 7, 0 := 8), pp_nread = 0xFFFFFFFF, pp_nwrite = 1,
     pp_readopen = True, pp_writeopen = True\<rparr>"

lemma wrapped_pipe: "pipe_inv wrapped_pipe" "pipe_elems wrapped_pipe = [7, 8]"
  by (simp_all add: wrapped_pipe_def pipe_inv_def pipe_elems_def span_def upt_conv_Cons)

text \<open>The address is one of the kernel's, which every page table maps.\<close>

theorem pipewrite_appends_witness:
  "let s = file_state [] [] (\<lambda>_. wrapped_pipe)
   in \<exists>t. pipewrite 0x80500000 0x80600000 2 0 s = Inr (Finished 2, t) \<and>
     pipe_elems (pipes t 0x80500000) = [7, 8, 0, 0]"
proof -
  let ?s = "file_state [] [] (\<lambda>_. wrapped_pipe)"
  have ld: "uload8 0x80600000 (s :: filest) = Inr (pmem s 0x80600000)" "uload8 0x80600001 (s :: filest) = Inr (pmem s 0x80600001)" for s
    by (simp_all add: uload8_def user_ref_def)
  have "\<exists>t. pipewrite 0x80500000 0x80600000 2 0 ?s = Inr (Finished 2, t)"
  proof -
    have "pipewrite 0x80500000 0x80600000 2 0 ?s = pipewrite_loop 0x80500000 0x80600000 (Suc (Suc 0)) 0 ?s"
      by (simp add: pipewrite_def numeral_2_eq_2)
    then show ?thesis using ld by (simp add: wrapped_pipe_def pipe_put_def)
  qed
  then obtain t where t: "pipewrite 0x80500000 0x80600000 2 0 ?s = Inr (Finished 2, t)" by blast
  have "pipe_inv (pipes ?s 0x80500000)" using wrapped_pipe by simp
  from pipewrite_appends [OF this _ t] obtain bs where bs: "uloads 0x80600000 (length bs) ?s = Inr bs"
    "pipe_elems (pipes t 0x80500000) = [7, 8] @ bs" "length bs = 2" using wrapped_pipe by auto
  then have "bs = [0, 0]" using ld by (simp add: numeral_2_eq_2)
  with bs(2) t show ?thesis by (simp add: Let_def)
qed

theorem piperead_takes_witness:
  "let s = file_state [] [] (\<lambda>_. wrapped_pipe)
   in \<exists>t. piperead 0x80500000 0x80600000 3 s = Inr (Finished 2, t) \<and>
     pipe_elems (pipes t 0x80500000) = [] \<and> pmem t 0x80600000 = 7 \<and> pmem t 0x80600001 = 8"
proof -
  let ?s = "file_state [] [] (\<lambda>_. wrapped_pipe)"
  have st: "ustore8 0x80600000 b (s :: filest) = Inr (s\<lparr>pmem := (pmem s)(0x80600000 := b)\<rparr>)"
    "ustore8 0x80600001 b (s :: filest) = Inr (s\<lparr>pmem := (pmem s)(0x80600001 := b)\<rparr>)" for s b
    by (simp_all add: ustore8_def user_ref_def)
  have "\<exists>r t. piperead 0x80500000 0x80600000 3 ?s = Inr (r, t)"
  proof -
    have "\<exists>k t. piperead_loop 0x80500000 0x80600000 (Suc (Suc (Suc 0))) 0 ?s = Inr (k, t)"
      using st by (simp add: wrapped_pipe_def pipe_get_def)
    then have "\<exists>k t. piperead_loop 0x80500000 0x80600000 3 0 ?s = Inr (k, t)" by (simp only: numeral_3_eq_3)
    then show ?thesis by (auto simp: piperead_def wrapped_pipe_def)
  qed
  then obtain r t where t: "piperead 0x80500000 0x80600000 3 ?s = Inr (r, t)" by blast
  have "pipe_inv (pipes ?s 0x80500000)" using wrapped_pipe by simp
  from piperead_takes [OF this t] t wrapped_pipe show ?thesis by (auto simp: st)
qed

end
