(* ===== verification/Process.thy ===== *)
theory Process
  imports File
begin

text \<open>
  The operations of \<open>proc.c\<close> that create and end processes: \<open>userinit\<close>, \<open>fork\<close>, \<open>exit\<close> and what a new
  process runs first (\<open>forkret\<close>). A trap frame is 76 bytes at the top of the kernel stack; its fields are
  at the offsets of \<open>struct trapframe\<close> in \<open>x86.h\<close>.
\<close>

unbundle bit_operations_syntax

section \<open>Trap frames\<close>

abbreviation TF_EAX :: "32 word" where "TF_EAX \<equiv> 28"
abbreviation TF_ES :: "32 word" where "TF_ES \<equiv> 40"
abbreviation TF_DS :: "32 word" where "TF_DS \<equiv> 44"
abbreviation TF_TRAPNO :: "32 word" where "TF_TRAPNO \<equiv> 48"
abbreviation TF_ERR :: "32 word" where "TF_ERR \<equiv> 52"
abbreviation TF_EIP :: "32 word" where "TF_EIP \<equiv> 56"
abbreviation TF_CS :: "32 word" where "TF_CS \<equiv> 60"
abbreviation TF_EFLAGS :: "32 word" where "TF_EFLAGS \<equiv> 64"
abbreviation TF_ESP :: "32 word" where "TF_ESP \<equiv> 68"
abbreviation TF_SS :: "32 word" where "TF_SS \<equiv> 72"

definition write16 :: "mem \<Rightarrow> 32 word \<Rightarrow> 16 word \<Rightarrow> mem" where
  "write16 m a w = m(a := ucast w, a + 1 := ucast (drop_bit 8 w))"

definition read16 :: "mem \<Rightarrow> 32 word \<Rightarrow> 16 word" where
  "read16 m a = ucast (m a) OR push_bit 8 (ucast (m (a + 1)))"

definition set_tf :: "32 word \<Rightarrow> 32 word \<Rightarrow> 32 word \<Rightarrow> 'a phys_scheme \<Rightarrow> 'a phys_scheme" where
  "set_tf tf off w s = s\<lparr>pmem := write32 (pmem s) (tf + off) w\<rparr>"

definition tf_field :: "32 word \<Rightarrow> 32 word \<Rightarrow> 'a phys_scheme \<Rightarrow> 32 word" where
  "tf_field tf off s = read32 (pmem s) (tf + off)"

section \<open>The first process\<close>

abbreviation SEG_UCODE_SEL :: "16 word" where "SEG_UCODE_SEL \<equiv> 0x1B"
abbreviation SEG_UDATA_SEL :: "16 word" where "SEG_UDATA_SEL \<equiv> 0x23"
abbreviation FL_IF :: "32 word" where "FL_IF \<equiv> 0x200"

text \<open>\<open>init\<close> and \<open>size\<close> are where the linker put \<open>initcode\<close>.\<close>

definition userinit :: "32 word \<Rightarrow> nat \<Rightarrow> 'a filest_scheme \<Rightarrow> 'a filest_scheme res" where
  "userinit init sz s =
     (case allocproc s of
        (None, s) \<Rightarrow> Inl (Fault ''userinit: no process'')
      | (Some i, s) \<Rightarrow>
        bindE (setupkvm (s\<lparr>initproc := Some i\<rparr>)) (\<lambda>(d, s).
          if d = 0 then Inl (Panic ''userinit: out of memory?'')
          else
            bindE (inituvm d init sz (upd_proc i (\<lambda>p. p\<lparr>p_pgdir := d\<rparr>) s)) (\<lambda>s.
              let s = upd_proc i (\<lambda>p. p\<lparr>p_sz := PGSIZE\<rparr>) s;
                  tf = p_tf (procs s ! i);
                  m = memset (pmem s) tf 0 76;
                  m = write16 m (tf + TF_CS) SEG_UCODE_SEL;
                  m = write16 m (tf + TF_DS) SEG_UDATA_SEL;
                  m = write16 m (tf + TF_ES) SEG_UDATA_SEL;
                  m = write16 m (tf + TF_SS) SEG_UDATA_SEL;
                  m = write32 m (tf + TF_EFLAGS) FL_IF;
                  m = write32 m (tf + TF_ESP) PGSIZE;
                  m = write32 m (tf + TF_EIP) 0;
                  s = upd_proc i (\<lambda>p. p\<lparr>p_name := ''initcode''\<rparr>) (s\<lparr>pmem := m\<rparr>)
              in bindE (namei [slash] s) (\<lambda>(r, s).
                   Inr (upd_proc i (\<lambda>p. p\<lparr>p_state := RUNNABLE\<rparr>) (upd_proc i (\<lambda>p. p\<lparr>p_cwd := r\<rparr>) s))))))"

definition forkret :: "bool \<Rightarrow> 'a filest_scheme \<Rightarrow> 'a filest_scheme res" where
  "forkret first s = (if first then bindE (iinit ROOTDEV s) (initlog ROOTDEV) else Inr s)"

section \<open>Fork\<close>

definition dup_file :: "nat \<Rightarrow> nat \<Rightarrow> nat \<Rightarrow> 'a filest_scheme \<Rightarrow> 'a filest_scheme res" where
  "dup_file c np fd s =
     (case p_ofile (procs s ! c) ! fd of
        None \<Rightarrow> Inr s
      | Some f \<Rightarrow> bindE (filedup f s) (\<lambda>(f, s). Inr (upd_proc np (\<lambda>p. p\<lparr>p_ofile := (p_ofile p)[fd := Some f]\<rparr>) s)))"

definition fork :: "'a filest_scheme \<Rightarrow> (int \<times> 'a filest_scheme) res" where
  "fork s =
     (case cur s of None \<Rightarrow> Inl (Fault ''fork: no process'')
      | Some c \<Rightarrow>
        (case allocproc s of
           (None, s) \<Rightarrow> Inr (-1, s)
         | (Some np, s) \<Rightarrow>
           bindE (copyuvm (p_pgdir (procs s ! c)) (p_sz (procs s ! c)) s) (\<lambda>(d, s).
             let s = upd_proc np (\<lambda>p. p\<lparr>p_pgdir := d\<rparr>) s
             in if d = 0 then
                  bindE (kfree (p_kstack (procs s ! np)) s) (\<lambda>s.
                    Inr (-1, upd_proc np (\<lambda>p. p\<lparr>p_kstack := 0, p_state := UNUSED\<rparr>) s))
                else
                  let cp = procs s ! c;
                      s = upd_proc np (\<lambda>p. p\<lparr>p_sz := p_sz cp, p_parent := Some c\<rparr>) s;
                      s = s\<lparr>pmem := memmove (pmem s) (p_tf (procs s ! np)) (p_tf cp) 76\<rparr>;
                      s = upd_proc np (\<lambda>p. p\<lparr>p_tickets := p_tickets cp, p_ticksAcc := 0\<rparr>) s;
                      s = set_tf (p_tf (procs s ! np)) TF_EAX 0 s
                  in bindE (foldE (dup_file c np) [0..<NOFILE] s) (\<lambda>s.
                     case p_cwd cp of
                       None \<Rightarrow> Inl (Fault ''fork: idup'')
                     | Some d \<Rightarrow>
                       (case idup d s of (d, s) \<Rightarrow>
                          let s = upd_proc np (\<lambda>p. p\<lparr>p_cwd := Some d\<rparr>) s;
                              s = upd_proc np (\<lambda>p. p\<lparr>p_name := p_name cp\<rparr>) s;
                              pid = p_pid (procs s ! np)
                          in Inr (pid, upd_proc np (\<lambda>p. p\<lparr>p_state := RUNNABLE\<rparr>) s))))))"

section \<open>Exit\<close>

definition close_file :: "nat \<Rightarrow> nat \<Rightarrow> 'a filest_scheme \<Rightarrow> 'a filest_scheme res" where
  "close_file c fd s =
     (case p_ofile (procs s ! c) ! fd of
        None \<Rightarrow> Inr s
      | Some f \<Rightarrow> bindE (fileclose f s) (\<lambda>s. Inr (upd_proc c (\<lambda>p. p\<lparr>p_ofile := (p_ofile p)[fd := None]\<rparr>) s)))"

definition reparent :: "nat \<Rightarrow> nat \<Rightarrow> 'a kern_scheme \<Rightarrow> 'a kern_scheme" where
  "reparent c i s =
     (if p_parent (procs s ! i) = Some c then
        let s = upd_proc i (\<lambda>p. p\<lparr>p_parent := initproc s\<rparr>) s
        in if p_state (procs s ! i) = ZOMBIE then
             (case initproc s of None \<Rightarrow> s | Some ip \<Rightarrow> wakeup1 (AtProc ip) s)
           else s
      else s)"

text \<open>What \<open>exit\<close> does under \<open>ptable.lock\<close>, once the files are closed; it ends in \<open>sched\<close>.\<close>

definition exit_table :: "nat \<Rightarrow> 'a kern_scheme \<Rightarrow> 'a kern_scheme" where
  "exit_table c s =
     (let s = (case p_parent (procs s ! c) of None \<Rightarrow> s | Some pp \<Rightarrow> wakeup1 (AtProc pp) s);
          s = fold (reparent c) [0..<length (procs s)] s
      in upd_proc c (\<lambda>p. p\<lparr>p_state := ZOMBIE\<rparr>) s)"

definition exit :: "'a filest_scheme \<Rightarrow> 'a filest_scheme res" where
  "exit s =
     (case cur s of None \<Rightarrow> Inl (Fault ''exit: no process'')
      | Some c \<Rightarrow>
        if initproc s = Some c then Inl (Panic ''init exiting'')
        else
          bindE (foldE (close_file c) [0..<NOFILE] s) (\<lambda>s.
          bindE (begin_op s) (\<lambda>s.
          bindE (case p_cwd (procs s ! c) of None \<Rightarrow> Inl (Fault ''exit: iput'') | Some d \<Rightarrow> iput d s) (\<lambda>s.
          bindE (end_op s) (\<lambda>s.
            let s = upd_proc c (\<lambda>p. p\<lparr>p_cwd := None\<rparr>) s
            in Inr (exit_table c s))))))"


text \<open>The table after some children were given away: who is whose child, who sleeps on what.\<close>

lemma wakeup1_at: "procs (wakeup1 ch s) ! i = (if i < length (procs s) \<and> p_state (procs s ! i) = SLEEPING \<and> p_chan (procs s ! i) = Some ch
    then (procs s ! i)\<lparr>p_state := RUNNABLE\<rparr> else procs s ! i)" if "i < length (procs s)"
  using that by (simp add: wakeup1_nth)

lemma wakeup1_simps [simp]: "initproc (wakeup1 ch s) = initproc s" "length (procs (wakeup1 ch s)) = length (procs s)" "cur (wakeup1 ch s) = cur s"
  by (simp_all add: wakeup1_def)

definition asleep_on :: "nat \<Rightarrow> proc \<Rightarrow> bool" where
  "asleep_on ip p \<longleftrightarrow> p_state p = SLEEPING \<and> p_chan p = Some (AtProc ip)"

lemma reparent_step:
  assumes "i < length (procs s)"
  shows "length (procs (reparent c i s)) = length (procs s)" "initproc (reparent c i s) = initproc s"
    "j < length (procs s) \<Longrightarrow> p_parent (procs (reparent c i s) ! j) =
      (if j = i \<and> p_parent (procs s ! j) = Some c then initproc s else p_parent (procs s ! j))"
    "j < length (procs s) \<Longrightarrow> asleep_on ip (procs (reparent c i s) ! j) \<Longrightarrow> asleep_on ip (procs s ! j)"
    "j < length (procs s) \<Longrightarrow> p_state (procs (reparent c i s) ! j) = ZOMBIE \<longleftrightarrow> p_state (procs s ! j) = ZOMBIE"
    "j < length (procs s) \<Longrightarrow> p_parent (procs s ! i) = Some c \<Longrightarrow> p_state (procs s ! i) = ZOMBIE \<Longrightarrow> initproc s = Some ip \<Longrightarrow>
      \<not> asleep_on ip (procs (reparent c i s) ! j)"
  using assms
  by (auto simp: reparent_def Let_def wakeup1_nth asleep_on_def upd_proc_def nth_list_update split: option.splits if_splits)

lemma reparent_upto:
  fixes s :: "'a kern_scheme" and c :: nat
  assumes "n \<le> length (procs s)"
  defines "t \<equiv> fold (reparent c) [0..<n] s"
  shows "length (procs t) = length (procs s) \<and> initproc t = initproc s \<and>
    (\<forall>j < length (procs s).
       p_parent (procs t ! j) = (if j < n \<and> p_parent (procs s ! j) = Some c then initproc s else p_parent (procs s ! j)) \<and>
       (p_state (procs t ! j) = ZOMBIE \<longleftrightarrow> p_state (procs s ! j) = ZOMBIE) \<and>
       (\<forall>ip. asleep_on ip (procs t ! j) \<longrightarrow> asleep_on ip (procs s ! j)) \<and>
       (\<forall>ip. initproc s = Some ip \<longrightarrow> (\<exists>k < n. p_parent (procs s ! k) = Some c \<and> p_state (procs s ! k) = ZOMBIE) \<longrightarrow>
          \<not> asleep_on ip (procs t ! j)))"
  using assms(1) unfolding t_def
proof (induction n)
  case (Suc n)
  let ?u = "fold (reparent c) [0..<n] s"
  from Suc have ih: "length (procs ?u) = length (procs s)" "initproc ?u = initproc s"
    "\<And>j. j < length (procs s) \<Longrightarrow> p_parent (procs ?u ! j) = (if j < n \<and> p_parent (procs s ! j) = Some c then initproc s else p_parent (procs s ! j))"
    "\<And>j. j < length (procs s) \<Longrightarrow> (p_state (procs ?u ! j) = ZOMBIE) = (p_state (procs s ! j) = ZOMBIE)"
    "\<And>j ip. j < length (procs s) \<Longrightarrow> asleep_on ip (procs ?u ! j) \<Longrightarrow> asleep_on ip (procs s ! j)"
    "\<And>j ip k. j < length (procs s) \<Longrightarrow> initproc s = Some ip \<Longrightarrow> k < n \<Longrightarrow> p_parent (procs s ! k) = Some c \<Longrightarrow>
      p_state (procs s ! k) = ZOMBIE \<Longrightarrow> \<not> asleep_on ip (procs ?u ! j)"
    by auto
  have n: "n < length (procs ?u)" "n < length (procs s)" using Suc.prems ih(1) by simp_all
  have st: "fold (reparent c) [0..<Suc n] s = reparent c n ?u" by simp
  note r = reparent_step [OF n(1), where c = c]
  show ?case unfolding st
  proof (intro conjI allI impI)
    fix j assume j: "j < length (procs s)"
    show "p_parent (procs (reparent c n ?u) ! j) =
        (if j < Suc n \<and> p_parent (procs s ! j) = Some c then initproc s else p_parent (procs s ! j))"
      using r(3) [where j = j] ih(1,2) ih(3) [OF j] j by (cases "j = n") (simp_all add: less_Suc_eq)
    show "(p_state (procs (reparent c n ?u) ! j) = ZOMBIE) = (p_state (procs s ! j) = ZOMBIE)"
      using r(5) [where j = j] ih(1) ih(4) [OF j] j by simp
    show "asleep_on ip (procs s ! j)" if "asleep_on ip (procs (reparent c n ?u) ! j)" for ip
      using r(4) [where j = j and ip = ip] ih(1) ih(5) [OF j] j that by simp
    fix ip assume ip: "initproc s = Some ip" and "\<exists>k < Suc n. p_parent (procs s ! k) = Some c \<and> p_state (procs s ! k) = ZOMBIE"
    then obtain k where k: "k < Suc n" "p_parent (procs s ! k) = Some c" "p_state (procs s ! k) = ZOMBIE" by blast
    show "\<not> asleep_on ip (procs (reparent c n ?u) ! j)"
    proof (cases "k = n")
      case True
      with k ih(3,4) [OF n(2)] have "p_parent (procs ?u ! n) = Some c" "p_state (procs ?u ! n) = ZOMBIE" by simp_all
      then show ?thesis using r(6) [where j = j and ip = ip] ih(1,2) ip j by simp
    next
      case False
      with k have "k < n" by simp
      with r(4) [where j = j and ip = ip] ih(6) [OF j ip _ k(2,3)] ih(1) j show ?thesis by auto
    qed
  qed (use r ih in simp_all)
qed simp

text \<open>
  C27. Ending a process loses nobody: \<open>exit\<close> leaves it a zombie, hands every child of it to \<open>init\<close> and changes
  no other parent; no process is still asleep waiting for a child when the one that ended was its child, and
  \<open>init\<close> is not left asleep when one of the children it inherits is already a zombie.
\<close>

theorem exit_hands_over:
  assumes "c < length (procs s)"
  shows "let t = exit_table c s in length (procs t) = length (procs s) \<and> p_state (procs t ! c) = ZOMBIE \<and>
    (\<forall>j < length (procs s).
       p_parent (procs t ! j) = (if p_parent (procs s ! j) = Some c then initproc s else p_parent (procs s ! j)) \<and>
       (\<forall>pp. p_parent (procs s ! c) = Some pp \<longrightarrow> \<not> asleep_on pp (procs t ! j)) \<and>
       (\<forall>ip k. initproc s = Some ip \<longrightarrow> k < length (procs s) \<longrightarrow> p_parent (procs s ! k) = Some c \<longrightarrow>
          p_state (procs s ! k) = ZOMBIE \<longrightarrow> \<not> asleep_on ip (procs t ! j)))"
proof -
  let ?s = "case p_parent (procs s ! c) of None \<Rightarrow> s | Some pp \<Rightarrow> wakeup1 (AtProc pp) s"
  have w: "length (procs ?s) = length (procs s)" "initproc ?s = initproc s"
    "j < length (procs s) \<Longrightarrow> p_parent (procs ?s ! j) = p_parent (procs s ! j)"
    "j < length (procs s) \<Longrightarrow> p_state (procs ?s ! j) = ZOMBIE \<longleftrightarrow> p_state (procs s ! j) = ZOMBIE"
    "j < length (procs s) \<Longrightarrow> p_parent (procs s ! c) = Some pp \<Longrightarrow> \<not> asleep_on pp (procs ?s ! j)" for j pp
    by (auto simp: wakeup1_nth asleep_on_def split: option.split)
  let ?t = "fold (reparent c) [0..<length (procs ?s)] ?s"
  note r = reparent_upto [of "length (procs ?s)" ?s c, OF order_refl]
  have t: "exit_table c s = upd_proc c (\<lambda>p. p\<lparr>p_state := ZOMBIE\<rparr>) ?t" by (simp add: exit_table_def Let_def)
  have z: "asleep_on ip (procs (exit_table c s) ! j) \<Longrightarrow> asleep_on ip (procs ?t ! j)"
    "p_parent (procs (exit_table c s) ! j) = p_parent (procs ?t ! j)" if "j < length (procs s)" for j ip
    using that r w(1) by (cases "j = c"; simp add: t upd_proc_def asleep_on_def)+
  show ?thesis unfolding Let_def
  proof (intro conjI allI impI)
    show "p_state (procs (exit_table c s) ! c) = ZOMBIE" "length (procs (exit_table c s)) = length (procs s)"
      using r w(1) assms by (simp_all add: t upd_proc_def)
  next
    fix j pp assume "j < length (procs s)" "p_parent (procs s ! c) = Some pp"
    then show "\<not> asleep_on pp (procs (exit_table c s) ! j)" using r z w(1,5) by metis
  next
    fix j ip k assume "j < length (procs s)" "initproc s = Some ip" "k < length (procs s)" "p_parent (procs s ! k) = Some c"
      "p_state (procs s ! k) = ZOMBIE"
    then show "\<not> asleep_on ip (procs (exit_table c s) ! j)" using r z w(1,2,3,4) by metis
  next
    fix j assume "j < length (procs s)"
    then show "p_parent (procs (exit_table c s) ! j) = (if p_parent (procs s ! j) = Some c then initproc s else p_parent (procs s ! j))"
      using r z(2) w(1,2,3) by simp
  qed
qed

theorem exit_hands_over_witness:
  "let s = idle_kern [idle_proc\<lparr>p_state := SLEEPING, p_chan := Some (AtProc 0)\<rparr>, idle_proc\<lparr>p_state := RUNNING, p_parent := Some 0\<rparr>,
             idle_proc\<lparr>p_state := ZOMBIE, p_parent := Some 1\<rparr>]
   in map p_parent (procs (exit_table 1 s)) = [None, Some 0, Some 0] \<and> map p_state (procs (exit_table 1 s)) = [RUNNABLE, ZOMBIE, ZOMBIE] \<and>
      \<not> asleep_on 0 (procs (exit_table 1 s) ! 0)"
proof -
  let ?s = "idle_kern [idle_proc\<lparr>p_state := SLEEPING, p_chan := Some (AtProc 0)\<rparr>, idle_proc\<lparr>p_state := RUNNING, p_parent := Some 0\<rparr>,
             idle_proc\<lparr>p_state := ZOMBIE, p_parent := Some 1\<rparr>]"
  have "\<not> asleep_on 0 (procs (exit_table 1 ?s) ! 0)"
    using exit_hands_over [of 1 ?s] by (simp add: idle_kern_def idle_proc_def Let_def)
  moreover have "map p_parent (procs (exit_table 1 ?s)) = [None, Some 0, Some 0]"
    "map p_state (procs (exit_table 1 ?s)) = [RUNNABLE, ZOMBIE, ZOMBIE]"
    by (simp_all add: exit_table_def reparent_def upd_proc_def wakeup1_def idle_kern_def idle_proc_def Let_def upt_rec numeral_3_eq_3)
  ultimately show ?thesis by (simp add: Let_def)
qed

end
