(* ===== verification/Exec.thy ===== *)
theory Exec
  imports Process
begin

text \<open>
  Loading a program: \<open>loaduvm\<close> of \<open>vm.c\<close> and \<open>exec.c\<close>. The path and the arguments are the byte strings
  that the system call fetched. \<open>copyout_bytes\<close> is \<open>copyout\<close> of \<open>vm.c\<close> on bytes that the kernel has in a
  local variable or reads from user memory.
\<close>

unbundle bit_operations_syntax

section \<open>Segments\<close>

fun loaduvm_loop :: "32 word \<Rightarrow> 32 word \<Rightarrow> nat \<Rightarrow> 32 word \<Rightarrow> 32 word \<Rightarrow> nat list \<Rightarrow> 'a console_scheme \<Rightarrow>
    (int \<times> 'a console_scheme) res" where
  "loaduvm_loop pgdir addr ip offset sz [] s = Inr (0, s)"
| "loaduvm_loop pgdir addr ip offset sz (k # ks) s =
     (let i = of_nat k; pte = fst (walkpgdir pgdir (addr + i) False s)
      in if pte = 0 then Inl (Panic ''loaduvm: address should exist'')
         else
           let pa = PTE_ADDR (read32 (pmem s) pte); n = (if sz - i < PGSIZE then sz - i else PGSIZE)
           in bindE (readi ip (Some (P2V pa)) (offset + i) n s) (\<lambda>(r, _, s).
                if word_of_int r \<noteq> n then Inr (-1, s) else loaduvm_loop pgdir addr ip offset sz ks s))"

definition loaduvm :: "32 word \<Rightarrow> 32 word \<Rightarrow> nat \<Rightarrow> 32 word \<Rightarrow> 32 word \<Rightarrow> 'a console_scheme \<Rightarrow>
    (int \<times> 'a console_scheme) res" where
  "loaduvm pgdir addr ip offset sz s =
     (if unat addr mod 4096 \<noteq> 0 then Inl (Panic ''loaduvm: addr must be page aligned'')
      else loaduvm_loop pgdir addr ip offset sz (map (\<lambda>k. k * 4096) [0..<(unat sz + 4095) div 4096]) s)"

abbreviation ELF_MAGIC :: "32 word" where "ELF_MAGIC \<equiv> 0x464C457F"

definition at32 :: "8 word list \<Rightarrow> nat \<Rightarrow> 32 word" where
  "at32 bs i = bytes_word (take 4 (drop i bs))"

definition at16 :: "8 word list \<Rightarrow> nat \<Rightarrow> 16 word" where
  "at16 bs i = ucast (bs ! i) OR push_bit 8 (ucast (bs ! (i + 1)))"

text \<open>The program headers, 32 bytes each from offset \<open>off\<close>: \<open>None\<close> is \<open>goto bad\<close>.\<close>

fun load_segments :: "nat \<Rightarrow> 32 word \<Rightarrow> nat \<Rightarrow> 32 word \<Rightarrow> 32 word \<Rightarrow> 'a console_scheme \<Rightarrow>
    (32 word option \<times> 'a console_scheme) res" where
  "load_segments ip pgdir 0 off sz s = Inr (Some sz, s)"
| "load_segments ip pgdir (Suc n) off sz s =
     bindE (readi ip None off 32 s) (\<lambda>(r, ph, s).
       let filesz = at32 ph 16; memsz = at32 ph 20; vaddr = at32 ph 8
       in if r \<noteq> 32 then Inr (None, s)
          else if at32 ph 0 \<noteq> 1 then load_segments ip pgdir n (off + 32) sz s
          else if memsz < filesz then Inr (None, s)
          else if vaddr + memsz < vaddr then Inr (None, s)
          else bindE (allocuvm pgdir sz (sz + vaddr + memsz) s) (\<lambda>(sz, s).
            if sz = 0 then Inr (None, s)
            else if unat vaddr mod 4096 \<noteq> 0 then Inr (None, s)
            else bindE (loaduvm pgdir vaddr ip (at32 ph 4) filesz s) (\<lambda>(r, s).
              if r < 0 then Inr (None, s) else load_segments ip pgdir n (off + 32) sz s)))"

section \<open>The stack\<close>

abbreviation MAXARG :: nat where "MAXARG \<equiv> 32"

definition write_bytes :: "mem \<Rightarrow> 32 word \<Rightarrow> 8 word list \<Rightarrow> mem" where
  "write_bytes m a bs = fold (\<lambda>i m. m(a + of_nat i := bs ! i)) [0..<length bs] m"

function copyout_bytes :: "32 word \<Rightarrow> 32 word \<Rightarrow> 8 word list \<Rightarrow> 'a phys_scheme \<Rightarrow> (int \<times> 'a phys_scheme) res" where
  "copyout_bytes pgdir va bs s =
     (if bs = [] then Inr (0, s)
      else
        let va0 = PGROUNDDOWN va
        in bindE (uva2ka pgdir va0 s) (\<lambda>pa0.
             if pa0 = 0 then Inr (-1, s)
             else
               let n = min (4096 - unat (va - va0)) (length bs);
                   s = s\<lparr>pmem := write_bytes (pmem s) (pa0 + (va - va0)) (take n bs)\<rparr>
               in copyout_bytes pgdir (va0 + PGSIZE) (drop n bs) s))"
  by pat_completeness auto
termination
proof (relation "measure (\<lambda>(pgdir, va, bs, s). length bs)", goal_cases)
  case (2 pgdir va bs s va0 pa0 n t)
  have "unat (va - PGROUNDDOWN va) < 4096" by (simp add: page_offset)
  then show ?case using 2 by simp
qed simp

fun push_args :: "32 word \<Rightarrow> nat \<Rightarrow> 8 word list list \<Rightarrow> 32 word \<Rightarrow> 32 word list \<Rightarrow> 'a phys_scheme \<Rightarrow>
    ((32 word \<times> 32 word list) option \<times> 'a phys_scheme) res" where
  "push_args pgdir argc [] sp ustack s = Inr (Some (sp, ustack), s)"
| "push_args pgdir argc (a # args) sp ustack s =
     (if argc \<ge> MAXARG then Inr (None, s)
      else
        let sp = (sp - of_nat (length a + 1)) AND NOT 3
        in bindE (copyout_bytes pgdir sp (a @ [0]) s) (\<lambda>(r, s).
             if r < 0 then Inr (None, s) else push_args pgdir (argc + 1) args sp (ustack @ [sp]) s))"

section \<open>Exec\<close>

definition last_elem :: "8 word list \<Rightarrow> 8 word list" where
  "last_elem path = rev (takeWhile (\<lambda>c. c \<noteq> slash) (rev path))"

definition bytes_string :: "8 word list \<Rightarrow> string" where
  "bytes_string bs = map (\<lambda>b. char_of (unat b)) bs"

definition exec_bad :: "32 word \<Rightarrow> nat option \<Rightarrow> 'a filest_scheme \<Rightarrow> (int \<times> 'a filest_scheme) res" where
  "exec_bad pgdir ipo s =
     bindE (if pgdir \<noteq> 0 then freevm pgdir s else Inr s) (\<lambda>s.
     bindE (case ipo of None \<Rightarrow> Inr s | Some ip \<Rightarrow> bindE (iunlockput ip s) end_op) (\<lambda>s. Inr (-1, s)))"

text \<open>From the loaded segments on: the stack, and the switch to the new image.\<close>

definition exec_stack :: "nat \<Rightarrow> 8 word list \<Rightarrow> 8 word list list \<Rightarrow> 32 word \<Rightarrow> 32 word \<Rightarrow> 32 word \<Rightarrow> 'a filest_scheme \<Rightarrow>
    (int \<times> 'a filest_scheme) res" where
  "exec_stack c path argv entry pgdir sz s =
     (let sz = PGROUNDUP sz
      in bindE (allocuvm pgdir sz (sz + 8192) s) (\<lambda>(sz, s).
         if sz = 0 then exec_bad pgdir None s
         else bindE (clearpteu pgdir (sz - 8192) s) (\<lambda>s.
           bindE (push_args pgdir 0 argv sz [] s) (\<lambda>(r, s).
             case r of None \<Rightarrow> exec_bad pgdir None s
             | Some (sp, addrs) \<Rightarrow>
               let argc = of_nat (length argv);
                   ustack = [0xFFFFFFFF, argc, sp - (argc + 1) * 4] @ addrs @ [0];
                   sp = sp - (3 + argc + 1) * 4
               in bindE (copyout_bytes pgdir sp (concat (map word_bytes ustack)) s) (\<lambda>(r, s).
                  if r < 0 then exec_bad pgdir None s
                  else
                    let s = upd_proc c (\<lambda>p. p\<lparr>p_name := take 15 (bytes_string (last_elem path))\<rparr>) s;
                        oldpgdir = p_pgdir (procs s ! c);
                        s = upd_proc c (\<lambda>p. p\<lparr>p_pgdir := pgdir, p_sz := sz\<rparr>) s;
                        tf = p_tf (procs s ! c);
                        s = set_tf tf TF_ESP sp (set_tf tf TF_EIP entry s)
                    in bindE (switchuvm (Some c) s) (\<lambda>s. bindE (freevm oldpgdir s) (\<lambda>s. Inr (0, s))))))))"

definition exec :: "8 word list \<Rightarrow> 8 word list list \<Rightarrow> 'a filest_scheme \<Rightarrow> (int \<times> 'a filest_scheme) res" where
  "exec path argv s =
     (case cur s of None \<Rightarrow> Inl (Fault ''exec: no process'')
      | Some c \<Rightarrow>
        bindE (begin_op s) (\<lambda>s. bindE (namei path s) (\<lambda>(r, s).
          case r of
            None \<Rightarrow> bindE (end_op s) (\<lambda>s. Inr (-1, cprintf (''exec: fail'' @ [CHR 0x0A]) s))
          | Some ip \<Rightarrow>
            bindE (ilock ip s) (\<lambda>s. bindE (readi ip None 0 52 s) (\<lambda>(r, elf, s).
              if r \<noteq> 52 then exec_bad 0 (Some ip) s
              else if at32 elf 0 \<noteq> ELF_MAGIC then exec_bad 0 (Some ip) s
              else bindE (setupkvm s) (\<lambda>(pgdir, s).
                if pgdir = 0 then exec_bad 0 (Some ip) s
                else bindE (load_segments ip pgdir (unat (at16 elf 44)) (at32 elf 28) PGSIZE s) (\<lambda>(r, s).
                  case r of None \<Rightarrow> exec_bad pgdir (Some ip) s
                  | Some sz \<Rightarrow> bindE (iunlockput ip s) (\<lambda>s. bindE (end_op s)
                      (exec_stack c path argv (at32 elf 24) pgdir sz)))))))))"

end
