(* ===== verification/Syscall.thy ===== *)
theory Syscall
  imports Exec
begin

text \<open>
  System calls: argument fetching and the dispatcher of \<open>syscall.c\<close>, and the handlers of \<open>sysproc.c\<close>
  and \<open>sysfile.c\<close>. A handler answers like the operations of \<open>File\<close>: \<open>Finished r\<close>, or \<open>Blocked k\<close> when the
  process now sleeps; \<open>k\<close> is what the handler needs to go on when it is woken (the bytes a \<open>write\<close> to a
  pipe has done, the tick a \<open>sleep\<close> began). A string argument is the bytes up to its NUL, read when
  \<open>argstr\<close> checks it.
\<close>

unbundle bit_operations_syntax

section \<open>Arguments\<close>

definition with_proc :: "(nat \<Rightarrow> 'b res) \<Rightarrow> 'a kern_scheme \<Rightarrow> 'b res" where
  "with_proc f s = (case cur s of None \<Rightarrow> Inl (Fault ''no process'') | Some c \<Rightarrow> f c)"

definition fetchint :: "32 word \<Rightarrow> 'a kern_scheme \<Rightarrow> 32 word option res" where
  "fetchint addr s =
     with_proc (\<lambda>c. let sz = p_sz (procs s ! c)
       in if addr \<ge> sz \<or> addr + 4 > sz then Inr None else bindE (uload32 addr s) (\<lambda>w. Inr (Some w))) s"

fun fetchstr_loop :: "32 word \<Rightarrow> nat \<Rightarrow> 8 word list \<Rightarrow> 'a kern_scheme \<Rightarrow> 8 word list option res" where
  "fetchstr_loop a 0 got s = Inr None"
| "fetchstr_loop a (Suc n) got s =
     bindE (uload8 a s) (\<lambda>b. if b = 0 then Inr (Some got) else fetchstr_loop (a + 1) n (got @ [b]) s)"

definition fetchstr :: "32 word \<Rightarrow> 'a kern_scheme \<Rightarrow> 8 word list option res" where
  "fetchstr addr s =
     with_proc (\<lambda>c. let sz = p_sz (procs s ! c)
       in if addr \<ge> sz then Inr None else fetchstr_loop addr (unat sz - unat addr) [] s) s"

definition argint :: "nat \<Rightarrow> 'a kern_scheme \<Rightarrow> 32 word option res" where
  "argint n s = with_proc (\<lambda>c. fetchint (tf_field (p_tf (procs s ! c)) TF_ESP s + 4 + 4 * of_nat n) s) s"

definition argptr :: "nat \<Rightarrow> 32 word \<Rightarrow> 'a kern_scheme \<Rightarrow> 32 word option res" where
  "argptr n len s =
     with_proc (\<lambda>c. bindE (argint n s) (\<lambda>r. case r of None \<Rightarrow> Inr None
       | Some i \<Rightarrow> let sz = p_sz (procs s ! c)
           in if sint len < 0 \<or> i \<ge> sz \<or> i + len > sz then Inr None else Inr (Some i))) s"

definition argstr :: "nat \<Rightarrow> 'a kern_scheme \<Rightarrow> 8 word list option res" where
  "argstr n s = bindE (argint n s) (\<lambda>r. case r of None \<Rightarrow> Inr None | Some addr \<Rightarrow> fetchstr addr s)"

text \<open>\<open>need m s f\<close>: go on with what an argument holds, or return \<open>-1\<close>.\<close>

definition need :: "('s \<Rightarrow> 'b option res) \<Rightarrow> 's \<Rightarrow> ('b \<Rightarrow> (wait_result \<times> 's) res) \<Rightarrow> (wait_result \<times> 's) res" where
  "need m s f = bindE (m s) (\<lambda>r. case r of None \<Rightarrow> Inr (Finished (-1), s) | Some x \<Rightarrow> f x)"

lemma need_cases: "need m s f = (case m s of Inl e \<Rightarrow> Inl e | Inr None \<Rightarrow> Inr (Finished (-1), s) | Inr (Some x) \<Rightarrow> f x)"
  by (cases "m s") (auto simp: need_def split: option.split)

definition finish :: "(int \<times> 's) res \<Rightarrow> (wait_result \<times> 's) res" where
  "finish m = bindE m (\<lambda>(r, s). Inr (Finished r, s))"

section \<open>Processes\<close>

definition sys_fork :: "'a filest_scheme \<Rightarrow> (wait_result \<times> 'a filest_scheme) res" where
  "sys_fork s = finish (fork s)"

definition sys_exit :: "'a filest_scheme \<Rightarrow> (wait_result \<times> 'a filest_scheme) res" where
  "sys_exit s = bindE (exit s) (\<lambda>s. Inr (Gone, s))"

definition sys_wait :: "'a filest_scheme \<Rightarrow> (wait_result \<times> 'a filest_scheme) res" where
  "sys_wait s = bindE (wait_pass s) (\<lambda>(r, s). Inr (case r of None \<Rightarrow> Blocked 0 | Some pid \<Rightarrow> Finished pid, s))"

definition sys_kill :: "'a filest_scheme \<Rightarrow> (wait_result \<times> 'a filest_scheme) res" where
  "sys_kill s = need (argint 0) s (\<lambda>pid. finish (Inr (kill (sint pid) s)))"

definition sys_getpid :: "'a filest_scheme \<Rightarrow> (wait_result \<times> 'a filest_scheme) res" where
  "sys_getpid s = with_proc (\<lambda>c. Inr (Finished (p_pid (procs s ! c)), s)) s"

definition sys_sbrk :: "'a filest_scheme \<Rightarrow> (wait_result \<times> 'a filest_scheme) res" where
  "sys_sbrk s =
     with_proc (\<lambda>c. need (argint 0) s (\<lambda>n.
       let addr = p_sz (procs s ! c)
       in bindE (growproc n s) (\<lambda>(r, s). Inr (Finished (if r < 0 then -1 else sint addr), s)))) s"

definition sys_sleep :: "nat option \<Rightarrow> 'a filest_scheme \<Rightarrow> (wait_result \<times> 'a filest_scheme) res" where
  "sys_sleep k s =
     need (argint 0) s (\<lambda>n.
       let ticks0 = (case k of None \<Rightarrow> ticks s | Some t \<Rightarrow> of_nat t)
       in if ticks s - ticks0 < n then
            (if killed s then Inr (Finished (-1), s)
             else bindE (sleep_on AtTicks s) (\<lambda>s. Inr (Blocked (unat ticks0), s)))
          else Inr (Finished 0, s))"

definition sys_uptime :: "'a filest_scheme \<Rightarrow> (wait_result \<times> 'a filest_scheme) res" where
  "sys_uptime s = Inr (Finished (sint (ticks s)), s)"

definition sys_settickets :: "'a filest_scheme \<Rightarrow> (wait_result \<times> 'a filest_scheme) res" where
  "sys_settickets s =
     need (argint 0) s (\<lambda>n.
       if sint n < 1 then Inr (Finished (-1), s)
       else with_proc (\<lambda>c. Inr (Finished 0, upd_proc c (\<lambda>p. p\<lparr>p_tickets := sint n\<rparr>) s)) s)"

definition sys_getpinfo :: "'a filest_scheme \<Rightarrow> (wait_result \<times> 'a filest_scheme) res" where
  "sys_getpinfo s =
     need (argptr 0 1024) s (\<lambda>st.
       if st = 0 then Inr (Finished (-1), s) else bindE (fill_pstat st s) (\<lambda>(_, s). Inr (Finished 0, s)))"

section \<open>Files\<close>

definition argfd :: "nat \<Rightarrow> 'a kern_scheme \<Rightarrow> (nat \<times> nat) option res" where
  "argfd n s =
     with_proc (\<lambda>c. bindE (argint n s) (\<lambda>r. case r of None \<Rightarrow> Inr None
       | Some w \<Rightarrow> let fd = sint w
           in if fd < 0 \<or> fd \<ge> int NOFILE then Inr None
              else Inr (map_option (\<lambda>f. (nat fd, f)) (p_ofile (procs s ! c) ! nat fd)))) s"

definition fdalloc :: "nat \<Rightarrow> 'a kern_scheme \<Rightarrow> (nat option \<times> 'a kern_scheme) res" where
  "fdalloc f s =
     with_proc (\<lambda>c.
       case first_idx (\<lambda>x. x = None) (p_ofile (procs s ! c)) of
         None \<Rightarrow> Inr (None, s)
       | Some fd \<Rightarrow> Inr (Some fd, upd_proc c (\<lambda>p. p\<lparr>p_ofile := (p_ofile p)[fd := Some f]\<rparr>) s)) s"

definition clear_fd :: "nat \<Rightarrow> 'a kern_scheme \<Rightarrow> 'a kern_scheme res" where
  "clear_fd fd s = with_proc (\<lambda>c. Inr (upd_proc c (\<lambda>p. p\<lparr>p_ofile := (p_ofile p)[fd := None]\<rparr>) s)) s"

definition sys_dup :: "'a filest_scheme \<Rightarrow> (wait_result \<times> 'a filest_scheme) res" where
  "sys_dup s =
     need (argfd 0) s (\<lambda>(_, f).
       bindE (fdalloc f s) (\<lambda>(r, s). case r of None \<Rightarrow> Inr (Finished (-1), s)
         | Some fd \<Rightarrow> bindE (filedup f s) (\<lambda>(_, s). Inr (Finished (int fd), s))))"

definition sys_read :: "'a filest_scheme \<Rightarrow> (wait_result \<times> 'a filest_scheme) res" where
  "sys_read s =
     need (argfd 0) s (\<lambda>(_, f). need (argint 2) s (\<lambda>n. need (argptr 1 n) s (\<lambda>p. fileread f p n s)))"

definition sys_write :: "nat option \<Rightarrow> 'a filest_scheme \<Rightarrow> (wait_result \<times> 'a filest_scheme) res" where
  "sys_write k s =
     need (argfd 0) s (\<lambda>(_, f). need (argint 2) s (\<lambda>n. need (argptr 1 n) s (\<lambda>p.
       filewrite f p n (case k of None \<Rightarrow> 0 | Some i \<Rightarrow> i) s)))"

definition sys_close :: "'a filest_scheme \<Rightarrow> (wait_result \<times> 'a filest_scheme) res" where
  "sys_close s =
     need (argfd 0) s (\<lambda>(fd, f). bindE (clear_fd fd s) (\<lambda>s. bindE (fileclose f s) (\<lambda>s. Inr (Finished 0, s))))"

definition sys_fstat :: "'a filest_scheme \<Rightarrow> (wait_result \<times> 'a filest_scheme) res" where
  "sys_fstat s = need (argfd 0) s (\<lambda>(_, f). need (argptr 1 20) s (\<lambda>st. finish (filestat f st s)))"

text \<open>The exits of a call that is inside a transaction.\<close>

definition end_with :: "int \<Rightarrow> 'a filest_scheme \<Rightarrow> (wait_result \<times> 'a filest_scheme) res" where
  "end_with r s = bindE (end_op s) (\<lambda>s. Inr (Finished r, s))"

definition put_end :: "nat \<Rightarrow> int \<Rightarrow> 'a filest_scheme \<Rightarrow> (wait_result \<times> 'a filest_scheme) res" where
  "put_end ip r s = bindE (iunlockput ip s) (end_with r)"

definition link_bad :: "nat \<Rightarrow> 'a filest_scheme \<Rightarrow> (wait_result \<times> 'a filest_scheme) res" where
  "link_bad ip s =
     bindE (ilock ip s) (\<lambda>s. bindE (iupdate ip (upd_ino ip (\<lambda>i. i\<lparr>i_nlink := i_nlink i - 1\<rparr>) s)) (put_end ip (-1)))"

definition sys_link :: "'a filest_scheme \<Rightarrow> (wait_result \<times> 'a filest_scheme) res" where
  "sys_link s =
     need (argstr 0) s (\<lambda>old. need (argstr 1) s (\<lambda>new.
       bindE (begin_op s) (\<lambda>s. bindE (namei old s) (\<lambda>(r, s).
         case r of None \<Rightarrow> end_with (-1) s
         | Some ip \<Rightarrow>
           bindE (ilock ip s) (\<lambda>s.
             if i_type (inodes s ! ip) = T_DIR then put_end ip (-1) s
             else bindE (iupdate ip (upd_ino ip (\<lambda>i. i\<lparr>i_nlink := i_nlink i + 1\<rparr>) s)) (\<lambda>s. bindE (iunlock ip s) (\<lambda>s.
               bindE (nameiparent new s) (\<lambda>(r, s).
                 case r of None \<Rightarrow> link_bad ip s
                 | Some (dp, name) \<Rightarrow>
                   bindE (ilock dp s) (\<lambda>s.
                   bindE (if i_dev (inodes s ! dp) \<noteq> i_dev (inodes s ! ip) then Inr (-1, s)
                          else dirlink dp name (i_inum (inodes s ! ip)) s) (\<lambda>(r, s).
                     if r < 0 then bindE (iunlockput dp s) (link_bad ip)
                     else bindE (iunlockput dp s) (\<lambda>s. bindE (iput ip s) (end_with 0))))))))))))"

fun isdirempty_from :: "nat \<Rightarrow> nat list \<Rightarrow> 'a console_scheme \<Rightarrow> (bool \<times> 'a console_scheme) res" where
  "isdirempty_from dp [] s = Inr (True, s)"
| "isdirempty_from dp (off # offs) s =
     bindE (readi dp None (of_nat off) 16 s) (\<lambda>(r, de, s).
       if r \<noteq> 16 then Inl (Panic ''isdirempty: readi'')
       else if de_inum de \<noteq> 0 then Inr (False, s) else isdirempty_from dp offs s)"

definition isdirempty :: "nat \<Rightarrow> 'a console_scheme \<Rightarrow> (bool \<times> 'a console_scheme) res" where
  "isdirempty dp s = isdirempty_from dp (drop 2 (dirent_offs (unat (i_size (inodes s ! dp))))) s"

abbreviation dot :: "8 word" where "dot \<equiv> 0x2E"

definition sys_unlink :: "'a filest_scheme \<Rightarrow> (wait_result \<times> 'a filest_scheme) res" where
  "sys_unlink s =
     need (argstr 0) s (\<lambda>path.
       bindE (begin_op s) (\<lambda>s. bindE (nameiparent path s) (\<lambda>(r, s).
         case r of None \<Rightarrow> end_with (-1) s
         | Some (dp, name) \<Rightarrow>
           bindE (ilock dp s) (\<lambda>s.
             if namecmp name [dot] = 0 \<or> namecmp name [dot, dot] = 0 then put_end dp (-1) s
             else bindE (dirlookup dp name s) (\<lambda>(r, s).
               case r of None \<Rightarrow> put_end dp (-1) s
               | Some (ip, off) \<Rightarrow>
                 bindE (ilock ip s) (\<lambda>s.
                   if sint (i_nlink (inodes s ! ip)) < 1 then Inl (Panic ''unlink: nlink < 1'')
                   else bindE (if i_type (inodes s ! ip) = T_DIR then isdirempty ip s else Inr (True, s)) (\<lambda>(empty, s).
                     if \<not> empty then bindE (iunlockput ip s) (put_end dp (-1))
                     else bindE (writei dp (Inr (replicate 16 0)) (of_nat off) 16 s) (\<lambda>(r, s).
                       if r \<noteq> 16 then Inl (Panic ''unlink: writei'')
                       else
                         bindE (if i_type (inodes s ! ip) = T_DIR
                                then iupdate dp (upd_ino dp (\<lambda>i. i\<lparr>i_nlink := i_nlink i - 1\<rparr>) s) else Inr s) (\<lambda>s.
                         bindE (iunlockput dp s) (\<lambda>s.
                         bindE (iupdate ip (upd_ino ip (\<lambda>i. i\<lparr>i_nlink := i_nlink i - 1\<rparr>) s)) (put_end ip 0)))))))))))"

definition create :: "8 word list \<Rightarrow> 16 word \<Rightarrow> 16 word \<Rightarrow> 16 word \<Rightarrow> 'a filest_scheme \<Rightarrow>
    (nat option \<times> 'a filest_scheme) res" where
  "create path ty major minor s =
     bindE (nameiparent path s) (\<lambda>(r, s).
       case r of None \<Rightarrow> Inr (None, s)
       | Some (dp, name) \<Rightarrow>
         bindE (ilock dp s) (\<lambda>s. bindE (dirlookup dp name s) (\<lambda>(r, s).
           case r of
             Some (ip, _) \<Rightarrow>
               bindE (iunlockput dp s) (\<lambda>s. bindE (ilock ip s) (\<lambda>s.
                 if ty = T_FILE \<and> i_type (inodes s ! ip) = T_FILE then Inr (Some ip, s)
                 else bindE (iunlockput ip s) (\<lambda>s. Inr (None, s))))
           | None \<Rightarrow>
               bindE (ialloc (i_dev (inodes s ! dp)) ty s) (\<lambda>(ip, s). bindE (ilock ip s) (\<lambda>s.
               bindE (iupdate ip (upd_ino ip (\<lambda>i. i\<lparr>i_major := major, i_minor := minor, i_nlink := 1\<rparr>) s)) (\<lambda>s.
               bindE
                 (if ty = T_DIR then
                    bindE (iupdate dp (upd_ino dp (\<lambda>i. i\<lparr>i_nlink := i_nlink i + 1\<rparr>) s)) (\<lambda>s.
                    bindE (dirlink ip [dot] (i_inum (inodes s ! ip)) s) (\<lambda>(r, s).
                      if r < 0 then Inl (Panic ''create dots'')
                      else bindE (dirlink ip [dot, dot] (i_inum (inodes s ! dp)) s) (\<lambda>(r, s).
                        if r < 0 then Inl (Panic ''create dots'') else Inr s)))
                  else Inr s)
                 (\<lambda>s. bindE (dirlink dp name (i_inum (inodes s ! ip)) s) (\<lambda>(r, s).
                    if r < 0 then Inl (Panic ''create: dirlink'')
                    else bindE (iunlockput dp s) (\<lambda>s. Inr (Some ip, s))))))))))"

abbreviation O_WRONLY :: "32 word" where "O_WRONLY \<equiv> 1"
abbreviation O_RDWR :: "32 word" where "O_RDWR \<equiv> 2"
abbreviation O_CREATE :: "32 word" where "O_CREATE \<equiv> 0x200"

definition open_fd :: "nat \<Rightarrow> 32 word \<Rightarrow> 'a filest_scheme \<Rightarrow> (wait_result \<times> 'a filest_scheme) res" where
  "open_fd ip omode s =
     (case filealloc s of
        (None, s) \<Rightarrow> put_end ip (-1) s
      | (Some f, s) \<Rightarrow>
        bindE (fdalloc f s) (\<lambda>(r, s).
          case r of None \<Rightarrow> bindE (fileclose f s) (put_end ip (-1))
          | Some fd \<Rightarrow>
            bindE (iunlock ip s) (\<lambda>s. bindE (end_op s) (\<lambda>s.
              Inr (Finished (int fd), upd_file f (\<lambda>q. q\<lparr>f_type := FD_INODE, f_ip := ip, f_off := 0,
                f_readable := (omode AND O_WRONLY = 0),
                f_writable := (omode AND O_WRONLY \<noteq> 0 \<or> omode AND O_RDWR \<noteq> 0)\<rparr>) s)))))"

definition sys_open :: "'a filest_scheme \<Rightarrow> (wait_result \<times> 'a filest_scheme) res" where
  "sys_open s =
     need (argstr 0) s (\<lambda>path. need (argint 1) s (\<lambda>omode.
       bindE (begin_op s) (\<lambda>s.
         if omode AND O_CREATE \<noteq> 0 then
           bindE (create path T_FILE 0 0 s) (\<lambda>(r, s). case r of None \<Rightarrow> end_with (-1) s | Some ip \<Rightarrow> open_fd ip omode s)
         else
           bindE (namei path s) (\<lambda>(r, s).
             case r of None \<Rightarrow> end_with (-1) s
             | Some ip \<Rightarrow> bindE (ilock ip s) (\<lambda>s.
                 if i_type (inodes s ! ip) = T_DIR \<and> omode \<noteq> 0 then put_end ip (-1) s else open_fd ip omode s)))))"

text \<open>\<open>mkdir\<close> and \<open>mknod\<close> fetch their arguments inside the transaction.\<close>

definition op_arg :: "('a filest_scheme \<Rightarrow> 'b option res) \<Rightarrow> 'a filest_scheme \<Rightarrow>
    ('b \<Rightarrow> (wait_result \<times> 'a filest_scheme) res) \<Rightarrow> (wait_result \<times> 'a filest_scheme) res" where
  "op_arg m s f = bindE (m s) (\<lambda>r. case r of None \<Rightarrow> end_with (-1) s | Some x \<Rightarrow> f x)"

definition make_node :: "8 word list \<Rightarrow> 16 word \<Rightarrow> 16 word \<Rightarrow> 16 word \<Rightarrow> 'a filest_scheme \<Rightarrow>
    (wait_result \<times> 'a filest_scheme) res" where
  "make_node path ty major minor s =
     bindE (create path ty major minor s) (\<lambda>(r, s). case r of None \<Rightarrow> end_with (-1) s | Some ip \<Rightarrow> put_end ip 0 s)"

definition sys_mkdir :: "'a filest_scheme \<Rightarrow> (wait_result \<times> 'a filest_scheme) res" where
  "sys_mkdir s = bindE (begin_op s) (\<lambda>s. op_arg (argstr 0) s (\<lambda>path. make_node path T_DIR 0 0 s))"

definition sys_mknod :: "'a filest_scheme \<Rightarrow> (wait_result \<times> 'a filest_scheme) res" where
  "sys_mknod s =
     bindE (begin_op s) (\<lambda>s. op_arg (argstr 0) s (\<lambda>path. op_arg (argint 1) s (\<lambda>major. op_arg (argint 2) s (\<lambda>minor.
       make_node path T_DEV (ucast major) (ucast minor) s))))"

definition sys_chdir :: "'a filest_scheme \<Rightarrow> (wait_result \<times> 'a filest_scheme) res" where
  "sys_chdir s =
     with_proc (\<lambda>c. bindE (begin_op s) (\<lambda>s. op_arg (argstr 0) s (\<lambda>path. bindE (namei path s) (\<lambda>(r, s).
       case r of None \<Rightarrow> end_with (-1) s
       | Some ip \<Rightarrow>
         bindE (ilock ip s) (\<lambda>s.
           if i_type (inodes s ! ip) \<noteq> T_DIR then put_end ip (-1) s
           else bindE (iunlock ip s) (\<lambda>s.
             bindE (case p_cwd (procs s ! c) of None \<Rightarrow> Inl (Fault ''chdir: cwd'') | Some d \<Rightarrow> iput d s) (\<lambda>s.
             bindE (end_op s) (\<lambda>s. Inr (Finished 0, upd_proc c (\<lambda>p. p\<lparr>p_cwd := Some ip\<rparr>) s))))))))) s"

text \<open>The argument vector: up to \<open>MAXARG\<close> pointers, ended by a null one.\<close>

fun fetch_argv :: "32 word \<Rightarrow> nat \<Rightarrow> 8 word list list \<Rightarrow> 'a kern_scheme \<Rightarrow> 8 word list list option res" where
  "fetch_argv uargv 0 got s = Inr None"
| "fetch_argv uargv (Suc n) got s =
     bindE (fetchint uargv s) (\<lambda>r. case r of None \<Rightarrow> Inr None
       | Some uarg \<Rightarrow>
         if uarg = 0 then Inr (Some got)
         else bindE (fetchstr uarg s) (\<lambda>r. case r of None \<Rightarrow> Inr None
           | Some a \<Rightarrow> fetch_argv (uargv + 4) n (got @ [a]) s))"

definition sys_exec :: "'a filest_scheme \<Rightarrow> (wait_result \<times> 'a filest_scheme) res" where
  "sys_exec s =
     need (argstr 0) s (\<lambda>path. need (argint 1) s (\<lambda>uargv.
       need (fetch_argv uargv MAXARG []) s (\<lambda>argv. finish (exec path argv s))))"

definition sys_pipe :: "'a filest_scheme \<Rightarrow> (wait_result \<times> 'a filest_scheme) res" where
  "sys_pipe s =
     need (argptr 0 8) s (\<lambda>fd.
       bindE (pipealloc s) (\<lambda>(r, s).
         case r of None \<Rightarrow> Inr (Finished (-1), s)
         | Some (rfile, wfile) \<Rightarrow>
           let bad = (\<lambda>s. bindE (fileclose rfile s) (\<lambda>s. bindE (fileclose wfile s) (\<lambda>s. Inr (Finished (-1), s))))
           in bindE (fdalloc rfile s) (\<lambda>(r, s).
                case r of None \<Rightarrow> bad s
                | Some fd0 \<Rightarrow>
                  bindE (fdalloc wfile s) (\<lambda>(r, s).
                    case r of None \<Rightarrow> bindE (clear_fd fd0 s) bad
                    | Some fd1 \<Rightarrow>
                      bindE (ustore32 fd (of_nat fd0) s) (\<lambda>s. bindE (ustore32 (fd + 4) (of_nat fd1) s) (\<lambda>s.
                        Inr (Finished 0, s)))))))"

section \<open>The dispatcher\<close>

definition syscalls :: "nat \<Rightarrow> nat option \<Rightarrow> 'a filest_scheme \<Rightarrow> (wait_result \<times> 'a filest_scheme) res" where
  "syscalls num k s =
     (if num = 1 then sys_fork s
      else if num = 2 then sys_exit s
      else if num = 3 then sys_wait s
      else if num = 4 then sys_pipe s
      else if num = 5 then sys_read s
      else if num = 6 then sys_kill s
      else if num = 7 then sys_exec s
      else if num = 8 then sys_fstat s
      else if num = 9 then sys_chdir s
      else if num = 10 then sys_dup s
      else if num = 11 then sys_getpid s
      else if num = 12 then sys_sbrk s
      else if num = 13 then sys_sleep k s
      else if num = 14 then sys_uptime s
      else if num = 15 then sys_open s
      else if num = 16 then sys_write k s
      else if num = 17 then sys_mknod s
      else if num = 18 then sys_unlink s
      else if num = 19 then sys_link s
      else if num = 20 then sys_mkdir s
      else if num = 21 then sys_close s
      else if num = 22 then sys_settickets s
      else sys_getpinfo s)"

text \<open>\<open>syscall None\<close> is the call from \<open>trap\<close>; \<open>syscall (Some k)\<close> goes on with a call that was \<open>Blocked k\<close>
  (its process has been woken and scheduled). \<open>eax\<close> is read on the way in and holds the number until the
  result is stored.\<close>

definition syscall :: "nat option \<Rightarrow> 'a filest_scheme \<Rightarrow> (wait_result \<times> 'a filest_scheme) res" where
  "syscall k s =
     with_proc (\<lambda>c.
       let num = sint (tf_field (p_tf (procs s ! c)) TF_EAX s);
           ret = (\<lambda>r s. set_tf (p_tf (procs s ! c)) TF_EAX (word_of_int r) s)
       in if num > 0 \<and> num < 24 then
            bindE (syscalls (nat num) k (if k = None then s else sleep_return s)) (\<lambda>(r, s).
              case r of Finished v \<Rightarrow> Inr (Finished v, ret v s) | _ \<Rightarrow> Inr (r, s))
          else
            bindE (cprintf_msg (''%d %s: unknown sys call %d'' @ [CHR 0x0A])
              [Word (word_of_int (p_pid (procs s ! c))), Str (Some (p_name (procs s ! c))), Word (word_of_int num)] s) (\<lambda>s.
            Inr (Finished (-1), ret (-1) s))) s"

end
