(* ===== verification/Trap.thy ===== *)
theory Trap
  imports Syscall
begin

text \<open>
  Interrupts and traps: the keyboard decoder \<open>kbdgetc\<close> (\<open>kbd.c\<close>, with the key maps of \<open>kbd.h\<close>), the gates
  of the interrupt descriptor table (\<open>tvinit\<close>, \<open>SETGATE\<close> of \<open>mmu.h\<close>) and the handler \<open>trap\<close> of \<open>trap.c\<close>. What the
  devices hold when an interrupt comes is an argument (\<open>env\<close>). Acknowledging the interrupt controller
  and the disk interrupt change nothing in this state: the disk driver here is synchronous.
\<close>

unbundle bit_operations_syntax

section \<open>Keyboard\<close>

text \<open>The characters of the keypad and the arrow keys, the same in the three maps but for two keys.\<close>

definition special_key :: "nat \<Rightarrow> nat \<Rightarrow> nat \<Rightarrow> nat" where
  "special_key en dv k =
     (if k = 0x9C then en else if k = 0xB5 then dv else if k = 0xC8 then 0xE2 else if k = 0xD0 then 0xE3
      else if k = 0xC9 then 0xE6 else if k = 0xD1 then 0xE7 else if k = 0xCB then 0xE4 else if k = 0xCD then 0xE5
      else if k = 0x97 then 0xE0 else if k = 0xCF then 0xE1 else if k = 0xD2 then 0xE8 else if k = 0xD3 then 0xE9
      else 0)"

definition key_table :: "nat list \<Rightarrow> nat \<Rightarrow> nat \<Rightarrow> nat \<Rightarrow> nat" where
  "key_table tab en dv k = (if k < length tab then tab ! k else special_key en dv k)"

definition normalmap :: "nat \<Rightarrow> nat" where
  "normalmap = key_table
    [0, 27, 49, 50, 51, 52, 53, 54, 55, 56, 57, 48, 45, 61, 8, 9,
     113, 119, 101, 114, 116, 121, 117, 105, 111, 112, 91, 93, 10, 0, 97, 115,
     100, 102, 103, 104, 106, 107, 108, 59, 39, 96, 0, 92, 122, 120, 99, 118,
     98, 110, 109, 44, 46, 47, 0, 42, 0, 32, 0, 0, 0, 0, 0, 0,
     0, 0, 0, 0, 0, 0, 0, 55, 56, 57, 45, 52, 53, 54, 43, 49,
     50, 51, 48, 46, 0, 0, 0, 0] 10 47"

definition shiftmap :: "nat \<Rightarrow> nat" where
  "shiftmap = key_table
    [0, 27, 33, 64, 35, 36, 37, 94, 38, 42, 40, 41, 95, 43, 8, 9,
     81, 87, 69, 82, 84, 89, 85, 73, 79, 80, 123, 125, 10, 0, 65, 83,
     68, 70, 71, 72, 74, 75, 76, 58, 34, 126, 0, 124, 90, 88, 67, 86,
     66, 78, 77, 60, 62, 63, 0, 42, 0, 32, 0, 0, 0, 0, 0, 0,
     0, 0, 0, 0, 0, 0, 0, 55, 56, 57, 45, 52, 53, 54, 43, 49,
     50, 51, 48, 46, 0, 0, 0, 0] 10 47"

definition ctlmap :: "nat \<Rightarrow> nat" where
  "ctlmap = key_table
    [0, 0, 0, 0, 0, 0, 0, 0, 0, 0, 0, 0, 0, 0, 0, 0,
     17, 23, 5, 18, 20, 25, 21, 9, 15, 16, 0, 0, 13, 0, 1, 19,
     4, 6, 7, 8, 10, 11, 12, 0, 0, 0, 0, 28, 26, 24, 3, 22,
     2, 14, 13, 0, 0, 239, 0, 0] 13 239"

abbreviation SHIFT :: "32 word" where "SHIFT \<equiv> 1"
abbreviation CTL :: "32 word" where "CTL \<equiv> 2"
abbreviation ALT :: "32 word" where "ALT \<equiv> 4"
abbreviation CAPSLOCK :: "32 word" where "CAPSLOCK \<equiv> 8"
abbreviation NUMLOCK :: "32 word" where "NUMLOCK \<equiv> 16"
abbreviation SCROLLLOCK :: "32 word" where "SCROLLLOCK \<equiv> 32"
abbreviation E0ESC :: "32 word" where "E0ESC \<equiv> 64"

definition shiftcode :: "nat \<Rightarrow> 32 word" where
  "shiftcode k = (if k = 0x1D \<or> k = 0x9D then CTL else if k = 0x2A \<or> k = 0x36 then SHIFT
     else if k = 0x38 \<or> k = 0xB8 then ALT else 0)"

definition togglecode :: "nat \<Rightarrow> 32 word" where
  "togglecode k = (if k = 0x3A then CAPSLOCK else if k = 0x45 then NUMLOCK else if k = 0x46 then SCROLLLOCK else 0)"

definition charcode :: "32 word \<Rightarrow> nat \<Rightarrow> nat" where
  "charcode sh = (if sh AND (CTL OR SHIFT) = 0 then normalmap else if sh AND (CTL OR SHIFT) = SHIFT then shiftmap else ctlmap)"

text \<open>One scan code: the character (0 when there is none) and the new shift state.\<close>

definition kbdgetc :: "8 word \<Rightarrow> 32 word \<Rightarrow> int \<times> 32 word" where
  "kbdgetc data sh =
     (if data = 0xE0 then (0, sh OR E0ESC)
      else if data AND 0x80 \<noteq> 0 then
        let k = (if sh AND E0ESC \<noteq> 0 then data else data AND 0x7F)
        in (0, sh AND NOT (shiftcode (unat k) OR E0ESC))
      else
        let (data, sh) = (if sh AND E0ESC \<noteq> 0 then (data OR 0x80, sh AND NOT E0ESC) else (data, sh));
            sh = (sh OR shiftcode (unat data)) XOR togglecode (unat data);
            c = charcode sh (unat data)
        in (int (if sh AND CAPSLOCK \<noteq> 0 then
                   if 97 \<le> c \<and> c \<le> 122 then c - 32 else if 65 \<le> c \<and> c \<le> 90 then c + 32 else c
                 else c), sh))"

fun kbd_chars :: "8 word list \<Rightarrow> 32 word \<Rightarrow> int list \<times> 32 word" where
  "kbd_chars [] sh = ([], sh)"
| "kbd_chars (d # ds) sh = (case kbdgetc d sh of (c, sh) \<Rightarrow> case kbd_chars ds sh of (cs, sh) \<Rightarrow> (c # cs, sh))"

record pc_state = filest +
  kbd_shift :: "32 word"

definition kbdintr :: "8 word list \<Rightarrow> 'a pc_state_scheme \<Rightarrow> 'a pc_state_scheme res" where
  "kbdintr codes s = (case kbd_chars codes (kbd_shift s) of (cs, sh) \<Rightarrow> consoleintr cs (s\<lparr>kbd_shift := sh\<rparr>))"

section \<open>Gates\<close>

record gatedesc =
  off_15_0 :: "16 word"
  gd_cs :: "16 word"
  gd_type :: "4 word"
  gd_dpl :: "2 word"
  gd_p :: bool
  off_31_16 :: "16 word"

abbreviation T_SYSCALL :: nat where "T_SYSCALL \<equiv> 64"
abbreviation KCODE_SEL :: "16 word" where "KCODE_SEL \<equiv> 8"

definition setgate :: "bool \<Rightarrow> 16 word \<Rightarrow> 32 word \<Rightarrow> 2 word \<Rightarrow> gatedesc" where
  "setgate istrap sel off d = \<lparr>off_15_0 = ucast (off AND 0xFFFF), gd_cs = sel, gd_type = (if istrap then 0xF else 0xE),
     gd_dpl = d, gd_p = True, off_31_16 = ucast (drop_bit 16 off)\<rparr>"

definition tvinit :: "(nat \<Rightarrow> 32 word) \<Rightarrow> gatedesc list" where
  "tvinit vectors = (map (\<lambda>i. setgate False KCODE_SEL (vectors i) 0) [0..<256])
     [T_SYSCALL := setgate True KCODE_SEL (vectors T_SYSCALL) 3]"

section \<open>The handler\<close>

text \<open>What the processor and the devices show: the number of the cpu, \<open>cr2\<close>, and the scan codes and
  characters waiting in the keyboard and the serial line.\<close>

record env =
  ev_cpu :: nat
  ev_cr2 :: "32 word"
  ev_codes :: "8 word list"
  ev_serial :: "int list"

datatype trap_result = Back | Ended | Asleep nat | Yielded

definition user_mode :: "32 word \<Rightarrow> 'a phys_scheme \<Rightarrow> bool" where
  "user_mode tf s = (read16 (pmem s) (tf + TF_CS) AND 3 = 3)"

text \<open>The end of \<open>trap\<close>: leave if killed, give up the processor on a clock tick.\<close>

definition trap_exit_check :: "32 word \<Rightarrow> 'a pc_state_scheme \<Rightarrow> (bool \<times> 'a pc_state_scheme) res" where
  "trap_exit_check tf s =
     (if killed s \<and> user_mode tf s then bindE (exit s) (\<lambda>s. Inr (True, s)) else Inr (False, s))"

definition trap_leave :: "32 word \<Rightarrow> 'a pc_state_scheme \<Rightarrow> (trap_result \<times> 'a pc_state_scheme) res" where
  "trap_leave tf s =
     bindE (trap_exit_check tf s) (\<lambda>(gone, s).
       if gone then Inr (Ended, s)
       else case cur s of
         None \<Rightarrow> Inr (Back, s)
       | Some c \<Rightarrow>
         if p_state (procs s ! c) = RUNNING \<and> tf_field tf TF_TRAPNO s = 32 then
           bindE (yield s) (\<lambda>s. Inr (Yielded, s))
         else bindE (trap_exit_check tf s) (\<lambda>(gone, s). Inr (if gone then Ended else Back, s)))"

text \<open>What is left to do when a process that yielded runs again.\<close>

definition trap_after_yield :: "32 word \<Rightarrow> 'a pc_state_scheme \<Rightarrow> (trap_result \<times> 'a pc_state_scheme) res" where
  "trap_after_yield tf s = bindE (trap_exit_check tf s) (\<lambda>(gone, s). Inr (if gone then Ended else Back, s))"

definition trap_syscall :: "32 word \<Rightarrow> 'a pc_state_scheme \<Rightarrow> (trap_result \<times> 'a pc_state_scheme) res" where
  "trap_syscall tf s =
     with_proc (\<lambda>c.
       if killed s then bindE (exit s) (\<lambda>s. Inr (Ended, s))
       else bindE (syscall None (upd_proc c (\<lambda>p. p\<lparr>p_tf := tf\<rparr>) s)) (\<lambda>(r, s).
         case r of
           Finished _ \<Rightarrow> if killed s then bindE (exit s) (\<lambda>s. Inr (Ended, s)) else Inr (Back, s)
         | Blocked k \<Rightarrow> Inr (Asleep k, s)
         | Gone \<Rightarrow> Inr (Ended, s))) s"

definition trap_unexpected :: "env \<Rightarrow> 32 word \<Rightarrow> 'a pc_state_scheme \<Rightarrow> 'a pc_state_scheme res" where
  "trap_unexpected env tf s =
     (let trapno = tf_field tf TF_TRAPNO s; eip = tf_field tf TF_EIP s; cpuw = of_nat (ev_cpu env)
      in case cur s of
           None \<Rightarrow> Inl (Panic ''trap'')
         | Some c \<Rightarrow>
           if read16 (pmem s) (tf + TF_CS) AND 3 = 0 then Inl (Panic ''trap'')
           else
             bindE (cprintf_msg (''pid %d %s: trap %d err %d on cpu %d eip 0x%x addr 0x%x--kill proc'' @ [CHR 0x0A])
               [Word (word_of_int (p_pid (procs s ! c))), Str (Some (p_name (procs s ! c))), Word trapno,
                Word (tf_field tf TF_ERR s), Word cpuw, Word eip, Word (ev_cr2 env)] s)
               (\<lambda>s. Inr (upd_proc c (\<lambda>p. p\<lparr>p_killed := True\<rparr>) s)))"

definition trap :: "env \<Rightarrow> 32 word \<Rightarrow> 'a pc_state_scheme \<Rightarrow> (trap_result \<times> 'a pc_state_scheme) res" where
  "trap env tf s =
     (let trapno = tf_field tf TF_TRAPNO s
      in if trapno = 64 then trap_syscall tf s
         else bindE
           (if trapno = 32 then
              Inr (if ev_cpu env = 0 then wakeup AtTicks (s\<lparr>ticks := ticks s + 1\<rparr>) else s)
            else if trapno = 32 + 14 \<or> trapno = 32 + 15 then Inr s
            else if trapno = 32 + 1 then kbdintr (ev_codes env) s
            else if trapno = 32 + 4 then consoleintr (ev_serial env) s
            else if trapno = 32 + 7 \<or> trapno = 32 + 31 then
              cprintf_msg (''cpu%d: spurious interrupt at %x:%x'' @ [CHR 0x0A])
                [Word (of_nat (ev_cpu env)), Word (ucast (read16 (pmem s) (tf + TF_CS))), Word (tf_field tf TF_EIP s)] s
            else trap_unexpected env tf s)
           (trap_leave tf))"

end
