(* ===== verification/Frames.thy ===== *)
theory Frames
  imports File
begin

text \<open>
  What the block cache, the log and the file system leave alone, on every path of every function: of
  the processes nothing but that sleepers may be woken (\<open>calm\<close>), and everything that is kept above
  them in the state, open files and pipes among it. One relation for each layer, and \<open>onE\<close>, by which a
  property of the state after a call follows from its definition, construct by construct.
\<close>

section \<open>Properties of results\<close>

definition onE :: "('r \<Rightarrow> 's) \<Rightarrow> ('s \<Rightarrow> bool) \<Rightarrow> 'r res \<Rightarrow> bool" where
  "onE p Q m = (case m of Inl e \<Rightarrow> True | Inr x \<Rightarrow> Q (p x))"

abbreviation endE :: "('s \<Rightarrow> bool) \<Rightarrow> 's res \<Rightarrow> bool" where "endE \<equiv> onE (\<lambda>t. t)"

abbreviation thd :: "'a \<times> 'b \<times> 'c \<Rightarrow> 'c" where "thd x \<equiv> snd (snd x)"

named_theorems frameI

lemma onE_D: "onE p Q m \<Longrightarrow> m = Inr x \<Longrightarrow> Q (p x)"
  by (simp add: onE_def)

lemma onE_I: "(\<And>x. m = Inr x \<Longrightarrow> Q (p x)) \<Longrightarrow> onE p Q m"
  by (cases m) (auto simp: onE_def)

lemma onE_mono: "onE p Q m \<Longrightarrow> (\<And>x. Q x \<Longrightarrow> R x) \<Longrightarrow> onE p R m"
  by (cases m) (auto simp: onE_def)

lemma onE_Inl [frameI]: "onE p Q (Inl e)"
  by (simp add: onE_def)

lemma onE_Inr [frameI]: "Q t \<Longrightarrow> endE Q (Inr t)" "Q t \<Longrightarrow> onE snd Q (Inr (x, t))" "Q t \<Longrightarrow> onE thd Q (Inr (x, y, t))"
  by (simp_all add: onE_def)

lemma onE_then: "endE Q m \<Longrightarrow> (\<And>t. Q t \<Longrightarrow> onE p R (f t)) \<Longrightarrow> onE p R (bindE m f)"
  by (cases m) (auto simp: onE_def)

lemma onE_then_pair: "onE snd Q m \<Longrightarrow> (\<And>x t. Q t \<Longrightarrow> onE p R (f x t)) \<Longrightarrow> onE p R (bindE m (\<lambda>(x, t). f x t))"
  by (cases m) (auto simp: onE_def)

lemmas onE_bind [frameI] = onE_then [where Q = Q and R = Q for Q]
lemmas onE_bind_pair [frameI] = onE_then_pair [where Q = Q and R = Q for Q]

lemma onE_bind_triple [frameI]:
  "onE thd Q m \<Longrightarrow> (\<And>x y t. Q t \<Longrightarrow> onE p Q (f x y t)) \<Longrightarrow> onE p Q (bindE m (\<lambda>(x, y, t). f x y t))"
  by (cases m) (auto simp: onE_def)

lemma onE_bind_value: "(\<And>x. m = Inr x \<Longrightarrow> onE p Q (f x)) \<Longrightarrow> onE p Q (bindE m f)"
  by (cases m) (auto simp: onE_def)

lemma onE_if [frameI]: "(c \<Longrightarrow> onE p Q a) \<Longrightarrow> (\<not> c \<Longrightarrow> onE p Q b) \<Longrightarrow> onE p Q (if c then a else b)"
  by simp

lemma onE_option [frameI]:
  "(x = None \<Longrightarrow> onE p Q a) \<Longrightarrow> (\<And>y. x = Some y \<Longrightarrow> onE p Q (f y)) \<Longrightarrow> onE p Q (case x of None \<Rightarrow> a | Some y \<Rightarrow> f y)"
  by (cases x) auto

lemma onE_prod [frameI]: "(\<And>a b. x = (a, b) \<Longrightarrow> onE p Q (f a b)) \<Longrightarrow> onE p Q (case x of (a, b) \<Rightarrow> f a b)"
  by (cases x) auto

lemma onE_foldE [frameI]:
  assumes "Q s" "\<And>x t. x \<in> set xs \<Longrightarrow> Q t \<Longrightarrow> endE Q (f x t)"
  shows "endE Q (foldE f xs s)"
proof (rule onE_I)
  fix t assume "foldE f xs s = Inr t"
  then show "Q t"
  proof (rule foldE_invariant [where P = Q])
    fix x u v assume "x \<in> set xs" "Q u" "f x u = Inr v"
    then show "Q v" using onE_D [OF assms(2)] by simp
  qed (rule assms(1))
qed

section \<open>Processes that are at most woken\<close>

definition at_most_woken :: "proc \<Rightarrow> proc \<Rightarrow> bool" where
  "at_most_woken p q \<longleftrightarrow> q = p \<or> p_state p = SLEEPING \<and> q = p\<lparr>p_state := RUNNABLE\<rparr>"

definition calm :: "'a kern_scheme \<Rightarrow> 'b kern_scheme \<Rightarrow> bool" where
  "calm s t \<longleftrightarrow> cur t = cur s \<and> initproc t = initproc s \<and> nextpid t = nextpid s \<and>
     list_all2 at_most_woken (procs s) (procs t)"

lemma at_most_woken_refl [simp]: "at_most_woken p p"
  by (simp add: at_most_woken_def)

lemma at_most_woken_trans: "at_most_woken p q \<Longrightarrow> at_most_woken q r \<Longrightarrow> at_most_woken p r"
  unfolding at_most_woken_def by (elim disjE conjE) simp_all

lemma calm_refl [simp]: "procs t = procs s \<Longrightarrow> cur t = cur s \<Longrightarrow> initproc t = initproc s \<Longrightarrow> nextpid t = nextpid s \<Longrightarrow> calm s t"
  by (simp add: calm_def list_all2_refl)

lemma calm_trans:
  assumes "calm s t" "calm t u"
  shows "calm s u"
proof -
  have "list_all2 at_most_woken (procs s) (procs u)"
    by (rule list_all2_trans [OF at_most_woken_trans]) (use assms in \<open>auto simp: calm_def\<close>)
  with assms show ?thesis by (simp add: calm_def)
qed

lemma calm_wakeup: "calm s (wakeup ch s)"
  by (auto simp: calm_def wakeup_def wakeup1_def list_all2_map2 at_most_woken_def intro!: list_all2_refl)

lemma calm_nth: "calm s t \<Longrightarrow> length (procs t) = length (procs s) \<and> (\<forall>i < length (procs s). at_most_woken (procs s ! i) (procs t ! i))"
  by (auto simp: calm_def list_all2_conv_all_nth)

section \<open>The layers\<close>

definition bio_rel :: "'a bio_scheme \<Rightarrow> 'a bio_scheme \<Rightarrow> bool" where
  "bio_rel s t \<longleftrightarrow> calm s t \<and> pmem t = pmem s \<and> bio.more t = bio.more s"

definition log_rel :: "'a logst_scheme \<Rightarrow> 'a logst_scheme \<Rightarrow> bool" where
  "log_rel s t \<longleftrightarrow> calm s t \<and> pmem t = pmem s \<and> logst.more t = logst.more s"

definition fs_rel :: "'a fsst_scheme \<Rightarrow> 'a fsst_scheme \<Rightarrow> bool" where
  "fs_rel s t \<longleftrightarrow> calm s t \<and> pmem t = pmem s \<and> fsst.more t = fsst.more s"

definition con_rel :: "'a console_scheme \<Rightarrow> 'a console_scheme \<Rightarrow> bool" where
  "con_rel s t \<longleftrightarrow> calm s t \<and> console.more t = console.more s"

lemmas rel_defs = bio_rel_def log_rel_def fs_rel_def con_rel_def

lemma rel_refl [simp, frameI]: "bio_rel s s" "log_rel l l" "fs_rel f f" "con_rel c c"
  by (simp_all add: rel_defs)

lemma rel_trans:
  "bio_rel s t \<Longrightarrow> bio_rel t u \<Longrightarrow> bio_rel s u" "log_rel l m \<Longrightarrow> log_rel m n \<Longrightarrow> log_rel l n"
  "fs_rel f g \<Longrightarrow> fs_rel g h \<Longrightarrow> fs_rel f h" "con_rel c d \<Longrightarrow> con_rel d e \<Longrightarrow> con_rel c e"
  by (auto simp: rel_defs intro: calm_trans)

lemma rel_up:
  "bio_rel s t \<Longrightarrow> log_rel s t" "log_rel l m \<Longrightarrow> fs_rel l m" "fs_rel f g \<Longrightarrow> con_rel f g"
    apply (cases s; cases t; simp add: rel_defs)
   apply (cases l; cases m; simp add: rel_defs)
  apply (cases f; cases g; simp add: rel_defs)
  done

text \<open>Lifting a frame of a call to the layers above.\<close>

lemma bio_bio: "onE p (bio_rel t) m \<Longrightarrow> bio_rel s t \<Longrightarrow> onE p (bio_rel s) m"
  by (rule onE_mono) (blast intro: rel_trans)+

lemma bio_log: "onE p (bio_rel t) m \<Longrightarrow> log_rel s t \<Longrightarrow> onE p (log_rel s) m"
  by (rule onE_mono) (blast intro: rel_trans rel_up)+

lemma bio_fs: "onE p (bio_rel t) m \<Longrightarrow> fs_rel s t \<Longrightarrow> onE p (fs_rel s) m"
  by (rule onE_mono) (blast intro: rel_trans rel_up)+

lemma bio_con: "onE p (bio_rel t) m \<Longrightarrow> con_rel s t \<Longrightarrow> onE p (con_rel s) m"
  by (rule onE_mono) (blast intro: rel_trans rel_up)+

lemma log_log: "onE p (log_rel t) m \<Longrightarrow> log_rel s t \<Longrightarrow> onE p (log_rel s) m"
  by (rule onE_mono) (blast intro: rel_trans)+

lemma log_fs: "onE p (log_rel t) m \<Longrightarrow> fs_rel s t \<Longrightarrow> onE p (fs_rel s) m"
  by (rule onE_mono) (blast intro: rel_trans rel_up)+

lemma log_con: "onE p (log_rel t) m \<Longrightarrow> con_rel s t \<Longrightarrow> onE p (con_rel s) m"
  by (rule onE_mono) (blast intro: rel_trans rel_up)+

lemma fs_fs: "onE p (fs_rel t) m \<Longrightarrow> fs_rel s t \<Longrightarrow> onE p (fs_rel s) m"
  by (rule onE_mono) (blast intro: rel_trans)+

lemma fs_con: "onE p (fs_rel t) m \<Longrightarrow> con_rel s t \<Longrightarrow> onE p (con_rel s) m"
  by (rule onE_mono) (blast intro: rel_trans rel_up)+

lemma con_con: "onE p (con_rel t) m \<Longrightarrow> con_rel s t \<Longrightarrow> onE p (con_rel s) m"
  by (rule onE_mono) (blast intro: rel_trans)+


text \<open>Changes of a layer's own fields.\<close>

lemma bio_own [simp]: "bio_rel s (upd_buf i f t) = bio_rel s t" "bio_rel s (set_data i g t) = bio_rel s t"
  "bio_rel s (t\<lparr>mru := ks\<rparr>) = bio_rel s t" "bio_rel s (t\<lparr>disk := d\<rparr>) = bio_rel s t"
  "bio_rel s (t\<lparr>dwrites := ws\<rparr>) = bio_rel s t"
  by (simp_all add: bio_rel_def calm_def upd_buf_def set_data_def)

lemma log_own [simp]: "log_rel s (upd_buf i f t) = log_rel s t" "log_rel s (set_data i g t) = log_rel s t"
  "log_rel s (t\<lparr>l_blocks := bs\<rparr>) = log_rel s t" "log_rel s (t\<lparr>l_outstanding := n\<rparr>) = log_rel s t"
  "log_rel s (t\<lparr>l_committing := b\<rparr>) = log_rel s t" "log_rel s (t\<lparr>l_start := k\<rparr>) = log_rel s t"
  "log_rel s (t\<lparr>l_size := j\<rparr>) = log_rel s t" "log_rel s (t\<lparr>l_dev := k\<rparr>) = log_rel s t"
  by (simp_all add: log_rel_def calm_def upd_buf_def set_data_def)

lemma fs_own [simp]: "fs_rel s (set_data i g t) = fs_rel s t" "fs_rel s (upd_ino j h t) = fs_rel s t"
  by (simp_all add: fs_rel_def calm_def upd_buf_def set_data_def upd_ino_def)

lemma con_own [simp]: "con_rel s (set_data i g t) = con_rel s t" "con_rel s (upd_ino j h t) = con_rel s t"
  "con_rel s (t\<lparr>crt := c\<rparr>) = con_rel s t" "con_rel s (t\<lparr>crt_pos := k\<rparr>) = con_rel s t"
  "con_rel s (t\<lparr>uart_out := u\<rparr>) = con_rel s t" "con_rel s (t\<lparr>in_r := r\<rparr>) = con_rel s t"
  "con_rel s (t\<lparr>in_w := r\<rparr>) = con_rel s t" "con_rel s (t\<lparr>in_e := r\<rparr>) = con_rel s t" "con_rel s (t\<lparr>pmem := m\<rparr>) = con_rel s t"
  by (simp_all add: con_rel_def calm_def upd_buf_def set_data_def upd_ino_def)

lemma wakeup_frame: "bio_rel s t \<Longrightarrow> bio_rel s (wakeup ch t)" "log_rel l m \<Longrightarrow> log_rel l (wakeup ch m)"
  "fs_rel f g \<Longrightarrow> fs_rel f (wakeup ch g)" "con_rel c d \<Longrightarrow> con_rel c (wakeup ch d)"
  by (auto simp: rel_defs intro: calm_trans [OF _ calm_wakeup]) (simp_all add: wakeup_def wakeup1_def)

section \<open>The block cache\<close>

lemma bget_frame: "onE snd (bio_rel s) (bget dev b s)"
  unfolding bget_def lock_buf_def by (auto intro!: onE_I split: option.splits)

lemma iderw_frame: "endE (bio_rel s) (iderw i s)"
  unfolding iderw_def Let_def by (auto intro!: onE_I split: if_splits)

lemma bread_frame: "onE snd (bio_rel s) (bread dev b s)"
  unfolding bread_def by (intro frameI bget_frame iderw_frame [THEN bio_bio])

lemma bwrite_frame: "endE (bio_rel s) (bwrite i s)"
  unfolding bwrite_def using iderw_frame [of "upd_buf i (\<lambda>b. b\<lparr>b_dirty := True\<rparr>) s" i, THEN bio_bio, of s]
  by (intro frameI) simp

lemma brelse_frame: "endE (bio_rel s) (brelse i s)"
  unfolding brelse_def releasesleep_def Let_def by (auto intro!: onE_I wakeup_frame split: if_splits)

lemma readsb_frame: "onE snd (bio_rel s) (readsb dev s)"
  unfolding readsb_def Let_def by (intro frameI bread_frame brelse_frame [THEN bio_bio])

lemma rewrite_block_frame: "endE (bio_rel s) (rewrite_block dev b f s)"
  unfolding rewrite_block_def
  by (intro frameI bread_frame bwrite_frame [THEN bio_bio] brelse_frame [THEN bio_bio]) simp

lemma copy_block_frame: "endE (bio_rel s) (copy_block sf dev a c s)"
  unfolding copy_block_def
  by (intro frameI bread_frame bread_frame [THEN bio_bio] bwrite_frame [THEN bio_bio] brelse_frame [THEN bio_bio]) simp_all

lemmas bio_frames = bread_frame bwrite_frame brelse_frame readsb_frame rewrite_block_frame copy_block_frame

section \<open>The log\<close>

lemmas [frameI] = bio_frames [THEN bio_log] bio_frames [THEN bio_fs] bio_frames [THEN bio_con]

lemma install_trans_frame: "endE (log_rel s) (install_trans s)"
  unfolding install_trans_def by (intro frameI)

lemma write_log_frame: "endE (log_rel s) (write_log s)"
  unfolding write_log_def by (intro frameI)

lemma write_head_frame: "log_rel s t \<Longrightarrow> endE (log_rel s) (write_head t)"
  unfolding write_head_def by (intro frameI)

lemma read_head_frame: "endE (log_rel s) (read_head s)"
  unfolding read_head_def Let_def by (intro frameI) simp

lemma recover_frame: "endE (log_rel s) (recover_from_log s)"
  unfolding recover_from_log_def
  by (intro frameI read_head_frame install_trans_frame [THEN log_log] write_head_frame) simp_all

lemma commit_frame: "endE (log_rel s) (commit s)"
  unfolding commit_def by (intro frameI write_log_frame install_trans_frame [THEN log_log] write_head_frame) simp_all

lemma begin_op_frame: "endE (log_rel s) (begin_op s)"
  unfolding begin_op_def by (intro frameI) simp

lemma end_op_frame: "endE (log_rel s) (end_op s)"
  unfolding end_op_def Let_def
  by (intro frameI commit_frame [THEN log_log] wakeup_frame) simp_all

lemma log_write_frame: "endE (log_rel s) (log_write i s)"
  unfolding log_write_def Let_def by (auto intro!: onE_I split: if_splits option.splits)

lemmas log_frames = begin_op_frame end_op_frame log_write_frame

lemmas [frameI] = log_frames [THEN log_log] log_frames [THEN log_fs] log_frames [THEN log_con]


section \<open>Inodes\<close>

lemma bzero_frame: "endE (log_rel s) (bzero dev b s)"
  unfolding bzero_def by (intro frameI) simp_all

lemmas [frameI] = bzero_frame [THEN log_fs]

lemma balloc_from_frame: "fs_rel s t \<Longrightarrow> onE snd (fs_rel s) (balloc_from dev bs t)"
  by (induction bs arbitrary: t) (auto intro!: frameI)

lemma balloc_frame: "onE snd (fs_rel s) (balloc dev s)"
  unfolding balloc_def by (rule balloc_from_frame) simp

lemma bfree_frame: "endE (fs_rel s) (bfree dev b s)"
  unfolding bfree_def Let_def by (intro frameI) simp_all

lemma iget_frame: "onE snd (fs_rel s) (iget dev k s)"
  unfolding iget_def by (intro frameI) simp_all

lemma idup_frame: "fs_rel s (snd (idup i s))"
  by (simp add: idup_def)

lemmas [frameI] = iget_frame [THEN fs_fs] iget_frame [THEN fs_con] balloc_frame [THEN fs_fs] balloc_frame [THEN fs_con]
  bfree_frame [THEN fs_fs]

lemma ialloc_from_frame: "fs_rel s t \<Longrightarrow> onE snd (fs_rel s) (ialloc_from dev ty ks t)"
  by (induction ks arbitrary: t) (auto intro!: frameI)

lemma ialloc_frame: "onE snd (fs_rel s) (ialloc dev ty s)"
  unfolding ialloc_def by (rule ialloc_from_frame) simp

lemma iupdate_frame: "endE (fs_rel s) (iupdate i s)"
  unfolding iupdate_def Let_def by (intro frameI) simp_all

lemma ilock_frame: "endE (fs_rel s) (ilock i s)"
  unfolding ilock_def Let_def by (intro frameI onE_bind_value) simp_all

lemma releasesleep_frame: "fs_rel s t \<Longrightarrow> fs_rel s (snd (releasesleep ch lk t))"
  by (simp add: releasesleep_def wakeup_frame)

lemma iunlock_frame: "endE (fs_rel s) (iunlock i s)"
  unfolding iunlock_def releasesleep_def prod.case by (intro frameI) (simp add: wakeup_frame)

lemmas [frameI] = iupdate_frame [THEN fs_fs] iupdate_frame [THEN fs_con]

lemma bmap_frame: "onE snd (fs_rel s) (bmap i bn s)"
  unfolding bmap_def Let_def by (intro frameI) simp_all

lemma itrunc_frame: "endE (fs_rel s) (itrunc i s)"
  unfolding itrunc_def Let_def by (intro frameI) simp_all

lemmas [frameI] = itrunc_frame [THEN fs_fs]

lemma iput_frame: "endE (fs_rel s) (iput i s)"
  unfolding iput_def Let_def releasesleep_def prod.case
  by (intro onE_bind_value frameI) (simp_all add: wakeup_frame)

lemmas ino_frames = ilock_frame iunlock_frame iput_frame bmap_frame ialloc_frame

lemmas [frameI] = ino_frames [THEN fs_fs] ino_frames [THEN fs_con]

lemma iunlockput_frame: "endE (fs_rel s) (iunlockput i s)"
  unfolding iunlockput_def by (intro frameI) simp_all

lemmas [frameI] = iunlockput_frame [THEN fs_con]


section \<open>Contents, directories and paths\<close>

lemma ustores_pmem: "ustores a bs s = Inr t \<Longrightarrow> \<exists>m. t = s\<lparr>pmem := m\<rparr>"
proof (induction bs arbitrary: a s)
  case Nil
  then show ?case by (auto intro: exI [of _ "pmem s"])
next
  case (Cons b bs)
  then show ?case by (fastforce simp: ustore8_def)
qed

lemma ustores_frame: "con_rel s t \<Longrightarrow> endE (con_rel s) (ustores a bs t)"
  by (rule onE_I) (auto dest: ustores_pmem)

lemma store_at_frame [frameI]: "con_rel s t \<Longrightarrow> endE (con_rel s) (store_at d bs t)"
  unfolding store_at_def by (intro frameI ustores_frame)

lemma cgaputc_frame [frameI]: "con_rel s t \<Longrightarrow> endE (con_rel s) (cgaputc c t)"
  by (rule onE_I) (auto simp: cgaputc_def Let_def split: if_splits)

lemma consputc_frame [frameI]: "con_rel s t \<Longrightarrow> endE (con_rel s) (consputc c t)"
  unfolding consputc_def uartputc_def by (intro frameI) simp_all

lemma consolewrite_frame: "onE snd (con_rel s) (consolewrite ip bs n s)"
  unfolding consolewrite_def by (intro frameI)

lemma consoleread_loop_frame: "con_rel s t \<Longrightarrow> onE thd (con_rel s) (consoleread_loop k n got t)"
  by (induction n arbitrary: got t) (auto intro!: frameI simp: Let_def split: option.split)

lemma consoleread_frame: "onE thd (con_rel s) (consoleread ip dst n s)"
  unfolding consoleread_def by (intro frameI consoleread_loop_frame ustores_frame)

declare readi_loop.simps [simp del] writei_loop.simps [simp del]

lemma chunk_progress: "todo \<noteq> 0 \<Longrightarrow> todo - chunk off todo < todo"
  by (simp add: min_def)

lemma readi_loop_frame: "con_rel s t \<Longrightarrow> onE snd (con_rel s) (readi_loop i dst off todo got t)"
proof (induction todo arbitrary: dst off got t rule: less_induct)
  case (less todo)
  show ?case unfolding readi_loop.simps [of i dst off todo] Let_def
    by (intro frameI less chunk_progress)
qed

lemma readi_frame: "onE thd (con_rel s) (readi i dst off n s)"
proof -
  have loop: "onE thd (con_rel s) (bindE (readi_loop i dst a b [] s) (\<lambda>(bs, t). Inr (c, bs, t)))" for a b c
    by (intro onE_bind_pair [OF readi_loop_frame] onE_Inr) simp_all
  show ?thesis unfolding readi_def Let_def by (intro onE_if onE_Inr consoleread_frame loop) simp_all
qed

lemma writei_loop_frame: "con_rel s t \<Longrightarrow> onE snd (con_rel s) (writei_loop i src off todo t)"
proof (induction todo arbitrary: src off t rule: less_induct)
  case (less todo)
  show ?case unfolding writei_loop.simps [of i src off todo] Let_def
    by (intro frameI onE_bind_value less chunk_progress) simp_all
qed

lemma writei_frame: "onE snd (con_rel s) (writei i src off n s)"
  unfolding writei_def Let_def
  by (intro frameI onE_bind_value consolewrite_frame onE_bind_pair [OF writei_loop_frame]) simp_all

lemmas [frameI] = readi_frame [THEN con_con] writei_frame [THEN con_con]

lemma dirlookup_from_frame: "con_rel s t \<Longrightarrow> onE snd (con_rel s) (dirlookup_from dp name offs t)"
proof (induction offs arbitrary: t)
  case (Cons off offs)
  show ?case unfolding dirlookup_from.simps by (intro frameI Cons)
qed (simp add: frameI)

lemma dirlookup_frame: "onE snd (con_rel s) (dirlookup dp name s)"
  unfolding dirlookup_def by (intro frameI dirlookup_from_frame)

lemma dirlink_slot_frame: "con_rel s t \<Longrightarrow> onE snd (con_rel s) (dirlink_slot dp offs fin t)"
proof (induction offs arbitrary: fin t)
  case (Cons off offs)
  show ?case unfolding dirlink_slot.simps by (intro frameI Cons)
qed (simp add: frameI)

lemma dirlink_frame: "onE snd (con_rel s) (dirlink dp name k s)"
  unfolding dirlink_def by (intro frameI dirlookup_frame dirlink_slot_frame)

lemmas [frameI] = dirlookup_frame [THEN con_con] dirlink_frame [THEN con_con]

lemma namex_loop_frame: "con_rel s t \<Longrightarrow> onE snd (con_rel s) (namex_loop path par name ip t)"
proof (induction "length path" arbitrary: path name ip t rule: less_induct)
  case less
  show ?case
  proof (cases "skipelem path")
    case (Some e)
    then obtain rest elem where e: "skipelem path = Some (rest, elem)" by (cases e) auto
    have ih: "con_rel s t \<Longrightarrow> onE snd (con_rel s) (namex_loop rest par elem nxt t)" for nxt t
      using less(1) skipelem_shorter [OF e] by blast
    show ?thesis unfolding namex_loop.simps [of path] e option.case prod.case
      by (intro frameI less(2)) (auto intro!: frameI ih split: option.split)
  qed (simp add: namex_loop.simps [of path], intro frameI impI conjI less(2))
qed

lemma namex_frame: "onE snd (con_rel s) (namex path par s)"
  unfolding namex_def
  by (auto intro!: frameI namex_loop_frame simp: idup_def split: option.split)

lemma namei_frame: "onE snd (con_rel s) (namei path s)"
  unfolding namei_def by (intro frameI namex_frame)

lemma nameiparent_frame: "onE snd (con_rel s) (nameiparent path s)"
  unfolding nameiparent_def by (rule namex_frame)

lemmas [frameI] = namei_frame [THEN con_con] nameiparent_frame [THEN con_con]

end
