(* ===== verification/Fd_Refs.thy ===== *)
theory Fd_Refs
  imports Syscall Frames
begin

text \<open>
  The reference counts of the open-file table. Between system calls the count of a file is the number of
  descriptors, of all processes, that refer to it, and processes that are unused or dead have none; every
  handler of \<open>Syscall\<close> restores this, on every path. Inside a handler the two can differ, when a new file
  has no descriptor yet or one is closed whose descriptor is still there: \<open>fd_inv e\<close> says that the count of
  file \<open>f\<close> is \<open>e f\<close> more than its descriptors.
\<close>

section \<open>The invariant\<close>

definition refs :: "nat \<Rightarrow> proc list \<Rightarrow> nat" where
  "refs f ps = (\<Sum>p \<leftarrow> ps. count_list (p_ofile p) (Some f))"

definition fds_ok :: "nat \<Rightarrow> proc \<Rightarrow> bool" where
  "fds_ok n p \<longleftrightarrow> length (p_ofile p) = NOFILE \<and> (\<forall>f. Some f \<in> set (p_ofile p) \<longrightarrow> f < n) \<and>
     (p_state p \<in> {UNUSED, ZOMBIE} \<longrightarrow> set (p_ofile p) \<subseteq> {None})"

definition fd_inv :: "(nat \<Rightarrow> int) \<Rightarrow> 'a filest_scheme \<Rightarrow> bool" where
  "fd_inv e s \<longleftrightarrow> (\<forall>p \<in> set (procs s). fds_ok (length (ftable s)) p) \<and> (\<forall>f. e f \<noteq> 0 \<longrightarrow> f < length (ftable s)) \<and>
     (\<forall>f < length (ftable s). f_ref (ftable s ! f) = int (refs f (procs s)) + e f)"

definition running :: "'a kern_scheme \<Rightarrow> bool" where
  "running s \<longleftrightarrow> (\<exists>c. cur s = Some c \<and> c < length (procs s) \<and> p_state (procs s ! c) = RUNNING)"

definition run_inv :: "(nat \<Rightarrow> int) \<Rightarrow> 'a filest_scheme \<Rightarrow> bool" where
  "run_inv e s \<longleftrightarrow> fd_inv e s \<and> running s"

lemma nth_update_keeps:
  "(\<And>x. g (f x) = g x) \<Longrightarrow> j < length xs \<Longrightarrow> g (xs[i := f (xs ! i)] ! j) = g (xs ! j)"
  by (cases "i = j") auto

text \<open>Changes of a process that do not concern its descriptors.\<close>

definition fd_same :: "proc \<Rightarrow> proc \<Rightarrow> bool" where
  "fd_same p q \<longleftrightarrow> p_ofile q = p_ofile p \<and> (p_state q \<in> {UNUSED, ZOMBIE} \<longrightarrow> p_state p \<in> {UNUSED, ZOMBIE} \<or> set (p_ofile p) \<subseteq> {None})"

lemma refs_same: "list_all2 fd_same ps qs \<Longrightarrow> refs f qs = refs f ps"
  by (induction rule: list_all2_induct) (simp_all add: refs_def fd_same_def)

lemma fd_inv_same:
  assumes "fd_inv e s" "list_all2 fd_same (procs s) (procs t)" "map f_ref (ftable t) = map f_ref (ftable s)"
  shows "fd_inv e t"
proof -
  have len: "length (ftable t) = length (ftable s)" using assms(3) by (metis length_map)
  have r: "f_ref (ftable t ! f) = f_ref (ftable s ! f)" if "f < length (ftable s)" for f
    using that arg_cong [OF assms(3), of "\<lambda>l. l ! f"] len by simp
  have "fds_ok (length (ftable s)) q" if "q \<in> set (procs t)" for q
  proof -
    from that obtain p where "p \<in> set (procs s)" "fd_same p q"
      using assms(2) by (metis list_all2_conv_all_nth in_set_conv_nth)
    with assms(1) show ?thesis by (auto simp: fd_inv_def fds_ok_def fd_same_def)
  qed
  with assms(1) len r refs_same [OF assms(2)] show ?thesis by (simp add: fd_inv_def)
qed

lemma woken_fd_same: "at_most_woken p q \<Longrightarrow> fd_same p q"
  by (auto simp: at_most_woken_def fd_same_def)

lemma calm_running: "calm s t \<Longrightarrow> running s \<Longrightarrow> running t"
  using calm_nth [of s t] by (auto simp: running_def calm_def at_most_woken_def)

lemma con_rel_inv: "con_rel s t \<Longrightarrow> fd_inv e s \<Longrightarrow> fd_inv e (t :: 'a filest_scheme)"
  "con_rel s t \<Longrightarrow> run_inv e s \<Longrightarrow> run_inv e (t :: 'a filest_scheme)"
proof -
  assume r: "con_rel s t"
  then have f: "ftable t = ftable s" by (cases s; cases t) (simp add: con_rel_def)
  from r have c: "calm s t" by (simp add: con_rel_def)
  then have "list_all2 fd_same (procs s) (procs t)"
    unfolding calm_def by (blast intro: list_all2_mono woken_fd_same)
  then show i: "fd_inv e s \<Longrightarrow> fd_inv e t" using f fd_inv_same by metis
  show "run_inv e s \<Longrightarrow> run_inv e t" using i calm_running [OF c] by (simp add: run_inv_def)
qed

lemma con_fd: "onE p (con_rel t) m \<Longrightarrow> run_inv e t \<Longrightarrow> onE p (run_inv e) (m :: 'r res)"
  for t :: "'a filest_scheme"
  by (rule onE_mono) (blast intro: con_rel_inv)+

lemma bio_fd: "onE p (bio_rel t) m \<Longrightarrow> run_inv e t \<Longrightarrow> onE p (run_inv e) (m :: 'r res)"
  for t :: "'a filest_scheme"
  by (rule onE_mono) (blast intro: con_rel_inv rel_up)+

lemma log_fd: "onE p (log_rel t) m \<Longrightarrow> run_inv e t \<Longrightarrow> onE p (run_inv e) (m :: 'r res)"
  for t :: "'a filest_scheme"
  by (rule onE_mono) (blast intro: con_rel_inv rel_up)+

lemma fs_fd: "onE p (fs_rel t) m \<Longrightarrow> run_inv e t \<Longrightarrow> onE p (run_inv e) (m :: 'r res)"
  for t :: "'a filest_scheme"
  by (rule onE_mono) (blast intro: con_rel_inv rel_up)+

lemma mem_only_inv:
  assumes "mem_only s t" "run_inv e s"
  shows "run_inv e (t :: 'a filest_scheme)"
proof -
  from assms(1) have "procs t = procs s" "cur t = cur s" "ftable t = ftable s"
    by (cases s; cases t; simp add: mem_only_def)+
  with assms(2) show ?thesis by (simp add: run_inv_def running_def fd_inv_def)
qed

lemma keeps_fd: "keeps p t m \<Longrightarrow> run_inv e t \<Longrightarrow> onE p (run_inv e) (m :: 'r res)"
  for t :: "'a filest_scheme"
  by (cases m) (auto simp: keeps_def onE_def intro: mem_only_inv)

lemma run_inv_simps [simp]:
  "run_inv e (s\<lparr>pmem := m\<rparr>) = run_inv e s" "run_inv e (s\<lparr>ticks := k\<rparr>) = run_inv e s"
  "run_inv e (s\<lparr>esp0 := w\<rparr>) = run_inv e s" "run_inv e (s\<lparr>cr3 := w\<rparr>) = run_inv e s"
  "run_inv e (upd_pipe p f s) = run_inv e s" "run_inv e (upd_ino i g s) = run_inv e s"
  "run_inv e (cprintf msg s) = run_inv e s" "run_inv e (set_tf tf j w s) = run_inv e s"
  by (simp_all add: run_inv_def running_def fd_inv_def upd_pipe_def upd_ino_def cprintf_def set_tf_def)

lemma fd_inv_upd_proc:
  assumes "fd_inv e s" "fd_same (procs s ! i) (f (procs s ! i))"
  shows "fd_inv e (upd_proc i f s)"
proof (rule fd_inv_same [OF assms(1)])
  show "list_all2 fd_same (procs s) (procs (upd_proc i f s))"
    unfolding list_all2_conv_all_nth upd_proc_def
  proof (intro conjI allI impI)
    fix k assume "k < length (procs s)"
    then show "fd_same (procs s ! k) (procs (s\<lparr>procs := (procs s)[i := f (procs s ! i)]\<rparr>) ! k)"
      using assms(2) by (cases "i = k") (simp_all add: fd_same_def)
  qed simp
qed (simp add: upd_proc_def)

lemma run_inv_upd_proc:
  assumes "run_inv e s" "\<And>p. p_ofile (f p) = p_ofile p" "\<And>p. p_state (f p) = p_state p"
  shows "run_inv e (upd_proc i f s)"
  using assms(1) fd_inv_upd_proc [of e s i f] nth_update_keeps [of p_state f, OF assms(3)]
  by (auto simp: run_inv_def running_def fd_same_def assms(2,3)) (simp add: upd_proc_def)

lemma run_inv_upd_file:
  assumes "run_inv e s" "\<And>p. f_ref (f p) = f_ref p"
  shows "run_inv e (upd_file i f s)"
proof -
  have "map f_ref (ftable (upd_file i f s)) = map f_ref (ftable s)"
    using nth_update_keeps [of f_ref f, OF assms(2)] by (auto simp: upd_file_def list_eq_iff_nth_eq)
  moreover have "procs (upd_file i f s) = procs s" by (simp add: upd_file_def)
  moreover have "list_all2 fd_same ps ps" for ps by (simp add: list_all2_refl fd_same_def)
  ultimately have "fd_inv e (upd_file i f s)" using assms(1) fd_inv_same unfolding run_inv_def by metis
  moreover have "running (upd_file i f s)" using assms(1) by (simp add: run_inv_def running_def upd_file_def)
  ultimately show ?thesis by (simp add: run_inv_def)
qed


section \<open>Descriptors and files\<close>

lemma count_list_update:
  "k < length xs \<Longrightarrow> count_list (xs[k := y]) x + (if xs ! k = x then 1 else 0) = count_list xs x + (if y = x then 1 else 0)"
proof (induction xs arbitrary: k)
  case (Cons a xs)
  then show ?case by (cases k) (auto split: if_splits dest: Cons.IH)
qed simp

lemma refs_update:
  "i < length ps \<Longrightarrow> refs f (ps[i := p]) + count_list (p_ofile (ps ! i)) (Some f) = refs f ps + count_list (p_ofile p) (Some f)"
proof (induction ps arbitrary: i)
  case (Cons q ps)
  show ?case
  proof (cases i)
    case (Suc j)
    then show ?thesis using Cons.IH [of j] Cons.prems by (simp add: refs_def)
  qed (simp add: refs_def)
qed simp

text \<open>Setting one descriptor of process \<open>c\<close>.\<close>

definition set_fd :: "nat \<Rightarrow> nat \<Rightarrow> nat option \<Rightarrow> 'a kern_scheme \<Rightarrow> 'a kern_scheme" where
  "set_fd c fd x s = upd_proc c (\<lambda>p. p\<lparr>p_ofile := (p_ofile p)[fd := x]\<rparr>) s"

lemma refs_set_fd:
  assumes "c < length (procs s)" "fd < length (p_ofile (procs s ! c))"
  shows "refs f (procs (set_fd c fd x s)) + (if p_ofile (procs s ! c) ! fd = Some f then 1 else 0) =
    refs f (procs s) + (if x = Some f then 1 else 0)"
  using refs_update [OF assms(1), of f "(procs s ! c)\<lparr>p_ofile := (p_ofile (procs s ! c))[fd := x]\<rparr>"]
    count_list_update [OF assms(2), of x "Some f"]
  by (simp add: set_fd_def upd_proc_def)

lemma fds_ok_set_fd:
  assumes "\<forall>p \<in> set (procs s). fds_ok n p" "x \<noteq> None \<Longrightarrow> p_state (procs s ! c) \<notin> {UNUSED, ZOMBIE}"
    "\<And>f. x = Some f \<Longrightarrow> f < n"
  shows "\<forall>p \<in> set (procs (set_fd c fd x s)). fds_ok n p"
proof (cases "c < length (procs s)")
  case True
  then have "fds_ok n (procs s ! c)" using assms(1) by simp
  then have "fds_ok n ((procs s ! c)\<lparr>p_ofile := (p_ofile (procs s ! c))[fd := x]\<rparr>)"
    using assms(2,3) set_update_subset_insert [of "p_ofile (procs s ! c)" fd x] by (cases x) (auto simp: fds_ok_def)
  with assms(1) show ?thesis using set_update_subset_insert [of "procs s" c]
    by (auto simp: set_fd_def upd_proc_def)
qed (use assms(1) in \<open>simp add: set_fd_def upd_proc_def list_update_beyond not_less\<close>)

lemma set_fd_simps [simp]:
  "ftable (set_fd c fd x (s :: 'a filest_scheme)) = ftable s" "length (procs (set_fd c fd x s)) = length (procs s)"
  "cur (set_fd c fd x s) = cur s" "running (set_fd c fd x s) = running s"
  by (simp_all add: set_fd_def upd_proc_def running_def)
    (cases "c < length (procs s)"; auto simp: nth_list_update)

lemma put_fd:
  assumes "run_inv e s" "c < length (procs s)" "p_state (procs s ! c) \<notin> {UNUSED, ZOMBIE}" "fd < NOFILE"
    "p_ofile (procs s ! c) ! fd = None" "f < length (ftable s)"
  shows "run_inv (e(f := e f - 1)) (set_fd c fd (Some f) s)"
proof -
  have fd: "fd < length (p_ofile (procs s ! c))"
    using assms(1,2,4) by (simp add: run_inv_def fd_inv_def fds_ok_def)
  have "\<forall>p \<in> set (procs (set_fd c fd (Some f) s)). fds_ok (length (ftable s)) p"
    by (rule fds_ok_set_fd) (use assms in \<open>auto simp: run_inv_def fd_inv_def\<close>)
  moreover have "f_ref (ftable s ! g) = int (refs g (procs (set_fd c fd (Some f) s))) + (e(f := e f - 1)) g"
    if "g < length (ftable s)" for g
    using that assms(1) refs_set_fd [OF assms(2) fd, of g "Some f"] assms(5) by (auto simp: run_inv_def fd_inv_def split: if_splits)
  ultimately show ?thesis using assms(1,6) by (simp add: run_inv_def fd_inv_def)
qed

lemma take_fd:
  assumes "run_inv e s" "c < length (procs s)" "fd < NOFILE" "p_ofile (procs s ! c) ! fd = Some f"
  shows "run_inv (e(f := e f + 1)) (set_fd c fd None s)" "f < length (ftable s)"
proof -
  have ok: "fds_ok (length (ftable s)) (procs s ! c)" using assms(1,2) by (simp add: run_inv_def fd_inv_def)
  then have fd: "fd < length (p_ofile (procs s ! c))" using assms(3) by (simp add: fds_ok_def)
  with assms(4) have "Some f \<in> set (p_ofile (procs s ! c))" by (metis nth_mem)
  with ok show f: "f < length (ftable s)" by (simp add: fds_ok_def)
  moreover have "\<forall>p \<in> set (procs (set_fd c fd None s)). fds_ok (length (ftable s)) p"
    by (rule fds_ok_set_fd) (use assms(1) in \<open>auto simp: run_inv_def fd_inv_def\<close>)
  moreover have "f_ref (ftable s ! g) = int (refs g (procs (set_fd c fd None s))) + (e(f := e f + 1)) g"
    if "g < length (ftable s)" for g
    using that assms(1,4) refs_set_fd [OF assms(2) fd, of g None] by (auto simp: run_inv_def fd_inv_def split: if_splits)
  ultimately show "run_inv (e(f := e f + 1)) (set_fd c fd None s)" using assms(1) by (simp add: run_inv_def fd_inv_def)
qed

text \<open>Changing the count of a file.\<close>

lemma run_inv_ref:
  assumes "run_inv e s" "f < length (ftable s)" "f_ref (h (ftable s ! f)) = f_ref (ftable s ! f) + d"
  shows "run_inv (e(f := e f + d)) (upd_file f h s)"
  using assms by (auto simp: run_inv_def running_def fd_inv_def upd_file_def nth_list_update)

lemma filealloc_inv:
  assumes "run_inv e s" "filealloc s = (Some i, t)"
  shows "run_inv (e(i := e i + 1)) t" "i < length (ftable t)"
proof -
  from assms(2) have i: "i < length (ftable s)" "f_ref (ftable s ! i) = 0" "t = upd_file i (\<lambda>f. f\<lparr>f_ref := 1\<rparr>) s"
    by (auto simp: filealloc_def dest: first_idx_SomeD split: option.splits)
  show "run_inv (e(i := e i + 1)) t" unfolding i(3) by (rule run_inv_ref [OF assms(1) i(1)]) (simp add: i(2))
  show "i < length (ftable t)" using i by (simp add: upd_file_def)
qed

lemma filedup_inv:
  assumes "run_inv e s" "i < length (ftable s)"
  shows "onE snd (run_inv (e(i := e i + 1))) (filedup i s)"
  unfolding filedup_def by (intro frameI run_inv_ref [OF assms]) simp

lemma run_inv_wakeup: "run_inv e s \<Longrightarrow> run_inv e (wakeup ch s)"
  by (rule con_rel_inv(2) [OF wakeup_frame(4) [OF rel_refl(4)]])

lemmas [frameI] = keeps_kfree [OF mem_only_refl, THEN keeps_fd] keeps_freevm [OF mem_only_refl, THEN keeps_fd]
  keeps_allocuvm [OF mem_only_refl, THEN keeps_fd] keeps_deallocuvm [OF mem_only_refl, THEN keeps_fd]
  keeps_setupkvm [OF mem_only_refl, THEN keeps_fd] keeps_clearpteu [OF mem_only_refl, THEN keeps_fd]
  keeps_copyuvm [OF mem_only_refl, THEN keeps_fd]

lemmas [frameI] = bio_frames [THEN bio_fd] log_frames [THEN log_fd] ino_frames [THEN fs_fd] iupdate_frame [THEN fs_fd]
  iunlockput_frame [THEN fs_fd] iget_frame [THEN fs_fd] readi_frame [THEN con_fd] writei_frame [THEN con_fd]
  dirlookup_frame [THEN con_fd] dirlink_frame [THEN con_fd] namei_frame [THEN con_fd] nameiparent_frame [THEN con_fd]

lemma pipeclose_inv [frameI]: "run_inv e s \<Longrightarrow> endE (run_inv e) (pipeclose p w s)"
  unfolding pipeclose_def Let_def by (intro frameI) (simp_all add: run_inv_wakeup)

lemma ftype_frame [frameI]:
  "onE p Q a \<Longrightarrow> onE p Q b \<Longrightarrow> onE p Q c \<Longrightarrow> onE p Q (case x of FD_NONE \<Rightarrow> a | FD_PIPE \<Rightarrow> b | FD_INODE \<Rightarrow> c)"
  by (cases x) auto

lemma fileclose_inv:
  assumes inv: "run_inv e s" and f: "f < length (ftable s)"
  shows "endE (run_inv (e(f := e f - 1))) (fileclose f s)"
proof -
  let ?s = "upd_file f (\<lambda>q. q\<lparr>f_ref := f_ref q - 1\<rparr>) s"
  have s1: "run_inv (e(f := e f - 1)) ?s" using run_inv_ref [OF inv f, of _ "-1"] by simp
  have len: "length (ftable ?s) = length (ftable s)" by (simp add: upd_file_def)
  have "run_inv (e(f := e f - 1)) (upd_file f (\<lambda>q. q\<lparr>f_ref := 0, f_type := FD_NONE\<rparr>) ?s)"
    if "\<not> f_ref (ftable s ! f) < 1" "\<not> 0 < f_ref (ftable ?s ! f)"
    using run_inv_ref [OF s1, of f _ 0] f len that by (simp add: upd_file_def)
  with s1 show ?thesis unfolding fileclose_def Let_def by (intro frameI) auto
qed

section \<open>Reading and writing\<close>

lemma run_fd: "run_inv e s \<Longrightarrow> fd_inv e s"
  by (simp add: run_inv_def)

lemma onE_run_fd: "onE p (run_inv e) m \<Longrightarrow> onE p (fd_inv e) m"
  by (rule onE_mono) (blast intro: run_fd)+

lemma sleep_on_inv: "run_inv e s \<Longrightarrow> endE (fd_inv e) (sleep_on ch s)"
  unfolding sleep_on_def by (intro frameI fd_inv_upd_proc run_fd) (simp_all add: fd_same_def)

lemma ustore8_inv [frameI]: "run_inv e s \<Longrightarrow> endE (run_inv e) (ustore8 a b s)"
  unfolding ustore8_def by (intro onE_bind_value frameI) simp

lemma ustores_inv [frameI]: "run_inv e s \<Longrightarrow> endE (run_inv e) (ustores a bs s)"
  by (induction bs arbitrary: a s) (auto intro!: frameI)

lemma pipewrite_loop_inv: "run_inv e s \<Longrightarrow> onE snd (fd_inv e) (pipewrite_loop p addr n i s)"
proof (induction n arbitrary: addr i s)
  case (Suc n)
  show ?case unfolding pipewrite_loop.simps Let_def
    by (intro onE_if onE_bind_value [of "uload8 _ _"] onE_bind [OF sleep_on_inv] onE_Inr Suc.IH)
      (use Suc.prems in \<open>simp_all add: run_inv_wakeup run_fd\<close>)
qed (simp add: onE_def run_fd run_inv_wakeup)

lemma piperead_loop_inv: "run_inv e s \<Longrightarrow> onE snd (run_inv e) (piperead_loop p addr n i s)"
proof (induction n arbitrary: addr i s)
  case (Suc n)
  show ?case unfolding piperead_loop.simps Let_def by (intro frameI Suc) (use Suc.prems in simp_all)
qed (simp add: onE_def)

lemma piperead_inv: "run_inv e s \<Longrightarrow> onE snd (fd_inv e) (piperead p addr n s)"
  unfolding piperead_def Let_def
  by (intro onE_if onE_bind [OF sleep_on_inv] onE_Inr onE_run_fd [OF onE_bind_pair [OF piperead_loop_inv]])
    (simp_all add: run_fd run_inv_wakeup)

lemma fileread_inv: "run_inv e s \<Longrightarrow> onE snd (fd_inv e) (fileread i addr n s)"
  unfolding fileread_def Let_def
  by (intro onE_if ftype_frame piperead_inv onE_Inr onE_Inl onE_run_fd [OF onE_bind] frameI)
    (simp_all add: run_fd run_inv_upd_file)

lemma write_round_inv [frameI]: "run_inv e s \<Longrightarrow> onE snd (run_inv e) (write_round i addr n s)"
  unfolding write_round_def Let_def by (intro frameI) (simp_all add: run_inv_upd_file)

declare filewrite_loop.simps [simp del]

lemma filewrite_loop_inv: "run_inv e s \<Longrightarrow> onE snd (run_inv e) (filewrite_loop i addr n s)"
proof (induction n arbitrary: addr s rule: less_induct)
  case (less n)
  show ?case unfolding filewrite_loop.simps [of i addr n] Let_def by (intro frameI less) (simp_all add: min_def)
qed

lemma filewrite_inv: "run_inv e s \<Longrightarrow> onE snd (fd_inv e) (filewrite i addr n k s)"
  unfolding filewrite_def Let_def pipewrite_def
  by (intro onE_if ftype_frame pipewrite_loop_inv onE_Inr onE_Inl onE_run_fd [OF onE_bind_pair [OF filewrite_loop_inv]] frameI)
    (simp_all add: run_fd)


section \<open>Handlers without files\<close>

abbreviation none :: "nat \<Rightarrow> int" where "none \<equiv> \<lambda>_. 0"

lemma none_upd [simp]: "(\<lambda>_. c)(f := c) = (\<lambda>_. c)"
  by auto

lemma need_frame [frameI]:
  "Q s \<Longrightarrow> (\<And>x. m s = Inr (Some x) \<Longrightarrow> onE snd Q (f x)) \<Longrightarrow> onE snd Q (need m s f)"
  by (auto simp: need_cases onE_def split: sum.split option.split)

lemma with_proc_frame [frameI]: "(\<And>c. cur s = Some c \<Longrightarrow> onE p Q (f c)) \<Longrightarrow> onE p Q (with_proc f s)"
  by (auto simp: with_proc_def onE_def split: option.split)

lemma finish_frame [frameI]: "onE snd Q m \<Longrightarrow> onE snd Q (finish m)"
  by (cases m) (auto simp: finish_def onE_def)

lemma end_with_inv [frameI]: "run_inv e s \<Longrightarrow> onE snd (run_inv e) (end_with r s)"
  unfolding end_with_def by (intro frameI)

lemma put_end_inv [frameI]: "run_inv e s \<Longrightarrow> onE snd (run_inv e) (put_end ip r s)"
  unfolding put_end_def by (intro frameI)

lemma op_arg_inv [frameI]:
  "run_inv e s \<Longrightarrow> (\<And>x. onE snd (run_inv e) (f x)) \<Longrightarrow> onE snd (run_inv e) (op_arg m s f)"
  unfolding op_arg_def by (intro onE_bind_value frameI) (auto intro!: frameI split: option.split)

lemma kill_inv: "fd_inv e s \<Longrightarrow> fd_inv e (snd (kill pid s))"
  by (auto simp: kill_def fd_same_def split: option.split intro!: fd_inv_upd_proc)

lemma sys_kill_inv: "run_inv e s \<Longrightarrow> onE snd (fd_inv e) (sys_kill s)"
  unfolding sys_kill_def by (intro frameI) (auto simp: onE_def finish_def run_fd kill_inv split_beta)

lemma switchuvm_inv [frameI]: "run_inv e s \<Longrightarrow> endE (run_inv e) (switchuvm po s)"
  unfolding switchuvm_def Let_def by (intro frameI) simp

lemma growproc_inv: "run_inv e s \<Longrightarrow> onE snd (run_inv e) (growproc n s)"
  unfolding growproc_def Let_def by (intro frameI) (auto intro!: frameI run_inv_upd_proc)

lemma sys_sbrk_inv: "run_inv e s \<Longrightarrow> onE snd (run_inv e) (sys_sbrk s)"
  unfolding sys_sbrk_def Let_def by (intro frameI growproc_inv)

lemma sys_sleep_inv: "run_inv e s \<Longrightarrow> onE snd (fd_inv e) (sys_sleep k s)"
  unfolding sys_sleep_def Let_def by (intro need_frame onE_if onE_Inr onE_bind [OF sleep_on_inv]) (simp_all add: run_fd)

lemma sys_settickets_inv: "run_inv e s \<Longrightarrow> onE snd (run_inv e) (sys_settickets s)"
  unfolding sys_settickets_def by (intro frameI run_inv_upd_proc) simp_all

lemma fill_entry_inv [frameI]: "run_inv e s \<Longrightarrow> endE (run_inv e) (fill_entry st i s)"
  unfolding fill_entry_def Let_def ustore32_def by (intro frameI)

lemma sys_getpinfo_inv: "run_inv e s \<Longrightarrow> onE snd (run_inv e) (sys_getpinfo s)"
  unfolding sys_getpinfo_def fill_pstat_def by (intro frameI)

lemma wait_scan_zombie: "wait_scan c i ps k = (Some j, b) \<Longrightarrow> i \<le> j \<and> j - i < length ps \<and> p_state (ps ! (j - i)) = ZOMBIE"
proof (induction ps arbitrary: i k)
  case (Cons p ps)
  then show ?case by (auto split: if_splits simp: Suc_le_eq nth_Cons' Suc_diff_Suc dest!: Cons.IH)
qed simp

lemma wait_pass_inv: "run_inv e s \<Longrightarrow> onE snd (fd_inv e) (wait_pass s)"
proof -
  assume inv: "run_inv e s"
  have reap: "onE snd (fd_inv e)
     (bindE (kfree (p_kstack (procs s ! i)) s) (\<lambda>s.
        let s = upd_proc i (\<lambda>p. p\<lparr>p_kstack := 0\<rparr>) s
        in bindE (freevm (p_pgdir (procs s ! i)) s) (\<lambda>s.
           Inr (r, upd_proc i (\<lambda>p. p\<lparr>p_pid := 0, p_parent := None, p_name := [], p_killed := False, p_state := UNUSED\<rparr>) s))))"
    if z: "i < length (procs s)" "p_state (procs s ! i) = ZOMBIE" for i and r :: "int option"
  proof -
    let ?Q = "\<lambda>t. run_inv e t \<and> i < length (procs t) \<and> p_state (procs t ! i) = ZOMBIE"
    have k: "endE ?Q m" if m: "keeps (\<lambda>t. t) t m" and t: "?Q t" for t m
      using onE_D [OF keeps_fd [OF m conjunct1 [OF t]]] t keepsD [of "\<lambda>t. t" t] m
      by (intro onE_I) (metis mem_only_procs(1))
    have kf: "?Q t \<Longrightarrow> endE ?Q (kfree v t)" "?Q t \<Longrightarrow> endE ?Q (freevm d t)" for v d t
      by (rule k [OF keeps_kfree [OF mem_only_refl]] k [OF keeps_freevm [OF mem_only_refl]]; assumption)+
    have u: "?Q (upd_proc i (\<lambda>p. p\<lparr>p_kstack := 0\<rparr>) t)" if t: "?Q t" for t
      using t run_inv_upd_proc [of e t "\<lambda>p. p\<lparr>p_kstack := 0\<rparr>" i] by simp
    have f: "fd_inv e (upd_proc i (\<lambda>p. p\<lparr>p_pid := 0, p_parent := None, p_name := [], p_killed := False, p_state := UNUSED\<rparr>) t)"
      if t: "?Q t" for t
      by (rule fd_inv_upd_proc) (use t in \<open>simp_all add: run_fd fd_same_def\<close>)
    show ?thesis unfolding Let_def
      by (intro onE_then [where Q = ?Q] kf u) (use inv z f in \<open>auto simp: onE_def\<close>)
  qed
  show ?thesis unfolding wait_pass_def Let_def [of "p_pid _"]
    using wait_scan_zombie inv
    by (auto split: option.split prod.split if_splits intro!: frameI reap onE_bind [OF sleep_on_inv] simp: onE_def [of _ _ "Inr _"] run_fd)
      (use wait_scan_zombie in fastforce)+
qed


section \<open>Handlers with files\<close>

lemma argfdD:
  assumes "argfd n s = Inr (Some (fd, f))"
  shows "\<exists>c. cur s = Some c \<and> fd < NOFILE \<and> p_ofile (procs s ! c) ! fd = Some f"
  using assms by (auto simp: argfd_def with_proc_def Let_def nat_less_iff split: option.splits if_splits)

lemma running_cur: "run_inv e s \<Longrightarrow> cur s = Some c \<Longrightarrow> c < length (procs s) \<and> p_state (procs s ! c) = RUNNING"
  by (auto simp: run_inv_def running_def)

lemma argfd_file: "run_inv e s \<Longrightarrow> argfd n s = Inr (Some (fd, f)) \<Longrightarrow> f < length (ftable s)"
  using argfdD [of n s fd f] running_cur take_fd(2) by metis

lemma fdalloc_then:
  assumes inv: "run_inv e s" and f: "f < length (ftable s)"
    and full: "onE p Q (a s)"
    and got: "\<And>c fd. run_inv (e(f := e f - 1)) (set_fd c fd (Some f) s) \<Longrightarrow> cur s = Some c \<Longrightarrow> fd < NOFILE \<Longrightarrow>
      p_ofile (procs (set_fd c fd (Some f) s) ! c) ! fd = Some f \<Longrightarrow> onE p Q (b fd (set_fd c fd (Some f) s))"
  shows "onE p Q (bindE (fdalloc f s) (\<lambda>(r, s). case r of None \<Rightarrow> a s | Some fd \<Rightarrow> b fd s))"
proof (cases "cur s")
  case (Some c)
  note c = running_cur [OF inv Some]
  show ?thesis
  proof (cases "first_idx (\<lambda>x. x = None) (p_ofile (procs s ! c))")
    case None
    with Some full show ?thesis by (simp add: fdalloc_def with_proc_def)
  next
    case fd: (Some fd)
    have len: "length (p_ofile (procs s ! c)) = NOFILE" using inv c by (simp add: run_inv_def fd_inv_def fds_ok_def)
    have "fd < NOFILE" using first_idx_SomeD(1) [OF fd] len by simp
    moreover have "p_ofile (procs (set_fd c fd (Some f) s) ! c) ! fd = Some f"
      using c len \<open>fd < NOFILE\<close> by (simp add: set_fd_def)
    moreover have "run_inv (e(f := e f - 1)) (set_fd c fd (Some f) s)"
      by (rule put_fd) (use inv c f first_idx_SomeD(2) [OF fd] \<open>fd < NOFILE\<close> in auto)
    ultimately show ?thesis using got [OF _ Some] Some fd by (simp add: fdalloc_def with_proc_def set_fd_def)
  qed
qed (simp add: fdalloc_def with_proc_def frameI)

lemma sys_dup_inv: "run_inv none s \<Longrightarrow> onE snd (run_inv none) (sys_dup s)" for s :: "'a filest_scheme"
  unfolding sys_dup_def
proof (intro need_frame, assumption, clarify)
  fix fd f
  assume inv: "run_inv none s" and arg: "argfd 0 s = Inr (Some (fd, f))"
  note f = argfd_file [OF inv arg]
  have "onE snd (run_inv none) (bindE (filedup f t) (\<lambda>(_, s). Inr (Finished (int k), s)))"
    if "run_inv (none(f := none f - 1)) t" "f < length (ftable t)" for t :: "'a filest_scheme" and k
    using filedup_inv [OF that] by (intro onE_bind_pair onE_Inr) simp_all
  then show "onE snd (run_inv none) (bindE (fdalloc f s) (\<lambda>(r, s). case r of None \<Rightarrow> Inr (Finished (-1), s)
      | Some fd \<Rightarrow> bindE (filedup f s) (\<lambda>(_, s). Inr (Finished (int fd), s))))"
    using f by (intro fdalloc_then [OF inv] onE_Inr inv) simp_all
qed

lemma clear_fd_then:
  assumes "run_inv e s" "cur s = Some c" "fd < NOFILE" "p_ofile (procs s ! c) ! fd = Some f"
    "\<And>t. run_inv (e(f := e f + 1)) t \<Longrightarrow> ftable t = ftable s \<Longrightarrow> onE p Q (b t)"
  shows "onE p Q (bindE (clear_fd fd s) b)"
proof -
  have "clear_fd fd s = Inr (set_fd c fd None s)" using assms(2) by (simp add: clear_fd_def with_proc_def set_fd_def)
  moreover have "c < length (procs s)" using running_cur [OF assms(1,2)] by simp
  ultimately show ?thesis using assms(5) take_fd(1) [OF assms(1) _ assms(3,4)] by simp
qed

lemma sys_close_inv: "run_inv none s \<Longrightarrow> onE snd (run_inv none) (sys_close s)"
  unfolding sys_close_def
proof (intro need_frame, assumption, clarify)
  fix fd f
  assume inv: "run_inv none s" and arg: "argfd 0 s = Inr (Some (fd, f))"
  note f = argfd_file [OF inv arg]
  obtain c where c: "cur s = Some c" "fd < NOFILE" "p_ofile (procs s ! c) ! fd = Some f" using argfdD [OF arg] by auto
  have "onE snd (run_inv none) (bindE (fileclose f t) (\<lambda>s. Inr (Finished 0, s)))"
    if "run_inv (none(f := none f + 1)) t" "ftable t = ftable s" for t
    using fileclose_inv [OF that(1), of f] f that(2) by (intro onE_bind onE_Inr) simp_all
  then show "onE snd (run_inv none) (bindE (clear_fd fd s) (\<lambda>s. bindE (fileclose f s) (\<lambda>s. Inr (Finished 0, s))))"
    by (rule clear_fd_then [OF inv c])
qed

lemma sys_read_inv: "run_inv e s \<Longrightarrow> onE snd (fd_inv e) (sys_read s)"
  unfolding sys_read_def by (intro need_frame onE_prod fileread_inv) (simp_all add: run_fd)

lemma sys_write_inv: "run_inv e s \<Longrightarrow> onE snd (fd_inv e) (sys_write k s)"
  unfolding sys_write_def by (intro need_frame onE_prod filewrite_inv) (simp_all add: run_fd)

lemma put_stat_inv [frameI]: "run_inv e s \<Longrightarrow> endE (run_inv e) (put_stat a st s)"
  unfolding put_stat_def by (intro frameI)

lemma sys_fstat_inv: "run_inv e s \<Longrightarrow> onE snd (run_inv e) (sys_fstat s)"
  unfolding sys_fstat_def filestat_def Let_def by (intro frameI)

lemma link_bad_inv [frameI]: "run_inv e s \<Longrightarrow> onE snd (run_inv e) (link_bad ip s)"
  unfolding link_bad_def by (intro frameI) simp_all

lemma sys_link_inv: "run_inv e s \<Longrightarrow> onE snd (run_inv e) (sys_link s)"
  unfolding sys_link_def by (intro frameI) simp_all

lemma isdirempty_from_frame: "con_rel s t \<Longrightarrow> onE snd (con_rel s) (isdirempty_from dp offs t)"
proof (induction offs arbitrary: t)
  case (Cons off offs)
  show ?case unfolding isdirempty_from.simps by (intro frameI Cons)
qed (simp add: frameI)

lemma isdirempty_frame: "onE snd (con_rel s) (isdirempty dp s)"
  unfolding isdirempty_def by (rule isdirempty_from_frame) simp

lemmas [frameI] = isdirempty_frame [THEN con_fd]

lemma sys_unlink_inv: "run_inv e s \<Longrightarrow> onE snd (run_inv e) (sys_unlink s)"
  unfolding sys_unlink_def by (intro frameI) simp_all

lemma create_inv [frameI]: "run_inv e s \<Longrightarrow> onE snd (run_inv e) (create path ty major minor s)"
  unfolding create_def by (intro frameI) simp_all


lemma upd_undo [simp]: "e(f := e f + k, f := e f) = (e :: nat \<Rightarrow> int)"
  by auto

lemma filealloc_none: "filealloc s = (None, t) \<Longrightarrow> t = s"
  by (simp add: filealloc_def split: option.splits)

lemma open_fd_inv [frameI]: "run_inv e s \<Longrightarrow> onE snd (run_inv e) (open_fd ip omode s)"
  for s :: "'a filest_scheme"
proof -
  assume inv: "run_inv e s"
  obtain r t where r: "filealloc s = (r, t)" by (cases "filealloc s") auto
  show ?thesis
  proof (cases r)
    case None
    with r filealloc_none inv show ?thesis unfolding open_fd_def by (auto intro!: frameI)
  next
    case (Some f)
    note f = filealloc_inv [OF inv r [unfolded Some]]
    have close: "onE snd (run_inv e) (bindE (fileclose f t) (put_end ip (-1)))"
      using fileclose_inv [OF f] by (intro frameI) simp
    have go_on: "onE snd (run_inv e) (bindE (iunlock ip u) (\<lambda>s. bindE (end_op s) (\<lambda>s.
        Inr (Finished (int fd), upd_file f (\<lambda>q. q\<lparr>f_type := FD_INODE, f_ip := ip, f_off := 0,
          f_readable := (omode AND O_WRONLY = 0),
          f_writable := (omode AND O_WRONLY \<noteq> 0 \<or> omode AND O_RDWR \<noteq> 0)\<rparr>) s))))"
      if "run_inv e u" for u :: "'a filest_scheme" and fd
      using that by (intro frameI) (simp_all add: run_inv_upd_file)
    show ?thesis unfolding open_fd_def r Some prod.case option.case
      by (intro fdalloc_then [OF f] close go_on) simp
  qed
qed

lemma sys_open_inv: "run_inv e s \<Longrightarrow> onE snd (run_inv e) (sys_open s)"
  unfolding sys_open_def by (intro frameI) simp_all

lemma make_node_inv [frameI]: "run_inv e s \<Longrightarrow> onE snd (run_inv e) (make_node path ty ma mi s)"
  unfolding make_node_def by (intro frameI)

lemma sys_mkdir_inv: "run_inv e s \<Longrightarrow> onE snd (run_inv e) (sys_mkdir s)"
  unfolding sys_mkdir_def by (intro frameI)

lemma sys_mknod_inv: "run_inv e s \<Longrightarrow> onE snd (run_inv e) (sys_mknod s)"
  unfolding sys_mknod_def by (intro frameI)

lemma sys_chdir_inv: "run_inv e s \<Longrightarrow> onE snd (run_inv e) (sys_chdir s)"
  unfolding sys_chdir_def by (intro frameI run_inv_upd_proc) simp_all

section \<open>Pipes\<close>

lemma kalloc_inv: "kalloc s = (p, t) \<Longrightarrow> run_inv e s \<Longrightarrow> run_inv e t \<and> ftable t = ftable s" for s :: "'a filest_scheme"
proof -
  assume k: "kalloc s = (p, t)" and inv: "run_inv e s"
  have m: "mem_only s t" using k by (auto simp: kalloc_def Let_def mem_only_def split: if_splits)
  then have "ftable t = ftable s" by (cases s; cases t; simp add: mem_only_def)
  with mem_only_inv [OF m inv] show ?thesis by simp
qed

lemma fileclose_held: "run_inv e s \<Longrightarrow> e f \<noteq> 0 \<Longrightarrow> endE (run_inv (e(f := e f - 1))) (fileclose f s)"
  by (rule fileclose_inv) (auto simp: run_inv_def fd_inv_def)

text \<open>Two new files, and giving them up.\<close>

definition two :: "nat \<Rightarrow> nat \<Rightarrow> nat \<Rightarrow> int" where
  "two r w = none(r := 1, w := (none(r := 1)) w + 1)"

lemma two_close: "(two r w)(r := two r w r - 1) = none(w := 1)"
  by (auto simp: two_def fun_eq_iff)

lemma close_both: "run_inv (two r w) s \<Longrightarrow> onE snd (run_inv none)
    (bindE (fileclose r s) (\<lambda>s. bindE (fileclose w s) (\<lambda>s. Inr (x, s))))" for s :: "'a filest_scheme"
proof (rule onE_then)
  assume "run_inv (two r w) s"
  then show "endE (run_inv (none(w := 1))) (fileclose r s)"
    using fileclose_held [of "two r w" s r, unfolded two_close] by (simp add: two_def)
next
  fix t :: "'a filest_scheme" assume "run_inv (none(w := 1)) t"
  then have "endE (run_inv none) (fileclose w t)" using fileclose_held [of "none(w := 1)" t w] by simp
  then show "onE snd (run_inv none) (bindE (fileclose w t) (\<lambda>s. Inr (x, s)))" by (intro onE_then onE_Inr)
qed

lemma pipealloc_inv:
  assumes inv: "run_inv none s" and run: "pipealloc s = Inr (r, t)"
  shows "case r of None \<Rightarrow> run_inv none t | Some (f0, f1) \<Rightarrow> run_inv (two f0 f1) t"
proof -
  obtain r0 s0 where r0: "filealloc s = (r0, s0)" by (cases "filealloc s") auto
  show ?thesis
  proof (cases r0)
    case None
    with r0 run filealloc_none [of s s0] inv show ?thesis by (auto simp: pipealloc_def)
  next
    case (Some f0)
    have i0: "run_inv (none(f0 := 1)) s0" using filealloc_inv(1) [OF inv r0 [unfolded Some]] by simp
    obtain r1 s1 where r1: "filealloc s0 = (r1, s1)" by (cases "filealloc s0") auto
    show ?thesis
    proof (cases r1)
      case None
      then have "s1 = s0" using r1 filealloc_none by auto
      with None Some r0 r1 run obtain u where "fileclose f0 s0 = Inr u" "r = None" "t = u" by (auto simp: pipealloc_def)
      with onE_D [OF fileclose_held [OF i0, of f0], of u] show ?thesis by simp
    next
      case r1s: (Some f1)
      have i1: "run_inv (two f0 f1) s1" using filealloc_inv(1) [OF i0 r1 [unfolded r1s]] by (simp add: two_def)
      obtain p s2 where p: "kalloc s1 = (p, s2)" by (cases "kalloc s1") auto
      have i2: "run_inv (two f0 f1) s2" using kalloc_inv [OF p i1] by simp
      show ?thesis
      proof (cases "p = 0")
        case True
        with Some r0 r1 r1s p run have "bindE (fileclose f0 s2) (\<lambda>s. bindE (fileclose f1 s) (\<lambda>s. Inr (None, s))) = Inr (r, t)"
          by (simp add: pipealloc_def)
        with onE_D [OF close_both [OF i2, of None]] show ?thesis by fastforce
      next
        case False
        with Some r0 r1 r1s p run i2 show ?thesis
          by (auto simp: pipealloc_def Let_def intro!: run_inv_upd_file)
      qed
    qed
  qed
qed

lemma sys_pipe_inv: "run_inv none s \<Longrightarrow> onE snd (run_inv none) (sys_pipe s)" for s :: "'a filest_scheme"
  unfolding sys_pipe_def
proof (intro need_frame, assumption, intro onE_bind_value onE_prod)
  fix fd x r and t :: "'a filest_scheme"
  assume inv: "run_inv none s" and "pipealloc s = Inr x" "x = (r, t)"
  then have p: "case r of None \<Rightarrow> run_inv none t | Some (f0, f1) \<Rightarrow> run_inv (two f0 f1) t"
    using pipealloc_inv by blast
  show "onE snd (run_inv none)
     (case r of None \<Rightarrow> Inr (Finished (-1), t)
      | Some (rfile, wfile) \<Rightarrow>
        let bad = (\<lambda>s. bindE (fileclose rfile s) (\<lambda>s. bindE (fileclose wfile s) (\<lambda>s. Inr (Finished (-1), s))))
        in bindE (fdalloc rfile t) (\<lambda>(r, s).
             case r of None \<Rightarrow> bad s
             | Some fd0 \<Rightarrow>
               bindE (fdalloc wfile s) (\<lambda>(r, s).
                 case r of None \<Rightarrow> bindE (clear_fd fd0 s) bad
                 | Some fd1 \<Rightarrow>
                   bindE (ustore32 fd (of_nat fd0) s) (\<lambda>s. bindE (ustore32 (fd + 4) (of_nat fd1) s) (\<lambda>s.
                     Inr (Finished 0, s))))))"
  proof (cases r)
    case None
    with p show ?thesis by (simp add: onE_def)
  next
    case (Some fs)
    obtain f0 f1 where fs: "fs = (f0, f1)" by (cases fs)
    have i: "run_inv (two f0 f1) t" using p Some fs by simp
    then have len: "f0 < length (ftable t)" "f1 < length (ftable t)"
      by (auto simp: run_inv_def fd_inv_def two_def split: if_splits)
    have clear: "onE snd (run_inv none) (bindE (clear_fd fd0 u) (\<lambda>s.
        bindE (fileclose f0 s) (\<lambda>s. bindE (fileclose f1 s) (\<lambda>s. Inr (Finished (-1), s)))))"
      if u: "run_inv ((two f0 f1)(f0 := two f0 f1 f0 - 1)) u" "cur u = Some c" "fd0 < NOFILE"
        "p_ofile (procs u ! c) ! fd0 = Some f0" for u :: "'a filest_scheme" and c fd0
    proof (rule clear_fd_then [OF u])
      fix v assume "run_inv (((two f0 f1)(f0 := two f0 f1 f0 - 1))(f0 := ((two f0 f1)(f0 := two f0 f1 f0 - 1)) f0 + 1)) v"
      then show "onE snd (run_inv none) (bindE (fileclose f0 v) (\<lambda>s. bindE (fileclose f1 s) (\<lambda>s. Inr (Finished (-1), s))))"
        by (intro close_both) simp
    qed
    have e: "((two f0 f1)(f0 := two f0 f1 f0 - 1))(f1 := ((two f0 f1)(f0 := two f0 f1 f0 - 1)) f1 - 1) = none"
      unfolding two_close by auto
    show ?thesis unfolding Some fs option.case prod.case Let_def ustore32_def
    proof (intro fdalloc_then [OF i len(1)] close_both i fdalloc_then)
      fix c fd
      let ?u = "set_fd c fd (Some f0) t"
      assume u: "run_inv ((two f0 f1)(f0 := two f0 f1 f0 - 1)) ?u"
        "cur t = Some c" "fd < NOFILE" "p_ofile (procs ?u ! c) ! fd = Some f0"
      show "run_inv ((two f0 f1)(f0 := two f0 f1 f0 - 1)) ?u" by (rule u)
      show "f1 < length (ftable ?u)" using len by simp
      show "onE snd (run_inv none) (bindE (clear_fd fd ?u) (\<lambda>s.
        bindE (fileclose f0 s) (\<lambda>s. bindE (fileclose f1 s) (\<lambda>s. Inr (Finished (-1), s)))))"
        by (rule clear [OF u(1) _ u(3,4)]) (simp add: u(2))
    qed (unfold e, intro frameI)
  qed
qed


section \<open>Exec\<close>

lemma loaduvm_loop_inv: "run_inv e s \<Longrightarrow> onE snd (run_inv e) (loaduvm_loop d a ip off sz ks s)" for s :: "'a filest_scheme"
proof (induction ks arbitrary: s)
  case (Cons k ks)
  show ?case unfolding loaduvm_loop.simps Let_def by (intro frameI Cons)
qed (simp add: onE_def)

lemma loaduvm_inv [frameI]: "run_inv e s \<Longrightarrow> onE snd (run_inv e) (loaduvm d a ip off sz s)" for s :: "'a filest_scheme"
  unfolding loaduvm_def by (intro frameI loaduvm_loop_inv)

lemma load_segments_inv [frameI]: "run_inv e s \<Longrightarrow> onE snd (run_inv e) (load_segments ip d n off sz s)" for s :: "'a filest_scheme"
proof (induction n arbitrary: off sz s)
  case (Suc n)
  show ?case unfolding load_segments.simps Let_def by (intro frameI Suc)
qed (simp add: onE_def)

declare copyout_bytes.simps [simp del]

lemma copyout_bytes_inv [frameI]: "run_inv e s \<Longrightarrow> onE snd (run_inv e) (copyout_bytes d va bs s)" for s :: "'a filest_scheme"
proof (induction "length bs" arbitrary: va bs s rule: less_induct)
  case less
  have "length (drop (min (4096 - unat (va - PGROUNDDOWN va)) (length bs)) bs) < length bs" if "bs \<noteq> []"
    using that page_offset [of va] by (simp add: min_def)
  then show ?case unfolding copyout_bytes.simps [of d va bs] Let_def
    by (intro onE_if onE_Inr onE_bind_value less) (use less(2) in simp_all)
qed

lemma push_args_inv [frameI]: "run_inv e s \<Longrightarrow> onE snd (run_inv e) (push_args d k args sp us s)" for s :: "'a filest_scheme"
proof (induction args arbitrary: k sp us s)
  case (Cons a args)
  show ?case unfolding push_args.simps Let_def by (intro frameI Cons)
qed (simp add: onE_def)

lemma exec_bad_inv [frameI]: "run_inv e s \<Longrightarrow> onE snd (run_inv e) (exec_bad d ipo s)"
  unfolding exec_bad_def by (intro frameI)

lemma exec_stack_inv [frameI]: "run_inv e s \<Longrightarrow> onE snd (run_inv e) (exec_stack c path argv entry d sz s)"
  unfolding exec_stack_def Let_def by (intro frameI) (simp_all add: run_inv_upd_proc)

lemma sys_exec_inv: "run_inv e s \<Longrightarrow> onE snd (run_inv e) (sys_exec s)"
  unfolding sys_exec_def exec_def by (intro frameI) simp_all

end
