(* ===== verification/Proc_Refs.thy ===== *)
theory Proc_Refs
  imports Fd_Refs
begin

text \<open>
  The count of a file (\<open>Fd_Refs\<close>) across the calls that create and end a process, and across every
  system call: \<open>fork\<close> shares its parent's descriptors one by one with a process that has none yet,
  \<open>exit\<close> gives each descriptor back before the process becomes a zombie.
\<close>

section \<open>Fork\<close>

lemma set_fd_new:
  assumes "run_inv e s" "np < length (procs s)" "p_state (procs s ! np) = EMBRYO" "fd < NOFILE"
    "p_ofile (procs s ! np) ! fd = None" "f < length (ftable s)"
  shows "run_inv (e(f := e f - 1)) (set_fd np fd (Some f) s)"
  by (rule put_fd) (use assms in auto)

text \<open>A new process \<open>np\<close> of which only the descriptors outside \<open>fds\<close> may be set.\<close>

definition newborn :: "nat \<Rightarrow> nat \<Rightarrow> nat set \<Rightarrow> 'a filest_scheme \<Rightarrow> bool" where
  "newborn c np fds s \<longleftrightarrow> run_inv none s \<and> cur s = Some c \<and> np \<noteq> c \<and> np < length (procs s) \<and>
     p_state (procs s ! np) = EMBRYO \<and> (\<forall>fd \<in> fds. fd < NOFILE \<and> p_ofile (procs s ! np) ! fd = None)"

lemma dup_file_inv:
  assumes new: "newborn c np (insert fd fds) s" and fd: "fd \<notin> fds"
  shows "endE (newborn c np fds) (dup_file c np fd s)"
proof (cases "p_ofile (procs s ! c) ! fd")
  case None
  with new show ?thesis by (simp add: dup_file_def onE_def newborn_def)
next
  case (Some f)
  from new have n: "run_inv none s" "cur s = Some c" "np \<noteq> c" "np < length (procs s)" "p_state (procs s ! np) = EMBRYO"
    "fd < NOFILE" "p_ofile (procs s ! np) ! fd = None" by (auto simp: newborn_def)
  have c: "c < length (procs s)" using running_cur [OF n(1,2)] by simp
  note f = take_fd(2) [OF n(1) c n(6) Some]
  show ?thesis
  proof (rule onE_I)
    fix t assume "dup_file c np fd s = Inr t"
    then obtain u where u: "filedup f s = Inr (f, u)" "t = set_fd np fd (Some f) u"
      using Some by (auto simp: dup_file_def filedup_def set_fd_def split: if_splits)
    have i: "run_inv (none(f := 1)) u" using onE_D [OF filedup_inv [OF n(1) f] u(1)] by simp
    have k: "procs u = procs s" "cur u = cur s" "length (ftable u) = length (ftable s)"
      using u(1) by (auto simp: filedup_def upd_file_def split: if_splits)
    have "run_inv ((none(f := 1))(f := (none(f := 1)) f - 1)) t" unfolding u(2)
      by (rule set_fd_new [OF i]) (use n f k in simp_all)
    then show "newborn c np fds t" using new fd k unfolding u(2) newborn_def
      by (auto simp: set_fd_def) (metis nth_list_update_neq)
  qed
qed

lemma dup_files_inv: "newborn c np (set fds) s \<Longrightarrow> distinct fds \<Longrightarrow> endE (newborn c np {}) (foldE (dup_file c np) fds s)"
proof (induction fds arbitrary: s)
  case (Cons fd fds)
  then have "endE (newborn c np (set fds)) (dup_file c np fd s)" by (intro dup_file_inv) simp_all
  then show ?case unfolding foldE.simps by (rule onE_then) (use Cons in simp)
qed (simp add: onE_def)

lemma dup_all: "newborn c np {..<NOFILE} s \<Longrightarrow> endE (newborn c np {}) (foldE (dup_file c np) [0..<NOFILE] s)"
  using dup_files_inv [of c np "[0..<NOFILE]" s] by (simp add: lessThan_atLeast0 del: upt_Suc upt_rec_numeral)

lemma run_inv_other:
  assumes "run_inv e s" "cur s = Some c" "i \<noteq> c" "fd_same (procs s ! i) (f (procs s ! i))"
  shows "run_inv e (upd_proc i f s)"
  using assms fd_inv_upd_proc [of e s i f] running_cur [OF assms(1,2)] by (simp add: run_inv_def running_def)

lemma run_inv_pid [simp]: "run_inv e (s\<lparr>nextpid := k\<rparr>) = run_inv e s"
  by (simp add: run_inv_def running_def fd_inv_def)

lemma newborn_upd:
  "newborn c np fds s \<Longrightarrow> (\<And>p. p_ofile (f p) = p_ofile p) \<Longrightarrow> (\<And>p. p_state (f p) = p_state p) \<Longrightarrow> newborn c np fds (upd_proc np f s)"
  by (auto simp: newborn_def run_inv_upd_proc)

lemma newborn_simps [simp]:
  "newborn c np fds (s\<lparr>pmem := m\<rparr>) = newborn c np fds s" "newborn c np fds (set_tf tf j w s) = newborn c np fds s"
  "newborn c np fds (upd_ino i g s) = newborn c np fds s" "newborn c np fds (s\<lparr>nextpid := k\<rparr>) = newborn c np fds s"
  by (simp_all add: newborn_def run_inv_def running_def fd_inv_def set_tf_def upd_ino_def)

lemma newborn_mem_only: "mem_only s t \<Longrightarrow> newborn c np fds s \<Longrightarrow> newborn c np fds (t :: 'a filest_scheme)"
  using mem_only_inv [of s t none] by (auto simp: newborn_def mem_only_procs)

lemma keeps_new: "keeps p s m \<Longrightarrow> newborn c np fds s \<Longrightarrow> onE p (newborn c np fds) m" for s :: "'a filest_scheme"
  by (cases m) (auto simp: keeps_def onE_def intro: newborn_mem_only)

lemma newborn_empty: "newborn c np {..<NOFILE} s \<Longrightarrow> set (p_ofile (procs s ! np)) \<subseteq> {None}"
proof -
  assume n: "newborn c np {..<NOFILE} s"
  then have "length (p_ofile (procs s ! np)) = NOFILE" by (auto simp: newborn_def run_inv_def fd_inv_def fds_ok_def)
  with n show ?thesis by (auto simp: newborn_def in_set_conv_nth)
qed

lemma newborn_unused:
  assumes "newborn c np {..<NOFILE} s" "\<And>p. p_ofile (f p) = p_ofile p"
  shows "run_inv none (upd_proc np f s)"
  using assms newborn_empty [OF assms(1)] by (intro run_inv_other [of none s c]) (auto simp: newborn_def fd_same_def)

lemma kalloc_mem_only: "kalloc s = (k, t) \<Longrightarrow> mem_only s t"
  by (auto simp: kalloc_def Let_def mem_only_def split: if_splits)

lemma allocproc_inv:
  assumes inv: "run_inv none s" "cur s = Some c" and run: "allocproc s = (r, t)"
  shows "case r of None \<Rightarrow> run_inv none t | Some np \<Rightarrow> newborn c np {..<NOFILE} t"
proof (cases "first_idx (\<lambda>p. p_state p = UNUSED) (procs s)")
  case None
  with run inv show ?thesis by (auto simp: allocproc_def)
next
  case (Some i)
  note i = first_idx_SomeD(1,2) [OF Some]
  have ic: "i \<noteq> c" using running_cur [OF inv] i by auto
  have ok: "fds_ok (length (ftable s)) (procs s ! i)" using inv(1) i by (simp add: run_inv_def fd_inv_def)
  let ?f = "\<lambda>p. p\<lparr>p_state := EMBRYO, p_pid := nextpid s, p_tickets := 1, p_ticksAcc := 0, p_inuse := 0\<rparr>"
  let ?s = "(upd_proc i ?f s)\<lparr>nextpid := nextpid s + 1\<rparr>"
  have "run_inv none (upd_proc i ?f s)" by (rule run_inv_other [OF inv ic]) (simp add: fd_same_def)
  moreover have "p_ofile (procs s ! i) ! fd = None" if "fd < NOFILE" for fd
    using ok i that by (simp add: fds_ok_def) (metis (no_types, lifting) nth_mem singletonD subsetD)
  ultimately have n: "newborn c i {..<NOFILE} ?s" using inv ic i by (auto simp: newborn_def)
  obtain k u where k: "kalloc ?s = (k, u)" by (cases "kalloc ?s") auto
  have "newborn c i {..<NOFILE} u" using newborn_mem_only [OF kalloc_mem_only [OF k] n] .
  then have v: "newborn c i {..<NOFILE} (upd_proc i (\<lambda>p. p\<lparr>p_kstack := k\<rparr>) u)" by (rule newborn_upd) simp_all
  show ?thesis
  proof (cases "k = 0")
    case True
    with run Some k have "r = None" "t = upd_proc i (\<lambda>p. p\<lparr>p_state := UNUSED\<rparr>) (upd_proc i (\<lambda>p. p\<lparr>p_kstack := k\<rparr>) u)"
      by (simp_all add: allocproc_def Let_def)
    with newborn_unused [OF v, of "\<lambda>p. p\<lparr>p_state := UNUSED\<rparr>"] show ?thesis by simp
  next
    case False
    have r: "r = Some i" using run Some k False by (auto simp: allocproc_def Let_def)
    have "newborn c i {..<NOFILE} t"
      using run Some k v False by (auto simp: allocproc_def Let_def intro!: newborn_upd)
    with r show ?thesis by simp
  qed
qed

lemma born_runnable: "newborn c np {} v \<Longrightarrow> run_inv none (upd_proc np (\<lambda>p. p\<lparr>p_state := RUNNABLE\<rparr>) v)"
  by (intro run_inv_other [of none v c]) (auto simp: newborn_def fd_same_def)

lemma fork_inv: "run_inv none s \<Longrightarrow> onE snd (run_inv none) (fork s)" for s :: "'a filest_scheme"
proof -
  assume inv: "run_inv none s"
  then obtain c where c: "cur s = Some c" by (auto simp: run_inv_def running_def)
  obtain r t where r: "allocproc s = (r, t)" by (cases "allocproc s") auto
  note new = allocproc_inv [OF inv c r]
  show ?thesis
  proof (cases r)
    case None
    with c r new show ?thesis by (simp add: fork_def onE_def)
  next
    case (Some np)
    with new have n: "newborn c np {..<NOFILE} t" by simp
    show ?thesis unfolding fork_def c r Some option.case prod.case Let_def
    proof (rule onE_then_pair [where Q = "newborn c np {..<NOFILE}"], goal_cases)
      case 1
      show ?case by (rule keeps_new [OF keeps_copyuvm [OF mem_only_refl] n])
    next
      case (2 d u)
      then have u: "newborn c np {..<NOFILE} (upd_proc np (\<lambda>p. p\<lparr>p_pgdir := d\<rparr>) u)" by (intro newborn_upd) simp_all
      show ?case
      proof (rule onE_if, goal_cases)
        case 1
        show ?case by (rule onE_then [where Q = "newborn c np {..<NOFILE}", OF keeps_new [OF keeps_kfree [OF mem_only_refl] u]])
          (auto intro!: onE_Inr newborn_unused)
      next
        case 2
        show ?case
        proof (rule onE_then [where Q = "newborn c np {}"], goal_cases)
          case 1
          show ?case by (rule dup_all) (simp_all add: u newborn_upd)
        next
          case (2 v)
          then show ?case by (intro onE_option onE_prod onE_Inr frameI born_runnable) (auto simp: idup_def intro!: newborn_upd)
        qed
      qed
    qed
  qed
qed

section \<open>Exit\<close>

text \<open>\<open>fileclose\<close> leaves the process table alone but for waking sleepers.\<close>

lemma con_calm: "onE p (con_rel t) m \<Longrightarrow> calm s t \<Longrightarrow> onE p (calm s) m"
  by (erule onE_mono) (auto simp: con_rel_def intro: calm_trans)

lemma fs_calm: "onE p (fs_rel t) m \<Longrightarrow> calm s t \<Longrightarrow> onE p (calm s) m"
  by (erule onE_mono) (auto simp: fs_rel_def intro: calm_trans)

lemma log_calm: "onE p (log_rel t) m \<Longrightarrow> calm s t \<Longrightarrow> onE p (calm s) m"
  by (erule onE_mono) (auto simp: log_rel_def intro: calm_trans)

lemma keeps_calm: "keeps p t m \<Longrightarrow> calm s t \<Longrightarrow> onE p (calm s) m" for t :: "'a kern_scheme"
  by (cases m) (auto simp: keeps_def onE_def calm_def mem_only_procs)

lemma calm_own [simp]: "calm s (upd_file i f t) = calm s t" "calm s (upd_pipe p g t) = calm s t"
  by (simp_all add: calm_def upd_file_def upd_pipe_def)

lemma calm_woken: "calm s t \<Longrightarrow> calm s (wakeup ch t)"
  by (rule calm_trans [OF _ calm_wakeup])

lemma pipeclose_calm: "calm s t \<Longrightarrow> endE (calm s) (pipeclose p w t)"
  unfolding pipeclose_def Let_def
  by (intro frameI keeps_calm [OF keeps_kfree [OF mem_only_refl]]) (simp_all add: calm_woken)

lemma fileclose_calm: "calm s t \<Longrightarrow> endE (calm s) (fileclose f t)"
  unfolding fileclose_def Let_def
  by (intro frameI pipeclose_calm log_calm [OF begin_op_frame] log_calm [OF end_op_frame] fs_calm [OF iput_frame]) simp_all

text \<open>Process \<open>c\<close> has closed the descriptors \<open>fds\<close>.\<close>

definition closed :: "nat \<Rightarrow> nat set \<Rightarrow> 'a filest_scheme \<Rightarrow> bool" where
  "closed c fds s \<longleftrightarrow> run_inv none s \<and> cur s = Some c \<and> (\<forall>fd \<in> fds. p_ofile (procs s ! c) ! fd = None)"

lemma calm_closed:
  assumes "calm s t" "run_inv none s" "run_inv none t" "closed c fds s"
  shows "closed c fds t"
  using assms calm_nth [OF assms(1)] running_cur [OF assms(2), of c]
  by (auto simp: closed_def calm_def at_most_woken_def)

lemma close_file_inv:
  assumes "closed c fds s" "fd < NOFILE"
  shows "endE (closed c (insert fd fds)) (close_file c fd s)"
proof (cases "p_ofile (procs s ! c) ! fd")
  case None
  with assms show ?thesis by (simp add: close_file_def onE_def closed_def)
next
  case (Some f)
  from assms(1) have inv: "run_inv none s" "cur s = Some c" by (auto simp: closed_def)
  have c: "c < length (procs s)" using running_cur [OF inv] by simp
  note f = take_fd(2) [OF inv(1) c assms(2) Some]
  show ?thesis unfolding close_file_def Some option.case
  proof (rule onE_bind_value, rule onE_Inr)
    fix t assume t: "fileclose f s = Inr t"
    have tc: "calm s t" using onE_D [OF fileclose_calm [of s s] t] by simp
    have ti: "run_inv (none(f := none f - 1)) t" using onE_D [OF fileclose_inv [OF inv(1) f] t] by simp
    have p: "p_ofile (procs t ! c) = p_ofile (procs s ! c)" "c < length (procs t)" "cur t = Some c"
      using calm_nth [OF tc] c inv(2) tc by (auto simp: at_most_woken_def calm_def)
    have "run_inv ((none(f := none f - 1))(f := (none(f := none f - 1)) f + 1)) (set_fd c fd None t)"
      by (rule take_fd(1) [OF ti p(2) assms(2)]) (simp add: p(1) Some)
    moreover have "fd < length (p_ofile (procs s ! c))" using inv(1) c assms(2) by (simp add: run_inv_def fd_inv_def fds_ok_def)
    moreover have "p_ofile (procs (set_fd c fd None t) ! c) = (p_ofile (procs s ! c))[fd := None]"
      using p by (simp add: set_fd_def upd_proc_def)
    ultimately show "closed c (insert fd fds) (upd_proc c (\<lambda>p. p\<lparr>p_ofile := (p_ofile p)[fd := None]\<rparr>) t)"
      using assms(1) p(3) by (auto simp: closed_def set_fd_def [symmetric] nth_list_update)
  qed
qed

lemma close_files_inv: "closed c fds s \<Longrightarrow> set xs \<subseteq> {..<NOFILE} \<Longrightarrow> endE (closed c (set xs \<union> fds)) (foldE (close_file c) xs s)"
  for s :: "'a filest_scheme"
proof (induction xs arbitrary: fds s)
  case (Cons x xs)
  then have "endE (closed c (insert x fds)) (close_file c x s)" by (intro close_file_inv) simp_all
  moreover have "endE (closed c (set (x # xs) \<union> fds)) (foldE (close_file c) xs t)" if "closed c (insert x fds) t" for t :: "'a filest_scheme"
    using Cons.IH [OF that] Cons.prems(2) by simp
  ultimately show ?case unfolding foldE.simps by (rule onE_then)
qed (simp add: onE_def)

lemma close_all: "closed c {} s \<Longrightarrow> endE (closed c {..<NOFILE}) (foldE (close_file c) [0..<NOFILE] s)"
  using close_files_inv [of c "{}" s "[0..<NOFILE]"] by (simp add: lessThan_atLeast0 subset_iff del: upt_Suc upt_rec_numeral)

lemma closed_upd:
  assumes "closed c fds s" "\<And>p. p_ofile (f p) = p_ofile p" "\<And>p. p_state (f p) = p_state p"
  shows "closed c fds (upd_proc i f s)"
proof -
  have inv: "run_inv none s" "cur s = Some c" using assms(1) by (auto simp: closed_def)
  have "c < length (procs s)" using running_cur [OF inv] by simp
  then have "p_ofile (procs (upd_proc i f s) ! c) = p_ofile (procs s ! c)"
    unfolding upd_proc_def by (simp add: nth_update_keeps [of p_ofile f, OF assms(2)])
  with assms(1) run_inv_upd_proc [OF inv(1) assms(2,3)] show ?thesis by (simp add: closed_def)
qed

lemma con_closed: "onE p (con_rel t) m \<Longrightarrow> closed c fds t \<Longrightarrow> onE p (closed c fds) m" for t :: "'a filest_scheme"
proof (erule onE_mono)
  fix u :: "'a filest_scheme"
  assume r: "con_rel t u" and cl: "closed c fds t"
  have i: "run_inv none t" using cl by (simp add: closed_def)
  have "calm t u" using r by (simp add: con_rel_def)
  then show "closed c fds u" using i con_rel_inv(2) [OF r i] cl by (rule calm_closed)
qed

lemma log_closed: "onE p (log_rel t) m \<Longrightarrow> closed c fds t \<Longrightarrow> onE p (closed c fds) m" for t :: "'a filest_scheme"
  by (rule con_closed, erule onE_mono) (blast intro: rel_up)+

lemma fs_closed: "onE p (fs_rel t) m \<Longrightarrow> closed c fds t \<Longrightarrow> onE p (closed c fds) m" for t :: "'a filest_scheme"
  by (rule con_closed, erule onE_mono) (blast intro: rel_up)+

lemma closed_wakeup1: "closed c fds s \<Longrightarrow> closed c fds (wakeup1 ch s)"
proof -
  assume cl: "closed c fds s"
  have i: "run_inv none s" using cl by (simp add: closed_def)
  show ?thesis using calm_wakeup [of s ch] i run_inv_wakeup [OF i, of ch] cl
    unfolding wakeup_def by (rule calm_closed)
qed

lemma closed_reparent: "closed c fds s \<Longrightarrow> closed c fds (reparent c i s)"
  unfolding reparent_def Let_def
  by (auto intro!: closed_wakeup1 closed_upd split: option.split)

lemma closed_reparents: "closed c fds s \<Longrightarrow> closed c fds (fold (reparent c) is s)"
  by (induction "is" arbitrary: s) (auto intro: closed_reparent)

lemma exit_table_inv: "closed c {..<NOFILE} s \<Longrightarrow> fd_inv none (exit_table c s)"
proof -
  assume "closed c {..<NOFILE} s"
  then have "closed c {..<NOFILE} (case p_parent (procs s ! c) of None \<Rightarrow> s | Some pp \<Rightarrow> wakeup1 (AtProc pp) s)"
    by (auto intro: closed_wakeup1 split: option.split)
  then have cl: "closed c {..<NOFILE} (fold (reparent c) is (case p_parent (procs s ! c) of None \<Rightarrow> s | Some pp \<Rightarrow> wakeup1 (AtProc pp) s))"
    for "is" by (rule closed_reparents)
  have z: "fd_inv none (upd_proc c (\<lambda>p. p\<lparr>p_state := ZOMBIE\<rparr>) t)" if t: "closed c {..<NOFILE} t" for t :: "'a filest_scheme"
  proof (rule fd_inv_upd_proc)
    have inv: "run_inv none t" "cur t = Some c" using t by (auto simp: closed_def)
    then show "fd_inv none t" by (simp add: run_fd)
    then have "length (p_ofile (procs t ! c)) = NOFILE" using running_cur [OF inv] by (simp add: fd_inv_def fds_ok_def)
    with t show "fd_same (procs t ! c) ((procs t ! c)\<lparr>p_state := ZOMBIE\<rparr>)" by (auto simp: fd_same_def closed_def in_set_conv_nth)
  qed
  show ?thesis unfolding exit_table_def Let_def by (rule z) (rule cl)
qed

lemma exit_inv: "run_inv none s \<Longrightarrow> endE (fd_inv none) (exit s)" for s :: "'a filest_scheme"
proof -
  assume inv: "run_inv none s"
  then obtain c where c: "cur s = Some c" by (auto simp: run_inv_def running_def)
  have cl: "closed c {} s" using inv c by (simp add: closed_def)
  show ?thesis unfolding exit_def c option.case Let_def
    by (intro onE_if onE_Inl onE_then [where Q = "closed c {..<NOFILE}"] onE_option)
      (auto intro!: onE_Inr exit_table_inv closed_upd onE_Inl close_all cl log_closed [OF begin_op_frame]
        log_closed [OF end_op_frame] fs_closed [OF iput_frame])
qed

section \<open>Every system call\<close>

lemma cprintf_msg_inv: "run_inv e s \<Longrightarrow> endE (run_inv e) (cprintf_msg fmt args s)" for s :: "'a filest_scheme"
  unfolding cprintf_msg_def by (intro onE_bind_value onE_Inr) simp

lemma sys_wait_inv: "run_inv e s \<Longrightarrow> onE snd (fd_inv e) (sys_wait s)"
  unfolding sys_wait_def by (rule onE_then_pair [OF wait_pass_inv]) (auto intro: onE_Inr)

lemma sys_exit_inv: "run_inv none s \<Longrightarrow> onE snd (fd_inv none) (sys_exit s)" for s :: "'a filest_scheme"
  unfolding sys_exit_def by (rule onE_then [OF exit_inv]) (auto intro: onE_Inr)

lemma sys_fork_inv: "run_inv none s \<Longrightarrow> onE snd (run_inv none) (sys_fork s)" for s :: "'a filest_scheme"
  unfolding sys_fork_def by (rule finish_frame [OF fork_inv])

lemma sys_getpid_inv: "run_inv e s \<Longrightarrow> onE snd (run_inv e) (sys_getpid s)"
  unfolding sys_getpid_def by (intro frameI)

lemma sys_uptime_inv: "run_inv e s \<Longrightarrow> onE snd (run_inv e) (sys_uptime s)"
  unfolding sys_uptime_def by (intro frameI)

lemmas handlers_run = sys_fork_inv sys_pipe_inv sys_exec_inv sys_fstat_inv sys_chdir_inv sys_dup_inv sys_getpid_inv
  sys_sbrk_inv sys_uptime_inv sys_open_inv sys_mknod_inv sys_unlink_inv sys_link_inv sys_mkdir_inv sys_close_inv
  sys_settickets_inv sys_getpinfo_inv

lemmas handlers_fd = sys_exit_inv sys_wait_inv sys_read_inv sys_kill_inv sys_sleep_inv sys_write_inv

lemma syscalls_inv: "run_inv none s \<Longrightarrow> onE snd (fd_inv none) (syscalls num k s)" for s :: "'a filest_scheme"
  unfolding syscalls_def by (intro onE_if handlers_run [THEN onE_run_fd] handlers_fd)

lemma sleep_return_inv: "run_inv e s \<Longrightarrow> run_inv e (sleep_return s)"
  by (auto simp: sleep_return_def intro!: run_inv_upd_proc split: option.split)

lemma fd_inv_set_tf [simp]: "fd_inv e (set_tf tf i v s) = fd_inv e s"
  by (simp add: fd_inv_def set_tf_def)

lemma syscall_inv: "run_inv none s \<Longrightarrow> onE snd (fd_inv none) (syscall k s)" for s :: "'a filest_scheme"
  unfolding syscall_def Let_def
  by (intro with_proc_frame onE_if onE_then_pair [OF syscalls_inv] onE_then [OF cprintf_msg_inv])
    (auto simp: sleep_return_inv run_fd intro!: onE_Inr split: wait_result.split)


text \<open>
  C4. System calls keep the counts of open files. If the count of every file is the number of
  descriptors that refer to it and the dead and unused processes have no descriptors, then the same holds
  when the call has returned, has ended its process, or is blocked in \<open>wait\<close>, in \<open>sleep\<close> or on a pipe, whichever
  call it is, whatever its arguments, and on every error path that does not stop the kernel. A call that has to
  sleep inside the file system (for the log, a buffer or an inode) or for console input ends the model with
  \<open>Sleep\<close>, and nothing is said of the state then: \<open>fileclose\<close> for one clears the file before it waits for the log, while
  in \<open>exit\<close> the descriptor still names it.
\<close>

theorem syscall_keeps_refs:
  assumes "run_inv (\<lambda>_. 0) s" "syscall k s = Inr (r, t)"
  shows "fd_inv (\<lambda>_. 0) (t :: filest)"
  using onE_D [OF syscall_inv [OF assms(1)] assms(2)] by simp

text \<open>A process that calls \<open>dup(3)\<close> with its trap frame, page directory, page table and stack.\<close>

definition dup_caller :: proc where
  "dup_caller = idle_proc\<lparr>p_state := RUNNING, p_tf := 0x80403000, p_ofile := [None, None, None, Some 0] @ replicate 12 None\<rparr>"

definition dup_state :: filest where
  "dup_state = (file_state [] [\<lparr>f_type = FD_NONE, f_ref = 1, f_readable = True, f_writable = False, f_pipe = 0,
       f_ip = 0, f_off = 0\<rparr>] (\<lambda>_. wrapped_pipe))
     \<lparr>procs := [dup_caller],
      pmem := write32 (write32 (write32 (write32 (\<lambda>_. 0) 0x80400000 0x401007) 0x80401000 0x402007) 0x80402004 3)
        (0x80403000 + TF_EAX) 10\<rparr>"

theorem syscall_keeps_refs_witness:
  "\<exists>t. syscall None dup_state = Inr (Finished 0, t) \<and> fd_inv (\<lambda>_. 0) t \<and> f_ref (ftable t ! 0) = 2"
proof -
  have inv: "run_inv (\<lambda>_. 0) dup_state"
    by (simp add: run_inv_def running_def fd_inv_def dup_state_def file_state_def dup_caller_def fds_ok_def refs_def idle_proc_def)
  have "case syscall None dup_state of Inr (Finished v, t) \<Rightarrow> v = 0 \<and> f_ref (ftable t ! 0) = 2 | _ \<Rightarrow> False"
    by code_simp
  then have "\<exists>t. syscall None dup_state = Inr (Finished 0, t) \<and> f_ref (ftable t ! 0) = 2"
    by (auto split: sum.splits prod.splits wait_result.splits)
  with syscall_keeps_refs [OF inv] show ?thesis by blast
qed

end
