(* ===== verification/Iocount.thy ===== *)
theory Iocount
  imports Proc_Refs
begin

text \<open>
  The second kernel, \<open>xv6-system_calls/xv6\<close>: the same sources but for the system call \<open>getiocount\<close>, a
  scheduler without tickets, and programs that start at address 0. Modelled here is what differs, with the
  suffix \<open>_sc\<close>: the rest is that of the first kernel. The counter \<open>iocount\<close> is a variable of its own, beside the state of
  the kernel that the other functions work on; the acquire and release of \<open>iocounterlock\<close> around each access are left out.
\<close>

unbundle bit_operations_syntax

section \<open>Address spaces from 0 on\<close>

definition copyuvm_sc :: "32 word \<Rightarrow> 32 word \<Rightarrow> 'a phys_scheme \<Rightarrow> (32 word \<times> 'a phys_scheme) res" where
  "copyuvm_sc pgdir sz s =
     bindE (setupkvm s) (\<lambda>(d, s).
       if d = 0 then Inr (0, s) else copyuvm_loop ((unat sz + 4095) div 4096) pgdir d 0 sz s)"

definition allocproc_sc :: "'a kern_scheme \<Rightarrow> nat option \<times> 'a kern_scheme" where
  "allocproc_sc s =
     (case first_idx (\<lambda>p. p_state p = UNUSED) (procs s) of
        None \<Rightarrow> (None, s)
      | Some i \<Rightarrow>
        let s = upd_proc i (\<lambda>p. p\<lparr>p_state := EMBRYO, p_pid := nextpid s\<rparr>) s;
            s = s\<lparr>nextpid := nextpid s + 1\<rparr>
        in case kalloc s of (k, s) \<Rightarrow>
             let s = upd_proc i (\<lambda>p. p\<lparr>p_kstack := k\<rparr>) s
             in if k = 0 then (None, upd_proc i (\<lambda>p. p\<lparr>p_state := UNUSED\<rparr>) s)
                else
                  let tf = k + 4096 - 76;
                      s = upd_proc i (\<lambda>p. p\<lparr>p_tf := tf\<rparr>) s;
                      sp = tf - 4;
                      s = s\<lparr>pmem := write32 (pmem s) sp (trapret_at s)\<rparr>;
                      sp = sp - 20;
                      s = upd_proc i (\<lambda>p. p\<lparr>p_context := sp\<rparr>) s;
                      s = s\<lparr>pmem := memset (pmem s) sp 0 20\<rparr>;
                      s = s\<lparr>pmem := write32 (pmem s) (sp + 16) (forkret_at s)\<rparr>
                  in (Some i, s))"

definition fork_sc :: "'a filest_scheme \<Rightarrow> (int \<times> 'a filest_scheme) res" where
  "fork_sc s =
     (case cur s of None \<Rightarrow> Inl (Fault ''fork: no process'')
      | Some c \<Rightarrow>
        (case allocproc_sc s of
           (None, s) \<Rightarrow> Inr (-1, s)
         | (Some np, s) \<Rightarrow>
           bindE (copyuvm_sc (p_pgdir (procs s ! c)) (p_sz (procs s ! c)) s) (\<lambda>(d, s).
             let s = upd_proc np (\<lambda>p. p\<lparr>p_pgdir := d\<rparr>) s
             in if d = 0 then
                  bindE (kfree (p_kstack (procs s ! np)) s) (\<lambda>s.
                    Inr (-1, upd_proc np (\<lambda>p. p\<lparr>p_kstack := 0, p_state := UNUSED\<rparr>) s))
                else
                  let cp = procs s ! c;
                      s = upd_proc np (\<lambda>p. p\<lparr>p_sz := p_sz cp, p_parent := Some c\<rparr>) s;
                      s = s\<lparr>pmem := memmove (pmem s) (p_tf (procs s ! np)) (p_tf cp) 76\<rparr>;
                      s = set_tf (p_tf (procs s ! np)) TF_EAX 0 s
                  in bindE (foldE (dup_file c np) [0..<NOFILE] s) (\<lambda>s.
                     case p_cwd cp of
                       None \<Rightarrow> Inl (Fault ''fork: idup'')
                     | Some d \<Rightarrow>
                       (case idup d s of (d, s) \<Rightarrow>
                          let s = upd_proc np (\<lambda>p. p\<lparr>p_cwd := Some d\<rparr>) s;
                              s = upd_proc np (\<lambda>p. p\<lparr>p_name := p_name cp\<rparr>) s;
                              pid = p_pid (procs s ! np)
                          in Inr (pid, upd_proc np (\<lambda>p. p\<lparr>p_state := RUNNABLE\<rparr>) s))))))"

fun load_segments_sc :: "nat \<Rightarrow> 32 word \<Rightarrow> nat \<Rightarrow> 32 word \<Rightarrow> 32 word \<Rightarrow> 'a console_scheme \<Rightarrow>
    (32 word option \<times> 'a console_scheme) res" where
  "load_segments_sc ip pgdir 0 off sz s = Inr (Some sz, s)"
| "load_segments_sc ip pgdir (Suc n) off sz s =
     bindE (readi ip None off 32 s) (\<lambda>(r, ph, s).
       let filesz = at32 ph 16; memsz = at32 ph 20; vaddr = at32 ph 8
       in if r \<noteq> 32 then Inr (None, s)
          else if at32 ph 0 \<noteq> 1 then load_segments_sc ip pgdir n (off + 32) sz s
          else if memsz < filesz then Inr (None, s)
          else if vaddr + memsz < vaddr then Inr (None, s)
          else bindE (allocuvm pgdir sz (vaddr + memsz) s) (\<lambda>(sz, s).
            if sz = 0 then Inr (None, s)
            else if unat vaddr mod 4096 \<noteq> 0 then Inr (None, s)
            else bindE (loaduvm pgdir vaddr ip (at32 ph 4) filesz s) (\<lambda>(r, s).
              if r < 0 then Inr (None, s) else load_segments_sc ip pgdir n (off + 32) sz s)))"

definition exec_sc :: "8 word list \<Rightarrow> 8 word list list \<Rightarrow> 'a filest_scheme \<Rightarrow> (int \<times> 'a filest_scheme) res" where
  "exec_sc path argv s =
     (case cur s of None \<Rightarrow> Inl (Fault ''exec: no process'')
      | Some c \<Rightarrow>
        bindE (begin_op s) (\<lambda>s. bindE (namei path s) (\<lambda>(r, s).
          case r of
            None \<Rightarrow> bindE (end_op s) (\<lambda>s. Inr (-1, cprintf (''exec: fail'' @ [CHR 0x0A]) s))
          | Some ip \<Rightarrow>
            bindE (ilock ip s) (\<lambda>s. bindE (readi ip None 0 52 s) (\<lambda>(r, elf, s).
              if r \<noteq> 52 then exec_bad 0 (Some ip) s
              else if at32 elf 0 \<noteq> ELF_MAGIC then exec_bad 0 (Some ip) s
              else bindE (setupkvm s) (\<lambda>(pgdir, s).
                if pgdir = 0 then exec_bad 0 (Some ip) s
                else bindE (load_segments_sc ip pgdir (unat (at16 elf 44)) (at32 elf 28) 0 s) (\<lambda>(r, s).
                  case r of None \<Rightarrow> exec_bad pgdir (Some ip) s
                  | Some sz \<Rightarrow> bindE (iunlockput ip s) (\<lambda>s. bindE (end_op s)
                      (exec_stack c path argv (at32 elf 24) pgdir sz)))))))))"

section \<open>The scheduler without tickets\<close>

definition schedule_proc_sc :: "(nat \<Rightarrow> 'a kern_scheme \<Rightarrow> 'a kern_scheme res) \<Rightarrow> nat \<Rightarrow> 'a kern_scheme \<Rightarrow> 'a kern_scheme res" where
  "schedule_proc_sc swtch p s =
     (if p_state (procs s ! p) \<noteq> RUNNABLE then Inr s
      else
        let s = s\<lparr>cur := Some p\<rparr>
        in bindE (switchuvm (Some p) s) (\<lambda>s.
           let s = upd_proc p (\<lambda>q. q\<lparr>p_state := RUNNING\<rparr>) s
           in bindE (swtch p s) (\<lambda>s. Inr ((switchkvm s)\<lparr>cur := None\<rparr>))))"

definition scheduler_sc :: "nat \<Rightarrow> (nat \<Rightarrow> 'a kern_scheme \<Rightarrow> 'a kern_scheme res) \<Rightarrow> 'a kern_scheme \<Rightarrow> 'a kern_scheme res" where
  "scheduler_sc rounds swtch s =
     foldE (\<lambda>_ s. foldE (schedule_proc_sc swtch) [0..<length (procs s)] s) [0..<rounds] (s\<lparr>cur := None\<rparr>)"

section \<open>The counter\<close>

record 'k io =
  iocount :: "32 word"
  kst :: 'k

definition on_kst :: "('k \<Rightarrow> (wait_result \<times> 'k) res) \<Rightarrow> 'k io \<Rightarrow> (wait_result \<times> 'k io) res" where
  "on_kst f s = bindE (f (kst s)) (\<lambda>(r, t). Inr (r, s\<lparr>kst := t\<rparr>))"

text \<open>A call that goes on after it slept is not counted again.\<close>

definition sys_read_sc :: "nat option \<Rightarrow> 'a filest_scheme io \<Rightarrow> (wait_result \<times> 'a filest_scheme io) res" where
  "sys_read_sc k s = on_kst sys_read (if k = None then s\<lparr>iocount := iocount s + 1\<rparr> else s)"

definition sys_write_sc :: "nat option \<Rightarrow> 'a filest_scheme io \<Rightarrow> (wait_result \<times> 'a filest_scheme io) res" where
  "sys_write_sc k s = on_kst (sys_write k) (if k = None then s\<lparr>iocount := iocount s + 1\<rparr> else s)"

definition sys_getiocount :: "'k io \<Rightarrow> (wait_result \<times> 'k io) res" where
  "sys_getiocount s = Inr (Finished (sint (iocount s)), s)"

definition sys_fork_sc :: "'a filest_scheme \<Rightarrow> (wait_result \<times> 'a filest_scheme) res" where
  "sys_fork_sc s = finish (fork_sc s)"

definition sys_exec_sc :: "'a filest_scheme \<Rightarrow> (wait_result \<times> 'a filest_scheme) res" where
  "sys_exec_sc s =
     need (argstr 0) s (\<lambda>path. need (argint 1) s (\<lambda>uargv.
       need (fetch_argv uargv MAXARG []) s (\<lambda>argv. finish (exec_sc path argv s))))"

definition syscalls_sc :: "nat \<Rightarrow> nat option \<Rightarrow> 'a filest_scheme io \<Rightarrow> (wait_result \<times> 'a filest_scheme io) res" where
  "syscalls_sc num k s =
     (if num = 1 then on_kst sys_fork_sc s
      else if num = 5 then sys_read_sc k s
      else if num = 7 then on_kst sys_exec_sc s
      else if num = 16 then sys_write_sc k s
      else if num = 22 then sys_getiocount s
      else on_kst (syscalls num k) s)"

definition syscall_sc :: "nat option \<Rightarrow> 'a filest_scheme io \<Rightarrow> (wait_result \<times> 'a filest_scheme io) res" where
  "syscall_sc k s =
     with_proc (\<lambda>c.
       let num = sint (tf_field (p_tf (procs (kst s) ! c)) TF_EAX (kst s));
           ret = (\<lambda>r s. s\<lparr>kst := set_tf (p_tf (procs (kst s) ! c)) TF_EAX (word_of_int r) (kst s)\<rparr>)
       in if num > 0 \<and> num < 23 then
            bindE (syscalls_sc (nat num) k (if k = None then s else s\<lparr>kst := sleep_return (kst s)\<rparr>)) (\<lambda>(r, s).
              case r of Finished v \<Rightarrow> Inr (Finished v, ret v s) | _ \<Rightarrow> Inr (r, s))
          else
            on_kst (\<lambda>s. bindE (cprintf_msg (''%d %s: unknown sys call %d'' @ [CHR 0x0A])
              [Word (word_of_int (p_pid (procs s ! c))), Str (Some (p_name (procs s ! c))), Word (word_of_int num)] s) (\<lambda>s.
            Inr (Finished (-1), set_tf (p_tf (procs s ! c)) TF_EAX (word_of_int (-1)) s))) s) (kst s)"


section \<open>One ticket each is round robin\<close>

text \<open>The state without the statistics that the second kernel does not keep.\<close>

definition plain_proc :: "proc \<Rightarrow> proc" where
  "plain_proc q = q\<lparr>p_tickets := 1, p_ticksAcc := 0, p_inuse := 0\<rparr>"

definition plain :: "'a kern_scheme \<Rightarrow> 'a kern_scheme" where
  "plain s = s\<lparr>procs := map plain_proc (procs s)\<rparr>"

definition one_ticket :: "'a kern_scheme \<Rightarrow> bool" where
  "one_ticket s \<longleftrightarrow> (\<forall>q \<in> set (procs s). p_tickets q = 1)"

lemma plain_upd: "(\<And>q. plain_proc (f q) = g (plain_proc q)) \<Longrightarrow> i < length (procs s) \<Longrightarrow> plain (upd_proc i f s) = upd_proc i g (plain s)"
  by (simp add: plain_def upd_proc_def map_update)

lemma plain_nth: "i < length (procs s) \<Longrightarrow> procs (plain s) ! i = plain_proc (procs s ! i)"
  by (simp add: plain_def)

lemma one_ticket_nth: "one_ticket s \<Longrightarrow> i < length (procs s) \<Longrightarrow> p_tickets (procs s ! i) = 1"
  by (simp add: one_ticket_def)

lemma schedule_plain:
  fixes swtch :: "nat \<Rightarrow> 'a kern_scheme \<Rightarrow> 'a kern_scheme res"
  assumes indifferent: "\<And>i u. swtch i (plain u) = bindE (swtch i u) (\<lambda>t. Inr (plain t))"
    and keeps: "\<And>i u t. swtch i u = Inr t \<Longrightarrow> one_ticket u \<Longrightarrow> one_ticket t \<and> length (procs t) = length (procs u)"
    and s: "one_ticket s" "p < length (procs s)" and fuel: "0 < fuel"
  shows "bindE (schedule_proc fuel swtch p s) (\<lambda>t. Inr (plain t)) = schedule_proc_sc swtch p (plain s)"
    "schedule_proc fuel swtch p s = Inr t \<Longrightarrow> one_ticket t \<and> length (procs t) = length (procs s)"
proof -
  define v where "v = s\<lparr>cur := Some p, esp0 := p_kstack (procs s ! p) + 4096, cr3 := V2P (p_pgdir (procs s ! p))\<rparr>"
  define w where "w = upd_proc p (\<lambda>q. q\<lparr>p_state := RUNNING, p_inuse := 1, p_ticksAcc := to_int32 (p_ticksAcc q + 1)\<rparr>) v"
  have v: "one_ticket v" "length (procs v) = length (procs s)" "p_state (procs v ! p) = p_state (procs s ! p)"
    using s(1) by (simp_all add: v_def one_ticket_def)
  have w: "one_ticket w" "length (procs w) = length (procs s)"
    using v(1,2) s(2) by (auto simp: w_def one_ticket_def upd_proc_def set_conv_nth nth_list_update)
  have pw: "plain w = upd_proc p (\<lambda>q. q\<lparr>p_state := RUNNING\<rparr>) (plain v)"
    unfolding w_def by (rule plain_upd) (use s(2) v(2) in \<open>simp_all add: plain_proc_def\<close>)
  have slices: "run_slices fuel swtch p 1 v = swtch p w" if r: "p_state (procs s ! p) = RUNNABLE"
  proof -
    obtain k where k: "fuel = Suc k" using fuel gr0_conv_Suc by blast
    have two: "to_int32 2 = 2" by (simp add: to_int32_id int32_range_def)
    have "run_slices k swtch p 2 t = Inr t" if "swtch p w = Inr t" for t
      using keeps [OF that w(1)] w(2) s(2) one_ticket_nth [of t p] by (simp add: run_slices.simps)
    then have "bindE (swtch p w) (run_slices k swtch p 2) = swtch p w" by (cases "swtch p w") simp_all
    then show ?thesis unfolding k using r v one_ticket_nth [OF v(1)] s(2)
      by (subst slice_step) (simp_all add: two w_def del: run_slices.simps)
  qed
  let ?q = "procs s ! p"
  have one: "schedule_proc fuel swtch p s =
      (if p_state ?q \<noteq> RUNNABLE then Inr s else if p_kstack ?q = 0 then Inl (Panic ''switchuvm: no kstack'')
       else if p_pgdir ?q = 0 then Inl (Panic ''switchuvm: no pgdir'')
       else bindE (swtch p w) (\<lambda>s. Inr ((switchkvm s)\<lparr>cur := None\<rparr>)))"
    using slices by (simp add: schedule_proc_def switchuvm_def v_def Let_def)
  have "plain v = (plain s)\<lparr>cur := Some p, esp0 := p_kstack ?q + 4096, cr3 := V2P (p_pgdir ?q)\<rparr>" by (simp add: v_def plain_def)
  then have two: "schedule_proc_sc swtch p (plain s) =
      (if p_state ?q \<noteq> RUNNABLE then Inr (plain s) else if p_kstack ?q = 0 then Inl (Panic ''switchuvm: no kstack'')
       else if p_pgdir ?q = 0 then Inl (Panic ''switchuvm: no pgdir'')
       else bindE (swtch p (plain w)) (\<lambda>s. Inr ((switchkvm s)\<lparr>cur := None\<rparr>)))"
    unfolding schedule_proc_sc_def switchuvm_def pw using s(2) by (simp add: plain_nth plain_proc_def Let_def)
  have "plain ((switchkvm t)\<lparr>cur := None\<rparr>) = (switchkvm (plain t))\<lparr>cur := None\<rparr>" for t :: "'a kern_scheme" by (simp add: plain_def switchkvm_def)
  then show "bindE (schedule_proc fuel swtch p s) (\<lambda>t. Inr (plain t)) = schedule_proc_sc swtch p (plain s)"
    unfolding one two indifferent by (cases "swtch p w") simp_all
  show "one_ticket t \<and> length (procs t) = length (procs s)" if "schedule_proc fuel swtch p s = Inr t"
    using that keeps [OF _ w(1)] w(2) s(1) unfolding one
    by (cases "swtch p w") (auto simp: switchkvm_def one_ticket_def split: if_splits)
qed


lemma foldE_image:
  assumes "P s" "\<And>x u. P u \<Longrightarrow> x \<in> set xs \<Longrightarrow> bindE (f x u) (\<lambda>t. Inr (h t)) = g x (h u)"
    and "\<And>x u t. P u \<Longrightarrow> x \<in> set xs \<Longrightarrow> f x u = Inr t \<Longrightarrow> P t"
  shows "bindE (foldE f xs s) (\<lambda>t. Inr (h t)) = foldE g xs (h s)"
  using assms
proof (induction xs arbitrary: s)
  case (Cons x xs)
  have x: "bindE (f x s) (\<lambda>t. Inr (h t)) = g x (h s)" using Cons.prems(1,2) by simp
  show ?case
  proof (cases "f x s")
    case (Inl e)
    with x have "g x (h s) = Inl e" by simp
    with Inl show ?thesis by simp
  next
    case (Inr u)
    with x have "g x (h s) = Inr (h u)" by simp
    moreover have "bindE (foldE f xs u) (\<lambda>t. Inr (h t)) = foldE g xs (h u)"
    proof (rule Cons.IH)
      show "P u" using Cons.prems(3) [OF Cons.prems(1) _ Inr] by simp
      show "bindE (f y v) (\<lambda>t. Inr (h t)) = g y (h v)" if "P v" "y \<in> set xs" for y v using Cons.prems(2) [of v y] that by simp
      show "P t" if "P v" "y \<in> set xs" "f y v = Inr t" for y v t using Cons.prems(3) [of v y t] that by simp
    qed
    ultimately show ?thesis using Inr by simp
  qed
qed simp

text \<open>
  C29. With one ticket for every process the scheduler of tickets is the round robin scheduler of the other kernel:
  as long as processes do not look at their statistics and leave the tickets alone, any number of passes gives the
  same state, or stops the same way, but for the statistics.
\<close>

theorem one_ticket_round_robin:
  fixes swtch :: "nat \<Rightarrow> 'a kern_scheme \<Rightarrow> 'a kern_scheme res"
  assumes indifferent: "\<And>i u. swtch i (plain u) = bindE (swtch i u) (\<lambda>t. Inr (plain t))"
    and keeps: "\<And>i u t. swtch i u = Inr t \<Longrightarrow> one_ticket u \<Longrightarrow> one_ticket t \<and> length (procs t) = length (procs u)"
    and s: "one_ticket s" and fuel: "0 < fuel"
  shows "bindE (scheduler rounds fuel swtch s) (\<lambda>t. Inr (plain t)) = scheduler_sc rounds swtch (plain s)"
proof -
  have step1: "bindE (schedule_proc fuel swtch p v) (\<lambda>t. Inr (plain t)) = schedule_proc_sc swtch p (plain v)"
    if "one_ticket v" "p < length (procs v)" for p v
    by (rule schedule_plain(1); (fact indifferent | fact keeps | fact that | fact fuel))
  have step2: "one_ticket t \<and> length (procs t) = length (procs v)"
    if "one_ticket v" "p < length (procs v)" "schedule_proc fuel swtch p v = Inr t" for p v t
    by (rule schedule_plain(2); (fact indifferent | fact keeps | fact that | fact fuel))
  have round: "bindE (scheduler_round fuel swtch u) (\<lambda>t. Inr (plain t)) = foldE (schedule_proc_sc swtch) [0..<length (procs u)] (plain u)"
    if u: "one_ticket u" for u
    unfolding scheduler_round_def
  proof (rule foldE_image [where P = "\<lambda>v. one_ticket v \<and> length (procs v) = length (procs u)"])
    show "one_ticket u \<and> length (procs u) = length (procs u)" using u by simp
    fix x and v t :: "'a kern_scheme"
    assume "one_ticket v \<and> length (procs v) = length (procs u)" "x \<in> set [0..<length (procs u)]"
    then have v: "one_ticket v" "x < length (procs v)" "length (procs v) = length (procs u)" by simp_all
    show "bindE (schedule_proc fuel swtch x v) (\<lambda>t. Inr (plain t)) = schedule_proc_sc swtch x (plain v)" by (rule step1 [OF v(1,2)])
    show "one_ticket t \<and> length (procs t) = length (procs u)" if "schedule_proc fuel swtch x v = Inr t"
      using step2 [OF v(1,2) that] v(3) by simp
  qed
  have inv: "one_ticket t" if "one_ticket u" "scheduler_round fuel swtch u = Inr t" for u t
  proof -
    have "one_ticket t \<and> length (procs t) = length (procs u)"
    proof (rule foldE_invariant [OF that(2) [unfolded scheduler_round_def]])
      show "one_ticket u \<and> length (procs u) = length (procs u)" using that(1) by simp
      fix x and v w :: "'a kern_scheme"
      assume "x \<in> set [0..<length (procs u)]" "one_ticket v \<and> length (procs v) = length (procs u)" "schedule_proc fuel swtch x v = Inr w"
      then show "one_ticket w \<and> length (procs w) = length (procs u)" using step2 [of v x w] by auto
    qed
    then show ?thesis by simp
  qed
  have "bindE (scheduler rounds fuel swtch s) (\<lambda>t. Inr (plain t)) =
      foldE (\<lambda>_ s. foldE (schedule_proc_sc swtch) [0..<length (procs s)] s) [0..<rounds] (plain (s\<lparr>cur := None\<rparr>))"
    unfolding scheduler_def
    by (rule foldE_image [where P = one_ticket]) (use round inv s in \<open>auto simp: one_ticket_def plain_def\<close>)
  moreover have "plain (s\<lparr>cur := None\<rparr>) = (plain s)\<lparr>cur := None\<rparr>" by (simp add: plain_def)
  ultimately show ?thesis by (simp add: scheduler_sc_def)
qed

theorem one_ticket_round_robin_witness:
  "let s = idle_kern [idle_proc\<lparr>p_ticksAcc := 7\<rparr>, idle_proc\<lparr>p_state := SLEEPING\<rparr>]
   in bindE (scheduler 2 1 preempted s) (\<lambda>t. Inr (plain t)) = scheduler_sc 2 preempted (plain s)"
proof -
  let ?s = "idle_kern [idle_proc\<lparr>p_ticksAcc := 7\<rparr>, idle_proc\<lparr>p_state := SLEEPING\<rparr>]"
  have "bindE (scheduler 2 1 preempted ?s) (\<lambda>t. Inr (plain t)) = scheduler_sc 2 preempted (plain ?s)"
  proof (rule one_ticket_round_robin)
    show "preempted i (plain u) = bindE (preempted i u) (\<lambda>t. Inr (plain t))" for i and u :: kern
    proof (cases "cur u")
      case (Some c)
      have "plain (upd_proc c (\<lambda>p. p\<lparr>p_state := RUNNABLE\<rparr>) u) = upd_proc c (\<lambda>p. p\<lparr>p_state := RUNNABLE\<rparr>) (plain u)"
        by (cases "c < length (procs u)") (simp_all add: plain_upd plain_proc_def, simp add: upd_proc_def plain_def not_less list_update_beyond)
      then show ?thesis using Some by (simp add: preempted_def yield_def plain_def)
    qed (simp add: preempted_def yield_def plain_def)
    show "one_ticket t \<and> length (procs t) = length (procs u)" if "preempted i u = Inr t" "one_ticket u" for i and u t :: kern
    proof -
      have "\<exists>c. t = upd_proc c (\<lambda>p. p\<lparr>p_state := RUNNABLE\<rparr>) u"
        using that(1) by (auto simp: preempted_def yield_def split: option.splits)
      then obtain c where t: "t = upd_proc c (\<lambda>p. p\<lparr>p_state := RUNNABLE\<rparr>) u" by blast
      have "p_tickets (procs t ! i) = p_tickets (procs u ! i)" if "i < length (procs u)" for i
        using that by (cases "i = c") (simp_all add: t upd_proc_def)
      moreover have "length (procs t) = length (procs u)" by (simp add: t upd_proc_def)
      ultimately show ?thesis using that(2) by (simp add: one_ticket_def all_set_conv_all_nth)
    qed
  qed (simp_all add: one_ticket_def idle_kern_def idle_proc_def)
  then show ?thesis by simp
qed


section \<open>What is counted\<close>

text \<open>
  What happens to the kernel: the current process enters it (\<open>Trap None\<close>) or goes on with a call in which it slept, and between the
  calls everything but the counter may change, by other processes, interrupts and the scheduler.
\<close>

datatype 'k event = Trap "nat option" | World 'k

fun io_step :: "'a filest_scheme event \<Rightarrow> 'a filest_scheme io \<Rightarrow> 'a filest_scheme io res" where
  "io_step (Trap k) s = bindE (syscall_sc k s) (\<lambda>(_, s). Inr s)"
| "io_step (World t) s = Inr (s\<lparr>kst := t\<rparr>)"

definition eax :: "'a kern_scheme \<Rightarrow> 32 word option" where
  "eax s = map_option (\<lambda>c. tf_field (p_tf (procs s ! c)) TF_EAX s) (cur s)"

definition counted :: "'a filest_scheme event \<Rightarrow> 'a filest_scheme io \<Rightarrow> nat" where
  "counted e s = (case e of Trap None \<Rightarrow> if eax (kst s) \<in> {Some 5, Some 16} then 1 else 0 | _ \<Rightarrow> 0)"

fun reads_and_writes :: "'a filest_scheme event list \<Rightarrow> 'a filest_scheme io \<Rightarrow> nat" where
  "reads_and_writes [] s = 0"
| "reads_and_writes (e # es) s = counted e s + (case io_step e s of Inl _ \<Rightarrow> 0 | Inr t \<Rightarrow> reads_and_writes es t)"

lemma on_kst_iocount: "on_kst f s = Inr (r, t) \<Longrightarrow> iocount t = iocount s"
  by (cases "f (kst s)") (auto simp: on_kst_def)

lemma sint_eqs: "sint w = 5 \<longleftrightarrow> w = (5 :: 32 word)" "sint w = 16 \<longleftrightarrow> w = (16 :: 32 word)" "sint w = 22 \<longleftrightarrow> w = (22 :: 32 word)"
proof -
  have "w = of_int (sint w)" by simp
  then have "sint w = 5 \<Longrightarrow> w = 5" "sint w = 16 \<Longrightarrow> w = 16" "sint w = 22 \<Longrightarrow> w = 22" by simp_all
  then show "sint w = 5 \<longleftrightarrow> w = 5" "sint w = 16 \<longleftrightarrow> w = 16" "sint w = 22 \<longleftrightarrow> w = 22" by auto
qed

lemma syscalls_counts:
  assumes "syscalls_sc num k s = Inr (r, t)"
  shows "iocount t = iocount s + (if k = None \<and> num \<in> {5, 16} then 1 else 0)"
  using assms by (auto simp: syscalls_sc_def sys_read_sc_def sys_write_sc_def sys_getiocount_def dest: on_kst_iocount split: if_splits)


lemma syscall_counts:
  assumes "syscall_sc k s = Inr (r, t)"
  shows "iocount t = iocount s + of_nat (counted (Trap k) s)"
proof -
  obtain c where c: "cur (kst s) = Some c" using assms by (auto simp: syscall_sc_def with_proc_def split: option.splits)
  let ?w = "tf_field (p_tf (procs (kst s) ! c)) TF_EAX (kst s)"
  have e: "counted (Trap k) s = (if k = None \<and> nat (sint ?w) \<in> {5, 16} then 1 else 0)"
    using sint_eqs [of ?w] by (auto simp: counted_def eax_def c nat_eq_iff split: option.splits)
  show ?thesis
  proof (cases "sint ?w > 0 \<and> sint ?w < 23")
    case True
    let ?m = "syscalls_sc (nat (sint ?w)) k (if k = None then s else s\<lparr>kst := sleep_return (kst s)\<rparr>)"
    obtain q u where u: "?m = Inr (q, u)" using True assms by (cases ?m) (auto simp: syscall_sc_def with_proc_def c Let_def)
    then have t: "iocount t = iocount u"
      using True assms by (cases q) (auto simp: syscall_sc_def with_proc_def c Let_def)
    show ?thesis using syscalls_counts [OF u] unfolding e t by simp
  next
    case False
    then have "iocount t = iocount s"
      using assms by (auto simp: syscall_sc_def with_proc_def c Let_def dest: on_kst_iocount)
    moreover have "\<not> nat (sint ?w) \<in> {5, 16}" using False by auto
    ultimately show ?thesis unfolding e by simp
  qed
qed

lemma run_counts: "foldE io_step es s = Inr t \<Longrightarrow> iocount t = iocount s + of_nat (reads_and_writes es s)"
proof (induction es arbitrary: s)
  case (Cons e es)
  then obtain u where u: "io_step e s = Inr u" "foldE io_step es u = Inr t" by auto
  have "iocount u = iocount s + of_nat (counted e s)"
  proof (cases e)
    case (Trap k)
    with u(1) show ?thesis by (auto dest: syscall_counts)
  next
    case (World w)
    with u(1) show ?thesis by (auto simp: counted_def)
  qed
  with Cons.IH [OF u(2)] u(1) show ?case by simp
qed simp

text \<open>
  C30. \<open>getiocount\<close> counts: after any history of the kernel since it booted, in which processes made any
  system calls, slept in them and went on, a process that calls \<open>getiocount\<close> is answered the number of calls of
  \<open>read\<close> and \<open>write\<close> so far, modulo \<open>2 ^ 32\<close> and as a signed number, also those that failed, and the call counts nothing itself.
\<close>

theorem getiocount_counts:
  assumes "foldE io_step es \<lparr>iocount = 0, kst = k0\<rparr> = Inr t" "eax (kst t) = Some 22"
  shows "\<exists>u. syscall_sc None t = Inr (Finished (sint (of_nat (reads_and_writes es \<lparr>iocount = 0, kst = k0\<rparr>) :: 32 word)), u) \<and>
    iocount u = iocount t"
proof -
  obtain c where c: "cur (kst t) = Some c" "tf_field (p_tf (procs (kst t) ! c)) TF_EAX (kst t) = 22"
    using assms(2) by (auto simp: eax_def)
  have "iocount t = of_nat (reads_and_writes es \<lparr>iocount = 0, kst = k0\<rparr>)" using run_counts [OF assms(1)] by simp
  moreover have "sint (22 :: 32 word) = 22" by simp
  ultimately show ?thesis
    using c by (simp add: syscall_sc_def with_proc_def syscalls_sc_def sys_getiocount_def Let_def)
qed

text \<open>A process that calls \<open>read\<close> on a descriptor that is not open.\<close>

definition calling :: "32 word \<Rightarrow> filest" where
  "calling n = dup_state\<lparr>pmem := write32 (write32 (pmem dup_state) 0x80402004 4) (0x80403000 + TF_EAX) n\<rparr>"

theorem getiocount_counts_witness:
  "\<exists>t u. foldE io_step [Trap None, World (calling 22)] \<lparr>iocount = 0, kst = calling 5\<rparr> = Inr t \<and> syscall_sc None t = Inr (Finished 1, u)"
proof -
  let ?es = "[Trap None, World (calling 22)]" and ?s = "\<lparr>iocount = 0, kst = calling 5\<rparr>"
  have "case io_step (Trap None) ?s of Inl _ \<Rightarrow> False | Inr _ \<Rightarrow> True" by code_simp
  then obtain v where v: "io_step (Trap None) ?s = Inr v" by (auto split: sum.splits)
  have e: "eax (calling 5) = Some 5" "eax (calling 22) = Some 22" by code_simp+
  have run: "foldE io_step ?es ?s = Inr (v\<lparr>kst := calling 22\<rparr>)" using v by (simp del: io_step.simps(1))
  moreover have "reads_and_writes ?es ?s = 1" using v e(1) by (simp add: counted_def del: io_step.simps(1))
  ultimately show ?thesis using getiocount_counts [OF run] e(2) by auto
qed

end
