(* ===== verification/Ide.thy ===== *)
theory Ide
  imports Bio
begin

text \<open>
  The driver of a real disk, \<open>ide.c\<close>: a queue of buffers whose first one the disk works on, \<open>iderw\<close> up to the point
  where its process sleeps and from there on, and the interrupt handler. The registers of the disk are the last values written to
  them; the disk itself is a parameter, \<open>ctl\<close>: what its data port gives for a read command and how it changes by a
  write command with its data. Waiting for the disk to be ready is taken to end; the status \<open>st\<close> is the one that ends it.
\<close>

unbundle bit_operations_syntax

section \<open>Model\<close>

record ctl =
  c_read :: "(nat \<Rightarrow> nat) \<Rightarrow> (nat \<Rightarrow> block) \<Rightarrow> block"
  c_write :: "(nat \<Rightarrow> nat) \<Rightarrow> block \<Rightarrow> (nat \<Rightarrow> block) \<Rightarrow> (nat \<Rightarrow> block)"

record ide = bio +
  idequeue :: "nat list"
  havedisk1 :: bool
  regs :: "nat \<Rightarrow> nat"

definition outb :: "nat \<Rightarrow> nat \<Rightarrow> 'a ide_scheme \<Rightarrow> 'a ide_scheme" where
  "outb port v s = s\<lparr>regs := (regs s)(port := v mod 256)\<rparr>"

abbreviation IDE_CMD_READ :: nat where "IDE_CMD_READ \<equiv> 0x20"
abbreviation IDE_CMD_WRITE :: nat where "IDE_CMD_WRITE \<equiv> 0x30"

text \<open>What \<open>idewait\<close> answers from the status that ended its loop, and the search for the second disk, with what the status reads.\<close>

definition idewait :: "bool \<Rightarrow> nat \<Rightarrow> int" where
  "idewait checkerr r = (if checkerr \<and> r AND (0x20 OR 0x01) \<noteq> 0 then -1 else 0)"

definition ideinit :: "nat list \<Rightarrow> 'a ide_scheme \<Rightarrow> 'a ide_scheme" where
  "ideinit probe s =
     (let s = outb 0x1f6 (0xe0 OR push_bit 4 1) s;
          s = (if list_ex (\<lambda>r. r \<noteq> 0) (take 1000 probe) then s\<lparr>havedisk1 := True\<rparr> else s)
      in outb 0x1f6 (0xe0 OR push_bit 4 0) s)"

text \<open>A block is one sector. The data of a write goes to the disk after the command.\<close>

definition idestart :: "ctl \<Rightarrow> nat \<Rightarrow> 'a ide_scheme \<Rightarrow> 'a ide_scheme res" where
  "idestart ctl i s =
     (let b = bufs s ! i; sector = b_blockno b
      in if b_blockno b \<ge> FSSIZE then Inl (Panic ''incorrect blockno'')
         else
           let s = outb 0x3f6 0 s;
               s = outb 0x1f2 1 s;
               s = outb 0x1f3 (sector AND 0xff) s;
               s = outb 0x1f4 (drop_bit 8 sector AND 0xff) s;
               s = outb 0x1f5 (drop_bit 16 sector AND 0xff) s;
               s = outb 0x1f6 (0xe0 OR push_bit 4 (b_dev b AND 1) OR (drop_bit 24 sector AND 0x0f)) s
           in if b_dirty b then
                let s = outb 0x1f7 IDE_CMD_WRITE s
                in Inr (s\<lparr>disk := c_write ctl (regs s) (b_data b) (disk s)\<rparr>)
              else Inr (outb 0x1f7 IDE_CMD_READ s))"

definition ideintr :: "ctl \<Rightarrow> nat \<Rightarrow> 'a ide_scheme \<Rightarrow> 'a ide_scheme res" where
  "ideintr ctl st s =
     (case idequeue s of
        [] \<Rightarrow> Inr s
      | i # q \<Rightarrow>
        let s = s\<lparr>idequeue := q\<rparr>;
            s = (if \<not> b_dirty (bufs s ! i) \<and> idewait True st \<ge> 0 then upd_buf i (\<lambda>b. b\<lparr>b_data := c_read ctl (regs s) (disk s)\<rparr>) s else s);
            s = upd_buf i (\<lambda>b. b\<lparr>b_valid := True\<rparr>) s;
            s = upd_buf i (\<lambda>b. b\<lparr>b_dirty := False\<rparr>) s;
            s = wakeup (AtDisk i) s
        in case q of [] \<Rightarrow> Inr s | j # _ \<Rightarrow> idestart ctl j s)"

text \<open>The loop at the end of \<open>iderw\<close>: whether it is left, or the process sleeps and looks again when it is woken.\<close>

definition iderw_wait :: "nat \<Rightarrow> 'a ide_scheme \<Rightarrow> (bool \<times> 'a ide_scheme) res" where
  "iderw_wait i s =
     (if \<not> (b_valid (bufs s ! i) \<and> \<not> b_dirty (bufs s ! i)) then bindE (sleep_on (AtDisk i) s) (\<lambda>s. Inr (False, s))
      else Inr (True, s))"

definition iderw_irq :: "ctl \<Rightarrow> nat \<Rightarrow> 'a ide_scheme \<Rightarrow> (bool \<times> 'a ide_scheme) res" where
  "iderw_irq ctl i s =
     (let b = bufs s ! i
      in if \<not> holdingsleep (b_lock b) s then Inl (Panic ''iderw: buf not locked'')
         else if b_valid b \<and> \<not> b_dirty b then Inl (Panic ''iderw: nothing to do'')
         else if b_dev b \<noteq> 0 \<and> \<not> havedisk1 s then Inl (Panic ''iderw: ide disk 1 not present'')
         else
           let s = s\<lparr>idequeue := idequeue s @ [i]\<rparr>
           in bindE (if idequeue s = [i] then idestart ctl i s else Inr s) (iderw_wait i))"

section \<open>What the disk does\<close>

definition lba :: "(nat \<Rightarrow> nat) \<Rightarrow> nat" where
  "lba r = r 0x1f3 + 256 * r 0x1f4 + 65536 * r 0x1f5 + 16777216 * (r 0x1f6 mod 16)"

text \<open>The second drive, one sector at a time, addressed by the number in its registers.\<close>

definition ata :: "ctl \<Rightarrow> bool" where
  "ata ctl \<longleftrightarrow> (\<forall>r d x. r 0x1f2 = 1 \<longrightarrow> r 0x1f6 div 16 = 15 \<longrightarrow>
     (r 0x1f7 = IDE_CMD_READ \<longrightarrow> c_read ctl r d = d (lba r)) \<and> (r 0x1f7 = IDE_CMD_WRITE \<longrightarrow> c_write ctl r x d = d(lba r := x)))"

text \<open>The transfer of one buffer, which the driver of \<open>memide.c\<close> makes at once.\<close>

definition sync :: "nat \<Rightarrow> buf list \<times> (nat \<Rightarrow> block) \<Rightarrow> buf list \<times> (nat \<Rightarrow> block)" where
  "sync i a = (case a of (bs, d) \<Rightarrow>
     let b = bs ! i
     in if b_dirty b then (bs[i := b\<lparr>b_dirty := False, b_valid := True\<rparr>], d(b_blockno b := b_data b))
        else (bs[i := b\<lparr>b_data := d (b_blockno b), b_valid := True\<rparr>], d))"

lemma memide_sync: "iderw i s = Inr t \<Longrightarrow> (bufs t, disk t) = sync i (bufs s, disk s)"
  by (auto simp: iderw_def sync_def upd_buf_def Let_def split: if_splits)

text \<open>The state that the waiting requests lead to.\<close>

definition settled :: "'a ide_scheme \<Rightarrow> buf list \<times> (nat \<Rightarrow> block)" where
  "settled s = fold sync (idequeue s) (bufs s, disk s)"

section \<open>The queue\<close>

definition request :: "'a bio_scheme \<Rightarrow> nat \<Rightarrow> bool" where
  "request s i \<longleftrightarrow> i < length (bufs s) \<and> b_dev (bufs s ! i) = 1 \<and> b_blockno (bufs s ! i) < FSSIZE \<and>
     \<not> (b_valid (bufs s ! i) \<and> \<not> b_dirty (bufs s ! i))"

text \<open>The disk works on the first buffer.\<close>

definition working :: "'a ide_scheme \<Rightarrow> nat \<Rightarrow> bool" where
  "working s i \<longleftrightarrow> regs s 0x1f2 = 1 \<and> regs s 0x1f6 div 16 = 15 \<and> lba (regs s) = b_blockno (bufs s ! i) \<and>
     (if b_dirty (bufs s ! i) then disk s (b_blockno (bufs s ! i)) = b_data (bufs s ! i) else regs s 0x1f7 = IDE_CMD_READ)"

definition ide_inv :: "'a ide_scheme \<Rightarrow> bool" where
  "ide_inv s \<longleftrightarrow> distinct (idequeue s) \<and> (\<forall>i \<in> set (idequeue s). request s i) \<and> havedisk1 s \<and>
     (case idequeue s of [] \<Rightarrow> True | i # _ \<Rightarrow> working s i)"

definition command :: "nat \<Rightarrow> nat \<Rightarrow> (nat \<Rightarrow> nat) \<Rightarrow> nat \<Rightarrow> nat" where
  "command cmd n r = r(0x3f6 := 0, 0x1f2 := 1, 0x1f3 := n mod 256, 0x1f4 := n div 256 mod 256, 0x1f5 := 0, 0x1f6 := 240, 0x1f7 := cmd)"

lemma command_regs: "command cmd n r 0x1f2 = 1" "command cmd n r 0x1f6 div 16 = 15" "command cmd n r 0x1f7 = cmd"
  "n < 1000 \<Longrightarrow> lba (command cmd n r) = n"
proof -
  assume n: "n < 1000"
  then have "n mod 256 + 256 * (n div 256 mod 256) = n" by simp
  then show "lba (command cmd n r) = n" by (simp add: lba_def command_def)
qed (simp_all add: command_def)

lemma idestart_eq:
  assumes "b_dev (bufs s ! i) = 1" "b_blockno (bufs s ! i) < 1000"
  shows "idestart ctl i s =
    (let n = b_blockno (bufs s ! i)
     in Inr (if b_dirty (bufs s ! i)
             then s\<lparr>regs := command IDE_CMD_WRITE n (regs s), disk := c_write ctl (command IDE_CMD_WRITE n (regs s)) (b_data (bufs s ! i)) (disk s)\<rparr>
             else s\<lparr>regs := command IDE_CMD_READ n (regs s)\<rparr>))"
proof -
  let ?n = "b_blockno (bufs s ! i)"
  have d24: "drop_bit 24 ?n = 0" "drop_bit 16 ?n = 0" using assms(2) by (simp_all add: drop_bit_eq_div)
  have low: "?n AND 255 = ?n mod 256" "drop_bit 8 ?n AND 255 = ?n div 256 mod 256"
    using take_bit_eq_mask [of 8 ?n] take_bit_eq_mask [of 8 "drop_bit 8 ?n"]
    by (simp_all add: mask_eq_exp_minus_1 take_bit_eq_mod drop_bit_eq_div)
  have sel: "(0xe0 OR push_bit 4 (1 AND 1 :: nat) OR (0 AND 0x0f)) = 240" by (simp add: push_bit_eq_mult)
  show ?thesis unfolding idestart_def outb_def Let_def d24 low assms(1) sel using assms(2) by (simp add: command_def)
qed

lemma idestart_ok:
  assumes "ata ctl" "request s i"
  obtains t where "idestart ctl i s = Inr t" "working t i" "bufs t = bufs s" "idequeue t = idequeue s" "havedisk1 t = havedisk1 s"
    "disk t = (if b_dirty (bufs s ! i) then (disk s)(b_blockno (bufs s ! i) := b_data (bufs s ! i)) else disk s)"
    "cur t = cur s" "procs t = procs s"
proof -
  let ?n = "b_blockno (bufs s ! i)"
  have n: "b_dev (bufs s ! i) = 1" "?n < 1000" using assms(2) by (simp_all add: request_def)
  note c = command_regs(1,2,3) command_regs(4) [OF n(2)]
  have w: "c_write ctl (command IDE_CMD_WRITE ?n r) x d = d(?n := x)" for r x d
    using assms(1) c by (simp add: ata_def)
  show ?thesis
    by (rule that, rule idestart_eq [OF n, unfolded Let_def]) (simp_all add: working_def c w)
qed


section \<open>Requests and interrupts\<close>

lemma sync_again: "b_dirty (bs ! i) \<Longrightarrow> sync i (bs, d(b_blockno (bs ! i) := b_data (bs ! i))) = sync i (bs, d)"
  by (simp add: sync_def)

lemma idestart_settled:
  assumes "ata ctl" "request s i" "idequeue s = i # q"
  obtains t where "idestart ctl i s = Inr t" "working t i" "settled t = settled s" "bufs t = bufs s" "idequeue t = idequeue s"
    "havedisk1 t = havedisk1 s" "cur t = cur s" "procs t = procs s"
proof -
  obtain t where t: "idestart ctl i s = Inr t" "working t i" "bufs t = bufs s" "idequeue t = idequeue s" "havedisk1 t = havedisk1 s"
    "disk t = (if b_dirty (bufs s ! i) then (disk s)(b_blockno (bufs s ! i) := b_data (bufs s ! i)) else disk s)"
    "cur t = cur s" "procs t = procs s"
    by (rule idestart_ok [OF assms(1,2)])
  have "settled t = settled s" using sync_again [of "bufs s" i "disk s"] t(3,4,6) assms(3) by (simp add: settled_def)
  with t show ?thesis using that by blast
qed

lemma sleeping_keeps:
  assumes "sleep_on ch s = Inr t"
  shows "bufs t = bufs s" "disk t = disk s" "idequeue t = idequeue s" "havedisk1 t = havedisk1 s" "regs t = regs s"
  using assms by (auto simp: sleep_on_def upd_proc_def split: option.splits)

lemma request_ok:
  assumes ata: "ata ctl" and inv: "ide_inv s" and i: "request s i" "i \<notin> set (idequeue s)"
    and lock: "holdingsleep (b_lock (bufs s ! i)) s"
  shows "\<exists>t. iderw_irq ctl i s = Inr (False, t) \<and> ide_inv t \<and> settled t = sync i (settled s) \<and> idequeue t = idequeue s @ [i]"
proof -
  obtain p where p: "cur s = Some p" using lock by (auto simp: holdingsleep_def mypid_def split: option.splits)
  let ?s = "s\<lparr>idequeue := idequeue s @ [i]\<rparr>"
  have q: "distinct (idequeue s)" "\<forall>j \<in> set (idequeue s). request s j" "havedisk1 s"
    "\<And>j q. idequeue s = j # q \<Longrightarrow> working s j"
    using inv by (auto simp: ide_inv_def split: list.splits)
  have req: "request ?s j \<longleftrightarrow> request s j" for j by (simp add: request_def)
  have set: "settled ?s = sync i (settled s)" by (simp add: settled_def)
  have "\<exists>u. (if idequeue ?s = [i] then idestart ctl i ?s else Inr ?s) = Inr u \<and> ide_inv u \<and> settled u = sync i (settled s) \<and>
      idequeue u = idequeue s @ [i] \<and> bufs u = bufs s \<and> cur u = cur s"
  proof (cases "idequeue s")
    case Nil
    then have e: "idequeue ?s = [i]" by simp
    obtain u where "idestart ctl i ?s = Inr u" "working u i" "settled u = settled ?s" "bufs u = bufs ?s" "idequeue u = idequeue ?s"
      "havedisk1 u = havedisk1 ?s" "cur u = cur ?s" "procs u = procs ?s"
      by (rule idestart_settled [OF ata _ e]) (use i req in auto)
    with e set q(3) i(1) show ?thesis by (auto simp: ide_inv_def request_def)
  next
    case (Cons j js)
    then have "working ?s j" using q(4) by (simp add: working_def)
    with Cons set q(1,2,3) i req show ?thesis by (auto simp: ide_inv_def)
  qed
  then obtain u where u: "(if idequeue ?s = [i] then idestart ctl i ?s else Inr ?s) = Inr u" "ide_inv u" "settled u = sync i (settled s)"
    "idequeue u = idequeue s @ [i]" "bufs u = bufs s" "cur u = cur s" by blast
  obtain t where t: "sleep_on (AtDisk i) u = Inr t" using p u(6) by (simp add: sleep_on_def)
  note k = sleeping_keeps [OF t]
  have "ide_inv t" "settled t = settled u" using u(2) k by (auto simp: ide_inv_def settled_def request_def working_def split: list.splits)
  moreover have "iderw_irq ctl i s = Inr (False, t)"
    using lock i(1) q(3) u(1,5) t by (auto simp: iderw_irq_def request_def iderw_wait_def Let_def)
  ultimately show ?thesis using u(3,4) k(3) by auto
qed


text \<open>The buffer that the disk has finished.\<close>

definition finished :: "ctl \<Rightarrow> nat \<Rightarrow> 'a ide_scheme \<Rightarrow> nat \<Rightarrow> buf" where
  "finished ctl st s i =
     (let b = bufs s ! i
      in if b_dirty b then b\<lparr>b_dirty := False, b_valid := True\<rparr>
         else if idewait True st < 0 then b\<lparr>b_valid := True\<rparr> else b\<lparr>b_data := c_read ctl (regs s) (disk s), b_valid := True\<rparr>)"

lemma ideintr_eq:
  assumes "idequeue s = i # q" "i < length (bufs s)"
  shows "ideintr ctl st s =
    (let s = wakeup (AtDisk i) (s\<lparr>idequeue := q, bufs := (bufs s)[i := finished ctl st s i]\<rparr>)
     in case q of [] \<Rightarrow> Inr s | j # _ \<Rightarrow> idestart ctl j s)"
proof -
  have f: "finished ctl st s i = (let b = bufs s ! i; b = (if \<not> b_dirty b \<and> idewait True st \<ge> 0 then b\<lparr>b_data := c_read ctl (regs s) (disk s)\<rparr> else b)
      in b\<lparr>b_valid := True, b_dirty := False\<rparr>)"
    by (simp add: finished_def Let_def)
  show ?thesis unfolding ideintr_def f Let_def using assms by (cases q) (simp_all add: upd_buf_def)
qed

lemma finished_sync:
  assumes "ata ctl" "working s i" "i < length (bufs s)" "0 \<le> idewait True st"
  shows "((bufs s)[i := finished ctl st s i], disk s) = sync i (bufs s, disk s)"
proof (cases "b_dirty (bufs s ! i)")
  case True
  with assms(2) have "disk s (b_blockno (bufs s ! i)) = b_data (bufs s ! i)" by (simp add: working_def)
  with True show ?thesis by (simp add: sync_def finished_def Let_def fun_upd_idem)
next
  case False
  with assms(1,2) have "c_read ctl (regs s) (disk s) = disk s (b_blockno (bufs s ! i))" by (simp add: working_def ata_def)
  with False assms(4) show ?thesis by (simp add: sync_def finished_def Let_def)
qed

lemma woken: "bufs (wakeup ch s) = bufs s" "disk (wakeup ch s) = disk s" "idequeue (wakeup ch s) = idequeue s"
    "havedisk1 (wakeup ch s) = havedisk1 s" "regs (wakeup ch s) = regs s" "cur (wakeup ch s) = cur s"
    "procs (wakeup ch s) = map (\<lambda>p. if p_state p = SLEEPING \<and> p_chan p = Some ch then p\<lparr>p_state := RUNNABLE\<rparr> else p) (procs s)"
  by (simp_all add: wakeup_def wakeup1_def)

definition nobody_waits :: "nat \<Rightarrow> 'a kern_scheme \<Rightarrow> bool" where
  "nobody_waits i s \<longleftrightarrow> (\<forall>p \<in> set (procs s). \<not> (p_state p = SLEEPING \<and> p_chan p = Some (AtDisk i)))"

lemma interrupt_ok:
  assumes ata: "ata ctl" and st: "0 \<le> idewait True st" and inv: "ide_inv s" and q: "idequeue s = i # q"
  shows "\<exists>t. ideintr ctl st s = Inr t \<and> ide_inv t \<and> settled t = settled s \<and> idequeue t = q \<and>
    b_valid (bufs t ! i) \<and> \<not> b_dirty (bufs t ! i) \<and> nobody_waits i t \<and> cur t = cur s \<and> length (bufs t) = length (bufs s) \<and>
    (\<forall>j. nobody_waits j s \<longrightarrow> nobody_waits j t)"
proof -
  have v: "distinct (i # q)" "request s i" "\<forall>j \<in> set q. request s j" "havedisk1 s" "working s i"
    using inv by (auto simp: ide_inv_def q)
  then have len: "i < length (bufs s)" by (simp add: request_def)
  let ?u = "wakeup (AtDisk i) (s\<lparr>idequeue := q, bufs := (bufs s)[i := finished ctl st s i]\<rparr>)"
  have u: "bufs ?u = (bufs s)[i := finished ctl st s i]" "disk ?u = disk s" "idequeue ?u = q" "havedisk1 ?u" "cur ?u = cur s"
    using v(4) by (simp_all add: woken)
  have "settled ?u = fold sync q (sync i (bufs s, disk s))"
    unfolding settled_def u(1,2,3) finished_sync [OF ata v(5) len st] ..
  then have set: "settled ?u = settled s" by (simp add: settled_def q)
  have req: "request ?u j" if "j \<in> set q" for j
  proof -
    have "i \<noteq> j" using that v(1) by auto
    then show ?thesis using that v(3) by (simp add: request_def u(1))
  qed
  have fin: "b_valid (bufs ?u ! i) \<and> \<not> b_dirty (bufs ?u ! i)" unfolding u(1) using len by (simp add: finished_def Let_def)
  have nb: "nobody_waits i ?u" "nobody_waits j s \<longrightarrow> nobody_waits j ?u" for j by (auto simp: nobody_waits_def woken)
  show ?thesis
  proof (cases q)
    case Nil
    then show ?thesis using set fin nb u v(4) by (auto simp: ideintr_eq [OF q len] ide_inv_def)
  next
    case (Cons j r)
    then have e: "idequeue ?u = j # r" using u(3) by simp
    obtain t where t: "idestart ctl j ?u = Inr t" "working t j" "settled t = settled ?u" "bufs t = bufs ?u" "idequeue t = idequeue ?u"
      "havedisk1 t = havedisk1 ?u" "cur t = cur ?u" "procs t = procs ?u"
      by (rule idestart_settled [OF ata _ e]) (use req Cons in auto)
    have "request t k" if "k \<in> set q" for k using req [OF that] t(4) by (simp add: request_def)
    then have "ide_inv t" using t(2,5,6) e u(4) v(1) Cons by (auto simp: ide_inv_def)
    moreover have "nobody_waits i t" "nobody_waits j s \<longrightarrow> nobody_waits j t" for j using nb t(8) by (simp_all add: nobody_waits_def)
    moreover have "ideintr ctl st s = Inr t" using t(1) by (simp add: ideintr_eq [OF q len] Cons)
    ultimately show ?thesis using t set fin u e Cons by auto
  qed
qed


lemma drain:
  assumes "ata ctl" "0 \<le> idewait True st" "ide_inv s" "length (idequeue s) = n"
  shows "\<exists>t. foldE (\<lambda>_. ideintr ctl st) [0..<n] s = Inr t \<and> ide_inv t \<and> idequeue t = [] \<and> (bufs t, disk t) = settled s \<and>
    (\<forall>j \<in> set (idequeue s). nobody_waits j t) \<and> (\<forall>j. nobody_waits j s \<longrightarrow> nobody_waits j t) \<and> cur t = cur s \<and> length (bufs t) = length (bufs s)"
proof -
  have "\<exists>t. foldE (\<lambda>_. ideintr ctl st) xs s = Inr t \<and> ide_inv t \<and> idequeue t = [] \<and> (bufs t, disk t) = settled s \<and>
    (\<forall>j \<in> set (idequeue s). nobody_waits j t) \<and> (\<forall>j. nobody_waits j s \<longrightarrow> nobody_waits j t) \<and> cur t = cur s \<and> length (bufs t) = length (bufs s)"
    if "ide_inv s" "length (idequeue s) = length xs" for xs :: "nat list" and s :: "'a ide_scheme"
    using that
  proof (induction xs arbitrary: s)
    case Nil
    then show ?case by (simp add: settled_def)
  next
    case (Cons x xs)
    then obtain i q where q: "idequeue s = i # q" by (cases "idequeue s") auto
    obtain t where t: "ideintr ctl st s = Inr t" "ide_inv t" "settled t = settled s" "idequeue t = q" "nobody_waits i t"
      "cur t = cur s" "length (bufs t) = length (bufs s)" "\<And>j. nobody_waits j s \<Longrightarrow> nobody_waits j t"
      using interrupt_ok [OF assms(1,2) Cons.prems(1) q] by blast
    obtain u where "foldE (\<lambda>_. ideintr ctl st) xs t = Inr u" "ide_inv u" "idequeue u = []" "(bufs u, disk u) = settled t"
      "\<forall>j \<in> set (idequeue t). nobody_waits j u" "\<forall>j. nobody_waits j t \<longrightarrow> nobody_waits j u" "cur u = cur t" "length (bufs u) = length (bufs t)"
      using Cons.IH [OF t(2)] Cons.prems(2) q t(4) by auto
    with t q show ?case by (intro exI [of _ u]) auto
  qed
  from this [OF assms(3), of "[0..<n]"] assms(4) show ?thesis by simp
qed

lemma length_sync: "length (fst (sync i a)) = length (fst a)"
  by (auto simp: sync_def Let_def split: prod.split)

lemma length_settled: "length (fst (fold sync is a)) = length (fst a)"
  by (induction "is" arbitrary: a) (simp_all add: length_sync)

lemma sync_done: "i < length (fst a) \<Longrightarrow> b_valid (fst (sync i a) ! i) \<and> \<not> b_dirty (fst (sync i a) ! i)"
  by (auto simp: sync_def Let_def split: prod.split)

text \<open>
  C13. A request completes, with the effect of the synchronous driver. Whatever requests are waiting, \<open>iderw\<close> queues a new one and
  its process sleeps; after as many interrupts, without an error of the disk, as there are requests the queue is empty, the buffers and the disk are those that
  \<open>memide\<close>'s transfers of the waiting requests and then of the new one, in this order, give, no process sleeps
  for any of these buffers any more, and \<open>iderw\<close> leaves its loop.
\<close>

theorem iderw_completes:
  assumes "ata ctl" "0 \<le> idewait True st" "ide_inv s" "request s i" "i \<notin> set (idequeue s)" "holdingsleep (b_lock (bufs s ! i)) s"
  shows "\<exists>t v. iderw_irq ctl i s = Inr (False, t) \<and> foldE (\<lambda>_. ideintr ctl st) [0..<length (idequeue s) + 1] t = Inr v \<and>
    idequeue v = [] \<and> (bufs v, disk v) = sync i (fold sync (idequeue s) (bufs s, disk s)) \<and>
    (\<forall>j \<in> insert i (set (idequeue s)). nobody_waits j v) \<and> iderw_wait i v = Inr (True, v)"
proof -
  obtain t where t: "iderw_irq ctl i s = Inr (False, t)" "ide_inv t" "settled t = sync i (settled s)" "idequeue t = idequeue s @ [i]"
    using request_ok [OF assms(1,3-6)] by blast
  obtain v where v: "foldE (\<lambda>_. ideintr ctl st) [0..<length (idequeue s) + 1] t = Inr v" "idequeue v = []"
    "(bufs v, disk v) = settled t" "\<forall>j \<in> set (idequeue t). nobody_waits j v"
    using drain [OF assms(1,2) t(2), of "length (idequeue s) + 1"] t(4) by auto
  have "bufs v = fst (sync i (settled s))" using v(3) t(3) by (metis fst_conv)
  moreover have "i < length (fst (settled s))" using assms(4) by (simp add: settled_def length_settled request_def)
  ultimately have "iderw_wait i v = Inr (True, v)" using sync_done by (simp add: iderw_wait_def)
  with t v show ?thesis by (auto simp: settled_def)
qed

text \<open>A disk, and a buffer to be written.\<close>

definition ata_disk :: ctl where
  "ata_disk = \<lparr>c_read = (\<lambda>r d. d (lba r)), c_write = (\<lambda>r x d. d(lba r := x))\<rparr>"

definition one_write :: ide where
  "one_write = \<lparr>pmem = (\<lambda>_. 0), freelist = 0, use_lock = True, kend = 0, kdata = 0, kout = [],
     procs = [idle_proc, idle_proc\<lparr>p_pid := 2\<rparr>], cur = Some 0, initproc = None, nextpid = 3, ticks = 0, kpgdir = 0, cr3 = 0, esp0 = 0,
     forkret_at = 0, trapret_at = 0,
     bufs = [\<lparr>b_valid = True, b_dirty = True, b_dev = 1, b_blockno = 7, b_lock = \<lparr>sl_locked = True, sl_pid = p_pid idle_proc\<rparr>, b_refcnt = 1, b_data = (\<lambda>k. of_nat k)\<rparr>],
     mru = [0], disk = (\<lambda>_ _. 0), disksize = 1000, dwrites = [], idequeue = [], havedisk1 = True, regs = (\<lambda>_. 0)\<rparr>"

theorem iderw_completes_witness:
  "\<exists>t v. iderw_irq ata_disk 0 one_write = Inr (False, t) \<and> ideintr ata_disk 0x40 t = Inr v \<and> idequeue v = [] \<and>
    disk v 7 = (\<lambda>k. of_nat k) \<and> iderw_wait 0 v = Inr (True, v)"
proof -
  have "ata ata_disk" "0 \<le> idewait True 0x40" by (simp_all add: ata_def ata_disk_def idewait_def)
  moreover have "ide_inv one_write" "request one_write 0" "holdingsleep (b_lock (bufs one_write ! 0)) one_write"
    by (simp_all add: ide_inv_def request_def one_write_def holdingsleep_def mypid_def)
  moreover have "0 \<notin> set (idequeue one_write)" by (simp add: one_write_def)
  ultimately obtain t v where "iderw_irq ata_disk 0 one_write = Inr (False, t)"
    "foldE (\<lambda>_. ideintr ata_disk 0x40) [0..<length (idequeue one_write) + 1] t = Inr v" "idequeue v = []"
    "(bufs v, disk v) = sync 0 (fold sync (idequeue one_write) (bufs one_write, disk one_write))" "iderw_wait 0 v = Inr (True, v)"
    using iderw_completes by blast
  then show ?thesis by (intro exI [of _ t] exI [of _ v]) (simp add: one_write_def sync_def)
qed

text \<open>A read error goes unnoticed: the buffer is valid, with what was in it before.\<close>

lemma read_error_unnoticed:
  assumes "idequeue s = [i]" "i < length (bufs s)" "\<not> b_dirty (bufs s ! i)" "idewait True st < 0"
  shows "\<exists>t. ideintr ctl st s = Inr t \<and> bufs t ! i = (bufs s ! i)\<lparr>b_valid := True\<rparr>"
  using assms by (simp add: ideintr_eq finished_def woken Let_def)

end
