(* ===== verification/Blockmap.thy ===== *)
theory Blockmap
  imports Inode
begin

text \<open>
  The map of a file from its block numbers to blocks of the disk, as \<open>struct dinode\<close> and \<open>struct inode\<close> have it:
  twelve addresses and an indirect block. The map is a property of the addresses and of the blocks \<open>im\<close>, on a disk that
  is being built (\<open>Mkfs\<close>) or as they are seen through the cache (\<open>Contents\<close>).
\<close>

text \<open>Words in a block, as an inode has them.\<close>

lemma wr_words_off: "k < i \<or> i + 4 * length ws \<le> k \<Longrightarrow> wr_words i ws d k = d k"
  by (induction ws arbitrary: i d) (auto simp: wr32_def)

lemma rd32_cong: "(\<And>k. i \<le> k \<Longrightarrow> k < i + 4 \<Longrightarrow> d k = e k) \<Longrightarrow> rd32 d i = rd32 e i"
  by (simp add: rd32_def)

lemma rd16_cong: "(\<And>k. i \<le> k \<Longrightarrow> k < i + 2 \<Longrightarrow> d k = e k) \<Longrightarrow> rd16 d i = rd16 e i"
  by (simp add: rd16_def)

lemma rd_words_cong: "(\<And>k. i \<le> k \<Longrightarrow> k < i + 4 * n \<Longrightarrow> d k = e k) \<Longrightarrow> rd_words d i n = rd_words e i n"
proof (induction n arbitrary: i)
  case (Suc n)
  have "rd32 d i = rd32 e i" by (rule rd32_cong) (use Suc.prems in simp)
  moreover have "rd_words d (i + 4) n = rd_words e (i + 4) n" by (rule Suc.IH) (use Suc.prems in simp)
  ultimately show ?case by simp
qed simp

lemma rd_words_wr_words: "rd_words (wr_words i ws d) i (length ws) = ws"
proof (induction ws arbitrary: i d)
  case (Cons w ws)
  have "rd32 (wr_words (i + 4) ws (wr32 i w d)) i = rd32 (wr32 i w d) i"
    by (rule rd32_cong) (simp add: wr_words_off)
  with Cons show ?case by simp
qed simp

text \<open>The block of a file for a number.\<close>

definition fblk :: "(nat \<Rightarrow> block) \<Rightarrow> 32 word list \<Rightarrow> nat \<Rightarrow> nat" where
  "fblk im as k = (if k < NDIRECT then unat (as ! k) else unat (rd32 (im (unat (as ! NDIRECT))) (4 * (k - NDIRECT))))"

abbreviation ind_of :: "32 word list \<Rightarrow> nat" where "ind_of as \<equiv> unat (as ! NDIRECT)"

definition fbyte :: "(nat \<Rightarrow> block) \<Rightarrow> 32 word list \<Rightarrow> nat \<Rightarrow> 8 word" where
  "fbyte im as j = im (fblk im as (j div BSIZE)) (j mod BSIZE)"

definition fbytes :: "(nat \<Rightarrow> block) \<Rightarrow> 32 word list \<Rightarrow> nat \<Rightarrow> 8 word list" where
  "fbytes im as off = map (fbyte im as) [0..<off]"

definition zeroes :: block where
  "zeroes = (\<lambda>_. 0)"

text \<open>The first \<open>n\<close> blocks of the file are different blocks of \<open>B\<close>, and it has no others.\<close>

definition mapped :: "(nat \<Rightarrow> block) \<Rightarrow> nat set \<Rightarrow> 32 word list \<Rightarrow> nat \<Rightarrow> bool" where
  "mapped im B as n \<longleftrightarrow> length as = 13 \<and> n \<le> MAXFILE \<and> 0 \<notin> B \<and> (\<forall>k < n. fblk im as k \<in> B) \<and>
     inj_on (fblk im as) {..<n} \<and> (\<forall>k < NDIRECT. n \<le> k \<longrightarrow> as ! k = 0) \<and>
     (if ind_of as = 0 then n \<le> NDIRECT
      else ind_of as \<in> B \<and> (\<forall>k < n. fblk im as k \<noteq> ind_of as) \<and>
        (\<forall>k. NDIRECT \<le> k \<longrightarrow> n \<le> k \<longrightarrow> k < MAXFILE \<longrightarrow> fblk im as k = 0))"

definition blocks :: "(nat \<Rightarrow> block) \<Rightarrow> 32 word list \<Rightarrow> nat \<Rightarrow> nat set" where
  "blocks im as n = fblk im as ` {..<n} \<union> ({ind_of as} - {0})"

lemma mappedD:
  assumes "mapped im B as n"
  shows "length as = 13" "n \<le> 140" "0 \<notin> B" "k < n \<Longrightarrow> fblk im as k \<in> B"
    "inj_on (fblk im as) {..<n}" "k < 12 \<Longrightarrow> n \<le> k \<Longrightarrow> as ! k = 0" "ind_of as = 0 \<Longrightarrow> n \<le> 12"
    "ind_of as \<noteq> 0 \<Longrightarrow> ind_of as \<in> B" "ind_of as \<noteq> 0 \<Longrightarrow> k < n \<Longrightarrow> fblk im as k \<noteq> ind_of as"
    "ind_of as \<noteq> 0 \<Longrightarrow> 12 \<le> k \<Longrightarrow> n \<le> k \<Longrightarrow> k < 140 \<Longrightarrow> fblk im as k = 0"
  using assms unfolding mapped_def by (auto split: if_splits)

lemma blocks_sub: "mapped im B as n \<Longrightarrow> blocks im as n \<subseteq> B"
  by (auto simp: blocks_def dest: mappedD)

lemma mapped_mono: "mapped im B as n \<Longrightarrow> B \<subseteq> C \<Longrightarrow> 0 \<notin> C \<Longrightarrow> mapped im C as n"
  unfolding mapped_def by (auto split: if_splits)

lemma mapped_nonzero: "mapped im B as n \<Longrightarrow> k < n \<Longrightarrow> fblk im as k \<noteq> 0"
  using mappedD(3,4) [of im B as n] by metis

lemma mapped_new: "mapped im B (replicate 13 0) 0 \<longleftrightarrow> 0 \<notin> B"
  by (simp add: mapped_def nth_Cons')

text \<open>The map depends on the indirect block only, the bytes on the blocks of the file.\<close>

lemma fblk_cong:
  assumes "im' (ind_of as) = im (ind_of as)"
  shows "fblk im' as = fblk im as" "mapped im' B as n \<longleftrightarrow> mapped im B as n" "blocks im' as n = blocks im as n"
proof -
  show f: "fblk im' as = fblk im as" by (rule ext) (simp only: fblk_def assms)
  show "mapped im' B as n \<longleftrightarrow> mapped im B as n" "blocks im' as n = blocks im as n" by (simp_all only: mapped_def blocks_def f)
qed

lemma map_frame:
  assumes "\<And>b. b \<in> blocks im as n \<Longrightarrow> im' b = im b" "im' 0 = im 0"
  shows "fblk im' as = fblk im as" "mapped im' B as n = mapped im B as n" "blocks im' as n = blocks im as n"
    "j < n * 512 \<Longrightarrow> fbyte im' as j = fbyte im as j" "off \<le> n * 512 \<Longrightarrow> fbytes im' as off = fbytes im as off"
proof -
  have "im' (ind_of as) = im (ind_of as)" using assms by (cases "ind_of as = 0") (auto simp: blocks_def)
  note c = fblk_cong [where im' = im' and im = im, OF this]
  show "fblk im' as = fblk im as" "mapped im' B as n = mapped im B as n" "blocks im' as n = blocks im as n" by (rule c)+
  show byte: "fbyte im' as j = fbyte im as j" if "j < n * 512" for j
  proof -
    have "j div 512 < n" using that by (simp add: less_mult_imp_div_less)
    then have "fblk im as (j div 512) \<in> blocks im as n" by (simp add: blocks_def)
    then show ?thesis using assms(1) by (simp add: fbyte_def c)
  qed
  then show "off \<le> n * 512 \<Longrightarrow> fbytes im' as off = fbytes im as off" by (simp add: fbytes_def)
qed

text \<open>The three ways in which a file gets a block \<open>a\<close>: a direct one, the indirect one, and an entry of it.\<close>

lemma unat_addr: "a < 2 ^ 32 \<Longrightarrow> unat (of_nat a :: 32 word) = a"
  by (simp add: unat_of_nat take_bit_eq_mod)

lemma inj_add:
  fixes n :: nat
  assumes "inj_on f {..<n}" "\<And>k. k < n \<Longrightarrow> g k = f k" "g n = a" "a \<notin> f ` {..<n}"
  shows "inj_on g {..<n + 1}"
proof -
  have "inj_on g {..<n}" by (rule inj_on_cong [THEN iffD1, OF _ assms(1)]) (simp add: assms(2))
  moreover have "g ` {..<n} = f ` {..<n}" using assms(2) by (auto simp: image_def)
  then have "g n \<notin> g ` {..<n}" using assms(3,4) by simp
  moreover have "{..<n + 1} = insert n {..<n}" by auto
  ultimately show ?thesis by (simp add: Diff_insert0)
qed

lemma add_direct:
  assumes m: "mapped im B as n" and n: "n < 12" and a: "a \<noteq> 0" "a < 2 ^ 32" "a \<notin> blocks im as n"
  defines "as' \<equiv> as[n := of_nat a]"
  shows "mapped im (insert a B) as' (n + 1)" "k \<noteq> n \<Longrightarrow> fblk im as' k = fblk im as k" "fblk im as' n = a" "ind_of as' = ind_of as"
proof -
  note d = mappedD [OF m]
  show ind: "ind_of as' = ind_of as" using n by (simp add: as'_def)
  have other: "fblk im as' k = fblk im as k" if "k \<noteq> n" for k using that ind n by (auto simp: fblk_def as'_def)
  then show "k \<noteq> n \<Longrightarrow> fblk im as' k = fblk im as k" .
  show new: "fblk im as' n = a" using n d(1) unat_addr [OF a(2)] by (simp add: fblk_def as'_def)
  have "inj_on (fblk im as') {..<n + 1}"
    by (rule inj_add [OF d(5) other new]) (use a(3) in \<open>auto simp: blocks_def\<close>)
  moreover have "a \<noteq> ind_of as \<or> ind_of as = 0" using a(3) by (auto simp: blocks_def)
  ultimately show "mapped im (insert a B) as' (n + 1)"
    using d other new ind n a(1) unfolding mapped_def by (auto simp: as'_def less_Suc_eq)
qed

lemma add_indirect:
  assumes m: "mapped im B as n" and ind0: "ind_of as = 0" and a: "a \<noteq> 0" "a < 2 ^ 32" "a \<notin> blocks im as n" and z: "im a = zeroes"
  defines "as' \<equiv> as[NDIRECT := of_nat a]"
  shows "mapped im (insert a B) as' n" "k < 12 \<Longrightarrow> fblk im as' k = fblk im as k" "ind_of as' = a"
proof -
  note d = mappedD [OF m]
  have n: "n \<le> 12" using d(7) ind0 by simp
  show ind: "ind_of as' = a" using d(1) unat_addr [OF a(2)] by (simp add: as'_def)
  have other: "fblk im as' k = fblk im as k" if "k < 12" for k using that by (auto simp: fblk_def as'_def)
  then show "k < 12 \<Longrightarrow> fblk im as' k = fblk im as k" .
  have zero: "fblk im as' k = 0" if "12 \<le> k" for k using that ind by (simp add: fblk_def z zeroes_def rd32_def)
  have "inj_on (fblk im as') {..<n}" by (rule inj_on_cong [THEN iffD1, OF _ d(5)]) (use other n in simp)
  moreover have "fblk im as' k \<noteq> a" if "k < n" for k using other [of k] a(3) that n by (auto simp: blocks_def)
  ultimately show "mapped im (insert a B) as' n"
    using d other ind n zero a(1) unfolding mapped_def by (auto simp: as'_def less_Suc_eq)
qed

lemma add_entry:
  assumes m: "mapped im B as n" and ind: "ind_of as \<noteq> 0" and n: "12 \<le> n" "n < 140" and a: "a \<noteq> 0" "a < 2 ^ 32" "a \<notin> blocks im as n"
  defines "im' \<equiv> im(ind_of as := wr32 (4 * (n - NDIRECT)) (of_nat a) (im (ind_of as)))"
  shows "mapped im' (insert a B) as (n + 1)" "k \<noteq> n \<Longrightarrow> fblk im' as k = fblk im as k" "fblk im' as n = a"
proof -
  note d = mappedD [OF m]
  show new: "fblk im' as n = a" using n(1) unat_addr [OF a(2)] by (simp add: fblk_def im'_def)
  have other: "fblk im' as k = fblk im as k" if "k \<noteq> n" for k
  proof (cases "k < 12")
    case False
    then have "4 * (n - 12) + 4 \<le> 4 * (k - 12) \<or> 4 * (k - 12) + 4 \<le> 4 * (n - 12)" using that n(1) by linarith
    then show ?thesis using False by (simp add: fblk_def im'_def rd32_wr32_other)
  qed (simp add: fblk_def)
  then show "k \<noteq> n \<Longrightarrow> fblk im' as k = fblk im as k" .
  have "inj_on (fblk im' as) {..<n + 1}"
    by (rule inj_add [OF d(5) other new]) (use a(3) in \<open>auto simp: blocks_def\<close>)
  moreover have "a \<noteq> ind_of as" using a(3) ind by (auto simp: blocks_def)
  ultimately show "mapped im' (insert a B) as (n + 1)"
    using d other new ind n a(1) unfolding mapped_def by (auto simp: less_Suc_eq)
qed

text \<open>How many blocks some bytes take.\<close>

definition nblks :: "nat \<Rightarrow> nat" where
  "nblks off = (off + 511) div 512"

lemma nblks_mono: "a \<le> b \<Longrightarrow> nblks a \<le> nblks b"
  by (simp add: nblks_def div_le_mono)

lemma nblks_fits: "off \<le> nblks off * 512"
  by (simp add: nblks_def)

text \<open>One block of the file is written.\<close>

lemma put_byte:
  fixes off :: nat
  assumes m: "mapped im B as n" and k: "off div 512 < n" and len: "off mod 512 + length q \<le> 512"
  defines "im' \<equiv> im(fblk im as (off div 512) := (\<lambda>i. if off mod 512 \<le> i \<and> i < off mod 512 + length q then q ! (i - off mod 512)
     else im (fblk im as (off div 512)) i))"
  shows "mapped im' B as n" "fblk im' as = fblk im as"
    "j < n * 512 \<Longrightarrow> fbyte im' as j = (if off \<le> j \<and> j < off + length q then q ! (j - off) else fbyte im as j)"
proof -
  let ?x = "fblk im as (off div 512)"
  have "?x \<noteq> ind_of as"
  proof (cases "ind_of as = 0")
    case True
    then show ?thesis using mapped_nonzero [OF m k] by simp
  next
    case False
    show ?thesis by (rule mappedD(9) [OF m False k])
  qed
  then have "im' (ind_of as) = im (ind_of as)" by (simp add: im'_def)
  note c = fblk_cong [where im' = im' and im = im, OF this]
  show "mapped im' B as n" "fblk im' as = fblk im as" using c m by simp_all
  have byte: "fbyte im' as j = im' (fblk im as (j div 512)) (j mod 512)" by (simp add: fbyte_def c)
  show "fbyte im' as j = (if off \<le> j \<and> j < off + length q then q ! (j - off) else fbyte im as j)" if j: "j < n * 512"
  proof (cases "j div 512 = off div 512")
    case True
    have e: "off = off div 512 * 512 + off mod 512" "j = off div 512 * 512 + j mod 512" using True by (metis div_mult_mod_eq)+
    then have "off \<le> j \<longleftrightarrow> off mod 512 \<le> j mod 512" "j < off + length q \<longleftrightarrow> j mod 512 < off mod 512 + length q" "j - off = j mod 512 - off mod 512"
      by linarith+
    then show ?thesis unfolding byte using True by (simp add: fbyte_def im'_def)
  next
    case False
    have jn: "j div 512 < n" using j by (simp add: less_mult_imp_div_less)
    then have "fblk im as (j div 512) \<noteq> ?x" using mappedD(5) [OF m] k False by (auto simp: inj_on_def)
    moreover have "\<not> (off \<le> j \<and> j < off + length q)"
    proof
      assume in_range: "off \<le> j \<and> j < off + length q"
      have "off div 512 * 512 + off mod 512 = off" by (rule div_mult_mod_eq)
      then have "512 * (off div 512) \<le> j" "j < 512 * (off div 512) + 512" using len in_range by linarith+
      then have "j div 512 = off div 512" by (intro div_nat_eqI) simp_all
      with False show False ..
    qed
    ultimately show ?thesis unfolding byte by (auto simp: fbyte_def im'_def)
  qed
qed

end
