(* ===== verification/Mkfs.thy ===== *)
theory Mkfs
  imports Fs Blockmap
begin

text \<open>
  The program that builds the initial file system, \<open>mkfs.c\<close>: it runs on the host and writes the image
  that the kernel boots from. The image is the list of its sectors as a function and their number; reading a
  sector past the end fails, writing one makes the image longer. The other calls of the host (opening the files, printing)
  are taken to succeed; the files are their names and contents. \<open>xshort\<close> and \<open>xint\<close> are the little-endian layout of
  \<open>rd16\<close> and \<open>rd32\<close>.
\<close>

section \<open>Model\<close>

abbreviation NINODES :: nat where "NINODES \<equiv> 200"

definition nbitmap :: nat where "nbitmap = FSSIZE div (BSIZE * 8) + 1"
definition ninodeblocks :: nat where "ninodeblocks = NINODES div IPB + 1"
definition nlog :: nat where "nlog = LOGSIZE"
definition nmeta :: nat where "nmeta = 2 + nlog + ninodeblocks + nbitmap"

record dinode =
  d_type :: "16 word"
  d_major :: "16 word"
  d_minor :: "16 word"
  d_nlink :: "16 word"
  d_size :: "32 word"
  d_addrs :: "32 word list"

record mkfs =
  img :: "nat \<Rightarrow> block"
  nsect :: nat
  freeinode :: nat
  freeblock :: nat

definition wsect :: "nat \<Rightarrow> block \<Rightarrow> mkfs \<Rightarrow> mkfs" where
  "wsect sec buf st = st\<lparr>img := (img st)(sec := buf), nsect := max (nsect st) (sec + 1)\<rparr>"

definition rsect :: "nat \<Rightarrow> mkfs \<Rightarrow> block res" where
  "rsect sec st = (if sec < nsect st then Inr (img st sec) else Inl (Exited 1))"

text \<open>A \<open>struct dinode\<close> in a block.\<close>

definition get_dinode :: "block \<Rightarrow> nat \<Rightarrow> dinode" where
  "get_dinode d j = \<lparr>d_type = rd16 d j, d_major = rd16 d (j + 2), d_minor = rd16 d (j + 4), d_nlink = rd16 d (j + 6),
     d_size = rd32 d (j + 8), d_addrs = rd_words d (j + 12) (NDIRECT + 1)\<rparr>"

definition put_dinode :: "dinode \<Rightarrow> nat \<Rightarrow> block \<Rightarrow> block" where
  "put_dinode di j d = wr_words (j + 12) (d_addrs di) (wr32 (j + 8) (d_size di) (wr16 (j + 6) (d_nlink di)
     (wr16 (j + 4) (d_minor di) (wr16 (j + 2) (d_major di) (wr16 j (d_type di) d)))))"

definition inode_block :: "nat \<Rightarrow> nat" where
  "inode_block inum = inum div IPB + (2 + nlog)"

definition winode :: "nat \<Rightarrow> dinode \<Rightarrow> mkfs \<Rightarrow> mkfs res" where
  "winode inum di st =
     bindE (rsect (inode_block inum) st) (\<lambda>buf. Inr (wsect (inode_block inum) (put_dinode di (dinode_at inum) buf) st))"

definition rinode :: "nat \<Rightarrow> mkfs \<Rightarrow> dinode res" where
  "rinode inum st = bindE (rsect (inode_block inum) st) (\<lambda>buf. Inr (get_dinode buf (dinode_at inum)))"

definition mk_ialloc :: "16 word \<Rightarrow> mkfs \<Rightarrow> (nat \<times> mkfs) res" where
  "mk_ialloc ty st =
     (let inum = freeinode st; st = st\<lparr>freeinode := freeinode st + 1\<rparr>
      in bindE (winode inum \<lparr>d_type = ty, d_major = 0, d_minor = 0, d_nlink = 1, d_size = 0, d_addrs = replicate 13 0\<rparr> st)
           (\<lambda>st. Inr (inum, st)))"

definition mk_balloc :: "nat \<Rightarrow> mkfs \<Rightarrow> mkfs res" where
  "mk_balloc used st =
     (if \<not> used < BSIZE * 8 then Inl (Panic ''assert used'')
      else
        let buf = foldl (\<lambda>b i. b(i div 8 := b (i div 8) OR push_bit (i mod 8) 1)) zeroes [0..<used]
        in Inr (wsect (2 + nlog + ninodeblocks) buf st))"

text \<open>The block of the file that holds its block number \<open>fbn\<close>, allocated when there is none.\<close>

definition append_block :: "nat \<Rightarrow> dinode \<Rightarrow> mkfs \<Rightarrow> (nat \<times> dinode \<times> mkfs) res" where
  "append_block fbn di st =
     (if fbn < NDIRECT then
        let (di, st) = (if d_addrs di ! fbn = 0
              then (di\<lparr>d_addrs := (d_addrs di)[fbn := of_nat (freeblock st)]\<rparr>, st\<lparr>freeblock := freeblock st + 1\<rparr>)
              else (di, st))
        in Inr (unat (d_addrs di ! fbn), di, st)
      else
        let (di, st) = (if d_addrs di ! NDIRECT = 0
              then (di\<lparr>d_addrs := (d_addrs di)[NDIRECT := of_nat (freeblock st)]\<rparr>, st\<lparr>freeblock := freeblock st + 1\<rparr>)
              else (di, st));
            ind = unat (d_addrs di ! NDIRECT)
        in bindE (rsect ind st) (\<lambda>indirect.
             if rd32 indirect (4 * (fbn - NDIRECT)) = 0 then
               let x = of_nat (freeblock st) :: 32 word; st = st\<lparr>freeblock := freeblock st + 1\<rparr>
               in Inr (unat x, di, wsect ind (wr32 (4 * (fbn - NDIRECT)) x indirect) st)
             else Inr (unat (rd32 indirect (4 * (fbn - NDIRECT))), di, st)))"

lemma append_round: "p \<noteq> [] \<Longrightarrow> 0 < min (length p) ((off div 512 + 1) * 512 - off)" for off :: nat
proof -
  assume "p \<noteq> []"
  moreover have "off < (off div 512 + 1) * 512" using div_mult_mod_eq [of off 512] mod_less_divisor [of 512 off] by simp
  ultimately show ?thesis by simp
qed

function append_loop :: "8 word list \<Rightarrow> nat \<Rightarrow> dinode \<Rightarrow> mkfs \<Rightarrow> (dinode \<times> nat \<times> mkfs) res" where
  "append_loop p off di st =
     (if p = [] then Inr (di, off, st)
      else
        let fbn = off div BSIZE
        in if \<not> fbn < MAXFILE then Inl (Panic ''assert fbn < MAXFILE'')
           else
             bindE (append_block fbn di st) (\<lambda>(x, di, st).
               let n1 = min (length p) ((fbn + 1) * BSIZE - off)
               in bindE (rsect x st) (\<lambda>buf.
                    append_loop (drop n1 p) (off + n1) di (wsect x (put_bytes (off - fbn * BSIZE) (take n1 p) buf) st))))"
  by pat_completeness auto
termination
  by (relation "measure (\<lambda>(p, off, di, st). length p)") (use append_round in \<open>auto simp: not_less\<close>)

declare append_loop.simps [simp del]

definition iappend :: "nat \<Rightarrow> 8 word list \<Rightarrow> mkfs \<Rightarrow> mkfs res" where
  "iappend inum p st =
     bindE (rinode inum st) (\<lambda>di.
     bindE (append_loop p (unat (d_size di)) di st) (\<lambda>(di, off, st).
       winode inum (di\<lparr>d_size := of_nat off\<rparr>) st))"

text \<open>\<open>struct dirent\<close> with the name as \<open>strncpy\<close> leaves it.\<close>

definition dirent_bytes :: "nat \<Rightarrow> 8 word list \<Rightarrow> 8 word list" where
  "dirent_bytes inum name =
     [of_nat inum, of_nat (inum div 256)] @ take DIRSIZ name @ replicate (DIRSIZ - length name) 0"

definition superblock_bytes :: "32 word list" where
  "superblock_bytes = map of_nat [FSSIZE, FSSIZE - nmeta, NINODES, nlog, 2, 2 + nlog, 2 + nlog + ninodeblocks]"

text \<open>One host file; its contents arrive in blocks of at most \<open>BSIZE\<close> bytes.\<close>

definition add_file :: "8 word list \<times> 8 word list list \<Rightarrow> mkfs \<Rightarrow> mkfs res" where
  "add_file f st =
     (let name = (case fst f of c # cs \<Rightarrow> if c = 0x5F then cs else c # cs | [] \<Rightarrow> [])
      in if 0x2F \<in> set (fst f) then Inl (Panic ''assert index'')
         else
           bindE (mk_ialloc T_FILE st) (\<lambda>(inum, st).
           bindE (iappend ROOTINO (dirent_bytes inum name) st) (\<lambda>st.
             foldE (iappend inum) (snd f) st)))"

definition mkfs_main :: "(8 word list \<times> 8 word list list) list \<Rightarrow> mkfs res" where
  "mkfs_main files =
     (let st = \<lparr>img = (\<lambda>_. zeroes), nsect = 0, freeinode = 1, freeblock = nmeta\<rparr>;
          st = fold (\<lambda>i. wsect i zeroes) [0..<FSSIZE] st;
          st = wsect 1 (wr_words 0 superblock_bytes zeroes) st
      in bindE (mk_ialloc T_DIR st) (\<lambda>(rootino, st).
         if rootino \<noteq> ROOTINO then Inl (Panic ''assert rootino'')
         else
           bindE (iappend rootino (dirent_bytes rootino [0x2E]) st) (\<lambda>st.
           bindE (iappend rootino (dirent_bytes rootino [0x2E, 0x2E]) st) (\<lambda>st.
           bindE (foldE add_file files st) (\<lambda>st.
           bindE (rinode rootino st) (\<lambda>di.
           bindE (winode rootino (di\<lparr>d_size := of_nat ((unat (d_size di) div BSIZE + 1) * BSIZE)\<rparr>) st) (\<lambda>st.
             mk_balloc (freeblock st) st)))))))"

section \<open>Inodes in their blocks\<close>

lemma get_dinode_cong:
  assumes "\<And>k. j \<le> k \<Longrightarrow> k < j + 64 \<Longrightarrow> d k = e k"
  shows "get_dinode d j = get_dinode e j"
proof -
  have "rd16 d (j + i) = rd16 e (j + i)" if "i \<le> 6" for i by (rule rd16_cong) (use assms that in simp)
  from this [of 0] this [of 2] this [of 4] this [of 6] have
    "rd16 d j = rd16 e j" "rd16 d (j + 2) = rd16 e (j + 2)" "rd16 d (j + 4) = rd16 e (j + 4)" "rd16 d (j + 6) = rd16 e (j + 6)" by simp_all
  moreover have "rd32 d (j + 8) = rd32 e (j + 8)" by (rule rd32_cong) (use assms in simp)
  moreover have "rd_words d (j + 12) 13 = rd_words e (j + 12) 13" by (rule rd_words_cong) (use assms in simp)
  ultimately show ?thesis by (simp add: get_dinode_def)
qed

lemma get_put_dinode: "length (d_addrs di) = 13 \<Longrightarrow> get_dinode (put_dinode di j d) j = di"
proof -
  assume len: "length (d_addrs di) = 13"
  let ?e = "wr32 (j + 8) (d_size di) (wr16 (j + 6) (d_nlink di) (wr16 (j + 4) (d_minor di) (wr16 (j + 2) (d_major di) (wr16 j (d_type di) d))))"
  have head: "put_dinode di j d k = ?e k" if "k < j + 12" for k
    unfolding put_dinode_def by (rule wr_words_off) (use that in simp)
  have r16: "rd16 (put_dinode di j d) (j + i) = rd16 ?e (j + i)" if "i \<le> 6" for i
    by (rule rd16_cong) (use head that in simp)
  have "rd32 (put_dinode di j d) (j + 8) = rd32 ?e (j + 8)" by (rule rd32_cong) (use head in simp)
  moreover have "rd16 ?e j = d_type di" "rd16 ?e (j + 2) = d_major di" "rd16 ?e (j + 4) = d_minor di" "rd16 ?e (j + 6) = d_nlink di"
    by (simp_all add: rd16_def wr32_def wr16_def bytes_of_word16)
  moreover have "rd_words (put_dinode di j d) (j + 12) 13 = d_addrs di"
    using rd_words_wr_words [of "j + 12" "d_addrs di" ?e] len by (simp add: put_dinode_def)
  ultimately show ?thesis using r16 [of 0] r16 [of 2] r16 [of 4] r16 [of 6]
    by (simp add: get_dinode_def numeral_eq_Suc)
qed

lemma put_dinode_off: "length (d_addrs di) = 13 \<Longrightarrow> k < j \<or> j + 64 \<le> k \<Longrightarrow> put_dinode di j d k = d k"
  unfolding put_dinode_def by (subst wr_words_off) (auto simp: wr32_def wr16_def)

lemma inode_slots: "i \<noteq> j \<Longrightarrow> i div 8 = j div 8 \<Longrightarrow> i mod 8 * 64 + 64 \<le> j mod 8 * 64 \<or> j mod 8 * 64 + 64 \<le> i mod 8 * 64" for i j :: nat
  by (metis add.commute mult_Suc mult_le_mono1 linorder_neqE_nat Suc_leI mod_div_mult_eq)

text \<open>The inode of a number, on the disk.\<close>

definition inode_of :: "(nat \<Rightarrow> block) \<Rightarrow> nat \<Rightarrow> dinode" where
  "inode_of im i = get_dinode (im (inode_block i)) (dinode_at i)"

lemma inode_of_winode:
  assumes "winode i di st = Inr t" "length (d_addrs di) = 13"
  shows "inode_of (img t) j = (if j = i then di else inode_of (img st) j)" "b \<noteq> inode_block i \<Longrightarrow> img t b = img st b"
    "nsect t = nsect st" "freeinode t = freeinode st" "freeblock t = freeblock st"
proof -
  from assms(1) have t: "inode_block i < nsect st"
    "t = wsect (inode_block i) (put_dinode di (dinode_at i) (img st (inode_block i))) st"
    by (auto simp: winode_def rsect_def split: if_splits)
  then show "nsect t = nsect st" "freeinode t = freeinode st" "freeblock t = freeblock st" "b \<noteq> inode_block i \<Longrightarrow> img t b = img st b"
    by (simp_all add: wsect_def)
  show "inode_of (img t) j = (if j = i then di else inode_of (img st) j)"
  proof (cases "inode_block j = inode_block i")
    case False
    then show ?thesis by (auto simp: t(2) wsect_def inode_of_def)
  next
    case same: True
    show ?thesis
    proof (cases "j = i")
      case True
      then show ?thesis by (simp add: t(2) wsect_def inode_of_def get_put_dinode assms(2))
    next
      case False
      have "get_dinode (put_dinode di (dinode_at i) (img st (inode_block i))) (dinode_at j) = get_dinode (img st (inode_block i)) (dinode_at j)"
      proof (rule get_dinode_cong, rule put_dinode_off [OF assms(2)])
        fix k assume "dinode_at j \<le> k" "k < dinode_at j + 64"
        moreover have "i div 8 = j div 8" using same by (simp add: inode_block_def)
        ultimately show "k < dinode_at i \<or> dinode_at i + 64 \<le> k"
          using inode_slots [of i j] False by (auto simp: dinode_at_def)
      qed
      with False same show ?thesis by (simp add: t(2) wsect_def inode_of_def)
    qed
  qed
qed


section \<open>The blocks of a file\<close>

abbreviation dblk :: "(nat \<Rightarrow> block) \<Rightarrow> dinode \<Rightarrow> nat \<Rightarrow> nat" where "dblk im di \<equiv> fblk im (d_addrs di)"

abbreviation dbytes :: "(nat \<Rightarrow> block) \<Rightarrow> dinode \<Rightarrow> nat \<Rightarrow> 8 word list" where "dbytes im di \<equiv> fbytes im (d_addrs di)"

abbreviation dind :: "dinode \<Rightarrow> nat" where "dind di \<equiv> ind_of (d_addrs di)"

abbreviation used :: "(nat \<Rightarrow> block) \<Rightarrow> dinode \<Rightarrow> nat \<Rightarrow> nat set" where "used im di n \<equiv> blocks im (d_addrs di) n"

text \<open>The first \<open>n\<close> blocks of the file are allocated, below \<open>fb\<close> and different, and the others are not.\<close>

abbreviation wfb :: "(nat \<Rightarrow> block) \<Rightarrow> nat \<Rightarrow> dinode \<Rightarrow> nat \<Rightarrow> bool" where "wfb im fb di n \<equiv> mapped im {nmeta..<fb} (d_addrs di) n"

lemma nmeta_pos [simp]: "0 < nmeta"
  by (simp add: nmeta_def)

lemma wfbD:
  assumes "wfb im fb di n"
  shows "length (d_addrs di) = 13" "n \<le> 140" "k < n \<Longrightarrow> nmeta \<le> dblk im di k" "k < n \<Longrightarrow> dblk im di k < fb"
    "inj_on (dblk im di) {..<n}" "k < 12 \<Longrightarrow> n \<le> k \<Longrightarrow> d_addrs di ! k = 0" "dind di = 0 \<Longrightarrow> n \<le> 12"
    "dind di \<noteq> 0 \<Longrightarrow> nmeta \<le> dind di" "dind di \<noteq> 0 \<Longrightarrow> dind di < fb"
    "dind di \<noteq> 0 \<Longrightarrow> k < n \<Longrightarrow> dblk im di k \<noteq> dind di"
    "dind di \<noteq> 0 \<Longrightarrow> 12 \<le> k \<Longrightarrow> n \<le> k \<Longrightarrow> k < 140 \<Longrightarrow> dblk im di k = 0"
  using mappedD [OF assms] by auto

lemma used_range: "wfb im fb di n \<Longrightarrow> b \<in> used im di n \<Longrightarrow> nmeta \<le> b \<and> b < fb"
  using blocks_sub [of im "{nmeta..<fb}"] by fastforce

lemma wfb_more: "wfb im fb di n \<Longrightarrow> fb \<le> fb' \<Longrightarrow> wfb im fb' di n"
  by (rule mapped_mono) auto

text \<open>What is not changed in its blocks is not changed in the file.\<close>

lemma fbytes_frame:
  assumes "wfb im fb di n" "\<And>b. b \<in> used im di n \<Longrightarrow> im' b = im b" "im' 0 = im 0" "off \<le> n * 512"
  shows "dbytes im' di off = dbytes im di off" "wfb im' fb di n" "used im' di n = used im di n"
  using map_frame [where im' = im', OF assms(2,3)] assms(1,4) by simp_all

text \<open>The next block is the first one that is free.\<close>

lemma fresh: "wfb im fb di n \<Longrightarrow> fb \<notin> used im di n"
  using used_range by blast

lemma insert_next: "nmeta \<le> fb \<Longrightarrow> insert fb {nmeta..<fb} = {nmeta..<fb + 1}"
  by auto

lemma give_direct:
  assumes w: "wfb im fb di n" and n: "n < 12" "nmeta \<le> fb" "fb < 2 ^ 32"
  defines "di' \<equiv> di\<lparr>d_addrs := (d_addrs di)[n := of_nat fb]\<rparr>"
  shows "wfb im (fb + 1) di' (n + 1)" "k \<noteq> n \<Longrightarrow> dblk im di' k = dblk im di k" "dblk im di' n = fb" "dind di' = dind di"
  using add_direct [OF w n(1) _ n(3) fresh [OF w]] n(2) nmeta_pos unfolding insert_next [OF n(2)] di'_def by auto

lemma give_indirect:
  assumes w: "wfb im fb di n" and i: "dind di = 0" "nmeta \<le> fb" "fb < 2 ^ 32" "im fb = zeroes"
  defines "di' \<equiv> di\<lparr>d_addrs := (d_addrs di)[NDIRECT := of_nat fb]\<rparr>"
  shows "wfb im (fb + 1) di' n" "k < 12 \<Longrightarrow> dblk im di' k = dblk im di k" "dind di' = fb"
  using add_indirect [OF w i(1) _ i(3) fresh [OF w] i(4)] i(2) nmeta_pos unfolding insert_next [OF i(2)] di'_def by auto

lemma give_entry:
  assumes w: "wfb im fb di n" and i: "dind di \<noteq> 0" "12 \<le> n" "n < 140" "nmeta \<le> fb" "fb < 2 ^ 32"
  defines "im' \<equiv> im(dind di := wr32 (4 * (n - NDIRECT)) (of_nat fb) (im (dind di)))"
  shows "wfb im' (fb + 1) di (n + 1)" "k \<noteq> n \<Longrightarrow> dblk im' di k = dblk im di k" "dblk im' di n = fb"
  using add_entry [OF w i(1,2,3) _ i(5) fresh [OF w]] i(4) nmeta_pos unfolding insert_next [OF i(4)] im'_def by auto

text \<open>The first free block, and one more for the indirect block when there is none yet.\<close>

definition need :: "mkfs \<Rightarrow> dinode \<Rightarrow> nat" where
  "need st di = freeblock st + (if dind di = 0 then 1 else 0)"

text \<open>What \<open>append_block\<close> does for block \<open>k\<close>, either one that the file has or the next one.\<close>

definition block_added :: "nat \<Rightarrow> nat \<Rightarrow> dinode \<Rightarrow> mkfs \<Rightarrow> nat \<Rightarrow> dinode \<Rightarrow> mkfs \<Rightarrow> bool" where
  "block_added n k di st x di' st' \<longleftrightarrow>
     wfb (img st') (freeblock st') di' (max n (k + 1)) \<and> dblk (img st') di' k = x \<and> (k = n \<longrightarrow> freeblock st \<le> x) \<and>
     (\<forall>i < n. dblk (img st') di' i = dblk (img st) di i) \<and>
     (dind di' = dind di \<or> freeblock st \<le> dind di') \<and> (\<forall>b. b \<noteq> dind di' \<or> dind di' = 0 \<longrightarrow> img st' b = img st b) \<and>
     freeblock st \<le> freeblock st' \<and> need st' di' \<le> need st di + (max n (k + 1) - n) \<and> di' = di\<lparr>d_addrs := d_addrs di'\<rparr> \<and> nsect st' = FSSIZE \<and> freeinode st' = freeinode st"

lemma append_entry:
  assumes wf: "wfb (img st) (freeblock st) di n" and ind: "dind di \<noteq> 0" and n: "12 \<le> n" "n < 140"
    and room: "nmeta \<le> freeblock st" "freeblock st + 1 \<le> FSSIZE" "nsect st = FSSIZE"
  shows "\<exists>st'. append_block n di st = Inr (freeblock st, di, st') \<and> block_added n n di st (freeblock st) di st' \<and> freeblock st' = freeblock st + 1"
proof -
  note a = give_entry [OF wf ind n room(1)] and d = wfbD [OF wf]
  have fb: "freeblock st < 2 ^ 32" using room(2) by simp
  then have v: "unat (of_nat (freeblock st) :: 32 word) = freeblock st" by (simp add: unat_of_nat take_bit_eq_mod)
  let ?w = "wr32 (4 * (n - NDIRECT)) (of_nat (freeblock st)) (img st (dind di))"
  let ?t = "wsect (dind di) ?w (st\<lparr>freeblock := freeblock st + 1\<rparr>)"
  have "dblk (img st) di n = 0" using d(11) [OF ind n(1) _ n(2)] by simp
  then have z: "rd32 (img st (dind di)) (4 * (n - NDIRECT)) = 0" using n(1) by (simp add: fblk_def unat_eq_0)
  have i: "dind di < nsect st" "d_addrs di ! NDIRECT \<noteq> 0" using d(9) [OF ind] room(2,3) ind by auto
  have "append_block n di st = Inr (freeblock st, di, ?t)"
    using n i z by (simp add: append_block_def rsect_def Let_def v)
  moreover have "nsect ?t = FSSIZE" using i room(3) by (simp add: wsect_def)
  ultimately show ?thesis using a [OF fb] by (intro exI [of _ ?t]) (simp add: block_added_def wsect_def need_def ind)
qed

lemma append_block_ok:
  assumes wf: "wfb (img st) (freeblock st) di n" and k: "k < n \<or> k = n" "k < 140"
    and room: "nmeta \<le> freeblock st" "need st di + (max n (k + 1) - n) \<le> FSSIZE" "nsect st = FSSIZE" "img st (freeblock st) = zeroes"
  shows "\<exists>x di' st'. append_block k di st = Inr (x, di', st') \<and> block_added n k di st x di' st'"
proof -
  note d = wfbD [OF wf]
  have fb: "freeblock st < 2 ^ 32" using room(2) by (simp add: need_def)
  then have v: "unat (of_nat (freeblock st) :: 32 word) = freeblock st" by (simp add: unat_of_nat take_bit_eq_mod)
  show ?thesis
  proof (cases "k < n")
    case True
    then have pos: "0 < dblk (img st) di k" using d(3) [OF True] nmeta_pos by linarith
    have "append_block k di st = Inr (dblk (img st) di k, di, st)"
    proof (cases "k < 12")
      case True
      with pos show ?thesis by (auto simp: append_block_def fblk_def)
    next
      case False
      then have ind: "dind di \<noteq> 0" using \<open>k < n\<close> d(7) by auto
      then have "dind di < nsect st" using d(9) room(2,3) by (simp add: need_def)
      with False ind pos show ?thesis by (auto simp: append_block_def fblk_def rsect_def unat_eq_0 Let_def)
    qed
    moreover have "max n (k + 1) = n" using True by simp
    ultimately show ?thesis using wf True room(3) by (simp add: block_added_def)
  next
    case False
    with k have kn: "k = n" "n < 140" by auto
    show ?thesis
    proof (cases "n < 12")
      case True
      let ?di = "di\<lparr>d_addrs := (d_addrs di)[n := of_nat (freeblock st)]\<rparr>"
      have "append_block k di st = Inr (freeblock st, ?di, st\<lparr>freeblock := freeblock st + 1\<rparr>)"
        using True d(1) d(6) [of n] v by (simp add: append_block_def kn(1) Let_def)
      then show ?thesis using give_direct [OF wf True room(1) fb] room(3) by (auto simp: block_added_def kn(1) need_def)
    next
      case False
      then have n12: "12 \<le> n" by simp
      show ?thesis
      proof (cases "dind di = 0")
        case False
        from append_entry [OF wf False n12 kn(2) room(1) _ room(3)] room(2) False show ?thesis unfolding kn(1) by (auto simp: need_def)
      next
        case True
        let ?di = "di\<lparr>d_addrs := (d_addrs di)[NDIRECT := of_nat (freeblock st)]\<rparr>" and ?s = "st\<lparr>freeblock := freeblock st + 1\<rparr>"
        note a = give_indirect [OF wf True room(1) fb room(4)]
        have n: "n = 12" using d(7) True n12 by simp
        have ne: "dind ?di \<noteq> 0" using a(3) room(1) nmeta_pos by linarith
        have wf': "wfb (img ?s) (freeblock ?s) ?di n" using a(1) by simp
        obtain t where t: "append_block n ?di ?s = Inr (freeblock ?s, ?di, t)" "block_added n n ?di ?s (freeblock ?s) ?di t" "freeblock t = freeblock ?s + 1"
          using append_entry [OF wf' ne n12 kn(2)] room True by (auto simp: need_def kn(1))
        have "append_block n di st = append_block n ?di ?s"
          using True n12 ne d(1) by (auto simp: append_block_def unat_eq_0 Let_def)
        moreover have "0 < freeblock st" using room(1) nmeta_pos by linarith
        ultimately show ?thesis using t a(2,3) n True unfolding kn(1)
          by (intro exI [of _ "freeblock ?s"] exI [of _ ?di] exI [of _ t]) (auto simp: block_added_def need_def)
      qed
    qed
  qed
qed


section \<open>Appending\<close>

text \<open>From \<open>(di, st)\<close> with \<open>off\<close> bytes the file grows by \<open>p\<close>, and nothing else changes.\<close>

definition appended :: "8 word list \<Rightarrow> nat \<Rightarrow> dinode \<Rightarrow> mkfs \<Rightarrow> dinode \<Rightarrow> mkfs \<Rightarrow> bool" where
  "appended p off di st di' st' \<longleftrightarrow>
     wfb (img st') (freeblock st') di' (nblks (off + length p)) \<and>
     dbytes (img st') di' (off + length p) = dbytes (img st) di off @ p \<and>
     (\<forall>b < freeblock st. b \<notin> used (img st) di (nblks off) \<longrightarrow> img st' b = img st b) \<and>
     used (img st') di' (nblks (off + length p)) \<subseteq> used (img st) di (nblks off) \<union> {freeblock st..<freeblock st'} \<and>
     freeblock st \<le> freeblock st' \<and> need st' di' \<le> need st di + (nblks (off + length p) - nblks off) \<and>
     (\<forall>b \<ge> freeblock st'. img st' b = zeroes) \<and> nsect st' = FSSIZE \<and> freeinode st' = freeinode st \<and>
     di' = di\<lparr>d_addrs := d_addrs di'\<rparr>"

lemma appendedD:
  assumes "appended p off di st di' st'"
  shows "wfb (img st') (freeblock st') di' (nblks (off + length p))" "dbytes (img st') di' (off + length p) = dbytes (img st) di off @ p"
    "b < freeblock st \<Longrightarrow> b \<notin> used (img st) di (nblks off) \<Longrightarrow> img st' b = img st b"
    "used (img st') di' (nblks (off + length p)) \<subseteq> used (img st) di (nblks off) \<union> {freeblock st..<freeblock st'}"
    "freeblock st \<le> freeblock st'" "need st' di' \<le> need st di + (nblks (off + length p) - nblks off)"
    "freeblock st' \<le> b \<Longrightarrow> img st' b = zeroes" "nsect st' = FSSIZE" "freeinode st' = freeinode st" "di' = di\<lparr>d_addrs := d_addrs di'\<rparr>"
  using assms unfolding appended_def by blast+

lemma appended_trans:
  assumes a: "appended p off di st di' st'" and b: "appended q (off + length p) di' st' di'' st''"
  shows "appended (p @ q) off di st di'' st''"
  unfolding appended_def length_append
proof (intro conjI allI impI)
  note a = appendedD [OF a] and b = appendedD [OF b]
  have n: "nblks off \<le> nblks (off + length p)" "nblks (off + length p) \<le> nblks (off + (length p + length q))"
    by (simp_all add: nblks_mono)
  show "wfb (img st'') (freeblock st'') di'' (nblks (off + (length p + length q)))"
    "dbytes (img st'') di'' (off + (length p + length q)) = dbytes (img st) di off @ p @ q"
    "freeblock st \<le> freeblock st''" "nsect st'' = FSSIZE" "freeinode st'' = freeinode st"
    "need st'' di'' \<le> need st di + (nblks (off + (length p + length q)) - nblks off)"
    using a(2,5,6,9) b(1,2,5,6,8,9) n by (simp_all add: add.assoc)
  show "img st'' b' = zeroes" if "freeblock st'' \<le> b'" for b' using b(7) [OF that] .
  show "di'' = di\<lparr>d_addrs := d_addrs di''\<rparr>" using a(10) b(10) by (cases di; cases di'; cases di''; simp)
  show "used (img st'') di'' (nblks (off + (length p + length q))) \<subseteq> used (img st) di (nblks off) \<union> {freeblock st..<freeblock st''}"
    using a(4,5) b(4,5) by (fastforce simp: add.assoc)
  show "img st'' b' = img st b'" if x: "b' < freeblock st" "b' \<notin> used (img st) di (nblks off)" for b'
  proof -
    have "b' \<notin> used (img st') di' (nblks (off + length p))" using a(4) x by auto
    moreover have "b' < freeblock st'" using a(5) x(1) by linarith
    ultimately show ?thesis using a(3) [OF x] b(3) by simp
  qed
qed

lemma put_bytes_in: "m < length q \<Longrightarrow> put_bytes j q d (j + m) = q ! m"
  by (simp add: put_bytes_def)

text \<open>The bytes of the file after one block has been written, for any way in which the block was found.\<close>

lemma block_bytes:
  fixes off :: nat
  assumes lim: "off + length q \<le> 512 * (off div 512) + 512" and wf: "wfb im' fb di' (off div 512 + 1)"
    and x: "dblk im' di' (off div 512) = x" and old: "\<And>i. i < nblks off \<Longrightarrow> dblk im' di' i = dblk im di i"
    and same: "\<And>b. b \<noteq> dind di' \<or> dind di' = 0 \<Longrightarrow> im' b = im b" and ind: "x \<noteq> dind di'"
  shows "dbytes (im'(x := put_bytes (off - off div 512 * 512) q (im' x))) di' (off + length q) = dbytes im di off @ q"
    (is "dbytes ?im _ _ = _")
proof (rule nth_equalityI)
  let ?k = "off div 512" let ?j = "off - ?k * 512"
  note w = wfbD [OF wf]
  have cong: "dblk ?im di' = dblk im' di'" by (rule fblk_cong) (use ind in simp)
  have jmod: "?j = off mod 512" by (simp add: minus_div_mult_eq_mod)
  show "length (dbytes ?im di' (off + length q)) = length (dbytes im di off @ q)" by (simp add: fbytes_def fbyte_def)
  fix i assume "i < length (dbytes ?im di' (off + length q))"
  then have i: "i < off + length q" by (simp add: fbytes_def fbyte_def)
  have e: "dbytes ?im di' (off + length q) ! i = ?im (dblk im' di' (i div 512)) (i mod 512)"
    using i by (simp add: cong fbytes_def fbyte_def del: upt_Suc)
  show "dbytes ?im di' (off + length q) ! i = (dbytes im di off @ q) ! i"
  proof (cases "i < off")
    case True
    then have iq: "i div 512 < nblks off" "i div 512 \<le> ?k" by (auto simp: nblks_def div_le_mono)
    have o: "(dbytes im di off @ q) ! i = im (dblk im di (i div 512)) (i mod 512)"
      using True by (simp add: fbytes_def fbyte_def nth_append del: upt_Suc)
    have ne: "dblk im' di' (i div 512) \<noteq> dind di' \<or> dind di' = 0" using w(10) [of "i div 512"] iq(2) by auto
    show ?thesis
    proof (cases "i div 512 = ?k")
      case True
      then have "i mod 512 < ?j" using \<open>i < off\<close> unfolding jmod by (metis div_mult_mod_eq nat_add_left_cancel_less)
      then show ?thesis unfolding e o True x using old [of ?k] iq(1) True x same [of x] ind by (simp add: put_bytes_def)
    next
      case False
      then have "dblk im' di' (i div 512) \<noteq> x" using w(5) iq(2) x by (auto simp: inj_on_def)
      then show ?thesis unfolding e o using same [OF ne] old [OF iq(1)] by simp
    qed
  next
    case False
    have "i < 512 * ?k + 512" "512 * ?k \<le> i" using False i lim by linarith+
    then have "i div 512 = ?k" by (intro div_nat_eqI) simp_all
    moreover from this have "i mod 512 = ?j + (i - off)"
      using div_mult_mod_eq [of i 512] div_mult_mod_eq [of off 512] False jmod by linarith
    moreover have "put_bytes ?j q (im' x) (?j + (i - off)) = q ! (i - off)" by (rule put_bytes_in) (use i False in linarith)
    ultimately show ?thesis unfolding e using i False x by (simp add: nth_append fbytes_def fbyte_def)
  qed
qed

lemma block_step:
  assumes wf: "wfb (img st) (freeblock st) di (nblks off)" and off: "off < MAXFILE * 512"
    and q: "q \<noteq> []" "length q \<le> (off div 512 + 1) * 512 - off"
    and room: "nmeta \<le> freeblock st" "need st di + (nblks (off + length q) - nblks off) \<le> FSSIZE" "nsect st = FSSIZE"
      "\<forall>b \<ge> freeblock st. img st b = zeroes"
  shows "\<exists>x di' st' buf. append_block (off div 512) di st = Inr (x, di', st') \<and> rsect x st' = Inr buf \<and>
    appended q off di st di' (wsect x (put_bytes (off - off div 512 * 512) q buf) st')"
proof -
  let ?k = "off div 512" and ?n = "nblks off"
  have k: "?k < ?n \<or> ?k = ?n" "?k < 140" using off by (auto simp: nblks_def)
  have len: "0 < length q" using q(1) by simp
  have lim: "off + length q \<le> 512 * ?k + 512" "512 * ?k \<le> off" using q(2) append_round [OF q(1), of off] by simp_all
  have "512 * ?k + 1 \<le> off + length q" using lim(2) len by linarith
  then have nk1: "nblks (off + length q) = ?k + 1" using lim unfolding nblks_def by (intro div_nat_eqI) simp_all
  have "?n \<le> ?k + 1" unfolding nblks_def by linarith
  then have nk: "nblks (off + length q) = ?k + 1" "max ?n (?k + 1) = ?k + 1" using nk1 by simp_all
  obtain x di' st' where a: "append_block ?k di st = Inr (x, di', st')" "block_added ?n ?k di st x di' st'"
    using append_block_ok [OF wf k room(1) _ room(3)] room(2,4) nk by auto
  note ba = a(2) [unfolded block_added_def nk(2)]
  note w = wfbD [OF ba [THEN conjunct1]]
  let ?j = "off - ?k * 512" let ?im = "(img st')(x := put_bytes ?j q (img st' x))" and ?t = "wsect x (put_bytes (off - ?k * 512) q (img st' x)) st'"
  have x: "dblk (img st') di' ?k = x" "?k = ?n \<Longrightarrow> freeblock st \<le> x" "nmeta \<le> x" "x < freeblock st'"
    using ba w(3,4) [of ?k] by auto
  have ind: "dind di' = dind di \<or> freeblock st \<le> dind di'" "x \<noteq> dind di'"
    using ba w(10) [of ?k] x(1,3) nmeta_pos by (auto simp del: nmeta_pos) 
  have same: "img st' b = img st b" if "b \<noteq> dind di' \<or> dind di' = 0" for b using ba that by blast
  have fb: "freeblock st \<le> freeblock st'" "freeblock st' \<le> FSSIZE" "need st' di' \<le> need st di + (nblks (off + length q) - ?n)"
    using ba room(2) nk(1) by (auto simp: need_def split: if_splits)
  have old: "dblk (img st') di' i = dblk (img st) di i" if "i < ?n" for i using ba that by blast
  have cong: "dblk ?im di' = dblk (img st') di'" "wfb ?im m di' n = wfb (img st') m di' n" "used ?im di' n = used (img st') di' n" for m n
    by (rule fblk_cong; use ind(2) in simp)+
  have "wfb (img st') (freeblock st') di' (?k + 1)" using ba by blast
  note bytes = block_bytes [OF _ this x(1) old same ind(2)]
  have "appended q off di st di' ?t"
    unfolding appended_def
  proof (intro conjI allI impI)
    show "wfb (img ?t) (freeblock ?t) di' (nblks (off + length q))"
      using ba by (simp add: wsect_def cong nk(1))
    show "dbytes (img ?t) di' (off + length q) = dbytes (img st) di off @ q"
      using bytes lim(1) by (simp add: wsect_def)
    show "img ?t b = img st b" if b: "b < freeblock st" "b \<notin> used (img st) di ?n" for b
    proof -
      have "b \<noteq> x" using b x(1,2) old [of ?k] k(1) by (auto simp: blocks_def)
      moreover have "b \<noteq> dind di' \<or> dind di' = 0" using b ind(1) by (auto simp: blocks_def)
      ultimately show ?thesis using same by (simp add: wsect_def)
    qed
    show "used (img ?t) di' (nblks (off + length q)) \<subseteq>
        used (img st) di ?n \<union> {freeblock st..<freeblock ?t}"
    proof
      fix b assume "b \<in> used (img ?t) di' (nblks (off + length q))"
      then have "b \<in> used (img st') di' (?k + 1)" by (simp add: wsect_def cong nk(1))
      then consider i where "i < ?k + 1" "b = dblk (img st') di' i" | "b = dind di'" "dind di' \<noteq> 0" by (auto simp: blocks_def)
      then show "b \<in> used (img st) di ?n \<union> {freeblock st..<freeblock ?t}"
      proof cases
        case (1 i)
        then show ?thesis using old [of i] x k(1) w(4) [of i] by (cases "i < ?n") (auto simp: blocks_def wsect_def less_Suc_eq)
      next
        case 2
        then show ?thesis using ind(1) w(9) by (auto simp: blocks_def wsect_def)
      qed
    qed
    show "img ?t b = zeroes"
      if "freeblock ?t \<le> b" for b
    proof -
      have b: "freeblock st' \<le> b" using that by (simp add: wsect_def)
      then have "b \<noteq> x" "b \<noteq> dind di' \<or> dind di' = 0" using x(4) w(9) by auto
      then show ?thesis using same [of b] room(4) fb(1) b by (simp add: wsect_def)
    qed
    show "nsect ?t = FSSIZE" using ba x(4) fb(2) by (simp add: wsect_def)
  qed (use ba fb in \<open>auto simp: wsect_def need_def\<close>)
  moreover have "rsect x st' = Inr (img st' x)" using ba x(4) fb(2) by (simp add: rsect_def)
  ultimately show ?thesis using a(1) by blast
qed


lemma appended_nil:
  "wfb (img st) (freeblock st) di (nblks off) \<Longrightarrow> nsect st = FSSIZE \<Longrightarrow> \<forall>b \<ge> freeblock st. img st b = zeroes \<Longrightarrow> appended [] off di st di st"
  by (simp add: appended_def)

lemma append_loop_ok:
  assumes "wfb (img st) (freeblock st) di (nblks off)" "off + length p \<le> MAXFILE * 512" "nmeta \<le> freeblock st"
    "need st di + (nblks (off + length p) - nblks off) \<le> FSSIZE" "nsect st = FSSIZE" "\<forall>b \<ge> freeblock st. img st b = zeroes"
  shows "\<exists>di' st'. append_loop p off di st = Inr (di', off + length p, st') \<and> appended p off di st di' st'"
  using assms
proof (induction p arbitrary: off di st rule: length_induct)
  case (1 p off di st)
  show ?case
  proof (cases "p = []")
    case True
    then show ?thesis using appended_nil "1.prems" by (auto simp: append_loop.simps)
  next
    case False
    define n where "n = min (length p) ((off div 512 + 1) * 512 - off)"
    have n: "0 < n" "n \<le> length p" "n \<le> (off div 512 + 1) * 512 - off"
      using append_round [OF False, of off] by (auto simp: n_def)
    have off: "off < MAXFILE * 512" using "1.prems"(2) n by linarith
    have q: "length (take n p) = n" using n(2) by simp
    then have q1: "take n p \<noteq> []" using n(1) by (metis length_0_conv less_irrefl)
    have mono: "nblks off \<le> nblks (off + n)" "nblks (off + n) \<le> nblks (off + length p)" using n(2) by (auto intro!: nblks_mono)
    have lim: "length (take n p) \<le> (off div 512 + 1) * 512 - off" unfolding q by (rule n(3))
    have rm: "need st di + (nblks (off + length (take n p)) - nblks off) \<le> FSSIZE"
      unfolding q using "1.prems"(4) mono by linarith
    obtain x di1 st1 buf where b: "append_block (off div 512) di st = Inr (x, di1, st1)" "rsect x st1 = Inr buf"
      and a: "appended (take n p) off di st di1 (wsect x (put_bytes (off - off div 512 * 512) (take n p) buf) st1)"
      using block_step [OF "1.prems"(1) off q1 lim "1.prems"(3) rm "1.prems"(5,6)] by blast
    let ?s = "wsect x (put_bytes (off - off div 512 * 512) (take n p) buf) st1"
    note d = appendedD [OF a, unfolded q]
    have len: "off + n + length (drop n p) = off + length p" using n by simp
    have "\<exists>di' st'. append_loop (drop n p) (off + n) di1 ?s = Inr (di', off + n + length (drop n p), st') \<and>
        appended (drop n p) (off + n) di1 ?s di' st'"
    proof (rule "1.IH" [rule_format])
      show "length (drop n p) < length p" using n by simp
      show "wfb (img ?s) (freeblock ?s) di1 (nblks (off + n))" by (rule d(1))
      show "off + n + length (drop n p) \<le> MAXFILE * 512" unfolding len by (rule "1.prems"(2))
      show "nmeta \<le> freeblock ?s" using d(5) "1.prems"(3) by linarith
      show "need ?s di1 + (nblks (off + n + length (drop n p)) - nblks (off + n)) \<le> FSSIZE"
        unfolding len using d(6) mono "1.prems"(4) by linarith
      show "nsect ?s = FSSIZE" by (rule d(8))
    qed (rule d(7))
    then obtain di' st' where r: "append_loop (drop n p) (off + n) di1 ?s = Inr (di', off + length p, st')"
      "appended (drop n p) (off + n) di1 ?s di' st'" unfolding len by blast
    have "appended (take n p @ drop n p) off di st di' st'" by (rule appended_trans [OF a]) (simp only: q r(2))
    moreover have "off div 512 < MAXFILE" using off by (simp add: less_mult_imp_div_less)
    ultimately show ?thesis using False b r(1) unfolding append_loop.simps [of p off di st] Let_def n_def [symmetric] by simp
  qed
qed


section \<open>The whole image\<close>

abbreviation MAXINUM :: nat where "MAXINUM \<equiv> 208"

definition fsize :: "mkfs \<Rightarrow> nat \<Rightarrow> nat" where
  "fsize st i = unat (d_size (inode_of (img st) i))"

definition file_of :: "mkfs \<Rightarrow> nat \<Rightarrow> 8 word list" where
  "file_of st i = dbytes (img st) (inode_of (img st) i) (fsize st i)"

definition blocks_of :: "mkfs \<Rightarrow> nat \<Rightarrow> nat set" where
  "blocks_of st i = used (img st) (inode_of (img st) i) (nblks (fsize st i))"

text \<open>Every inode has its blocks, no block has two owners, and those not handed out are zero.\<close>

definition mk_inv :: "mkfs \<Rightarrow> bool" where
  "mk_inv st \<longleftrightarrow> nmeta \<le> freeblock st \<and> nsect st = FSSIZE \<and> (\<forall>b \<ge> freeblock st. img st b = zeroes) \<and>
     (\<forall>i < MAXINUM. wfb (img st) (freeblock st) (inode_of (img st) i) (nblks (fsize st i))) \<and>
     (\<forall>i < MAXINUM. \<forall>j < MAXINUM. i \<noteq> j \<longrightarrow> blocks_of st i \<inter> blocks_of st j = {}) \<and>
     img st 1 = wr_words 0 superblock_bytes zeroes \<and> img st 2 = zeroes"

lemma inode_block_high: "b < 32 \<Longrightarrow> b \<noteq> inode_block i"
  by (simp add: inode_block_def nlog_def)

lemma mk_invD:
  assumes "mk_inv st"
  shows "nmeta \<le> freeblock st" "nsect st = FSSIZE" "\<forall>b \<ge> freeblock st. img st b = zeroes"
    "i < MAXINUM \<Longrightarrow> wfb (img st) (freeblock st) (inode_of (img st) i) (nblks (fsize st i))"
    "i < MAXINUM \<Longrightarrow> j < MAXINUM \<Longrightarrow> i \<noteq> j \<Longrightarrow> blocks_of st i \<inter> blocks_of st j = {}"
    "img st 1 = wr_words 0 superblock_bytes zeroes" "img st 2 = zeroes"
  using assms unfolding mk_inv_def by blast+

lemma inode_block_meta: "i < MAXINUM \<Longrightarrow> 2 \<le> inode_block i \<and> inode_block i < nmeta \<and> inode_block i \<noteq> 2 + nlog + ninodeblocks"
  by (auto simp: inode_block_def nmeta_def ninodeblocks_def nbitmap_def)

text \<open>An inode that a change of the image leaves alone keeps its file.\<close>

lemma file_frame:
  assumes inv: "mk_inv st" and j: "j < MAXINUM" and same: "inode_of (img t) j = inode_of (img st) j"
    and blk: "\<And>b. b \<in> blocks_of st j \<Longrightarrow> img t b = img st b" "img t 0 = img st 0" and fb: "freeblock st \<le> freeblock t"
  shows "file_of t j = file_of st j" "blocks_of t j = blocks_of st j"
    "wfb (img t) (freeblock t) (inode_of (img t) j) (nblks (fsize t j))" "fsize t j = fsize st j"
proof -
  note w = mk_invD(4) [OF inv j]
  note f = fbytes_frame [OF w blk(1) [unfolded blocks_of_def] blk(2) nblks_fits]
  show "fsize t j = fsize st j" by (simp add: fsize_def same)
  then show "file_of t j = file_of st j" "blocks_of t j = blocks_of st j" using f by (simp_all add: file_of_def blocks_of_def same)
  show "wfb (img t) (freeblock t) (inode_of (img t) j) (nblks (fsize t j))"
    using wfb_more [OF f(2) fb] by (simp add: same fsize_def)
qed


definition needed :: "mkfs \<Rightarrow> nat \<Rightarrow> nat" where
  "needed st i = need st (inode_of (img st) i)"

text \<open>\<open>iappend\<close> makes one file longer.\<close>

definition extended :: "nat \<Rightarrow> 8 word list \<Rightarrow> mkfs \<Rightarrow> mkfs \<Rightarrow> bool" where
  "extended i p st t \<longleftrightarrow> mk_inv t \<and> file_of t i = file_of st i @ p \<and> fsize t i = fsize st i + length p \<and>
     (\<forall>j < MAXINUM. j \<noteq> i \<longrightarrow> file_of t j = file_of st j \<and> inode_of (img t) j = inode_of (img st) j) \<and>
     inode_of (img t) i = (inode_of (img st) i)\<lparr>d_addrs := d_addrs (inode_of (img t) i), d_size := d_size (inode_of (img t) i)\<rparr> \<and>
     freeinode t = freeinode st \<and> freeblock st \<le> freeblock t \<and>
     needed t i \<le> needed st i + (nblks (fsize st i + length p) - nblks (fsize st i))"

lemma unat_small: "m \<le> 71680 \<Longrightarrow> unat (of_nat m :: 32 word) = m"
  by (simp add: unat_of_nat take_bit_eq_mod)

lemma iappend_ok:
  assumes inv: "mk_inv st" and i: "i < MAXINUM" and len: "fsize st i + length p \<le> MAXFILE * 512"
    and room: "needed st i + (nblks (fsize st i + length p) - nblks (fsize st i)) \<le> FSSIZE"
  shows "\<exists>t. iappend i p st = Inr t \<and> extended i p st t"
proof -
  note d = mk_invD [OF inv]
  let ?di = "inode_of (img st) i" and ?off = "fsize st i"
  obtain di' st' where l: "append_loop p ?off ?di st = Inr (di', ?off + length p, st')" and a: "appended p ?off ?di st di' st'"
    using append_loop_ok [OF d(4) [OF i] len d(1) room [unfolded needed_def] d(2,3)] by blast
  note a = appendedD [OF a]
  let ?d2 = "di'\<lparr>d_size := of_nat (?off + length p)\<rparr>"
  have ib: "inode_block i < nmeta" "2 \<le> inode_block i" using inode_block_meta [OF i] by simp_all
  have dlen: "length (d_addrs ?d2) = 13" using wfbD(1) [OF a(1)] by simp
  have nm: "nmeta \<le> FSSIZE" by (simp add: nmeta_def ninodeblocks_def nbitmap_def nlog_def)
  obtain t where t: "winode i ?d2 st' = Inr t"
    using ib(1) a(8) nm by (simp add: winode_def rsect_def)
  note w = inode_of_winode [OF t dlen]
  have "rinode i st = Inr ?di" using ib(1) d(2) nm by (simp add: rinode_def rsect_def inode_of_def)
  then have run: "iappend i p st = Inr t" using l t by (simp add: iappend_def fsize_def)
  have v: "unat (of_nat (?off + length p) :: 32 word) = ?off + length p" by (rule unat_small) (use len in simp)
  have keep: "img t b = img st b" if "b < freeblock st" "b \<notin> blocks_of st i" "b \<noteq> inode_block i" for b
    using that a(3) w(2) by (simp add: blocks_of_def)
  have low: "b \<notin> blocks_of st j" if "b < nmeta" "j < MAXINUM" for b j
    using that used_range [OF d(4)] by (fastforce simp: blocks_of_def)
  have other: "inode_of (img t) j = inode_of (img st) j" if "j < MAXINUM" "j \<noteq> i" for j
  proof -
    have "img st' (inode_block j) = img st (inode_block j)"
      using a(3) [of "inode_block j"] low [of "inode_block j" i] inode_block_meta [OF that(1)] i d(1) by (simp add: blocks_of_def)
    then show ?thesis using w(1) [of j] that(2) by (simp add: inode_of_def)
  qed
  have frame: "file_of t j = file_of st j" "blocks_of t j = blocks_of st j"
    "wfb (img t) (freeblock t) (inode_of (img t) j) (nblks (fsize t j))" if j: "j < MAXINUM" "j \<noteq> i" for j
  proof -
    have "img t b = img st b" if "b \<in> blocks_of st j" for b
      using that keep [of b] used_range [OF d(4) [OF j(1)], of b] d(5) [OF i j(1)] j(2) ib(1) by (auto simp: blocks_of_def)
    moreover have "img t 0 = img st 0" using keep [of 0] d(1) nmeta_pos low [OF nmeta_pos i] ib(2) by linarith
    ultimately show "file_of t j = file_of st j" "blocks_of t j = blocks_of st j"
      "wfb (img t) (freeblock t) (inode_of (img t) j) (nblks (fsize t j))"
      using file_frame [OF inv j(1) other [OF j]] a(5) w(5) by auto
  qed
  have self: "inode_of (img t) i = ?d2" "fsize t i = ?off + length p" using w(1) [of i] v by (simp_all add: fsize_def)
  have img: "img t b = img st' b" if "b \<in> used (img st') di' (nblks (?off + length p))" for b
    using that used_range [OF a(1), of b] ib(1) w(2) by auto
  note f = fbytes_frame [OF a(1) img _ nblks_fits]
  have z: "img t 0 = img st' 0" using w(2) ib(2) by simp
  have own: "file_of t i = file_of st i @ p" "wfb (img t) (freeblock t) (inode_of (img t) i) (nblks (fsize t i))"
    "blocks_of t i \<subseteq> blocks_of st i \<union> {freeblock st..<freeblock t}"
    using f [OF _ z] a(2,4) w(5) by (simp_all add: file_of_def blocks_of_def self)
  have "mk_inv t"
    unfolding mk_inv_def
  proof (intro conjI allI impI)
    show "nmeta \<le> freeblock t" using d(1) a(5) w(5) by simp
    show "nsect t = FSSIZE" using a(8) w(3) by simp
    have "img t b = img st b" if "b < 32" for b
    proof -
      have "b < nmeta" using that by (simp add: nmeta_def nlog_def)
      then show ?thesis using keep [of b] low [OF _ i] d(1) inode_block_high [OF that] by (meson less_le_trans)
    qed
    then show "img t 1 = wr_words 0 superblock_bytes zeroes" "img t 2 = zeroes" using d(6,7) by simp_all
    show "img t b = zeroes" if "freeblock t \<le> b" for b
      using that a(5,7) w(2) [of b] w(5) ib(1) d(1) by simp
    show "wfb (img t) (freeblock t) (inode_of (img t) j) (nblks (fsize t j))" if "j < MAXINUM" for j
      using frame(3) own(2) that by (cases "j = i") simp_all
    have fresh: "blocks_of t i \<inter> blocks_of t j = {}" if "j < MAXINUM" "j \<noteq> i" for j
      using own(3) frame(2) [OF that] d(5) [OF i that(1)] that(2) used_range [OF d(4) [OF that(1)]] by (fastforce simp: blocks_of_def)
    show "blocks_of t j \<inter> blocks_of t k = {}" if "j < MAXINUM" "k < MAXINUM" "j \<noteq> k" for j k
      using fresh [of j] fresh [of k] frame(2) d(5) [OF that] that by (cases "j = i"; cases "k = i"; fastforce)
  qed
  moreover have "needed t i \<le> needed st i + (nblks (?off + length p) - nblks ?off)"
    using a(6) w(5) by (simp add: needed_def self need_def)
  ultimately show ?thesis using run own(1) self(2) frame(1) other w(4,5) a(5,9,10)
    by (intro exI [of _ t]) (auto simp: extended_def self(1))
qed


lemma extendedD:
  assumes "extended i p st t"
  shows "mk_inv t" "file_of t i = file_of st i @ p" "fsize t i = fsize st i + length p"
    "j < MAXINUM \<Longrightarrow> j \<noteq> i \<Longrightarrow> file_of t j = file_of st j" "j < MAXINUM \<Longrightarrow> j \<noteq> i \<Longrightarrow> inode_of (img t) j = inode_of (img st) j"
    "inode_of (img t) i = (inode_of (img st) i)\<lparr>d_addrs := d_addrs (inode_of (img t) i), d_size := d_size (inode_of (img t) i)\<rparr>"
    "freeinode t = freeinode st" "freeblock st \<le> freeblock t"
    "needed t i \<le> needed st i + (nblks (fsize st i + length p) - nblks (fsize st i))"
  using assms unfolding extended_def by blast+

lemma extended_trans: "extended i p st t \<Longrightarrow> extended i q t u \<Longrightarrow> extended i (p @ q) st u"
proof -
  assume a: "extended i p st t" and b: "extended i q t u"
  note a = extendedD [OF a] and b = extendedD [OF b]
  have "nblks (fsize st i) \<le> nblks (fsize st i + length p)" "nblks (fsize st i + length p) \<le> nblks (fsize st i + length p + length q)"
    by (auto intro!: nblks_mono)
  then have "needed u i \<le> needed st i + (nblks (fsize st i + (length p + length q)) - nblks (fsize st i))"
    using a(3,9) b(9) by (simp add: add.assoc)
  moreover have "inode_of (img u) i = (inode_of (img st) i)\<lparr>d_addrs := d_addrs (inode_of (img u) i), d_size := d_size (inode_of (img u) i)\<rparr>"
    by (subst b(6), subst a(6)) simp
  moreover have "file_of u j = file_of st j \<and> inode_of (img u) j = inode_of (img st) j" if "j < MAXINUM" "j \<noteq> i" for j
    using a(4,5) [OF that] b(4,5) [OF that] by simp
  ultimately show ?thesis using a(2,3,7,8) b(1,2,3,7,8) unfolding extended_def by simp
qed

lemma iappends_ok:
  assumes "mk_inv st" "i < MAXINUM" "fsize st i + length (concat ps) \<le> MAXFILE * 512"
    "needed st i + (nblks (fsize st i + length (concat ps)) - nblks (fsize st i)) \<le> FSSIZE"
  shows "\<exists>t. foldE (iappend i) ps st = Inr t \<and> extended i (concat ps) st t"
  using assms
proof (induction ps arbitrary: st)
  case Nil
  then show ?case by (simp add: extended_def)
next
  case (Cons p ps)
  let ?a = "fsize st i"
  have mono: "nblks ?a \<le> nblks (?a + length p)" "nblks (?a + length p) \<le> nblks (?a + length p + length (concat ps))"
    by (auto intro!: nblks_mono)
  have len: "?a + length p \<le> MAXFILE * 512" "?a + length p + length (concat ps) \<le> MAXFILE * 512" using Cons.prems(3) by simp_all
  have room: "needed st i + (nblks (?a + length p + length (concat ps)) - nblks ?a) \<le> FSSIZE" using Cons.prems(4) by (simp add: add.assoc)
  then have "needed st i + (nblks (?a + length p) - nblks ?a) \<le> FSSIZE" using mono by linarith
  then obtain t where t: "iappend i p st = Inr t" "extended i p st t" using iappend_ok [OF Cons.prems(1,2) len(1)] by blast
  note d = extendedD [OF t(2)]
  have "needed t i + (nblks (fsize t i + length (concat ps)) - nblks (fsize t i)) \<le> FSSIZE"
    using d(9) room mono unfolding d(3) by linarith
  then obtain u where "foldE (iappend i) ps t = Inr u" "extended i (concat ps) t u"
    using Cons.IH [OF d(1) Cons.prems(2)] len(2) d(3) by auto
  with t show ?case using extended_trans by (auto simp: add.assoc)
qed

text \<open>A new inode.\<close>

definition allocated :: "16 word \<Rightarrow> mkfs \<Rightarrow> mkfs \<Rightarrow> bool" where
  "allocated ty st t \<longleftrightarrow> mk_inv t \<and> file_of t (freeinode st) = [] \<and> fsize t (freeinode st) = 0 \<and> d_type (inode_of (img t) (freeinode st)) = ty \<and>
     (\<forall>j < MAXINUM. j \<noteq> freeinode st \<longrightarrow> file_of t j = file_of st j \<and> inode_of (img t) j = inode_of (img st) j) \<and>
     freeinode t = freeinode st + 1 \<and> freeblock t = freeblock st \<and> needed t (freeinode st) = freeblock st + 1"

lemma ialloc_ok:
  assumes inv: "mk_inv st" and i: "freeinode st < MAXINUM"
  shows "\<exists>t. mk_ialloc ty st = Inr (freeinode st, t) \<and> allocated ty st t"
proof -
  note d = mk_invD [OF inv]
  let ?i = "freeinode st" and ?s = "st\<lparr>freeinode := freeinode st + 1\<rparr>"
  let ?di = "\<lparr>d_type = ty, d_major = 0, d_minor = 0, d_nlink = 1, d_size = 0, d_addrs = replicate 13 0\<rparr>"
  have ib: "inode_block ?i < nmeta" "2 \<le> inode_block ?i" using inode_block_meta [OF i] by simp_all
  have nm: "nmeta \<le> FSSIZE" by (simp add: nmeta_def ninodeblocks_def nbitmap_def nlog_def)
  obtain t where t: "winode ?i ?di ?s = Inr t" using ib(1) d(2) nm by (simp add: winode_def rsect_def)
  have run: "mk_ialloc ty st = Inr (?i, t)" using t by (simp add: mk_ialloc_def Let_def)
  have "length (d_addrs ?di) = 13" by simp
  note w = inode_of_winode [OF t this]
  have self: "inode_of (img t) ?i = ?di" "fsize t ?i = 0" using w(1) [of ?i] by (simp_all add: fsize_def)
  have other: "inode_of (img t) j = inode_of (img st) j" if "j \<noteq> ?i" for j using w(1) [of j] that by simp
  have frame: "file_of t j = file_of st j" "blocks_of t j = blocks_of st j"
    "wfb (img t) (freeblock t) (inode_of (img t) j) (nblks (fsize t j))" if j: "j < MAXINUM" "j \<noteq> ?i" for j
  proof -
    have "img t b = img st b" if "b \<in> blocks_of st j" for b
      using that used_range [OF d(4) [OF j(1)], of b] ib(1) w(2) by (auto simp: blocks_of_def)
    moreover have "img t 0 = img st 0" using w(2) ib(2) by simp
    ultimately show "file_of t j = file_of st j" "blocks_of t j = blocks_of st j"
      "wfb (img t) (freeblock t) (inode_of (img t) j) (nblks (fsize t j))"
      using file_frame [OF inv j(1) other [OF j(2)]] w(5) by auto
  qed
  have none: "blocks_of t ?i = {}" by (simp add: blocks_of_def self blocks_def nblks_def)
  have "mk_inv t"
    unfolding mk_inv_def
  proof (intro conjI allI impI)
    show "nmeta \<le> freeblock t" "nsect t = FSSIZE" using d(1,2) w(3,5) by simp_all
    have "img t b = img st b" if "b < 32" for b using w(2) [OF inode_block_high [OF that]] by simp
    then show "img t 1 = wr_words 0 superblock_bytes zeroes" "img t 2 = zeroes" using d(6,7) by simp_all
    show "img t b = zeroes" if "freeblock t \<le> b" for b using that d(1,3) w(2,5) ib(1) by simp
    show "wfb (img t) (freeblock t) (inode_of (img t) j) (nblks (fsize t j))" if "j < MAXINUM" for j
      using frame(3) [OF that] by (cases "j = ?i") (simp_all add: self nblks_def mapped_new)
    show "blocks_of t j \<inter> blocks_of t k = {}" if "j < MAXINUM" "k < MAXINUM" "j \<noteq> k" for j k
      using none frame(2) d(5) [OF that] that by (cases "j = ?i"; cases "k = ?i"; simp)
  qed
  then show ?thesis using run frame(1) other self w(4,5)
    by (intro exI [of _ t]) (auto simp: allocated_def file_of_def fbytes_def fbyte_def needed_def need_def)
qed


lemma allocatedD:
  assumes "allocated ty st t"
  shows "mk_inv t" "file_of t (freeinode st) = []" "fsize t (freeinode st) = 0" "d_type (inode_of (img t) (freeinode st)) = ty"
    "j < MAXINUM \<Longrightarrow> j \<noteq> freeinode st \<Longrightarrow> file_of t j = file_of st j"
    "j < MAXINUM \<Longrightarrow> j \<noteq> freeinode st \<Longrightarrow> inode_of (img t) j = inode_of (img st) j"
    "freeinode t = freeinode st + 1" "freeblock t = freeblock st" "needed t (freeinode st) = freeblock st + 1"
  using assms unfolding allocated_def by blast+

lemma same_inode:
  assumes "inode_of (img t) j = inode_of (img st) j"
  shows "fsize t j = fsize st j" "needed t j + freeblock st = needed st j + freeblock t" "freeblock st \<le> needed st j" "needed st j \<le> freeblock st + 1"
  using assms by (simp_all add: fsize_def needed_def need_def)

definition stored_name :: "8 word list \<Rightarrow> 8 word list" where
  "stored_name f = (case f of c # cs \<Rightarrow> if c = 0x5F then cs else c # cs | [] \<Rightarrow> [])"

text \<open>The file system has got the file \<open>f\<close>, under its name in the root directory.\<close>

definition added :: "8 word list \<times> 8 word list list \<Rightarrow> mkfs \<Rightarrow> mkfs \<Rightarrow> bool" where
  "added f st t \<longleftrightarrow> mk_inv t \<and> freeinode t = freeinode st + 1 \<and>
     file_of t ROOTINO = file_of st ROOTINO @ dirent_bytes (freeinode st) (stored_name (fst f)) \<and>
     fsize t ROOTINO = fsize st ROOTINO + 16 \<and> d_type (inode_of (img t) ROOTINO) = d_type (inode_of (img st) ROOTINO) \<and>
     file_of t (freeinode st) = concat (snd f) \<and> d_type (inode_of (img t) (freeinode st)) = T_FILE \<and>
     (\<forall>j < MAXINUM. j \<noteq> ROOTINO \<longrightarrow> j \<noteq> freeinode st \<longrightarrow> file_of t j = file_of st j \<and> inode_of (img t) j = inode_of (img st) j) \<and>
     needed t ROOTINO \<le> needed st ROOTINO + (nblks (fsize st ROOTINO + 16) - nblks (fsize st ROOTINO)) + (nblks (length (concat (snd f))) + 1)"

lemma length_dirent_bytes: "length (dirent_bytes i name) = 16"
  by (auto simp: dirent_bytes_def min_def)

lemma add_file_ok:
  assumes inv: "mk_inv st" and i: "ROOTINO < freeinode st" "freeinode st < MAXINUM" and slash: "0x2F \<notin> set (fst f)"
    and len: "fsize st ROOTINO + 16 \<le> MAXFILE * 512" "length (concat (snd f)) \<le> MAXFILE * 512"
    and room: "needed st ROOTINO + (nblks (fsize st ROOTINO + 16) - nblks (fsize st ROOTINO)) + (nblks (length (concat (snd f))) + 1) \<le> FSSIZE"
  shows "\<exists>t. add_file f st = Inr t \<and> added f st t"
proof -
  let ?i = "freeinode st" and ?e = "dirent_bytes (freeinode st) (stored_name (fst f))"
  have r: "ROOTINO < MAXINUM" "ROOTINO \<noteq> ?i" using i by simp_all
  obtain t1 where t1: "mk_ialloc T_FILE st = Inr (?i, t1)" "allocated T_FILE st t1" using ialloc_ok [OF inv i(2)] by blast
  note a = allocatedD [OF t1(2)]
  note s1 = same_inode [OF a(6) [OF r]]
  have "needed t1 ROOTINO + (nblks (fsize t1 ROOTINO + length ?e) - nblks (fsize t1 ROOTINO)) \<le> FSSIZE"
    using room s1 a(8) by (simp add: length_dirent_bytes)
  then obtain t2 where t2: "iappend ROOTINO ?e t1 = Inr t2" "extended ROOTINO ?e t1 t2"
    using iappend_ok [OF a(1) r(1), of ?e] len(1) s1(1) by (auto simp: length_dirent_bytes)
  note b = extendedD [OF t2(2)]
  have ib: "inode_of (img t2) ?i = inode_of (img t1) ?i" "file_of t2 ?i = []" using b(4,5) i a(2) by simp_all
  note s2 = same_inode [OF ib(1)]
  have z: "fsize t2 ?i = 0" using s2(1) a(3) by simp
  have n2: "needed t2 ?i \<le> needed t2 ROOTINO + 1" "needed t2 ROOTINO \<le> needed st ROOTINO + (nblks (fsize st ROOTINO + 16) - nblks (fsize st ROOTINO))"
    using s2(2) a(8,9) b(8,9) s1 same_inode(3) [of t2 ROOTINO t2] by (simp_all add: length_dirent_bytes)
  have z0: "nblks 0 = 0" by (simp add: nblks_def)
  have "needed t2 ?i + (nblks (fsize t2 ?i + length (concat (snd f))) - nblks (fsize t2 ?i)) \<le> FSSIZE"
    unfolding z z0 using n2 room by simp
  then obtain t3 where t3: "foldE (iappend ?i) (snd f) t2 = Inr t3" "extended ?i (concat (snd f)) t2 t3"
    using iappends_ok [OF b(1) i(2), of "snd f"] len(2) z by auto
  note c = extendedD [OF t3(2)]
  note s3 = same_inode [OF c(5) [OF r]]
  have run: "add_file f st = Inr t3" using t1(1) t2(1) t3(1) slash by (simp add: add_file_def stored_name_def)
  have "needed t3 ?i \<le> needed t2 ROOTINO + 1 + nblks (length (concat (snd f)))" using c(9) n2(1) unfolding z z0 by simp
  moreover have "freeblock t3 \<le> needed t3 ?i" by (rule same_inode(3)) simp
  moreover have "needed t2 ?i = freeblock t2 + 1" using s2(2) a(8,9) by simp
  ultimately have "needed t3 ROOTINO \<le> needed t2 ROOTINO + (nblks (length (concat (snd f))) + 1)"
    using s3(2) c(9) unfolding z z0 by simp
  moreover have "file_of t3 ROOTINO = file_of st ROOTINO @ ?e" using a(5) [OF r] b(2) c(4) [OF r] by simp
  moreover have "fsize t3 ROOTINO = fsize st ROOTINO + 16" using s1(1) s3(1) b(3) by (simp add: length_dirent_bytes)
  moreover have "d_type (inode_of (img t3) ROOTINO) = d_type (inode_of (img st) ROOTINO)"
    using a(6) [OF r] c(5) [OF r] arg_cong [OF b(6), of d_type] by simp
  moreover have "file_of t3 ?i = concat (snd f)" using c(2) ib(2) by simp
  moreover have "d_type (inode_of (img t3) ?i) = T_FILE" using arg_cong [OF c(6), of d_type] ib(1) a(4) by simp
  moreover have "file_of t3 j = file_of st j \<and> inode_of (img t3) j = inode_of (img st) j" if "j < MAXINUM" "j \<noteq> ROOTINO" "j \<noteq> ?i" for j
    using a(5,6) b(4,5) c(4,5) that by simp
  ultimately show ?thesis using run c(1,7) b(7) a(7) n2(2) unfolding added_def by simp
qed


fun entries :: "nat \<Rightarrow> (8 word list \<times> 8 word list list) list \<Rightarrow> 8 word list" where
  "entries n [] = []"
| "entries n (f # fs) = dirent_bytes n (stored_name (fst f)) @ entries (n + 1) fs"

definition cost :: "(8 word list \<times> 8 word list list) list \<Rightarrow> nat" where
  "cost files = (\<Sum>f \<leftarrow> files. nblks (length (concat (snd f))) + 1)"

lemma cost_simps [simp]: "cost [] = 0" "cost (f # fs) = nblks (length (concat (snd f))) + 1 + cost fs"
  by (simp_all add: cost_def)

definition stored :: "nat \<Rightarrow> (8 word list \<times> 8 word list list) list \<Rightarrow> mkfs \<Rightarrow> bool" where
  "stored k files t \<longleftrightarrow> (\<forall>i < length files. file_of t (k + i) = concat (snd (files ! i)) \<and> d_type (inode_of (img t) (k + i)) = T_FILE)"

lemma storedD: "stored k files t \<Longrightarrow> i < length files \<Longrightarrow> file_of t (k + i) = concat (snd (files ! i))"
  by (simp add: stored_def)

lemma stored_Cons:
  "file_of t k = concat (snd f) \<Longrightarrow> d_type (inode_of (img t) k) = T_FILE \<Longrightarrow> stored (k + 1) fs t \<Longrightarrow> stored k (f # fs) t"
  by (auto simp: stored_def nth_Cons split: nat.splits)

lemma add_files_ok:
  assumes "mk_inv st" "ROOTINO < freeinode st" "freeinode st + length files \<le> MAXINUM"
    "\<forall>f \<in> set files. 0x2F \<notin> set (fst f) \<and> length (concat (snd f)) \<le> MAXFILE * 512"
    "fsize st ROOTINO + 16 * length files \<le> MAXFILE * 512"
    "needed st ROOTINO + (nblks (fsize st ROOTINO + 16 * length files) - nblks (fsize st ROOTINO)) + cost files \<le> FSSIZE"
  shows "\<exists>t. foldE add_file files st = Inr t \<and> mk_inv t \<and> stored (freeinode st) files t \<and>
    file_of t ROOTINO = file_of st ROOTINO @ entries (freeinode st) files \<and> fsize t ROOTINO = fsize st ROOTINO + 16 * length files \<and>
    d_type (inode_of (img t) ROOTINO) = d_type (inode_of (img st) ROOTINO) \<and> freeblock t \<le> FSSIZE \<and>
    (\<forall>j < freeinode st. j \<noteq> ROOTINO \<longrightarrow> file_of t j = file_of st j \<and> inode_of (img t) j = inode_of (img st) j)"
  using assms
proof (induction files arbitrary: st)
  case Nil
  moreover have "freeblock st \<le> needed st ROOTINO" by (rule same_inode(3)) simp
  ultimately show ?case by (simp add: stored_def)
next
  case (Cons f fs)
  let ?a = "fsize st ROOTINO" and ?i = "freeinode st"
  have mono: "nblks ?a \<le> nblks (?a + 16)" "nblks (?a + 16) \<le> nblks (?a + 16 + 16 * length fs)" by (auto intro!: nblks_mono)
  have room: "needed st ROOTINO + (nblks (?a + 16 + 16 * length fs) - nblks ?a) + (nblks (length (concat (snd f))) + 1) + cost fs \<le> FSSIZE"
    using Cons.prems(6) by (simp add: add.assoc)
  have i: "?i < MAXINUM" and f: "0x2F \<notin> set (fst f)" "length (concat (snd f)) \<le> MAXFILE * 512" and len: "?a + 16 \<le> MAXFILE * 512"
    using Cons.prems(3,4,5) by auto
  have "needed st ROOTINO + (nblks (?a + 16) - nblks ?a) + (nblks (length (concat (snd f))) + 1) \<le> FSSIZE" using room mono by linarith
  then obtain t where t: "add_file f st = Inr t" "added f st t"
    using add_file_ok [OF Cons.prems(1,2) i f(1) len f(2)] by blast
  note d = t(2) [unfolded added_def]
  have i1: "freeinode t = ?i + 1" "fsize t ROOTINO = ?a + 16" using d by blast+
  have need: "needed t ROOTINO \<le> needed st ROOTINO + (nblks (?a + 16) - nblks ?a) + (nblks (length (concat (snd f))) + 1)" using d by blast
  have "needed t ROOTINO + (nblks (fsize t ROOTINO + 16 * length fs) - nblks (fsize t ROOTINO)) + cost fs \<le> FSSIZE"
    unfolding i1 using need room mono by linarith
  then obtain u where u: "foldE add_file fs t = Inr u" "mk_inv u" "stored (?i + 1) fs u"
    "file_of u ROOTINO = file_of t ROOTINO @ entries (?i + 1) fs" "fsize u ROOTINO = fsize t ROOTINO + 16 * length fs"
    "d_type (inode_of (img u) ROOTINO) = d_type (inode_of (img t) ROOTINO)" "freeblock u \<le> FSSIZE"
    "\<forall>j < ?i + 1. j \<noteq> ROOTINO \<longrightarrow> file_of u j = file_of t j \<and> inode_of (img u) j = inode_of (img t) j"
    using Cons.IH [of t] d Cons.prems i1 by auto
  have "stored ?i (f # fs) u" by (rule stored_Cons) (use u(3,8) d Cons.prems(2) in simp_all)
  moreover have "file_of u j = file_of st j \<and> inode_of (img u) j = inode_of (img st) j" if "j < ?i" "j \<noteq> ROOTINO" for j
    using u(8) d that i by simp
  ultimately show ?case using t(1) u d i1 by simp
qed

section \<open>The bitmap\<close>

definition balloc_bits :: "nat \<Rightarrow> block" where
  "balloc_bits n = foldl (\<lambda>b i. b(i div 8 := b (i div 8) OR push_bit (i mod 8) 1)) zeroes [0..<n]"

lemma bit_balloc: "bit (balloc_bits n (b div 8)) (b mod 8) \<longleftrightarrow> b < n"
proof (induction n)
  case (Suc n)
  have "balloc_bits (Suc n) = (balloc_bits n)(n div 8 := balloc_bits n (n div 8) OR push_bit (n mod 8) 1)"
    by (simp add: balloc_bits_def)
  moreover have "b div 8 = n div 8 \<Longrightarrow> b mod 8 = n mod 8 \<longleftrightarrow> b = n" by (metis div_mult_mod_eq)
  moreover have "b mod 8 < 8" by simp
  ultimately show ?case using Suc
    by (cases "b div 8 = n div 8") (auto simp: bit_or_iff bit_exp_iff possible_bit_word less_Suc_eq)
qed (simp add: balloc_bits_def zeroes_def)


section \<open>mkfs\<close>

definition fits :: "(8 word list \<times> 8 word list list) list \<Rightarrow> bool" where
  "fits files \<longleftrightarrow> length files + 2 \<le> NINODES \<and>
     (\<forall>f \<in> set files. 0x2F \<notin> set (fst f) \<and> length (concat (snd f)) \<le> MAXFILE * 512) \<and>
     nmeta + 1 + nblks (16 * (length files + 2)) + cost files \<le> FSSIZE"

definition dots :: "8 word list" where
  "dots = dirent_bytes ROOTINO [0x2E] @ dirent_bytes ROOTINO [0x2E, 0x2E]"

lemma wipe_all: "fold (\<lambda>i. wsect i zeroes) [0..<n] \<lparr>img = (\<lambda>_. zeroes), nsect = 0, freeinode = a, freeblock = c\<rparr> =
  \<lparr>img = (\<lambda>_. zeroes), nsect = n, freeinode = a, freeblock = c\<rparr>"
  by (induction n) (auto simp: wsect_def fun_upd_idem)

definition formatted :: mkfs where
  "formatted = \<lparr>img = (\<lambda>_. zeroes)(1 := wr_words 0 superblock_bytes zeroes), nsect = FSSIZE, freeinode = 1, freeblock = nmeta\<rparr>"

lemma inode_zeroes: "get_dinode zeroes j = \<lparr>d_type = 0, d_major = 0, d_minor = 0, d_nlink = 0, d_size = 0, d_addrs = replicate 13 0\<rparr>"
  by (simp add: get_dinode_def zeroes_def rd16_def rd32_def numeral_eq_Suc)

lemma formatted_inv: "mk_inv formatted" "needed formatted ROOTINO = nmeta + 1" "freeinode formatted = ROOTINO"
proof -
  have i: "inode_of (img formatted) i = \<lparr>d_type = 0, d_major = 0, d_minor = 0, d_nlink = 0, d_size = 0, d_addrs = replicate 13 0\<rparr>" for i
    by (simp add: inode_of_def formatted_def inode_block_def inode_zeroes)
  then have s: "fsize formatted i = 0" "blocks_of formatted i = {}" for i by (simp_all add: fsize_def blocks_of_def blocks_def nblks_def)
  have "1 < nmeta" by (simp add: nmeta_def)
  then show "mk_inv formatted" unfolding mk_inv_def i s by (auto simp: formatted_def nblks_def mapped_new)
  show "needed formatted ROOTINO = nmeta + 1" unfolding needed_def i by (simp add: need_def formatted_def)
  show "freeinode formatted = ROOTINO" by (simp add: formatted_def)
qed

text \<open>Before the last two steps.\<close>

lemma filled_ok:
  assumes "fits files"
  shows "\<exists>s1 s2 s3 t. mk_ialloc T_DIR formatted = Inr (ROOTINO, s1) \<and> iappend ROOTINO (dirent_bytes ROOTINO [0x2E]) s1 = Inr s2 \<and>
    iappend ROOTINO (dirent_bytes ROOTINO [0x2E, 0x2E]) s2 = Inr s3 \<and> foldE add_file files s3 = Inr t \<and>
    mk_inv t \<and> stored 2 files t \<and> file_of t ROOTINO = dots @ entries 2 files \<and> fsize t ROOTINO = 16 * (length files + 2) \<and>
    d_type (inode_of (img t) ROOTINO) = T_DIR \<and> freeblock t \<le> FSSIZE"
proof -
  let ?d1 = "dirent_bytes ROOTINO [0x2E]" and ?d2 = "dirent_bytes ROOTINO [0x2E, 0x2E]"
  note f = formatted_inv
  have "freeinode formatted < MAXINUM" unfolding f(3) by simp
  then obtain s1 where s1: "mk_ialloc T_DIR formatted = Inr (ROOTINO, s1)" "allocated T_DIR formatted s1"
    using ialloc_ok [OF f(1)] f(3) by metis
  note a = allocatedD [OF s1(2), unfolded f(3)]
  have n1: "needed s1 ROOTINO = nmeta + 1" using a(9) by (simp add: formatted_def)
  have b: "nblks (0 + length ?d1) = 1" "nblks 0 = 0" "nblks (length ?d1 + length ?d2) = 1" by (simp_all add: length_dirent_bytes nblks_def)
  have nm: "nmeta + 2 \<le> FSSIZE" by (simp add: nmeta_def ninodeblocks_def nbitmap_def nlog_def)
  have "needed s1 ROOTINO + (nblks (fsize s1 ROOTINO + length ?d1) - nblks (fsize s1 ROOTINO)) \<le> FSSIZE"
    unfolding a(3) b n1 using nm by simp
  then obtain s2 where s2: "iappend ROOTINO ?d1 s1 = Inr s2" "extended ROOTINO ?d1 s1 s2"
    using iappend_ok [OF a(1), of ROOTINO ?d1] a(3) by (auto simp: length_dirent_bytes)
  note e = extendedD [OF s2(2)]
  have z2: "fsize s2 ROOTINO = length ?d1" "needed s2 ROOTINO \<le> nmeta + 2" using e(3,9) unfolding a(3) b n1 by simp_all
  have "nblks (length ?d1) = 1" using b(1) by simp
  then have "needed s2 ROOTINO + (nblks (fsize s2 ROOTINO + length ?d2) - nblks (fsize s2 ROOTINO)) \<le> FSSIZE"
    unfolding z2(1) b(3) using z2(2) nm by simp
  then obtain s3 where s3: "iappend ROOTINO ?d2 s2 = Inr s3" "extended ROOTINO ?d2 s2 s3"
    using iappend_ok [OF e(1), of ROOTINO ?d2] z2(1) by (auto simp: length_dirent_bytes)
  note g = extendedD [OF s3(2)]
  have z3: "fsize s3 ROOTINO = 32" "freeinode s3 = 2" using g(3,7) z2(1) e(7) a(7) by (simp_all add: length_dirent_bytes)
  have n3: "needed s3 ROOTINO \<le> nmeta + 2"
    using g(9) z2(2) unfolding z2(1) b(3) \<open>nblks (length ?d1) = 1\<close> by simp
  have "nblks 32 = 1" "1 \<le> nblks (32 + 16 * length files)" by (simp_all add: nblks_def)
  moreover have "nmeta + 1 + nblks (32 + 16 * length files) + cost files \<le> FSSIZE"
    using assms unfolding fits_def by (simp add: add.commute)
  ultimately have "needed s3 ROOTINO + (nblks (fsize s3 ROOTINO + 16 * length files) - nblks (fsize s3 ROOTINO)) + cost files \<le> FSSIZE"
    using n3 unfolding z3 by linarith
  moreover have "freeinode s3 + length files \<le> MAXINUM" "ROOTINO < freeinode s3" "fsize s3 ROOTINO + 16 * length files \<le> MAXFILE * 512"
    "\<forall>f \<in> set files. 0x2F \<notin> set (fst f) \<and> length (concat (snd f)) \<le> MAXFILE * 512"
    using assms unfolding z3 fits_def by simp_all
  ultimately obtain t where t: "foldE add_file files s3 = Inr t" "mk_inv t" "stored (freeinode s3) files t"
    "file_of t ROOTINO = file_of s3 ROOTINO @ entries (freeinode s3) files" "fsize t ROOTINO = fsize s3 ROOTINO + 16 * length files"
    "d_type (inode_of (img t) ROOTINO) = d_type (inode_of (img s3) ROOTINO)" "freeblock t \<le> FSSIZE"
    using add_files_ok [OF g(1)] by blast
  have "d_type (inode_of (img t) ROOTINO) = T_DIR"
    using t(6) arg_cong [OF g(6), of d_type] arg_cong [OF e(6), of d_type] a(4) by simp
  moreover have "file_of t ROOTINO = dots @ entries 2 files" using t(4) g(2) e(2) a(2) z3(2) by (simp add: dots_def)
  ultimately show ?thesis using s1(1) s2(1) s3(1) t z3 by (intro exI [of _ s1] exI [of _ s2] exI [of _ s3] exI [of _ t]) simp
qed


lemma mk_balloc_ok:
  assumes "mk_balloc n st = Inr t"
  shows "n < 4096" "b \<noteq> 2 + nlog + ninodeblocks \<Longrightarrow> img t b = img st b" "bit (img t (2 + nlog + ninodeblocks) (b div 8)) (b mod 8) \<longleftrightarrow> b < n"
    "freeblock t = freeblock st"
  using assms bit_balloc [of n b] by (auto simp: mk_balloc_def wsect_def balloc_bits_def Let_def split: if_splits)

text \<open>The blocks that belong to inode \<open>i\<close>; those of the root directory hold \<open>n\<close> bytes, its recorded size is rounded up.\<close>

definition owned :: "nat \<Rightarrow> mkfs \<Rightarrow> nat \<Rightarrow> nat set" where
  "owned n t i = used (img t) (inode_of (img t) i) (nblks (if i = ROOTINO then n else fsize t i))"

lemma mkfs_main_ok:
  assumes "fits files"
  defines "n \<equiv> 16 * (length files + 2)"
  shows "\<exists>t. mkfs_main files = Inr t \<and> stored 2 files t \<and> d_type (inode_of (img t) ROOTINO) = T_DIR \<and>
    dbytes (img t) (inode_of (img t) ROOTINO) n = dots @ entries 2 files \<and> fsize t ROOTINO = (n div 512 + 1) * 512 \<and>
    (\<forall>i < MAXINUM. \<forall>b \<in> owned n t i. nmeta \<le> b \<and> b < freeblock t) \<and>
    (\<forall>i < MAXINUM. \<forall>j < MAXINUM. i \<noteq> j \<longrightarrow> owned n t i \<inter> owned n t j = {}) \<and>
    (\<forall>b. bit (img t (2 + nlog + ninodeblocks) (b div 8)) (b mod 8) \<longleftrightarrow> b < freeblock t) \<and>
    (\<forall>i < MAXINUM. wfb (img t) (freeblock t) (inode_of (img t) i) (nblks (if i = ROOTINO then n else fsize t i))) \<and>
    img t 1 = wr_words 0 superblock_bytes zeroes \<and> img t 2 = zeroes \<and> freeblock t \<le> FSSIZE \<and> nmeta \<le> freeblock t"
proof -
  obtain s1 s2 s3 u where s: "mk_ialloc T_DIR formatted = Inr (ROOTINO, s1)" "iappend ROOTINO (dirent_bytes ROOTINO [0x2E]) s1 = Inr s2"
    "iappend ROOTINO (dirent_bytes ROOTINO [0x2E, 0x2E]) s2 = Inr s3" "foldE add_file files s3 = Inr u"
    and u: "mk_inv u" "stored 2 files u" "file_of u ROOTINO = dots @ entries 2 files" "fsize u ROOTINO = n"
      "d_type (inode_of (img u) ROOTINO) = T_DIR" "freeblock u \<le> FSSIZE"
    using filled_ok [OF assms(1)] unfolding n_def by blast
  note d = mk_invD [OF u(1)]
  let ?di = "inode_of (img u) ROOTINO" let ?d2 = "?di\<lparr>d_size := of_nat ((n div 512 + 1) * 512)\<rparr>"
  have nm: "nmeta \<le> FSSIZE" and r: "ROOTINO < MAXINUM" and files: "length files + 2 \<le> 200" using assms(1)
    by (simp_all add: nmeta_def ninodeblocks_def nbitmap_def nlog_def fits_def)
  have ib: "inode_block ROOTINO < nmeta" "2 \<le> inode_block ROOTINO" using inode_block_meta [OF r] by blast+
  obtain v where v: "winode ROOTINO ?d2 u = Inr v" using ib(1) d(2) nm by (simp add: winode_def rsect_def)
  have "length (d_addrs ?d2) = 13" using wfbD(1) [OF d(4) [OF r]] by simp
  note w = inode_of_winode [OF v this]
  have "freeblock v < BSIZE * 8" using u(6) w(5) by simp
  then obtain t where t: "mk_balloc (freeblock v) v = Inr t" unfolding mk_balloc_def Let_def by simp
  note y = mk_balloc_ok [OF t]
  have ru: "rinode ROOTINO u = Inr ?di" using ib(1) d(2) nm by (simp add: rinode_def rsect_def inode_of_def)
  have sz: "unat (d_size ?di) = n" using u(4) by (simp add: fsize_def)
  have "mkfs_main files = Inr t"
    using s v t ru sz unfolding mkfs_main_def wipe_all Let_def by (simp add: wsect_def formatted_def)
  have ino: "inode_of (img t) j = (if j = ROOTINO then ?d2 else inode_of (img u) j)" if "j < MAXINUM" for j
    using w(1) [of j] y(2) inode_block_meta [OF that] by (simp add: inode_of_def)
  have blk: "img t b = img u b" if "nmeta \<le> b \<or> b = 0" for b
    using that y(2) [of b] w(2) [of b] ib by (auto simp: nmeta_def ninodeblocks_def nbitmap_def)
  have fr: "dbytes (img t) (inode_of (img u) j) (fsize u j) = dbytes (img u) (inode_of (img u) j) (fsize u j)"
    "wfb (img t) (freeblock u) (inode_of (img u) j) (nblks (fsize u j))"
    "used (img t) (inode_of (img u) j) (nblks (fsize u j)) = blocks_of u j" if "j < MAXINUM" for j
    unfolding blocks_of_def
    by (rule fbytes_frame [OF d(4) [OF that]]; use blk used_range [OF d(4) [OF that]] nblks_fits in auto)+
  have own: "owned n t j = blocks_of u j" if "j < MAXINUM" for j
    using fr(3) [OF that] u(4) by (auto simp: owned_def ino [OF that] fsize_def)
  have keep: "file_of t j = file_of u j \<and> d_type (inode_of (img t) j) = d_type (inode_of (img u) j)" if "j < MAXINUM" "j \<noteq> ROOTINO" for j
    using fr(1) [OF that(1)] that(2) ino [OF that(1)] by (simp add: file_of_def fsize_def)
  have "stored 2 files t" using u(2) keep files by (auto simp: stored_def)
  moreover have "dbytes (img t) (inode_of (img t) ROOTINO) n = dots @ entries 2 files"
    using fr(1) [OF r] u(3,4) ino [OF r] by (simp add: file_of_def)
  moreover have "wfb (img t) (freeblock t) (inode_of (img t) j) (nblks (if j = ROOTINO then n else fsize t j))" if "j < MAXINUM" for j
    using fr(2) [OF that] u(4) y(4) w(5) ino [OF that] by (auto simp: fsize_def)
  moreover have "img t b = img u b" if "b < 32" for b
    using y(2) [of b] w(2) [of b] inode_block_high [OF that] that by (simp add: nlog_def)
  then have "img t 1 = wr_words 0 superblock_bytes zeroes" "img t 2 = zeroes" using d(6,7) by simp_all
  moreover have "freeblock t \<le> FSSIZE" "nmeta \<le> freeblock t" using u(6) d(1) y(4) w(5) by simp_all
  moreover have "fsize t ROOTINO = (n div 512 + 1) * 512"
  proof -
    have "unat (of_nat ((n div 512 + 1) * 512) :: 32 word) = (n div 512 + 1) * 512" by (rule unat_small) (use files in \<open>simp add: n_def\<close>)
    then show ?thesis using ino [OF r] by (simp only: fsize_def) simp
  qed
  moreover have "d_type (inode_of (img t) ROOTINO) = T_DIR" using u(5) ino [OF r] by simp
  moreover have "nmeta \<le> b \<and> b < freeblock t" if "i < MAXINUM" "b \<in> owned n t i" for i b
    using used_range [OF d(4) [OF that(1)]] that y(4) w(5) by (simp add: own blocks_of_def)
  ultimately show ?thesis using \<open>mkfs_main files = Inr t\<close> y(3,4) d(5) own by (intro exI [of _ t]) auto
qed


text \<open>
  C8. \<open>mkfs\<close> builds a file system. When the files fit on the disk it ends without an error; the root directory
  then holds the entries of \<open>.\<close>, \<open>..\<close> and of every file under its name, the inode numbered by that entry is a file whose contents
  are the bytes read from the host, in blocks that have been handed out and that no other file has, and the bitmap
  marks exactly the blocks below the first free one.
\<close>

theorem mkfs_builds:
  assumes "fits files"
  defines "n \<equiv> 16 * (length files + 2)"
  shows "\<exists>t. mkfs_main files = Inr t \<and> d_type (inode_of (img t) ROOTINO) = T_DIR \<and>
    dbytes (img t) (inode_of (img t) ROOTINO) n = dots @ entries 2 files \<and> stored 2 files t \<and>
    (\<forall>i < MAXINUM. \<forall>b \<in> owned n t i. nmeta \<le> b \<and> b < freeblock t) \<and>
    (\<forall>i < MAXINUM. \<forall>j < MAXINUM. i \<noteq> j \<longrightarrow> owned n t i \<inter> owned n t j = {}) \<and>
    (\<forall>b. bit (img t (2 + nlog + ninodeblocks) (b div 8)) (b mod 8) \<longleftrightarrow> b < freeblock t)"
  using mkfs_main_ok [OF assms(1)] unfolding n_def by blast

theorem mkfs_builds_witness:
  "\<exists>t. mkfs_main [([0x5F, 0x61], [[1, 2], [3]]), ([0x62], [])] = Inr t \<and> file_of t 2 = [1, 2, 3] \<and> file_of t 3 = [] \<and>
    dbytes (img t) (inode_of (img t) ROOTINO) 64 = dots @ dirent_bytes 2 [0x61] @ dirent_bytes 3 [0x62]"
proof -
  let ?fs = "[([0x5F, 0x61], [[1, 2], [3]]), ([0x62], [])] :: (8 word list \<times> 8 word list list) list"
  have "fits ?fs" by (simp add: fits_def cost_def nblks_def nmeta_def ninodeblocks_def nbitmap_def nlog_def)
  from mkfs_builds [OF this] obtain t where t: "mkfs_main ?fs = Inr t" "stored 2 ?fs t"
    "dbytes (img t) (inode_of (img t) ROOTINO) (16 * (length ?fs + 2)) = dots @ entries 2 ?fs" by blast
  have "file_of t 2 = [1, 2, 3]" "file_of t 3 = []"
    using storedD [OF t(2), of 0] storedD [OF t(2), of 1] by simp_all
  moreover have "dbytes (img t) (inode_of (img t) ROOTINO) 64 = dots @ dirent_bytes 2 [0x61] @ dirent_bytes 3 [0x62]"
    using t(3) by (simp add: stored_name_def)
  ultimately show ?thesis using t(1) by blast
qed

text \<open>
  C31. The size that \<open>mkfs\<close> records for the root directory is rounded up past the end: with as many entries as
  fill their blocks exactly (30 files, for instance) it covers one block more than the directory has, whose address is 0.
\<close>

theorem root_hole:
  assumes "fits files" "16 * (length files + 2) = 512 * m"
  shows "\<exists>t. mkfs_main files = Inr t \<and> fsize t ROOTINO = 512 * (m + 1) \<and> d_addrs (inode_of (img t) ROOTINO) ! m = 0"
proof -
  obtain t where t: "mkfs_main files = Inr t" "fsize t ROOTINO = (512 * m div 512 + 1) * 512"
    "\<forall>i < MAXINUM. wfb (img t) (freeblock t) (inode_of (img t) i) (nblks (if i = ROOTINO then 512 * m else fsize t i))"
    using mkfs_main_ok [OF assms(1)] unfolding assms(2) by blast
  have w: "wfb (img t) (freeblock t) (inode_of (img t) ROOTINO) (nblks (512 * m))" using t(3) [rule_format, of ROOTINO] by simp
  have "m < 12" using assms by (simp add: fits_def)
  moreover have "nblks (512 * m) = m" by (simp add: nblks_def)
  ultimately show ?thesis using t(1,2) wfbD(6) [OF w, of m] by (auto simp: algebra_simps)
qed

theorem root_hole_witness:
  "\<exists>t. mkfs_main (replicate 30 ([0x61], [])) = Inr t \<and> fsize t ROOTINO = 1024 \<and> d_addrs (inode_of (img t) ROOTINO) ! 1 = 0"
proof -
  have "fits (replicate 30 ([0x61], []))"
    by (simp add: fits_def cost_def nblks_def nmeta_def ninodeblocks_def nbitmap_def nlog_def sum_list_replicate)
  from root_hole [OF this, of 1] show ?thesis by simp
qed

end
