(* ===== verification/Txn.thy ===== *)
theory Txn
  imports Log
begin

text \<open>
  Blocks inside a transaction. Between \<open>begin_op\<close> and \<open>end_op\<close> the file system uses a block in two
  ways: it reads one (\<open>bread\<close>, \<open>brelse\<close>) or changes one (\<open>bread\<close>, a change of the buffer,
  \<open>log_write\<close>, \<open>brelse\<close>). Both are one step on the blocks as they are seen through the cache
  (\<open>view_block\<close>), also while another buffer is held.
\<close>

text \<open>What reading and logging blocks leaves alone.\<close>

definition same_log :: "'a logst_scheme \<Rightarrow> 'a logst_scheme \<Rightarrow> bool" where
  "same_log s t \<longleftrightarrow> disksize t = disksize s \<and> cur t = cur s \<and> disk t = disk s \<and> l_start t = l_start s \<and> l_size t = l_size s \<and>
     l_dev t = l_dev s \<and> l_outstanding t = l_outstanding s \<and> logst.more t = logst.more s"

lemma same_log_refl [simp]: "same_log s s"
  by (simp add: same_log_def)

lemma same_log_trans [trans]: "same_log s t \<Longrightarrow> same_log t u \<Longrightarrow> same_log s u"
  by (simp add: same_log_def)

lemma same_logD:
  assumes "same_log s t"
  shows "disksize t = disksize s" "cur t = cur s" "disk t = disk s" "l_start t = l_start s" "l_size t = l_size s"
    "l_dev t = l_dev s" "l_outstanding t = l_outstanding s" "logst.more t = logst.more s" "log_area t = log_area s"
  using assms by (simp_all add: same_log_def log_area_def)

lemma same_rest_log: "same_rest s t \<Longrightarrow> disk t = disk s \<Longrightarrow> same_log s t \<and> l_blocks t = l_blocks s"
  using l_fields [of s t] by (simp add: same_log_def)

text \<open>The running process is in a transaction; the log has room, and no boot block or super block in it.\<close>

definition log_ok :: "'a logst_scheme \<Rightarrow> bool" where
  "log_ok s \<longleftrightarrow> 1 \<le> l_outstanding s \<and> l_dev s = 1 \<and> int LOGSIZE \<le> l_size s \<and>
     distinct (l_blocks s) \<and> length (l_blocks s) \<le> 28 \<and> l_start s + nat (l_size s) \<le> disksize s \<and> disksize s \<le> 2 ^ 31 \<and>
     (\<forall>b \<in> set (l_blocks s). 1 < b \<and> b < disksize s \<and> b \<notin> log_area s) \<and> dirty_blocks s = set (l_blocks s) \<and>
     sint (rd32 (disk s (l_start s)) 0) = 0"

lemma log_okD:
  assumes "log_ok s"
  shows "1 \<le> l_outstanding s" "l_dev s = 1" "int LOGSIZE \<le> l_size s" "distinct (l_blocks s)"
    "length (l_blocks s) \<le> 28" "l_start s + nat (l_size s) \<le> disksize s" "disksize s \<le> 2 ^ 31"
    "b \<in> set (l_blocks s) \<Longrightarrow> 1 < b" "b \<in> set (l_blocks s) \<Longrightarrow> b < disksize s" "b \<in> set (l_blocks s) \<Longrightarrow> b \<notin> log_area s"
    "dirty_blocks s = set (l_blocks s)" "sint (rd32 (disk s (l_start s)) 0) = 0"
  using assms unfolding log_ok_def by auto

lemma log_ok_same: "log_ok s \<Longrightarrow> same_log s t \<Longrightarrow> l_blocks t = l_blocks s \<Longrightarrow> dirty_blocks t = dirty_blocks s \<Longrightarrow> log_ok t"
  using same_logD [of s t] by (simp add: log_ok_def)

text \<open>Besides, it holds the buffers \<open>H\<close>, at most one.\<close>

definition txn :: "nat set \<Rightarrow> 'a logst_scheme \<Rightarrow> bool" where
  "txn H s \<longleftrightarrow> bio_inv s H \<and> card H \<le> 1 \<and> log_ok s"

lemma txnD:
  assumes "txn H s"
  shows "bio_inv s H" "card H \<le> 1" "log_ok s"
  using assms by (simp_all add: txn_def)

lemma txn_log_inv: "txn {} s \<Longrightarrow> log_inv s"
  by (auto simp: txn_def log_inv_def log_ok_def)

lemma txn_finite: "txn H s \<Longrightarrow> finite H"
  using bio_invD(4) [OF txnD(1)] finite_subset by blast

lemma txn_room: "txn H s \<Longrightarrow> \<exists>i < NBUF. i \<notin> H \<and> \<not> b_dirty (bufs s ! i)"
proof -
  assume t: "txn H s"
  note d = txnD [OF t]
  have "card (dirty_bufs s) \<le> 28" using card_dirty [OF d(1)] log_okD(4,5,11) [OF d(3)] by (simp add: distinct_card)
  then have "room 2 s" by (simp add: room_def)
  then show ?thesis by (rule room_clean) (use d(2) txn_finite [OF t] in simp_all)
qed

text \<open>A buffer with the block \<open>b\<close>, locked.\<close>

lemma txn_bread:
  assumes t: "txn H s" and b: "b < disksize s" "\<And>i. i \<in> H \<Longrightarrow> \<not> holds b i s"
  obtains i u where "bread 1 b s = Inr (i, u)" "i < NBUF" "i \<notin> H" "bio_inv u (insert i H)" "holds b i u" "b_valid (bufs u ! i)"
    "b_data (bufs u ! i) = view_block s b" "view_block u = view_block s" "same_log s u" "l_blocks u = l_blocks s"
    "dirty_blocks u = dirty_blocks s" "\<And>j. j \<noteq> i \<Longrightarrow> bufs u ! j = bufs s ! j"
    "\<not> b_dirty (bufs u ! i) \<Longrightarrow> b_data (bufs u ! i) = disk u (b_blockno (bufs u ! i))"
proof -
  note d = txnD [OF t]
  obtain i u where u: "bread 1 b s = Inr (i, u)" "i < NBUF" "i \<notin> H" "bio_inv u (insert i H)" "holds b i u"
    "b_valid (bufs u ! i)" "b_data (bufs u ! i) = view_block s b" "view_block u = view_block s" "disk u = disk s"
    "dwrites u = dwrites s" "same_rest s u" "dirty_bufs u = dirty_bufs s" "\<And>j. j \<noteq> i \<Longrightarrow> bufs u ! j = bufs s ! j"
    "holds b i s \<or> \<not> b_dirty (bufs s ! i)"
    using bread_ok [OF d(1) b disjI2 [OF txn_room [OF t]]] by metis
  have di: "i \<in> dirty_bufs s \<Longrightarrow> holds c i u = holds c i s" for c
    using u(5,14) by (auto simp: dirty_bufs_def holds_def)
  have hu: "holds c j u = holds c j s" if "j \<in> dirty_bufs s" for c j
    using u(13) di that by (cases "j = i") (auto simp: holds_def)
  then have db: "dirty_blocks u = dirty_blocks s" unfolding dirty_blocks_def u(12) by blast
  have coh: "b_data (bufs u ! i) = disk u (b_blockno (bufs u ! i))" if nd: "\<not> b_dirty (bufs u ! i)"
  proof -
    have iD: "i \<notin> dirty_bufs s" using nd u(12) by (auto simp: dirty_bufs_def)
    have bb: "b_blockno (bufs u ! i) = b" using u(5) by (simp add: holds_def)
    show ?thesis
    proof (cases "\<exists>j. holds b j s \<and> b_valid (bufs s ! j)")
      case True
      then obtain j where j: "holds b j s" "b_valid (bufs s ! j)" by blast
      have "j = i"
      proof (rule ccontr)
        assume "j \<noteq> i"
        then have "holds b j u" using j(1) u(13) by (simp add: holds_def)
        with \<open>j \<noteq> i\<close> show False using bio_invD(11) [OF u(4) u(5)] by blast
      qed
      then have "b_data (bufs s ! i) = disk s b" "view_block s b = b_data (bufs s ! i)"
        using bio_invD(10) [OF d(1), of i] j u(2,3) iD view_cached [OF d(1) j] by (auto simp: dirty_bufs_def holds_def)
      then show ?thesis using u(7,9) bb by simp
    next
      case False
      then have "view_block s b = disk s b" using view_uncached [OF d(1)] by blast
      then show ?thesis using u(7,9) bb by simp
    qed
  qed
  have r: "same_log s u" "l_blocks u = l_blocks s" using same_rest_log [OF u(11,9)] by blast+
  show ?thesis by (rule that [OF u(1,2,3,4,5,6,7,8) r db u(13) coh])
qed

lemma log_write_ok:
  assumes inv: "bio_inv s H" and i: "i \<in> H" "holds b i s" "b_valid (bufs s ! i)"
    and room: "length (l_blocks s) < LOGSIZE" "int (length (l_blocks s)) < l_size s - 1" "1 \<le> l_outstanding s"
  obtains t where "log_write i s = Inr t" "bio_inv t H" "view_block t = view_block s" "same_log s t"
    "l_blocks t = (if b \<in> set (l_blocks s) then l_blocks s else l_blocks s @ [b])" "dirty_blocks t = insert b (dirty_blocks s)"
    "\<And>c j. holds c j t = holds c j s" "\<And>j. bufs t ! j = (if j = i then (bufs s ! i)\<lparr>b_dirty := True\<rparr> else bufs s ! j)"
proof -
  note d = bio_invD [OF inv]
  define bs where "bs = (if b \<in> set (l_blocks s) then l_blocks s else l_blocks s @ [b])"
  let ?t = "upd_buf i (\<lambda>b. b\<lparr>b_dirty := True\<rparr>) (s\<lparr>l_blocks := bs\<rparr>)"
  have len: "i < length (bufs s)" "i < NBUF" using d(1) i(2) by (auto simp: holds_def)
  have blk: "b_blockno (bufs s ! i) = b" "b_dev (bufs s ! i) = 1" using i(2) by (simp_all add: holds_def)
  have keep: "(l_blocks s)[k := b] = l_blocks s" if "first_idx (\<lambda>x. x = b) (l_blocks s) = Some k" for k
    using first_idx_SomeD(2) [OF that] by (metis list_update_id)
  have "first_idx (\<lambda>x. x = b) (l_blocks s) = None \<longleftrightarrow> b \<notin> set (l_blocks s)" by (auto simp: first_idx_None)
  then have run: "log_write i s = Inr ?t"
    using room keep by (auto simp: log_write_def blk bs_def Let_def split: option.splits)
  have bt: "bufs ?t ! j = (if j = i then (bufs s ! i)\<lparr>b_dirty := True\<rparr> else bufs s ! j)" for j
    using len(1) by (simp add: upd_buf_def nth_list_update)
  have fl: "length (bufs ?t) = length (bufs s)" "mru ?t = mru s" "disk ?t = disk s" "cur ?t = cur s" "procs ?t = procs s" "mypid ?t = mypid s"
    by (simp_all add: upd_buf_def mypid_def split: option.split)
  have ho: "holds c j ?t = holds c j s" for c j by (simp add: holds_def bt)
  have "bio_inv ?t H"
    using inv i blk unfolding bio_inv_def fl ho bt by auto
  moreover have "view_block ?t = view_block s"
  proof
    fix c
    let ?P = "\<lambda>u. b_dev u = 1 \<and> b_blockno u = c \<and> b_valid u"
    have "map ?P (bufs ?t) = map ?P (bufs s)"
      using bt fl(1) by (intro nth_equalityI) auto
    then have "first_idx ?P (bufs ?t) = first_idx ?P (bufs s)"
      by (subst (1 2) first_idx_map) (rule arg_cong)
    then show "view_block ?t c = view_block s c" unfolding view_block_def fl(3) by (auto simp: bt split: option.split)
  qed
  moreover have "dirty_blocks ?t = insert b (dirty_blocks s)"
    using i(2) len(2) unfolding dirty_blocks_def dirty_bufs_def ho bt by (auto simp: holds_def)
  moreover have "same_log s ?t" by (simp add: same_log_def upd_buf_def)
  moreover have "l_blocks ?t = bs" by (simp add: upd_buf_def)
  ultimately show ?thesis using run ho bt by (intro that [of ?t]) (simp_all add: bs_def)
qed


text \<open>Releasing a buffer, unchanged or logged.\<close>

lemma release_ok:
  assumes inv: "bio_inv u (insert i H)" and i: "i \<notin> H" and lok: "log_ok u"
    and coh: "\<not> b_dirty (bufs u ! i) \<Longrightarrow> b_data (bufs u ! i) = disk u (b_blockno (bufs u ! i))"
  obtains t where "brelse i u = Inr t" "bio_inv t H" "log_ok t" "view_block t = view_block u" "same_log u t" "l_blocks t = l_blocks u"
    "\<And>j. j \<noteq> i \<Longrightarrow> bufs t ! j = bufs u ! j"
proof -
  have iI: "i \<in> insert i H" by simp
  obtain t where t: "brelse i u = Inr t" "bio_inv t (insert i H - {i})" "view_block t = view_block u" "disk t = disk u"
    "dwrites t = dwrites u" "same_rest u t" "dirty_bufs t = dirty_bufs u" "\<And>c j. holds c j t = holds c j u"
    "\<And>j. j \<noteq> i \<Longrightarrow> bufs t ! j = bufs u ! j"
    using brelse_ok [OF inv iI coh] by metis
  have r: "same_log u t" "l_blocks t = l_blocks u" using same_rest_log [OF t(6,4)] by blast+
  have "dirty_blocks t = dirty_blocks u" unfolding dirty_blocks_def t(7,8) ..
  then have "log_ok t" by (rule log_ok_same [OF lok r])
  moreover have "bio_inv t H" using t(2) i by (simp add: insert_Diff_if)
  ultimately show ?thesis using that t(1,3,9) r by blast
qed

lemma logged_release:
  assumes inv: "bio_inv u (insert i H)" and i: "i \<notin> H" "holds b i u" "b_valid (bufs u ! i)" and lok: "log_ok u"
    and b: "1 < b" "b < disksize u" "b \<notin> log_area u" and room: "card (insert b (set (l_blocks u))) \<le> 28"
  obtains v t where "log_write i (set_data i f u) = Inr v" "brelse i v = Inr t" "bio_inv t H" "log_ok t"
    "view_block t = (view_block u)(b := f (b_data (bufs u ! i)))" "same_log u t" "set (l_blocks t) = insert b (set (l_blocks u))"
    "\<And>j. j \<noteq> i \<Longrightarrow> bufs t ! j = bufs u ! j"
proof -
  note d = log_okD [OF lok]
  have iI: "i \<in> insert i H" by simp
  note sd = set_data_ok [OF inv iI i(2,3), where f = f]
  let ?w = "set_data i f u"
  have w: "same_log u ?w" "l_blocks ?w = l_blocks u" using same_rest_log [OF sd(5,3)] by blast+
  have dw: "dirty_blocks ?w = dirty_blocks u" unfolding dirty_blocks_def sd(6,7) ..
  have lw: "log_ok ?w" by (rule log_ok_same [OF lok w dw])
  have h: "holds b i ?w" "b_valid (bufs ?w ! i)" using sd(7,8) i(2,3) by simp_all
  have r: "length (l_blocks ?w) < LOGSIZE" "int (length (l_blocks ?w)) < l_size ?w - 1" "1 \<le> l_outstanding ?w"
    using log_okD(1,3,5) [OF lw] by simp_all
  obtain v where v: "log_write i ?w = Inr v" "bio_inv v (insert i H)" "view_block v = view_block ?w" "same_log ?w v"
    "l_blocks v = (if b \<in> set (l_blocks ?w) then l_blocks ?w else l_blocks ?w @ [b])" "dirty_blocks v = insert b (dirty_blocks ?w)"
    "\<And>c j. holds c j v = holds c j ?w" "\<And>j. bufs v ! j = (if j = i then (bufs ?w ! i)\<lparr>b_dirty := True\<rparr> else bufs ?w ! j)"
    using log_write_ok [OF sd(1) iI h r] by metis
  have bl: "set (l_blocks v) = insert b (set (l_blocks u))" "distinct (l_blocks v)" using v(5) w(2) d(4) by auto
  have sv: "same_log u v" using w(1) v(4) same_log_trans by blast
  have "length (l_blocks v) \<le> 28" using bl room by (metis distinct_card)
  then have "log_ok v"
    using d b bl v(6) dw same_logD [OF sv] unfolding log_ok_def by auto
  moreover have "b_dirty (bufs v ! i)" using v(8) by simp
  ultimately obtain t where t: "brelse i v = Inr t" "bio_inv t H" "log_ok t" "view_block t = view_block v" "same_log v t"
    "l_blocks t = l_blocks v" "\<And>j. j \<noteq> i \<Longrightarrow> bufs t ! j = bufs v ! j"
    using release_ok [OF v(2) i(1)] by blast
  have "bufs t ! j = bufs u ! j" if "j \<noteq> i" for j using t(7) v(8) sd(8) that by simp
  moreover have "same_log u t" using sv t(5) same_log_trans by blast
  ultimately show ?thesis using that [OF v(1) t(1,2,3)] t(4,6) v(3) sd(2) bl(1) by simp
qed

text \<open>The two ways in which the file system uses a block.\<close>

lemma txn_read:
  assumes t: "txn H s" and b: "b < disksize s" "\<And>i. i \<in> H \<Longrightarrow> \<not> holds b i s"
  obtains i u t where "bread 1 b s = Inr (i, u)" "b_data (bufs u ! i) = view_block s b" "same_log s u" "brelse i u = Inr t" "txn H t"
    "view_block t = view_block s" "same_log s t" "l_blocks t = l_blocks s" "\<And>j. j \<in> H \<Longrightarrow> bufs t ! j = bufs s ! j"
proof -
  obtain i u where u: "bread 1 b s = Inr (i, u)" "i < NBUF" "i \<notin> H" "bio_inv u (insert i H)" "holds b i u" "b_valid (bufs u ! i)"
    "b_data (bufs u ! i) = view_block s b" "view_block u = view_block s" "same_log s u" "l_blocks u = l_blocks s"
    "dirty_blocks u = dirty_blocks s" "\<And>j. j \<noteq> i \<Longrightarrow> bufs u ! j = bufs s ! j"
    "\<not> b_dirty (bufs u ! i) \<Longrightarrow> b_data (bufs u ! i) = disk u (b_blockno (bufs u ! i))"
    using txn_bread [OF t b] by metis
  have lu: "log_ok u" by (rule log_ok_same [OF txnD(3) [OF t] u(9,10,11)])
  obtain w where w: "brelse i u = Inr w" "bio_inv w H" "log_ok w" "view_block w = view_block u" "same_log u w" "l_blocks w = l_blocks u"
    "\<And>j. j \<noteq> i \<Longrightarrow> bufs w ! j = bufs u ! j"
    using release_ok [OF u(4,3) lu u(13)] by metis
  have "txn H w" using w(2,3) txnD(2) [OF t] by (simp add: txn_def)
  moreover have "bufs w ! j = bufs s ! j" if "j \<in> H" for j using that u(3,12) w(7) by (cases "j = i") simp_all
  moreover have "same_log s w" using u(9) w(5) same_log_trans by blast
  ultimately show ?thesis using that [OF u(1,7,9) w(1)] u(8,10) w(4,6) by simp
qed

lemma txn_update:
  assumes t: "txn H s" and b: "1 < b" "b < disksize s" "b \<notin> log_area s" "\<And>i. i \<in> H \<Longrightarrow> \<not> holds b i s"
    and room: "card (insert b (set (l_blocks s))) \<le> 28"
  obtains i u v t where "bread 1 b s = Inr (i, u)" "b_data (bufs u ! i) = view_block s b" "same_log s u"
    "log_write i (set_data i f u) = Inr v" "brelse i v = Inr t" "txn H t" "view_block t = (view_block s)(b := f (view_block s b))"
    "same_log s t" "set (l_blocks t) = insert b (set (l_blocks s))" "\<And>j. j \<in> H \<Longrightarrow> bufs t ! j = bufs s ! j"
proof -
  obtain i u where u: "bread 1 b s = Inr (i, u)" "i < NBUF" "i \<notin> H" "bio_inv u (insert i H)" "holds b i u" "b_valid (bufs u ! i)"
    "b_data (bufs u ! i) = view_block s b" "view_block u = view_block s" "same_log s u" "l_blocks u = l_blocks s"
    "dirty_blocks u = dirty_blocks s" "\<And>j. j \<noteq> i \<Longrightarrow> bufs u ! j = bufs s ! j"
    using txn_bread [OF t b(2,4)] by metis
  have lu: "log_ok u" by (rule log_ok_same [OF txnD(3) [OF t] u(9,10,11)])
  have bu: "b < disksize u" "b \<notin> log_area u" "card (insert b (set (l_blocks u))) \<le> 28" using b(2,3) room same_logD [OF u(9)] u(10) by simp_all
  obtain v w where w: "log_write i (set_data i f u) = Inr v" "brelse i v = Inr w" "bio_inv w H" "log_ok w"
    "view_block w = (view_block u)(b := f (b_data (bufs u ! i)))" "same_log u w" "set (l_blocks w) = insert b (set (l_blocks u))"
    "\<And>j. j \<noteq> i \<Longrightarrow> bufs w ! j = bufs u ! j"
    using logged_release [OF u(4,3,5,6) lu b(1) bu(1,2,3), where f = f] by metis
  have "txn H w" using w(3,4) txnD(2) [OF t] by (simp add: txn_def)
  moreover have "bufs w ! j = bufs s ! j" if "j \<in> H" for j using that u(3,12) w(8) by (cases "j = i") simp_all
  moreover have "same_log s w" using u(9) w(6) same_log_trans by blast
  ultimately show ?thesis using that [OF u(1,7,9) w(1,2)] u(7,8,10) w(5,7) by simp
qed

end
