(* ===== verification/Balloc.thy ===== *)
theory Balloc
  imports Txn Blockmap
begin

text \<open>
  The block allocator inside a transaction. The free blocks are those whose bit in the bitmap is clear, as the
  bitmap is seen through the cache; \<open>balloc\<close> takes one of them, marks it and makes it zero.
\<close>

unbundle bit_operations_syntax

section \<open>Bits\<close>

lemma bit_used_iff: "bit_used d b \<longleftrightarrow> bit (d (b div 8)) (b mod 8)"
  by (simp add: bit_used_def bit_iff_and_push_bit_not_eq_0)

lemma bit_byte: "bit (2 ^ (a mod 8) :: 8 word) (b mod 8) \<longleftrightarrow> a mod 8 = b mod 8"
  by (auto simp: bit_simps)

lemma bit_mark_used: "bit_used (mark_used a d) b \<longleftrightarrow> b = a \<or> bit_used d b"
proof (cases "b div 8 = a div 8")
  case True
  have "b = a \<longleftrightarrow> b div 8 = a div 8 \<and> a mod 8 = b mod 8" using div_mult_mod_eq [of b 8] div_mult_mod_eq [of a 8] by metis
  then show ?thesis using True bit_byte [of a b] by (auto simp: bit_used_iff mark_used_def bit_or_iff)
qed (auto simp: bit_used_iff mark_used_def)

section \<open>The disk layout\<close>

definition bm_blocks :: "superblock \<Rightarrow> nat set" where
  "bm_blocks sb = (\<lambda>b. BBLOCK b sb) ` {..<unat (sb_size sb)}"

definition i_blocks :: "superblock \<Rightarrow> nat set" where
  "i_blocks sb = (\<lambda>i. IBLOCK i sb) ` {..<unat (sb_ninodes sb)}"

definition free_blocks :: "(nat \<Rightarrow> block) \<Rightarrow> superblock \<Rightarrow> nat set" where
  "free_blocks im sb = {b. b < unat (sb_size sb) \<and> \<not> bit_used (im (BBLOCK b sb)) (b mod BPB)}"

text \<open>The blocks that the file system may log.\<close>

definition usable :: "'a logst_scheme \<Rightarrow> nat set" where
  "usable s = {b. 1 < b \<and> b < disksize s \<and> b \<notin> log_area s}"

lemma usable_same: "same_log s t \<Longrightarrow> usable t = usable s"
  using same_logD [of s t] by (simp add: usable_def)

lemma usableD: "b \<in> usable s \<Longrightarrow> 1 < b" "b \<in> usable s \<Longrightarrow> b < disksize s" "b \<in> usable s \<Longrightarrow> b \<notin> log_area s"
  by (simp_all add: usable_def)

text \<open>The bitmap and the inodes are where the super block says, and no bit is clear for them or for the log.\<close>

definition layout_ok :: "'a fsst_scheme \<Rightarrow> bool" where
  "layout_ok s \<longleftrightarrow> bm_blocks (fs_sb s) \<union> i_blocks (fs_sb s) \<subseteq> usable s \<and> bm_blocks (fs_sb s) \<inter> i_blocks (fs_sb s) = {} \<and>
     free_blocks (view_block s) (fs_sb s) \<subseteq> usable s - bm_blocks (fs_sb s) - i_blocks (fs_sb s)"

lemma layout_okD:
  assumes "layout_ok s"
  shows "b \<in> bm_blocks (fs_sb s) \<Longrightarrow> b \<in> usable s" "b \<in> i_blocks (fs_sb s) \<Longrightarrow> b \<in> usable s"
    "b \<in> bm_blocks (fs_sb s) \<Longrightarrow> b \<notin> i_blocks (fs_sb s)" "b \<in> free_blocks (view_block s) (fs_sb s) \<Longrightarrow> b \<in> usable s"
    "b \<in> free_blocks (view_block s) (fs_sb s) \<Longrightarrow> b \<notin> bm_blocks (fs_sb s)"
    "b \<in> free_blocks (view_block s) (fs_sb s) \<Longrightarrow> b \<notin> i_blocks (fs_sb s)"
  using assms by (auto simp: layout_ok_def)

lemma finite_free [simp]: "finite (free_blocks im sb)"
  by (simp add: free_blocks_def)

lemma BBLOCK_add: "b mod BPB = 0 \<Longrightarrow> bi < BPB \<Longrightarrow> BBLOCK (b + bi) sb = BBLOCK b sb" "b mod BPB = 0 \<Longrightarrow> bi < BPB \<Longrightarrow> (b + bi) mod BPB = bi"
  by (auto elim!: dvdE simp: mod_eq_0_iff_dvd)

lemma same_fs: "logst.more t = logst.more s \<Longrightarrow> inodes t = inodes s \<and> fs_sb t = fs_sb s \<and> fsst.more t = fsst.more s"
  by (cases s; cases t; simp)

lemma same_log_fs:
  assumes "same_log s t"
  shows "inodes t = inodes s" "fs_sb t = fs_sb s"
  using same_fs [OF same_logD(8) [OF assms]] by simp_all

section \<open>Allocation\<close>

text \<open>The free block \<open>a\<close> has been taken: marked, made zero and logged.\<close>

definition took :: "nat set \<Rightarrow> 'a fsst_scheme \<Rightarrow> nat \<Rightarrow> 'a fsst_scheme \<Rightarrow> bool" where
  "took H s a t \<longleftrightarrow> a \<in> free_blocks (view_block s) (fs_sb s) \<and> txn H t \<and> same_log s t \<and>
     view_block t = (view_block s)(BBLOCK a (fs_sb s) := mark_used (a mod BPB) (view_block s (BBLOCK a (fs_sb s))), a := zeroes) \<and>
     set (l_blocks t) = {BBLOCK a (fs_sb s), a} \<union> set (l_blocks s) \<and> (\<forall>j \<in> H. bufs t ! j = bufs s ! j)"

lemma balloc_from_ok:
  assumes "txn H s" "layout_ok s" "card (set (l_blocks s)) + 2 \<le> 28"
    and "\<And>b. b \<in> set bs \<Longrightarrow> b mod BPB = 0 \<and> b < unat (sb_size (fs_sb s))"
    and "\<And>b i. b \<in> free_blocks (view_block s) (fs_sb s) \<union> bm_blocks (fs_sb s) \<Longrightarrow> i \<in> H \<Longrightarrow> \<not> holds b i s"
    and "\<exists>b \<in> set bs. \<exists>bi < BPB. b + bi \<in> free_blocks (view_block s) (fs_sb s)"
  shows "\<exists>a t. balloc_from 1 bs s = Inr (a, t) \<and> took H s a t"
  using assms
proof (induction bs arbitrary: s)
  case (Cons b bs s)
  let ?sb = "fs_sb s" and ?m = "min BPB (unat (sb_size (fs_sb s)) - b)"
  have b: "b mod BPB = 0" "b < unat (sb_size ?sb)" using Cons.prems(4) [of b] by simp_all
  then have bm: "BBLOCK b ?sb \<in> bm_blocks ?sb" by (auto simp: bm_blocks_def)
  note us = usableD [OF layout_okD(1) [OF Cons.prems(2) bm]]
  have nh: "\<not> holds (BBLOCK b ?sb) i s" if "i \<in> H" for i using Cons.prems(5) bm that by blast
  have free: "b + bi \<in> free_blocks (view_block s) ?sb \<longleftrightarrow> bi < ?m \<and> \<not> bit_used (view_block s (BBLOCK b ?sb)) bi" if "bi < BPB" for bi
    using BBLOCK_add [OF b(1) that] that by (auto simp: free_blocks_def)
  show ?case
  proof (cases "find (\<lambda>bi. \<not> bit_used (view_block s (BBLOCK b ?sb)) bi) [0..<?m]")
    case (Some bi)
    then have bi: "bi < ?m" "\<not> bit_used (view_block s (BBLOCK b ?sb)) bi" by (auto simp: find_Some_iff simp del: upt_Suc)
    then have fr: "b + bi \<in> free_blocks (view_block s) ?sb" using free [of bi] by simp
    have e: "BBLOCK (b + bi) ?sb = BBLOCK b ?sb" "(b + bi) mod BPB = bi" using BBLOCK_add [OF b(1), of bi] bi(1) by auto
    have r1: "card (insert (BBLOCK b ?sb) (set (l_blocks s))) \<le> 28"
      using Cons.prems(3) card_insert_le_m1 [of 28 "set (l_blocks s)" "BBLOCK b ?sb"] by simp
    obtain i u v t where t: "bread 1 (BBLOCK b ?sb) s = Inr (i, u)" "b_data (bufs u ! i) = view_block s (BBLOCK b ?sb)" "same_log s u"
      "log_write i (set_data i (mark_used bi) u) = Inr v" "brelse i v = Inr t" "txn H t"
      "view_block t = (view_block s)(BBLOCK b ?sb := mark_used bi (view_block s (BBLOCK b ?sb)))"
      "same_log s t" "set (l_blocks t) = insert (BBLOCK b ?sb) (set (l_blocks s))" "\<And>j. j \<in> H \<Longrightarrow> bufs t ! j = bufs s ! j"
      using txn_update [OF Cons.prems(1) us nh r1, where f = "mark_used bi"] by metis
    note ua = usableD [OF layout_okD(4) [OF Cons.prems(2) fr]]
    have ne: "b + bi \<noteq> BBLOCK b ?sb" using layout_okD(5) [OF Cons.prems(2) fr] bm by metis
    have "card (set (l_blocks t)) \<le> Suc (card (set (l_blocks s)))" unfolding t(9) by (rule card_insert_le_m1) simp_all
    then have r2: "card (insert (b + bi) (set (l_blocks t))) \<le> 28"
      using Cons.prems(3) card_insert_le_m1 [of 28 "set (l_blocks t)" "b + bi"] by simp
    have na: "\<not> holds (b + bi) j t" if "j \<in> H" for j using Cons.prems(5) [of "b + bi" j] fr that t(10) [OF that] by (simp add: holds_def)
    have ua': "b + bi < disksize t" "b + bi \<notin> log_area t" using ua same_logD [OF t(8)] by simp_all
    obtain i' u' v' t' where z: "bread 1 (b + bi) t = Inr (i', u')" "same_log t u'"
      "log_write i' (set_data i' (\<lambda>_ _. 0) u') = Inr v'" "brelse i' v' = Inr t'" "txn H t'"
      "view_block t' = (view_block t)(b + bi := (\<lambda>_. 0))"
      "same_log t t'" "set (l_blocks t') = insert (b + bi) (set (l_blocks t))" "\<And>j. j \<in> H \<Longrightarrow> bufs t' ! j = bufs t ! j"
      using txn_update [OF t(6) ua(1) ua' na r2, where f = "\<lambda>_ _. 0"] by metis
    have "balloc_from 1 (b # bs) s = Inr (b + bi, t')"
      using t(1-5) z(1,3,4) Some same_log_fs [OF t(3)] by (simp add: bzero_def)
    moreover have "took H s (b + bi) t'"
      using z(5-9) t(7-10) fr same_log_trans [OF t(8) z(7)] unfolding took_def e zeroes_def by auto
    ultimately show ?thesis by blast
  next
    case None
    obtain i u t where t: "bread 1 (BBLOCK b ?sb) s = Inr (i, u)" "b_data (bufs u ! i) = view_block s (BBLOCK b ?sb)" "same_log s u"
      "brelse i u = Inr t" "txn H t" "view_block t = view_block s" "same_log s t" "l_blocks t = l_blocks s" "\<And>j. j \<in> H \<Longrightarrow> bufs t ! j = bufs s ! j"
      using txn_read [OF Cons.prems(1) us(2) nh] by metis
    note sb = same_log_fs [OF t(7)]
    have "b + bi \<notin> free_blocks (view_block s) ?sb" if "bi < BPB" for bi
      using None that free [OF that] by (auto simp: find_None_iff simp del: upt_Suc)
    then have "\<exists>b \<in> set bs. \<exists>bi < BPB. b + bi \<in> free_blocks (view_block s) ?sb" using Cons.prems(6) by auto
    moreover have "layout_ok t" using Cons.prems(2) usable_same [OF t(7)] by (simp add: layout_ok_def sb t(6))
    ultimately obtain a v where v: "balloc_from 1 bs t = Inr (a, v)" "took H t a v"
      using Cons.IH [OF t(5)] Cons.prems(3-5) t(6,8,9) sb by (fastforce simp: holds_def)
    have "took H s a v" using v(2) t(6,8,9) sb(2) same_log_trans [OF t(7)] by (auto simp: took_def)
    moreover have "balloc_from 1 (b # bs) s = Inr (a, v)"
      using t(1-4) v(1) None same_log_fs [OF t(3)] by simp
    ultimately show ?thesis by blast
  qed
qed simp

lemma balloc_ok:
  assumes t: "txn H s" and lo: "layout_ok s" and room: "card (set (l_blocks s)) + 2 \<le> 28"
    and nh: "\<And>b i. b \<in> free_blocks (view_block s) (fs_sb s) \<union> bm_blocks (fs_sb s) \<Longrightarrow> i \<in> H \<Longrightarrow> \<not> holds b i s"
    and ex: "free_blocks (view_block s) (fs_sb s) \<noteq> {}"
  obtains a t where "balloc 1 s = Inr (a, t)" "took H s a t"
proof -
  let ?bs = "map (\<lambda>k. k * BPB) [0..<(unat (sb_size (fs_sb s)) + BPB - 1) div BPB]"
  have "b mod BPB = 0 \<and> b < unat (sb_size (fs_sb s))" if "b \<in> set ?bs" for b
    using that by auto
  moreover have "\<exists>b \<in> set ?bs. \<exists>bi < BPB. b + bi \<in> free_blocks (view_block s) (fs_sb s)"
  proof -
    obtain f where f: "f \<in> free_blocks (view_block s) (fs_sb s)" using ex by blast
    then have "f div BPB * BPB \<in> set ?bs" by (auto simp: free_blocks_def)
    moreover have "f div BPB * BPB + f mod BPB \<in> free_blocks (view_block s) (fs_sb s)" "f mod BPB < BPB" using f by simp_all
    ultimately show ?thesis by blast
  qed
  ultimately show ?thesis using balloc_from_ok [OF t lo room _ nh, where bs = ?bs] that unfolding balloc_def by blast
qed


text \<open>The blocks that are somebody's.\<close>

definition taken :: "'a fsst_scheme \<Rightarrow> nat set" where
  "taken s = usable s - free_blocks (view_block s) (fs_sb s) - bm_blocks (fs_sb s) - i_blocks (fs_sb s)"

lemma takenD:
  assumes "b \<in> taken s"
  shows "1 < b" "b < disksize s" "b \<notin> log_area s" "b \<in> usable s" "b \<notin> free_blocks (view_block s) (fs_sb s)"
    "b \<notin> bm_blocks (fs_sb s)" "b \<notin> i_blocks (fs_sb s)"
  using assms by (simp_all add: taken_def usable_def)

lemma BBLOCK_bm: "b < unat (sb_size sb) \<Longrightarrow> BBLOCK b sb \<in> bm_blocks sb"
  by (simp add: bm_blocks_def)

lemma tookD:
  assumes k: "took H s a t" and lo: "layout_ok s"
  shows "a \<in> free_blocks (view_block s) (fs_sb s)" "txn H t" "same_log s t" "inodes t = inodes s" "fs_sb t = fs_sb s" "usable t = usable s"
    "free_blocks (view_block t) (fs_sb s) = free_blocks (view_block s) (fs_sb s) - {a}" "layout_ok t" "taken t = insert a (taken s)"
    "a \<notin> taken s" "b \<notin> bm_blocks (fs_sb s) \<Longrightarrow> b \<noteq> a \<Longrightarrow> view_block t b = view_block s b" "view_block t a = zeroes"
    "0 < a" "a < disksize s" "a \<in> usable s" "BBLOCK a (fs_sb s) \<in> bm_blocks (fs_sb s)"
    "set (l_blocks t) = {BBLOCK a (fs_sb s), a} \<union> set (l_blocks s)" "j \<in> H \<Longrightarrow> bufs t ! j = bufs s ! j"
proof -
  let ?sb = "fs_sb s" and ?v = "view_block s"
  show fr: "a \<in> free_blocks ?v ?sb" and "txn H t" and sl: "same_log s t"
    and "set (l_blocks t) = {BBLOCK a ?sb, a} \<union> set (l_blocks s)" "j \<in> H \<Longrightarrow> bufs t ! j = bufs s ! j"
    using k by (simp_all add: took_def)
  have v: "view_block t = ?v(BBLOCK a ?sb := mark_used (a mod BPB) (?v (BBLOCK a ?sb)), a := zeroes)"
    using k unfolding took_def by blast
  show "inodes t = inodes s" and sb: "fs_sb t = ?sb" and us: "usable t = usable s"
    using same_log_fs [OF sl] usable_same [OF sl] by simp_all
  show bm: "BBLOCK a ?sb \<in> bm_blocks ?sb" by (rule BBLOCK_bm) (use fr in \<open>simp add: free_blocks_def\<close>)
  show au: "a \<in> usable s" by (rule layout_okD(4) [OF lo fr])
  then show "0 < a" "a < disksize s" by (simp_all add: usable_def)
  have na: "a \<notin> bm_blocks ?sb" "a \<notin> i_blocks ?sb" using layout_okD(5,6) [OF lo fr] by simp_all
  show "view_block t a = zeroes" by (simp add: v)
  show "b \<notin> bm_blocks ?sb \<Longrightarrow> b \<noteq> a \<Longrightarrow> view_block t b = view_block s b" using bm by (auto simp: v)
  show free: "free_blocks (view_block t) ?sb = free_blocks ?v ?sb - {a}"
  proof -
    have same: "bit_used (view_block t (BBLOCK b ?sb)) (b mod BPB) \<longleftrightarrow> b = a \<or> bit_used (?v (BBLOCK b ?sb)) (b mod BPB)"
      if "b < unat (sb_size ?sb)" for b
    proof -
      have ba: "BBLOCK b ?sb \<noteq> a" using na(1) BBLOCK_bm [OF that] by metis
      show ?thesis
      proof (cases "b div BPB = a div BPB")
        case True
        then have "b = a \<longleftrightarrow> b mod BPB = a mod BPB" by (metis div_mult_mod_eq)
        then show ?thesis using ba True by (simp add: v bit_mark_used)
      qed (use ba in \<open>auto simp: v\<close>)
    qed
    then show ?thesis by (auto simp: free_blocks_def)
  qed
  then show "layout_ok t" "taken t = insert a (taken s)" "a \<notin> taken s"
    using lo au na fr by (auto simp: layout_ok_def taken_def sb us)
qed

section \<open>Changing an inode in memory\<close>

lemma upd_ino_simps [simp]:
  "bufs (upd_ino i f s) = bufs s" "disk (upd_ino i f s) = disk s" "disksize (upd_ino i f s) = disksize s"
  "view_block (upd_ino i f s) = view_block s" "log_area (upd_ino i f s) = log_area s" "l_blocks (upd_ino i f s) = l_blocks s"
  "usable (upd_ino i f s) = usable s" "fs_sb (upd_ino i f s) = fs_sb s" "txn H (upd_ino i f s) = txn H s"
  "layout_ok (upd_ino i f s) = layout_ok s" "taken (upd_ino i f s) = taken s" "length (inodes (upd_ino i f s)) = length (inodes s)"
  "i < length (inodes s) \<Longrightarrow> inodes (upd_ino i f s) ! i = f (inodes s ! i)" "j \<noteq> i \<Longrightarrow> inodes (upd_ino i f s) ! j = inodes s ! j"
proof -
  show basic: "bufs (upd_ino i f s) = bufs s" "disk (upd_ino i f s) = disk s" "disksize (upd_ino i f s) = disksize s"
    "l_blocks (upd_ino i f s) = l_blocks s" "fs_sb (upd_ino i f s) = fs_sb s" "length (inodes (upd_ino i f s)) = length (inodes s)"
    "i < length (inodes s) \<Longrightarrow> inodes (upd_ino i f s) ! i = f (inodes s ! i)" "j \<noteq> i \<Longrightarrow> inodes (upd_ino i f s) ! j = inodes s ! j"
    by (simp_all add: upd_ino_def)
  have l: "l_start (upd_ino i f s) = l_start s" "l_size (upd_ino i f s) = l_size s" "l_dev (upd_ino i f s) = l_dev s"
    "l_outstanding (upd_ino i f s) = l_outstanding s" "mru (upd_ino i f s) = mru s" "cur (upd_ino i f s) = cur s"
    "procs (upd_ino i f s) = procs s" "mypid (upd_ino i f s) = mypid s"
    by (simp_all add: upd_ino_def mypid_def split: option.split)
  show v: "view_block (upd_ino i f s) = view_block s" by (rule ext) (simp only: view_block_def basic)
  show la: "log_area (upd_ino i f s) = log_area s" by (simp only: log_area_def l)
  show us: "usable (upd_ino i f s) = usable s" by (simp only: usable_def basic la)
  have ho: "holds b k (upd_ino i f s) = holds b k s" for b k by (simp only: holds_def basic)
  show "txn H (upd_ino i f s) = txn H s"
    by (simp only: txn_def bio_inv_def log_ok_def dirty_blocks_def dirty_bufs_def basic la l ho)
  show "layout_ok (upd_ino i f s) = layout_ok s" "taken (upd_ino i f s) = taken s"
    by (simp_all only: layout_ok_def taken_def basic us v)
qed

end
