(* ===== verification/Filemap.thy ===== *)
theory Filemap
  imports Balloc
begin

text \<open>
  \<open>bmap\<close>: the block of a file for a block number. It is the number that the address map has, and the map grows
  by one block, at its end, when it has none: the block from the allocator, and before it the indirect block where the
  direct ones are used up.
\<close>

section \<open>A file and what changes with it\<close>

abbreviation addrs_of :: "nat \<Rightarrow> 'a fsst_scheme \<Rightarrow> 32 word list" where
  "addrs_of i s \<equiv> i_addrs (inodes s ! i)"

abbreviation fb :: "nat \<Rightarrow> 'a fsst_scheme \<Rightarrow> nat \<Rightarrow> nat" where
  "fb i s \<equiv> fblk (view_block s) (addrs_of i s)"

abbreviation own_blocks :: "nat \<Rightarrow> nat \<Rightarrow> 'a fsst_scheme \<Rightarrow> nat set" where
  "own_blocks i n s \<equiv> blocks (view_block s) (addrs_of i s) n"

abbreviation free_of :: "'a fsst_scheme \<Rightarrow> nat set" where
  "free_of s \<equiv> free_blocks (view_block s) (fs_sb s)"

text \<open>The inode in slot \<open>i\<close> of the cache is a file of \<open>n\<close> blocks.\<close>

definition file_ok :: "nat \<Rightarrow> nat \<Rightarrow> 'a fsst_scheme \<Rightarrow> bool" where
  "file_ok i n s \<longleftrightarrow> i < length (inodes s) \<and> i_dev (inodes s ! i) = 1 \<and> i_inum (inodes s ! i) < unat (sb_ninodes (fs_sb s)) \<and>
     mapped (view_block s) (taken s) (addrs_of i s) n"

lemma file_okD:
  assumes "file_ok i n s"
  shows "i < length (inodes s)" "i_dev (inodes s ! i) = 1" "mapped (view_block s) (taken s) (addrs_of i s) n"
    "IBLOCK (i_inum (inodes s ! i)) (fs_sb s) \<in> i_blocks (fs_sb s)"
  using assms by (auto simp: file_ok_def i_blocks_def)

text \<open>Only the addresses and the size of one inode change, and blocks.\<close>

definition same_but :: "nat \<Rightarrow> 'a fsst_scheme \<Rightarrow> 'a fsst_scheme \<Rightarrow> bool" where
  "same_but i s t \<longleftrightarrow> disksize t = disksize s \<and> cur t = cur s \<and> disk t = disk s \<and> l_start t = l_start s \<and> l_size t = l_size s \<and>
     l_dev t = l_dev s \<and> l_outstanding t = l_outstanding s \<and> fs_sb t = fs_sb s \<and> fsst.more t = fsst.more s \<and>
     length (inodes t) = length (inodes s) \<and> (\<forall>j. j \<noteq> i \<longrightarrow> inodes t ! j = inodes s ! j) \<and>
     inodes t ! i = (inodes s ! i)\<lparr>i_addrs := addrs_of i t, i_size := i_size (inodes t ! i)\<rparr>"

lemma same_but_refl [simp]: "same_but i s s"
  by (simp add: same_but_def)

lemma inode_more:
  assumes "(ip' :: inode) = ip\<lparr>i_addrs := i_addrs ip', i_size := i_size ip'\<rparr>"
  shows "i_dev ip' = i_dev ip" "i_inum ip' = i_inum ip" "i_ref ip' = i_ref ip" "i_lock ip' = i_lock ip" "i_valid ip' = i_valid ip"
    "i_type ip' = i_type ip" "i_major ip' = i_major ip" "i_minor ip' = i_minor ip" "i_nlink ip' = i_nlink ip"
  by (subst assms, simp)+

lemma inode_more_trans:
  assumes "(b :: inode) = a\<lparr>i_addrs := i_addrs b, i_size := i_size b\<rparr>" "c = b\<lparr>i_addrs := i_addrs c, i_size := i_size c\<rparr>"
  shows "c = a\<lparr>i_addrs := i_addrs c, i_size := i_size c\<rparr>"
  using assms by (cases a; cases b; cases c; simp)

lemma same_but_trans: "same_but i s t \<Longrightarrow> same_but i t u \<Longrightarrow> same_but i s u"
  unfolding same_but_def by (auto intro: inode_more_trans)

lemma same_butD:
  assumes "same_but i s t"
  shows "fs_sb t = fs_sb s" "usable t = usable s" "disksize t = disksize s" "length (inodes t) = length (inodes s)"
    "j \<noteq> i \<Longrightarrow> inodes t ! j = inodes s ! j" "i_dev (inodes t ! i) = i_dev (inodes s ! i)" "i_inum (inodes t ! i) = i_inum (inodes s ! i)"
    "i_type (inodes t ! i) = i_type (inodes s ! i)" "log_area t = log_area s"
  using assms inode_more [of "inodes t ! i" "inodes s ! i"] by (simp_all add: same_but_def usable_def log_area_def)

lemma same_log_but: "same_log s t \<Longrightarrow> same_but i s t"
  using same_fs [of t s] same_logD [of s t] by (simp add: same_but_def)

lemma same_but_addrs: "i < length (inodes s) \<Longrightarrow> same_but i s (upd_ino i (\<lambda>ip. ip\<lparr>i_addrs := as\<rparr>) s)"
  by (auto simp: same_but_def upd_ino_def nth_list_update)

text \<open>Nothing but the cache has changed: which buffers hold what.\<close>

definition quiet :: "'a fsst_scheme \<Rightarrow> 'a fsst_scheme \<Rightarrow> bool" where
  "quiet s t \<longleftrightarrow> txn {} t \<and> same_log s t \<and> view_block t = view_block s \<and> l_blocks t = l_blocks s"

lemma quietD:
  assumes "quiet s t"
  shows "txn {} t" "same_log s t" "view_block t = view_block s" "l_blocks t = l_blocks s" "inodes t = inodes s" "fs_sb t = fs_sb s"
    "usable t = usable s" "taken t = taken s" "layout_ok t = layout_ok s" "file_ok i n t = file_ok i n s" "same_but i s t"
proof -
  show q: "txn {} t" "same_log s t" "view_block t = view_block s" "l_blocks t = l_blocks s" using assms by (simp_all add: quiet_def)
  show r: "inodes t = inodes s" "fs_sb t = fs_sb s" "usable t = usable s" using same_log_fs [OF q(2)] usable_same [OF q(2)] by simp_all
  show "taken t = taken s" "layout_ok t = layout_ok s" by (simp_all add: taken_def layout_ok_def q r)
  then show "file_ok i n t = file_ok i n s" by (simp add: file_ok_def q r)
  show "same_but i s t" by (rule same_log_but [OF q(2)])
qed

lemma quiet_trans: "quiet s t \<Longrightarrow> quiet t u \<Longrightarrow> quiet s u"
  by (auto simp: quiet_def intro: same_log_trans)

section \<open>The two halves of \<open>bmap\<close> for an indirect block\<close>

definition bmap_ind :: "nat \<Rightarrow> 'a fsst_scheme \<Rightarrow> (nat \<times> 'a fsst_scheme) res" where
  "bmap_ind i s =
     (let ip = inodes s ! i; addr = i_addrs ip ! NDIRECT
      in if addr = 0 then
           bindE (balloc (i_dev ip) s) (\<lambda>(a, s). Inr (a, upd_ino i (\<lambda>ip. ip\<lparr>i_addrs := (i_addrs ip)[NDIRECT := of_nat a]\<rparr>) s))
         else Inr (unat addr, s))"

definition bmap_entry :: "nat \<Rightarrow> nat \<Rightarrow> nat \<Rightarrow> 'a fsst_scheme \<Rightarrow> (nat \<times> 'a fsst_scheme) res" where
  "bmap_entry dev bn ind s =
     bindE (bread dev ind s) (\<lambda>(k, s).
       let addr = rd32 (b_data (bufs s ! k)) (4 * bn)
       in bindE
            (if addr = 0 then
               bindE (balloc dev s) (\<lambda>(a, s).
               bindE (log_write k (set_data k (wr32 (4 * bn) (of_nat a)) s)) (\<lambda>s. Inr (a, s)))
             else Inr (unat addr, s))
            (\<lambda>(a, s). bindE (brelse k s) (\<lambda>s. Inr (a, s))))"

lemma bmap_indirect:
  assumes "12 \<le> bn" "bn < 140"
  shows "bmap i bn s = bindE (bmap_ind i s) (\<lambda>(ind, s'). bmap_entry (i_dev (inodes s ! i)) (bn - 12) ind s')"
proof -
  have "\<not> bn < 12" "bn - 12 < 128" using assms by simp_all
  then show ?thesis by (simp only: bmap_def bmap_ind_def bmap_entry_def Let_def if_True if_False)
qed

lemma bmap_direct: "bn < 12 \<Longrightarrow> bmap i bn s =
    (if addrs_of i s ! bn = 0 then
       bindE (balloc (i_dev (inodes s ! i)) s) (\<lambda>(a, s). Inr (a, upd_ino i (\<lambda>ip. ip\<lparr>i_addrs := (i_addrs ip)[bn := of_nat a]\<rparr>) s))
     else Inr (unat (addrs_of i s ! bn), s))"
  by (simp add: bmap_def Let_def)

section \<open>A block that the file has\<close>

lemma bmap_has:
  assumes t: "txn {} s" and f: "file_ok i n s" and k: "k < n"
  obtains t where "bmap i k s = Inr (fb i s k, t)" "quiet s t"
proof -
  note m = file_okD(3) [OF f] and dev = file_okD(2) [OF f]
  have nz: "fb i s k \<noteq> 0" by (rule mapped_nonzero [OF m k])
  show ?thesis
  proof (cases "k < 12")
    case True
    then have "bmap i k s = Inr (fb i s k, s)" using nz by (simp add: bmap_direct fblk_def unat_eq_0)
    then show ?thesis by (rule that) (simp add: quiet_def t)
  next
    case False
    let ?ind = "ind_of (addrs_of i s)"
    have k140: "k < 140" using mappedD(2) [OF m] k by linarith
    have ind: "?ind \<noteq> 0" using mappedD(7) [OF m] k False by linarith
    then have bi: "bmap_ind i s = Inr (?ind, s)" by (simp add: bmap_ind_def Let_def unat_eq_0)
    have "?ind < disksize s" using takenD(2) mappedD(8) [OF m ind] by blast
    then obtain b u w where w: "bread 1 ?ind s = Inr (b, u)" "b_data (bufs u ! b) = view_block s ?ind" "brelse b u = Inr w" "txn {} w"
      "view_block w = view_block s" "same_log s w" "l_blocks w = l_blocks s"
      using txn_read [OF t, of ?ind] by (metis empty_iff)
    have e: "fb i s k = unat (rd32 (view_block s ?ind) (4 * (k - 12)))" using False by (simp add: fblk_def)
    then have "rd32 (view_block s ?ind) (4 * (k - 12)) \<noteq> 0" using nz by (simp add: unat_eq_0)
    then have "bmap_entry 1 (k - 12) ?ind s = Inr (fb i s k, w)" unfolding bmap_entry_def w(1) by (simp add: w(2,3) Let_def e)
    then have "bmap i k s = Inr (fb i s k, w)" using False k140 bi dev by (simp add: bmap_indirect)
    then show ?thesis by (rule that) (simp add: quiet_def w)
  qed
qed


section \<open>A new block\<close>

text \<open>
  The file has grown from \<open>n\<close> to \<open>m\<close> blocks. The blocks it had are the same ones, the new ones
  were free, and no block that is another's has changed. The blocks logged, and those that will be (the indirect block and
  that of the inode), are at most \<open>c\<close> more, and two for a new indirect block.
\<close>

definition ind_new :: "nat \<Rightarrow> 'a fsst_scheme \<Rightarrow> 'a fsst_scheme \<Rightarrow> nat" where
  "ind_new i s t = (if ind_of (addrs_of i s) = 0 \<and> ind_of (addrs_of i t) \<noteq> 0 then 1 else 0)"

definition to_log :: "nat \<Rightarrow> 'a fsst_scheme \<Rightarrow> nat set" where
  "to_log i s = insert (IBLOCK (i_inum (inodes s ! i)) (fs_sb s)) (({ind_of (addrs_of i s)} - {0}) \<union> set (l_blocks s))"

definition file_grown :: "nat \<Rightarrow> nat \<Rightarrow> nat \<Rightarrow> 'a fsst_scheme \<Rightarrow> nat \<Rightarrow> 'a fsst_scheme \<Rightarrow> bool" where
  "file_grown c i n s m t \<longleftrightarrow> txn {} t \<and> layout_ok t \<and> same_but i s t \<and> i_size (inodes t ! i) = i_size (inodes s ! i) \<and> file_ok i m t \<and>
     (\<forall>k < n. fb i t k = fb i s k) \<and> (ind_of (addrs_of i s) \<noteq> 0 \<longrightarrow> ind_of (addrs_of i t) = ind_of (addrs_of i s)) \<and>
     free_of t \<subseteq> free_of s \<and> own_blocks i m t \<subseteq> own_blocks i n s \<union> free_of s \<and>
     (\<forall>b. b \<notin> bm_blocks (fs_sb s) \<longrightarrow> b \<notin> free_of s \<longrightarrow> b \<notin> own_blocks i n s \<longrightarrow> view_block t b = view_block s b) \<and>
     card (free_of s) \<le> card (free_of t) + (m - n) + ind_new i s t \<and>
     card (to_log i t) \<le> card (to_log i s) + c + 2 * ind_new i s t"

lemma file_grownD:
  assumes "file_grown c i n s m t"
  shows "txn {} t" "layout_ok t" "same_but i s t" "i_size (inodes t ! i) = i_size (inodes s ! i)" "file_ok i m t"
    "k < n \<Longrightarrow> fb i t k = fb i s k" "ind_of (addrs_of i s) \<noteq> 0 \<Longrightarrow> ind_of (addrs_of i t) = ind_of (addrs_of i s)"
    "free_of t \<subseteq> free_of s" "own_blocks i m t \<subseteq> own_blocks i n s \<union> free_of s"
    "b \<notin> bm_blocks (fs_sb s) \<Longrightarrow> b \<notin> free_of s \<Longrightarrow> b \<notin> own_blocks i n s \<Longrightarrow> view_block t b = view_block s b"
    "card (free_of s) \<le> card (free_of t) + (m - n) + ind_new i s t"
    "card (to_log i t) \<le> card (to_log i s) + c + 2 * ind_new i s t"
  using assms unfolding file_grown_def by blast+

lemma file_grown_trans:
  assumes a: "file_grown c i n s m t" and b: "file_grown d i m t p u" and le: "n \<le> m" "m \<le> p"
  shows "file_grown (c + d) i n s p u"
proof -
  note sb = same_butD(1) [OF file_grownD(3) [OF a]] and a = file_grownD [OF a] and b = file_grownD [OF b]
  have new: "ind_new i s t + ind_new i t u = ind_new i s u" using a(7) b(7) by (auto simp: ind_new_def)
  show ?thesis unfolding file_grown_def
  proof (intro conjI allI impI)
    show "same_but i s u" by (rule same_but_trans [OF a(3) b(3)])
    show "fb i u k = fb i s k" if "k < n" for k using a(6) [OF that] b(6) [of k] that le by simp
    show "view_block u b' = view_block s b'" if "b' \<notin> bm_blocks (fs_sb s)" "b' \<notin> free_of s" "b' \<notin> own_blocks i n s" for b'
      using a(10) [OF that] b(10) [of b'] a(8,9) that sb by auto
    show "own_blocks i p u \<subseteq> own_blocks i n s \<union> free_of s" using a(8,9) b(9) by blast
    show "card (free_of s) \<le> card (free_of u) + (p - n) + ind_new i s u" using a(11) b(11) new le by linarith
    show "card (to_log i u) \<le> card (to_log i s) + (c + d) + 2 * ind_new i s u" using a(12) b(12) new by linarith
  qed (use a b in auto)
qed

lemma file_grown_quiet: "quiet s t \<Longrightarrow> layout_ok s \<Longrightarrow> file_ok i n s \<Longrightarrow> file_grown 0 i n s n t"
  unfolding file_grown_def ind_new_def to_log_def by (auto simp: quietD [of s t])

lemma file_grown_more: "file_grown c i n s m t \<Longrightarrow> c \<le> d \<Longrightarrow> file_grown d i n s m t"
  by (auto simp: file_grown_def)

lemma card_insert2: "card (insert x (insert y A)) \<le> card A + 2"
  by (cases "finite A") (simp_all add: card_insert_if)

lemma card_log: "card (set (l_blocks s)) \<le> card (to_log i s)"
  by (rule card_mono) (auto simp: to_log_def)

text \<open>A block has been taken while the file was not touched.\<close>

lemma took_file:
  assumes k: "took H s a t" and lo: "layout_ok s" and f: "file_ok i n s"
  shows "mapped (view_block t) (taken s) (addrs_of i s) n" "fblk (view_block t) (addrs_of i s) = fb i s"
    "blocks (view_block t) (addrs_of i s) n = own_blocks i n s" "a \<notin> own_blocks i n s" "a < 2 ^ 32"
    "b \<in> own_blocks i n s \<Longrightarrow> view_block t b = view_block s b" "own_blocks i n s \<subseteq> taken s"
proof -
  note d = tookD [OF k lo] and m = file_okD(3) [OF f]
  show sub: "own_blocks i n s \<subseteq> taken s" by (rule blocks_sub [OF m])
  then show "a \<notin> own_blocks i n s" using d(10) by blast
  show own: "view_block t b = view_block s b" if "b \<in> own_blocks i n s" for b
  proof (rule d(11))
    show "b \<notin> bm_blocks (fs_sb s)" "b \<noteq> a" using sub that d(10) takenD(6) by blast+
  qed
  have "0 \<notin> bm_blocks (fs_sb s)" using usableD(1) [OF layout_okD(1) [OF lo, of 0]] by blast
  then have "view_block t 0 = view_block s 0" using d(11,13) by simp
  note c = map_frame [where im' = "view_block t", OF own this]
  show "mapped (view_block t) (taken s) (addrs_of i s) n" "fblk (view_block t) (addrs_of i s) = fb i s"
    "blocks (view_block t) (addrs_of i s) n = own_blocks i n s" using c m by simp_all
  have "disksize s \<le> 2 ^ 31" using txnD(3) [OF d(2)] log_okD(7) [of t] same_logD(1) [OF d(3)] by simp
  then show "a < 2 ^ 32" using d(14) by simp
qed

lemma new_direct:
  assumes k: "took {} s a t" and lo: "layout_ok s" and f: "file_ok i n s" and n: "n < 12"
  defines "u \<equiv> upd_ino i (\<lambda>ip. ip\<lparr>i_addrs := (i_addrs ip)[n := of_nat a]\<rparr>) t"
  shows "file_grown 2 i n s (n + 1) u" "fb i u n = a" "k < n \<Longrightarrow> view_block u (fb i s k) = view_block s (fb i s k)" "a \<in> set (l_blocks u)" "ind_new i s u = 0"
proof -
  note d = tookD [OF k lo] and c = took_file [OF k lo f] and fd = file_okD [OF f]
  have i: "i < length (inodes t)" using fd(1) d(4) by simp
  note a = add_direct [OF c(1) n _ c(5) c(4) [folded c(3)]]
  have as: "addrs_of i u = (addrs_of i s)[n := of_nat a]" using i d(4) by (simp add: u_def)
  have v: "view_block u = view_block t" "fs_sb u = fs_sb s" "free_of u = free_of s - {a}" "taken u = insert a (taken s)"
    using d(5,7,9) by (simp_all add: u_def)
  have ind: "ind_of (addrs_of i u) = ind_of (addrs_of i s)" unfolding as using a(4) d(13) by simp
  then show "ind_new i s u = 0" by (auto simp: ind_new_def)
  have "same_but i s u" unfolding u_def by (rule same_but_trans [OF same_log_but [OF d(3)] ])
    (use same_but_addrs [OF i] in \<open>auto simp: same_but_def upd_ino_def nth_list_update\<close>)
  moreover have blk: "fb i u k = fb i s k" if "k < n" for k using a(2) [of k] d(13) that by (simp add: v as c(2))
  moreover show new: "fb i u n = a" using a(3) d(13) by (simp add: v as)
  moreover have "file_ok i (n + 1) u"
    using a(1) d(13) f fd(1) i d(4) v unfolding file_ok_def as v by (simp add: u_def)
  moreover have "own_blocks i (n + 1) u \<subseteq> own_blocks i n s \<union> free_of s"
    using blk new d(1) ind by (auto simp: blocks_def less_Suc_eq)
  moreover have "card (free_of s) \<le> card (free_of u) + (n + 1 - n) + ind_new i s u"
    using d(1) by (simp add: v(3) card_Diff_singleton)
  moreover have "card (to_log i u) \<le> card (to_log i s) + 2 + 2 * ind_new i s u"
  proof -
    have "to_log i u = insert (BBLOCK a (fs_sb s)) (insert a (to_log i s))"
      using d(4,5,17) i ind by (auto simp: to_log_def u_def)
    then show ?thesis using card_insert2 [of "BBLOCK a (fs_sb s)" a "to_log i s"] by (simp add: trans_le_add1)
  qed
  moreover have "i_size (inodes u ! i) = i_size (inodes s ! i)" using i d(4) by (simp add: u_def)
  ultimately show "file_grown 2 i n s (n + 1) u"
    using d(1,2,8,11) v ind unfolding file_grown_def by (auto simp: u_def)
  show "a \<in> set (l_blocks u)" using d(17) by (simp add: u_def)
  show "view_block u (fb i s k) = view_block s (fb i s k)" if "k < n"
    using c(6) [of "fb i s k"] that by (simp add: v blocks_def)
qed


lemma new_indirect:
  assumes k: "took {} s a t" and lo: "layout_ok s" and f: "file_ok i n s" and ind0: "ind_of (addrs_of i s) = 0"
  defines "u \<equiv> upd_ino i (\<lambda>ip. ip\<lparr>i_addrs := (i_addrs ip)[NDIRECT := of_nat a]\<rparr>) t"
  shows "file_grown 0 i n s n u" "ind_of (addrs_of i u) = a" "k < n \<Longrightarrow> view_block u (fb i s k) = view_block s (fb i s k)"
proof -
  note d = tookD [OF k lo] and c = took_file [OF k lo f] and fd = file_okD [OF f]
  have i: "i < length (inodes t)" using fd(1) d(4) by simp
  have n: "n \<le> 12" by (rule mappedD(7) [OF fd(3) ind0])
  note a = add_indirect [OF c(1) ind0 _ c(5) c(4) [folded c(3)] d(12)]
  have as: "addrs_of i u = (addrs_of i s)[NDIRECT := of_nat a]" using i d(4) by (simp add: u_def)
  have v: "view_block u = view_block t" "fs_sb u = fs_sb s" "free_of u = free_of s - {a}" "taken u = insert a (taken s)"
    using d(5,7,9) by (simp_all add: u_def)
  show ind: "ind_of (addrs_of i u) = a" unfolding as using a(3) d(13) by simp
  then have new: "ind_new i s u = 1" using ind0 d(13) by (simp add: ind_new_def)
  have "same_but i s u" unfolding u_def by (rule same_but_trans [OF same_log_but [OF d(3)] ])
    (use same_but_addrs [OF i] in \<open>auto simp: same_but_def upd_ino_def nth_list_update\<close>)
  moreover have blk: "fb i u k = fb i s k" if "k < n" for k using a(2) [of k] d(13) n that by (simp add: v as c(2))
  moreover have "file_ok i n u"
    using a(1) d(13) f fd(1) i d(4) v unfolding file_ok_def as v by (simp add: u_def)
  moreover have "own_blocks i n u \<subseteq> own_blocks i n s \<union> free_of s"
    using blk d(1) ind by (auto simp: blocks_def)
  moreover have "card (free_of s) \<le> card (free_of u) + (n - n) + ind_new i s u"
    using d(1) by (simp add: v(3) card_Diff_singleton new)
  moreover have "card (to_log i u) \<le> card (to_log i s) + 0 + 2 * ind_new i s u"
  proof -
    have "to_log i u = insert (BBLOCK a (fs_sb s)) (insert a (to_log i s))"
      using d(4,5,13,17) i ind ind0 by (auto simp: to_log_def u_def)
    then show ?thesis using card_insert2 [of "BBLOCK a (fs_sb s)" a "to_log i s"] by (simp add: new)
  qed
  moreover have "i_size (inodes u ! i) = i_size (inodes s ! i)" using i d(4) by (simp add: u_def)
  ultimately show "file_grown 0 i n s n u"
    using d(1,2,8,11) v ind0 unfolding file_grown_def by (auto simp: u_def)
  show "view_block u (fb i s k) = view_block s (fb i s k)" if "k < n"
    using c(6) [of "fb i s k"] that by (simp add: v blocks_def)
qed

lemma bmap_ind_ok:
  assumes t: "txn {} s" and lo: "layout_ok s" and f: "file_ok i n s"
    and room: "ind_of (addrs_of i s) = 0 \<Longrightarrow> free_of s \<noteq> {} \<and> card (to_log i s) + 2 \<le> 28"
  obtains u where "bmap_ind i s = Inr (ind_of (addrs_of i u), u)" "file_grown 0 i n s n u" "ind_of (addrs_of i u) \<noteq> 0"
    "\<And>k. k < n \<Longrightarrow> view_block u (fb i s k) = view_block s (fb i s k)"
proof (cases "ind_of (addrs_of i s) = 0")
  case True
  have "card (set (l_blocks s)) + 2 \<le> 28" using room [OF True] card_log [of s i] by linarith
  then obtain a t' where a: "balloc 1 s = Inr (a, t')" "took {} s a t'" using balloc_ok [OF t lo _ _ conjunct1 [OF room [OF True]]] by blast
  define u where "u = upd_ino i (\<lambda>ip. ip\<lparr>i_addrs := (i_addrs ip)[NDIRECT := of_nat a]\<rparr>) t'"
  note g = new_indirect [OF a(2) lo f True, folded u_def]
  have "bmap_ind i s = Inr (a, u)"
    using True file_okD(2) [OF f] a(1) by (simp add: bmap_ind_def Let_def unat_eq_0 u_def)
  then show ?thesis using that [of u] g tookD(13) [OF a(2) lo] by simp
next
  case False
  then have "bmap_ind i s = Inr (ind_of (addrs_of i s), s)" by (simp add: bmap_ind_def Let_def unat_eq_0)
  moreover have "file_grown 0 i n s n s" by (rule file_grown_quiet) (use t lo f in \<open>simp_all add: quiet_def\<close>)
  ultimately show ?thesis using that False by blast
qed

lemma txn_hold:
  assumes t: "txn {} s" and u: "bio_inv u {k}" "same_log s u" "l_blocks u = l_blocks s" "dirty_blocks u = dirty_blocks s"
  shows "txn {k} u"
  using u(1) log_ok_same [OF txnD(3) [OF t] u(2,3,4)] by (simp add: txn_def)

lemma bmap_entry_new:
  assumes t: "txn {} s" and lo: "layout_ok s" and f: "file_ok i n s" and ind: "ind_of (addrs_of i s) \<noteq> 0" and n: "12 \<le> n" "n < 140"
    and room: "free_of s \<noteq> {}" "card (to_log i s) + 2 \<le> 28"
  obtains a w where "bmap_entry 1 (n - 12) (ind_of (addrs_of i s)) s = Inr (a, w)" "file_grown 2 i n s (n + 1) w" "fb i w n = a"
    "a \<in> set (l_blocks w)" "\<And>k. k < n \<Longrightarrow> view_block w (fb i s k) = view_block s (fb i s k)"
proof -
  let ?ind = "ind_of (addrs_of i s)" and ?sb = "fs_sb s"
  note fd = file_okD [OF f] and m = mappedD [OF file_okD(3) [OF f]]
  note it = takenD [OF m(8) [OF ind]]
  obtain k u where u: "bread 1 ?ind s = Inr (k, u)" "k < NBUF" "bio_inv u {k}" "holds ?ind k u" "b_valid (bufs u ! k)"
    "b_data (bufs u ! k) = view_block s ?ind" "view_block u = view_block s" "same_log s u" "l_blocks u = l_blocks s" "dirty_blocks u = dirty_blocks s"
    using txn_bread [OF t it(2)] by (metis empty_iff)
  have su: "inodes u = inodes s" "fs_sb u = ?sb" "usable u = usable s" using same_log_fs [OF u(8)] usable_same [OF u(8)] by simp_all
  have lu: "layout_ok u" using lo by (simp add: layout_ok_def su u(7))
  have fu: "file_ok i n u" using f by (simp add: file_ok_def su u(7) taken_def)
  have room_u: "card (set (l_blocks u)) + 2 \<le> 28" "free_of u \<noteq> {}" using room card_log [of s i] by (simp_all add: u(7,9) su)
  have nh: "\<not> holds b k u" if "b \<in> free_of u \<union> bm_blocks (fs_sb u)" for b
  proof
    assume "holds b k u"
    then have "b = ?ind" using u(4) by (simp add: holds_def)
    then show False using that it(5,6) by (auto simp: su u(7))
  qed
  obtain a v where a: "balloc 1 u = Inr (a, v)" "took {k} u a v"
    using balloc_ok [OF txn_hold [OF t u(3,8,9,10)] lu room_u(1) _ room_u(2)] nh by (metis singletonD)
  note d = tookD [OF a(2) lu, unfolded su u(7)] and c = took_file [OF a(2) lu fu, unfolded su u(7)]
  have buf: "bufs v ! k = bufs u ! k" using d(18) [of k] by simp
  have iv: "view_block v ?ind = view_block s ?ind" using c(6) [of ?ind] ind by (simp add: blocks_def)
  let ?f = "wr32 (4 * (n - NDIRECT)) (of_nat a)"
  have hv: "holds ?ind k v" "b_valid (bufs v ! k)" using u(4,5) by (simp_all add: holds_def buf)
  have bv: "bio_inv v (insert k {})" by (rule txnD(1) [OF d(2)])
  have iu: "?ind < disksize v" "?ind \<notin> log_area v" using it(2,3) same_logD [OF d(3)] same_logD [OF u(8)] by simp_all
  have sub: "insert ?ind (set (l_blocks v)) \<subseteq> insert (BBLOCK a ?sb) (insert a (to_log i s))"
    using ind d(17) by (auto simp: to_log_def u(9))
  then have "card (insert ?ind (set (l_blocks v))) \<le> card (to_log i s) + 2"
    using card_mono [OF _ sub] card_insert2 [of "BBLOCK a ?sb" a "to_log i s"] by (fastforce simp: to_log_def)
  then have rv: "card (insert ?ind (set (l_blocks v))) \<le> 28" using room(2) by linarith
  obtain w' w where w: "log_write k (set_data k ?f v) = Inr w'" "brelse k w' = Inr w" "bio_inv w {}" "log_ok w"
    "view_block w = (view_block v)(?ind := ?f (b_data (bufs v ! k)))" "same_log v w" "set (l_blocks w) = insert ?ind (set (l_blocks v))"
    using logged_release [OF bv _ hv txnD(3) [OF d(2)] it(1) iu rv, where f = ?f] by (metis empty_iff)
  have run: "bmap_entry 1 (n - 12) ?ind s = Inr (a, w)"
  proof -
    have "fb i s n = 0" using m(10) [OF ind n(1) order_refl n(2)] .
    then have "rd32 (b_data (bufs u ! k)) (4 * (n - 12)) = 0" using n(1) by (simp add: fblk_def u(6) unat_eq_0)
    then show ?thesis unfolding bmap_entry_def u(1) using a(1) w(1,2) by simp
  qed
  have sw: "same_log s w" using u(8) d(3) w(6) same_log_trans by blast
  note sf = same_log_fs [OF sw]
  have vw: "view_block w = (view_block v)(?ind := ?f (view_block v ?ind))" unfolding w(5) buf u(6) iv ..
  note e = add_entry [OF c(1) ind n _ c(5) c(4) [folded c(3)], folded vw]
  have ind_bm: "?ind \<notin> bm_blocks ?sb" by (rule it(6))
  have bits: "bit_used (view_block w (BBLOCK b ?sb)) = bit_used (view_block v (BBLOCK b ?sb))" if "b < unat (sb_size ?sb)" for b
    using BBLOCK_bm [OF that] ind_bm unfolding vw by auto
  have "free_blocks (view_block w) ?sb = free_blocks (view_block v) ?sb" by (auto simp: free_blocks_def bits)
  then have fw: "free_blocks (view_block w) ?sb = free_of s - {a}" using d(7) by simp
  have us: "usable w = usable s" by (rule usable_same [OF sw])
  have tw: "taken w = insert a (taken s)"
  proof -
    have "taken w = taken v" by (simp add: taken_def us d(5,6,7) sf fw su)
    then show ?thesis using d(9) by (simp add: taken_def su u(7))
  qed
  have lw: "layout_ok w" using d(8) by (simp add: layout_ok_def us d(5,6,7) sf fw su)
  have blk: "fb i w k' = fb i s k'" if "k' < n" for k' using e(2) [of k'] d(13) that by (simp add: sf c(2))
  have fbn: "fb i w n = a" using e(3) d(13) by (simp add: sf)
  have new0: "ind_new i s w = 0" using ind by (simp add: ind_new_def)
  have "file_grown 2 i n s (n + 1) w"
    unfolding file_grown_def
  proof (intro conjI allI impI)
    show "txn {} w" using w(3,4) by (simp add: txn_def)
    show "same_but i s w" by (rule same_log_but [OF sw])
    show "file_ok i (n + 1) w" using e(1) d(13) f unfolding file_ok_def tw sf by (auto simp: taken_def su u(7))
    show "own_blocks i (n + 1) w \<subseteq> own_blocks i n s \<union> free_of s" using blk fbn d(1) by (auto simp: blocks_def less_Suc_eq sf)
    show "view_block w b = view_block s b" if b: "b \<notin> bm_blocks ?sb" "b \<notin> free_of s" "b \<notin> own_blocks i n s" for b
    proof -
      have "b \<noteq> ?ind" "b \<noteq> a" using b d(1) ind by (auto simp: blocks_def)
      then show ?thesis using d(11) [of b] b(1) by (simp add: vw)
    qed
    show "card (free_of s) \<le> card (free_of w) + (n + 1 - n) + ind_new i s w"
      using d(1) unfolding sf fw by (simp add: card_Diff_singleton)
    have "to_log i w = insert (BBLOCK a ?sb) (insert a (to_log i s))"
      using ind unfolding to_log_def w(7) d(17) sf by (auto simp: u(9))
    then show "card (to_log i w) \<le> card (to_log i s) + 2 + 2 * ind_new i s w"
      using card_insert2 [of "BBLOCK a ?sb" a "to_log i s"] by (simp add: new0)
  qed (use lw blk fw sf in auto)
  moreover have "a \<in> set (l_blocks w)" using d(17) w(7) by simp
  moreover have "view_block w (fb i s k') = view_block s (fb i s k')" if k': "k' < n" for k'
  proof -
    have "fb i s k' \<noteq> ?ind" by (rule m(9) [OF ind k'])
    then show ?thesis using c(6) [of "fb i s k'"] k' by (simp add: vw blocks_def)
  qed
  ultimately show ?thesis using that [OF run _ fbn] by blast
qed


text \<open>The next block of a file, and what it takes: free blocks, and room in the log.\<close>

definition ind_cost :: "nat \<Rightarrow> nat \<Rightarrow> 'a fsst_scheme \<Rightarrow> nat" where
  "ind_cost i m s = (if 12 < m \<and> ind_of (addrs_of i s) = 0 then 1 else 0)"

lemma bmap_next:
  assumes t: "txn {} s" and lo: "layout_ok s" and f: "file_ok i n s" and n: "n < MAXFILE"
    and free: "1 + ind_cost i (n + 1) s \<le> card (free_of s)" and room: "card (to_log i s) + 2 + 2 * ind_cost i (n + 1) s \<le> 28"
  obtains a w where "bmap i n s = Inr (a, w)" "file_grown 2 i n s (n + 1) w" "fb i w n = a" "a \<in> set (l_blocks w)"
    "\<And>k. k < n \<Longrightarrow> view_block w (fb i s k) = view_block s (fb i s k)" "ind_new i s w \<le> ind_cost i (n + 1) s"
proof (cases "n < 12")
  case True
  have ne: "free_of s \<noteq> {}" using free by auto
  have "card (set (l_blocks s)) + 2 \<le> 28" using room card_log [of s i] by linarith
  then obtain a t' where a: "balloc 1 s = Inr (a, t')" "took {} s a t'" using balloc_ok [OF t lo _ _ ne] by blast
  define u where "u = upd_ino i (\<lambda>ip. ip\<lparr>i_addrs := (i_addrs ip)[n := of_nat a]\<rparr>) t'"
  note g = new_direct [OF a(2) lo f True, folded u_def]
  have "addrs_of i s ! n = 0" by (rule mappedD(6) [OF file_okD(3) [OF f] True order_refl])
  then have "bmap i n s = Inr (a, u)" using True file_okD(2) [OF f] a(1) by (simp add: bmap_direct u_def)
  then show ?thesis using that [of a u] g by simp
next
  case False
  have ri: "free_of s \<noteq> {} \<and> card (to_log i s) + 2 \<le> 28" if "ind_of (addrs_of i s) = 0"
    using free room that False by (auto simp: ind_cost_def)
  obtain u where u: "bmap_ind i s = Inr (ind_of (addrs_of i u), u)" "file_grown 0 i n s n u" "ind_of (addrs_of i u) \<noteq> 0"
    "\<And>k. k < n \<Longrightarrow> view_block u (fb i s k) = view_block s (fb i s k)"
    using bmap_ind_ok [OF t lo f ri] by metis
  note gu = file_grownD [OF u(2)]
  have cost: "ind_new i s u \<le> ind_cost i (n + 1) s" using False by (simp add: ind_new_def ind_cost_def)
  have ru: "free_of u \<noteq> {}" "card (to_log i u) + 2 \<le> 28" using gu(11,12) cost free room by auto
  have n': "12 \<le> n" "n < 140" using False n by simp_all
  obtain a w where w: "bmap_entry 1 (n - 12) (ind_of (addrs_of i u)) u = Inr (a, w)" "file_grown 2 i n u (n + 1) w" "fb i w n = a"
    "a \<in> set (l_blocks w)" "\<And>k. k < n \<Longrightarrow> view_block w (fb i u k) = view_block u (fb i u k)"
    using bmap_entry_new [OF gu(1,2,5) u(3) n' ru] by metis
  have "bmap i n s = Inr (a, w)" unfolding bmap_indirect [OF n'] u(1) file_okD(2) [OF f] using w(1) by simp
  moreover have "file_grown 2 i n s (n + 1) w" using file_grown_trans [OF u(2) w(2)] unfolding add_0 by simp
  moreover have "view_block w (fb i s k) = view_block s (fb i s k)" if "k < n" for k
    using w(5) [OF that] u(4) [OF that] gu(6) [OF that] by simp
  moreover have "ind_new i s w \<le> ind_cost i (n + 1) s" using False by (simp add: ind_new_def ind_cost_def)
  ultimately show ?thesis using that w(3,4) by blast
qed

text \<open>Either case, for a block that is written next.\<close>

lemma bmap_ok:
  assumes t: "txn {} s" and lo: "layout_ok s" and f: "file_ok i n s" and k: "k \<le> n" "k < MAXFILE"
  defines "m \<equiv> max n (k + 1)"
  assumes free: "(m - n) + ind_cost i m s \<le> card (free_of s)" and room: "card (to_log i s) + 1 + (m - n) + 2 * ind_cost i m s \<le> 28"
  obtains w where "bmap i k s = Inr (fb i w k, w)" "file_grown (2 * (m - n)) i n s m w" "k = n \<Longrightarrow> fb i w n \<in> set (l_blocks w)"
    "\<And>k. k < n \<Longrightarrow> view_block w (fb i s k) = view_block s (fb i s k)" "ind_new i s w \<le> ind_cost i m s" "k < n \<Longrightarrow> inodes w = inodes s"
proof (cases "k < n")
  case True
  then have m: "m = n" by (simp add: m_def)
  obtain w where w: "bmap i k s = Inr (fb i s k, w)" "quiet s w" using bmap_has [OF t f True] by blast
  note q = quietD [OF w(2)]
  have "file_grown 0 i n s n w" by (rule file_grown_quiet [OF w(2) lo f])
  then show ?thesis using that [of w] w(1) q(3,5) True by (simp add: m ind_new_def)
next
  case False
  then have m: "m = n + 1" "k = n" using k(1) by (simp_all add: m_def)
  have fr: "1 + ind_cost i (n + 1) s \<le> card (free_of s)" "card (to_log i s) + 2 + 2 * ind_cost i (n + 1) s \<le> 28"
    using free room unfolding m(1) by simp_all
  obtain a w where w: "bmap i n s = Inr (a, w)" "file_grown 2 i n s (n + 1) w" "fb i w n = a" "a \<in> set (l_blocks w)"
    "\<And>k. k < n \<Longrightarrow> view_block w (fb i s k) = view_block s (fb i s k)" "ind_new i s w \<le> ind_cost i (n + 1) s"
    using bmap_next [OF t lo f k(2) [unfolded m(2)] fr] by metis
  show ?thesis by (rule that [of w]) (use w in \<open>simp_all add: m\<close>)
qed

end
