(* ===== verification/Contents.thy ===== *)
theory Contents
  imports Fs Filemap
begin

text \<open>
  What a file contains: the bytes of its blocks up to its size, as they are seen through the cache. Inside a
  transaction \<open>readi\<close> returns a part of these bytes and \<open>writei\<close> replaces a part, also past
  the end, where it takes blocks from the allocator; the other files keep theirs.
\<close>

section \<open>The bytes of a file\<close>

abbreviation size_of :: "nat \<Rightarrow> 'a fsst_scheme \<Rightarrow> nat" where
  "size_of i s \<equiv> unat (i_size (inodes s ! i))"

abbreviation byte_of :: "nat \<Rightarrow> 'a fsst_scheme \<Rightarrow> nat \<Rightarrow> 8 word" where
  "byte_of i s \<equiv> fbyte (view_block s) (addrs_of i s)"

definition content :: "nat \<Rightarrow> 'a fsst_scheme \<Rightarrow> 8 word list" where
  "content i s = fbytes (view_block s) (addrs_of i s) (size_of i s)"

text \<open>A file or directory that is not a device, with all of its blocks.\<close>

definition is_file :: "nat \<Rightarrow> 'a fsst_scheme \<Rightarrow> bool" where
  "is_file i s \<longleftrightarrow> file_ok i (nblks (size_of i s)) s \<and> i_type (inodes s ! i) \<noteq> T_DEV"

text \<open>Inside a transaction, with the disk laid out as the super block says.\<close>

definition fs_inv :: "'a fsst_scheme \<Rightarrow> bool" where
  "fs_inv s \<longleftrightarrow> txn {} s \<and> layout_ok s"

lemma length_content [simp]: "length (content i s) = size_of i s"
  by (simp add: content_def fbytes_def)

lemma nth_content: "j < size_of i s \<Longrightarrow> content i s ! j = byte_of i s j"
  by (simp add: content_def fbytes_def)

lemma part_of_content: "off + m \<le> size_of i s \<Longrightarrow> take m (drop off (content i s)) = map (byte_of i s) [off..<off + m]"
  by (rule nth_equalityI) (simp_all add: nth_content)

lemma quiet_bytes:
  assumes "quiet s t"
  shows "byte_of i t = byte_of i s" "content i t = content i s" "is_file i t = is_file i s" "layout_ok t = layout_ok s"
  using quietD [OF assms] by (simp_all add: content_def is_file_def)

section \<open>Reading\<close>

lemma block_bytes_file:
  assumes "off mod 512 + m \<le> 512"
  shows "block_bytes (view_block s (fb i s (off div 512))) (off mod 512) m = map (byte_of i s) [off..<off + m]"
proof (rule nth_equalityI)
  fix j assume "j < length (block_bytes (view_block s (fb i s (off div 512))) (off mod 512) m)"
  then have j: "j < m" by (simp add: block_bytes_def)
  then have "512 * (off div 512) \<le> off + j" "off + j < 512 * (off div 512) + 512"
    using assms div_mult_mod_eq [of off 512] by linarith+
  then have d: "(off + j) div 512 = off div 512" by (intro div_nat_eqI) simp_all
  then have "(off + j) mod 512 = off mod 512 + j" using div_mult_mod_eq [of "off + j" 512] div_mult_mod_eq [of off 512] by linarith
  then show "block_bytes (view_block s (fb i s (off div 512))) (off mod 512) m ! j = map (byte_of i s) [off..<off + m] ! j"
    using j d by (simp add: block_bytes_def fbyte_def)
qed (simp add: block_bytes_def)

lemma chunk_bounds:
  fixes off :: nat
  assumes "todo \<noteq> 0"
  shows "0 < chunk off todo" "chunk off todo \<le> todo" "off mod 512 + chunk off todo \<le> 512"
proof -
  have o: "off mod 512 < 512" by simp
  then show "0 < chunk off todo" "chunk off todo \<le> todo" using assms by simp_all
  show "off mod 512 + chunk off todo \<le> 512" using o min.cobounded2 [of todo "512 - off mod 512"] by linarith
qed

lemma readi_loop_ok:
  assumes "txn {} s" "file_ok i n s" "off + todo \<le> n * 512"
  shows "\<exists>t. readi_loop i None off todo got s = Inr (got @ map (byte_of i s) [off..<off + todo], t) \<and> quiet s t"
  using assms
proof (induction todo arbitrary: off got s rule: less_induct)
  case (less todo off got s)
  show ?case
  proof (cases "todo = 0")
    case True
    then show ?thesis using less.prems(1) by (simp add: readi_loop.simps quiet_def)
  next
    case False
    define c where "c = chunk off todo"
    have c: "0 < c" "c \<le> todo" "off mod 512 + c \<le> 512" using chunk_bounds [OF False, of off] by (simp_all only: c_def)
    have k: "off div 512 < n" using less.prems(3) False by (simp add: less_mult_imp_div_less)
    let ?b = "fb i s (off div 512)"
    obtain u where u: "bmap i (off div 512) s = Inr (?b, u)" "quiet s u" using bmap_has [OF less.prems(1,2) k] .
    note q = quietD [OF u(2)]
    have dev: "i_dev (inodes u ! i) = 1" using file_okD(2) [OF less.prems(2)] by (simp add: q(5))
    have "?b < disksize u"
      using takenD(2) mappedD(4) [OF file_okD(3) [OF less.prems(2)] k] same_logD(1) [OF q(2)] by metis
    then obtain x v w where v: "bread 1 ?b u = Inr (x, v)" "b_data (bufs v ! x) = view_block u ?b" "brelse x v = Inr w" "txn {} w"
      "view_block w = view_block u" "same_log u w" "l_blocks w = l_blocks u"
      using txn_read [OF q(1), of ?b] by (metis empty_iff)
    have "quiet u w" using v(4-7) by (simp add: quiet_def)
    then have qw: "quiet s w" by (rule quiet_trans [OF u(2)])
    note q' = quietD [OF qw] and qb = quiet_bytes [OF qw]
    have step: "readi_loop i None off todo got s =
      readi_loop i None (off + c) (todo - c) (got @ map (byte_of i s) [off..<off + c]) w"
    proof -
      have "block_bytes (b_data (bufs v ! x)) (off mod 512) c = map (byte_of i s) [off..<off + c]"
        using block_bytes_file [OF c(3), of s i] by (simp add: v(2) q(3))
      then show ?thesis using False v(3)
        unfolding readi_loop.simps [of i None off todo got s] by (simp add: u(1) dev v(1) [simplified] store_at_def Let_def c_def [symmetric])
    qed
    have "off + c + (todo - c) \<le> n * 512" "todo - c < todo" using less.prems(3) c(1,2) by linarith+
    then obtain t where t: "readi_loop i None (off + c) (todo - c) (got @ map (byte_of i s) [off..<off + c]) w =
        Inr ((got @ map (byte_of i s) [off..<off + c]) @ map (byte_of i w) [off + c..<off + c + (todo - c)], t)" "quiet w t"
      using less.IH [OF _ q'(1)] less.prems(2) q'(10) by blast
    have "[off..<off + todo] = [off..<off + c] @ [off + c..<off + c + (todo - c)]"
      using upt_add_eq_append [of off "off + c" "todo - c"] c(2) by simp
    then show ?thesis using t step qb(1) quiet_trans [OF qw t(2)] by auto
  qed
qed


lemma is_fileD:
  assumes "is_file i s"
  shows "file_ok i (nblks (size_of i s)) s" "i_type (inodes s ! i) \<noteq> T_DEV" "size_of i s \<le> 71680" "size_of i s \<le> nblks (size_of i s) * 512"
proof -
  show f: "file_ok i (nblks (size_of i s)) s" and "i_type (inodes s ! i) \<noteq> T_DEV" using assms by (simp_all add: is_file_def)
  show fits: "size_of i s \<le> nblks (size_of i s) * 512" by (rule nblks_fits)
  show "size_of i s \<le> 71680" using mappedD(2) [OF file_okD(3) [OF f]] fits by linarith
qed

lemma no_wrap:
  fixes off n :: "32 word"
  assumes "\<not> off + n < off"
  shows "unat (off + n) = unat off + unat n"
proof -
  have "unat off \<le> unat (off + n)" using assms by (simp add: word_le_nat_alt not_less)
  then show ?thesis by (meson unat_plus_simple word_le_nat_alt)
qed

lemma sint_small: "unat (w :: 32 word) \<le> 71680 \<Longrightarrow> sint w = int (unat w)"
  using sint_of_nat32 [of "unat w"] by simp

lemma readi_file:
  assumes t: "txn {} s" and f: "is_file i s"
  shows "\<exists>t. readi i None off n s =
      (if off > i_size (inodes s ! i) \<or> off + n < off then Inr (-1, [], t)
       else let bs = take (unat n) (drop (unat off) (content i s)) in Inr (int (length bs), bs, t)) \<and> quiet s t"
proof (cases "off > i_size (inodes s ! i) \<or> off + n < off")
  case True
  then show ?thesis using is_fileD(2) [OF f] t by (auto simp: readi_def Let_def quiet_def)
next
  case False
  note d = is_fileD [OF f]
  let ?n = "if off + n > i_size (inodes s ! i) then i_size (inodes s ! i) - off else n"
  have off: "unat off \<le> size_of i s" using False by (simp add: word_le_nat_alt not_less)
  have sum: "unat (off + n) = unat off + unat n" by (rule no_wrap) (use False in simp)
  have n: "unat ?n = min (unat n) (size_of i s - unat off)"
    using off sum by (auto simp: word_less_nat_alt unat_sub word_le_nat_alt)
  have bs: "take (unat n) (drop (unat off) (content i s)) = map (byte_of i s) [unat off..<unat off + unat ?n]"
  proof -
    have "take (unat n) (drop (unat off) (content i s)) = take (unat ?n) (drop (unat off) (content i s))"
      unfolding n by (simp add: min_def)
    also have "\<dots> = map (byte_of i s) [unat off..<unat off + unat ?n]" by (rule part_of_content) (use off n in linarith)
    finally show ?thesis .
  qed
  have "unat off + unat ?n \<le> nblks (size_of i s) * 512" using d(4) off n by linarith
  then obtain t where t: "readi_loop i None (unat off) (unat ?n) [] s = Inr (map (byte_of i s) [unat off..<unat off + unat ?n], t)" "quiet s t"
    using readi_loop_ok [OF t d(1), of "unat off" "unat ?n" "[]"] by auto
  have "sint ?n = int (unat ?n)" by (rule sint_small) (use n d(3) in linarith)
  then have "readi i None off n s = Inr (int (unat ?n), map (byte_of i s) [unat off..<unat off + unat ?n], t)"
    using False d(2) t(1) by (simp add: readi_def Let_def del: split_paired_Ex)
  then show ?thesis using t(2) False bs by (auto simp: Let_def)
qed

section \<open>Writing\<close>

text \<open>One block of the file is changed and logged.\<close>

lemma put_ok:
  assumes t: "txn {} s" and lo: "layout_ok s" and f: "file_ok i n s" and k: "off div 512 < n" and q: "off mod 512 + length q \<le> 512"
    and room: "fb i s (off div 512) \<in> set (l_blocks s) \<and> card (to_log i s) \<le> 28 \<or> card (to_log i s) + 1 \<le> 28"
  obtains x u v w where "bread 1 (fb i s (off div 512)) s = Inr (x, u)" "same_log s u"
    "log_write x (set_data x (put_bytes (off mod 512) q) u) = Inr v" "brelse x v = Inr w"
    "file_grown (if fb i s (off div 512) \<in> set (l_blocks s) then 0 else 1) i n s n w" "inodes w = inodes s"
    "\<And>j. j < n * 512 \<Longrightarrow> byte_of i w j = (if off \<le> j \<and> j < off + length q then q ! (j - off) else byte_of i s j)"
proof -
  let ?b = "fb i s (off div 512)"
  note fd = file_okD [OF f] and b = takenD [OF mappedD(4) [OF file_okD(3) [OF f] k]]
  have "card (insert ?b (set (l_blocks s))) \<le> 28"
    using room card_log [of s i] card_insert_le_m1 [of 28 "set (l_blocks s)" ?b] by (auto simp: insert_absorb)
  then obtain x u v w where w: "bread 1 ?b s = Inr (x, u)" "same_log s u"
    "log_write x (set_data x (put_bytes (off mod 512) q) u) = Inr v" "brelse x v = Inr w" "txn {} w"
    "view_block w = (view_block s)(?b := put_bytes (off mod 512) q (view_block s ?b))"
    "same_log s w" "set (l_blocks w) = insert ?b (set (l_blocks s))"
    using txn_update [OF t b(1,2,3), where f = "put_bytes (off mod 512) q"] by (metis empty_iff)
  note sf = same_log_fs [OF w(7)]
  note p = put_byte [OF fd(3) k q, folded put_bytes_def, folded w(6)]
  have us: "usable w = usable s" by (rule usable_same [OF w(7)])
  have "free_of w = free_of s"
  proof -
    have "BBLOCK x (fs_sb s) \<noteq> ?b" if "x < unat (sb_size (fs_sb s))" for x using b(6) BBLOCK_bm [OF that] by metis
    then show ?thesis by (auto simp: free_blocks_def sf w(6))
  qed
  then have fr: "free_of w = free_of s" "taken w = taken s" "layout_ok w" using lo by (simp_all add: taken_def layout_ok_def us sf)
  have ind: "ind_new i s w = 0" by (auto simp: ind_new_def sf)
  have log: "to_log i w = insert ?b (to_log i s)" unfolding to_log_def w(8) sf by auto
  have "file_grown (if ?b \<in> set (l_blocks s) then 0 else 1) i n s n w"
    unfolding file_grown_def
  proof (intro conjI allI impI)
    show "file_ok i n w" using f p(1) by (simp add: file_ok_def sf fr)
    show "own_blocks i n w \<subseteq> own_blocks i n s \<union> free_of s" unfolding blocks_def sf p(2) by blast
    show "view_block w b' = view_block s b'" if "b' \<notin> own_blocks i n s" for b'
      using that k by (auto simp: w(6) blocks_def)
    show "card (to_log i w) \<le> card (to_log i s) + (if ?b \<in> set (l_blocks s) then 0 else 1) + 2 * ind_new i s w"
    proof (cases "?b \<in> set (l_blocks s)")
      case True
      then have "?b \<in> to_log i s" by (simp add: to_log_def)
      then show ?thesis by (simp add: log insert_absorb)
    next
      case False
      then show ?thesis using card_insert_le_m1 [of "card (to_log i s) + 1" "to_log i s" ?b] by (simp add: log)
    qed
    show "same_but i s w" by (rule same_log_but [OF w(7)])
  qed (use w(5) fr p sf in simp_all)
  then show ?thesis using that [OF w(1-4)] p(3) sf by simp
qed


text \<open>
  The bytes \<open>q\<close> are at \<open>off\<close>, in a file that had \<open>n\<close> blocks; every block that is written
  costs one block of the log, a new one two, and a new indirect block two more.
\<close>

definition touched :: "nat \<Rightarrow> nat \<Rightarrow> nat" where
  "touched off todo = (if todo = 0 then 0 else nblks (off + todo) - off div 512)"

definition wrote :: "nat \<Rightarrow> nat \<Rightarrow> 8 word list \<Rightarrow> nat \<Rightarrow> 'a fsst_scheme \<Rightarrow> nat \<Rightarrow> 'a fsst_scheme \<Rightarrow> bool" where
  "wrote i off q n s m t \<longleftrightarrow> file_grown (touched off (length q) + (m - n)) i n s m t \<and> ind_new i s t \<le> ind_cost i m s \<and>
     (\<forall>j. off \<le> j \<longrightarrow> j < off + length q \<longrightarrow> byte_of i t j = q ! (j - off)) \<and>
     (\<forall>j < n * 512. j < off \<or> off + length q \<le> j \<longrightarrow> byte_of i t j = byte_of i s j) \<and> (m = n \<longrightarrow> inodes t = inodes s)"

lemma nblks_one: "512 * k < m \<Longrightarrow> m \<le> 512 * k + 512 \<Longrightarrow> nblks m = k + 1"
  unfolding nblks_def by (rule div_nat_eqI) simp_all

lemma touched_step:
  fixes off :: nat
  assumes "todo \<noteq> 0"
  defines "c \<equiv> chunk off todo"
  shows "touched off todo = 1 + touched (off + c) (todo - c)" "nblks (off + c) = off div 512 + 1"
    "off div 512 + 1 \<le> nblks (off + todo)" "c < todo \<Longrightarrow> off + c = 512 * (off div 512 + 1)"
proof -
  have b: "0 < c" "c \<le> todo" "off mod 512 + c \<le> 512" using chunk_bounds [OF assms(1), of off] by (simp_all only: c_def)
  have off: "off = 512 * (off div 512) + off mod 512" by simp
  have "512 * (off div 512) < off + c" "off + c \<le> 512 * (off div 512) + 512" using off b by linarith+
  then show n: "nblks (off + c) = off div 512 + 1" by (rule nblks_one)
  show "off div 512 + 1 \<le> nblks (off + todo)" using nblks_mono [of "off + c" "off + todo"] n b(2) by linarith
  show full: "off + c = 512 * (off div 512 + 1)" if "c < todo"
  proof -
    have "c = 512 - off mod 512" using that by (simp add: c_def min_def split: if_splits)
    then have "off mod 512 + c = 512" by simp
    then have "off + c = 512 * (off div 512) + 512" using off by linarith
    then show ?thesis by simp
  qed
  show "touched off todo = 1 + touched (off + c) (todo - c)"
  proof (cases "c < todo")
    case True
    then have e: "(off + c) div 512 = off div 512 + 1" "off + c + (todo - c) = off + todo" using full b(2) by simp_all
    have "off div 512 + 2 \<le> nblks (off + todo)"
    proof -
      have "nblks (512 * (off div 512 + 1) + 1) = off div 512 + 1 + 1" by (rule nblks_one) simp_all
      then show ?thesis using nblks_mono [of "512 * (off div 512 + 1) + 1" "off + todo"] full [OF True] True by linarith
    qed
    then show ?thesis using True assms(1) e by (simp add: touched_def)
  next
    case False
    then have "c = todo" using b(2) by simp
    then show ?thesis using assms(1) n by (simp add: touched_def)
  qed
qed

lemma wrote_nil: "txn {} s \<Longrightarrow> layout_ok s \<Longrightarrow> file_ok i n s \<Longrightarrow> wrote i off [] n s n s"
  using file_grown_quiet [of s s i n] by (auto simp: wrote_def touched_def quiet_def ind_new_def)

lemma block_written:
  assumes t: "txn {} s" and lo: "layout_ok s" and f: "file_ok i n s" and off: "off \<le> n * 512" "off < MAXFILE * 512"
    and q: "q \<noteq> []" "off mod 512 + length q \<le> 512"
  defines "m \<equiv> max n (off div 512 + 1)"
  assumes free: "(m - n) + ind_cost i m s \<le> card (free_of s)" and room: "card (to_log i s) + 1 + (m - n) + 2 * ind_cost i m s \<le> 28"
  obtains r x u v w where "bmap i (off div 512) s = Inr (fb i r (off div 512), r)" "i_dev (inodes r ! i) = 1"
    "bread 1 (fb i r (off div 512)) r = Inr (x, u)"
    "log_write x (set_data x (put_bytes (off mod 512) q) u) = Inr v" "brelse x v = Inr w" "wrote i off q n s m w"
proof -
  let ?k = "off div 512"
  have k: "?k \<le> n" "?k < MAXFILE" using off by (simp_all add: less_mult_imp_div_less div_le_mono [of off "n * 512" 512, simplified])
  obtain r where r: "bmap i ?k s = Inr (fb i r ?k, r)" "file_grown (2 * (m - n)) i n s m r" "?k = n \<Longrightarrow> fb i r n \<in> set (l_blocks r)"
    "\<And>j. j < n \<Longrightarrow> view_block r (fb i s j) = view_block s (fb i s j)" "ind_new i s r \<le> ind_cost i m s" "?k < n \<Longrightarrow> inodes r = inodes s"
    using bmap_ok [OF t lo f k free [unfolded m_def] room [unfolded m_def]] unfolding m_def by metis
  note g = file_grownD [OF r(2)]
  have km: "?k < m" by (simp add: m_def)
  have mn: "m = n \<or> ?k = n \<and> m = n + 1" using k(1) by (auto simp: m_def)
  have space: "fb i r ?k \<in> set (l_blocks r) \<and> card (to_log i r) \<le> 28 \<or> card (to_log i r) + 1 \<le> 28"
    using mn g(12) r(3,5) room by auto
  obtain x u v w where w: "bread 1 (fb i r ?k) r = Inr (x, u)" "log_write x (set_data x (put_bytes (off mod 512) q) u) = Inr v" "brelse x v = Inr w"
    "file_grown (if fb i r ?k \<in> set (l_blocks r) then 0 else 1) i m r m w" "inodes w = inodes r"
    "\<And>j. j < m * 512 \<Longrightarrow> byte_of i w j = (if off \<le> j \<and> j < off + length q then q ! (j - off) else byte_of i r j)"
    using put_ok [OF g(1,2,5) km q(2) space] by metis
  have tch: "touched off (length q) = 1"
  proof -
    have "off = 512 * ?k + off mod 512" "0 < length q" using q(1) by simp_all
    then have "512 * ?k < off + length q" "off + length q \<le> 512 * ?k + 512" using q(2) by linarith+
    then have "nblks (off + length q) = ?k + 1" by (rule nblks_one)
    then show ?thesis using q(1) by (simp add: touched_def)
  qed
  have "file_grown (1 + (m - n)) i n s m w"
  proof (rule file_grown_more [OF file_grown_trans [OF r(2) w(4)]])
    show "2 * (m - n) + (if fb i r ?k \<in> set (l_blocks r) then 0 else 1) \<le> 1 + (m - n)" using mn r(3) by auto
  qed (auto simp: m_def)
  moreover have "ind_new i s w \<le> ind_cost i m s" using r(5) by (simp add: ind_new_def w(5))
  moreover have "byte_of i w j = q ! (j - off)" if "off \<le> j" "j < off + length q" for j
  proof -
    have "off = 512 * ?k + off mod 512" by simp
    then have "j < 512 * ?k + 512" using that q(2) by linarith
    then have "j < m * 512" using km by linarith
    then show ?thesis using w(6) that by simp
  qed
  moreover have "byte_of i w j = byte_of i s j" if "j < n * 512" "j < off \<or> off + length q \<le> j" for j
  proof -
    have "j div 512 < n" using that(1) by (simp add: less_mult_imp_div_less)
    then have "byte_of i r j = byte_of i s j" using g(6) r(4) by (simp add: fbyte_def)
    moreover have "j < m * 512" using that(1) by (simp add: m_def max_def)
    ultimately show ?thesis using w(6) that(2) by auto
  qed
  moreover have "m = n \<longrightarrow> inodes w = inodes s" using r(6) by (simp add: m_def w(5))
  ultimately have "wrote i off q n s m w" by (simp add: wrote_def tch)
  moreover have "i_dev (inodes r ! i) = 1" by (rule file_okD(2) [OF g(5)])
  ultimately show ?thesis using that [OF r(1) _ w(1,2,3)] by blast
qed


lemma ind_new_add: "file_grown c i n s m t \<Longrightarrow> file_grown d i m t p u \<Longrightarrow> ind_new i s t + ind_new i t u = ind_new i s u"
  using file_grownD(7) [of c i n s m t] file_grownD(7) [of d i m t p u] by (auto simp: ind_new_def)

lemma ind_new_le:
  assumes "ind_new i s t + ind_new i t u = ind_new i s u" "ind_new i s t \<le> ind_cost i m s" "ind_new i t u \<le> ind_cost i p t" "m \<le> p"
  shows "ind_new i s u \<le> ind_cost i p s"
  using assms by (auto simp: ind_new_def ind_cost_def split: if_splits)

lemma wrote_trans:
  assumes a: "wrote i off q n s m t" and b: "wrote i (off + length q) q' m t p u" and le: "n \<le> m" "m \<le> p"
    and fit: "off + length q \<le> m * 512"
    and tch: "touched off (length q + length q') = touched off (length q) + touched (off + length q) (length q')"
  shows "wrote i off (q @ q') n s p u"
proof -
  have g: "file_grown (touched off (length q) + (m - n)) i n s m t" "file_grown (touched (off + length q) (length q') + (p - m)) i m t p u"
    using a b by (simp_all add: wrote_def)
  have "file_grown (touched off (length (q @ q')) + (p - n)) i n s p u"
    by (rule file_grown_more [OF file_grown_trans [OF g le]]) (use le tch in simp)
  moreover have "ind_new i s u \<le> ind_cost i p s"
    by (rule ind_new_le [OF ind_new_add [OF g] _ _ le(2)]) (use a b in \<open>auto simp: wrote_def\<close>)
  moreover have "byte_of i u j = (q @ q') ! (j - off)" if j: "off \<le> j" "j < off + length (q @ q')" for j
  proof (cases "j < off + length q")
    case True
    then have "byte_of i u j = byte_of i t j" using b fit unfolding wrote_def by auto
    moreover have "j - off < length q" using True j(1) by linarith
    ultimately show ?thesis using a True j(1) by (simp add: wrote_def nth_append)
  next
    case False
    then have "byte_of i u j = q' ! (j - (off + length q))" using b j(2) by (simp add: wrote_def)
    moreover have "\<not> j - off < length q" using False j(1) by linarith
    ultimately show ?thesis using j(1) by (simp add: nth_append)
  qed
  moreover have "byte_of i u j = byte_of i s j" if j: "j < n * 512" "j < off \<or> off + length (q @ q') \<le> j" for j
  proof -
    have "n * 512 \<le> m * 512" using le(1) by simp
    then have "j < m * 512" using j(1) by linarith
    then have "byte_of i u j = byte_of i t j" using b j(2) unfolding wrote_def by auto
    then show ?thesis using a j by (auto simp: wrote_def)
  qed
  moreover have "p = n \<longrightarrow> inodes u = inodes s" using a b le by (simp add: wrote_def)
  ultimately show ?thesis by (simp add: wrote_def)
qed

lemma writei_loop_ok:
  assumes "txn {} s" "layout_ok s" "file_ok i n s" "off \<le> n * 512" "off + length q \<le> MAXFILE * 512"
    and "m = max n (nblks (off + length q))" "(m - n) + ind_cost i m s \<le> card (free_of s)"
    and "card (to_log i s) + touched off (length q) + (m - n) + 2 * ind_cost i m s \<le> 28"
  shows "\<exists>t. writei_loop i (Inr q) off (length q) s = Inr (off + length q, t) \<and> wrote i off q n s m t"
  using assms
proof (induction "length q" arbitrary: q off n s rule: less_induct)
  case (less q off n s)
  note p = less.prems
  show ?case
  proof (cases "q = []")
    case True
    have "off \<le> n * 512" by (rule p(4))
    then have "nblks off \<le> n" unfolding nblks_def by simp
    then have "m = n" using p(6) True by simp
    then show ?thesis using True wrote_nil [OF p(1,2,3)] by (simp add: writei_loop.simps)
  next
    case False
    define c where "c = chunk off (length q)"
    have len: "length q \<noteq> 0" using False by simp
    have c: "0 < c" "c \<le> length q" "off mod 512 + c \<le> 512" using chunk_bounds [OF len, of off] by (simp_all only: c_def)
    note ts = touched_step [OF len, of off, folded c_def]
    let ?k = "off div 512" and ?q = "take c q" and ?q' = "drop c q"
    define h where "h = max n (?k + 1)"
    have lq: "length ?q = c" "?q \<noteq> []" "length ?q' = length q - c" using c by auto
    have hm: "n \<le> h" "h \<le> m" using p(6) ts(3) by (auto simp: h_def)
    have ic: "ind_cost i h s \<le> ind_cost i m s" using hm(2) by (simp add: ind_cost_def)
    have off: "off < MAXFILE * 512" using p(5) len by linarith
    have q1: "off mod 512 + length ?q \<le> 512" using c(3) lq(1) by simp
    have free: "(max n (?k + 1) - n) + ind_cost i (max n (?k + 1)) s \<le> card (free_of s)"
      unfolding h_def [symmetric] using p(7) ic hm by linarith
    have room: "card (to_log i s) + 1 + (max n (?k + 1) - n) + 2 * ind_cost i (max n (?k + 1)) s \<le> 28"
      unfolding h_def [symmetric] using p(8) ic hm ts(1) by linarith
    obtain r x u v w where w: "bmap i ?k s = Inr (fb i r ?k, r)" "i_dev (inodes r ! i) = 1" "bread 1 (fb i r ?k) r = Inr (x, u)"
      "log_write x (set_data x (put_bytes (off mod 512) ?q) u) = Inr v" "brelse x v = Inr w" "wrote i off ?q n s h w"
      using block_written [OF p(1,2,3,4) off lq(2) q1 free room] unfolding h_def by metis
    have g: "file_grown (1 + (h - n)) i n s h w" "ind_new i s w \<le> ind_cost i h s"
      using w(6) ts(1) lq(1) c(1) ts(2) by (simp_all add: wrote_def touched_def)
    note gd = file_grownD [OF g(1)]
    have step: "writei_loop i (Inr q) off (length q) s = writei_loop i (Inr ?q') (off + c) (length ?q') w"
      using False w(4,5) unfolding writei_loop.simps [of i "Inr q" off "length q" s]
      by (simp add: w(1,2) w(3) [simplified] fetch_from_def advance_def Let_def c_def [symmetric] lq(3))
    have "?k + 1 \<le> h" by (simp add: h_def)
    then have "(?k + 1) * 512 \<le> h * 512" by (rule mult_right_mono) simp
    then have oc: "off + c \<le> h * 512" using nblks_fits [of "off + c"] unfolding ts(2) by linarith
    have oq: "off + c + length ?q' = off + length q" using c(2) lq(3) by simp
    have ih: "\<exists>t. writei_loop i (Inr ?q') (off + c) (length ?q') w = Inr (off + c + length ?q', t) \<and> wrote i (off + c) ?q' h w m t"
    proof (rule less.hyps)
      show "length ?q' < length q" using c(1) len by simp
      show "m = max h (nblks (off + c + length ?q'))" using p(6) ts(3) unfolding oq h_def by simp
      have cost: "ind_new i s w + ind_cost i m w \<le> ind_cost i m s"
      proof (cases "ind_of (addrs_of i s) = 0")
        case True
        then show ?thesis using g(2) ic by (auto simp: ind_new_def ind_cost_def split: if_splits)
      next
        case False
        then show ?thesis using gd(7) by (simp add: ind_new_def ind_cost_def)
      qed
      show "(m - h) + ind_cost i m w \<le> card (free_of w)" using gd(11) p(7) cost hm by linarith
      show "card (to_log i w) + touched (off + c) (length ?q') + (m - h) + 2 * ind_cost i m w \<le> 28"
        using gd(12) p(8) cost hm ts(1) unfolding lq(3) by linarith
      show "off + c + length ?q' \<le> MAXFILE * 512" unfolding oq by (rule p(5))
    qed (use gd(1,2,5) oc in simp_all)
    then obtain t where t: "writei_loop i (Inr ?q') (off + c) (length ?q') w = Inr (off + c + length ?q', t)" "wrote i (off + c) ?q' h w m t"
      by blast
    have "wrote i off (?q @ ?q') n s m t"
    proof (rule wrote_trans [OF w(6) _ hm])
      show "wrote i (off + length ?q) ?q' h w m t" unfolding lq(1) by (rule t(2))
      show "off + length ?q \<le> h * 512" unfolding lq(1) by (rule oc)
      show "touched off (length ?q + length ?q') = touched off (length ?q) + touched (off + length ?q) (length ?q')"
      proof -
        have "length ?q + length ?q' = length q" using c(2) lq(1,3) by simp
        moreover have "touched off c = 1" using ts(2) c(1) by (simp add: touched_def)
        ultimately show ?thesis using ts(1) lq(1,3) by simp
      qed
    qed
    then show ?thesis using step t(1) oq by simp
  qed
qed


section \<open>The inode on the disk\<close>

lemma iupdate_ok:
  assumes t: "txn {} s" and lo: "layout_ok s" and f: "file_ok i n s" and room: "card (to_log i s) \<le> 28"
  defines "ib \<equiv> IBLOCK (i_inum (inodes s ! i)) (fs_sb s)"
  obtains t where "iupdate i s = Inr t" "txn {} t" "layout_ok t" "same_log s t" "inodes t = inodes s" "fs_sb t = fs_sb s"
    "view_block t = (view_block s)(ib := store_dinode (inodes s ! i) (dinode_at (i_inum (inodes s ! i))) (view_block s ib))"
    "free_of t = free_of s" "taken t = taken s"
proof -
  let ?f = "store_dinode (inodes s ! i) (dinode_at (i_inum (inodes s ! i)))"
  note fd = file_okD [OF f]
  have ib: "ib \<in> i_blocks (fs_sb s)" using fd(4) by (simp add: ib_def)
  note us = usableD [OF layout_okD(2) [OF lo ib]]
  have "card (insert ib (set (l_blocks s))) \<le> card (to_log i s)"
    by (rule card_mono) (auto simp: to_log_def ib_def)
  then have "card (insert ib (set (l_blocks s))) \<le> 28" using room by linarith
  then obtain x u v w where w: "bread 1 ib s = Inr (x, u)" "same_log s u" "log_write x (set_data x ?f u) = Inr v" "brelse x v = Inr w" "txn {} w"
    "view_block w = (view_block s)(ib := ?f (view_block s ib))" "same_log s w"
    using txn_update [OF t us, where f = ?f] by (metis empty_iff)
  note sf = same_log_fs [OF w(7)]
  have free: "free_of w = free_of s"
  proof -
    have "BBLOCK b (fs_sb s) \<noteq> ib" if "b < unat (sb_size (fs_sb s))" for b using layout_okD(3) [OF lo BBLOCK_bm [OF that]] ib by metis
    then show ?thesis by (auto simp: free_blocks_def sf w(6))
  qed
  have us': "usable w = usable s" by (rule usable_same [OF w(7)])
  have "iupdate i s = Inr w"
    unfolding iupdate_def Let_def fd(2) ib_def [symmetric] w(1) using w(3,4) by simp
  moreover have "layout_ok w" "taken w = taken s" using lo free by (simp_all add: layout_ok_def taken_def us' sf)
  ultimately show ?thesis using that [of w] w(5,6,7) sf free by blast
qed

text \<open>The files of some inodes of the cache, each with its own blocks.\<close>

definition files_ok :: "nat set \<Rightarrow> 'a fsst_scheme \<Rightarrow> bool" where
  "files_ok I s \<longleftrightarrow> (\<forall>i \<in> I. is_file i s) \<and>
     (\<forall>i \<in> I. \<forall>j \<in> I. i \<noteq> j \<longrightarrow> own_blocks i (nblks (size_of i s)) s \<inter> own_blocks j (nblks (size_of j s)) s = {})"

text \<open>A file where the only blocks that changed are the bitmap, inodes, free ones and those of another file.\<close>

lemma other_file:
  assumes lo: "layout_ok s" and j: "is_file j s" and ino: "inodes t ! j = inodes s ! j" "length (inodes t) = length (inodes s)"
    and same: "fs_sb t = fs_sb s" "usable t = usable s" "free_of t \<subseteq> free_of s"
    and view: "\<And>b. b \<in> own_blocks j (nblks (size_of j s)) s \<Longrightarrow> view_block t b = view_block s b" "view_block t 0 = view_block s 0"
  shows "is_file j t" "content j t = content j s" "own_blocks j (nblks (size_of j t)) t = own_blocks j (nblks (size_of j s)) s"
proof -
  note d = is_fileD [OF j] and fd = file_okD [OF is_fileD(1) [OF j]]
  note m = map_frame [where im' = "view_block t", OF view]
  have "taken s \<subseteq> taken t" using same by (auto simp: taken_def)
  moreover have "0 \<notin> taken t" using takenD(1) [of 0 t] by blast
  ultimately have "mapped (view_block t) (taken t) (addrs_of j s) (nblks (size_of j s))"
    using mapped_mono [of "view_block t" "taken s"] m(2) fd(3) by blast
  then show "is_file j t" using j ino same by (simp add: is_file_def file_ok_def)
  show "content j t = content j s" using m(5) d(4) by (simp add: content_def ino)
  show "own_blocks j (nblks (size_of j t)) t = own_blocks j (nblks (size_of j s)) s" using m(3) by (simp add: ino)
qed


section \<open>Writing a file\<close>

definition overwrite :: "nat \<Rightarrow> 8 word list \<Rightarrow> 8 word list \<Rightarrow> 8 word list" where
  "overwrite off q c = take off c @ q @ drop (off + length q) c"

lemma length_overwrite: "off \<le> length c \<Longrightarrow> length (overwrite off q c) = max (length c) (off + length q)"
  by (simp add: overwrite_def max_def)

lemma nth_overwrite: "off \<le> length c \<Longrightarrow> j < max (length c) (off + length q) \<Longrightarrow>
    overwrite off q c ! j = (if off \<le> j \<and> j < off + length q then q ! (j - off) else c ! j)"
  by (auto simp: overwrite_def nth_append)

text \<open>The free blocks and the room in the log that it takes to write \<open>len\<close> bytes at \<open>off\<close>.\<close>

definition affordable :: "nat \<Rightarrow> nat \<Rightarrow> nat \<Rightarrow> 'a fsst_scheme \<Rightarrow> bool" where
  "affordable i off len s \<longleftrightarrow>
     (let n = nblks (size_of i s); m = max n (nblks (off + len))
      in (m - n) + ind_cost i m s \<le> card (free_of s) \<and>
         card (to_log i s) + touched off len + (m - n) + 2 * ind_cost i m s \<le> 28)"

lemma same_but_size: "i < length (inodes s) \<Longrightarrow> same_but i s (upd_ino i (\<lambda>ip. ip\<lparr>i_size := z\<rparr>) s)"
  by (auto simp: same_but_def upd_ino_def nth_list_update)

text \<open>The end of \<open>writei\<close>: the size and the inode on disk.\<close>

definition set_size :: "nat \<Rightarrow> nat \<Rightarrow> 'a fsst_scheme \<Rightarrow> 'a fsst_scheme res" where
  "set_size i off s =
     (if off > size_of i s then iupdate i (upd_ino i (\<lambda>ip. ip\<lparr>i_size := of_nat off\<rparr>) s) else Inr s)"

text \<open>The blocks with the inode of slot \<open>i\<close> copied to its place.\<close>

definition put_inode :: "nat \<Rightarrow> 'a fsst_scheme \<Rightarrow> (nat \<Rightarrow> block) \<Rightarrow> nat \<Rightarrow> block" where
  "put_inode i s im = (let ip = inodes s ! i; b = IBLOCK (i_inum ip) (fs_sb s)
     in im(b := store_dinode ip (dinode_at (i_inum ip)) (im b)))"

lemma set_size_ok:
  assumes t: "txn {} s" and lo: "layout_ok s" and f: "file_ok i n s" and off: "off \<le> n * 512" and room: "card (to_log i s) \<le> 28"
  obtains t where "set_size i off s = Inr t" "txn {} t" "layout_ok t" "same_but i s t" "file_ok i n t" "size_of i t = max (size_of i s) off"
    "free_of t = free_of s" "own_blocks i n t = own_blocks i n s" "\<And>j. j < n * 512 \<Longrightarrow> byte_of i t j = byte_of i s j"
    "\<And>b. b \<notin> i_blocks (fs_sb s) \<Longrightarrow> view_block t b = view_block s b"
    "view_block t = (if off > size_of i s then put_inode i t (view_block s) else view_block s)" "off \<le> size_of i s \<Longrightarrow> t = s"
proof (cases "off > size_of i s")
  case True
  note fd = file_okD [OF f]
  define u where "u = upd_ino i (\<lambda>ip. ip\<lparr>i_size := of_nat off\<rparr>) s"
  have as: "addrs_of i u = addrs_of i s" using fd(1) by (simp add: u_def)
  have fu: "file_ok i n u" using f by (simp add: file_ok_def u_def)
  have ru: "card (to_log i u) \<le> 28" using room fd(1) by (simp add: to_log_def u_def)
  have tu: "txn {} u" "layout_ok u" using t lo by (simp_all add: u_def)
  obtain t' where w: "iupdate i u = Inr t'" "txn {} t'" "layout_ok t'" "same_log u t'" "inodes t' = inodes u" "fs_sb t' = fs_sb u"
    "view_block t' = (view_block u)(IBLOCK (i_inum (inodes u ! i)) (fs_sb u) :=
       store_dinode (inodes u ! i) (dinode_at (i_inum (inodes u ! i))) (view_block u (IBLOCK (i_inum (inodes u ! i)) (fs_sb u))))"
    "free_of t' = free_of u" "taken t' = taken u"
    using iupdate_ok [OF tu fu ru] by blast
  have ib: "IBLOCK (i_inum (inodes u ! i)) (fs_sb u) \<in> i_blocks (fs_sb s)" using file_okD(4) [OF fu] by (simp add: u_def)
  then have v: "view_block t' b = view_block s b" if "b \<notin> i_blocks (fs_sb s)" for b using that unfolding w(7) by (auto simp: u_def)
  have own: "own_blocks i n s \<inter> i_blocks (fs_sb s) = {}" using blocks_sub [OF fd(3)] takenD(7) by blast
  have "view_block t' 0 = view_block s 0" by (rule v) (use usableD(1) [OF layout_okD(2) [OF lo, of 0]] in blast)
  note m = map_frame [where im' = "view_block t'" and im = "view_block s" and n = n and as = "addrs_of i s", OF v this]
  have m': "mapped (view_block t') (taken s) (addrs_of i s) n" "own_blocks i n t' = own_blocks i n s"
    "\<And>j. j < n * 512 \<Longrightarrow> byte_of i t' j = byte_of i s j"
    using m(2,3,4) own fd(3) by (auto simp: w(5) as)
  have "taken t' = taken s" "free_of t' = free_of s" using w(8,9) by (simp_all add: u_def)
  moreover from this have "file_ok i n t'" using fu m'(1) by (simp add: file_ok_def w(5,6) as)
  moreover have "same_but i s t'" unfolding u_def by (rule same_but_trans [OF same_but_size [OF fd(1)] same_log_but [OF w(4) [unfolded u_def]]])
  moreover have "size_of i t' = max (size_of i s) off"
  proof -
    have "n * 512 \<le> 71680" using mappedD(2) [OF fd(3)] by simp
    then have "off < 2 ^ 32" using off by simp
    then show ?thesis using True fd(1) by (simp add: w(5) u_def unat_addr)
  qed
  moreover have "set_size i off s = Inr t'" using True w(1) by (simp add: set_size_def u_def)
  moreover have "view_block t' = (if off > size_of i s then put_inode i t' (view_block s) else view_block s)"
    using True unfolding w(7) put_inode_def w(5,6) by (simp add: u_def Let_def)
  moreover have "off \<le> size_of i s \<Longrightarrow> t' = s" using True by simp
  ultimately show ?thesis using that [of t'] w(2,3) m' v by blast
next
  case False
  then have "set_size i off s = Inr s" by (simp add: set_size_def)
  then show ?thesis using that [of s] False t lo f by simp
qed


text \<open>What a write of one file leaves of the rest: no block of another file, of the log or of the super block changes.\<close>

definition apart :: "nat \<Rightarrow> 'a fsst_scheme \<Rightarrow> 'a fsst_scheme \<Rightarrow> bool" where
  "apart i s t \<longleftrightarrow> same_but i s t \<and> free_of t \<subseteq> free_of s \<and>
     own_blocks i (nblks (size_of i t)) t \<subseteq> own_blocks i (nblks (size_of i s)) s \<union> free_of s \<and>
     (\<forall>b. b \<notin> bm_blocks (fs_sb s) \<longrightarrow> b \<notin> i_blocks (fs_sb s) \<longrightarrow> b \<notin> free_of s \<longrightarrow>
        b \<notin> own_blocks i (nblks (size_of i s)) s \<longrightarrow> view_block t b = view_block s b)"

text \<open>The inode on the disk is that in the cache, if it was.\<close>

definition filed :: "nat \<Rightarrow> 'a fsst_scheme \<Rightarrow> 'a fsst_scheme \<Rightarrow> bool" where
  "filed i s t \<longleftrightarrow> inodes t = inodes s \<and> (\<forall>b \<in> i_blocks (fs_sb s). view_block t b = view_block s b) \<or>
     (\<forall>b \<in> i_blocks (fs_sb s). view_block t b = put_inode i t (view_block s) b)"

lemma grown_filed:
  assumes lo: "layout_ok s" and f: "file_ok i n s" and g: "file_grown c i n s m t" and b: "b \<in> i_blocks (fs_sb s)"
  shows "view_block t b = view_block s b"
proof (rule file_grownD(10) [OF g])
  show "b \<notin> bm_blocks (fs_sb s)" "b \<notin> free_of s" using layout_okD(3,6) [OF lo] b by blast+
  show "b \<notin> own_blocks i n s" using blocks_sub [OF file_okD(3) [OF f]] takenD(7) b by blast
qed

lemma apart_refl: "quiet s t \<Longrightarrow> apart i s t"
  by (auto simp: apart_def quietD [of s t])

lemma nblks_max: "nblks (max a b) = max (nblks a) (nblks b)"
  using nblks_mono [of a b] nblks_mono [of b a] by (auto simp: max_def)

lemma nblks_le: "m \<le> k * 512 \<Longrightarrow> nblks m \<le> k"
  unfolding nblks_def by simp

lemma write_ok:
  assumes inv: "fs_inv s" and f: "is_file i s" and off: "off \<le> size_of i s" "off + length q \<le> MAXFILE * 512"
    and cost: "affordable i off (length q) s"
  obtains t u where "writei_loop i (Inr q) off (length q) s = Inr (off + length q, t)" "i_size (inodes t ! i) = i_size (inodes s ! i)"
    "set_size i (off + length q) t = Inr u" "fs_inv u" "is_file i u" "content i u = overwrite off q (content i s)" "apart i s u" "filed i s u"
proof -
  let ?n = "nblks (size_of i s)"
  define m where "m = max ?n (nblks (off + length q))"
  note d = is_fileD [OF f]
  have inv': "txn {} s" "layout_ok s" using inv by (simp_all add: fs_inv_def)
  have o: "off \<le> ?n * 512" using off(1) d(4) by linarith
  have c: "(m - ?n) + ind_cost i m s \<le> card (free_of s)" "card (to_log i s) + touched off (length q) + (m - ?n) + 2 * ind_cost i m s \<le> 28"
    using cost by (simp_all add: affordable_def Let_def m_def)
  obtain t where t: "writei_loop i (Inr q) off (length q) s = Inr (off + length q, t)" "wrote i off q ?n s m t"
    using writei_loop_ok [OF inv' d(1) o off(2) m_def c] by blast
  have g: "file_grown (touched off (length q) + (m - ?n)) i ?n s m t" "ind_new i s t \<le> ind_cost i m s" using t(2) by (simp_all add: wrote_def)
  note gd = file_grownD [OF g(1)]
  have fit: "off + length q \<le> m * 512"
  proof -
    have "nblks (off + length q) * 512 \<le> m * 512" by (rule mult_right_mono) (simp_all add: m_def)
    then show ?thesis using nblks_fits [of "off + length q"] by linarith
  qed
  have room: "card (to_log i t) \<le> 28" using gd(12) g(2) c(2) by linarith
  obtain u where u: "set_size i (off + length q) t = Inr u" "txn {} u" "layout_ok u" "same_but i t u" "file_ok i m u"
    "size_of i u = max (size_of i t) (off + length q)" "free_of u = free_of t" "own_blocks i m u = own_blocks i m t"
    "\<And>j. j < m * 512 \<Longrightarrow> byte_of i u j = byte_of i t j" "\<And>b. b \<notin> i_blocks (fs_sb t) \<Longrightarrow> view_block u b = view_block t b"
    "view_block u = (if off + length q > size_of i t then put_inode i u (view_block t) else view_block t)" "off + length q \<le> size_of i t \<Longrightarrow> u = t"
    by (rule set_size_ok [OF gd(1,2,5) fit room], rule that) (assumption | simp)+
  have sz: "size_of i u = max (size_of i s) (off + length q)" using u(6) gd(4) by simp
  then have num: "nblks (size_of i u) = m" by (simp add: m_def nblks_max)
  have k: "same_but i s u" by (rule same_but_trans [OF gd(3) u(4)])
  have "is_file i u" using u(5) d(2) same_butD(8) [OF k] by (simp add: is_file_def num)
  moreover have "content i u = overwrite off q (content i s)"
  proof (rule nth_equalityI)
    show "length (content i u) = length (overwrite off q (content i s))" using sz off(1) by (simp add: length_overwrite)
    fix j assume "j < length (content i u)"
    then have j: "j < max (size_of i s) (off + length q)" using sz by simp
    have "max (size_of i s) (off + length q) \<le> m * 512"
    proof -
      have "size_of i s \<le> m * 512" using d(4) by (simp add: m_def max_def)
      then show ?thesis using fit by simp
    qed
    then have "j < m * 512" using j by linarith
    then have b: "content i u ! j = byte_of i t j" using j u(9) sz by (simp add: nth_content)
    show "content i u ! j = overwrite off q (content i s) ! j"
    proof (cases "off \<le> j \<and> j < off + length q")
      case True
      then show ?thesis using t(2) b j off(1) by (simp add: nth_overwrite wrote_def)
    next
      case False
      then have js: "j < size_of i s" using j off(1) by auto
      then have "j < ?n * 512" using d(4) by linarith
      then have "byte_of i t j = byte_of i s j" using t(2) False unfolding wrote_def by auto
      moreover have "overwrite off q (content i s) ! j = content i s ! j"
        using False j off(1) by (subst nth_overwrite) (simp_all only: length_content if_False)
      ultimately show ?thesis using b js by (simp add: nth_content)
    qed
  qed
  moreover have "apart i s u"
    unfolding apart_def num u(7,8)
  proof (intro conjI allI impI)
    show "view_block u b = view_block s b"
      if "b \<notin> bm_blocks (fs_sb s)" "b \<notin> i_blocks (fs_sb s)" "b \<notin> free_of s" "b \<notin> own_blocks i ?n s" for b
      using u(10) [of b] gd(10) [of b] that same_butD(1) [OF gd(3)] by simp
  qed (use k gd in auto)
  moreover have "filed i s u"
  proof (cases "off + length q \<le> size_of i s")
    case True
    then have "nblks (off + length q) \<le> ?n" by (rule nblks_mono)
    then have "inodes t = inodes s" using t(2) by (simp add: wrote_def m_def)
    moreover have "u = t" using u(12) True gd(4) by simp
    ultimately show ?thesis using grown_filed [OF inv'(2) d(1) g(1)] by (simp add: filed_def)
  next
    case False
    then have "view_block u = put_inode i u (view_block t)" using u(11) gd(4) by simp
    then have "view_block u b = put_inode i u (view_block s) b" if "b \<in> i_blocks (fs_sb s)" for b
      using grown_filed [OF inv'(2) d(1) g(1) that] by (auto simp: put_inode_def Let_def)
    then show ?thesis by (simp add: filed_def)
  qed
  ultimately show ?thesis using that [OF t(1) gd(4) u(1)] u(2,3) by (simp add: fs_inv_def)
qed

lemma apart_files:
  assumes inv: "fs_inv s" and I: "files_ok I s" "i \<in> I" and a: "apart i s t" and f: "is_file i t"
  shows "files_ok I t" "j \<in> I \<Longrightarrow> j \<noteq> i \<Longrightarrow> content j t = content j s"
proof -
  have lo: "layout_ok s" using inv by (simp add: fs_inv_def)
  let ?own = "\<lambda>j s. own_blocks j (nblks (size_of j s)) s"
  have k: "same_but i s t" using a by (simp add: apart_def)
  have other: "is_file j t" "content j t = content j s" "?own j t = ?own j s" if j: "j \<in> I" "j \<noteq> i" for j
  proof -
    have fj: "is_file j s" using I j by (simp add: files_ok_def)
    have "?own j s \<subseteq> taken s" by (rule blocks_sub [OF file_okD(3) [OF is_fileD(1) [OF fj]]])
    then have out: "b \<notin> bm_blocks (fs_sb s) \<and> b \<notin> i_blocks (fs_sb s) \<and> b \<notin> free_of s \<and> b \<notin> ?own i s" if "b \<in> ?own j s" for b
      using that takenD(5,6,7) I j unfolding files_ok_def by blast
    have same: "view_block t b = view_block s b" if "b \<in> ?own j s" for b using a out [OF that] unfolding apart_def by blast
    have "0 \<notin> usable s" by (simp add: usable_def)
    moreover have "?own i s \<subseteq> usable s"
      using blocks_sub [OF file_okD(3) [OF is_fileD(1)]] I(1) I(2) unfolding files_ok_def by (force simp: taken_def)
    ultimately have z: "view_block t 0 = view_block s 0"
      using a layout_okD(1,2,4) [OF lo, of 0] unfolding apart_def by blast
    have fr: "free_of t \<subseteq> free_of s" using a by (simp add: apart_def)
    show "is_file j t" "content j t = content j s" "?own j t = ?own j s"
      by (rule other_file [OF lo fj same_butD(5) [OF k j(2)] same_butD(4) [OF k] same_butD(1,2) [OF k] fr same z]; assumption)+
  qed
  show "j \<in> I \<Longrightarrow> j \<noteq> i \<Longrightarrow> content j t = content j s" by (rule other(2))
  have own: "?own i t \<inter> ?own j t = {}" if "j \<in> I" "j \<noteq> i" for j
  proof -
    have "is_file j s" using I that by (simp add: files_ok_def)
    then have "?own j s \<inter> free_of s = {}" using blocks_sub [OF file_okD(3) [OF is_fileD(1)]] takenD(5) by blast
    moreover have "?own i s \<inter> ?own j s = {}" using I that unfolding files_ok_def by blast
    moreover have "?own i t \<subseteq> ?own i s \<union> free_of s" using a by (simp add: apart_def)
    ultimately show ?thesis unfolding other(3) [OF that] by blast
  qed
  show "files_ok I t"
    unfolding files_ok_def
  proof (intro conjI ballI impI)
    show "is_file j t" if "j \<in> I" for j using other(1) [OF that] f by (cases "j = i") auto
    show "?own j t \<inter> ?own l t = {}" if "j \<in> I" "l \<in> I" "j \<noteq> l" for j l
    proof (cases "j = i \<or> l = i")
      case True
      then show ?thesis using own that by blast
    next
      case False
      then show ?thesis using other(3) that I unfolding files_ok_def by auto
    qed
  qed
qed


section \<open>Reading and writing the files\<close>

text \<open>
  C19. Reading a file inside a transaction returns the bytes of its content from \<open>off\<close>, as many as are
  asked for and there, and changes no file. An offset past the end, or one that wraps around with the count, is the error -1.
\<close>

theorem readi_reads:
  assumes "fs_inv s" "files_ok I s" "i \<in> I"
  shows "\<exists>t. readi i None off n s =
      (if off > i_size (inodes s ! i) \<or> off + n < off then Inr (-1, [], t)
       else let bs = take (unat n) (drop (unat off) (content i s)) in Inr (int (length bs), bs, t)) \<and>
    fs_inv t \<and> files_ok I t \<and> (\<forall>j. content j t = content j s)"
proof -
  have t: "txn {} s" "layout_ok s" "is_file i s" using assms by (simp_all add: fs_inv_def files_ok_def)
  obtain t where r: "readi i None off n s = (if off > i_size (inodes s ! i) \<or> off + n < off then Inr (-1, [], t)
      else let bs = take (unat n) (drop (unat off) (content i s)) in Inr (int (length bs), bs, t))" "quiet s t"
    using readi_file [OF t(1,3)] by blast
  note q = quietD [OF r(2)]
  have "files_ok I t" using assms(2) quiet_bytes(3) [OF r(2)] by (simp add: files_ok_def q(3,5))
  then show ?thesis using r(1) q(1,9) t(2) quiet_bytes(2) [OF r(2)] by (auto simp: fs_inv_def)
qed

text \<open>What \<open>writei\<close> does, on the files of the cache.\<close>

lemma writei_file:
  assumes inv: "fs_inv s" and I: "files_ok I s" "i \<in> I" and off: "unat off \<le> size_of i s" "unat off + length q \<le> MAXFILE * BSIZE"
    and n: "unat n = length q" and cost: "affordable i (unat off) (length q) s"
  obtains t where "writei i (Inr q) off n s = Inr (int (length q), t)" "fs_inv t" "files_ok I t"
    "\<And>j. j \<in> I \<Longrightarrow> content j t = (if j = i then overwrite (unat off) q (content i s) else content j s)" "same_but i s t"
    "apart i s t" "filed i s t"
proof -
  have f: "is_file i s" using I by (simp add: files_ok_def)
  have off': "unat off + length q \<le> 140 * 512" using off(2) by simp
  obtain t u where u: "writei_loop i (Inr q) (unat off) (length q) s = Inr (unat off + length q, t)" "i_size (inodes t ! i) = i_size (inodes s ! i)"
    "set_size i (unat off + length q) t = Inr u" "fs_inv u" "is_file i u" "content i u = overwrite (unat off) q (content i s)" "apart i s u"
    "filed i s u"
    using write_ok [OF inv f off(1) off(2) cost] by blast
  have sum: "unat (off + n) = unat off + unat n" using off' n by (intro unat_add_lem [THEN iffD1]) simp
  then have "\<not> (off > i_size (inodes s ! i) \<or> off + n < off)" "\<not> unat (off + n) > MAXFILE * BSIZE"
    using off(1) off' n by (auto simp: word_less_nat_alt)
  moreover have "sint n = int (length q)" using sint_small [of n] n off' by simp
  moreover have "n > 0 \<longleftrightarrow> q \<noteq> []" using n by (metis length_0_conv unat_eq_0 word_gt_0)
  moreover have "q = [] \<Longrightarrow> u = t" using u(2,3) off(1) by (simp add: set_size_def)
  ultimately have "writei i (Inr q) off n s = Inr (int (length q), u)"
    using u(1,3) is_fileD(2) [OF f] unfolding writei_def Let_def n by (auto simp: set_size_def split: if_splits)
  moreover have "same_but i s u" using u(7) by (simp add: apart_def)
  ultimately show ?thesis using that [of u] u(4,6-8) apart_files [OF inv I u(7,5)] by simp
qed

text \<open>
  C7. Writing a file inside a transaction puts the bytes into its content at \<open>off\<close>, which may be its end or
  reach past it: the file then grows, by blocks from the allocator. Every other file keeps its content, and the files still
  have their own blocks. It needs the free blocks, and the room in the log, that \<open>affordable\<close> counts.
\<close>

theorem writei_writes:
  assumes "fs_inv s" "files_ok I s" "i \<in> I" "unat off \<le> size_of i s" "unat off + length q \<le> MAXFILE * BSIZE"
    and "unat n = length q" "affordable i (unat off) (length q) s"
  shows "\<exists>t. writei i (Inr q) off n s = Inr (int (length q), t) \<and> fs_inv t \<and> files_ok I t \<and>
    (\<forall>j \<in> I. content j t = (if j = i then overwrite (unat off) q (content i s) else content j s))"
proof -
  obtain t where "writei i (Inr q) off n s = Inr (int (length q), t)" "fs_inv t" "files_ok I t"
    "\<And>j. j \<in> I \<Longrightarrow> content j t = (if j = i then overwrite (unat off) q (content i s) else content j s)" "same_but i s t"
    using writei_file [OF assms] by metis
  then show ?thesis by blast
qed

section \<open>A file system with two files\<close>

text \<open>The root directory with its two entries, and a file of 512 bytes; the blocks from 61 on are free.\<close>

definition file_inode :: "16 word \<Rightarrow> nat \<Rightarrow> 32 word \<Rightarrow> 32 word \<Rightarrow> inode" where
  "file_inode ty inum z a = \<lparr>i_dev = 1, i_inum = inum, i_ref = 1, i_lock = initsleeplock, i_valid = True, i_type = ty, i_major = 0, i_minor = 0,
     i_nlink = 1, i_size = z, i_addrs = a # replicate 12 0\<rparr>"

definition root_dots :: "8 word list" where
  "root_dots = mk_dirent [0x2E] 1 @ mk_dirent [0x2E, 0x2E] 1"

definition two_files_disk :: "nat \<Rightarrow> block" where
  "two_files_disk = (\<lambda>_ _. 0)(58 := fold mark_used [0..<61] (\<lambda>_. 0), 59 := put_bytes 0 root_dots (\<lambda>_. 0))"

text \<open>A kernel that has just begun a transaction on the disk \<open>d\<close>, with the inodes \<open>ips\<close>.\<close>

definition fresh_fs :: "(nat \<Rightarrow> block) \<Rightarrow> inode list \<Rightarrow> console" where
  "fresh_fs d ips = fsst.extend
     (logst.extend (fs_state [] d [])
       (fsst.fields \<lparr>sb_size = 1000, sb_nblocks = 941, sb_ninodes = 200, sb_nlog = 30, sb_logstart = 2, sb_inodestart = 32, sb_bmapstart = 58\<rparr> ips))
     (console.fields (\<lambda>_. 0) 0 [] (\<lambda>_. 0) 0 0 0)"

lemma fresh_fs_simps [simp]:
  "bufs (fresh_fs d ips) = replicate NBUF free_buf" "mru (fresh_fs d ips) = [0..<NBUF]" "disk (fresh_fs d ips) = d"
  "disksize (fresh_fs d ips) = 1000" "l_start (fresh_fs d ips) = 2" "l_size (fresh_fs d ips) = 30" "l_outstanding (fresh_fs d ips) = 1"
  "l_dev (fresh_fs d ips) = 1" "l_blocks (fresh_fs d ips) = []" "cur (fresh_fs d ips) = Some 0" "mypid (fresh_fs d ips) = Inr 1"
  "procs (fresh_fs d ips) = [idle_proc\<lparr>p_state := RUNNING\<rparr>]"
  "fs_sb (fresh_fs d ips) = \<lparr>sb_size = 1000, sb_nblocks = 941, sb_ninodes = 200, sb_nlog = 30, sb_logstart = 2, sb_inodestart = 32, sb_bmapstart = 58\<rparr>"
  "inodes (fresh_fs d ips) = ips" "log_area (fresh_fs d ips) = {2..<32}"
  by (simp_all add: fresh_fs_def fsst.defs logst.defs console.defs fs_state_def mypid_def idle_proc_def log_area_def)

lemma fresh_fs_view [simp]: "view_block (fresh_fs d ips) = d"
proof
  fix b
  have "first_idx (\<lambda>u. b_dev u = 1 \<and> b_blockno u = b \<and> b_valid u) (replicate NBUF free_buf) = None"
    by (auto simp: first_idx_None)
  then show "view_block (fresh_fs d ips) b = d b" by (simp add: view_block_def)
qed

lemma fresh_fs_txn: "sint (rd32 (d 2) 0) = 0 \<Longrightarrow> txn {} (fresh_fs d ips)"
proof -
  assume z: "sint (rd32 (d 2) 0) = 0"
  have h: "\<not> holds b i (fresh_fs d ips)" for b i by (cases "i < NBUF") (simp_all add: holds_def)
  have "bio_inv (fresh_fs d ips) {}" unfolding bio_inv_def by (auto simp: h)
  moreover have "dirty_blocks (fresh_fs d ips) = {}" by (simp add: dirty_blocks_def h)
  then have "log_ok (fresh_fs d ips)" using z by (simp add: log_ok_def)
  ultimately show ?thesis by (simp add: txn_def)
qed

abbreviation two_files :: console where
  "two_files \<equiv> fresh_fs two_files_disk [file_inode T_DIR 1 32 59, file_inode T_FILE 2 512 60]"

lemma two_files_disk_simps [simp]:
  "two_files_disk 58 = fold mark_used [0..<61] (\<lambda>_. 0)" "two_files_disk 59 = put_bytes 0 root_dots (\<lambda>_. 0)"
  "b \<noteq> 58 \<Longrightarrow> b \<noteq> 59 \<Longrightarrow> two_files_disk b = (\<lambda>_. 0)"
  by (simp_all add: two_files_disk_def)

lemma bit_used_fold: "bit_used (fold mark_used bs d) b \<longleftrightarrow> b \<in> set bs \<or> bit_used d b"
  by (induction bs arbitrary: d) (auto simp: bit_mark_used)

lemma two_files_blocks:
  "bm_blocks (fs_sb two_files) = {58}" "i_blocks (fs_sb two_files) \<subseteq> {32..56}" "free_of two_files = {61..<1000}"
  "log_area two_files = {2..<32}"
proof -
  show "bm_blocks (fs_sb two_files) = {58}" by (auto simp: bm_blocks_def image_def intro!: exI [of _ 0])
  show "i_blocks (fs_sb two_files) \<subseteq> {32..56}" by (auto simp: i_blocks_def)
  show "free_of two_files = {61..<1000}"
    by (auto simp: free_blocks_def bit_used_fold simp del: upt_Suc) (simp_all add: bit_used_def)
  show "log_area two_files = {2..<32}" by (simp add: log_area_def)
qed

lemma two_files_inv: "fs_inv two_files"
proof -
  have "layout_ok two_files"
    using two_files_blocks(2) unfolding layout_ok_def two_files_blocks(1,3) by (auto simp: usable_def)
  then show ?thesis using fresh_fs_txn [of two_files_disk] by (simp add: fs_inv_def rd32_def)
qed

lemma two_files_ok: "files_ok {0, 1} two_files"
proof -
  have u: "b \<in> taken two_files" if "b \<in> {59, 60}" for b
    using that two_files_blocks(2) unfolding taken_def two_files_blocks(1,3) by (auto simp: usable_def two_files_blocks(4))
  have z: "0 \<notin> taken two_files" using takenD(1) [of 0 two_files] by blast
  have "is_file 0 two_files" "is_file 1 two_files"
    using z u by (auto simp: is_file_def file_ok_def file_inode_def nblks_def mapped_def nth_Cons' fblk_def lessThan_Suc)
  moreover have "own_blocks 0 1 two_files = {59}" "own_blocks 1 1 two_files = {60}"
    by (auto simp: blocks_def file_inode_def fblk_def)
  ultimately show ?thesis by (auto simp: files_ok_def file_inode_def nblks_def)
qed

lemma two_files_afford: "affordable 1 512 1 two_files" "affordable 0 32 16 two_files"
  unfolding affordable_def two_files_blocks(3)
  by (simp_all add: file_inode_def nblks_def ind_cost_def touched_def to_log_def)

lemma two_files_content: "content 1 two_files = replicate 512 0" "size_of 1 two_files = 512" "content 0 two_files = root_dots"
proof -
  show s: "size_of 1 two_files = 512" by (simp add: file_inode_def)
  show "content 1 two_files = replicate 512 0"
    by (rule nth_equalityI) (use s in \<open>simp_all add: nth_content fbyte_def fblk_def file_inode_def\<close>)
  have l: "length root_dots = 32" by (simp add: root_dots_def mk_dirent_def)
  have z: "size_of 0 two_files = 32" by (simp add: file_inode_def)
  show "content 0 two_files = root_dots"
    by (rule nth_equalityI) (use l z in \<open>simp_all add: nth_content fbyte_def fblk_def file_inode_def put_bytes_def\<close>)
qed

theorem readi_reads_witness: "\<exists>t. readi 1 None 510 7 two_files = Inr (2, [0, 0], t)"
proof -
  have i: "(1 :: nat) \<in> {0, 1}" by simp
  have bs: "take (unat (7 :: 32 word)) (drop (unat (510 :: 32 word)) (content 1 two_files)) = [0, 0]"
  proof -
    have "unat (7 :: 32 word) = 7" "unat (510 :: 32 word) = 510" by simp_all
    moreover have "replicate 2 (0 :: 8 word) = [0, 0]" by (simp add: numeral_2_eq_2)
    ultimately show ?thesis unfolding two_files_content(1) by simp
  qed
  have "i_size (inodes two_files ! 1) = 512" by (simp add: file_inode_def)
  then show ?thesis
    using readi_reads [OF two_files_inv two_files_ok i, of 510 7] unfolding bs Let_def by auto
qed

theorem writei_writes_witness:
  "\<exists>t. writei 1 (Inr [7]) 512 1 two_files = Inr (1, t) \<and> content 1 t = replicate 512 0 @ [7] \<and> content 0 t = root_dots"
proof -
  have i: "(1 :: nat) \<in> {0, 1}" by simp
  obtain t where t: "writei 1 (Inr [7]) 512 1 two_files = Inr (int (length [7 :: 8 word]), t)"
    "\<forall>j \<in> {0, 1}. content j t = (if j = 1 then overwrite (unat (512 :: 32 word)) [7] (content 1 two_files) else content j two_files)"
    using writei_writes [OF two_files_inv two_files_ok i, of 512 "[7]" 1] two_files_afford(1) two_files_content(2) by auto
  have "content 1 t = overwrite (unat (512 :: 32 word)) [7] (content 1 two_files)" "content 0 t = content 0 two_files"
    using t(2) by (metis i, metis insertI1 zero_neq_one)
  then have "content 1 t = replicate 512 0 @ [7]" "content 0 t = root_dots"
    unfolding two_files_content(1,3) by (simp_all add: overwrite_def)
  then show ?thesis using t(1) by auto
qed

end
