(* ===== verification/Dirs.thy ===== *)
theory Dirs
  imports Contents
begin

text \<open>
  Directories: the content of a directory as a map from names to inode numbers. Looking a name up is looking it up in the
  map, and linking a name that is not there is an update of it.
\<close>

unbundle bit_operations_syntax

section \<open>Names\<close>

text \<open>The part of a name that counts: up to 14 bytes before a NUL.\<close>

definition key :: "8 word list \<Rightarrow> 8 word list" where
  "key name = takeWhile (\<lambda>c. c \<noteq> 0) (take DIRSIZ name)"

lemma strncmp_zero: "strncmp (cbyte p) (cbyte q) n = 0 \<longleftrightarrow> takeWhile (\<lambda>c. c \<noteq> 0) (take n p) = takeWhile (\<lambda>c. c \<noteq> 0) (take n q)"
proof (induction n arbitrary: p q)
  case (Suc n)
  have nil: "cbyte [] = (\<lambda>_. 0)" and tl: "(\<lambda>i. cbyte (x # xs) (Suc i)) = cbyte xs" and hd: "cbyte (x # xs) 0 = x" for x xs
    by (auto simp: cbyte_def)
  show ?case
    using Suc.IH by (cases p; cases q) (auto simp: nil tl hd uint_0_iff word_uint_eq_iff [symmetric])
qed simp

lemma namecmp_key: "namecmp p q = 0 \<longleftrightarrow> key p = key q"
  by (simp add: namecmp_def key_def strncmp_zero)

lemma key_pad: "key (map (cbyte name) [0..<DIRSIZ]) = key name"
proof -
  have "map (cbyte name) [0..<14] = take 14 name @ replicate (14 - length name) 0"
    by (rule nth_equalityI) (auto simp: cbyte_def nth_append)
  moreover have "takeWhile (\<lambda>c. c \<noteq> 0) (xs @ replicate k 0) = takeWhile (\<lambda>c. c \<noteq> 0) xs" for xs :: "8 word list" and k
    by (induction xs) (cases k; simp)+
  ultimately show ?thesis by (simp add: key_def del: upt_Suc)
qed

section \<open>Entries\<close>

definition ent :: "8 word list \<Rightarrow> nat \<Rightarrow> 8 word list" where
  "ent c k = take 16 (drop (16 * k) c)"

definition dir_list :: "8 word list \<Rightarrow> (8 word list \<times> 16 word) list" where
  "dir_list c = map (\<lambda>k. (key (de_name (ent c k)), de_inum (ent c k))) (filter (\<lambda>k. de_inum (ent c k) \<noteq> 0) [0..<length c div 16])"

definition dir_map :: "8 word list \<Rightarrow> 8 word list \<rightharpoonup> 16 word" where
  "dir_map c = map_of (dir_list c)"

text \<open>The first entry with a name, and the first one that is empty or else the end.\<close>

definition dir_find :: "8 word list \<Rightarrow> 8 word list \<Rightarrow> nat option" where
  "dir_find c name = find (\<lambda>k. de_inum (ent c k) \<noteq> 0 \<and> key name = key (de_name (ent c k))) [0..<length c div 16]"

definition dir_slot :: "8 word list \<Rightarrow> nat" where
  "dir_slot c = (case find (\<lambda>k. de_inum (ent c k) = 0) [0..<length c div 16] of Some k \<Rightarrow> k | None \<Rightarrow> length c div 16)"

lemma map_of_find: "map_of (map (\<lambda>k. (f k, g k)) (filter P ks)) x = map_option g (find (\<lambda>k. P k \<and> x = f k) ks)"
  by (induction ks) auto

lemma dir_map_find: "dir_map c (key name) = map_option (\<lambda>k. de_inum (ent c k)) (dir_find c name)"
  by (simp add: dir_map_def dir_list_def dir_find_def map_of_find)

lemma de_mk_dirent: "de_inum (mk_dirent name w) = w" "key (de_name (mk_dirent name w)) = key name" "length (mk_dirent name w) = 16"
proof -
  show "de_inum (mk_dirent name w) = w"
    by (rule bit_word_eqI) (auto simp: de_inum_def mk_dirent_def bit_simps)
  show "key (de_name (mk_dirent name w)) = key name" unfolding de_name_def mk_dirent_def by (simp add: key_pad del: upt_Suc)
  show "length (mk_dirent name w) = 16" by (simp add: mk_dirent_def)
qed

section \<open>Looking up\<close>

definition is_dir :: "nat \<Rightarrow> 'a fsst_scheme \<Rightarrow> bool" where
  "is_dir i s \<longleftrightarrow> i_type (inodes s ! i) = T_DIR \<and> 16 dvd size_of i s"

lemma read_entry:
  assumes t: "txn {} s" and f: "is_file dp s" and k: "16 * k + 16 \<le> size_of dp s"
  obtains t where "readi dp None (of_nat (16 * k)) 16 s = Inr (16, ent (content dp s) k, t)" "quiet s t"
proof -
  note d = is_fileD [OF f]
  have u: "unat (of_nat (16 * k) :: 32 word) = 16 * k" by (rule unat_addr) (use k d(3) in simp)
  have n: "unat (16 :: 32 word) = 16" by simp
  have sum: "unat (of_nat (16 * k) + 16 :: 32 word) = 16 * k + 16"
    using unat_add_lem [of "of_nat (16 * k) :: 32 word" 16] u n k d(3) by simp
  have "\<not> (of_nat (16 * k) > i_size (inodes s ! dp) \<or> of_nat (16 * k) + 16 < (of_nat (16 * k) :: 32 word))"
    using u sum k by (simp add: word_less_nat_alt)
  moreover have "length (ent (content dp s) k) = 16" using k by (simp add: ent_def)
  ultimately show ?thesis
    using readi_file [OF t f, of "of_nat (16 * k)" 16] that unfolding u n Let_def ent_def by auto
qed

lemma lookup_from:
  assumes "txn {} s" "is_file dp s" "i_dev (inodes s ! dp) = 1" "\<And>k. k \<in> set ks \<Longrightarrow> 16 * k + 16 \<le> size_of dp s"
  shows "\<exists>t. quiet s t \<and> dirlookup_from dp name (map (\<lambda>k. 16 * k) ks) s =
    (case find (\<lambda>k. de_inum (ent (content dp s) k) \<noteq> 0 \<and> key name = key (de_name (ent (content dp s) k))) ks of
       None \<Rightarrow> Inr (None, t)
     | Some k \<Rightarrow> bindE (iget 1 (unat (de_inum (ent (content dp s) k))) t) (\<lambda>(ip, u). Inr (Some (ip, 16 * k), u)))"
  using assms
proof (induction ks arbitrary: s)
  case Nil
  then show ?case by (auto simp: quiet_def)
next
  case (Cons k ks s)
  obtain t where t: "readi dp None (of_nat (16 * k)) 16 s = Inr (16, ent (content dp s) k, t)" "quiet s t"
    using read_entry [OF Cons.prems(1,2)] Cons.prems(4) [of k] by auto
  note q = quietD [OF t(2)] and b = quiet_bytes [OF t(2)]
  let ?e = "ent (content dp s) k"
  show ?case
  proof (cases "de_inum ?e \<noteq> 0 \<and> key name = key (de_name ?e)")
    case True
    then show ?thesis using t Cons.prems(3) by (auto simp: namecmp_key q(5))
  next
    case False
    have pre: "is_file dp t" "i_dev (inodes t ! dp) = 1" "\<And>k. k \<in> set ks \<Longrightarrow> 16 * k + 16 \<le> size_of dp t"
      using Cons.prems(2,3,4) b(3) q(5) by simp_all
    obtain u where u: "quiet t u" "dirlookup_from dp name (map (\<lambda>k. 16 * k) ks) t =
      (case find (\<lambda>k. de_inum (ent (content dp s) k) \<noteq> 0 \<and> key name = key (de_name (ent (content dp s) k))) ks of
         None \<Rightarrow> Inr (None, u)
       | Some k \<Rightarrow> bindE (iget 1 (unat (de_inum (ent (content dp s) k))) u) (\<lambda>(ip, u). Inr (Some (ip, 16 * k), u)))"
      using Cons.IH [OF q(1) pre] unfolding b(2) by blast
    have step: "dirlookup_from dp name (map (\<lambda>k. 16 * k) (k # ks)) s = dirlookup_from dp name (map (\<lambda>k. 16 * k) ks) t"
      using t(1) False by (auto simp: namecmp_key)
    have skip: "find P (k # ks) = find P ks" if "\<not> P k" for P using that by simp
    show ?thesis unfolding step u(2) skip [of "\<lambda>k. de_inum (ent (content dp s) k) \<noteq> 0 \<and> key name = key (de_name (ent (content dp s) k))", OF False]
      using quiet_trans [OF t(2) u(1)] by blast
  qed
qed

lemma offs_entries: "16 dvd n \<Longrightarrow> dirent_offs n = map (\<lambda>k. 16 * k) [0..<n div 16]"
  by (auto simp: dirent_offs_def elim!: dvdE)

lemma lookup_ok:
  assumes t: "txn {} s" and f: "is_file dp s" and d: "is_dir dp s"
  shows "\<exists>t. quiet s t \<and> dirlookup dp name s =
    (case dir_find (content dp s) name of None \<Rightarrow> Inr (None, t)
     | Some k \<Rightarrow> bindE (iget 1 (unat (de_inum (ent (content dp s) k))) t) (\<lambda>(ip, u). Inr (Some (ip, 16 * k), u)))"
proof -
  have dev: "i_dev (inodes s ! dp) = 1" by (rule file_okD(2) [OF is_fileD(1) [OF f]])
  have "16 * k + 16 \<le> size_of dp s" if "k \<in> set [0..<size_of dp s div 16]" for k
  proof -
    have "k + 1 \<le> size_of dp s div 16" using that by simp
    then have "16 * (k + 1) \<le> 16 * (size_of dp s div 16)" by simp
    then show ?thesis using times_div_less_eq_dividend [of 16 "size_of dp s"] by simp
  qed
  then show ?thesis
    using lookup_from [OF t f dev, of "[0..<size_of dp s div 16]" name] d
    by (simp add: dirlookup_def is_dir_def offs_entries dir_find_def)
qed


section \<open>Linking\<close>

text \<open>Entry \<open>k\<close> is replaced or comes after the last one.\<close>

lemma ent_overwrite:
  assumes k: "16 * k \<le> length c" "length de = 16" and c: "16 dvd length c" and j: "16 * j < max (length c) (16 * k + 16)"
  shows "ent (overwrite (16 * k) de c) j = (if j = k then de else ent c j)"
proof (rule nth_equalityI)
  let ?o = "overwrite (16 * k) de c"
  have lo: "length ?o = max (length c) (16 * k + 16)" using length_overwrite [OF k(1), of de] k(2) by simp
  have fit: "16 * j + 16 \<le> max (length c) (16 * k + 16)" using c j by (auto elim!: dvdE simp: max_def split: if_splits)
  then have le: "length (ent ?o j) = 16" by (simp add: ent_def lo)
  have lj: "16 * j + 16 \<le> length c" if "j \<noteq> k" using that fit j k(1) c by (auto elim!: dvdE simp: max_def split: if_splits)
  show "length (ent ?o j) = length (if j = k then de else ent c j)"
  proof (cases "j = k")
    case False
    then have "16 \<le> length c - 16 * j" using lj by fastforce
    then show ?thesis using False le by (simp add: ent_def)
  qed (use le k(2) in simp)
  fix l assume "l < length (ent ?o j)"
  then have l: "l < 16" using le by simp
  have e: "ent ?o j ! l = ?o ! (16 * j + l)" using fit l by (simp add: ent_def lo)
  have "16 * j + l < max (length c) (16 * k + 16)" using fit l by linarith
  then have o: "?o ! (16 * j + l) = (if 16 * k \<le> 16 * j + l \<and> 16 * j + l < 16 * k + 16 then de ! (16 * j + l - 16 * k) else c ! (16 * j + l))"
    using nth_overwrite [OF k(1), of "16 * j + l" de] k(2) by simp
  show "ent ?o j ! l = (if j = k then de else ent c j) ! l"
  proof (cases "j = k")
    case False
    then have "\<not> (16 * k \<le> 16 * j + l \<and> 16 * j + l < 16 * k + 16)" using l by linarith
    then have "?o ! (16 * j + l) = c ! (16 * j + l)" unfolding o by (rule if_not_P)
    then show ?thesis unfolding e using False lj [OF False] l by (simp add: ent_def)
  next
    case True
    then show ?thesis unfolding e o using l by simp
  qed
qed

lemma dir_slot_ok:
  assumes "16 dvd length c"
  shows "16 * dir_slot c \<le> length c" "dir_slot c < length c div 16 \<Longrightarrow> de_inum (ent c (dir_slot c)) = 0"
proof -
  have "dir_slot c \<le> length c div 16"
    by (auto simp: dir_slot_def find_Some_iff simp del: upt_Suc split: option.split)
  then have "16 * dir_slot c \<le> 16 * (length c div 16)" by simp
  then show "16 * dir_slot c \<le> length c" using assms by simp
  show "de_inum (ent c (dir_slot c)) = 0" if "dir_slot c < length c div 16"
  proof (cases "find (\<lambda>k. de_inum (ent c k) = 0) [0..<length c div 16]")
    case None
    then show ?thesis using that by (simp add: dir_slot_def)
  next
    case (Some k)
    then have "de_inum (ent c k) = 0" by (auto simp: find_Some_iff simp del: upt_Suc)
    then show ?thesis by (simp add: dir_slot_def Some)
  qed
qed

text \<open>Writing an entry for a name that is not there is an update of the map.\<close>

lemma dir_map_link:
  assumes c: "16 dvd length c" and new: "dir_map c (key name) = None" and w: "w \<noteq> 0"
  shows "dir_map (overwrite (16 * dir_slot c) (mk_dirent name w) c) = (dir_map c)(key name \<mapsto> w)"
proof -
  let ?k = "dir_slot c" and ?m = "length c div 16"
  let ?c = "overwrite (16 * ?k) (mk_dirent name w) c"
  let ?f = "\<lambda>c k. (key (de_name (ent c k)), de_inum (ent c k))" and ?P = "\<lambda>c k. de_inum (ent c k) \<noteq> 0"
  note so = dir_slot_ok [OF c]
  have km: "?k \<le> ?m" using so(1) by (simp add: less_eq_div_iff_mult_less_eq mult.commute)
  have len: "length ?c = max (length c) (16 * ?k + 16)" using length_overwrite [OF so(1)] by (simp add: de_mk_dirent)
  have m': "length ?c div 16 = max ?m (?k + 1)" unfolding len using c by (auto elim!: dvdE simp: max_def)
  have ent: "ent ?c j = (if j = ?k then mk_dirent name w else ent c j)" if "j < max ?m (?k + 1)" for j
  proof (rule ent_overwrite [OF so(1) de_mk_dirent(3) c])
    show "16 * j < max (length c) (16 * ?k + 16)" using that c by (auto elim!: dvdE simp: max_def split: if_splits)
  qed
  define xs where "xs = [0..<?k]"
  define ys where "ys = [?k + 1..<?m]"
  have old: "dir_list c = map (?f c) (filter (?P c) xs) @ map (?f c) (filter (?P c) ys)"
  proof (cases "?k < ?m")
    case True
    then have "[0..<?m] = xs @ ?k # ys" unfolding xs_def ys_def
      using upt_add_eq_append [of 0 ?k "?m - ?k"] upt_conv_Cons [of ?k ?m] by simp
    then show ?thesis using so(2) [OF True] by (simp add: dir_list_def)
  next
    case False
    then have "?m = ?k" using km by simp
    then show ?thesis by (simp add: dir_list_def xs_def ys_def)
  qed
  have "[0..<max ?m (?k + 1)] = xs @ ?k # ys" unfolding xs_def ys_def
    using upt_add_eq_append [of 0 ?k "max ?m (?k + 1) - ?k"] upt_conv_Cons [of ?k "max ?m (?k + 1)"] by (simp add: max_def)
  then have "dir_list ?c = map (?f ?c) (filter (?P ?c) (xs @ ?k # ys))" by (simp only: dir_list_def m')
  also have "\<dots> = map (?f c) (filter (?P c) xs) @ (key name, w) # map (?f c) (filter (?P c) ys)"
  proof -
    have "map (?f ?c) (filter (?P ?c) zs) = map (?f c) (filter (?P c) zs)" if "\<And>j. j \<in> set zs \<Longrightarrow> ent ?c j = ent c j" for zs
      using that by (induction zs) auto
    moreover have "ent ?c j = ent c j" if "j \<in> set xs \<or> j \<in> set ys" for j using ent [of j] that by (auto simp: xs_def ys_def)
    moreover have "ent ?c ?k = mk_dirent name w" using ent [of ?k] by simp
    ultimately show ?thesis using w by (simp add: de_mk_dirent)
  qed
  finally have "dir_map ?c = map_of (map (?f c) (filter (?P c) xs) @ (key name, w) # map (?f c) (filter (?P c) ys))"
    by (simp add: dir_map_def)
  moreover have "map_of (as @ (x, w) # bs) = (map_of (as @ bs))(x \<mapsto> w)" if "map_of (as @ bs) x = None" for as bs and x :: "8 word list"
    using that by (auto simp: fun_eq_iff map_add_def split: option.splits)
  ultimately show ?thesis using new by (simp add: dir_map_def old)
qed


lemma slot_from:
  assumes "txn {} s" "is_file dp s" "16 * m = size_of dp s" "j \<le> m"
  shows "\<exists>t. quiet s t \<and> dirlink_slot dp (map (\<lambda>k. 16 * k) [j..<m]) (16 * j) s =
    Inr (16 * (case find (\<lambda>k. de_inum (ent (content dp s) k) = 0) [j..<m] of Some k \<Rightarrow> k | None \<Rightarrow> m), t)"
  using assms
proof (induction "m - j" arbitrary: j s)
  case 0
  then show ?case by (auto simp: quiet_def)
next
  case (Suc x j s)
  then have jm: "j < m" by simp
  then have up: "[j..<m] = j # [j + 1..<m]" by (simp add: upt_conv_Cons)
  have "16 * j + 16 \<le> size_of dp s" using jm Suc.prems(3) by linarith
  then obtain t where t: "readi dp None (of_nat (16 * j)) 16 s = Inr (16, ent (content dp s) j, t)" "quiet s t"
    using read_entry [OF Suc.prems(1,2)] by blast
  note q = quietD [OF t(2)] and b = quiet_bytes [OF t(2)]
  show ?case
  proof (cases "de_inum (ent (content dp s) j) = 0")
    case True
    then show ?thesis unfolding up using t by simp
  next
    case False
    have pre: "x = m - (j + 1)" "is_file dp t" "16 * m = size_of dp t" "j + 1 \<le> m"
      using Suc.hyps(2) Suc.prems(2,3) jm b(3) q(5) by simp_all
    obtain u where u: "quiet t u" "dirlink_slot dp (map (\<lambda>k. 16 * k) [j + 1..<m]) (16 * (j + 1)) t =
        Inr (16 * (case find (\<lambda>k. de_inum (ent (content dp s) k) = 0) [j + 1..<m] of Some k \<Rightarrow> k | None \<Rightarrow> m), u)"
      using Suc.hyps(1) [OF pre(1) q(1) pre(2,3,4)] unfolding b(2) by blast
    have step: "dirlink_slot dp (map (\<lambda>k. 16 * k) [j..<m]) (16 * j) s = dirlink_slot dp (map (\<lambda>k. 16 * k) [j + 1..<m]) (16 * (j + 1)) t"
      unfolding up using t(1) False by (simp add: add.commute)
    have skip: "find P (j # ks) = find P ks" if "\<not> P j" for P ks using that by simp
    show ?thesis unfolding step u(2) unfolding up skip [of "\<lambda>k. de_inum (ent (content dp s) k) = 0", OF False]
      using quiet_trans [OF t(2) u(1)] by blast
  qed
qed

lemma slot_ok:
  assumes "txn {} s" "is_file dp s" "is_dir dp s"
  shows "\<exists>t. quiet s t \<and> dirlink_slot dp (dirent_offs (size_of dp s)) 0 s = Inr (16 * dir_slot (content dp s), t)"
  using slot_from [OF assms(1,2), of "size_of dp s div 16" 0] assms(3) unfolding dir_slot_def length_content by (simp add: is_dir_def offs_entries)

lemma quiet_afford: "quiet s t \<Longrightarrow> affordable i off m t = affordable i off m s"
  by (simp add: affordable_def quietD [of s t] ind_cost_def to_log_def)

lemma quiet_dir: "quiet s t \<Longrightarrow> is_dir i t = is_dir i s"
  by (simp add: is_dir_def quietD [of s t])

lemma quiet_files: "quiet s t \<Longrightarrow> files_ok I t = files_ok I s"
  by (simp add: files_ok_def quietD(3,5) [of s t] quiet_bytes(3) [of s t])

lemma quiet_inv: "quiet s t \<Longrightarrow> fs_inv s \<Longrightarrow> fs_inv t"
  by (simp add: fs_inv_def quietD [of s t])

section \<open>The map of a directory\<close>

text \<open>
  C24. \<open>dirlookup\<close> finds what the map of the directory has for the name, of which 14 bytes count: nothing, or
  the inode of the first entry with it, with the offset of that entry. No file changes.
\<close>

theorem dirlookup_finds:
  assumes "fs_inv s" "files_ok I s" "dp \<in> I" "is_dir dp s"
  shows "\<exists>t. fs_inv t \<and> files_ok I t \<and> inodes t = inodes s \<and> (\<forall>j. content j t = content j s) \<and>
    (case dir_map (content dp s) (key name) of
       None \<Rightarrow> dirlookup dp name s = Inr (None, t)
     | Some inum \<Rightarrow> \<exists>k. 16 * k < size_of dp s \<and> de_inum (ent (content dp s) k) = inum \<and> key (de_name (ent (content dp s) k)) = key name \<and>
         dirlookup dp name s = bindE (iget 1 (unat inum) t) (\<lambda>(ip, u). Inr (Some (ip, 16 * k), u)))"
proof -
  have f: "txn {} s" "is_file dp s" using assms by (simp_all add: fs_inv_def files_ok_def)
  obtain t where t: "quiet s t" "dirlookup dp name s = (case dir_find (content dp s) name of None \<Rightarrow> Inr (None, t)
     | Some k \<Rightarrow> bindE (iget 1 (unat (de_inum (ent (content dp s) k))) t) (\<lambda>(ip, u). Inr (Some (ip, 16 * k), u)))"
    using lookup_ok [OF f assms(4)] by blast
  have st: "fs_inv t" "files_ok I t" "inodes t = inodes s" "\<forall>j. content j t = content j s"
    using quiet_inv [OF t(1) assms(1)] quiet_files [OF t(1)] assms(2) quietD(5) [OF t(1)] quiet_bytes(2) [OF t(1)] by simp_all
  show ?thesis
  proof (cases "dir_find (content dp s) name")
    case None
    then show ?thesis using t(2) st by (auto simp: dir_map_find)
  next
    case (Some k)
    then have k: "k < size_of dp s div 16" "key name = key (de_name (ent (content dp s) k))"
      by (auto simp: dir_find_def find_Some_iff simp del: upt_Suc)
    have "16 dvd size_of dp s" using assms(4) by (simp add: is_dir_def)
    then have "16 * k < size_of dp s" using k(1) by (auto elim!: dvdE)
    moreover have dm: "dir_map (content dp s) (key name) = Some (de_inum (ent (content dp s) k))" by (simp add: dir_map_find Some)
    moreover have "dirlookup dp name s = bindE (iget 1 (unat (de_inum (ent (content dp s) k))) t) (\<lambda>(ip, u). Inr (Some (ip, 16 * k), u))"
      using t(2) Some by simp
    ultimately show ?thesis unfolding dm option.case using st k(2) [symmetric] by blast
  qed
qed

text \<open>
  C12. \<open>dirlink\<close> of a name that the directory does not have adds it to the map of the directory and changes nothing
  else in it, whether an empty entry is taken or the directory grows, and no other file changes. The number of the
  inode is not 0 in its 16 bits, the entry lies within the largest file, and the allocator has the blocks that the write needs.
\<close>

theorem dirlink_adds:
  fixes s :: "'a console_scheme"
  assumes inv: "fs_inv s" and I: "files_ok I s" "dp \<in> I" and d: "is_dir dp s" and new: "dir_map (content dp s) (key name) = None"
    and inum: "(of_nat inum :: 16 word) \<noteq> 0" and fits: "16 * dir_slot (content dp s) + 16 \<le> MAXFILE * BSIZE"
    and cost: "affordable dp (16 * dir_slot (content dp s)) 16 s"
  shows "\<exists>t. dirlink dp name inum s = Inr (0, t) \<and> fs_inv t \<and> files_ok I t \<and> is_dir dp t \<and>
    dir_map (content dp t) = (dir_map (content dp s))(key name \<mapsto> of_nat inum) \<and> (\<forall>j \<in> I. j \<noteq> dp \<longrightarrow> content j t = content j s)"
proof -
  let ?c = "content dp s" and ?de = "mk_dirent name (of_nat inum)"
  let ?o = "16 * dir_slot ?c"
  have f: "txn {} s" "is_file dp s" using inv I by (simp_all add: fs_inv_def files_ok_def)
  have dvd: "16 dvd length ?c" using d by (simp add: is_dir_def)
  have "dir_find ?c name = None" using new by (simp add: dir_map_find)
  then obtain t where t: "quiet s t" "dirlookup dp name s = Inr (None, t)" using lookup_ok [OF f d, of name] by auto
  have ft: "txn {} t" "is_file dp t" "is_dir dp t" using quietD(1) [OF t(1)] quiet_bytes(3) [OF t(1)] quiet_dir [OF t(1)] f d by simp_all
  obtain u where u: "quiet t u" "dirlink_slot dp (dirent_offs (size_of dp t)) 0 t = Inr (?o, u)"
    using slot_ok [OF ft] unfolding quiet_bytes(2) [OF t(1)] by blast
  have q: "quiet s u" by (rule quiet_trans [OF t(1) u(1)])
  have uo: "unat (of_nat ?o :: 32 word) = ?o" by (rule unat_addr) (use fits in simp)
  have len: "length ?de = 16" by (rule de_mk_dirent(3))
  have inv_u: "fs_inv u" by (rule quiet_inv [OF q inv])
  have I_u: "files_ok I u" using quiet_files [OF q] I(1) by simp
  have off: "unat (of_nat ?o :: 32 word) \<le> size_of dp u" using dir_slot_ok(1) [OF dvd] quietD(5) [OF q] unfolding uo by simp
  have lim: "unat (of_nat ?o :: 32 word) + length ?de \<le> MAXFILE * BSIZE" using fits unfolding uo len by simp
  have n: "unat (16 :: 32 word) = length ?de" unfolding len by simp
  have aff: "affordable dp (unat (of_nat ?o :: 32 word)) (length ?de) u" using cost quiet_afford [OF q] unfolding uo len by simp
  obtain v where v: "writei dp (Inr ?de) (of_nat ?o) 16 u = Inr (int (length ?de), v)" "fs_inv v" "files_ok I v"
    "\<And>j. j \<in> I \<Longrightarrow> content j v = (if j = dp then overwrite (unat (of_nat ?o :: 32 word)) ?de (content dp u) else content j u)" "same_but dp u v"
    using writei_file [OF inv_u I_u I(2) off lim n aff] by metis
  have c: "content dp v = overwrite ?o ?de ?c" using v(4) [OF I(2)] quiet_bytes(2) [OF q] unfolding uo by simp
  have "size_of dp v = max (length ?c) (?o + 16)"
    using arg_cong [OF c, of length] length_overwrite [OF dir_slot_ok(1) [OF dvd], of ?de] len by simp
  moreover have "i_type (inodes v ! dp) = T_DIR" using same_butD(8) [OF v(5)] quietD(5) [OF q] d by (simp add: is_dir_def)
  ultimately have "is_dir dp v" using dvd by (simp add: is_dir_def max_def)
  moreover have "dir_map (content dp v) = (dir_map ?c)(key name \<mapsto> of_nat inum)" unfolding c by (rule dir_map_link [OF dvd new inum])
  moreover have "dirlink dp name inum s = Inr (0, v)" using t(2) u(2) v(1) len by (simp add: dirlink_def)
  ultimately show ?thesis using v(2,3,4) quiet_bytes(2) [OF q] by auto
qed

lemma root_dots_entries: "ent root_dots 0 = mk_dirent [0x2E] 1" "ent root_dots 1 = mk_dirent [0x2E, 0x2E] 1" "length root_dots = 32"
  by (simp_all add: ent_def root_dots_def de_mk_dirent(3))

lemma root_dots_map: "dir_map root_dots = [[0x2E] \<mapsto> 1, [0x2E, 0x2E] \<mapsto> 1]" "dir_slot root_dots = 2"
proof -
  have up: "[0..<length root_dots div 16] = [0, 1]" unfolding root_dots_entries(3) by (simp add: upt_rec)
  have k: "key [0x2E] = [0x2E]" "key [0x2E, 0x2E] = [0x2E, 0x2E]" by (simp_all add: key_def)
  show "dir_map root_dots = [[0x2E] \<mapsto> 1, [0x2E, 0x2E] \<mapsto> 1]"
    unfolding dir_map_def dir_list_def up by (auto simp: root_dots_entries [simplified] de_mk_dirent k fun_eq_iff)
  show "dir_slot root_dots = 2" unfolding dir_slot_def up by (simp add: root_dots_entries [simplified] de_mk_dirent)
qed

lemma two_files_dir: "is_dir 0 two_files"
  by (simp add: is_dir_def file_inode_def)

theorem dirlookup_finds_witness: "\<exists>t. dirlookup 0 [0x2E, 0x2E] two_files = Inr (Some (0, 16), t)"
proof -
  have i: "(0 :: nat) \<in> {0, 1}" by simp
  have k: "key [0x2E, 0x2E] = [0x2E, 0x2E]" "key [0x2E] = [0x2E]" by (simp_all add: key_def)
  obtain t k where t: "inodes t = inodes two_files" "16 * k < size_of 0 two_files" "key (de_name (ent root_dots k)) = [0x2E, 0x2E]"
    "dirlookup 0 [0x2E, 0x2E] two_files = bindE (iget 1 1 t) (\<lambda>(ip, u). Inr (Some (ip, 16 * k), u))"
    using dirlookup_finds [OF two_files_inv two_files_ok i two_files_dir, of "[0x2E, 0x2E]"] unfolding k(1) two_files_content(3) root_dots_map(1)
    by auto
  have "k = 0 \<or> k = 1" using t(2) by (auto simp: file_inode_def)
  then have "k = 1" using t(3) root_dots_entries(1) by (auto simp: de_mk_dirent k)
  then show ?thesis using t(4) by (simp add: iget_def t(1) file_inode_def)
qed

theorem dirlink_adds_witness:
  "\<exists>t. dirlink 0 [0x61] 2 two_files = Inr (0, t) \<and> dir_map (content 0 t) = [[0x2E] \<mapsto> 1, [0x2E, 0x2E] \<mapsto> 1, [0x61] \<mapsto> 2]"
proof -
  have i: "(0 :: nat) \<in> {0, 1}" by simp
  have k: "key [0x61] = [0x61]" by (simp add: key_def)
  show ?thesis
    using dirlink_adds [OF two_files_inv two_files_ok i two_files_dir, of "[0x61]" 2] two_files_afford(2)
    unfolding two_files_content(3) root_dots_map k by auto
qed

end
