(* ===== verification/Image.thy ===== *)
theory Image
  imports Mkfs Dirs
begin

text \<open>
  The kernel on the disk that \<open>mkfs\<close> has built. The image is laid out the way the kernel's file system
  expects it, its inodes are files for the kernel, and the kernel finds every file under its name and reads the bytes that the
  host file had.
\<close>

unbundle bit_operations_syntax

section \<open>The kernel's view of an image\<close>

definition read_sb :: "block \<Rightarrow> superblock" where
  "read_sb d = \<lparr>sb_size = rd32 d 0, sb_nblocks = rd32 d 4, sb_ninodes = rd32 d 8, sb_nlog = rd32 d 12,
     sb_logstart = rd32 d 16, sb_inodestart = rd32 d 20, sb_bmapstart = rd32 d 24\<rparr>"

text \<open>In a transaction on the image, after \<open>iinit\<close> and \<open>initlog\<close> have read its super block.\<close>

definition booted :: "(nat \<Rightarrow> block) \<Rightarrow> 'a fsst_scheme \<Rightarrow> bool" where
  "booted im s \<longleftrightarrow> txn {} s \<and> view_block s = im \<and> disksize s = FSSIZE \<and> fs_sb s = read_sb (im 1) \<and>
     l_start s = unat (sb_logstart (fs_sb s)) \<and> l_size s = sint (sb_nlog (fs_sb s))"

text \<open>Slot \<open>i\<close> of the inode cache holds inode \<open>inum\<close>, as \<open>ilock\<close> reads it.\<close>

definition loaded :: "nat \<Rightarrow> nat \<Rightarrow> 'a fsst_scheme \<Rightarrow> bool" where
  "loaded i inum s \<longleftrightarrow> i < length (inodes s) \<and> i_dev (inodes s ! i) = 1 \<and> i_inum (inodes s ! i) = inum \<and>
     load_dinode (view_block s (IBLOCK inum (fs_sb s))) (dinode_at inum) (inodes s ! i) = inodes s ! i"

lemma read_superblock:
  "read_sb (wr_words 0 superblock_bytes d) =
   \<lparr>sb_size = 1000, sb_nblocks = 941, sb_ninodes = 200, sb_nlog = 30, sb_logstart = 2, sb_inodestart = 32, sb_bmapstart = 58\<rparr>"
proof -
  let ?d = "wr_words 0 superblock_bytes d"
  have v: "superblock_bytes = [1000, 941, 200, 30, 2, 32, 58]"
    by (simp add: superblock_bytes_def nmeta_def ninodeblocks_def nbitmap_def nlog_def)
  have len: "length superblock_bytes = 7" by (simp add: superblock_bytes_def)
  have "rd_words ?d 0 7 = superblock_bytes" using rd_words_wr_words [of 0 superblock_bytes d] unfolding len .
  then have "rd_words ?d 0 7 = [1000, 941, 200, 30, 2, 32, 58]" by (rule trans [OF _ v])
  then show ?thesis by (simp add: read_sb_def numeral_eq_Suc)
qed

lemma load_get: "load_dinode d j ip = ip\<lparr>i_type := d_type (get_dinode d j), i_major := d_major (get_dinode d j), i_minor := d_minor (get_dinode d j),
    i_nlink := d_nlink (get_dinode d j), i_size := d_size (get_dinode d j), i_addrs := d_addrs (get_dinode d j)\<rparr>"
  by (simp add: load_dinode_def get_dinode_def)

lemma loadedD:
  assumes l: "loaded i inum s" and b: "booted im s" and one: "im 1 = wr_words 0 superblock_bytes zeroes"
  shows "i < length (inodes s)" "i_dev (inodes s ! i) = 1" "i_inum (inodes s ! i) = inum" "i_type (inodes s ! i) = d_type (inode_of im inum)"
    "i_size (inodes s ! i) = d_size (inode_of im inum)" "addrs_of i s = d_addrs (inode_of im inum)"
proof -
  have sb: "fs_sb s = read_sb (im 1)" "view_block s = im" using b by (simp_all add: booted_def)
  have "IBLOCK inum (fs_sb s) = inode_block inum"
    unfolding sb one read_superblock by (simp add: inode_block_def nlog_def)
  then have e: "load_dinode (im (inode_block inum)) (dinode_at inum) (inodes s ! i) = inodes s ! i" using l by (simp add: loaded_def sb(2))
  show "i < length (inodes s)" "i_dev (inodes s ! i) = 1" "i_inum (inodes s ! i) = inum" using l by (simp_all add: loaded_def)
  show "i_type (inodes s ! i) = d_type (inode_of im inum)" "i_size (inodes s ! i) = d_size (inode_of im inum)" "addrs_of i s = d_addrs (inode_of im inum)"
    unfolding inode_of_def by (subst e [symmetric], simp add: load_get)+
qed

text \<open>The bitmap of the image marks exactly the blocks below \<open>fr\<close>.\<close>

lemma booted_layout:
  assumes b: "booted im s" and one: "im 1 = wr_words 0 superblock_bytes zeroes"
    and bits: "\<And>b. bit (im (2 + nlog + ninodeblocks) (b div 8)) (b mod 8) \<longleftrightarrow> b < fr" and fr: "nmeta \<le> fr" "fr \<le> FSSIZE"
  shows "layout_ok s" "{nmeta..<fr} \<subseteq> taken s"
proof -
  have sb: "fs_sb s = \<lparr>sb_size = 1000, sb_nblocks = 941, sb_ninodes = 200, sb_nlog = 30, sb_logstart = 2, sb_inodestart = 32, sb_bmapstart = 58\<rparr>"
    and v: "view_block s = im" and d: "disksize s = FSSIZE" and l: "l_start s = 2" "l_size s = 30"
    using b unfolding booted_def one read_superblock by auto
  have n: "nmeta = 59" "2 + nlog + ninodeblocks = 58" by (simp_all add: nmeta_def ninodeblocks_def nbitmap_def nlog_def)
  have bm: "bm_blocks (fs_sb s) = {58}" unfolding sb by (auto simp: bm_blocks_def image_def intro!: exI [of _ 0])
  have ib: "i_blocks (fs_sb s) \<subseteq> {32..56}" unfolding sb by (auto simp: i_blocks_def)
  have us: "usable s = {b. 1 < b \<and> b < 1000 \<and> b \<notin> {2..<32}}" by (simp add: usable_def log_area_def d l)
  have free: "free_of s = {fr..<1000}"
  proof -
    have "b < 1000 \<Longrightarrow> bit_used (im 58) b \<longleftrightarrow> b < fr" for b using bits [of b] unfolding n bit_used_iff .
    then show ?thesis unfolding free_blocks_def v sb by (auto simp: not_less)
  qed
  show "layout_ok s" unfolding layout_ok_def bm us free using ib fr unfolding n by auto
  show "{nmeta..<fr} \<subseteq> taken s" unfolding taken_def bm us free using ib fr unfolding n by auto
qed


section \<open>The root directory\<close>

lemma dirent_mk: "i < 65536 \<Longrightarrow> dirent_bytes i name = mk_dirent name (of_nat i)"
proof -
  assume i: "i < 65536"
  have "map (cbyte name) [0..<14] = take 14 name @ replicate (14 - length name) 0"
    by (rule nth_equalityI) (auto simp: cbyte_def nth_append)
  moreover have "(of_nat i :: 8 word) = ucast (of_nat i :: 16 word)"
    by (rule bit_word_eqI) (simp add: bit_simps)
  moreover have "(of_nat (i div 256) :: 8 word) = ucast (drop_bit 8 (of_nat i :: 16 word))"
    by (rule bit_word_eqI) (simp add: bit_simps drop_bit_eq_div [of 8 i, symmetric, simplified])
  ultimately show ?thesis by (simp add: dirent_bytes_def mk_dirent_def)
qed

lemma ent_concat: "\<forall>x \<in> set L. length x = 16 \<Longrightarrow> j < length L \<Longrightarrow> ent (concat L) j = L ! j"
proof (induction L arbitrary: j)
  case (Cons x L)
  then show ?case by (cases j) (auto simp: ent_def)
qed simp

lemma ent_prefix: "16 * j + 16 \<le> n \<Longrightarrow> ent (take n c) j = ent c j"
  by (simp add: ent_def drop_take min_def)

definition names :: "(8 word list \<times> 8 word list list) list \<Rightarrow> 8 word list list" where
  "names files = [0x2E] # [0x2E, 0x2E] # map (\<lambda>f. stored_name (fst f)) files"

lemma entries_concat: "n + length files \<le> 65536 \<Longrightarrow>
    entries n files = concat (map (\<lambda>k. mk_dirent (stored_name (fst (files ! k))) (of_nat (n + k))) [0..<length files])"
proof (induction files arbitrary: n)
  case (Cons f fs)
  have "[0..<length (f # fs)] = 0 # map Suc [0..<length fs]" by (simp add: map_Suc_upt upt_conv_Cons del: upt_Suc)
  then show ?case using Cons by (simp add: dirent_mk comp_def ac_simps del: upt_Suc)
qed simp

lemma root_entry:
  assumes len: "length files + 2 \<le> 200" and c: "take (16 * (length files + 2)) c = dots @ entries 2 files" and j: "j < length files + 2"
  shows "ent c j = mk_dirent (names files ! j) (of_nat (if j = 0 then 1 else j))"
proof -
  let ?L = "map (\<lambda>j. mk_dirent (names files ! j) (of_nat (if j = 0 then 1 else j) :: 16 word)) [0..<length files + 2]"
  have up: "[0..<length files + 2] = 0 # 1 # map (\<lambda>k. k + 2) [0..<length files]"
    by (rule nth_equalityI) (auto simp: nth_Cons split: nat.splits simp del: upt_Suc)
  have "dots @ entries 2 files = concat ?L"
    unfolding up using len by (auto simp: entries_concat dots_def dirent_mk names_def comp_def ac_simps intro!: arg_cong [of _ _ concat] map_cong)
  then have "take (16 * (length files + 2)) c = concat ?L" using c by simp
  then have "ent c j = ent (concat ?L) j" using ent_prefix [of j "16 * (length files + 2)" c] j by simp
  also have "\<dots> = ?L ! j" by (rule ent_concat) (use j in \<open>auto simp: de_mk_dirent\<close>)
  finally show ?thesis using j by (simp del: upt_Suc)
qed

lemma root_finds:
  assumes len: "length files + 2 \<le> 200" and c: "take (16 * (length files + 2)) c = dots @ entries 2 files" "16 * (length files + 2) \<le> length c"
    and uniq: "distinct (map key (names files))" and k: "k < length files"
  shows "dir_map c (key (stored_name (fst (files ! k)))) = Some (of_nat (2 + k))"
proof -
  let ?name = "stored_name (fst (files ! k))"
  have nm: "names files ! (2 + k) = ?name" "length (names files) = length files + 2" using k by (simp_all add: names_def)
  have e: "ent c j = mk_dirent (names files ! j) (of_nat (if j = 0 then 1 else j))" if "j < length files + 2" for j
    by (rule root_entry [OF len c(1) that])
  have nz: "(of_nat (if j = 0 then 1 else j) :: 16 word) \<noteq> 0" if "j < 200" for j :: nat
  proof (cases "j = 0")
    case False
    have "unat (of_nat j :: 16 word) = j" using that by (simp add: unat_of_nat take_bit_eq_mod)
    then show ?thesis using False by auto
  qed simp
  have "key ?name \<noteq> key (names files ! j)" if "j < 2 + k" for j
  proof -
    have "map key (names files) ! j \<noteq> map key (names files) ! (2 + k)"
      using uniq that k nm(2) by (subst nth_eq_iff_index_eq) auto
    then show ?thesis using that k nm by simp
  qed
  moreover have "(2 + of_nat k :: 16 word) \<noteq> 0" using nz [of "2 + k"] k len by simp
  ultimately have "dir_find c ?name = Some (2 + k)"
    unfolding dir_find_def find_Some_iff
    using e nz k len c(2) nm(1) by (intro exI [of _ "2 + k"]) (auto simp: de_mk_dirent simp del: upt_Suc)
  then show ?thesis using e [of "2 + k"] k by (simp add: dir_map_find de_mk_dirent)
qed


section \<open>The kernel reads what mkfs wrote\<close>

lemma loaded_file:
  assumes b: "booted im s" and one: "im 1 = wr_words 0 superblock_bytes zeroes" and l: "loaded i inum s" and inum: "inum < 200"
    and sub: "{nmeta..<fr} \<subseteq> taken s" and w: "wfb im fr (inode_of im inum) (nblks (unat (d_size (inode_of im inum))))"
    and ty: "d_type (inode_of im inum) \<noteq> T_DEV"
  shows "is_file i s" "content i s = dbytes im (inode_of im inum) (unat (d_size (inode_of im inum)))"
    "own_blocks i (nblks (size_of i s)) s = used im (inode_of im inum) (nblks (unat (d_size (inode_of im inum))))"
proof -
  note d = loadedD [OF l b one]
  have v: "view_block s = im" "fs_sb s = read_sb (im 1)" using b by (simp_all add: booted_def)
  have "0 \<notin> taken s" using takenD(1) [of 0 s] by blast
  then have "mapped im (taken s) (d_addrs (inode_of im inum)) (nblks (unat (d_size (inode_of im inum))))" using mapped_mono [OF w sub] by blast
  then show "is_file i s" using d inum ty unfolding is_file_def file_ok_def v(2) one read_superblock by (simp add: v(1))
  show "content i s = dbytes im (inode_of im inum) (unat (d_size (inode_of im inum)))" by (simp add: content_def v d)
  show "own_blocks i (nblks (size_of i s)) s = used im (inode_of im inum) (nblks (unat (d_size (inode_of im inum))))" by (simp add: v d)
qed

lemma T_dev: "(2 :: 16 word) \<noteq> 3"
  by simp

text \<open>The names in the image differ, and the root directory does not end with a block.\<close>

definition plain_root :: "(8 word list \<times> 8 word list list) list \<Rightarrow> bool" where
  "plain_root files \<longleftrightarrow> distinct (map key (names files)) \<and> \<not> 512 dvd 16 * (length files + 2)"

lemma image_files:
  assumes "fits files" "plain_root files"
  shows "\<exists>t. mkfs_main files = Inr t \<and> (\<forall>s :: console. booted (img t) s \<longrightarrow>
    fs_inv s \<and>
    (\<forall>I num. (\<forall>i \<in> I. 0 < num i \<and> num i < length files + 2 \<and> loaded i (num i) s) \<and> inj_on num I \<longrightarrow> files_ok I s) \<and>
    (\<forall>dp. loaded dp ROOTINO s \<longrightarrow> is_dir dp s \<and>
      (\<forall>k < length files. dir_map (content dp s) (key (stored_name (fst (files ! k)))) = Some (of_nat (2 + k)))) \<and>
    (\<forall>i. \<forall>k < length files. loaded i (2 + k) s \<longrightarrow> content i s = concat (snd (files ! k))))"
proof -
  define n where "n = 16 * (length files + 2)"
  have len: "length files + 2 \<le> 200" using assms(1) by (simp add: fits_def)
  have hole: "\<not> 512 dvd n" "distinct (map key (names files))" using assms(2) by (simp_all add: plain_root_def n_def)
  obtain t where t: "mkfs_main files = Inr t" "stored 2 files t" "d_type (inode_of (img t) ROOTINO) = T_DIR"
    "dbytes (img t) (inode_of (img t) ROOTINO) n = dots @ entries 2 files" "fsize t ROOTINO = (n div 512 + 1) * 512"
    "\<forall>i < MAXINUM. \<forall>j < MAXINUM. i \<noteq> j \<longrightarrow> owned n t i \<inter> owned n t j = {}"
    "\<forall>b. bit (img t (2 + nlog + ninodeblocks) (b div 8)) (b mod 8) \<longleftrightarrow> b < freeblock t"
    "\<forall>i < MAXINUM. wfb (img t) (freeblock t) (inode_of (img t) i) (nblks (if i = ROOTINO then n else fsize t i))"
    "img t 1 = wr_words 0 superblock_bytes zeroes" "freeblock t \<le> FSSIZE" "nmeta \<le> freeblock t"
    using mkfs_main_ok [OF assms(1)] unfolding n_def by blast
  have round: "nblks (fsize t ROOTINO) = nblks n"
  proof -
    have "nblks n = n div 512 + 1"
    proof (rule nblks_one)
      have "n mod 512 \<noteq> 0" using hole(1) by (simp add: mod_eq_0_iff_dvd)
      then show "512 * (n div 512) < n" using div_mult_mod_eq [of n 512] by linarith
      show "n \<le> 512 * (n div 512) + 512" using div_mult_mod_eq [of n 512] mod_less_divisor [of 512 n] by linarith
    qed
    moreover have "nblks ((n div 512 + 1) * 512) = n div 512 + 1" by (simp add: nblks_def)
    ultimately show ?thesis unfolding t(5) by simp
  qed
  have num: "nblks (unat (d_size (inode_of (img t) i))) = nblks (if i = ROOTINO then n else fsize t i)" for i
    using round by (simp add: fsize_def)
  have ty: "d_type (inode_of (img t) i) \<noteq> T_DEV" if "0 < i" "i < length files + 2" for i
  proof (cases "i = ROOTINO")
    case False
    then have "i = 2 + (i - 2)" "i - 2 < length files" using that by linarith+
    then show ?thesis using t(2) unfolding stored_def by (metis (no_types) T_dev)
  qed (use t(3) in simp)
  have "fs_inv s \<and>
    (\<forall>I num. (\<forall>i \<in> I. 0 < num i \<and> num i < length files + 2 \<and> loaded i (num i) s) \<and> inj_on num I \<longrightarrow> files_ok I s) \<and>
    (\<forall>dp. loaded dp ROOTINO s \<longrightarrow> is_dir dp s \<and>
      (\<forall>k < length files. dir_map (content dp s) (key (stored_name (fst (files ! k)))) = Some (of_nat (2 + k)))) \<and>
    (\<forall>i. \<forall>k < length files. loaded i (2 + k) s \<longrightarrow> content i s = concat (snd (files ! k)))"
    if b: "booted (img t) s" for s :: console
  proof -
    note lay = booted_layout [OF b t(9) t(7) [rule_format] t(11,10)]
    have kfile: "is_file i s" "content i s = dbytes (img t) (inode_of (img t) m) (unat (d_size (inode_of (img t) m)))"
      "own_blocks i (nblks (size_of i s)) s = owned n t m" if "loaded i m s" "0 < m" "m < length files + 2" for i m
    proof -
      have m: "m < 200" "m < MAXINUM" using that(3) len by linarith+
      have "wfb (img t) (freeblock t) (inode_of (img t) m) (nblks (unat (d_size (inode_of (img t) m))))"
        using t(8) m(2) unfolding num by blast
      note f = loaded_file [OF b t(9) that(1) m(1) lay(2) this ty [OF that(2,3)]]
      show "is_file i s" "content i s = dbytes (img t) (inode_of (img t) m) (unat (d_size (inode_of (img t) m)))" by (rule f)+
      show "own_blocks i (nblks (size_of i s)) s = owned n t m" unfolding f(3) num owned_def by simp
    qed
    have "fs_inv s" using b lay(1) by (simp add: fs_inv_def booted_def)
    moreover have "files_ok I s" if I: "\<forall>i \<in> I. 0 < num i \<and> num i < length files + 2 \<and> loaded i (num i) s" "inj_on num I" for I and num :: "nat \<Rightarrow> nat"
      unfolding files_ok_def
    proof (intro conjI ballI impI)
      show "is_file i s" if "i \<in> I" for i using kfile(1) I(1) that by blast
      show "own_blocks i (nblks (size_of i s)) s \<inter> own_blocks j (nblks (size_of j s)) s = {}" if "i \<in> I" "j \<in> I" "i \<noteq> j" for i j
      proof -
        have "num i \<noteq> num j" using I(2) that by (auto simp: inj_on_def)
        moreover have "num i < MAXINUM" "num j < MAXINUM" using I(1) that(1,2) len by fastforce+
        ultimately have "owned n t (num i) \<inter> owned n t (num j) = {}" using t(6) by blast
        moreover have "own_blocks i (nblks (size_of i s)) s = owned n t (num i)" "own_blocks j (nblks (size_of j s)) s = owned n t (num j)"
          using kfile(3) I(1) that(1,2) by blast+
        ultimately show ?thesis by simp
      qed
    qed
    moreover have "is_dir dp s \<and> (\<forall>k < length files. dir_map (content dp s) (key (stored_name (fst (files ! k)))) = Some (of_nat (2 + k)))"
      if l: "loaded dp ROOTINO s" for dp
    proof -
      note d = loadedD [OF l b t(9)]
      have sz: "size_of dp s = (n div 512 + 1) * 512" using t(5) d(5) by (simp add: fsize_def)
      have "n \<le> (n div 512 + 1) * 512" using div_mult_mod_eq [of n 512] mod_less_divisor [of 512 n] by (simp del: div_mult_mod_eq)
      then have le: "n \<le> size_of dp s" unfolding sz .
      have c: "content dp s = dbytes (img t) (inode_of (img t) ROOTINO) (size_of dp s)" using kfile(2) [OF l] d(5) by simp
      have "take n (content dp s) = dots @ entries 2 files" unfolding c t(4) [symmetric] fbytes_def
        using le by (simp add: take_map take_upt)
      then have "dir_map (content dp s) (key (stored_name (fst (files ! k)))) = Some (of_nat (2 + k))" if "k < length files" for k
        using root_finds [OF len _ _ hole(2) that] le by (simp add: n_def)
      moreover have "16 dvd size_of dp s" unfolding sz by simp
      ultimately show ?thesis using d(4) t(3) by (simp add: is_dir_def)
    qed
    moreover have "content i s = concat (snd (files ! k))" if "k < length files" "loaded i (2 + k) s" for i k
      using kfile(2) [OF that(2)] storedD [OF t(2) that(1)] that(1) by (simp add: file_of_def fsize_def)
    ultimately show ?thesis by blast
  qed
  then show ?thesis using t(1) by blast
qed


lemma image_lookup:
  assumes "fs_inv s" "files_ok {dp} s" "is_dir dp s" "dir_map (content dp s) (key name) = Some w"
  shows "\<exists>u off. inodes u = inodes s \<and> dirlookup dp name s = bindE (iget 1 (unat w) u) (\<lambda>(ip, u). Inr (Some (ip, off), u))"
proof -
  have f: "txn {} s" "is_file dp s" using assms by (simp_all add: fs_inv_def files_ok_def)
  obtain k where k: "dir_find (content dp s) name = Some k" "de_inum (ent (content dp s) k) = w" using assms(4) by (auto simp: dir_map_find)
  then show ?thesis using lookup_ok [OF f assms(3), of name] quietD(5) by fastforce
qed

lemma image_read:
  assumes "fs_inv s" "files_ok {i} s" "content i s = c"
  shows "\<exists>u. let bs = take (unat n) c in readi i None 0 n s = Inr (int (length bs), bs, u)"
proof -
  have f: "txn {} s" "is_file i s" using assms by (simp_all add: fs_inv_def files_ok_def)
  show ?thesis using readi_file [OF f, of 0 n] by (auto simp: assms(3) Let_def)
qed

text \<open>
  C5. The kernel reads what \<open>mkfs\<close> wrote, for files that fit on the disk (\<open>fits\<close>: at most 198 of them, no slash in
  a name, none longer than \<open>MAXFILE\<close> blocks, and enough blocks for all) and whose names, with \<open>.\<close> and \<open>..\<close>,
  differ in the bytes a directory entry keeps (the first 14), unless the entries fill whole blocks
  (\<open>plain_root\<close>; for 30 files, say, the root directory has a hole, see \<open>root_hole\<close>). In a transaction on the image, with any of its
  inodes in the cache, the
  invariant of the file system holds: the inodes are files with blocks of their own, none of them free for the allocator.
  \<open>dirlookup\<close> finds every file under its name in the root directory, and \<open>readi\<close> of the inode it finds returns the
  bytes of the host file.
\<close>

theorem kernel_reads_image:
  assumes "fits files" "plain_root files"
  shows "\<exists>t. mkfs_main files = Inr t \<and> (\<forall>s :: console. booted (img t) s \<longrightarrow>
    fs_inv s \<and>
    (\<forall>I num. (\<forall>i \<in> I. 0 < num i \<and> num i < length files + 2 \<and> loaded i (num i) s) \<and> inj_on num I \<longrightarrow> files_ok I s) \<and>
    (\<forall>dp. \<forall>k < length files. loaded dp ROOTINO s \<longrightarrow>
      (\<exists>u off. inodes u = inodes s \<and> dirlookup dp (stored_name (fst (files ! k))) s = bindE (iget 1 (2 + k) u) (\<lambda>(ip, u). Inr (Some (ip, off), u)))) \<and>
    (\<forall>i n. \<forall>k < length files. loaded i (2 + k) s \<longrightarrow>
      (\<exists>u. let bs = take (unat n) (concat (snd (files ! k))) in readi i None 0 n s = Inr (int (length bs), bs, u))))"
proof -
  obtain t where t: "mkfs_main files = Inr t \<and> (\<forall>s :: console. booted (img t) s \<longrightarrow>
    fs_inv s \<and>
    (\<forall>I num. (\<forall>i \<in> I. 0 < num i \<and> num i < length files + 2 \<and> loaded i (num i) s) \<and> inj_on num I \<longrightarrow> files_ok I s) \<and>
    (\<forall>dp. loaded dp ROOTINO s \<longrightarrow> is_dir dp s \<and>
      (\<forall>k < length files. dir_map (content dp s) (key (stored_name (fst (files ! k)))) = Some (of_nat (2 + k)))) \<and>
    (\<forall>i. \<forall>k < length files. loaded i (2 + k) s \<longrightarrow> content i s = concat (snd (files ! k))))"
    using image_files [OF assms] by (rule exE)
  have len: "length files + 2 \<le> 200" using assms(1) by (simp add: fits_def)
  show ?thesis
  proof (intro exI [of _ t] conjI allI impI)
    show "mkfs_main files = Inr t" by (rule conjunct1 [OF t])
    fix s :: console assume "booted (img t) s"
    note r = mp [OF spec [OF conjunct2 [OF t]] this]
    show inv: "fs_inv s" by (rule conjunct1 [OF r])
    note r = conjunct2 [OF r]
    show all: "files_ok I s" if "(\<forall>i \<in> I. 0 < num i \<and> num i < length files + 2 \<and> loaded i (num i) s) \<and> inj_on num I" for I and num :: "nat \<Rightarrow> nat"
      by (rule mp [OF spec [OF spec [OF conjunct1 [OF r]]] that])
    have one: "files_ok {i} s" if "loaded i m s" "0 < m" "m < length files + 2" for i m
      by (rule all [of _ "\<lambda>_. m"]) (use that in simp)
    note r = conjunct2 [OF r]
    show "\<exists>u off. inodes u = inodes s \<and> dirlookup dp (stored_name (fst (files ! k))) s = bindE (iget 1 (2 + k) u) (\<lambda>(ip, u). Inr (Some (ip, off), u))"
      if "k < length files" "loaded dp ROOTINO s" for dp k
    proof -
      have "is_dir dp s" "dir_map (content dp s) (key (stored_name (fst (files ! k)))) = Some (of_nat (2 + k))"
        using conjunct1 [OF r] that by blast+
      from image_lookup [OF inv one [OF that(2)] this] have "\<exists>u off. inodes u = inodes s \<and>
        dirlookup dp (stored_name (fst (files ! k))) s = bindE (iget 1 (unat (of_nat (2 + k) :: 16 word)) u) (\<lambda>(ip, u). Inr (Some (ip, off), u))"
        using that by simp
      moreover have "unat (of_nat (2 + k) :: 16 word) = 2 + k" unfolding unat_of_nat using that(1) len by (simp add: take_bit_eq_mod)
      ultimately show ?thesis by (simp only:)
    qed
    show "\<exists>u. let bs = take (unat n) (concat (snd (files ! k))) in readi i None 0 n s = Inr (int (length bs), bs, u)"
      if "k < length files" "loaded i (2 + k) s" for i n k
    proof (rule image_read [OF inv one [OF that(2)]])
      show "content i s = concat (snd (files ! k))" using conjunct2 [OF r] that by blast
    qed (use that(1) in simp_all)
  qed
qed

lemma load_again: "load_dinode d j (load_dinode d j ip) = load_dinode d j ip" "i_dev (load_dinode d j ip) = i_dev ip" "i_inum (load_dinode d j ip) = i_inum ip"
  by (simp_all add: load_dinode_def)

text \<open>An image with one file, and a kernel with its two inodes in the cache.\<close>

abbreviation one_file :: "(8 word list \<times> 8 word list list) list" where
  "one_file \<equiv> [([0x61], [[7]])]"

definition image_fs :: "(nat \<Rightarrow> block) \<Rightarrow> console" where
  "image_fs im = fresh_fs im (map (\<lambda>m. load_dinode (im (inode_block m)) (dinode_at m) (file_inode 0 m 0 0)) [1, 2])"

lemma one_file_fits: "fits one_file" "plain_root one_file"
proof -
  have k: "key [0x61] = [0x61]" "key [0x2E] = [0x2E]" "key [0x2E, 0x2E] = [0x2E, 0x2E]" by (simp_all add: key_def)
  show "fits one_file" by (simp add: fits_def cost_def nblks_def nmeta_def ninodeblocks_def nbitmap_def nlog_def)
  show "plain_root one_file" by (simp add: plain_root_def names_def stored_name_def k)
qed

lemma one_file_booted:
  assumes "im 1 = wr_words 0 superblock_bytes zeroes" "im 2 = zeroes"
  shows "booted im (image_fs im)" "loaded 0 1 (image_fs im)" "loaded 1 2 (image_fs im)"
proof -
  show "booted im (image_fs im)"
    using fresh_fs_txn [of im] unfolding booted_def image_fs_def assms(1) read_superblock by (simp add: assms(2) zeroes_def rd32_def)
  have ib: "IBLOCK m (fs_sb (image_fs im)) = inode_block m" for m by (simp add: image_fs_def inode_block_def nlog_def)
  show "loaded 0 1 (image_fs im)" "loaded 1 2 (image_fs im)"
    unfolding loaded_def ib by (simp_all add: image_fs_def load_again file_inode_def)
qed

theorem kernel_reads_image_witness:
  "\<exists>t s u v off. mkfs_main one_file = Inr t \<and> booted (img t) s \<and> loaded 0 1 s \<and> loaded 1 2 s \<and> files_ok {0, 1} (s :: console) \<and>
    dirlookup 0 [0x61] s = Inr (Some (1, off), u) \<and> readi 1 None 0 512 s = Inr (1, [7], v)"
proof -
  let ?fs = one_file
  note f = one_file_fits
  obtain u where u: "mkfs_main ?fs = Inr u" "img u 1 = wr_words 0 superblock_bytes zeroes" "img u 2 = zeroes" using mkfs_main_ok [OF f(1)] by blast
  define s where "s = image_fs (img u)"
  note o = one_file_booted [OF u(2,3), folded s_def]
  have b: "booted (img u) s" and l: "loaded 0 1 s" "loaded 1 2 s" by (rule o)+
  obtain t where t: "mkfs_main ?fs = Inr t \<and> (\<forall>s :: console. booted (img t) s \<longrightarrow> fs_inv s \<and>
    (\<forall>I num. (\<forall>i \<in> I. 0 < num i \<and> num i < length ?fs + 2 \<and> loaded i (num i) s) \<and> inj_on num I \<longrightarrow> files_ok I s) \<and>
    (\<forall>dp. \<forall>k < length ?fs. loaded dp ROOTINO s \<longrightarrow>
      (\<exists>u off. inodes u = inodes s \<and> dirlookup dp (stored_name (fst (?fs ! k))) s = bindE (iget 1 (2 + k) u) (\<lambda>(ip, u). Inr (Some (ip, off), u)))) \<and>
    (\<forall>i n. \<forall>k < length ?fs. loaded i (2 + k) s \<longrightarrow>
      (\<exists>u. let bs = take (unat n) (concat (snd (?fs ! k))) in readi i None 0 n s = Inr (int (length bs), bs, u))))"
    using kernel_reads_image [OF f] by (rule exE)
  have "t = u" using conjunct1 [OF t] u(1) by simp
  note r = mp [OF spec [OF conjunct2 [OF t]] b [folded this], THEN conjunct2]
  have z: "0 < length ?fs" by simp
  have num: "(\<forall>i \<in> {0, 1}. 0 < Suc i \<and> Suc i < length ?fs + 2 \<and> loaded i (Suc i) s) \<and> inj_on Suc {0, 1}"
    using l by (auto simp: numeral_2_eq_2)
  have ok: "files_ok {0, 1} s" by (rule mp [OF spec [OF spec [OF conjunct1 [OF r]]] num])
  have l2: "loaded 1 (2 + 0) s" using l(2) by simp
  obtain v off where v: "inodes v = inodes s" "dirlookup 0 (stored_name (fst (?fs ! 0))) s = bindE (iget 1 (2 + 0) v) (\<lambda>(ip, u). Inr (Some (ip, off), u))"
    using conjunct1 [OF conjunct2 [OF r]] z l(1) by blast
  have refs: "i_ref (inodes s ! 0) = 1" "i_ref (inodes s ! 1) = 1" by (simp_all add: s_def image_fs_def load_dinode_def file_inode_def)
  have e: "inodes v = [inodes s ! 0, inodes s ! 1]" by (simp add: v(1) s_def image_fs_def)
  have hit: "first_idx (\<lambda>ip. i_ref ip > 0 \<and> i_dev ip = 1 \<and> i_inum ip = 2) (inodes v) = Some 1"
    unfolding e using refs l by (simp add: loaded_def)
  then have look: "\<exists>w. dirlookup 0 [0x61] s = Inr (Some (1, off), w)" using v(2) by (simp add: iget_def stored_name_def)
  have "\<exists>w. readi 1 None 0 512 s = Inr (1, [7], w)"
    using conjunct2 [OF conjunct2 [OF r], THEN spec [of _ 1], THEN spec [of _ 512], THEN spec [of _ 0]] z l2 by (simp add: Let_def)
  then show ?thesis using u(1) b l ok look by blast
qed

end
