(* ===== verification/Atomic.thy ===== *)
theory Atomic
  imports Image
begin

text \<open>
  The log under the file system: a write to a file and a crash. What a file is for the next boot is read from the disk, its
  inode included; the theorem is that it is the old content or the new one, for every number of block
  writes of the commit that the disk has seen.
\<close>

section \<open>Files on a disk\<close>

definition disk_inode :: "(nat \<Rightarrow> block) \<Rightarrow> nat \<Rightarrow> dinode" where
  "disk_inode im inum = get_dinode (im (IBLOCK inum (read_sb (im 1)))) (dinode_at inum)"

definition disk_file :: "(nat \<Rightarrow> block) \<Rightarrow> nat \<Rightarrow> 8 word list" where
  "disk_file im inum = (let di = disk_inode im inum in fbytes im (d_addrs di) (unat (d_size di)))"

text \<open>The inodes in the slots \<open>I\<close> are those of the disk, as it is seen through the cache.\<close>

abbreviation inum_of :: "nat \<Rightarrow> 'a fsst_scheme \<Rightarrow> nat" where
  "inum_of i s \<equiv> i_inum (inodes s ! i)"

definition synced :: "nat set \<Rightarrow> 'a fsst_scheme \<Rightarrow> bool" where
  "synced I s \<longleftrightarrow> (\<forall>i \<in> I. loaded i (inum_of i s) s) \<and> inj_on (\<lambda>i. inum_of i s) I \<and> fs_sb s = read_sb (view_block s 1)"

lemma disk_inode_loaded:
  assumes "loaded i (inum_of i s) s" "fs_sb s = read_sb (view_block s 1)"
  shows "d_size (disk_inode (view_block s) (inum_of i s)) = i_size (inodes s ! i)" "d_addrs (disk_inode (view_block s) (inum_of i s)) = addrs_of i s"
proof -
  let ?d = "get_dinode (view_block s (IBLOCK (inum_of i s) (fs_sb s))) (dinode_at (inum_of i s))"
  have di: "disk_inode (view_block s) (inum_of i s) = ?d" by (simp add: disk_inode_def assms(2))
  have e: "load_dinode (view_block s (IBLOCK (inum_of i s) (fs_sb s))) (dinode_at (inum_of i s)) (inodes s ! i) = inodes s ! i"
    using assms(1) by (simp add: loaded_def)
  have "i_size (inodes s ! i) = d_size ?d" "addrs_of i s = d_addrs ?d" by (subst e [symmetric], simp only: load_get, simp)+
  then show "d_size (disk_inode (view_block s) (inum_of i s)) = i_size (inodes s ! i)" "d_addrs (disk_inode (view_block s) (inum_of i s)) = addrs_of i s"
    unfolding di by simp_all
qed

lemma disk_file_content: "loaded i (inum_of i s) s \<Longrightarrow> fs_sb s = read_sb (view_block s 1) \<Longrightarrow> disk_file (view_block s) (inum_of i s) = content i s"
  using disk_inode_loaded [of i s] by (simp add: disk_file_def Let_def content_def)

text \<open>It depends on the super block, the inode and the blocks of the file.\<close>

lemma disk_file_frame:
  assumes inv: "fs_inv s" and f: "is_file i s" and l: "loaded i (inum_of i s) s" and sb: "fs_sb s = read_sb (view_block s 1)"
    and same: "\<And>b. b \<notin> log_area s \<Longrightarrow> im b = view_block s b" and out: "0 \<notin> log_area s" "1 \<notin> log_area s"
  shows "disk_file im (inum_of i s) = content i s"
proof -
  have lo: "layout_ok s" using inv by (simp add: fs_inv_def)
  note d = is_fileD [OF f] and fd = file_okD [OF is_fileD(1) [OF f]]
  have ib: "im (IBLOCK (inum_of i s) (fs_sb s)) = view_block s (IBLOCK (inum_of i s) (fs_sb s))"
    by (rule same) (rule usableD(3) [OF layout_okD(2) [OF lo fd(4)]])
  have di: "disk_inode im (inum_of i s) = disk_inode (view_block s) (inum_of i s)"
    using ib same [OF out(2)] sb by (simp add: disk_inode_def)
  have "\<And>b. b \<in> own_blocks i (nblks (size_of i s)) s \<Longrightarrow> im b = view_block s b"
    using same blocks_sub [OF fd(3)] takenD(3) by blast
  note m = map_frame(5) [where im' = im and im = "view_block s", OF this same [OF out(1)] d(4)]
  show ?thesis
    unfolding disk_file_def di Let_def disk_inode_loaded [OF l sb] content_def by (rule m)
qed

section \<open>A write keeps the cache and the disk the same\<close>

definition dinode_of :: "inode \<Rightarrow> dinode" where
  "dinode_of ip = \<lparr>d_type = i_type ip, d_major = i_major ip, d_minor = i_minor ip, d_nlink = i_nlink ip, d_size = i_size ip, d_addrs = i_addrs ip\<rparr>"

lemma store_put: "store_dinode ip j d = put_dinode (dinode_of ip) j d"
  by (simp add: store_dinode_def put_dinode_def dinode_of_def)

lemma load_stored: "length (i_addrs ip) = 13 \<Longrightarrow> load_dinode (store_dinode ip j d) j ip = ip"
  unfolding store_put load_get by (subst get_put_dinode, simp add: dinode_of_def)+ (simp add: dinode_of_def)

lemma load_other:
  assumes len: "length (i_addrs ip) = 13" and ne: "m \<noteq> k" "m div 8 = k div 8"
  shows "load_dinode (store_dinode ip (dinode_at m) d) (dinode_at k) jp = load_dinode d (dinode_at k) jp"
proof -
  have "get_dinode (put_dinode (dinode_of ip) (dinode_at m) d) (dinode_at k) = get_dinode d (dinode_at k)"
  proof (rule get_dinode_cong, rule put_dinode_off)
    show "length (d_addrs (dinode_of ip)) = 13" using len by (simp add: dinode_of_def)
    fix b assume "dinode_at k \<le> b" "b < dinode_at k + 64"
    then show "b < dinode_at m \<or> dinode_at m + 64 \<le> b" using inode_slots [OF ne] by (auto simp: dinode_at_def)
  qed
  then show ?thesis by (simp add: store_put load_get)
qed

lemma synced_kept:
  assumes inv: "fs_inv s" and I: "files_ok I s" "i \<in> I" and y: "synced I s" and a: "apart i s t" and fl: "filed i s t" and f: "is_file i t"
    and one: "1 \<notin> log_area s"
  shows "synced I t"
proof -
  have lo: "layout_ok s" using inv by (simp add: fs_inv_def)
  have k: "same_but i s t" using a by (simp add: apart_def)
  note kd = same_butD [OF k]
  have num: "inum_of j t = inum_of j s" for j using kd(5,7) by (cases "j = i") auto
  have fj: "is_file j s" if "j \<in> I" for j using I(1) that by (simp add: files_ok_def)
  have len: "length (addrs_of i t) = 13" by (rule mappedD(1) [OF file_okD(3) [OF is_fileD(1) [OF f]]])
  have "loaded j (inum_of j t) t" if j: "j \<in> I" for j
  proof -
    have l: "loaded j (inum_of j s) s" using y j by (simp add: synced_def)
    have lj: "j < length (inodes s)" "i_dev (inodes s ! j) = 1"
      "load_dinode (view_block s (IBLOCK (inum_of j s) (fs_sb s))) (dinode_at (inum_of j s)) (inodes s ! j) = inodes s ! j"
      using l by (simp_all add: loaded_def)
    let ?b = "IBLOCK (inum_of j s) (fs_sb s)"
    have b: "?b \<in> i_blocks (fs_sb s)" by (rule file_okD(4) [OF is_fileD(1) [OF fj [OF j]]])
    have "load_dinode (view_block t ?b) (dinode_at (inum_of j s)) (inodes t ! j) = inodes t ! j"
    proof (cases "inodes t = inodes s \<and> (\<forall>b \<in> i_blocks (fs_sb s). view_block t b = view_block s b)")
      case True
      then show ?thesis using lj(3) b by simp
    next
      case False
      then have "\<forall>b \<in> i_blocks (fs_sb s). view_block t b = put_inode i t (view_block s) b" using fl unfolding filed_def by blast
      then have v: "view_block t ?b = put_inode i t (view_block s) ?b" using b by blast
      show ?thesis
      proof (cases "j = i")
        case True
        then show ?thesis unfolding v using load_stored [OF len] by (simp add: put_inode_def Let_def kd(1) num)
      next
        case ji: False
        have e: "inodes t ! j = inodes s ! j" by (rule kd(5) [OF ji])
        show ?thesis
        proof (cases "?b = IBLOCK (inum_of i s) (fs_sb s)")
          case True
          have ne: "inum_of i s \<noteq> inum_of j s" using y I(2) j ji by (auto simp: synced_def inj_on_def)
          have "inum_of i s div 8 = inum_of j s div 8" using True by simp
          note o = load_other [OF len ne this]
          show ?thesis unfolding v e using o lj(3) True by (simp add: put_inode_def Let_def kd(1) num)
        next
          case False
          then show ?thesis unfolding v e using lj(3) by (simp add: put_inode_def Let_def kd(1) num)
        qed
      qed
    qed
    then show ?thesis using lj(1,2) kd(4,5,6) num by (cases "j = i") (auto simp: loaded_def kd(1))
  qed
  moreover have "inj_on (\<lambda>i. inum_of i t) I" using y by (simp add: synced_def num)
  moreover have "view_block t 1 = view_block s 1"
  proof -
    have "1 \<notin> usable s" by (simp add: usable_def)
    moreover have "own_blocks i (nblks (size_of i s)) s \<subseteq> usable s"
      using blocks_sub [OF file_okD(3) [OF is_fileD(1) [OF fj [OF I(2)]]]] by (auto simp: taken_def)
    ultimately show ?thesis using a layout_okD(1,2,4) [OF lo, of 1] unfolding apart_def by blast
  qed
  ultimately show ?thesis using y kd(1) by (simp add: synced_def)
qed

section \<open>The machine stops\<close>

text \<open>A transaction has just begun, on a disk with a good log.\<close>

definition begun :: "'a fsst_scheme \<Rightarrow> bool" where
  "begun s \<longleftrightarrow> l_blocks s = [] \<and> 1 \<notin> log_area s \<and> good_log (l_start s) (l_size s) (disksize s) (disk s)"

lemma begun_view:
  assumes "fs_inv s" "begun s"
  shows "view_block s = disk s" "0 \<notin> log_area s" "1 \<notin> log_area s"
proof -
  have t: "txn {} s" using assms(1) by (simp add: fs_inv_def)
  note l = txnD(3) [OF t]
  show one: "1 \<notin> log_area s" using assms(2) by (simp add: begun_def)
  have "view_block s b = disk s b" for b
    by (rule clean_view [OF txnD(1) [OF t]]) (use log_okD(11) [OF l] assms(2) in \<open>simp add: begun_def\<close>)
  then show "view_block s = disk s" by blast
  show "0 \<notin> log_area s" using one log_okD(3) [OF l] by (auto simp: log_area_def)
qed

text \<open>
  What a boot finds of the files when the machine has stopped after \<open>k\<close> block writes of the commit of a transaction that
  began in \<open>s\<close> and ended in \<open>t\<close>: all files as they were, or all as the transaction left them.
\<close>

lemma crash_files:
  assumes s: "fs_inv s" "files_ok I s" "synced I s" "begun s" and t: "fs_inv t" "files_ok I t" "synced I t" "same_but i s t"
    and c: "fresh c" "disksize c = disksize t" "disk c = apply_writes (take k (commit_writes t)) (disk t)"
  shows "\<exists>u v. commit t = Inr u \<and> dwrites u = dwrites t @ commit_writes t \<and> initlog 1 c = Inr v \<and> log_inv v \<and>
    (\<forall>j \<in> I. disk_file (view_block v) (inum_of j s) = (if k \<le> length (l_blocks t) then content j s else content j t))"
proof -
  note b = begun_view [OF s(1,4)]
  have tt: "txn {} t" using t(1) by (simp add: fs_inv_def)
  have same: "disk t = disk s" "log_area t = log_area s" "l_start t = l_start s" "l_size t = l_size s" "disksize t = disksize s"
    using t(4) same_butD(9) [OF t(4)] by (simp_all add: same_but_def)
  have g: "good_log (l_start t) (l_size t) (disksize t) (disk t)" "1 \<notin> log_area t" using s(4) by (simp_all add: begun_def same)
  have one: "1 \<notin> set (l_blocks t)" using log_okD(8) [OF txnD(3) [OF tt], of 1] by blast
  obtain u v where v: "commit t = Inr u" "dwrites u = dwrites t @ commit_writes t" "initlog 1 c = Inr v" "log_inv v"
    "\<And>b. b \<notin> log_area t \<Longrightarrow> view_block v b = (if k \<le> length (l_blocks t) then disk t b else view_block t b)"
    using commit_crash [OF txn_log_inv [OF tt] g one c] by blast
  have "disk_file (view_block v) (inum_of j s) = (if k \<le> length (l_blocks t) then content j s else content j t)" if j: "j \<in> I" for j
  proof (cases "k \<le> length (l_blocks t)")
    case True
    have f: "is_file j s" "loaded j (inum_of j s) s" "fs_sb s = read_sb (view_block s 1)"
      using s(2,3) j by (simp_all add: files_ok_def synced_def)
    have "disk_file (view_block v) (inum_of j s) = content j s"
      by (rule disk_file_frame [OF s(1) f _ b(2,3)]) (use v(5) True b(1) same in simp)
    then show ?thesis using True by simp
  next
    case False
    have f: "is_file j t" "loaded j (inum_of j t) t" "fs_sb t = read_sb (view_block t 1)"
      using t(2,3) j by (simp_all add: files_ok_def synced_def)
    have "disk_file (view_block v) (inum_of j t) = content j t"
      by (rule disk_file_frame [OF t(1) f]) (use v(5) False b(2,3) same in simp_all)
    moreover have "inum_of j t = inum_of j s" using same_butD(5,7) [OF t(4)] by (cases "j = i") auto
    ultimately show ?thesis using False by simp
  qed
  then show ?thesis using v(1-4) by blast
qed

text \<open>
  C1. Writes to files are atomic. Let \<open>writei\<close> be called in a transaction that has just begun, and the machine stop
  after any number \<open>k\<close> of the block writes with which \<open>end_op\<close> commits it. Then the next boot's \<open>initlog\<close> returns,
  and every file, read from the disk through the inode that is there, has the content it had before, or all of them have
  the content after the write, that is \<open>q\<close> at \<open>off\<close> in the file written, with its new size.
\<close>

theorem write_crash_atomic:
  assumes "fs_inv s" "files_ok I s" "i \<in> I" "unat off \<le> size_of i s" "unat off + length q \<le> MAXFILE * BSIZE"
    and "unat n = length q" "affordable i (unat off) (length q) s" "synced I s" "begun s"
  shows "\<exists>t. writei i (Inr q) off n s = Inr (int (length q), t) \<and>
    (\<forall>k. \<forall>c :: console. fresh c \<and> disksize c = disksize s \<and> disk c = apply_writes (take k (commit_writes t)) (disk s) \<longrightarrow>
       (\<exists>u v. commit t = Inr u \<and> dwrites u = dwrites t @ commit_writes t \<and> initlog 1 c = Inr v \<and> log_inv v \<and>
          (\<forall>j \<in> I. disk_file (view_block v) (inum_of j s) =
             (if j = i \<and> length (l_blocks t) < k then overwrite (unat off) q (content j s) else content j s))))"
proof -
  obtain t where t: "writei i (Inr q) off n s = Inr (int (length q), t)" "fs_inv t" "files_ok I t"
    "\<And>j. j \<in> I \<Longrightarrow> content j t = (if j = i then overwrite (unat off) q (content i s) else content j s)" "same_but i s t"
    "apart i s t" "filed i s t"
    using writei_file [OF assms(1-7)] by metis
  have "is_file i t" using t(3) assms(3) by (simp add: files_ok_def)
  then have y: "synced I t" by (rule synced_kept [OF assms(1-3,8) t(6,7) _ begun_view(3) [OF assms(1,9)]])
  have d: "disksize t = disksize s" "disk t = disk s" using t(5) by (simp_all add: same_but_def)
  show ?thesis
  proof (rule exI [of _ t], intro conjI allI impI)
    fix k and c :: console
    assume c: "fresh c \<and> disksize c = disksize s \<and> disk c = apply_writes (take k (commit_writes t)) (disk s)"
    obtain u v where v: "commit t = Inr u" "dwrites u = dwrites t @ commit_writes t" "initlog 1 c = Inr v" "log_inv v"
      "\<forall>j \<in> I. disk_file (view_block v) (inum_of j s) = (if k \<le> length (l_blocks t) then content j s else content j t)"
      using crash_files [OF assms(1,2,8,9) t(2,3) y t(5), of c k] c d by auto
    have "\<forall>j \<in> I. disk_file (view_block v) (inum_of j s) =
         (if j = i \<and> length (l_blocks t) < k then overwrite (unat off) q (content j s) else content j s)"
      using v(5) t(4) by auto
    then show "\<exists>u v. commit t = Inr u \<and> dwrites u = dwrites t @ commit_writes t \<and> initlog 1 c = Inr v \<and> log_inv v \<and>
      (\<forall>j \<in> I. disk_file (view_block v) (inum_of j s) =
         (if j = i \<and> length (l_blocks t) < k then overwrite (unat off) q (content j s) else content j s))"
      using v(1-4) by blast
  qed (rule t(1))
qed


section \<open>On the image of mkfs\<close>

lemma fresh_fs_fresh: "fresh (fresh_fs d ips)"
proof -
  have h: "\<not> holds b i (fresh_fs d ips)" for b i by (cases "i < NBUF") (simp_all add: holds_def)
  have "bio_inv (fresh_fs d ips) {}" unfolding bio_inv_def by (auto simp: h)
  then show ?thesis by (simp add: fresh_def)
qed

lemma one_file_state:
  obtains u where "mkfs_main one_file = Inr u" "fs_inv (image_fs (img u))" "files_ok {0, 1} (image_fs (img u))"
    "content 1 (image_fs (img u)) = [7]" "synced {0, 1} (image_fs (img u))" "begun (image_fs (img u))"
proof -
  obtain u where u: "mkfs_main one_file = Inr u" "img u 1 = wr_words 0 superblock_bytes zeroes" "img u 2 = zeroes"
    using mkfs_main_ok [OF one_file_fits(1)] by blast
  define s where "s = image_fs (img u)"
  note o = one_file_booted [OF u(2,3), folded s_def]
  obtain t where t: "mkfs_main one_file = Inr t \<and> (\<forall>s :: console. booted (img t) s \<longrightarrow>
    fs_inv s \<and>
    (\<forall>I num. (\<forall>i \<in> I. 0 < num i \<and> num i < length one_file + 2 \<and> loaded i (num i) s) \<and> inj_on num I \<longrightarrow> files_ok I s) \<and>
    (\<forall>dp. loaded dp ROOTINO s \<longrightarrow> is_dir dp s \<and>
      (\<forall>k < length one_file. dir_map (content dp s) (key (stored_name (fst (one_file ! k)))) = Some (of_nat (2 + k)))) \<and>
    (\<forall>i. \<forall>k < length one_file. loaded i (2 + k) s \<longrightarrow> content i s = concat (snd (one_file ! k))))"
    using image_files [OF one_file_fits] by (rule exE)
  have "t = u" using conjunct1 [OF t] u(1) by simp
  note r = mp [OF spec [OF conjunct2 [OF t]] o(1) [folded this]]
  have num: "(\<forall>i \<in> {0, 1}. 0 < Suc i \<and> Suc i < length one_file + 2 \<and> loaded i (Suc i) s) \<and> inj_on Suc {0, 1}"
    using o by (auto simp: numeral_2_eq_2)
  have ok: "fs_inv s" "files_ok {0, 1} s" using conjunct1 [OF r] mp [OF spec [OF spec [OF conjunct1 [OF conjunct2 [OF r]]]] num] by blast+
  have "loaded 1 (2 + 0) s" using o(3) by simp
  then have c: "content 1 s = [7]" using conjunct2 [OF conjunct2 [OF conjunct2 [OF r]], THEN spec [of _ 1], THEN spec [of _ 0]] by simp
  have n: "inum_of 0 s = 1" "inum_of 1 s = 2" using o(2,3) by (simp_all add: loaded_def)
  then have y: "synced {0, 1} s" using o by (simp add: synced_def booted_def)
  have r: "rd32 (img u 1) 16 = 2" "rd32 (img u 1) 12 = 30" "rd32 (img u 2) 0 = 0"
    using read_superblock [of zeroes] unfolding u(2,3) by (simp_all add: read_sb_def zeroes_def rd32_def)
  have "begun s"
    unfolding begun_def good_log_def s_def image_fs_def fresh_fs_simps r by (simp add: r head_blocks_def)
  then show ?thesis using that [of u] u(1) ok c y by (simp only: s_def)
qed

theorem write_crash_atomic_witness:
  "\<exists>u s t. mkfs_main one_file = Inr u \<and> s = image_fs (img u) \<and> writei 1 (Inr [8]) 1 1 s = Inr (1, t) \<and>
    (\<forall>k. \<exists>v. initlog 1 (fresh_fs (apply_writes (take k (commit_writes t)) (img u)) []) = Inr v \<and>
       disk_file (view_block v) 2 = (if length (l_blocks t) < k then [7, 8] else [7]))"
proof -
  obtain u where u: "mkfs_main one_file = Inr u" "fs_inv (image_fs (img u))" "files_ok {0, 1} (image_fs (img u))"
    "content 1 (image_fs (img u)) = [7]" "synced {0, 1} (image_fs (img u))" "begun (image_fs (img u))"
    by (rule one_file_state)
  define s where "s = image_fs (img u)"
  have len: "size_of 1 s = 1" using length_content [of 1 s] unfolding s_def u(4) by simp
  have i: "(1 :: nat) \<in> {0, 1}" by simp
  have num: "inum_of 1 s = 2" by (simp add: s_def image_fs_def load_again file_inode_def)
  have as: "l_blocks s = []" "disk s = img u" "disksize s = 1000" by (simp_all add: s_def image_fs_def)
  have "to_log 1 s \<subseteq> {IBLOCK (inum_of 1 s) (fs_sb s), ind_of (addrs_of 1 s)}" by (auto simp: to_log_def as)
  then have "card (to_log 1 s) \<le> card {IBLOCK (inum_of 1 s) (fs_sb s), ind_of (addrs_of 1 s)}" by (intro card_mono) simp
  then have "card (to_log 1 s) + 1 \<le> 28" using card_insert2 [of "IBLOCK (inum_of 1 s) (fs_sb s)" "ind_of (addrs_of 1 s)" "{}"] by simp
  moreover have "nblks (size_of 1 s) = 1" "nblks (unat (1 :: 32 word) + length [8 :: 8 word]) = 1" unfolding len by (simp_all add: nblks_def)
  ultimately have "affordable 1 (unat (1 :: 32 word)) (length [8 :: 8 word]) s"
    unfolding affordable_def Let_def ind_cost_def touched_def by simp
  then obtain t where t: "writei 1 (Inr [8]) 1 1 s = Inr (int (length [8 :: 8 word]), t)"
    "\<forall>k. \<forall>c :: console. fresh c \<and> disksize c = disksize s \<and> disk c = apply_writes (take k (commit_writes t)) (disk s) \<longrightarrow>
       (\<exists>u v. commit t = Inr u \<and> dwrites u = dwrites t @ commit_writes t \<and> initlog 1 c = Inr v \<and> log_inv v \<and>
          (\<forall>j \<in> {0, 1}. disk_file (view_block v) (inum_of j s) =
             (if j = 1 \<and> length (l_blocks t) < k then overwrite (unat (1 :: 32 word)) [8] (content j s) else content j s)))"
    using write_crash_atomic [OF u(2,3) i, of 1 "[8]" 1] u(5,6) len unfolding s_def [symmetric] by auto
  have "\<exists>v. initlog 1 (fresh_fs (apply_writes (take k (commit_writes t)) (img u)) []) = Inr v \<and>
       disk_file (view_block v) 2 = (if length (l_blocks t) < k then [7, 8] else [7])" for k
  proof -
    let ?c = "fresh_fs (apply_writes (take k (commit_writes t)) (img u)) []"
    have "fresh ?c \<and> disksize ?c = disksize s \<and> disk ?c = apply_writes (take k (commit_writes t)) (disk s)"
      using fresh_fs_fresh as by simp
    note c = mp [OF spec [OF spec [OF t(2), of k], of ?c] this]
    then obtain v where "initlog 1 ?c = Inr v"
      "disk_file (view_block v) (inum_of 1 s) = (if 1 = (1 :: nat) \<and> length (l_blocks t) < k then overwrite (unat (1 :: 32 word)) [8] (content 1 s) else content 1 s)"
      using i by blast
    then show ?thesis using u(4) unfolding num s_def [symmetric] by (auto simp: overwrite_def)
  qed
  then show ?thesis using u(1) t(1) s_def by auto
qed

end
