(* ===== verification/Mp.thy ===== *)
theory Mp
  imports Mem Mmu
begin

text \<open>
  The tables of the BIOS that describe the processors (\<open>mp.c\<close>, \<open>mp.h\<close>): the search for the floating pointer structure,
  the checks of the configuration table, and \<open>mpinit\<close>, which walks over its entries. The walk may not end, so it is a partial
  function: \<open>None\<close> is that it does not return.
\<close>

unbundle bit_operations_syntax

section \<open>Looking for the tables\<close>

text \<open>The sum is an \<open>int\<close> and its low byte is the result.\<close>

definition sum_bytes :: "mem \<Rightarrow> 32 word \<Rightarrow> nat \<Rightarrow> 8 word" where
  "sum_bytes m addr len = word_of_int (foldl (\<lambda>s i. s + uint (view m addr i)) 0 [0..<len])"

definition signature :: "string \<Rightarrow> nat \<Rightarrow> 8 word" where
  "signature s i = of_char (s ! i)"

text \<open>\<open>p\<close> takes the values from \<open>addr\<close> on in steps of a structure's 16 bytes, as long as it is below \<open>addr + len\<close>.\<close>

definition mpsearch1 :: "mem \<Rightarrow> 32 word \<Rightarrow> nat \<Rightarrow> 32 word option" where
  "mpsearch1 m a len =
     find (\<lambda>p. memcmp (view m p) (signature ''_MP_'') 4 = 0 \<and> sum_bytes m p 16 = 0)
       (map (\<lambda>k. P2V a + of_nat (16 * k)) [0..<(len + 15) div 16])"

definition mpsearch :: "mem \<Rightarrow> 32 word option" where
  "mpsearch m =
     (let bda = P2V 0x400; p = push_bit 4 (read16 m (bda + 0x0E)); q = read16 m (bda + 0x13) * 1024
      in case (if p \<noteq> 0 then mpsearch1 m p 1024 else mpsearch1 m (q - 1024) 1024) of
           Some mp \<Rightarrow> Some mp
         | None \<Rightarrow> mpsearch1 m 0xF0000 0x10000)"

definition mpconfig :: "mem \<Rightarrow> (32 word \<times> 32 word) option" where
  "mpconfig m =
     (case mpsearch m of
        None \<Rightarrow> None
      | Some mp \<Rightarrow>
          if read32 m (mp + 4) = 0 then None
          else
            let conf = P2V (read32 m (mp + 4))
            in if memcmp (view m conf) (signature ''PCMP'') 4 \<noteq> 0 then None
               else if m (conf + 6) \<noteq> 1 \<and> m (conf + 6) \<noteq> 4 then None
               else if sum_bytes m conf (unat (read16 m (conf + 4))) \<noteq> 0 then None
               else Some (mp, conf))"

section \<open>The entries\<close>

abbreviation NCPU :: nat where "NCPU \<equiv> 8"

text \<open>The identifiers in \<open>cpus[0..ncpu-1]\<close>, the other variables set here, and the bytes sent to ports.\<close>

record mps =
  apicids :: "8 word list"
  ioapicid :: "8 word"
  lapic :: "32 word"
  sent :: "(nat \<times> 8 word) list"

text \<open>One round of the loop, for the entry at \<open>p\<close>: the next value of \<open>p\<close>, of \<open>ismp\<close> and of the variables. The
  \<open>break\<close> of the default case leaves the switch only, and \<open>p\<close> stays where it is.\<close>

definition mp_entry :: "mem \<Rightarrow> 32 word \<Rightarrow> bool \<Rightarrow> mps \<Rightarrow> 32 word \<times> bool \<times> mps" where
  "mp_entry m p ismp s =
     (if m p = 0 then (p + 20, ismp, if length (apicids s) < NCPU then s\<lparr>apicids := apicids s @ [m (p + 1)]\<rparr> else s)
      else if m p = 2 then (p + 8, ismp, s\<lparr>ioapicid := m (p + 1)\<rparr>)
      else if m p = 1 \<or> m p = 3 \<or> m p = 4 then (p + 8, ismp, s)
      else (p, False, s))"

partial_function (option) mp_entries :: "mem \<Rightarrow> 32 word \<Rightarrow> 32 word \<Rightarrow> bool \<Rightarrow> mps \<Rightarrow> (bool \<times> mps) option" where
  "mp_entries m p e ismp s =
     (if p < e then (case mp_entry m p ismp s of (p, ismp, s) \<Rightarrow> mp_entries m p e ismp s) else Some (ismp, s))"

text \<open>\<open>imcr\<close> is what the port 0x23 reads as.\<close>

definition mpinit :: "mem \<Rightarrow> 8 word \<Rightarrow> mps \<Rightarrow> mps res option" where
  "mpinit m imcr s =
     (case mpconfig m of
        None \<Rightarrow> Some (Inl (Panic ''Expect to run on an SMP''))
      | Some (mp, conf) \<Rightarrow>
          (case mp_entries m (conf + 44) (conf + read16 m (conf + 4)) True (s\<lparr>lapic := read32 m (conf + 36)\<rparr>) of
             None \<Rightarrow> None
           | Some (ismp, s) \<Rightarrow> Some
               (if \<not> ismp then Inl (Panic ''Didn't find a suitable machine'')
                else if m (mp + 12) \<noteq> 0 then Inr (s\<lparr>sent := sent s @ [(0x22, 0x70), (0x23, imcr OR 1)]\<rparr>)
                else Inr s)))"

section \<open>The search\<close>

lemma view_add: "view m (p + of_nat k) i = view m p (k + i)"
  by (simp add: view_def add.assoc)

definition is_mp :: "mem \<Rightarrow> 32 word \<Rightarrow> bool" where
  "is_mp m p \<longleftrightarrow> (\<forall>i < 4. m (p + of_nat i) = of_char (''_MP_'' ! i)) \<and> sum_bytes m p 16 = 0"

lemma mp_test: "memcmp (view m p) (signature ''_MP_'') 4 = 0 \<and> sum_bytes m p 16 = 0 \<longleftrightarrow> is_mp m p"
  by (simp only: memcmp_0_iff is_mp_def view_def signature_def)

lemma mpsearch1_finds:
  "mpsearch1 m a len = Some p \<longleftrightarrow>
     (\<exists>k < (len + 15) div 16. p = P2V a + of_nat (16 * k) \<and> is_mp m p \<and> (\<forall>j < k. \<not> is_mp m (P2V a + of_nat (16 * j))))"
  unfolding mpsearch1_def mp_test find_Some_iff by auto

lemma mpsearch1_none: "mpsearch1 m a len = None \<longleftrightarrow> (\<forall>k < (len + 15) div 16. \<not> is_mp m (P2V a + of_nat (16 * k)))"
  unfolding mpsearch1_def mp_test find_None_iff by auto

section \<open>The walk over the entries\<close>

text \<open>What the entries say, and how they lie in memory.\<close>

datatype entry = Processor "8 word" | Ioapic "8 word" | Other "8 word"

fun width :: "entry \<Rightarrow> nat" where
  "width (Processor a) = 20"
| "width _ = 8"

fun entry_at :: "mem \<Rightarrow> 32 word \<Rightarrow> entry \<Rightarrow> bool" where
  "entry_at m p (Processor a) = (m p = 0 \<and> m (p + 1) = a)"
| "entry_at m p (Ioapic a) = (m p = 2 \<and> m (p + 1) = a)"
| "entry_at m p (Other ty) = (m p = ty \<and> ty \<in> {1, 3, 4})"

fun table :: "mem \<Rightarrow> 32 word \<Rightarrow> entry list \<Rightarrow> bool" where
  "table m p [] = True"
| "table m p (x # xs) = (entry_at m p x \<and> table m (p + of_nat (width x)) xs)"

fun take_entry :: "mps \<Rightarrow> entry \<Rightarrow> mps" where
  "take_entry s (Processor a) = (if length (apicids s) < NCPU then s\<lparr>apicids := apicids s @ [a]\<rparr> else s)"
| "take_entry s (Ioapic a) = s\<lparr>ioapicid := a\<rparr>"
| "take_entry s (Other _) = s"

lemma mp_entry_at: "entry_at m p x \<Longrightarrow> mp_entry m p b s = (p + of_nat (width x), b, take_entry s x)"
  by (cases x) (auto simp: mp_entry_def)

lemma unat_add_small: "unat p + k < 2 ^ 32 \<Longrightarrow> unat (p + of_nat k) = unat p + k" for p :: "32 word"
proof -
  assume k: "unat p + k < 2 ^ 32"
  then have e: "unat (of_nat k :: 32 word) = k" by (simp add: unat_of_nat take_bit_eq_mod)
  have "unat (p + of_nat k) = unat p + unat (of_nat k :: 32 word)" by (rule unat_add_lem [THEN iffD1]) (use k e in simp)
  then show ?thesis using e by simp
qed

lemma mp_entries_table:
  assumes "table m p xs" "unat p + sum_list (map width xs) < 2 ^ 32" "unat p + sum_list (map width xs) \<le> unat e"
  shows "mp_entries m p e b s = mp_entries m (p + of_nat (sum_list (map width xs))) e b (foldl take_entry s xs)"
  using assms
proof (induction xs arbitrary: p s)
  case (Cons x xs)
  let ?p = "p + of_nat (width x)" and ?n = "sum_list (map width xs)"
  have "0 < width x" by (cases x) simp_all
  then have lt: "p < e" using Cons.prems(3) by (simp add: word_less_nat_alt)
  have u: "unat ?p = unat p + width x" by (rule unat_add_small) (use Cons.prems(2) in simp)
  have "mp_entry m p b s = (?p, b, take_entry s x)" using Cons.prems(1) mp_entry_at by simp
  then have "mp_entries m p e b s = mp_entries m ?p e b (take_entry s x)" using lt by (simp add: mp_entries.simps)
  also have "\<dots> = mp_entries m (?p + of_nat ?n) e b (foldl take_entry (take_entry s x) xs)"
    by (rule Cons.IH) (use Cons.prems u in simp_all)
  finally show ?case by (simp add: add.assoc)
qed simp

text \<open>A walk that returns has met no entry of an unknown type: it never leaves one.\<close>

lemma mp_entries_returns:
  assumes "mp_entries m p e b s = Some r"
  shows "fst r = b \<and> (p < e \<longrightarrow> m p \<in> {0, 1, 2, 3, 4})"
proof (rule mp_entries.raw_induct [of "\<lambda>m p e b s r. fst r = b \<and> (p < e \<longrightarrow> m p \<in> {0, 1, 2, 3, 4})", OF _ assms])
  fix walk m p e b s r
  assume ih: "\<And>m p e b s r. walk m p e b s = Some r \<Longrightarrow> fst r = b \<and> (p < e \<longrightarrow> m p \<in> {0, 1, 2, 3, 4})"
    and r: "(if p < e then (case mp_entry m p b s of (p, b, s) \<Rightarrow> walk m p e b s) else Some (b, s)) = Some r"
  show "fst r = b \<and> (p < e \<longrightarrow> m p \<in> {0, 1, 2, 3, 4})"
  proof (cases "p < e")
    case True
    then have w: "(case mp_entry m p b s of (p, b, s) \<Rightarrow> walk m p e b s) = Some r" using r by simp
    show ?thesis
    proof (cases "m p \<in> {0, 1, 2, 3, 4}")
      case True
      then show ?thesis using w ih by (auto simp: mp_entry_def split: if_splits)
    next
      case False
      then have "walk m p e False s = Some r" using w by (simp add: mp_entry_def)
      from ih [OF this] show ?thesis using True False by blast
    qed
  qed (use r in auto)
qed

lemma take_entries:
  "apicids (foldl take_entry s xs) = apicids s @ take (NCPU - length (apicids s)) [a. Processor a \<leftarrow> xs]"
  "ioapicid (foldl take_entry s xs) = last (ioapicid s # [a. Ioapic a \<leftarrow> xs])"
  "lapic (foldl take_entry s xs) = lapic s" "sent (foldl take_entry s xs) = sent s"
proof (induction xs arbitrary: s)
  case (Cons x xs)
  { case 1 then show ?case using Cons(1) by (cases x) (auto simp: take_Cons' Suc_diff_Suc) }
  { case 2 then show ?case using Cons(2) by (cases x) auto }
  { case 3 then show ?case using Cons(3) by (cases x) auto }
  { case 4 then show ?case using Cons(4) by (cases x) auto }
qed simp_all

text \<open>The configuration table at \<open>conf\<close> has the entries \<open>xs\<close>, and ends with them or goes on with one of an unknown type.\<close>

definition conf_length :: "mem \<Rightarrow> 32 word \<Rightarrow> nat" where
  "conf_length m conf = unat (read16 m (conf + 4))"

definition table_size :: "entry list \<Rightarrow> nat" where
  "table_size xs = 44 + sum_list (map width xs)"

definition conf_table :: "mem \<Rightarrow> 32 word \<Rightarrow> entry list \<Rightarrow> bool" where
  "conf_table m conf xs \<longleftrightarrow> table m (conf + 44) xs \<and> unat conf + conf_length m conf < 2 ^ 32 \<and>
     (table_size xs = conf_length m conf \<or> table_size xs < conf_length m conf \<and> m (conf + of_nat (table_size xs)) \<notin> {0, 1, 2, 3, 4})"

lemma conf_walk:
  assumes c: "conf_table m conf xs"
  defines "e \<equiv> conf + read16 m (conf + 4)"
  shows "mp_entries m (conf + 44) e True s = mp_entries m (conf + of_nat (table_size xs)) e True (foldl take_entry s xs)"
    "unat (conf + of_nat (table_size xs)) = unat conf + table_size xs" "unat e = unat conf + conf_length m conf"
proof -
  have len: "table_size xs \<le> conf_length m conf" and fit: "unat conf + conf_length m conf < 2 ^ 32" and t: "table m (conf + 44) xs"
    using c by (auto simp: conf_table_def)
  have p: "unat (conf + 44) = unat conf + 44" using unat_add_small [of conf 44] len fit by (simp add: table_size_def)
  show e: "unat e = unat conf + conf_length m conf"
    unfolding e_def conf_length_def by (rule unat_add_lem [THEN iffD1]) (use fit in \<open>simp add: conf_length_def\<close>)
  show "unat (conf + of_nat (table_size xs)) = unat conf + table_size xs" by (rule unat_add_small) (use len fit in simp)
  have "mp_entries m (conf + 44) e True s =
    mp_entries m (conf + 44 + of_nat (sum_list (map width xs))) e True (foldl take_entry s xs)"
    by (rule mp_entries_table [OF t]) (use p e len fit in \<open>simp_all add: table_size_def\<close>)
  then show "mp_entries m (conf + 44) e True s = mp_entries m (conf + of_nat (table_size xs)) e True (foldl take_entry s xs)"
    by (simp add: table_size_def add.assoc)
qed

text \<open>
  C26. \<open>mpinit\<close> on a configuration table that passes the checks. With entries of the known types only it returns, with
  the identifiers of the first \<open>NCPU\<close> processors in the order of the table, the last I/O APIC, and the address of the local APIC.
  Where an entry of an unknown type follows it never returns, and so does not reach the panic
  ``Didn't find a suitable machine'' that is meant for this case.
\<close>

theorem mpinit_reads_table:
  assumes "mpconfig m = Some (mp, conf)" "conf_table m conf xs" "apicids s = []"
  shows "if table_size xs = conf_length m conf then
      \<exists>t. mpinit m imcr s = Some (Inr t) \<and> apicids t = take NCPU [a. Processor a \<leftarrow> xs] \<and>
        ioapicid t = last (ioapicid s # [a. Ioapic a \<leftarrow> xs]) \<and> lapic t = read32 m (conf + 36) \<and>
        sent t = sent s @ (if m (mp + 12) \<noteq> 0 then [(0x22, 0x70), (0x23, imcr OR 1)] else [])
    else mpinit m imcr s = None"
proof -
  let ?s = "s\<lparr>lapic := read32 m (conf + 36)\<rparr>" and ?e = "conf + read16 m (conf + 4)"
  note w = conf_walk(2,3) [OF assms(2)] and walk = conf_walk(1) [OF assms(2), where s = ?s]
  show ?thesis
  proof (cases "table_size xs = conf_length m conf")
    case True
    have e: "conf + of_nat (table_size xs) = ?e" by (rule word_unat_eq_iff [THEN iffD2]) (use w True in simp)
    have "mp_entries m (conf + 44) ?e True ?s = Some (True, foldl take_entry ?s xs)"
      unfolding walk e by (simp add: mp_entries.simps)
    then show ?thesis using take_entries [of ?s xs] assms(1,3) True by (simp add: mpinit_def)
  next
    case False
    then have u: "table_size xs < conf_length m conf" "m (conf + of_nat (table_size xs)) \<notin> {0, 1, 2, 3, 4}"
      using assms(2) by (auto simp: conf_table_def)
    have "conf + of_nat (table_size xs) < ?e" using u(1) w by (simp add: word_less_nat_alt)
    then have "mp_entries m (conf + 44) ?e True ?s = None"
      unfolding walk using mp_entries_returns u(2) by (metis not_Some_eq)
    then show ?thesis using assms(1) False by (simp add: mpinit_def)
  qed
qed

section \<open>A machine with two processors\<close>

text \<open>The tables in the ROM at 0xF0000 and 0xF1000; the table has an entry of the type \<open>ty\<close> at its end.\<close>

definition mp_bytes :: "8 word list" where
  "mp_bytes = [0x5F, 0x4D, 0x50, 0x5F, 0x00, 0x10, 0x0F, 0x00, 1, 4, 0x01, 0, 0x80, 0, 0, 0]"

definition conf_bytes :: "8 word \<Rightarrow> 8 word list" where
  "conf_bytes ty = [0x50, 0x43, 0x4D, 0x50, 100, 0, 4, 0x7E - ty] @ replicate 28 0 @ [0, 0, 0xE0, 0xFE] @ replicate 4 0 @
     [0, 0] @ replicate 18 0 @ [0, 1] @ replicate 18 0 @ [2, 9] @ replicate 6 0 @ [ty] @ replicate 7 0"

definition bios :: "8 word \<Rightarrow> mem" where
  "bios ty a =
     (let k = unat (a - P2V 0xF0000); l = unat (a - P2V 0xF1000)
      in if k < length mp_bytes then mp_bytes ! k else if l < length (conf_bytes ty) then conf_bytes ty ! l else 0)"

lemma sum_bytes_list: "(\<And>i. i < length bs \<Longrightarrow> view m a i = bs ! i) \<Longrightarrow> sum_bytes m a (length bs) = sum_list bs"
proof (induction bs rule: rev_induct)
  case (snoc b bs)
  have "view m a i = bs ! i" if "i < length bs" for i using snoc.prems [of i] that by (simp add: nth_append)
  then have "sum_bytes m a (length bs) = sum_list bs" by (rule snoc.IH)
  moreover have "view m a (length bs) = b" using snoc.prems [of "length bs"] by simp
  ultimately show ?case by (simp add: sum_bytes_def)
qed (simp add: sum_bytes_def)

lemma length_tables: "length mp_bytes = 16" "length (conf_bytes ty) = 100"
  by (simp_all add: mp_bytes_def conf_bytes_def)

lemma bios_reads:
  "k < 16 \<Longrightarrow> bios ty (P2V 0xF0000 + of_nat k) = mp_bytes ! k"
  "k < 100 \<Longrightarrow> bios ty (P2V 0xF1000 + of_nat k) = conf_bytes ty ! k"
  "a < P2V 0xF0000 \<Longrightarrow> bios ty a = 0"
proof -
  have u: "k < 2 ^ 32 \<Longrightarrow> unat (of_nat k :: 32 word) = k" for k by (simp add: unat_of_nat take_bit_eq_mod)
  show "k < 16 \<Longrightarrow> bios ty (P2V 0xF0000 + of_nat k) = mp_bytes ! k"
    using u [of k] by (simp add: bios_def length_tables Let_def)
  have e: "P2V 0xF1000 + of_nat k - P2V 0xF0000 = (of_nat (0x1000 + k) :: 32 word)" by (simp add: P2V_def)
  then show "k < 100 \<Longrightarrow> bios ty (P2V 0xF1000 + of_nat k) = conf_bytes ty ! k"
    unfolding bios_def Let_def e length_tables using u [of k] u [of "0x1000 + k"] by simp
  show "a < P2V 0xF0000 \<Longrightarrow> bios ty a = 0"
  proof -
    assume a: "a < P2V 0xF0000"
    have "100 \<le> unat (a - b)" if "b \<in> {P2V 0xF0000, P2V 0xF1000}" for b
    proof -
      have "a < b" "unat b \<le> 2 ^ 32 - 100" using that a by (auto simp: P2V_def word_less_nat_alt)
      then show ?thesis by (simp add: unat_sub_if' word_less_nat_alt)
    qed
    from this [of "P2V 0xF0000"] this [of "P2V 0xF1000"] show ?thesis unfolding bios_def Let_def length_tables by simp
  qed
qed

lemma all_less_4: "(\<forall>i < 4. P i) \<longleftrightarrow> P 0 \<and> P 1 \<and> P 2 \<and> P (3 :: nat)"
  by (simp add: numeral_eq_Suc All_less_Suc2)

lemma bios_config: "mpconfig (bios ty) = Some (P2V 0xF0000, P2V 0xF1000)"
proof -
  let ?m = "bios ty"
  have lo: "?m (0x80000000 + of_nat k) = 0" if "k < 0xF0000" for k
  proof (rule bios_reads(3))
    have "unat (of_nat k :: 32 word) = k" using that by (simp add: unat_of_nat take_bit_eq_mod)
    then have "unat (0x80000000 + of_nat k :: 32 word) = 0x80000000 + k" using unat_add_small [of "0x80000000" k] that by simp
    then show "0x80000000 + of_nat k < P2V 0xF0000" using that by (simp add: P2V_def word_less_nat_alt)
  qed
  have bda: "read16 ?m (P2V 0x400 + 0x0E) = 0" "read16 ?m (P2V 0x400 + 0x13) = 0"
    using lo [of "0x40E"] lo [of "0x40F"] lo [of "0x413"] lo [of "0x414"] by (simp_all add: read16_def P2V_def)
  have no: "mpsearch1 ?m (0 - 1024) 1024 = None"
    unfolding mpsearch1_none
  proof (intro allI impI)
    fix k :: nat assume k: "k < (1024 + 15) div 16"
    have "unat (P2V (0 - 1024)) = 0x7FFFFC00" by (simp add: P2V_def)
    then have "unat (P2V (0 - 1024) + of_nat (16 * k)) = 0x7FFFFC00 + 16 * k"
      using unat_add_small [of "P2V (0 - 1024)" "16 * k"] k by simp
    moreover have "unat (P2V 0xF0000) = 0x800F0000" by (simp add: P2V_def)
    ultimately have "?m (P2V (0 - 1024) + of_nat (16 * k)) = 0" using k by (intro bios_reads(3)) (simp add: word_less_nat_alt)
    moreover have "is_mp ?m p \<Longrightarrow> ?m p = 0x5F" for p unfolding is_mp_def by (drule conjunct1, drule spec [of _ 0]) simp
    ultimately show "\<not> is_mp ?m (P2V (0 - 1024) + of_nat (16 * k))" by force
  qed
  have mp: "view ?m (P2V 0xF0000) k = mp_bytes ! k" if "k < 16" for k using bios_reads(1) that by (simp only: view_def)
  have conf: "view ?m (P2V 0xF1000) k = conf_bytes ty ! k" if "k < 100" for k using bios_reads(2) that by (simp only: view_def)
  have sums: "sum_list mp_bytes = 0" "sum_list (conf_bytes ty) = 0"
    by (simp_all add: mp_bytes_def conf_bytes_def sum_list_replicate)
  have sum: "sum_bytes ?m (P2V 0xF0000) 16 = 0" "sum_bytes ?m (P2V 0xF1000) 100 = 0"
    using sum_bytes_list [of mp_bytes ?m "P2V 0xF0000"] sum_bytes_list [of "conf_bytes ty" ?m "P2V 0xF1000"] mp conf
    by (simp_all add: length_tables sums)
  have "is_mp ?m (P2V 0xF0000)"
    unfolding is_mp_def all_less_4 using mp [of 0] mp [of 1] mp [of 2] mp [of 3] sum(1) by (simp add: view_def mp_bytes_def)
  then have yes: "mpsearch1 ?m 0xF0000 0x10000 = Some (P2V 0xF0000)" unfolding mpsearch1_finds by (intro exI [of _ 0]) simp
  have "mpsearch ?m = Some (P2V 0xF0000)"
    unfolding mpsearch_def Let_def bda using no yes by simp
  moreover have "read32 ?m (P2V 0xF0000 + 4) = 0xF1000"
    using mp [of 4] mp [of 5] mp [of 6] mp [of 7] by (simp add: read32_def view_def mp_bytes_def P2V_def)
  moreover have "memcmp (view ?m (P2V 0xF1000)) (signature ''PCMP'') 4 = 0"
    unfolding memcmp_0_iff all_less_4 using conf [of 0] conf [of 1] conf [of 2] conf [of 3] by (simp add: signature_def conf_bytes_def)
  moreover have "?m (P2V 0xF1000 + 6) = 4" "read16 ?m (P2V 0xF1000 + 4) = 100"
    using conf [of 4] conf [of 5] conf [of 6] by (simp_all add: read16_def view_def conf_bytes_def nth_append P2V_def)
  ultimately show ?thesis unfolding mpconfig_def using sum(2) by (simp add: Let_def)
qed

lemma bios_table:
  assumes "xs = [Processor 0, Processor 1, Ioapic 9]"
  shows "table (bios ty) (P2V 0xF1000 + 44) xs" "read16 (bios ty) (P2V 0xF1000 + 4) = 100" "bios ty (P2V 0xF1000 + 92) = ty"
    "read32 (bios ty) (P2V 0xF1000 + 36) = 0xFEE00000" "bios ty (P2V 0xF0000 + 12) = 0x80"
proof -
  have c: "bios ty (P2V 0xF1000 + of_nat k) = conf_bytes ty ! k" if "k < 100" for k by (rule bios_reads(2) [OF that])
  show "table (bios ty) (P2V 0xF1000 + 44) xs"
    using c [of 44] c [of 45] c [of 64] c [of 65] c [of 84] c [of 85] by (simp add: assms conf_bytes_def nth_append P2V_def)
  show "read16 (bios ty) (P2V 0xF1000 + 4) = 100" "bios ty (P2V 0xF1000 + 92) = ty" "read32 (bios ty) (P2V 0xF1000 + 36) = 0xFEE00000"
    using c [of 4] c [of 5] c [of 92] c [of 36] c [of 37] c [of 38] c [of 39]
    by (simp_all add: read16_def read32_def conf_bytes_def nth_append P2V_def)
  show "bios ty (P2V 0xF0000 + 12) = 0x80" using bios_reads(1) [of 12 ty] by (simp add: mp_bytes_def)
qed

theorem mpinit_reads_table_witness:
  "(\<exists>t. mpinit (bios 3) 0 \<lparr>apicids = [], ioapicid = 0, lapic = 0, sent = []\<rparr> = Some (Inr t) \<and> apicids t = [0, 1] \<and> ioapicid t = 9 \<and>
     lapic t = 0xFEE00000 \<and> sent t = [(0x22, 0x70), (0x23, 1)]) \<and>
   mpinit (bios 7) 0 \<lparr>apicids = [], ioapicid = 0, lapic = 0, sent = []\<rparr> = None"
proof
  let ?xs = "[Processor 0, Processor 1, Ioapic 9] :: entry list"
  have b: "conf_table (bios 3) (P2V 0xF1000) (?xs @ [Other 3])" "conf_table (bios 7) (P2V 0xF1000) ?xs"
    using bios_table(1,3) [OF refl, of 3] bios_table(1,3) [OF refl, of 7]
    unfolding conf_table_def conf_length_def bios_table(2) [OF refl] table_size_def by (simp_all add: P2V_def)
  have len: "table_size (?xs @ [Other 3]) = conf_length (bios 3) (P2V 0xF1000)" "table_size ?xs \<noteq> conf_length (bios 7) (P2V 0xF1000)"
    unfolding conf_length_def bios_table(2) [OF refl] table_size_def by simp_all
  show "\<exists>t. mpinit (bios 3) 0 \<lparr>apicids = [], ioapicid = 0, lapic = 0, sent = []\<rparr> = Some (Inr t) \<and> apicids t = [0, 1] \<and> ioapicid t = 9 \<and>
     lapic t = 0xFEE00000 \<and> sent t = [(0x22, 0x70), (0x23, 1)]"
    using mpinit_reads_table [OF bios_config b(1), of "\<lparr>apicids = [], ioapicid = 0, lapic = 0, sent = []\<rparr>" 0] len(1)
      bios_table(4,5) [OF refl, of 3] by simp
  show "mpinit (bios 7) 0 \<lparr>apicids = [], ioapicid = 0, lapic = 0, sent = []\<rparr> = None"
    using mpinit_reads_table [OF bios_config b(2), of "\<lparr>apicids = [], ioapicid = 0, lapic = 0, sent = []\<rparr>" 0] len(2) by simp
qed

end
