(* ===== verification/Bootmain.thy ===== *)
theory Bootmain
  imports Mem
begin

text \<open>
  The boot loader (\<open>bootmain.c\<close>): it reads the ELF header of the kernel from the disk, which starts at sector 1, loads each
  program segment, and jumps to the entry. Memory is physical and complete; the disk is a function from sectors to their bytes, and
  waiting for it ends. Loops over addresses are partial functions.
\<close>

unbundle bit_operations_syntax

section \<open>The loader\<close>

abbreviation SECTSIZE :: nat where "SECTSIZE \<equiv> 512"

type_synonym disk = "nat \<Rightarrow> nat \<Rightarrow> 8 word"

fun insl :: "mem \<Rightarrow> 32 word \<Rightarrow> (nat \<Rightarrow> 8 word) \<Rightarrow> nat \<Rightarrow> mem" where
  "insl m d f 0 = m"
| "insl m d f (Suc n) = insl (m(d := f 0, d + 1 := f 1, d + 2 := f 2, d + 3 := f 3)) (d + 4) (\<lambda>i. f (4 + i)) n"

text \<open>The sector that the disk reads: the number in the registers 0x1F3 to 0x1F6, 28 bits of it.\<close>

definition lba :: "8 word \<Rightarrow> 8 word \<Rightarrow> 8 word \<Rightarrow> 8 word \<Rightarrow> nat" where
  "lba r3 r4 r5 r6 = unat r3 + 2 ^ 8 * unat r4 + 2 ^ 16 * unat r5 + 2 ^ 24 * (unat r6 mod 16)"

definition readsect :: "disk \<Rightarrow> 32 word \<Rightarrow> 32 word \<Rightarrow> mem \<Rightarrow> mem" where
  "readsect dk dst offset m =
     insl m dst (dk (lba (ucast offset) (ucast (drop_bit 8 offset)) (ucast (drop_bit 16 offset)) (ucast (drop_bit 24 offset OR 0xE0))))
       (SECTSIZE div 4)"

partial_function (option) readseg_loop :: "disk \<Rightarrow> 32 word \<Rightarrow> 32 word \<Rightarrow> 32 word \<Rightarrow> mem \<Rightarrow> mem option" where
  "readseg_loop dk pa epa offset m =
     (if pa < epa then readseg_loop dk (pa + of_nat SECTSIZE) epa (offset + 1) (readsect dk pa offset m) else Some m)"

definition readseg :: "disk \<Rightarrow> 32 word \<Rightarrow> 32 word \<Rightarrow> 32 word \<Rightarrow> mem \<Rightarrow> mem option" where
  "readseg dk pa count offset m =
     readseg_loop dk (pa - offset mod of_nat SECTSIZE) (pa + count) (offset div of_nat SECTSIZE + 1) m"

partial_function (option) boot_segments :: "disk \<Rightarrow> 32 word \<Rightarrow> 32 word \<Rightarrow> mem \<Rightarrow> mem option" where
  "boot_segments dk ph eph m =
     (if ph < eph then
        (let pa = read32 m (ph + 12)
         in Option.bind (readseg dk pa (read32 m (ph + 16)) (read32 m (ph + 4)) m) (\<lambda>m.
              let filesz = read32 m (ph + 16); memsz = read32 m (ph + 20)
              in boot_segments dk (ph + 32) eph
                   (if memsz > filesz then stosb m (pa + filesz) 0 (unat (memsz - filesz)) else m)))
      else Some m)"

abbreviation ELF :: "32 word" where "ELF \<equiv> 0x10000"

text \<open>The entry that is called, if it is an ELF file, and the memory then.\<close>

definition bootmain :: "disk \<Rightarrow> mem \<Rightarrow> (32 word option \<times> mem) option" where
  "bootmain dk m =
     Option.bind (readseg dk ELF 4096 0 m) (\<lambda>m.
       if read32 m ELF \<noteq> 0x464C457F then Some (None, m)
       else
         let ph = ELF + read32 m (ELF + 28); eph = ph + 32 * read16 m (ELF + 44)
         in Option.bind (boot_segments dk ph eph m) (\<lambda>m. Some (Some (read32 m (ELF + 24)), m)))"

section \<open>Reading sectors\<close>

text \<open>Addresses below 2 to the 32 as numbers.\<close>

lemma unat_addr32: "a < 2 ^ 32 \<Longrightarrow> unat (of_nat a :: 32 word) = a"
  by (simp add: unat_of_nat take_bit_eq_mod)

lemma addr_eq: "a < 2 ^ 32 \<Longrightarrow> b < 2 ^ 32 \<Longrightarrow> (of_nat a :: 32 word) = of_nat b \<longleftrightarrow> a = b"
  by (metis unat_addr32)

lemma addr_less: "a < 2 ^ 32 \<Longrightarrow> b < 2 ^ 32 \<Longrightarrow> (of_nat a :: 32 word) < of_nat b \<longleftrightarrow> a < b"
  by (simp only: word_less_nat_alt unat_addr32)

lemma insl_at:
  assumes "p + 4 * n \<le> 2 ^ 32" "x < 2 ^ 32"
  shows "insl m (of_nat p) f n (of_nat x) = (if p \<le> x \<and> x < p + 4 * n then f (x - p) else m (of_nat x))"
  using assms(1)
proof (induction n arbitrary: m p f)
  case (Suc n)
  have e: "(of_nat x :: 32 word) = of_nat p + of_nat j \<longleftrightarrow> x = p + j" if "j < 4" for j
    using addr_eq [OF assms(2), of "p + j"] Suc.prems that by simp
  have sub: "4 + (x - (p + 4)) = x - p" if "p + 4 \<le> x" using that by simp
  have "insl m (of_nat p) f (Suc n) (of_nat x) = insl (m(of_nat p := f 0, of_nat p + 1 := f 1, of_nat p + 2 := f 2, of_nat p + 3 := f 3))
      (of_nat (p + 4)) (\<lambda>i. f (4 + i)) n (of_nat x)" by simp
  also have "\<dots> = (if p + 4 \<le> x \<and> x < p + 4 + 4 * n then f (4 + (x - (p + 4)))
      else (m(of_nat p := f 0, of_nat p + 1 := f 1, of_nat p + 2 := f 2, of_nat p + 3 := f 3)) (of_nat x))"
    by (rule Suc.IH) (use Suc.prems in simp)
  also have "\<dots> = (if p \<le> x \<and> x < p + 4 * Suc n then f (x - p) else m (of_nat x))"
    using e [of 0] e [of 1] e [of 2] e [of 3] sub by (cases "p + 4 \<le> x") auto
  finally show ?case .
qed auto

lemma digits: "n = a + 256 * b \<Longrightarrow> b = b' + 256 * c \<Longrightarrow> c = c' + 256 * d \<Longrightarrow> a + 2 ^ 8 * b' + 2 ^ 16 * c' + 2 ^ 24 * d = n" for n :: nat
  by simp

lemma lba_offset:
  fixes offset :: "32 word"
  assumes "unat offset < 2 ^ 28"
  shows "lba (ucast offset) (ucast (drop_bit 8 offset)) (ucast (drop_bit 16 offset)) (ucast (drop_bit 24 offset OR 0xE0)) = unat offset"
proof -
  let ?n = "unat offset"
  have b: "unat (ucast (drop_bit k offset) :: 8 word) = ?n div 2 ^ k mod 256" for k
  proof -
    have "unat (ucast (drop_bit k offset) :: 8 word) = take_bit 8 (drop_bit k ?n)"
      by (simp only: unsigned_ucast_eq unat_drop_bit_eq) simp
    then show ?thesis by (simp add: drop_bit_eq_div take_bit_eq_mod)
  qed
  have "take_bit 4 (ucast (drop_bit 24 offset OR 0xE0) :: 8 word) = take_bit 4 (ucast (drop_bit 24 offset))"
    unfolding unsigned_or_eq take_bit_or by simp
  then have "take_bit 4 (unat (ucast (drop_bit 24 offset OR 0xE0) :: 8 word)) = take_bit 4 (unat (ucast (drop_bit 24 offset) :: 8 word))"
    by (simp only: flip: unsigned_take_bit_eq)
  then have h: "unat (ucast (drop_bit 24 offset OR 0xE0) :: 8 word) mod 16 = ?n div 2 ^ 24 mod 16"
    unfolding b take_bit_eq_mod by (simp add: mod_mod_cancel)
  have b0: "unat (ucast offset :: 8 word) = ?n mod 256" using b [of 0] by simp
  have split: "n = n mod 256 + 256 * (n div 256)" for n :: nat by simp
  have top: "?n div 2 ^ 24 mod 16 = ?n div 2 ^ 24" using assms by simp
  have d: "?n div 256 div 256 = ?n div 2 ^ 16" "?n div 2 ^ 16 div 256 = ?n div 2 ^ 24" "?n div 2 ^ 8 = ?n div 256"
    by (simp_all flip: div_mult2_eq)
  have e: "?n div 256 = ?n div 256 mod 256 + 256 * (?n div 2 ^ 16)" "?n div 2 ^ 16 = ?n div 2 ^ 16 mod 256 + 256 * (?n div 2 ^ 24)"
    using split [of "?n div 256"] split [of "?n div 2 ^ 16"] unfolding d .
  show ?thesis
    unfolding lba_def h b b0 top d(3) using digits [OF split e] by simp
qed

lemma readsect_at:
  assumes "p + 512 \<le> 2 ^ 32" "offset < 2 ^ 28" "x < 2 ^ 32"
  shows "readsect dk (of_nat p) (of_nat offset) m (of_nat x) = (if p \<le> x \<and> x < p + 512 then dk offset (x - p) else m (of_nat x))"
proof -
  have u: "unat (of_nat offset :: 32 word) = offset" using assms(2) by (intro unat_addr32) simp
  have l: "p + 4 * (SECTSIZE div 4) \<le> 2 ^ 32" using assms(1) by simp
  show ?thesis
    unfolding readsect_def using insl_at [OF l assms(3)] lba_offset [of "of_nat offset"] assms(2) u by simp
qed

lemma readseg_loop_at:
  assumes "e + 512 \<le> 2 ^ 32" "o' + e \<le> p + 2 ^ 28" "p < 2 ^ 32"
  shows "\<exists>t E. readseg_loop dk (of_nat p) (of_nat e) (of_nat o') m = Some t \<and> (e \<le> p \<and> E = p \<or> p < e \<and> e \<le> E \<and> E < e + 512) \<and>
    (\<forall>x < 2 ^ 32. t (of_nat x) = (if p \<le> x \<and> x < E then dk (o' + (x - p) div 512) ((x - p) mod 512) else m (of_nat x)))"
  using assms
proof (induction "e - p" arbitrary: p o' m rule: less_induct)
  case less
  have lt: "(of_nat p :: 32 word) < of_nat e \<longleftrightarrow> p < e" using less.prems by (intro addr_less) simp_all
  show ?case
  proof (cases "p < e")
    case False
    then have "readseg_loop dk (of_nat p) (of_nat e) (of_nat o') m = Some m" using lt by (simp add: readseg_loop.simps)
    then show ?thesis using False by (intro exI [of _ m] exI [of _ p]) auto
  next
    case True
    let ?m = "readsect dk (of_nat p) (of_nat o') m"
    have step: "readseg_loop dk (of_nat p) (of_nat e) (of_nat o') m = readseg_loop dk (of_nat (p + 512)) (of_nat e) (of_nat (o' + 1)) ?m"
      using lt True by (subst readseg_loop.simps) (simp add: ac_simps)
    have "\<exists>t E. readseg_loop dk (of_nat (p + 512)) (of_nat e) (of_nat (o' + 1)) ?m = Some t \<and>
      (e \<le> p + 512 \<and> E = p + 512 \<or> p + 512 < e \<and> e \<le> E \<and> E < e + 512) \<and>
      (\<forall>x < 2 ^ 32. t (of_nat x) =
         (if p + 512 \<le> x \<and> x < E then dk (o' + 1 + (x - (p + 512)) div 512) ((x - (p + 512)) mod 512) else ?m (of_nat x)))"
      by (rule less.hyps) (use less.prems True in simp_all)
    then obtain t E where ex: "readseg_loop dk (of_nat (p + 512)) (of_nat e) (of_nat (o' + 1)) ?m = Some t \<and>
      (e \<le> p + 512 \<and> E = p + 512 \<or> p + 512 < e \<and> e \<le> E \<and> E < e + 512) \<and>
      (\<forall>x < 2 ^ 32. t (of_nat x) =
         (if p + 512 \<le> x \<and> x < E then dk (o' + 1 + (x - (p + 512)) div 512) ((x - (p + 512)) mod 512) else ?m (of_nat x)))"
      by (elim exE)
    note t = conjunct1 [OF ex] conjunct2 [OF ex, THEN conjunct1] conjunct2 [OF ex, THEN conjunct2, rule_format]
    have "t (of_nat x) = (if p \<le> x \<and> x < E then dk (o' + (x - p) div 512) ((x - p) mod 512) else m (of_nat x))" if x: "x < 2 ^ 32" for x
    proof (cases "p + 512 \<le> x \<and> x < E")
      case a: True
      then obtain y where y: "x = p + 512 + y" using le_Suc_ex by blast
      have "(512 + y) div 512 = 1 + y div 512" "(512 + y) mod 512 = y mod 512" by simp_all
      then show ?thesis using a t(3) [OF x] by (simp add: y)
    next
      case b: False
      have "?m (of_nat x) = (if p \<le> x \<and> x < p + 512 then dk o' (x - p) else m (of_nat x))"
        by (rule readsect_at) (use less.prems True x in simp_all)
      moreover have "p + 512 \<le> E" using t(2) by auto
      ultimately show ?thesis using b t(3) [OF x] by auto
    qed
    moreover have "e \<le> E \<and> E < e + 512" using t(2) True by auto
    ultimately show ?thesis using step t(1) True by (intro exI [of _ t] exI [of _ E]) simp
  qed
qed


text \<open>The bytes of the kernel file, from sector 1 on.\<close>

definition kernel :: "disk \<Rightarrow> nat \<Rightarrow> 8 word" where
  "kernel dk j = dk (j div 512 + 1) (j mod 512)"

lemma readseg_at:
  assumes fit: "pa + count + 512 \<le> 2 ^ 32" "off mod 512 \<le> pa" "off + count + 1024 \<le> 2 ^ 28"
  obtains t where "readseg dk (of_nat pa) (of_nat count) (of_nat off) m = Some t"
    "\<And>x. x < pa - off mod 512 \<Longrightarrow> t (of_nat x) = m (of_nat x)"
    "\<And>j. j < count \<Longrightarrow> t (of_nat (pa + j)) = kernel dk (off + j)"
proof -
  let ?p = "pa - off mod 512" and ?o = "off div 512 + 1"
  have u: "unat (of_nat off :: 32 word) = off" by (rule unat_addr32) (use fit(3) in simp)
  have w: "(of_nat pa :: 32 word) - of_nat off mod of_nat SECTSIZE = of_nat ?p" "(of_nat off :: 32 word) div of_nat SECTSIZE + 1 = of_nat ?o"
    "(of_nat pa :: 32 word) + of_nat count = of_nat (pa + count)"
  proof -
    have "(of_nat off :: 32 word) mod of_nat SECTSIZE = of_nat (off mod 512)" "(of_nat off :: 32 word) div of_nat SECTSIZE = of_nat (off div 512)"
      by (rule word_unat_eq_iff [THEN iffD2], use fit(3) in \<open>simp add: unat_mod_distrib unat_div_distrib u unat_addr32\<close>)+
    then show "(of_nat pa :: 32 word) - of_nat off mod of_nat SECTSIZE = of_nat ?p" "(of_nat off :: 32 word) div of_nat SECTSIZE + 1 = of_nat ?o"
      using fit(2) by (simp_all add: of_nat_diff)
  qed simp
  have "\<exists>t E. readseg_loop dk (of_nat ?p) (of_nat (pa + count)) (of_nat ?o) m = Some t \<and>
     (pa + count \<le> ?p \<and> E = ?p \<or> ?p < pa + count \<and> pa + count \<le> E \<and> E < pa + count + 512) \<and>
     (\<forall>x < 2 ^ 32. t (of_nat x) = (if ?p \<le> x \<and> x < E then dk (?o + (x - ?p) div 512) ((x - ?p) mod 512) else m (of_nat x)))"
  proof (rule readseg_loop_at)
    have "off div 512 \<le> off" "off mod 512 < 512" by simp_all
    then show "?o + (pa + count) \<le> ?p + 2 ^ 28" using fit(2,3) by linarith
  qed (use fit in simp_all)
  then obtain t E where ex: "readseg_loop dk (of_nat ?p) (of_nat (pa + count)) (of_nat ?o) m = Some t \<and>
     (pa + count \<le> ?p \<and> E = ?p \<or> ?p < pa + count \<and> pa + count \<le> E \<and> E < pa + count + 512) \<and>
     (\<forall>x < 2 ^ 32. t (of_nat x) = (if ?p \<le> x \<and> x < E then dk (?o + (x - ?p) div 512) ((x - ?p) mod 512) else m (of_nat x)))"
    by (elim exE)
  note t = conjunct1 [OF ex] conjunct2 [OF ex, THEN conjunct1] conjunct2 [OF ex, THEN conjunct2, rule_format]
  show ?thesis
  proof (rule that [of t])
    show "readseg dk (of_nat pa) (of_nat count) (of_nat off) m = Some t" using t(1) unfolding readseg_def w .
    show "t (of_nat x) = m (of_nat x)" if "x < ?p" for x using t(3) [of x] that fit(1) by simp
    show "t (of_nat (pa + j)) = kernel dk (off + j)" if j: "j < count" for j
    proof -
      have "pa + j - ?p = off mod 512 + j" using fit(2) by simp
      moreover have "?o + (off mod 512 + j) div 512 = (off + j) div 512 + 1" "(off mod 512 + j) mod 512 = (off + j) mod 512"
        using div_add1_eq [of off j 512] div_add1_eq [of "off mod 512" j 512] by (simp_all add: mod_simps)
      moreover have "?p \<le> pa + j" "pa + j < E" using t(2) j by auto
      ultimately show ?thesis using t(3) [of "pa + j"] fit(1) j by (simp add: kernel_def)
    qed
  qed
qed

section \<open>Loading the segments\<close>

text \<open>A program header: where in the file, where in memory, how many bytes from the file and how many in all.\<close>

record seg =
  s_off :: nat
  s_pa :: nat
  s_filesz :: nat
  s_memsz :: nat

abbreviation extent :: "seg \<Rightarrow> nat" where
  "extent g \<equiv> s_pa g + max (s_filesz g) (s_memsz g)"

text \<open>The fields of the header at \<open>ph\<close>, and of the headers of the list \<open>gs\<close>.\<close>

definition field :: "mem \<Rightarrow> nat \<Rightarrow> nat \<Rightarrow> bool" where
  "field m a v \<longleftrightarrow> read32 m (of_nat a) = of_nat v"

fun headers :: "mem \<Rightarrow> nat \<Rightarrow> seg list \<Rightarrow> bool" where
  "headers m ph [] = True"
| "headers m ph (g # gs) = (field m (ph + 4) (s_off g) \<and> field m (ph + 12) (s_pa g) \<and> field m (ph + 16) (s_filesz g) \<and>
     field m (ph + 20) (s_memsz g) \<and> headers m (ph + 32) gs)"

text \<open>In increasing order from address \<open>lo\<close> on, with room for the bytes before a segment that are read with it.\<close>

fun placed :: "nat \<Rightarrow> seg list \<Rightarrow> bool" where
  "placed lo [] = True"
| "placed lo (g # gs) = (lo + s_off g mod 512 \<le> s_pa g \<and> s_off g + s_filesz g + 1024 \<le> 2 ^ 28 \<and> extent g + 512 \<le> 2 ^ 32 \<and> placed (extent g) gs)"

definition loaded :: "disk \<Rightarrow> mem \<Rightarrow> seg \<Rightarrow> bool" where
  "loaded dk m g \<longleftrightarrow> (\<forall>j < s_filesz g. m (of_nat (s_pa g + j)) = kernel dk (s_off g + j)) \<and>
     (\<forall>j. s_filesz g \<le> j \<longrightarrow> j < s_memsz g \<longrightarrow> m (of_nat (s_pa g + j)) = 0)"

text \<open>Below \<open>lo\<close> two memories are the same.\<close>

definition same_below :: "nat \<Rightarrow> mem \<Rightarrow> mem \<Rightarrow> bool" where
  "same_below lo m t \<longleftrightarrow> (\<forall>x < lo. t (of_nat x) = m (of_nat x))"

lemma read32_below: "same_below lo m t \<Longrightarrow> a + 4 \<le> lo \<Longrightarrow> read32 t (of_nat a) = read32 m (of_nat a)"
proof -
  assume s: "same_below lo m t" "a + 4 \<le> lo"
  have "t (of_nat (a + j)) = m (of_nat (a + j))" if "j < 4" for j using s that by (simp only: same_below_def)
  from this [of 0] this [of 1] this [of 2] this [of 3] show ?thesis by (simp add: read32_def add.commute)
qed

lemma headers_copy:
  assumes "headers m ph gs" "\<And>k. ph \<le> k \<Longrightarrow> k + 4 \<le> ph + 32 * length gs \<Longrightarrow> read32 t (of_nat (a + k)) = read32 m (of_nat k)"
  shows "headers t (a + ph) gs"
  using assms
proof (induction gs arbitrary: ph)
  case (Cons g gs)
  have "read32 t (of_nat (a + (ph + k))) = read32 m (of_nat (ph + k))" if "k + 4 \<le> 32" for k
    by (rule Cons.prems(2)) (use that in simp_all)
  note k = this [of 4] this [of 12] this [of 16] this [of 20]
  have "headers t (a + (ph + 32)) gs" by (rule Cons.IH) (use Cons.prems in simp_all)
  then show ?case using Cons.prems(1) k by (simp add: field_def add.assoc)
qed simp

lemma loaded_below: "loaded dk m g \<Longrightarrow> same_below (extent g) m t \<Longrightarrow> loaded dk t g"
proof -
  assume l: "loaded dk m g" and s: "same_below (extent g) m t"
  have "t (of_nat (s_pa g + j)) = m (of_nat (s_pa g + j))" if "j < max (s_filesz g) (s_memsz g)" for j
    using s that unfolding same_below_def by (elim allE [of _ "s_pa g + j"] mp) simp
  then show ?thesis using l unfolding loaded_def by (simp add: less_max_iff_disj)
qed

lemma same_below_trans: "same_below lo m t \<Longrightarrow> same_below lo t u \<Longrightarrow> same_below lo m u"
  by (simp add: same_below_def)

lemma same_below_le: "same_below lo m t \<Longrightarrow> l \<le> lo \<Longrightarrow> same_below l m t"
  by (simp add: same_below_def)

text \<open>One segment: the file's part, then zeroes.\<close>

lemma segment_loaded:
  assumes p: "placed lo (g # gs)"
  obtains t where "readseg dk (of_nat (s_pa g)) (of_nat (s_filesz g)) (of_nat (s_off g)) m = Some t" "same_below lo m t"
    "same_below lo m (if (of_nat (s_memsz g) :: 32 word) > of_nat (s_filesz g)
       then stosb t (of_nat (s_pa g) + of_nat (s_filesz g)) 0 (unat (of_nat (s_memsz g) - of_nat (s_filesz g) :: 32 word)) else t)"
    "loaded dk (if (of_nat (s_memsz g) :: 32 word) > of_nat (s_filesz g)
       then stosb t (of_nat (s_pa g) + of_nat (s_filesz g)) 0 (unat (of_nat (s_memsz g) - of_nat (s_filesz g) :: 32 word)) else t) g"
proof -
  let ?pa = "s_pa g" and ?fs = "s_filesz g" and ?ms = "s_memsz g"
  have q: "?pa + ?fs + 512 \<le> 2 ^ 32" "s_off g mod 512 \<le> ?pa" "s_off g + ?fs + 1024 \<le> 2 ^ 28" "?pa + ?ms + 512 \<le> 2 ^ 32" "lo \<le> ?pa - s_off g mod 512"
    using p by auto
  obtain t where t: "readseg dk (of_nat ?pa) (of_nat ?fs) (of_nat (s_off g)) m = Some t"
    "\<And>x. x < ?pa - s_off g mod 512 \<Longrightarrow> t (of_nat x) = m (of_nat x)" "\<And>j. j < ?fs \<Longrightarrow> t (of_nat (?pa + j)) = kernel dk (s_off g + j)"
    using readseg_at [OF q(1,2,3)] by blast
  have lt: "(of_nat ?fs :: 32 word) < of_nat ?ms \<longleftrightarrow> ?fs < ?ms" using q by (intro addr_less) simp_all
  define u where "u = (if (of_nat ?ms :: 32 word) > of_nat ?fs
       then stosb t (of_nat ?pa + of_nat ?fs) 0 (unat (of_nat ?ms - of_nat ?fs :: 32 word)) else t)"
  have u: "u (of_nat x) = (if ?pa + ?fs \<le> x \<and> x < ?pa + ?ms then 0 else t (of_nat x))" if x: "x < 2 ^ 32" for x
  proof (cases "?fs < ?ms")
    case True
    have "(of_nat ?ms - of_nat ?fs :: 32 word) = of_nat (?ms - ?fs)" using True by (simp add: of_nat_diff)
    then have n: "unat (of_nat ?ms - of_nat ?fs :: 32 word) = ?ms - ?fs" using unat_addr32 [of "?ms - ?fs"] q(4) by simp
    have "unat (of_nat x - (of_nat (?pa + ?fs) :: 32 word)) < ?ms - ?fs \<longleftrightarrow> ?pa + ?fs \<le> x \<and> x < ?pa + ?ms"
    proof -
      have "unat (of_nat x :: 32 word) = x" "unat (of_nat (?pa + ?fs) :: 32 word) = ?pa + ?fs" using x q(1) by (intro unat_addr32; simp)+
      then have "unat (of_nat x - (of_nat (?pa + ?fs) :: 32 word)) = (if ?pa + ?fs \<le> x then x - (?pa + ?fs) else x + 2 ^ 32 - (?pa + ?fs))"
        by (simp only: unat_sub_if') simp
      then show ?thesis using q(1,4) True by auto
    qed
    then have "fill t (of_nat (?pa + ?fs)) 0 (?ms - ?fs) (of_nat x) = (if ?pa + ?fs \<le> x \<and> x < ?pa + ?ms then 0 else t (of_nat x))"
      by (simp add: fill_def)
    moreover have "u = fill t (of_nat (?pa + ?fs)) 0 (?ms - ?fs)"
      using True lt q(4) unfolding u_def n by (simp add: stosb_fill)
    ultimately show ?thesis by simp
  qed (use lt in \<open>auto simp: u_def\<close>)
  have lo: "x < 2 ^ 32" "x < ?pa" if "x < lo" for x using q that by linarith+
  have "same_below lo m t" using t(2) q(5) by (simp add: same_below_def)
  moreover have "same_below lo m u" using t(2) q(5) u lo by (auto simp: same_below_def)
  moreover have "loaded dk u g"
    unfolding loaded_def
  proof (intro conjI allI impI)
    show "u (of_nat (?pa + j)) = kernel dk (s_off g + j)" if "j < ?fs" for j using u [of "?pa + j"] t(3) [OF that] that q(1) by simp
    show "u (of_nat (?pa + j)) = 0" if "?fs \<le> j" "j < ?ms" for j using u [of "?pa + j"] that q(4) by simp
  qed
  ultimately show ?thesis using that [OF t(1)] unfolding u_def by blast
qed

lemma segments_loaded:
  assumes "headers m ph gs" "ph + 32 * length gs \<le> lo" "placed lo gs"
  shows "\<exists>t. boot_segments dk (of_nat ph) (of_nat (ph + 32 * length gs)) m = Some t \<and> same_below lo m t \<and> (\<forall>g \<in> set gs. loaded dk t g)"
  using assms
proof (induction gs arbitrary: m ph lo)
  case Nil
  then show ?case by (simp add: boot_segments.simps same_below_def)
next
  case (Cons g gs)
  let ?eph = "ph + 32 * length (g # gs)"
  have lo: "lo \<le> s_pa g" "s_pa g + 512 \<le> 2 ^ 32" "lo \<le> extent g" "placed (extent g) gs" using Cons.prems(3) by auto
  have ph: "(of_nat ph :: 32 word) < of_nat ?eph" using Cons.prems(2) lo(1,2) by (subst addr_less) simp_all
  obtain t where t: "readseg dk (of_nat (s_pa g)) (of_nat (s_filesz g)) (of_nat (s_off g)) m = Some t" "same_below lo m t"
    "same_below lo m (if (of_nat (s_memsz g) :: 32 word) > of_nat (s_filesz g)
       then stosb t (of_nat (s_pa g) + of_nat (s_filesz g)) 0 (unat (of_nat (s_memsz g) - of_nat (s_filesz g) :: 32 word)) else t)"
    "loaded dk (if (of_nat (s_memsz g) :: 32 word) > of_nat (s_filesz g)
       then stosb t (of_nat (s_pa g) + of_nat (s_filesz g)) 0 (unat (of_nat (s_memsz g) - of_nat (s_filesz g) :: 32 word)) else t) g"
    by (rule segment_loaded [OF Cons.prems(3)])
  define u where "u = (if (of_nat (s_memsz g) :: 32 word) > of_nat (s_filesz g)
       then stosb t (of_nat (s_pa g) + of_nat (s_filesz g)) 0 (unat (of_nat (s_memsz g) - of_nat (s_filesz g) :: 32 word)) else t)"
  note u = t(3,4) [folded u_def]
  have f: "read32 m (of_nat ph + 4) = of_nat (s_off g)" "read32 m (of_nat ph + 12) = of_nat (s_pa g)" "read32 m (of_nat ph + 16) = of_nat (s_filesz g)"
    "read32 m (of_nat ph + 20) = of_nat (s_memsz g)"
    using Cons.prems(1) by (simp_all add: field_def)
  have ft: "read32 t (of_nat ph + 16) = of_nat (s_filesz g)" "read32 t (of_nat ph + 20) = of_nat (s_memsz g)"
    using read32_below [OF t(2), of "ph + 16"] read32_below [OF t(2), of "ph + 20"] f Cons.prems(2) by simp_all
  have step: "boot_segments dk (of_nat ph) (of_nat ?eph) m = boot_segments dk (of_nat ph + 32) (of_nat ?eph) u"
    by (subst boot_segments.simps) (simp only: ph if_True Let_def f t(1) bind.bind_lunit ft u_def)
  have "headers m (ph + 32) gs" using Cons.prems(1) by simp
  then have h: "headers u (0 + (ph + 32)) gs"
  proof (rule headers_copy)
    show "read32 u (of_nat (0 + k)) = read32 m (of_nat k)" if "k + 4 \<le> ph + 32 + 32 * length gs" for k
      unfolding add_0 by (rule read32_below [OF u(1)]) (use that Cons.prems(2) in simp)
  qed
  have "\<exists>v. boot_segments dk (of_nat (ph + 32)) (of_nat (ph + 32 + 32 * length gs)) u = Some v \<and> same_below (extent g) u v \<and> (\<forall>g \<in> set gs. loaded dk v g)"
    by (rule Cons.IH) (use h Cons.prems(2) lo in simp_all)
  then obtain v where v: "boot_segments dk (of_nat (ph + 32)) (of_nat (ph + 32 + 32 * length gs)) u = Some v" "same_below (extent g) u v"
    "\<forall>g \<in> set gs. loaded dk v g" by blast
  have "boot_segments dk (of_nat ph) (of_nat ?eph) m = Some v" using step v(1) by (simp add: add.assoc)
  moreover have "same_below lo m v" by (rule same_below_trans [OF u(1) same_below_le [OF v(2) lo(3)]])
  moreover have "loaded dk v g" by (rule loaded_below [OF u(2) v(2)])
  ultimately show ?case using v(3) by auto
qed

text \<open>The file of the kernel, as a memory from 0 on: an ELF file with the program headers \<open>gs\<close> in its first page.\<close>

definition kmem :: "disk \<Rightarrow> mem" where
  "kmem dk a = kernel dk (unat a)"

definition elf_file :: "disk \<Rightarrow> seg list \<Rightarrow> bool" where
  "elf_file dk gs \<longleftrightarrow> read32 (kmem dk) 0 = 0x464C457F \<and> unat (read16 (kmem dk) 44) = length gs \<and>
     unat (read32 (kmem dk) 28) + 32 * length gs \<le> 4096 \<and> headers (kmem dk) (unat (read32 (kmem dk) 28)) gs \<and> placed 0x11000 gs"

text \<open>
  C16. The boot loader loads the kernel. The file on the disk is ELF, with its program headers in the first page and segments in
  increasing order above the page at 0x10000, far enough from each other for the whole sectors that are read. Then \<open>bootmain\<close> comes
  to the call of the entry point of the header, every segment holds its bytes of the file and zeroes after them, and memory
  below 0x10000, where the loader itself is, has not changed.
\<close>

theorem bootmain_loads:
  assumes "elf_file dk gs"
  shows "\<exists>t. bootmain dk m = Some (Some (read32 (kmem dk) 24), t) \<and> (\<forall>g \<in> set gs. loaded dk t g) \<and> same_below 0x10000 m t"
proof -
  let ?off = "unat (read32 (kmem dk) 28)"
  have e: "read32 (kmem dk) 0 = 0x464C457F" "unat (read16 (kmem dk) 44) = length gs" "?off + 32 * length gs \<le> 4096"
    "headers (kmem dk) ?off gs" "placed 0x11000 gs" using assms by (simp_all add: elf_file_def)
  have fit: "(0x10000 :: nat) + 4096 + 512 \<le> 2 ^ 32" "0 mod 512 \<le> (0x10000 :: nat)" "0 + 4096 + 1024 \<le> (2 :: nat) ^ 28" by simp_all
  obtain u where u: "readseg dk (of_nat 0x10000) (of_nat 4096) (of_nat 0) m = Some u"
    "\<And>x. x < 0x10000 - 0 mod 512 \<Longrightarrow> u (of_nat x) = m (of_nat x)" "\<And>j. j < 4096 \<Longrightarrow> u (of_nat (0x10000 + j)) = kernel dk (0 + j)"
    using readseg_at [OF fit, where dk = dk and m = m] by blast
  have byte: "u (ELF + of_nat j) = kmem dk (of_nat j)" if "j < 4096" for j
  proof -
    have "unat (of_nat j :: 32 word) = j" by (rule unat_addr32) (use that in simp)
    then show ?thesis using u(3) [OF that] by (simp add: kmem_def)
  qed
  have rd: "read32 u (ELF + of_nat k) = read32 (kmem dk) (of_nat k)" if "k + 4 \<le> 4096" for k
    using byte [of k] byte [of "k + 1"] byte [of "k + 2"] byte [of "k + 3"] that by (simp add: read32_def ac_simps)
  have rd': "read32 u (of_nat (0x10000 + k)) = read32 (kmem dk) (of_nat k)" if "k + 4 \<le> 4096" for k
    using rd [OF that] by simp
  have f: "read32 u ELF = 0x464C457F" "read32 u (ELF + 28) = of_nat ?off" "read32 u (ELF + 24) = read32 (kmem dk) 24"
    using rd [of 0] rd [of 28] rd [of 24] e(1) by simp_all
  have "read16 u (ELF + 44) = read16 (kmem dk) 44" using byte [of 44] byte [of 45] by (simp add: read16_def)
  moreover have "read16 (kmem dk) 44 = of_nat (length gs)" unfolding e(2) [symmetric] by simp
  ultimately have n: "read16 u (ELF + 44) = of_nat (length gs)" by simp
  have h: "headers u (0x10000 + ?off) gs"
    by (rule headers_copy [OF e(4)]) (rule rd', use e(3) in simp)
  obtain t where t: "boot_segments dk (of_nat (0x10000 + ?off)) (of_nat (0x10000 + ?off + 32 * length gs)) u = Some t" "same_below 0x11000 u t"
    "\<forall>g \<in> set gs. loaded dk t g"
    using segments_loaded [OF h _ e(5), of dk] e(3) by auto
  have "read32 t (of_nat (0x10000 + 24)) = read32 u (of_nat (0x10000 + 24))" by (rule read32_below [OF t(2)]) simp
  then have "read32 t (ELF + 24) = read32 (kmem dk) 24" using f(3) by simp
  moreover have "same_below 0x10000 m t" using u(2) t(2) by (simp add: same_below_def)
  moreover have "bootmain dk m = Some (Some (read32 t (ELF + 24)), t)"
  proof -
    have r: "readseg dk ELF 4096 0 m = Some u" using u(1) by simp
    have a: "ELF + of_nat ?off = of_nat (0x10000 + ?off)" "(of_nat (0x10000 + ?off) :: 32 word) + 32 * of_nat (length gs) = of_nat (0x10000 + ?off + 32 * length gs)"
      by simp_all
    show ?thesis unfolding bootmain_def r bind.bind_lunit f(1,2) n Let_def a t(1) by simp
  qed
  ultimately show ?thesis using t(3) by auto
qed

text \<open>A file with one segment: four bytes at 0x100000, and four zeroes.\<close>

definition boot_header :: "8 word list" where
  "boot_header = [0x7F, 0x45, 0x4C, 0x46, 1, 1, 1, 0, 0, 0, 0, 0, 0, 0, 0, 0, 2, 0, 3, 0, 1, 0, 0, 0, 0x0C, 0, 0x10, 0, 52, 0, 0, 0,
     0, 0, 0, 0, 0, 0, 0, 0, 52, 0, 32, 0, 1, 0, 0, 0, 0, 0, 0, 0,
     1, 0, 0, 0, 0, 0x10, 0, 0, 0, 0, 0x10, 0x80, 0, 0, 0x10, 0, 4, 0, 0, 0, 8, 0, 0, 0, 7, 0, 0, 0, 0, 0x10, 0, 0]"

definition boot_disk :: disk where
  "boot_disk s i = (if s = 1 \<and> i < 84 then boot_header ! i else if s = 9 \<and> i < 4 then of_nat i + 1 else 0)"

lemma boot_disk_elf:
  "elf_file boot_disk [\<lparr>s_off = 0x1000, s_pa = 0x100000, s_filesz = 4, s_memsz = 8\<rparr>]" "read32 (kmem boot_disk) 24 = 0x10000C"
proof -
  have k: "kmem boot_disk (of_nat j) = boot_header ! j" if "j < 84" for j
  proof -
    have "unat (of_nat j :: 32 word) = j" by (rule unat_addr32) (use that in simp)
    then show ?thesis using that by (simp add: kmem_def kernel_def boot_disk_def)
  qed
  have r: "read32 (kmem boot_disk) (of_nat j) = ucast (boot_header ! j) OR push_bit 8 (ucast (boot_header ! (j + 1))) OR
      push_bit 16 (ucast (boot_header ! (j + 2))) OR push_bit 24 (ucast (boot_header ! (j + 3)))" if "j + 3 < 84" for j
    using k [of j] k [of "j + 1"] k [of "j + 2"] k [of "j + 3"] that by (simp add: read32_def add.commute)
  have n: "read32 (kmem boot_disk) 0 = 0x464C457F" "read32 (kmem boot_disk) 28 = 52" "read32 (kmem boot_disk) 56 = 0x1000"
    "read32 (kmem boot_disk) 64 = 0x100000" "read32 (kmem boot_disk) 68 = 4" "read32 (kmem boot_disk) 72 = 8" "read32 (kmem boot_disk) 24 = 0x10000C"
    using r [of 0] r [of 28] r [of 56] r [of 64] r [of 68] r [of 72] r [of 24] by (simp_all add: boot_header_def)
  have "read16 (kmem boot_disk) 44 = 1" using k [of 44] k [of 45] by (simp add: read16_def boot_header_def)
  then show "elf_file boot_disk [\<lparr>s_off = 0x1000, s_pa = 0x100000, s_filesz = 4, s_memsz = 8\<rparr>]"
    by (simp add: elf_file_def n field_def)
  show "read32 (kmem boot_disk) 24 = 0x10000C" by (rule n)
qed

theorem bootmain_loads_witness:
  "\<exists>t. bootmain boot_disk (\<lambda>_. 0xAA) = Some (Some 0x10000C, t) \<and> t 0x100000 = 1 \<and> t 0x100003 = 4 \<and> t 0x100007 = 0 \<and> t 0x7C00 = 0xAA"
proof -
  obtain t where t: "bootmain boot_disk (\<lambda>_. 0xAA) = Some (Some 0x10000C, t)" "loaded boot_disk t \<lparr>s_off = 0x1000, s_pa = 0x100000, s_filesz = 4, s_memsz = 8\<rparr>"
    "same_below 0x10000 (\<lambda>_. 0xAA) t"
    using bootmain_loads [OF boot_disk_elf(1), of "\<lambda>_. 0xAA"] unfolding boot_disk_elf(2) by auto
  have "t (of_nat (0x100000 + 0)) = kernel boot_disk 0x1000" "t (of_nat (0x100000 + 3)) = kernel boot_disk 0x1003" "t (of_nat (0x100000 + 7)) = 0"
    using t(2) unfolding loaded_def by (auto dest: spec [of _ 0] spec [of _ 3] spec [of _ 7])
  moreover have "t (of_nat 0x7C00) = 0xAA" using t(3) unfolding same_below_def by (elim allE [of _ "0x7C00"] impE) simp_all
  ultimately show ?thesis using t(1) by (simp add: kernel_def boot_disk_def)
qed

end
