(* ===== verification/Utils.thy ===== *)
theory Utils
  imports Clib Mem
begin

text \<open>
  The library of the xv6 user programs (\<open>ulib.c\<close>) and some of them: \<open>wc.c\<close>, \<open>cat.c\<close> and the names that \<open>ls.c\<close>
  prints. A C string is the list of its characters before the NUL. What the system delivers is an argument: for an open file
  the pieces that \<open>read\<close> returns one after the other, and whether the call after the last of them fails.
\<close>

section \<open>ulib.c\<close>

fun strcmp :: "string \<Rightarrow> string \<Rightarrow> int" where
  "strcmp (c # p) (d # q) = (if c = d then strcmp p q else of_char c - of_char d)"
| "strcmp (c # p) [] = of_char c"
| "strcmp [] (d # q) = - of_char d"
| "strcmp [] [] = 0"

text \<open>The rest of the string from the character on.\<close>

fun strchr :: "string \<Rightarrow> char \<Rightarrow> string option" where
  "strchr [] c = None"
| "strchr (d # s) c = (if d = c then Some (d # s) else strchr s c)"

text \<open>\<open>gets\<close> reads byte by byte: the characters that it puts into the buffer, and those that it leaves. At the end of the
  input, or when a \<open>read\<close> fails, there are none.\<close>

abbreviation CR :: char where "CR \<equiv> CHR 0x0D"

fun gets :: "nat \<Rightarrow> nat \<Rightarrow> string \<Rightarrow> string \<times> string" where
  "gets i mx [] = ([], [])"
| "gets i mx (c # inp) =
     (if i + 1 < mx then
        (if c = NL \<or> c = CR then ([c], inp) else case gets (i + 1) mx inp of (line, rest) \<Rightarrow> (c # line, rest))
      else ([], c # inp))"

text \<open>32-bit arithmetic, without a test for overflow.\<close>

fun atoi_from :: "32 word \<Rightarrow> string \<Rightarrow> 32 word" where
  "atoi_from n [] = n"
| "atoi_from n (c # s) = (if is_digit c then atoi_from (n * 10 + of_char c - 48) s else n)"

definition atoi :: "string \<Rightarrow> 32 word" where
  "atoi s = atoi_from 0 s"

text \<open>Copying goes upwards in any case, unlike the kernel's \<open>memmove\<close>.\<close>

definition ulib_memmove :: "mem \<Rightarrow> 32 word \<Rightarrow> 32 word \<Rightarrow> int \<Rightarrow> mem" where
  "ulib_memmove m dst src n = copy_up m dst src (nat n)"

lemma ulib_memmove_down: "dst \<le> src \<Longrightarrow> ulib_memmove m dst src (int n) = memmove m dst src n"
  by (auto simp: ulib_memmove_def memmove_def)

lemma ulib_memmove_overlap: "ulib_memmove m 1 0 2 2 = m 0" "memmove m 1 0 2 2 = m 1"
  by (simp_all add: ulib_memmove_def memmove_def numeral_2_eq_2)

lemma strcmp_0: "NUL \<notin> set p \<Longrightarrow> NUL \<notin> set q \<Longrightarrow> strcmp p q = 0 \<longleftrightarrow> p = q"
proof (induction p q rule: strcmp.induct)
  case (1 c p d q)
  have "(of_char c :: int) = of_char d \<longleftrightarrow> c = d" by (rule of_char_eq_iff)
  then show ?case using 1 by auto
next
  case (2 c p)
  have "(of_char c :: int) = of_char NUL \<longleftrightarrow> c = NUL" by (rule of_char_eq_iff)
  then show ?case using 2 by auto
next
  case (3 d q)
  have "(of_char d :: int) = of_char NUL \<longleftrightarrow> d = NUL" by (rule of_char_eq_iff)
  then show ?case using 3 by auto
qed simp

lemma strchr_None: "strchr s c = None \<longleftrightarrow> c \<notin> set s"
  by (induction s) auto

lemma strchr_Some: "strchr s c = Some t \<Longrightarrow> \<exists>p. s = p @ t \<and> c \<notin> set p \<and> t \<noteq> [] \<and> hd t = c"
proof (induction s)
  case (Cons d s)
  show ?case
  proof (cases "d = c")
    case True
    then show ?thesis using Cons.prems by (intro exI [of _ "[]"]) auto
  next
    case False
    then obtain p where "s = p @ t" "c \<notin> set p" "t \<noteq> []" "hd t = c" using Cons by auto
    then show ?thesis using False by (intro exI [of _ "d # p"]) auto
  qed
qed simp

lemma gets_line:
  assumes "NL \<notin> set line" "CR \<notin> set line" "i + length line + 1 < mx" "c = NL \<or> c = CR"
  shows "gets i mx (line @ c # rest) = (line @ [c], rest)"
  using assms by (induction line arbitrary: i) auto

lemma gets_bound: "length (fst (gets i mx inp)) \<le> mx - 1 - i"
  by (induction i mx inp rule: gets.induct) (auto split: prod.split)

lemma gets_all: "fst (gets i mx inp) @ snd (gets i mx inp) = inp"
  by (induction i mx inp rule: gets.induct) (auto split: prod.split)

lemma atoi_digits:
  assumes "\<And>c. c \<in> set ds \<Longrightarrow> is_digit c" "rest = [] \<or> \<not> is_digit (hd rest)"
  shows "atoi_from (of_nat n) (ds @ rest) = of_nat (foldl (\<lambda>n c. n * 10 + digit_val c) n ds)"
  using assms(1)
proof (induction ds arbitrary: n)
  case Nil
  then show ?case using assms(2) by (cases rest) auto
next
  case (Cons c ds)
  have c: "is_digit c" using Cons.prems by simp
  then have "(of_char c :: nat) = digit_val c + 48" by (simp add: is_digit_def digit_val_def)
  then have "(of_char c :: 32 word) = of_nat (digit_val c + 48)" by (metis of_nat_of_char)
  then have e: "(of_nat n * 10 + of_char c - 48 :: 32 word) = of_nat (n * 10 + digit_val c)" by simp
  show ?case using Cons.IH [of "n * 10 + digit_val c"] Cons.prems by (simp only: append_Cons atoi_from.simps c if_True e foldl_Cons list.set insert_iff) simp
qed

text \<open>\<open>atoi\<close> undoes decimal printing, up to the width of the result.\<close>

lemma atoi_nat_dec: "rest = [] \<or> \<not> is_digit (hd rest) \<Longrightarrow> atoi (nat_dec k @ rest) = of_nat k"
  using atoi_digits [of "nat_dec k" rest 0] nat_dec_digits digits_val_nat_dec [of k] by (simp add: atoi_def digits_val_def)

section \<open>wc\<close>

record counts =
  lines :: "32 word"
  wordc :: "32 word"
  chars :: "32 word"
  inword :: bool

definition wc_byte :: "counts \<Rightarrow> char \<Rightarrow> counts" where
  "wc_byte s ch =
     (let s = s\<lparr>chars := chars s + 1\<rparr>;
          s = (if ch = NL then s\<lparr>lines := lines s + 1\<rparr> else s)
      in if strchr [CHR '' '', CR, CHR 0x09, NL, CHR 0x0B] ch \<noteq> None then s\<lparr>inword := False\<rparr>
         else if \<not> inword s then s\<lparr>wordc := wordc s + 1, inword := True\<rparr> else s)"

text \<open>One call of \<open>wc\<close>: \<open>None\<close> is the message about a read error, and the end of the program.\<close>

fun wc :: "counts \<Rightarrow> string list \<Rightarrow> bool \<Rightarrow> counts option" where
  "wc s [] fails = (if fails then None else Some s)"
| "wc s (buf # bufs) fails = wc (foldl wc_byte s buf) bufs fails"

datatype message = Counts "32 word" "32 word" "32 word" string | Read_error | Write_error | Cannot_open string

abbreviation wc_start :: counts where
  "wc_start \<equiv> \<lparr>lines = 0, wordc = 0, chars = 0, inword = False\<rparr>"

definition wc_file :: "string list \<times> bool \<Rightarrow> string \<Rightarrow> message" where
  "wc_file f name = (case wc wc_start (fst f) (snd f) of None \<Rightarrow> Read_error | Some s \<Rightarrow> Counts (lines s) (wordc s) (chars s) name)"

text \<open>The loop over the arguments: a file that cannot be opened, or a read error, ends the program.\<close>

fun wc_args :: "(string \<Rightarrow> (string list \<times> bool) option) \<Rightarrow> string list \<Rightarrow> message list" where
  "wc_args open_path [] = []"
| "wc_args open_path (name # names) =
     (case open_path name of
        None \<Rightarrow> [Cannot_open name]
      | Some f \<Rightarrow> (case wc_file f name of Read_error \<Rightarrow> [Read_error] | msg \<Rightarrow> msg # wc_args open_path names))"

definition wc_main :: "string list \<times> bool \<Rightarrow> (string \<Rightarrow> (string list \<times> bool) option) \<Rightarrow> string list \<Rightarrow> message list" where
  "wc_main stdin open_path args = (if args = [] then [wc_file stdin ''''] else wc_args open_path args)"

section \<open>What wc counts\<close>

definition separator :: "char \<Rightarrow> bool" where
  "separator c \<longleftrightarrow> c \<in> {CHR '' '', CR, CHR 0x09, NL, CHR 0x0B}"

text \<open>Words are maximal runs of other characters; one begins where there is no such character before.\<close>

definition word_starts :: "string \<Rightarrow> nat set" where
  "word_starts s = {i. i < length s \<and> \<not> separator (s ! i) \<and> (i = 0 \<or> separator (s ! (i - 1)))}"

lemma finite_starts [simp]: "finite (word_starts s)"
  by (simp add: word_starts_def)

lemma word_starts_snoc:
  "word_starts (s @ [c]) = word_starts s \<union> (if \<not> separator c \<and> (s = [] \<or> separator (last s)) then {length s} else {})"
proof (cases "s = []")
  case False
  then have "last s = s ! (length s - 1)" "length s \<noteq> 0" by (simp_all add: last_conv_nth)
  then show ?thesis by (auto simp: word_starts_def nth_append less_Suc_eq)
qed (auto simp: word_starts_def)

lemma wc_byte_eq:
  "wc_byte s c = \<lparr>lines = lines s + (if c = NL then 1 else 0), wordc = wordc s + (if separator c \<or> inword s then 0 else 1),
     chars = chars s + 1, inword = (\<not> separator c)\<rparr>"
proof -
  have "strchr [CHR '' '', CR, CHR 0x09, NL, CHR 0x0B] c \<noteq> None \<longleftrightarrow> separator c"
    unfolding strchr_None by (simp add: separator_def)
  then show ?thesis by (cases s) (simp add: wc_byte_def Let_def del: strchr.simps)
qed

lemma wc_bytes:
  "foldl wc_byte wc_start s =
     \<lparr>lines = of_nat (count_list s NL), wordc = of_nat (card (word_starts s)), chars = of_nat (length s), inword = (s \<noteq> [] \<and> \<not> separator (last s))\<rparr>"
proof (induction s rule: rev_induct)
  case (snoc c s)
  have "length s \<notin> word_starts s" by (simp add: word_starts_def)
  moreover have "foldl wc_byte wc_start (s @ [c]) = wc_byte (foldl wc_byte wc_start s) c" by simp
  ultimately show ?case
    unfolding snoc wc_byte_eq by (auto simp: word_starts_snoc)
qed (simp add: word_starts_def)

lemma wc_pieces: "wc s bufs fails = (if fails then None else Some (foldl wc_byte s (concat bufs)))"
  by (induction bufs arbitrary: s) auto

text \<open>
  However \<open>read\<close> cuts the input into pieces, \<open>wc\<close> prints the numbers of its newlines, of its words, which are the maximal
  runs of characters other than blanks, and of its characters, all modulo 2 to the 32. After a read error it prints no counts.
\<close>

lemma wc_counts:
  "wc_file (bufs, fails) name =
     (if fails then Read_error
      else Counts (of_nat (count_list (concat bufs) NL)) (of_nat (card (word_starts (concat bufs)))) (of_nat (length (concat bufs))) name)"
  by (simp add: wc_file_def wc_pieces wc_bytes)

section \<open>cat\<close>

text \<open>What is written, and the message with which the program ends, if any; \<open>ws\<close> are the results of the calls of \<open>write\<close>.\<close>

fun cat :: "string list \<Rightarrow> bool \<Rightarrow> int list \<Rightarrow> string \<times> message option" where
  "cat (buf # bufs) fails (w # ws) =
     (if w \<noteq> int (length buf) then (take (nat w) buf, Some Write_error)
      else case cat bufs fails ws of (out, e) \<Rightarrow> (take (nat w) buf @ out, e))"
| "cat _ fails _ = ([], if fails then Some Read_error else None)"

lemma cat_copies: "cat bufs fails (map (\<lambda>b. int (length b)) bufs) = (concat bufs, if fails then Some Read_error else None)"
  by (induction bufs) auto

lemma cat_prefix: "\<exists>rest. concat bufs = fst (cat bufs fails ws) @ rest"
proof (induction bufs fails ws rule: cat.induct)
  case (1 buf bufs fails w ws)
  show ?case
  proof (cases "w = int (length buf)")
    case True
    then show ?thesis using 1 by (auto split: prod.split)
  next
    case False
    then have "concat (buf # bufs) = fst (cat (buf # bufs) fails (w # ws)) @ drop (nat w) buf @ concat bufs"
      by (simp flip: append_assoc)
    then show ?thesis by blast
  qed
qed auto

section \<open>ls\<close>

definition fmtname :: "string \<Rightarrow> string" where
  "fmtname path =
     (let p = rev (takeWhile (\<lambda>c. c \<noteq> CHR ''/'') (rev path))
      in if length p \<ge> 14 then p else p @ replicate (14 - length p) (CHR '' ''))"

datatype ls_line = Line string nat nat nat | Ls_cannot_open string | Ls_cannot_stat string | Too_long

text \<open>One directory entry; \<open>st\<close> is what \<open>stat\<close> answers for a path: type, inode number and size.\<close>

definition ls_entry :: "(string \<Rightarrow> (nat \<times> nat \<times> nat) option) \<Rightarrow> string \<Rightarrow> 16 word \<times> string \<Rightarrow> ls_line list" where
  "ls_entry st path de =
     (if fst de = 0 then []
      else let buf = path @ ''/'' @ snd de
           in case st buf of None \<Rightarrow> [Ls_cannot_stat buf] | Some (ty, ino, sz) \<Rightarrow> [Line (fmtname buf) ty ino sz])"

text \<open>The descriptor of the path, if it can be opened, is represented by what \<open>fstat\<close> answers and the entries that it reads.\<close>

definition ls :: "(string \<Rightarrow> (nat \<times> nat \<times> nat) option) \<Rightarrow>
    (string \<Rightarrow> ((nat \<times> nat \<times> nat) option \<times> (16 word \<times> string) list) option) \<Rightarrow> string \<Rightarrow> ls_line list" where
  "ls st open_path path =
     (case open_path path of
        None \<Rightarrow> [Ls_cannot_open path]
      | Some (None, es) \<Rightarrow> [Ls_cannot_stat path]
      | Some (Some (ty, ino, sz), es) \<Rightarrow>
          if ty = 2 then [Line (fmtname path) ty ino sz]
          else if ty = 1 then
            (if length path + 1 + 14 + 1 > 512 then [Too_long] else concat (map (ls_entry st path) es))
          else [])"

lemma fmtname_entry:
  assumes "CHR ''/'' \<notin> set name" "length name \<le> 14"
  shows "fmtname (path @ ''/'' @ name) = name @ replicate (14 - length name) (CHR '' '')"
proof -
  have "takeWhile (\<lambda>c. c \<noteq> CHR ''/'') (rev name @ CHR ''/'' # rev path) = rev name"
    using assms(1) by (simp add: takeWhile_append takeWhile_eq_all_conv [THEN iffD2])
  then show ?thesis using assms(2) by (auto simp: fmtname_def Let_def)
qed

lemma fmtname_path: "CHR ''/'' \<notin> set path \<Longrightarrow> length path \<le> 14 \<Longrightarrow> fmtname path = path @ replicate (14 - length path) (CHR '' '')"
proof -
  assume a: "CHR ''/'' \<notin> set path" "length path \<le> 14"
  have tw: "takeWhile (\<lambda>c. c \<noteq> CHR ''/'') (rev path) = rev path"
    unfolding takeWhile_eq_all_conv set_rev using a(1) by metis
  show ?thesis unfolding fmtname_def Let_def tw rev_rev_ident using a(2) by (cases "length path = 14") simp_all
qed

text \<open>The names that a directory listing prints are those of the entries in use.\<close>

lemma ls_names:
  assumes "open_path path = Some (Some (1, i, z), es)" "length path \<le> 496"
    and "\<And>d. d \<in> set es \<Longrightarrow> CHR ''/'' \<notin> set (snd d) \<and> length (snd d) \<le> 14"
    and "\<And>d. d \<in> set es \<Longrightarrow> st (path @ ''/'' @ snd d) = Some (f d)"
  shows "ls st open_path path =
    map (\<lambda>d. case f d of (ty, ino, sz) \<Rightarrow> Line (snd d @ replicate (14 - length (snd d)) (CHR '' '')) ty ino sz) (filter (\<lambda>d. fst d \<noteq> 0) es)"
proof -
  have "concat (map (ls_entry st path) es) =
    map (\<lambda>d. case f d of (ty, ino, sz) \<Rightarrow> Line (snd d @ replicate (14 - length (snd d)) (CHR '' '')) ty ino sz) (filter (\<lambda>d. fst d \<noteq> 0) es)"
    using assms(3,4)
  proof (induction es)
    case (Cons d es)
    have "st (path @ ''/'' @ snd d) = Some (f d)" "fmtname (path @ ''/'' @ snd d) = snd d @ replicate (14 - length (snd d)) (CHR '' '')"
      using Cons.prems [of d] fmtname_entry [of "snd d" path] by simp_all
    then have "ls_entry st path d = (if fst d = 0 then [] else [case f d of (ty, ino, sz) \<Rightarrow> Line (snd d @ replicate (14 - length (snd d)) (CHR '' '')) ty ino sz])"
      by (simp add: ls_entry_def Let_def split: prod.split)
    then show ?case using Cons by simp
  qed simp
  then show ?thesis using assms(1,2) by (simp add: ls_def)
qed

end
