(* ===== verification/Umalloc.thy ===== *)
theory Umalloc
  imports Prelude
begin

text \<open>
  The allocator of the xv6 user library, \<open>umalloc.c\<close>: the free blocks in a circular list in the order of
  their addresses, which always holds the empty block \<open>base\<close>. A \<open>Header\<close> is two words; the state has the
  two fields of every header by its address, \<open>freep\<close> and the end of the process. The address of the
  static variable \<open>base\<close> is a parameter, and so is \<open>grant\<close>: whether the kernel grows a process that ends at an address by
  so many bytes.
\<close>

section \<open>Model\<close>

record uheap =
  uh_ptr :: "32 word \<Rightarrow> 32 word"
  uh_size :: "32 word \<Rightarrow> 32 word"
  uh_freep :: "32 word"
  uh_brk :: "32 word"

definition sbrk :: "(32 word \<Rightarrow> 32 word \<Rightarrow> bool) \<Rightarrow> 32 word \<Rightarrow> uheap \<Rightarrow> 32 word \<times> uheap" where
  "sbrk grant n s = (if grant (uh_brk s) n then (uh_brk s, s\<lparr>uh_brk := uh_brk s + n\<rparr>) else (-1, s))"

text \<open>The loop of \<open>free\<close>: the free block after which \<open>bp\<close> belongs.\<close>

fun free_scan :: "nat \<Rightarrow> 32 word \<Rightarrow> 32 word \<Rightarrow> uheap \<Rightarrow> 32 word res" where
  "free_scan 0 bp p s = Inl NoFuel"
| "free_scan (Suc k) bp p s =
     (if bp > p \<and> bp < uh_ptr s p then Inr p
      else if p \<ge> uh_ptr s p \<and> (bp > p \<or> bp < uh_ptr s p) then Inr p
      else free_scan k bp (uh_ptr s p) s)"

definition free :: "nat \<Rightarrow> 32 word \<Rightarrow> uheap \<Rightarrow> uheap res" where
  "free fuel ap s =
     (let bp = ap - 8
      in bindE (free_scan fuel bp (uh_freep s) s) (\<lambda>p.
           let nx = uh_ptr s p;
               s = (if bp + 8 * uh_size s bp = nx
                    then s\<lparr>uh_size := (uh_size s)(bp := uh_size s bp + uh_size s nx), uh_ptr := (uh_ptr s)(bp := uh_ptr s nx)\<rparr>
                    else s\<lparr>uh_ptr := (uh_ptr s)(bp := nx)\<rparr>);
               s = (if p + 8 * uh_size s p = bp
                    then s\<lparr>uh_size := (uh_size s)(p := uh_size s p + uh_size s bp), uh_ptr := (uh_ptr s)(p := uh_ptr s bp)\<rparr>
                    else s\<lparr>uh_ptr := (uh_ptr s)(p := bp)\<rparr>)
           in Inr (s\<lparr>uh_freep := p\<rparr>)))"

definition morecore :: "nat \<Rightarrow> (32 word \<Rightarrow> 32 word \<Rightarrow> bool) \<Rightarrow> 32 word \<Rightarrow> uheap \<Rightarrow> (32 word \<times> uheap) res" where
  "morecore fuel grant nu s =
     (let nu = (if nu < 4096 then 4096 else nu)
      in case sbrk grant (nu * 8) s of
           (p, s) \<Rightarrow>
             if p = -1 then Inr (0, s)
             else bindE (free fuel (p + 8) (s\<lparr>uh_size := (uh_size s)(p := nu)\<rparr>)) (\<lambda>s. Inr (uh_freep s, s)))"

fun malloc_loop :: "nat \<Rightarrow> nat \<Rightarrow> (32 word \<Rightarrow> 32 word \<Rightarrow> bool) \<Rightarrow> 32 word \<Rightarrow> 32 word \<Rightarrow> 32 word \<Rightarrow> uheap \<Rightarrow>
    (32 word \<times> uheap) res" where
  "malloc_loop fuel 0 grant nunits prevp p s = Inl NoFuel"
| "malloc_loop fuel (Suc k) grant nunits prevp p s =
     (if uh_size s p \<ge> nunits then
        if uh_size s p = nunits then
          Inr (p + 8, s\<lparr>uh_ptr := (uh_ptr s)(prevp := uh_ptr s p), uh_freep := prevp\<rparr>)
        else
          let s = s\<lparr>uh_size := (uh_size s)(p := uh_size s p - nunits)\<rparr>;
              p = p + 8 * uh_size s p;
              s = s\<lparr>uh_size := (uh_size s)(p := nunits)\<rparr>
          in Inr (p + 8, s\<lparr>uh_freep := prevp\<rparr>)
      else if p = uh_freep s then
        bindE (morecore fuel grant nunits s) (\<lambda>(p, s).
          if p = 0 then Inr (0, s) else malloc_loop fuel k grant nunits p (uh_ptr s p) s)
      else malloc_loop fuel k grant nunits p (uh_ptr s p) s)"

definition first_use :: "32 word \<Rightarrow> uheap \<Rightarrow> uheap" where
  "first_use base s =
     (if uh_freep s = 0
      then s\<lparr>uh_ptr := (uh_ptr s)(base := base), uh_freep := base, uh_size := (uh_size s)(base := 0)\<rparr>
      else s)"

definition malloc :: "nat \<Rightarrow> (32 word \<Rightarrow> 32 word \<Rightarrow> bool) \<Rightarrow> 32 word \<Rightarrow> 32 word \<Rightarrow> uheap \<Rightarrow> (32 word \<times> uheap) res" where
  "malloc fuel grant base nbytes s =
     (let nunits = (nbytes + 8 - 1) div 8 + 1;
          s = first_use base s
      in malloc_loop fuel fuel grant nunits (uh_freep s) (uh_ptr s (uh_freep s)) s)"

section \<open>Circular lists\<close>

text \<open>\<open>path f a xs b\<close>: following \<open>f\<close> from \<open>a\<close> visits \<open>xs\<close> and then is at \<open>b\<close>.\<close>

fun path :: "('a \<Rightarrow> 'a) \<Rightarrow> 'a \<Rightarrow> 'a list \<Rightarrow> 'a \<Rightarrow> bool" where
  "path f a [] b \<longleftrightarrow> f a = b"
| "path f a (x # xs) b \<longleftrightarrow> f a = x \<and> path f x xs b"

fun ring :: "('a \<Rightarrow> 'a) \<Rightarrow> 'a list \<Rightarrow> bool" where
  "ring f [] \<longleftrightarrow> True"
| "ring f (a # xs) \<longleftrightarrow> path f a xs a"

lemma path_append: "path f a (xs @ x # ys) b \<longleftrightarrow> path f a xs x \<and> path f x ys b"
  by (induction xs arbitrary: a) auto

lemma path_upd: "x \<notin> set (a # xs) \<Longrightarrow> path (f(x := y)) a xs b \<longleftrightarrow> path f a xs b"
  by (induction xs arbitrary: a) auto

lemma path_next: "path f a xs b \<Longrightarrow> f a = hd (xs @ [b])"
  by (cases xs) auto

lemma ring_rotate: "ring f (us @ a # vs) \<longleftrightarrow> path f a (vs @ us) a"
proof (cases us)
  case (Cons u us')
  then show ?thesis by (auto simp: path_append)
qed simp

lemma ring_nth:
  assumes "ring f as" "j < length as"
  shows "f (as ! j) = as ! (Suc j mod length as)"
proof -
  have "as = take j as @ as ! j # drop (Suc j) as" using assms(2) by (simp add: id_take_nth_drop)
  with assms(1) have "path f (as ! j) (drop (Suc j) as @ take j as) (as ! j)" by (metis ring_rotate)
  then have n: "f (as ! j) = hd ((drop (Suc j) as @ take j as) @ [as ! j])" by (rule path_next)
  show ?thesis
  proof (cases "Suc j < length as")
    case True
    with n show ?thesis by (simp add: hd_drop_conv_nth)
  next
    case False
    with assms(2) have j: "Suc j = length as" by simp
    with n show ?thesis by (cases j) (auto simp: hd_append hd_conv_nth)
  qed
qed

text \<open>The update at the place of insertion.\<close>

lemma ring_insert:
  assumes "ring f (us @ a # vs)" "distinct (us @ a # vs)" "b \<notin> set (us @ a # vs)"
  shows "ring (f(b := f a, a := b)) (us @ a # b # vs)"
proof -
  obtain ws where ws: "ws = vs @ us" by simp
  have p: "path f a ws a" "a \<notin> set ws" "b \<notin> set ws" "b \<noteq> a" using assms by (auto simp: ring_rotate ws)
  have "path (f(b := f a, a := b)) b ws a"
  proof (cases ws)
    case (Cons w ws')
    with p show ?thesis by (auto simp: path_upd)
  qed (use p in auto)
  then have "path (f(b := f a, a := b)) a (b # ws) a" by simp
  then show ?thesis by (simp add: ring_rotate [of _ us a "b # vs"] ws)
qed

lemma ring_remove:
  assumes "ring f (us @ a # b # vs)" "distinct (us @ a # b # vs)"
  shows "ring (f(a := f b)) (us @ a # vs)"
proof -
  obtain ws where ws: "ws = vs @ us" by simp
  have p: "path f a (b # ws) a" "a \<notin> set ws" "b \<noteq> a" using assms ring_rotate [of f us a "b # vs"] by (auto simp: ws)
  have "path (f(a := f b)) a ws a"
  proof (cases ws)
    case (Cons w ws')
    with p show ?thesis by (auto simp: path_upd)
  qed (use p in auto)
  then show ?thesis by (simp add: ring_rotate ws)
qed

lemma ring_off: "x \<notin> set as \<Longrightarrow> ring (f(x := y)) as \<longleftrightarrow> ring f as"
  by (cases as) (auto simp: path_upd)

lemma ring_once_round:
  assumes "ring f as" "distinct as" "a \<in> set as"
  obtains xs where "path f a xs a" "set xs = set as - {a}" "Suc (length xs) = length as" "distinct xs"
proof -
  from split_list [OF assms(3)] obtain us vs where as: "as = us @ a # vs" by blast
  with assms have "path f a (vs @ us) a" by (simp add: ring_rotate)
  then show ?thesis using that [of "vs @ us"] assms(2) as by auto
qed

lemma ring_walk:
  assumes "ring f as" "distinct as" "a \<in> set as" "b \<in> set as" "a \<noteq> b"
  obtains xs where "path f a xs b" "set xs \<subseteq> set as - {a, b}" "length xs < length as"
proof -
  obtain zs where z: "path f a zs a" "set zs = set as - {a}" "Suc (length zs) = length as" "distinct zs"
    using ring_once_round [OF assms(1,2,3)] by blast
  with assms(4,5) have "b \<in> set zs" by simp
  then obtain xs ys where xs: "zs = xs @ b # ys" by (meson split_list)
  show ?thesis
  proof (rule that [of xs])
    show "path f a xs b" using z(1) xs by (simp add: path_append)
    show "set xs \<subseteq> set as - {a, b}" "length xs < length as" using z(2,3,4) xs by auto
  qed
qed

section \<open>Blocks\<close>

text \<open>The bytes of a block, header included; free blocks in order, with a gap before each: neighbours are merged.\<close>

definition blk :: "32 word \<times> 32 word \<Rightarrow> nat set" where
  "blk b = {unat (fst b)..<unat (fst b) + 8 * unat (snd b)}"

fun spaced :: "nat \<Rightarrow> (32 word \<times> 32 word) list \<Rightarrow> nat \<Rightarrow> bool" where
  "spaced lo [] hi \<longleftrightarrow> lo \<le> hi"
| "spaced lo (b # fs) hi \<longleftrightarrow> lo < unat (fst b) \<and> 0 < unat (snd b) \<and> spaced (unat (fst b) + 8 * unat (snd b)) fs hi"

fun endof :: "nat \<Rightarrow> (32 word \<times> 32 word) list \<Rightarrow> nat" where
  "endof lo [] = lo"
| "endof lo (b # fs) = endof (unat (fst b) + 8 * unat (snd b)) fs"

lemma endof_snoc [simp]: "endof lo (fs @ [b]) = unat (fst b) + 8 * unat (snd b)"
  by (induction fs arbitrary: lo) auto

lemma spaced_append: "spaced lo (xs @ ys) hi \<longleftrightarrow> spaced lo xs (endof lo xs) \<and> spaced (endof lo xs) ys hi"
  by (induction xs arbitrary: lo) auto

lemma spaced_le: "spaced lo fs hi \<Longrightarrow> lo \<le> hi"
  by (induction fs arbitrary: lo) force+

lemma spaced_mono: "spaced lo fs hi \<Longrightarrow> hi \<le> hi' \<Longrightarrow> spaced lo fs hi'"
  by (induction fs arbitrary: lo) auto

lemma spaced_mem: "spaced lo fs hi \<Longrightarrow> b \<in> set fs \<Longrightarrow> lo < unat (fst b) \<and> 0 < unat (snd b) \<and> unat (fst b) + 8 * unat (snd b) \<le> hi"
  by (induction fs arbitrary: lo) (auto dest: spaced_le; force)+

lemma spaced_sorted: "spaced lo fs hi \<Longrightarrow> sorted_wrt (<) (map fst fs)"
  by (induction fs arbitrary: lo) (auto simp: word_less_nat_alt; fastforce dest: spaced_mem)+

lemma spaced_below: "spaced lo ls (endof lo ls) \<Longrightarrow> b \<in> set ls \<Longrightarrow> unat (fst b) + 8 * unat (snd b) \<le> endof lo ls"
  using spaced_mem by blast

text \<open>Where a block belongs that overlaps none of the free ones.\<close>

lemma blk_disjoint:
  "0 < unat (snd b) \<Longrightarrow> 0 < unat (snd c) \<Longrightarrow> blk b \<inter> blk c = {} \<longleftrightarrow>
    unat (fst b) + 8 * unat (snd b) \<le> unat (fst c) \<or> unat (fst c) + 8 * unat (snd c) \<le> unat (fst b)"
  unfolding blk_def by (auto simp: disjoint_iff not_le)

lemma spaced_place:
  assumes "spaced lo fs hi" "lo < unat a" "0 < unat n" "\<forall>b \<in> set fs. blk (a, n) \<inter> blk b = {}"
  shows "\<exists>ls rs. fs = ls @ rs \<and> endof lo ls \<le> unat a \<and> (\<forall>b \<in> set rs. unat a + 8 * unat n \<le> unat (fst b))"
  using assms
proof (induction fs arbitrary: lo)
  case (Cons b fs)
  let ?e = "unat (fst b) + 8 * unat (snd b)"
  from Cons.prems have b: "0 < unat (snd b)" "unat a + 8 * unat n \<le> unat (fst b) \<or> ?e \<le> unat a"
    using blk_disjoint [of "(a, n)" b] by simp_all
  have later: "?e < unat (fst c)" "0 < unat (snd c)" if "c \<in> set fs" for c
    using spaced_mem [of ?e fs hi c] Cons.prems(1) that by auto
  consider "unat a + 8 * unat n \<le> unat (fst b)" | "?e = unat a" | "?e < unat a" using b(2) by linarith
  then show ?case
  proof cases
    case 1
    then have "\<forall>c \<in> set (b # fs). unat a + 8 * unat n \<le> unat (fst c)" using later(1) by fastforce
    with Cons.prems show ?thesis by (intro exI [of _ "[]"] exI [of _ "b # fs"]) simp
  next
    case 2
    have "unat a + 8 * unat n \<le> unat (fst c)" if c: "c \<in> set fs" for c
      using blk_disjoint [of "(a, n)" c] Cons.prems(3,4) c later [OF c] 2 by auto
    with 2 show ?thesis by (intro exI [of _ "[b]"] exI [of _ fs]) simp
  next
    case 3
    with Cons.prems Cons.IH [of ?e] obtain ls rs where "fs = ls @ rs" "endof ?e ls \<le> unat a"
      "\<forall>b \<in> set rs. unat a + 8 * unat n \<le> unat (fst b)" by auto
    then show ?thesis by (intro exI [of _ "b # ls"] exI [of _ rs]) simp
  qed
qed (intro exI [of _ "[]"], simp)


text \<open>
  The invariant: \<open>fs\<close> are the free blocks, in order, \<open>us\<close> the allocated ones, and \<open>H\<close> is every byte that
  \<open>morecore\<close> has got from the kernel.
\<close>

definition heap_inv :: "32 word \<Rightarrow> nat set \<Rightarrow> uheap \<Rightarrow> (32 word \<times> 32 word) list \<Rightarrow> (32 word \<times> 32 word) set \<Rightarrow> bool" where
  "heap_inv base H s fs us \<longleftrightarrow>
     ring (uh_ptr s) (base # map fst fs) \<and> uh_freep s \<in> set (base # map fst fs) \<and>
     base \<noteq> 0 \<and> uh_size s base = 0 \<and> (\<forall>b \<in> set fs \<union> us. uh_size s (fst b) = snd b) \<and>
     spaced (unat base + 7) fs (unat (uh_brk s)) \<and> unat base + 8 \<le> unat (uh_brk s) \<and> unat (uh_brk s) \<le> 2 ^ 31 \<and>
     (\<forall>b \<in> us. 0 < unat (snd b) \<and> unat base + 8 \<le> unat (fst b) \<and> unat (fst b) + 8 * unat (snd b) \<le> unat (uh_brk s)) \<and>
     (\<forall>x \<in> us. \<forall>y \<in> us. x \<noteq> y \<longrightarrow> blk x \<inter> blk y = {}) \<and> (\<forall>x \<in> us. blk x \<inter> \<Union> (blk ` set fs) = {}) \<and>
     \<Union> (blk ` (set fs \<union> us)) = H"

lemma heap_invD:
  assumes "heap_inv base H s fs us"
  shows "ring (uh_ptr s) (base # map fst fs)" "uh_freep s \<in> set (base # map fst fs)" "base \<noteq> 0" "uh_size s base = 0"
    "b \<in> set fs \<union> us \<Longrightarrow> uh_size s (fst b) = snd b" "spaced (unat base + 7) fs (unat (uh_brk s))"
    "unat base + 8 \<le> unat (uh_brk s)" "unat (uh_brk s) \<le> 2 ^ 31"
    "b \<in> us \<Longrightarrow> 0 < unat (snd b) \<and> unat base + 8 \<le> unat (fst b) \<and> unat (fst b) + 8 * unat (snd b) \<le> unat (uh_brk s)"
    "x \<in> us \<Longrightarrow> y \<in> us \<Longrightarrow> x \<noteq> y \<Longrightarrow> blk x \<inter> blk y = {}" "x \<in> us \<Longrightarrow> blk x \<inter> \<Union> (blk ` set fs) = {}"
    "\<Union> (blk ` (set fs \<union> us)) = H"
proof -
  note inv = assms [unfolded heap_inv_def]
  show "ring (uh_ptr s) (base # map fst fs)" "uh_freep s \<in> set (base # map fst fs)" "base \<noteq> 0" "uh_size s base = 0"
    "spaced (unat base + 7) fs (unat (uh_brk s))" "unat base + 8 \<le> unat (uh_brk s)" "unat (uh_brk s) \<le> 2 ^ 31"
    "\<Union> (blk ` (set fs \<union> us)) = H" by (insert inv, (elim conjE, assumption)+)
  show "b \<in> set fs \<union> us \<Longrightarrow> uh_size s (fst b) = snd b"
    "b \<in> us \<Longrightarrow> 0 < unat (snd b) \<and> unat base + 8 \<le> unat (fst b) \<and> unat (fst b) + 8 * unat (snd b) \<le> unat (uh_brk s)"
    "x \<in> us \<Longrightarrow> y \<in> us \<Longrightarrow> x \<noteq> y \<Longrightarrow> blk x \<inter> blk y = {}" "x \<in> us \<Longrightarrow> blk x \<inter> \<Union> (blk ` set fs) = {}"
    by (insert inv, (elim conjE, blast)+)
qed

lemma heap_free_block:
  "heap_inv base H s fs us \<Longrightarrow> b \<in> set fs \<Longrightarrow> unat base + 8 \<le> unat (fst b) \<and> 0 < unat (snd b) \<and> unat (fst b) + 8 * unat (snd b) \<le> unat (uh_brk s)"
  using spaced_mem [OF heap_invD(6), of base H s fs us b] by simp

lemma heap_sorted: "heap_inv base H s fs us \<Longrightarrow> sorted_wrt (<) (base # map fst fs)"
  using spaced_sorted [OF heap_invD(6)] heap_free_block
  by (fastforce simp: word_less_nat_alt)

lemma heap_distinct: "heap_inv base H s fs us \<Longrightarrow> distinct (base # map fst fs)"
  using heap_sorted [of base H s fs us] by (simp only: strict_sorted_iff)

lemma heap_apart:
  assumes "heap_inv base H s fs us" "x \<in> us"
  shows "fst x \<notin> set (base # map fst fs)" "y \<in> us \<Longrightarrow> x \<noteq> y \<Longrightarrow> fst x \<noteq> fst y"
proof -
  have own: "unat (fst x) \<in> blk x" using heap_invD(9) [OF assms] by (simp add: blk_def)
  show "fst x \<notin> set (base # map fst fs)"
  proof
    assume "fst x \<in> set (base # map fst fs)"
    then consider "fst x = base" | y where "y \<in> set fs" "fst x = fst y" by auto
    then show False
    proof cases
      case 1
      then show ?thesis using heap_invD(9) [OF assms] by simp
    next
      case (2 y)
      then have "unat (fst x) \<in> blk y" using heap_free_block [OF assms(1)] by (simp add: blk_def)
      with own heap_invD(11) [OF assms] 2(1) show ?thesis by blast
    qed
  qed
  assume y: "y \<in> us" "x \<noteq> y"
  then have "unat (fst y) \<in> blk y" using heap_invD(9) [OF assms(1)] by (simp add: blk_def)
  with own heap_invD(10) [OF assms y] show "fst x \<noteq> fst y" by auto
qed

section \<open>Free\<close>

definition scan_stop :: "32 word \<Rightarrow> uheap \<Rightarrow> 32 word \<Rightarrow> bool" where
  "scan_stop bp s p \<longleftrightarrow> bp > p \<and> bp < uh_ptr s p \<or> p \<ge> uh_ptr s p \<and> (bp > p \<or> bp < uh_ptr s p)"

lemma free_scan_stop: "free_scan (Suc k) bp p s = (if scan_stop bp s p then Inr p else free_scan k bp (uh_ptr s p) s)"
  by (auto simp: scan_stop_def)

lemma free_scan_walk:
  "path (uh_ptr s) a xs p \<Longrightarrow> \<forall>x \<in> set (a # xs). \<not> scan_stop bp s x \<Longrightarrow> scan_stop bp s p \<Longrightarrow>
    length xs + 2 \<le> fuel \<Longrightarrow> free_scan fuel bp a s = Inr p"
proof (induction xs arbitrary: a fuel)
  case Nil
  then obtain k where "fuel = Suc (Suc k)" by (metis Suc_le_D add_2_eq_Suc' list.size(3) plus_nat.add_0 Suc_le_mono)
  with Nil show ?case by (simp add: free_scan_stop del: free_scan.simps)
next
  case (Cons x xs)
  then obtain k where "fuel = Suc k" "length xs + 2 \<le> k" by (cases fuel) auto
  with Cons show ?case by (simp add: free_scan_stop del: free_scan.simps)
qed

text \<open>In a ring in ascending order only the last one below \<open>bp\<close> stops the scan.\<close>

lemma scan_stop_sorted:
  assumes "ring (uh_ptr s) as" "sorted_wrt (<) as" "bp \<notin> set as"
    and low: "\<And>k. k < length as \<Longrightarrow> as ! k < bp \<longleftrightarrow> k \<le> i" and i: "i < length as" and j: "j < length as"
  shows "scan_stop bp s (as ! j) \<longleftrightarrow> j = i"
proof -
  have nx: "uh_ptr s (as ! j) = as ! (Suc j mod length as)" by (rule ring_nth [OF assms(1) j])
  have high: "bp < as ! k \<longleftrightarrow> i < k" if "k < length as" for k
    using low [OF that] assms(3) nth_mem [OF that] by (cases "as ! k" bp rule: linorder_cases) auto
  show ?thesis
  proof (cases "Suc j < length as")
    case True
    then have "as ! j < as ! Suc j" using sorted_wrt_nth_less [OF assms(2)] by simp
    with True show ?thesis by (auto simp: scan_stop_def nx low high)
  next
    case False
    then have "Suc j = length as" using j by simp
    moreover from this have "as ! 0 \<le> as ! j" using sorted_wrt_nth_less [OF assms(2), of 0 j] by (cases j) auto
    moreover have "as ! 0 < bp" using low [of 0] i by (cases as) auto
    ultimately show ?thesis using i j by (auto simp: scan_stop_def nx low high)
  qed
qed


lemma unat_hadd: "unat a + 8 * unat n < 2 ^ 32 \<Longrightarrow> unat (a + 8 * n :: 32 word) = unat a + 8 * unat n"
  by (simp add: unat_word_ariths)

lemma blk_join: "unat (fst b) + 8 * unat (snd b) = unat (fst c) \<Longrightarrow> unat (n :: 32 word) = unat (snd b) + unat (snd c) \<Longrightarrow>
    blk (fst b, n) = blk b \<union> blk c"
  by (auto simp: blk_def)

text \<open>The place of a block that is freed, and what the scan finds.\<close>

lemma free_place:
  assumes inv: "heap_inv base H s fs us" and b: "(b, m) \<in> us" and fuel: "length fs + 2 \<le> fuel"
  obtains ls rs ps p where "fs = ls @ rs" "endof (unat base + 7) ls \<le> unat b" "\<forall>r \<in> set rs. unat b + 8 * unat m \<le> unat (fst r)"
    "base # map fst ls = ps @ [p]" "free_scan fuel b (uh_freep s) s = Inr p"
proof -
  let ?as = "base # map fst fs"
  have m: "0 < unat m" "unat base + 8 \<le> unat b" using heap_invD(9) [OF inv b] by simp_all
  have "\<forall>c \<in> set fs. blk (b, m) \<inter> blk c = {}" using heap_invD(11) [OF inv b] by blast
  with spaced_place [OF heap_invD(6) [OF inv], of b m] m obtain ls rs where fs: "fs = ls @ rs"
    and ls: "endof (unat base + 7) ls \<le> unat b" and rs: "\<forall>r \<in> set rs. unat b + 8 * unat m \<le> unat (fst r)" by force
  obtain ps p where p: "base # map fst ls = ps @ [p]" by (metis list.distinct(1) rev_exhaust)
  have len: "length ls < length ?as" by (simp add: fs)
  have low: "?as ! k < b \<longleftrightarrow> k \<le> length ls" if k: "k < length ?as" for k
  proof (cases k)
    case 0
    then show ?thesis using m by (simp add: word_less_nat_alt)
  next
    case (Suc j)
    show ?thesis
    proof (cases "j < length ls")
      case True
      then have "ls ! j \<in> set ls" by simp
      moreover have "spaced (unat base + 7) ls (endof (unat base + 7) ls)" using heap_invD(6) [OF inv] by (simp add: fs spaced_append)
      ultimately have "unat (fst (ls ! j)) < unat b" using spaced_mem ls by fastforce
      then show ?thesis using True Suc by (simp add: fs nth_append word_less_nat_alt)
    next
      case False
      then have "rs ! (j - length ls) \<in> set rs" using k Suc fs by simp
      then have "unat b \<le> unat (fst (rs ! (j - length ls)))" using rs by fastforce
      then show ?thesis using False k Suc by (simp add: fs nth_append word_less_nat_alt)
    qed
  qed
  have nb: "b \<notin> set ?as" using heap_apart(1) [OF inv b] by simp
  have stop: "scan_stop b s (?as ! j) \<longleftrightarrow> j = length ls" if "j < length ?as" for j
    by (rule scan_stop_sorted [OF heap_invD(1) [OF inv] heap_sorted [OF inv] nb]; use low len that in simp)
  have at: "?as ! length ls = p"
  proof -
    have "?as ! length ls = (base # map fst ls) ! length ls" by (simp add: fs nth_append nth_Cons')
    also have "\<dots> = p" using p by (metis diff_Suc_1 length_Cons length_append_singleton length_map nth_append_length)
    finally show ?thesis .
  qed
  have "free_scan fuel b (uh_freep s) s = Inr p"
  proof (cases "uh_freep s = p")
    case True
    moreover have "scan_stop b s p" using stop [OF len] at by simp
    moreover obtain k where "fuel = Suc k" using fuel by (cases fuel) auto
    ultimately show ?thesis by (simp add: free_scan_stop del: free_scan.simps)
  next
    case False
    have "p \<in> set ?as" using at len by (metis nth_mem)
    then obtain xs where xs: "path (uh_ptr s) (uh_freep s) xs p" "set xs \<subseteq> set ?as - {uh_freep s, p}" "length xs < length ?as"
      using ring_walk [OF heap_invD(1) [OF inv] heap_distinct [OF inv] heap_invD(2) [OF inv]] False by metis
    have "\<not> scan_stop b s x" if x: "x \<in> set (uh_freep s # xs)" for x
    proof -
      from x xs(2) heap_invD(2) [OF inv] have "x \<in> set ?as" "x \<noteq> p" using False by auto
      then obtain k where k: "k < length ?as" "?as ! k = x" by (metis in_set_conv_nth)
      with \<open>x \<noteq> p\<close> at have "k \<noteq> length ls" by auto
      with stop [OF k(1)] k(2) show ?thesis by simp
    qed
    moreover have "scan_stop b s p" using stop [OF len] at by simp
    moreover have "length xs + 2 \<le> fuel" using xs(3) fuel by simp
    ultimately show ?thesis using free_scan_walk [OF xs(1)] by blast
  qed
  with that fs ls rs p show ?thesis by blast
qed


text \<open>Merging with the block above: \<open>q\<close> is what follows, \<open>k\<close> the size and \<open>rs'\<close> the blocks after.\<close>

lemma free_upper:
  assumes inv: "heap_inv base H s (ls @ rs) us" and b: "(b, m) \<in> us"
    and p: "base # map fst ls = ps @ [p]" and rs: "\<forall>r \<in> set rs. unat b + 8 * unat m \<le> unat (fst r)"
  defines "up \<equiv> b + 8 * uh_size s b = uh_ptr s p"
  obtains k q rs' where "k = (if up then uh_size s b + uh_size s (uh_ptr s p) else m)"
    "q = (if up then uh_ptr s (uh_ptr s p) else uh_ptr s p)" "m \<le> k" "length rs' \<le> length rs" "set rs' \<subseteq> set rs"
    "ring ((uh_ptr s)(b := q, p := b)) (ps @ p # b # map fst rs')"
    "spaced (unat b + 8 * unat k) rs' (unat (uh_brk s))" "blk (b, k) \<union> \<Union> (blk ` set rs') = blk (b, m) \<union> \<Union> (blk ` set rs)"
proof -
  let ?f = "uh_ptr s"
  have as: "base # map fst (ls @ rs) = ps @ p # map fst rs" using p by (metis append.assoc append_Cons append_Nil map_append)
  note ring = heap_invD(1) [OF inv, unfolded as] and dist = heap_distinct [OF inv, unfolded as]
  have sb: "uh_size s b = m" using heap_invD(5) [OF inv, of "(b, m)"] b by simp
  note lim = heap_invD(9) [OF inv b] and top = heap_invD(8) [OF inv]
  have bm: "unat (b + 8 * m) = unat b + 8 * unat m" by (rule unat_hadd) (use lim top in simp)
  have nb: "b \<notin> set (ps @ p # map fst rs)" using heap_apart(1) [OF inv b, unfolded as] by simp
  have ins: "ring (?f(b := ?f p, p := b)) (ps @ p # b # map fst rs)" by (rule ring_insert [OF ring dist nb])
  have nx: "?f p = hd (map fst rs @ ps @ [p])"
    using ring ring_rotate [of ?f ps p "map fst rs"] path_next [of ?f p "map fst rs @ ps" p] by simp
  have sp: "spaced (endof (unat base + 7) ls) rs (unat (uh_brk s))"
    using heap_invD(6) [OF inv] by (simp add: spaced_append)
  show ?thesis
  proof (cases up)
    case False
    have "unat b + 8 * unat m < unat (fst r)" if r: "rs = r # rs1" for r rs1
    proof -
      have "fst r \<noteq> b + 8 * m" using False nx r sb by (simp add: up_def)
      then show ?thesis using rs r bm by (metis list.set_intros(1) nat_less_le word_unat_eq_iff)
    qed
    then have "spaced (unat b + 8 * unat m) rs (unat (uh_brk s))" using sp lim by (cases rs) auto
    with that [of m "?f p" rs] False ins show ?thesis by simp
  next
    case True
    have "rs \<noteq> []"
    proof
      assume "rs = []"
      then have "?f p = base" using nx p by (metis append_Nil hd_append2 list.map_disc_iff list.sel(1) snoc_eq_iff_butlast)
      with True bm sb have "unat b + 8 * unat m = unat base" by (simp add: up_def)
      with lim show False by simp
    qed
    then obtain r rs1 where r: "rs = r # rs1" by (cases rs) auto
    with nx have f: "?f p = fst r" by simp
    have adj: "unat b + 8 * unat m = unat (fst r)" using True bm sb f by (simp add: up_def)
    have sr: "uh_size s (fst r) = snd r" using heap_invD(5) [OF inv, of r] r by simp
    have end_r: "unat (fst r) + 8 * unat (snd r) \<le> unat (uh_brk s)" using heap_free_block [OF inv, of r] r by simp
    have sum: "unat (m + snd r) = unat m + unat (snd r)" using end_r adj top by (intro unat_add_lem [THEN iffD1]) simp
    have rne: "fst r \<noteq> p" "fst r \<noteq> b" "p \<noteq> b" using dist nb r by auto
    have "ring ((?f(b := ?f p, p := b))(b := (?f(b := ?f p, p := b)) (fst r))) ((ps @ [p]) @ b # map fst rs1)"
    proof (rule ring_remove)
      show "ring (?f(b := ?f p, p := b)) ((ps @ [p]) @ b # fst r # map fst rs1)" using ins r by simp
      show "distinct ((ps @ [p]) @ b # fst r # map fst rs1)" using dist nb r by auto
    qed
    then have "ring (?f(b := ?f (fst r), p := b)) (ps @ p # b # map fst rs1)" using rne by (simp add: fun_upd_twist)
    moreover have "blk (b, m + snd r) = blk (b, m) \<union> blk r" using blk_join [of "(b, m)" r "m + snd r"] adj sum by simp
    moreover have "spaced (unat b + 8 * unat (m + snd r)) rs1 (unat (uh_brk s))" using sp r sum by (simp add: distrib_left add.assoc flip: adj)
    moreover have "m \<le> m + snd r" using sum by (simp add: word_le_nat_alt)
    ultimately show ?thesis using that [of "m + snd r" "?f (fst r)" rs1] True f sr sb r by auto
  qed
qed


lemma free_ok:
  assumes inv: "heap_inv base H s fs us" and b: "(b, m) \<in> us" and fuel: "length fs + 2 \<le> fuel"
  shows "\<exists>t fs'. free fuel (b + 8) s = Inr t \<and> heap_inv base H t fs' (us - {(b, m)}) \<and> length fs' \<le> Suc (length fs) \<and>
    uh_brk t = uh_brk s \<and> (\<exists>c \<in> set fs'. m \<le> snd c)"
proof -
  obtain ls rs ps p where place: "fs = ls @ rs" "endof (unat base + 7) ls \<le> unat b"
    "\<forall>r \<in> set rs. unat b + 8 * unat m \<le> unat (fst r)" "base # map fst ls = ps @ [p]" "free_scan fuel b (uh_freep s) s = Inr p"
    by (rule free_place [OF inv b fuel])
  let ?f = "uh_ptr s" and ?z = "uh_size s"
  define up where "up \<longleftrightarrow> b + 8 * ?z b = ?f p"
  obtain k q rs' where u: "k = (if up then ?z b + ?z (?f p) else m)" "q = (if up then ?f (?f p) else ?f p)" "m \<le> k"
    "length rs' \<le> length rs" "set rs' \<subseteq> set rs" "ring (?f(b := q, p := b)) (ps @ p # b # map fst rs')"
    "spaced (unat b + 8 * unat k) rs' (unat (uh_brk s))" "blk (b, k) \<union> \<Union> (blk ` set rs') = blk (b, m) \<union> \<Union> (blk ` set rs)"
    unfolding up_def by (rule free_upper [OF inv [unfolded place(1)] b place(4,3)])
  note lim = heap_invD(9) [OF inv b] and top = heap_invD(8) [OF inv]
  have zb: "?z b = m" using heap_invD(5) [OF inv, of "(b, m)"] b by simp
  have pin: "p \<in> set (base # map fst ls)" using place(4) by simp
  have nb: "b \<noteq> p" "b \<notin> set (base # map fst fs)" using heap_apart(1) [OF inv b] pin place(1) by auto
  have kz: "0 < unat k" using lim u(3) by (simp add: word_le_nat_alt)
  let ?z1 = "?z(b := k)"
  define down where "down \<longleftrightarrow> p + 8 * ?z p = b"
  let ?t = "s\<lparr>uh_ptr := (if down then ?f(b := q, p := q) else ?f(b := q, p := b)),
    uh_size := (if down then ?z1(p := ?z p + k) else ?z1), uh_freep := p\<rparr>"
  have run: "free fuel (b + 8) s = Inr ?t"
  proof (cases up)
    case True
    then show ?thesis using nb(1) zb by (auto simp: free_def place(5) Let_def u(1,2) up_def down_def fun_upd_idem)
  next
    case False
    then show ?thesis using nb(1) zb by (auto simp: free_def place(5) Let_def u(1,2) up_def down_def fun_upd_idem)
  qed
  have sizes: "?z1 (fst c) = snd c" if "c \<in> set ls \<union> set rs' \<union> (us - {(b, m)})" for c
  proof -
    have "fst c \<noteq> b" using that heap_apart(2) [OF inv b, of c] nb(2) u(5) place(1) by auto
    then show ?thesis using that heap_invD(5) [OF inv, of c] u(5) place(1) by auto
  qed
  have z0: "?z1 base = 0" using nb(2) heap_invD(4) [OF inv] by auto
  have spl: "spaced (unat base + 7) ls (endof (unat base + 7) ls)" "base \<noteq> 0"
    using heap_invD(3,6) [OF inv] by (simp_all add: place(1) spaced_append)
  have fin: "heap_inv base H t fs' (us - {(b, m)})"
    if "ring (uh_ptr t) (base # map fst fs')" "uh_freep t \<in> set (base # map fst fs')" "uh_size t base = 0"
      "\<And>c. c \<in> set fs' \<union> (us - {(b, m)}) \<Longrightarrow> uh_size t (fst c) = snd c" "spaced (unat base + 7) fs' (unat (uh_brk s))"
      "\<Union> (blk ` set fs') = \<Union> (blk ` set fs) \<union> blk (b, m)" "uh_brk t = uh_brk s" for t fs'
  proof -
    have "blk x \<inter> (\<Union> (blk ` set fs) \<union> blk (b, m)) = {}" if "x \<in> us - {(b, m)}" for x
      using heap_invD(10) [OF inv, of x "(b, m)"] heap_invD(11) [OF inv, of x] b that by blast
    moreover have "\<Union> (blk ` (set fs' \<union> (us - {(b, m)}))) = H"
      unfolding heap_invD(12) [OF inv, symmetric] image_Un Union_Un_distrib that(6) using b by blast
    ultimately show ?thesis using that heap_invD(7,8,9,10) [OF inv] spl(2) unfolding heap_inv_def by simp
  qed
  show ?thesis
  proof (cases down)
    case False
    let ?fs = "ls @ (b, k) # rs'"
    have as: "base # map fst ?fs = ps @ p # b # map fst rs'" using place(4) by simp
    have "endof (unat base + 7) ls \<noteq> unat b"
    proof (cases ls rule: rev_cases)
      case Nil
      with lim show ?thesis by simp
    next
      case (snoc ls' l)
      then have l: "p = fst l" "?z p = snd l" using place(4) heap_invD(5) [OF inv, of l] by (simp_all add: place(1))
      have "unat (fst l) + 8 * unat (snd l) \<le> unat (uh_brk s)" using heap_free_block [OF inv, of l] snoc by (simp add: place(1))
      then have "unat (fst l + 8 * snd l) = unat (fst l) + 8 * unat (snd l)" using top by (intro unat_hadd) simp
      moreover have "fst l + 8 * snd l \<noteq> b" using False l by (simp add: down_def)
      ultimately show ?thesis using snoc by (simp add: word_unat_eq_iff)
    qed
    then have "spaced (unat base + 7) ?fs (unat (uh_brk s))" using spl(1) u(7) kz place(2) by (simp add: spaced_append)
    moreover have "\<Union> (blk ` set ?fs) = \<Union> (blk ` set fs) \<union> blk (b, m)" using u(8) by (auto simp: place(1))
    moreover have "ring (?f(b := q, p := b)) (base # map fst ?fs)" "p \<in> set (base # map fst ?fs)" unfolding as using u(6) by simp_all
    moreover have "?z1 (fst c) = snd c" if "c \<in> set ?fs \<union> (us - {(b, m)})" for c
      using sizes [of c] that by (cases "c = (b, k)") auto
    ultimately have "heap_inv base H (s\<lparr>uh_ptr := ?f(b := q, p := b), uh_size := ?z1, uh_freep := p\<rparr>) ?fs (us - {(b, m)})"
      by (intro fin) (use z0 in simp_all)
    then show ?thesis using run u(3,4) place(1) False by (intro exI [of _ ?t] exI [of _ ?fs]) auto
  next
    case True
    obtain ls' l where l: "ls = ls' @ [l]" "p = fst l" "ps = base # map fst ls'"
    proof (cases ls rule: rev_cases)
      case Nil
      with place(4) have "p = base" by simp
      with True heap_invD(4) [OF inv] have "base = b" by (simp add: down_def)
      with nb(2) show ?thesis by simp
    next
      case (snoc ls' l)
      with that place(4) show ?thesis by simp
    qed
    let ?fs = "ls' @ (fst l, snd l + k) # rs'"
    have zl: "?z p = snd l" using heap_invD(5) [OF inv, of l] l by (simp add: place(1))
    have bp: "base \<noteq> fst l" using heap_distinct [OF inv] l by (auto simp: place(1))
    have le: "unat (fst l) + 8 * unat (snd l) \<le> unat (uh_brk s)" using heap_free_block [OF inv, of l] l by (simp add: place(1))
    then have "unat (fst l + 8 * snd l) = unat (fst l) + 8 * unat (snd l)" using top by (intro unat_hadd) simp
    with True l zl have adj: "unat (fst l) + 8 * unat (snd l) = unat b" by (simp add: down_def)
    have "unat b + 8 * unat k \<le> unat (uh_brk s)" using spaced_le [OF u(7)] .
    then have sum: "unat (snd l + k) = unat (snd l) + unat k" using adj top by (intro unat_add_lem [THEN iffD1]) simp
    have dist: "distinct (ps @ p # b # map fst rs')"
    proof -
      have "distinct (map fst rs')" using spaced_sorted [OF u(7)] by (simp only: strict_sorted_iff)
      moreover have "set (map fst rs') \<subseteq> set (map fst rs)" using u(5) by auto
      moreover have "distinct (ps @ p # map fst rs)" "b \<notin> set (ps @ p # map fst rs)"
        using heap_distinct [OF inv] nb l by (auto simp: place(1))
      ultimately show ?thesis by (simp only: distinct_append distinct.simps set_append list.set insert_iff) blast
    qed
    have "ring ((?f(b := q, p := b))(p := (?f(b := q, p := b)) b)) (ps @ p # map fst rs')"
      by (rule ring_remove [OF u(6) dist])
    then have r: "ring (?f(b := q, p := q)) (base # map fst ?fs)" using nb(1) l by simp
    have "unat (fst l) + 8 * unat (snd l + k) = unat b + 8 * unat k" using sum adj by simp
    moreover have "0 < unat (snd l + k)" using sum kz by simp
    ultimately have "spaced (unat base + 7) ?fs (unat (uh_brk s))" using spl(1) u(7) l(1) by (simp add: spaced_append)
    moreover have "\<Union> (blk ` set ?fs) = \<Union> (blk ` set fs) \<union> blk (b, m)"
      using u(8) blk_join [of l "(b, k)" "snd l + k"] adj sum l(1) by (auto simp: place(1))
    moreover have "(?z1(p := ?z p + k)) (fst c) = snd c" if c: "c \<in> set ?fs \<union> (us - {(b, m)})" for c
    proof (cases "c = (fst l, snd l + k)")
      case False
      with c have c': "c \<in> set ls' \<union> set rs' \<union> (us - {(b, m)})" by auto
      have "fst c \<in> fst ` set ls' \<union> fst ` set rs \<or> c \<in> us" using c' u(5) by blast
      moreover have "p \<notin> fst ` set ls' \<union> fst ` set rs" using heap_distinct [OF inv] l by (simp add: place(1))
      moreover have "c \<in> us \<Longrightarrow> fst c \<noteq> p" using heap_apart(1) [OF inv, of c] l by (auto simp: place(1))
      ultimately have "fst c \<noteq> p" by metis
      then show ?thesis using sizes [of c] c' l(1) by auto
    qed (use l zl in simp)
    ultimately have "heap_inv base H (s\<lparr>uh_ptr := ?f(b := q, p := q), uh_size := ?z1(p := ?z p + k), uh_freep := p\<rparr>) ?fs (us - {(b, m)})"
      by (intro fin) (use r z0 bp l in simp_all)
    moreover have "m \<le> snd l + k" using u(3) sum by (simp add: word_le_nat_alt)
    ultimately show ?thesis using run u(4) place(1) l(1) True by (intro exI [of _ ?t] exI [of _ ?fs]) auto
  qed
qed


section \<open>Malloc\<close>

text \<open>What \<open>sbrk\<close> promises: a process never grows past the kernel's addresses.\<close>

definition sbrk_ok :: "(32 word \<Rightarrow> 32 word \<Rightarrow> bool) \<Rightarrow> bool" where
  "sbrk_ok grant \<longleftrightarrow> (\<forall>b n. unat n < 2 ^ 31 \<longrightarrow> grant b n \<longrightarrow> unat b + unat n \<le> 2 ^ 31)"

lemma heap_grow:
  assumes inv: "heap_inv base H s fs us" and n: "0 < unat n" "unat (uh_brk s) + 8 * unat n \<le> 2 ^ 31"
  defines "b \<equiv> uh_brk s"
  shows "heap_inv base (H \<union> blk (b, n)) (s\<lparr>uh_brk := b + n * 8, uh_size := (uh_size s)(b := n)\<rparr>) fs (insert (b, n) us)"
    "(b, n) \<notin> us"
proof -
  have e: "unat (b + n * 8) = unat b + 8 * unat n" using unat_hadd [of b n] n by (simp add: b_def mult.commute)
  have below: "unat (fst c) < unat b" "blk (b, n) \<inter> blk c = {}" if "c \<in> set fs \<union> us" for c
    using that heap_free_block [OF inv, of c] heap_invD(9) [OF inv, of c] by (auto simp: b_def blk_def)
  show "(b, n) \<notin> us" using below(1) [of "(b, n)"] by auto
  show "heap_inv base (H \<union> blk (b, n)) (s\<lparr>uh_brk := b + n * 8, uh_size := (uh_size s)(b := n)\<rparr>) fs (insert (b, n) us)"
    unfolding heap_inv_def
  proof (intro conjI ballI impI)
    show "ring (uh_ptr (s\<lparr>uh_brk := b + n * 8, uh_size := (uh_size s)(b := n)\<rparr>)) (base # map fst fs)" "base \<noteq> 0"
      "uh_freep (s\<lparr>uh_brk := b + n * 8, uh_size := (uh_size s)(b := n)\<rparr>) \<in> set (base # map fst fs)"
      using heap_invD(1,2,3) [OF inv] by simp_all
    show "uh_size (s\<lparr>uh_brk := b + n * 8, uh_size := (uh_size s)(b := n)\<rparr>) base = 0"
      using heap_invD(4,7) [OF inv] by (auto simp: b_def)
    show "uh_size (s\<lparr>uh_brk := b + n * 8, uh_size := (uh_size s)(b := n)\<rparr>) (fst c) = snd c" if "c \<in> set fs \<union> insert (b, n) us" for c
      using that below(1) [of c] heap_invD(5) [OF inv, of c] by auto
    show "spaced (unat base + 7) fs (unat (uh_brk (s\<lparr>uh_brk := b + n * 8, uh_size := (uh_size s)(b := n)\<rparr>)))"
      using spaced_mono [OF heap_invD(6) [OF inv]] e by (simp add: b_def)
    show "unat base + 8 \<le> unat (uh_brk (s\<lparr>uh_brk := b + n * 8, uh_size := (uh_size s)(b := n)\<rparr>))"
      "unat (uh_brk (s\<lparr>uh_brk := b + n * 8, uh_size := (uh_size s)(b := n)\<rparr>)) \<le> 2 ^ 31"
      using heap_invD(7) [OF inv] e n by (simp_all add: b_def)
    show "0 < unat (snd c)" "unat base + 8 \<le> unat (fst c)"
      "unat (fst c) + 8 * unat (snd c) \<le> unat (uh_brk (s\<lparr>uh_brk := b + n * 8, uh_size := (uh_size s)(b := n)\<rparr>))"
      if "c \<in> insert (b, n) us" for c
      using that heap_invD(7) [OF inv] heap_invD(9) [OF inv, of c] e n by (auto simp: b_def)
    show "blk x \<inter> blk y = {}" if "x \<in> insert (b, n) us" "y \<in> insert (b, n) us" "x \<noteq> y" for x y
      using that below(2) [of x] below(2) [of y] heap_invD(10) [OF inv, of x y] by (auto simp: Int_commute)
    show "blk x \<inter> \<Union> (blk ` set fs) = {}" if "x \<in> insert (b, n) us" for x
      using that below(2) heap_invD(11) [OF inv, of x] by blast
    show "\<Union> (blk ` (set fs \<union> insert (b, n) us)) = H \<union> blk (b, n)" using heap_invD(12) [OF inv] by auto
  qed
qed

lemma morecore_ok:
  assumes inv: "heap_inv base H s fs us" and grant: "sbrk_ok grant" and nu: "unat nu \<le> 2 ^ 27 + 2"
    and fuel: "length fs + 2 \<le> fuel"
  shows "morecore fuel grant nu s = Inr (0, s) \<or>
    (\<exists>t fs'. morecore fuel grant nu s = Inr (uh_freep t, t) \<and> uh_freep t \<noteq> 0 \<and>
      unat (uh_brk s) \<le> unat (uh_brk t) \<and>
      heap_inv base (H \<union> {unat (uh_brk s)..<unat (uh_brk t)}) t fs' us \<and> length fs' \<le> Suc (length fs) \<and> (\<exists>c \<in> set fs'. nu \<le> snd c))"
proof -
  define n where "n = (if nu < 4096 then 4096 else nu)"
  let ?b = "uh_brk s"
  have n: "0 < unat n" "nu \<le> n" "unat n \<le> 2 ^ 27 + 2" using nu by (auto simp: n_def word_less_nat_alt word_le_nat_alt)
  have n8: "unat (n * 8) = 8 * unat n" using n(3) unat_hadd [of 0 n] by (simp add: mult.commute)
  show ?thesis
  proof (cases "grant ?b (n * 8)")
    case False
    then show ?thesis by (simp add: morecore_def sbrk_def n_def Let_def)
  next
    case True
    moreover have "unat (n * 8) < 2 ^ 31" using n8 n(3) by simp
    ultimately have lim: "unat ?b + 8 * unat n \<le> 2 ^ 31" using grant [unfolded sbrk_ok_def, rule_format, of "n * 8" ?b] n8 by simp
    let ?s = "s\<lparr>uh_brk := ?b + n * 8, uh_size := (uh_size s)(?b := n)\<rparr>"
    note g = heap_grow [OF inv n(1) lim]
    obtain t fs' where t: "free fuel (?b + 8) ?s = Inr t" "heap_inv base (H \<union> blk (?b, n)) t fs' (insert (?b, n) us - {(?b, n)})"
      "length fs' \<le> Suc (length fs)" "uh_brk t = uh_brk ?s" "\<exists>c \<in> set fs'. n \<le> snd c"
      using free_ok [OF g(1) _ fuel, of ?b n] by auto
    have us: "insert (?b, n) us - {(?b, n)} = us" using g(2) by simp
    have ub: "unat (uh_brk t) = unat ?b + 8 * unat n" using t(4) unat_hadd [of ?b n] lim by (simp add: mult.commute)
    then have "blk (?b, n) = {unat ?b..<unat (uh_brk t)}" by (simp add: blk_def)
    moreover have "?b \<noteq> -1"
    proof
      assume "?b = -1"
      then have "unat ?b = 4294967295" by (simp add: unsigned_minus_1_eq_mask mask_eq_exp_minus_1)
      with lim show False by simp
    qed
    moreover have "uh_freep t \<noteq> 0"
      using heap_invD(2,3) [OF t(2)] heap_free_block [OF t(2)] by (auto simp: word_unat_eq_iff) force
    moreover have "\<exists>c \<in> set fs'. nu \<le> snd c" using t(5) n(2) order_trans by blast
    ultimately show ?thesis using True t(1,2,3) us
      by (intro disjI2 exI [of _ t] exI [of _ fs']) (simp add: morecore_def sbrk_def n_def [symmetric] Let_def ub)
  qed
qed


text \<open>Taking a block, or its upper part, out of the list.\<close>

lemma heap_pred:
  assumes inv: "heap_inv base H s fs us" and prev: "prev \<in> set (base # map fst fs)" "uh_ptr s prev \<noteq> base"
  obtains ls c rs ps where "fs = ls @ c # rs" "fst c = uh_ptr s prev" "base # map fst ls = ps @ [prev]"
proof -
  let ?as = "base # map fst fs"
  obtain j where j: "j < length ?as" "?as ! j = prev" using prev(1) by (metis in_set_conv_nth)
  have nx: "uh_ptr s prev = ?as ! (Suc j mod length ?as)" using ring_nth [OF heap_invD(1) [OF inv] j(1)] j(2) by simp
  have "Suc j \<noteq> length ?as" using nx prev(2) by auto
  then have sj: "j < length fs" using j(1) by simp
  then have "fs = take j fs @ fs ! j # drop (Suc j) fs" by (simp add: id_take_nth_drop)
  moreover have "fst (fs ! j) = uh_ptr s prev" using nx sj by simp
  moreover have "base # map fst (take j fs) = take j ?as @ [prev]"
    using j sj by (metis take_Suc_Cons take_Suc_conv_app_nth take_map)
  ultimately show ?thesis using that by blast
qed

lemma spaced_disjoint: "spaced lo (ls @ c # rs) hi \<Longrightarrow> d \<in> set ls \<union> set rs \<Longrightarrow> blk c \<inter> blk d = {}"
  using spaced_below [of lo ls d] spaced_mem [of _ rs hi d] by (force simp: spaced_append blk_def)

lemma heap_take:
  assumes inv: "heap_inv base H s (ls @ c # rs) us"
    and parts: "blk u \<union> \<Union> (blk ` set cs) = blk c" "blk u \<inter> \<Union> (blk ` set cs) = {}" "0 < unat (snd u)"
      "unat (fst c) \<le> unat (fst u)" "unat (fst u) + 8 * unat (snd u) = unat (fst c) + 8 * unat (snd c)"
      "cs = [] \<or> cs = [(fst c, lo)] \<and> 0 < unat lo \<and> unat lo \<le> unat (snd c)"
    and t: "ring (uh_ptr t) (base # map fst (ls @ cs @ rs))" "uh_freep t \<in> set (base # map fst (ls @ cs @ rs))"
      "uh_size t base = 0" "\<And>b. b \<in> set (ls @ cs @ rs) \<union> insert u us \<Longrightarrow> uh_size t (fst b) = snd b" "uh_brk t = uh_brk s"
  shows "heap_inv base H t (ls @ cs @ rs) (insert u us)"
  unfolding heap_inv_def
proof (intro conjI)
  note sp = heap_invD(6) [OF inv]
  have c: "unat base + 8 \<le> unat (fst c)" "unat (fst c) + 8 * unat (snd c) \<le> unat (uh_brk s)"
    using heap_free_block [OF inv, of c] by simp_all
  show "spaced (unat base + 7) (ls @ cs @ rs) (unat (uh_brk t))"
    using sp parts(6) unfolding t(5) by (cases rs) (auto simp: spaced_append)
  have cd: "blk c \<inter> blk d = {}" if "d \<in> set ls \<union> set rs \<union> us" for d
  proof (cases "d \<in> us")
    case True
    have "blk c \<subseteq> \<Union> (blk ` set (ls @ c # rs))" by auto
    with heap_invD(11) [OF inv True] show ?thesis by blast
  next
    case False
    with that spaced_disjoint [OF sp] show ?thesis by blast
  qed
  show "\<forall>x \<in> insert u us. \<forall>y \<in> insert u us. x \<noteq> y \<longrightarrow> blk x \<inter> blk y = {}"
    using heap_invD(10) [OF inv] cd parts(1) by blast
  have "blk u \<inter> \<Union> (blk ` (set ls \<union> set rs)) = {}" using cd parts(1) by blast
  moreover have "blk x \<inter> \<Union> (blk ` set (ls @ cs @ rs)) = {}" if "x \<in> us" for x
    using heap_invD(11) [OF inv that] parts(1) by auto
  ultimately show "\<forall>x \<in> insert u us. blk x \<inter> \<Union> (blk ` set (ls @ cs @ rs)) = {}" using parts(2) by auto
  show "\<Union> (blk ` (set (ls @ cs @ rs) \<union> insert u us)) = H"
    using heap_invD(12) [OF inv] unfolding set_append list.set image_Un image_insert Union_Un_distrib Union_insert parts(1) [symmetric] by blast
  show "\<forall>b \<in> insert u us. 0 < unat (snd b) \<and> unat base + 8 \<le> unat (fst b) \<and> unat (fst b) + 8 * unat (snd b) \<le> unat (uh_brk t)"
    using heap_invD(9) [OF inv] parts(3,4,5) c unfolding t(5) by auto
qed (use t heap_invD(3,7,8) [OF inv] in simp_all)

lemma take_block:
  assumes inv: "heap_inv base H s fs us" and prev: "prev \<in> set (base # map fst fs)"
    and nu: "0 < nu" "nu \<le> uh_size s (uh_ptr s prev)"
  defines "p \<equiv> uh_ptr s prev"
  shows "uh_size s p = nu \<Longrightarrow> \<exists>fs'. heap_inv base H (s\<lparr>uh_ptr := (uh_ptr s)(prev := uh_ptr s p), uh_freep := prev\<rparr>) fs' (insert (p, nu) us) \<and>
      length fs' \<le> length fs \<and> (p, nu) \<notin> us"
    "uh_size s p \<noteq> nu \<Longrightarrow> \<exists>fs'. heap_inv base H (s\<lparr>uh_size := (uh_size s)(p := uh_size s p - nu, p + 8 * (uh_size s p - nu) := nu),
        uh_freep := prev\<rparr>) fs' (insert (p + 8 * (uh_size s p - nu), nu) us) \<and> length fs' \<le> length fs \<and>
        (p + 8 * (uh_size s p - nu), nu) \<notin> us"
proof -
  have "p \<noteq> base" using nu heap_invD(4) [OF inv] by (auto simp: p_def)
  then obtain ls c rs ps where c: "fs = ls @ c # rs" "fst c = p" "base # map fst ls = ps @ [prev]"
    using heap_pred [OF inv prev] p_def by metis
  have zc: "uh_size s p = snd c" using heap_invD(5) [OF inv, of c] c by simp
  have as: "base # map fst fs = ps @ prev # p # map fst rs" using c append_assoc [of ps "[prev]"] by simp
  have as': "base # map fst (ls @ [] @ rs) = ps @ prev # map fst rs" using c(3) append_assoc [of ps "[prev]"] by simp
  note top = heap_invD(8) [OF inv]
  have lim: "unat base + 8 \<le> unat (fst c)" "0 < unat (snd c)" "unat (fst c) + 8 * unat (snd c) \<le> unat (uh_brk s)"
    using heap_free_block [OF inv, of c] c(1) by simp_all
  have own: "fst b \<noteq> p" if "b \<in> set ls \<union> set rs \<union> us" for b
  proof (cases "b \<in> us")
    case True
    then show ?thesis using heap_apart(1) [OF inv True] c by auto
  next
    case False
    then show ?thesis using that heap_distinct [OF inv] c(1,2) by (auto simp: rev_image_eqI)
  qed
  show "\<exists>fs'. heap_inv base H (s\<lparr>uh_ptr := (uh_ptr s)(prev := uh_ptr s p), uh_freep := prev\<rparr>) fs' (insert (p, nu) us) \<and>
      length fs' \<le> length fs \<and> (p, nu) \<notin> us" if "uh_size s p = nu"
  proof -
    have pc: "(p, nu) = c" using c(2) zc that by (cases c) simp
    have ring: "ring ((uh_ptr s)(prev := uh_ptr s p)) (base # map fst (ls @ [] @ rs))"
      using ring_remove [of "uh_ptr s" ps prev p "map fst rs"] heap_invD(1) [OF inv] heap_distinct [OF inv] unfolding as as' by simp
    have pin: "prev \<in> set (base # map fst (ls @ [] @ rs))" unfolding as' by simp
    have "heap_inv base H (s\<lparr>uh_ptr := (uh_ptr s)(prev := uh_ptr s p), uh_freep := prev\<rparr>) (ls @ [] @ rs) (insert (p, nu) us)"
      unfolding pc by (rule heap_take [OF inv [unfolded c(1)], where lo = 0])
        (use lim ring pin heap_invD(4) [OF inv] heap_invD(5) [OF inv] c(1) in auto)
    then show ?thesis using c(1) own [of "(p, nu)"] by (intro exI [of _ "ls @ rs"]) auto
  qed
  show "\<exists>fs'. heap_inv base H (s\<lparr>uh_size := (uh_size s)(p := uh_size s p - nu, p + 8 * (uh_size s p - nu) := nu),
        uh_freep := prev\<rparr>) fs' (insert (p + 8 * (uh_size s p - nu), nu) us) \<and> length fs' \<le> length fs \<and>
        (p + 8 * (uh_size s p - nu), nu) \<notin> us" if ne: "uh_size s p \<noteq> nu"
  proof -
    let ?lo = "uh_size s p - nu" let ?q = "p + 8 * ?lo"
    have lo: "unat ?lo = unat (snd c) - unat nu" "unat nu \<le> unat (snd c)" using nu(2) zc by (simp_all add: p_def unat_sub word_le_nat_alt)
    then have lo0: "0 < unat ?lo" using ne zc by (metis diff_is_0_eq eq_iff gr0I word_le_nat_alt word_unat_eq_iff)
    have q: "unat ?q = unat p + 8 * unat ?lo" using lim top lo c(2) by (intro unat_hadd) simp
    have nu0: "0 < unat nu" using nu(1) by (simp add: word_less_nat_alt)
    have qn: "unat ?q + 8 * unat nu = unat p + 8 * unat (snd c)" using q lo by simp
    have inq: "unat ?q \<in> blk c" using qn nu0 q c(2) by (simp add: blk_def)
    have notq: "fst b \<noteq> ?q" if b: "b \<in> set ls \<union> set rs \<union> us" for b
    proof
      assume "fst b = ?q"
      moreover have "0 < unat (snd b)" using b heap_invD(9) [OF inv, of b] heap_free_block [OF inv, of b] c(1) by auto
      ultimately have "unat ?q \<in> blk b" by (simp add: blk_def)
      moreover have "blk c \<inter> blk b = {}" using b spaced_disjoint [OF heap_invD(6) [OF inv, unfolded c(1)], of b] heap_invD(11) [OF inv, of b] c(1) by auto
      ultimately show False using inq by blast
    qed
    have baseq: "base \<noteq> p" "base \<noteq> ?q" using lim q c(2) by auto
    have "heap_inv base H (s\<lparr>uh_size := (uh_size s)(p := ?lo, ?q := nu), uh_freep := prev\<rparr>) (ls @ [(p, ?lo)] @ rs) (insert (?q, nu) us)"
    proof (rule heap_take [OF inv [unfolded c(1)], where lo = ?lo])
      show "blk (?q, nu) \<union> \<Union> (blk ` set [(p, ?lo)]) = blk c" "blk (?q, nu) \<inter> \<Union> (blk ` set [(p, ?lo)]) = {}"
        using q qn c(2) by (auto simp: blk_def)
      have pq: "p \<noteq> ?q" using q lo0 by auto
      show "(uh_size (s\<lparr>uh_size := (uh_size s)(p := ?lo, ?q := nu), uh_freep := prev\<rparr>)) (fst b) = snd b"
        if "b \<in> set (ls @ [(p, ?lo)] @ rs) \<union> insert (?q, nu) us" for b
        using that own [of b] notq [of b] pq heap_invD(5) [OF inv, of b] c(1) by auto
      show "ring (uh_ptr (s\<lparr>uh_size := (uh_size s)(p := ?lo, ?q := nu), uh_freep := prev\<rparr>)) (base # map fst (ls @ [(p, ?lo)] @ rs))"
        "uh_freep (s\<lparr>uh_size := (uh_size s)(p := ?lo, ?q := nu), uh_freep := prev\<rparr>) \<in> set (base # map fst (ls @ [(p, ?lo)] @ rs))"
        using heap_invD(1) [OF inv] prev c(1,2) by auto
    qed (use lo lo0 nu0 q qn c(2) baseq heap_invD(4) [OF inv] in auto)
    then show ?thesis using c(1) notq [of "(?q, nu)"] by (intro exI [of _ "ls @ [(p, ?lo)] @ rs"]) auto
  qed
qed


text \<open>The block that \<open>malloc\<close> found is taken; \<open>q\<close> is its header.\<close>

definition gives :: "32 word \<Rightarrow> nat set \<Rightarrow> 32 word \<Rightarrow> nat \<Rightarrow> (32 word \<times> 32 word) set \<Rightarrow> 32 word \<Rightarrow> 32 word \<times> uheap \<Rightarrow> bool" where
  "gives base H b n us nu = (\<lambda>(r, t). \<exists>q fs'. r = q + 8 \<and> uh_brk t = b \<and> heap_inv base H t fs' (insert (q, nu) us) \<and> length fs' \<le> n \<and> (q, nu) \<notin> us)"

lemma malloc_take:
  assumes "heap_inv base H s fs us" "prev \<in> set (base # map fst fs)" "0 < nu" "nu \<le> uh_size s (uh_ptr s prev)"
  shows "\<exists>r. malloc_loop fuel (Suc k) grant nu prev (uh_ptr s prev) s = Inr r \<and> gives base H (uh_brk s) (length fs) us nu r"
proof (cases "uh_size s (uh_ptr s prev) = nu")
  case True
  from take_block(1) [OF assms True] show ?thesis by (simp add: True gives_def)
next
  case False
  from take_block(2) [OF assms False] show ?thesis using False assms(4) by (simp add: Let_def gives_def)
qed

lemma malloc_walk:
  "path (uh_ptr s) a xs b \<Longrightarrow> \<forall>x \<in> set xs. uh_size s x < nu \<and> x \<noteq> uh_freep s \<Longrightarrow>
    malloc_loop fuel (length xs + k) grant nu a (uh_ptr s a) s = malloc_loop fuel k grant nu (last (a # xs)) b s"
  by (induction xs arbitrary: a) (auto simp: not_le [symmetric])

lemma malloc_round:
  assumes inv: "heap_inv base H s fs us" and nu: "0 < nu" and k: "length fs + 1 \<le> k"
  shows "(\<exists>x \<in> set (base # map fst fs). nu \<le> uh_size s x) \<Longrightarrow>
      \<exists>r. malloc_loop fuel k grant nu (uh_freep s) (uh_ptr s (uh_freep s)) s = Inr r \<and> gives base H (uh_brk s) (length fs) us nu r"
    "\<not> (\<exists>x \<in> set (base # map fst fs). nu \<le> uh_size s x) \<Longrightarrow>
      malloc_loop fuel k grant nu (uh_freep s) (uh_ptr s (uh_freep s)) s =
        bindE (morecore fuel grant nu s) (\<lambda>(p, s). if p = 0 then Inr (0, s) else malloc_loop fuel (k - Suc (length fs)) grant nu p (uh_ptr s p) s)"
proof -
  let ?as = "base # map fst fs" and ?a = "uh_freep s"
  obtain zs where z: "path (uh_ptr s) ?a zs ?a" "set zs = set ?as - {?a}" "Suc (length zs) = length ?as"
    using ring_once_round [OF heap_invD(1) [OF inv] heap_distinct [OF inv] heap_invD(2) [OF inv]] by metis
  have stay: "last (?a # xs) \<in> set ?as" if "set xs \<subseteq> set zs" for xs
  proof -
    have "set zs \<subseteq> set ?as" unfolding z(2) by (rule Diff_subset)
    then have "set (?a # xs) \<subseteq> set ?as"
      using order_trans [OF that] heap_invD(2) [OF inv] by (simp only: list.set(2) insert_subset)
    then show ?thesis using last_in_set [of "?a # xs"] by blast
  qed
  have pnx: "path (uh_ptr s) a xs b \<Longrightarrow> uh_ptr s (last (a # xs)) = b" for a xs b
    by (induction xs arbitrary: a) auto
  show "\<exists>r. malloc_loop fuel k grant nu ?a (uh_ptr s ?a) s = Inr r \<and> gives base H (uh_brk s) (length fs) us nu r"
    if big: "\<exists>x \<in> set ?as. nu \<le> uh_size s x"
  proof -
    have "\<exists>xs b. path (uh_ptr s) ?a xs b \<and> set xs \<subseteq> set zs \<and> (\<forall>x \<in> set xs. uh_size s x < nu) \<and> nu \<le> uh_size s b \<and> length xs \<le> length zs"
    proof (cases "\<exists>x \<in> set zs. nu \<le> uh_size s x")
      case True
      from split_list_first_prop [OF this] obtain xs x ys
        where "zs = xs @ x # ys" "nu \<le> uh_size s x" "\<forall>y \<in> set xs. \<not> nu \<le> uh_size s y" by blast
      with z(1) show ?thesis by (intro exI [of _ xs] exI [of _ x]) (simp add: path_append not_le, blast)
    next
      case False
      with big z(2) have "nu \<le> uh_size s ?a" by auto
      with z(1) False show ?thesis by (intro exI [of _ zs] exI [of _ ?a]) (auto simp: not_le)
    qed
    then obtain xs b where x: "path (uh_ptr s) ?a xs b" "set xs \<subseteq> set zs" "\<forall>x \<in> set xs. uh_size s x < nu" "nu \<le> uh_size s b"
      "length xs \<le> length zs" by blast
    have "length xs < k" using k x(5) z(3) by simp
    then obtain j where "k = length xs + Suc j" by (metis less_iff_Suc_add add_Suc_right)
    moreover have "\<forall>x \<in> set xs. uh_size s x < nu \<and> x \<noteq> ?a" using x(2,3) z(2) by auto
    ultimately show ?thesis
      using malloc_walk [OF x(1), of nu fuel "Suc j" grant] malloc_take [OF inv stay [OF x(2)] nu] pnx [OF x(1)] x(4) by metis
  qed
  show "malloc_loop fuel k grant nu ?a (uh_ptr s ?a) s = bindE (morecore fuel grant nu s)
      (\<lambda>(p, s). if p = 0 then Inr (0, s) else malloc_loop fuel (k - Suc (length fs)) grant nu p (uh_ptr s p) s)"
    if small: "\<not> (\<exists>x \<in> set ?as. nu \<le> uh_size s x)"
  proof -
    have "\<forall>x \<in> set zs. uh_size s x < nu \<and> x \<noteq> ?a" using small z(2) by (auto simp: not_le)
    moreover have "k = length zs + Suc (k - Suc (length fs))" using k z(3) by simp
    moreover have "\<not> nu \<le> uh_size s ?a" using small heap_invD(2) [OF inv] by blast
    ultimately show ?thesis using malloc_walk [OF z(1), of nu fuel "Suc (k - Suc (length fs))" grant] by simp
  qed
qed


definition units :: "32 word \<Rightarrow> 32 word" where
  "units nbytes = (nbytes + 8 - 1) div 8 + 1"

lemma unat_units: "unat n \<le> 2 ^ 30 \<Longrightarrow> unat (units n) = (unat n + 7) div 8 + 1"
proof -
  assume n: "unat n \<le> 2 ^ 30"
  have "n + 8 - 1 = n + 7" by simp
  moreover have "unat (n + 7) = unat n + 7" using n by (simp add: unat_word_ariths)
  ultimately have d: "unat ((n + 8 - 1) div 8) = (unat n + 7) div 8" by (simp only: unat_div) simp
  then have "unat ((n + 8 - 1) div 8) \<le> (2 ^ 30 + 7) div 8" using n by (simp add: div_le_mono)
  with d show ?thesis unfolding units_def by (simp add: unat_word_ariths)
qed

lemma first_use_ready [simp]: "uh_freep s \<noteq> 0 \<Longrightarrow> first_use base s = s"
  by (simp add: first_use_def)

lemma heap_freep: "heap_inv base H s fs us \<Longrightarrow> uh_freep s \<noteq> 0"
  using heap_invD(2,3) [of base H s fs us] heap_free_block [of base H s fs us] by (auto simp: word_unat_eq_iff) force

lemma malloc_ok:
  assumes inv: "heap_inv base H (first_use base s) fs us" and grant: "sbrk_ok grant" and n: "unat n \<le> 2 ^ 30"
    and fuel: "2 * length fs + 4 \<le> fuel"
  shows "malloc fuel grant base n s = Inr (0, first_use base s) \<or>
    (\<exists>q t fs'. malloc fuel grant base n s = Inr (q + 8, t) \<and> length fs' \<le> Suc (length fs) \<and> (q, units n) \<notin> us \<and> unat (uh_brk s) \<le> unat (uh_brk t) \<and>
      heap_inv base (H \<union> {unat (uh_brk s)..<unat (uh_brk t)}) t fs' (insert (q, units n) us))"
proof -
  let ?s = "first_use base s" and ?nu = "units n"
  have brk: "uh_brk ?s = uh_brk s" by (simp add: first_use_def)
  have nu: "0 < ?nu" "unat ?nu \<le> 2 ^ 27 + 2" using unat_units [OF n] n by (simp_all add: word_less_nat_alt)
  have m: "malloc fuel grant base n s = malloc_loop fuel fuel grant ?nu (uh_freep ?s) (uh_ptr ?s (uh_freep ?s)) ?s"
    by (simp add: malloc_def units_def Let_def)
  show ?thesis
  proof (cases "\<exists>x \<in> set (base # map fst fs). ?nu \<le> uh_size ?s x")
    case True
    from malloc_round(1) [OF inv nu(1) _ True, of fuel fuel grant] fuel obtain q t fs' where
      "malloc fuel grant base n s = Inr (q + 8, t)" "heap_inv base H t fs' (insert (q, ?nu) us)" "length fs' \<le> length fs"
      "(q, ?nu) \<notin> us" "uh_brk t = uh_brk s"
      unfolding m by (auto simp: gives_def brk)
    then show ?thesis by (intro disjI2 exI [of _ q] exI [of _ t] exI [of _ fs']) simp
  next
    case False
    let ?rest = "\<lambda>(p, s). if p = 0 then Inr (0, s) else malloc_loop fuel (fuel - Suc (length fs)) grant ?nu p (uh_ptr s p) s"
    have run: "malloc fuel grant base n s = bindE (morecore fuel grant ?nu ?s) ?rest"
      unfolding m using malloc_round(2) [OF inv nu(1) _ False, of fuel fuel grant] fuel by simp
    have f2: "length fs + 2 \<le> fuel" using fuel by simp
    from morecore_ok [OF inv grant nu(2) f2] show ?thesis
    proof (elim disjE exE conjE)
      assume "morecore fuel grant ?nu ?s = Inr (0, ?s)"
      then show ?thesis by (simp add: run)
    next
      fix t :: uheap and fs'
      let ?H = "H \<union> {unat (uh_brk ?s)..<unat (uh_brk t)}"
      assume t: "morecore fuel grant ?nu ?s = Inr (uh_freep t, t)" "uh_freep t \<noteq> 0" "heap_inv base ?H t fs' us"
        "length fs' \<le> Suc (length fs)" "\<exists>c \<in> set fs'. ?nu \<le> snd c" "unat (uh_brk ?s) \<le> unat (uh_brk t)"
      then obtain c where "c \<in> set fs'" "?nu \<le> uh_size t (fst c)" using heap_invD(5) [OF t(3)] by auto
      then have big: "\<exists>x \<in> set (base # map fst fs'). ?nu \<le> uh_size t x" by auto
      have f3: "length fs' + 1 \<le> fuel - Suc (length fs)" using fuel t(4) by simp
      obtain q u fs'' where "malloc_loop fuel (fuel - Suc (length fs)) grant ?nu (uh_freep t) (uh_ptr t (uh_freep t)) t = Inr (q + 8, u)"
        "heap_inv base ?H u fs'' (insert (q, ?nu) us)" "length fs'' \<le> length fs'" "(q, ?nu) \<notin> us" "uh_brk u = uh_brk t"
        using malloc_round(1) [OF t(3) nu(1) f3 big, of fuel grant] by (auto simp: gives_def)
      then show ?thesis using t(1,2,4,6) brk by (intro disjI2 exI [of _ q] exI [of _ u] exI [of _ fs'']) (simp add: run)
    qed
  qed
qed

section \<open>Programs that allocate\<close>

text \<open>
  A program as the calls it makes: \<open>Free i\<close> frees the block that was allocated last but \<open>i\<close> among those it
  still has. \<open>live\<close> are these blocks, each with the size it asked for.
\<close>

datatype uop = Malloc "32 word" | Free nat

fun uop_step :: "nat \<Rightarrow> (32 word \<Rightarrow> 32 word \<Rightarrow> bool) \<Rightarrow> 32 word \<Rightarrow> uop \<Rightarrow> uheap \<times> (32 word \<times> 32 word) list \<Rightarrow>
    (uheap \<times> (32 word \<times> 32 word) list) res" where
  "uop_step fuel grant base (Malloc n) (s, live) =
     bindE (malloc fuel grant base n s) (\<lambda>(p, t). Inr (t, if p = 0 then live else (p, n) # live))"
| "uop_step fuel grant base (Free i) (s, live) =
     (if i < length live then bindE (free fuel (fst (live ! i)) s) (\<lambda>t. Inr (t, take i live @ drop (Suc i) live))
      else Inr (s, live))"

definition header_of :: "32 word \<times> 32 word \<Rightarrow> 32 word \<times> 32 word" where
  "header_of b = (fst b - 8, units (snd b))"

definition live_inv :: "32 word \<Rightarrow> nat \<Rightarrow> nat \<Rightarrow> uheap \<times> (32 word \<times> 32 word) list \<Rightarrow> bool" where
  "live_inv base start c = (\<lambda>(s, live). \<exists>fs. heap_inv base {start..<unat (uh_brk s)} (first_use base s) fs (header_of ` set live) \<and>
     length fs \<le> c \<and> distinct (map fst live) \<and> (live \<noteq> [] \<longrightarrow> uh_freep s \<noteq> 0) \<and> start \<le> unat (uh_brk s) \<and>
     (\<forall>b \<in> set live. unat (snd b) \<le> 2 ^ 30))"

lemma header_of_new: "header_of (q + 8, n) = (q, units n)"
  by (simp add: header_of_def)

lemma header_of_inj: "distinct (map fst live) \<Longrightarrow> inj_on header_of (set live)"
  by (auto simp: inj_on_def header_of_def distinct_map)

lemma set_without: "distinct (map fst live) \<Longrightarrow> i < length live \<Longrightarrow> set (take i live @ drop (Suc i) live) = set live - {live ! i}"
proof -
  assume d: "distinct (map fst live)" and i: "i < length live"
  have "live = take i live @ live ! i # drop (Suc i) live" using i by (rule id_take_nth_drop)
  moreover have "distinct live" using d by (simp add: distinct_map)
  ultimately show ?thesis by (metis Diff_insert_absorb Un_insert_right distinct.simps(2) distinct_append list.simps(15) not_distinct_conv_prefix set_append Un_iff distinct_append insert_disjoint(2))
qed

lemma uop_step_ok:
  assumes j: "live_inv base start c (s, live)" and grant: "sbrk_ok grant" and fuel: "2 * c + 4 \<le> fuel"
    and n: "\<And>n. op = Malloc n \<Longrightarrow> unat n \<le> 2 ^ 30"
  shows "\<exists>r. uop_step fuel grant base op (s, live) = Inr r \<and> live_inv base start (Suc c) r"
proof -
  obtain fs where inv: "heap_inv base {start..<unat (uh_brk s)} (first_use base s) fs (header_of ` set live)" "length fs \<le> c"
    "distinct (map fst live)" "live \<noteq> [] \<longrightarrow> uh_freep s \<noteq> 0" "start \<le> unat (uh_brk s)"
    "\<forall>b \<in> set live. unat (snd b) \<le> 2 ^ 30" using j by (auto simp: live_inv_def)
  show ?thesis
  proof (cases op)
    case (Malloc n)
    have un: "unat n \<le> 2 ^ 30" using n Malloc by simp
    have f: "2 * length fs + 4 \<le> fuel" using fuel inv(2) by simp
    from malloc_ok [OF inv(1) grant un f] show ?thesis
    proof (elim disjE exE conjE)
      assume m: "malloc fuel grant base n s = Inr (0, first_use base s)"
      have "uh_brk (first_use base s) = uh_brk s" by (simp add: first_use_def)
      with m inv heap_freep [OF inv(1)] show ?thesis by (auto simp: Malloc live_inv_def intro!: exI [of _ fs])
    next
      fix q t fs'
      assume m: "malloc fuel grant base n s = Inr (q + 8, t)" "length fs' \<le> Suc (length fs)" "(q, units n) \<notin> header_of ` set live"
        "unat (uh_brk s) \<le> unat (uh_brk t)"
        and t: "heap_inv base ({start..<unat (uh_brk s)} \<union> {unat (uh_brk s)..<unat (uh_brk t)}) t fs' (insert (q, units n) (header_of ` set live))"
      have "{start..<unat (uh_brk s)} \<union> {unat (uh_brk s)..<unat (uh_brk t)} = {start..<unat (uh_brk t)}" using inv(5) m(4) by auto
      with t have t: "heap_inv base {start..<unat (uh_brk t)} t fs' (header_of ` set ((q + 8, n) # live))" by (simp add: header_of_new)
      have q: "unat q + 8 * unat (units n) \<le> 2 ^ 31" "0 < unat (units n)"
        using heap_invD(8) [OF t] heap_invD(9) [OF t, of "(q, units n)"] by (auto simp: header_of_new)
      then have "q + 8 \<noteq> 0" by (auto simp: word_unat_eq_iff unat_word_ariths)
      moreover have "q + 8 \<notin> set (map fst live)"
      proof
        assume "q + 8 \<in> set (map fst live)"
        then obtain k where k: "(q + 8, k) \<in> set live" by auto
        then have "header_of (q + 8, k) = (q, units n)"
          using heap_apart(2) [OF t, of "(q, units n)" "header_of (q + 8, k)"] by (force simp: header_of_new)
        with k m(3) show False by (metis image_eqI)
      qed
      ultimately show ?thesis using m inv t un heap_freep [OF t] by (auto simp: Malloc live_inv_def intro!: exI [of _ fs'])
    qed
  next
    case (Free i)
    show ?thesis
    proof (cases "i < length live")
      case False
      with j show ?thesis by (auto simp: Free live_inv_def)
    next
      case True
      let ?b = "live ! i" and ?l = "take i live @ drop (Suc i) live"
      have s: "first_use base s = s" using inv(4) True by auto
      have b: "(fst ?b - 8, units (snd ?b)) \<in> header_of ` set live" using True by (metis header_of_def image_eqI nth_mem)
      have f: "length fs + 2 \<le> fuel" using fuel inv(2) by simp
      obtain t fs' where t: "free fuel (fst ?b - 8 + 8) s = Inr t" "length fs' \<le> Suc (length fs)" "uh_brk t = uh_brk s"
        "heap_inv base {start..<unat (uh_brk s)} t fs' (header_of ` set live - {(fst ?b - 8, units (snd ?b))})"
        using free_ok [OF inv(1) b f] unfolding s by blast
      have "header_of ` set ?l = header_of ` set live - {header_of ?b}"
        using inj_on_image_set_diff [OF header_of_inj [OF inv(3)], of "set live" "{?b}"] True by (simp only: set_without [OF inv(3) True]) auto
      then have "heap_inv base {start..<unat (uh_brk t)} t fs' (header_of ` set ?l)" using t(3,4) by (simp add: header_of_def)
      moreover have "distinct (map fst ?l)"
        using inv(3) set_take_disj_set_drop_if_distinct [OF inv(3), of i "Suc i"] distinct_take [OF inv(3), of i] distinct_drop [OF inv(3), of "Suc i"]
        by (simp add: take_map drop_map)
      ultimately show ?thesis using t inv heap_freep [of base _ t fs'] True
        by (auto simp: Free live_inv_def intro!: exI [of _ fs'] dest: in_set_takeD in_set_dropD)
    qed
  qed
qed


lemma uop_steps_ok:
  "live_inv base start c r \<Longrightarrow> sbrk_ok grant \<Longrightarrow> 2 * (c + length ops) + 4 \<le> fuel \<Longrightarrow> \<forall>n. Malloc n \<in> set ops \<longrightarrow> unat n \<le> 2 ^ 30 \<Longrightarrow>
    \<exists>r'. foldE (uop_step fuel grant base) ops r = Inr r' \<and> live_inv base start (c + length ops) r'"
proof (induction ops arbitrary: c r)
  case (Cons op ops)
  obtain s live where r: "r = (s, live)" by (cases r)
  have "\<exists>r'. uop_step fuel grant base op r = Inr r' \<and> live_inv base start (Suc c) r'"
    unfolding r by (rule uop_step_ok) (use Cons.prems r in auto)
  then obtain r' where r': "uop_step fuel grant base op r = Inr r'" "live_inv base start (Suc c) r'" by blast
  with Cons.IH [OF r'(2)] Cons.prems show ?case by simp
qed simp

lemma payload_in_block: "unat q + 8 * unat (units n) \<le> 2 ^ 31 \<Longrightarrow> unat n \<le> 2 ^ 30 \<Longrightarrow>
    {unat (q + 8)..<unat (q + 8) + unat n} \<subseteq> blk (q, units n)"
  using unat_units [of n] by (auto simp: blk_def unat_word_ariths)

text \<open>
  C10. Blocks of \<open>malloc\<close> never overlap. Take any program that allocates blocks of at most \<open>2^30\<close> bytes and frees
  them, in any order, while the kernel grants or refuses the memory asked for at its will. Every call
  returns; every block that is not freed yet lies, with the bytes asked for, in memory that the kernel has
  granted; no two of them share a byte; and no memory is lost: the free list that starts at \<open>base\<close> is in order of addresses, no two of its blocks
  touch, and every byte granted is in exactly one free or allocated block.
\<close>

theorem malloc_disjoint:
  assumes "sbrk_ok grant" "base \<noteq> 0" "uh_freep s = 0" "unat base + 8 \<le> unat (uh_brk s)" "unat (uh_brk s) \<le> 2 ^ 31"
    and "\<forall>n. Malloc n \<in> set ops \<longrightarrow> unat n \<le> 2 ^ 30" "2 * length ops + 4 \<le> fuel"
  shows "\<exists>t live fs. foldE (uop_step fuel grant base) ops (s, []) = Inr (t, live) \<and>
    (\<forall>(p, n) \<in> set live. {unat p..<unat p + unat n} \<subseteq> {unat (uh_brk s)..<unat (uh_brk t)}) \<and>
    (\<forall>i < length live. \<forall>j < length live. i \<noteq> j \<longrightarrow>
       {unat (fst (live ! i))..<unat (fst (live ! i)) + unat (snd (live ! i))} \<inter>
       {unat (fst (live ! j))..<unat (fst (live ! j)) + unat (snd (live ! j))} = {}) \<and>
    heap_inv base {unat (uh_brk s)..<unat (uh_brk t)} (first_use base t) fs (header_of ` set live)"
proof -
  have "heap_inv base {unat (uh_brk s)..<unat (uh_brk s)} (first_use base s) [] {}"
    using assms(2-5) by (simp add: heap_inv_def first_use_def)
  then have "live_inv base (unat (uh_brk s)) 0 (s, [])" by (auto simp: live_inv_def)
  from uop_steps_ok [OF this assms(1) _ assms(6), of fuel] assms(7) obtain t live where
    run: "foldE (uop_step fuel grant base) ops (s, []) = Inr (t, live)" and l: "live_inv base (unat (uh_brk s)) (length ops) (t, live)" by auto
  let ?H = "{unat (uh_brk s)..<unat (uh_brk t)}"
  obtain fs where inv: "heap_inv base ?H (first_use base t) fs (header_of ` set live)" "distinct (map fst live)"
    "\<forall>b \<in> set live. unat (snd b) \<le> 2 ^ 30" using l by (auto simp: live_inv_def)
  have pay: "{unat (fst b)..<unat (fst b) + unat (snd b)} \<subseteq> blk (header_of b)" if "b \<in> set live" for b
  proof -
    have "header_of b \<in> header_of ` set live" using that by (rule imageI)
    from heap_invD(9) [OF inv(1) this] heap_invD(8) [OF inv(1)] have "unat (fst b - 8) + 8 * unat (units (snd b)) \<le> 2 ^ 31"
      by (simp add: header_of_def)
    with payload_in_block [of "fst b - 8" "snd b"] inv(3) that show ?thesis by (simp add: header_of_def)
  qed
  show ?thesis
  proof (intro exI conjI)
    show "foldE (uop_step fuel grant base) ops (s, []) = Inr (t, live)" by (rule run)
    show "heap_inv base ?H (first_use base t) fs (header_of ` set live)" by (rule inv(1))
    have "blk (header_of b) \<subseteq> ?H" if "b \<in> set live" for b using heap_invD(12) [OF inv(1)] that by blast
    then show "\<forall>(p, n) \<in> set live. {unat p..<unat p + unat n} \<subseteq> ?H"
      using order_trans [OF pay] by (intro ballI) (simp only: case_prod_unfold)
    show "\<forall>i < length live. \<forall>j < length live. i \<noteq> j \<longrightarrow>
       {unat (fst (live ! i))..<unat (fst (live ! i)) + unat (snd (live ! i))} \<inter>
       {unat (fst (live ! j))..<unat (fst (live ! j)) + unat (snd (live ! j))} = {}"
    proof (intro allI impI)
      fix i j assume ij: "i < length live" "j < length live" "i \<noteq> j"
      have "distinct live" using inv(2) by (simp add: distinct_map)
      with ij have "live ! i \<noteq> live ! j" by (simp add: nth_eq_iff_index_eq)
      then have "header_of (live ! i) \<noteq> header_of (live ! j)"
        using inj_on_eq_iff [OF header_of_inj [OF inv(2)] nth_mem nth_mem] ij by simp
      then have "blk (header_of (live ! i)) \<inter> blk (header_of (live ! j)) = {}" 
        by (rule heap_invD(10) [OF inv(1) imageI [OF nth_mem [OF ij(1)]] imageI [OF nth_mem [OF ij(2)]]])
      moreover have "{unat (fst (live ! i))..<unat (fst (live ! i)) + unat (snd (live ! i))} \<subseteq> blk (header_of (live ! i))"
        "{unat (fst (live ! j))..<unat (fst (live ! j)) + unat (snd (live ! j))} \<subseteq> blk (header_of (live ! j))"
        using pay ij by (simp_all only: nth_mem)
      ultimately show "{unat (fst (live ! i))..<unat (fst (live ! i)) + unat (snd (live ! i))} \<inter>
          {unat (fst (live ! j))..<unat (fst (live ! j)) + unat (snd (live ! j))} = {}" by blast
    qed
  qed
qed

definition below_kernel :: "32 word \<Rightarrow> 32 word \<Rightarrow> bool" where
  "below_kernel b n \<longleftrightarrow> b \<le> 0x80000000 \<and> n \<le> 0x80000000 - b"

definition new_process :: uheap where
  "new_process = \<lparr>uh_ptr = (\<lambda>_. 0), uh_size = (\<lambda>_. 0), uh_freep = 0, uh_brk = 0x3000\<rparr>"

theorem malloc_disjoint_witness:
  "\<exists>t fs. foldE (uop_step 14 below_kernel 0x1800) [Malloc 100, Malloc 3000, Malloc 8, Free 1, Malloc 20] (new_process, []) =
      Inr (t, [(0xAF78, 20), (0xA3C8, 8), (0xAF98, 100)]) \<and>
    heap_inv 0x1800 {0x3000..<unat (uh_brk t)} (first_use 0x1800 t) fs (header_of ` set [(0xAF78, 20), (0xA3C8, 8), (0xAF98, 100)])"
proof -
  let ?ops = "[Malloc 100, Malloc 3000, Malloc 8, Free 1, Malloc 20]"
  have "sbrk_ok below_kernel" by (auto simp: sbrk_ok_def below_kernel_def word_le_nat_alt unat_sub)
  from malloc_disjoint [OF this, where base = "0x1800" and s = new_process and ops = ?ops and fuel = "14"] obtain t live fs where
    r: "foldE (uop_step 14 below_kernel 0x1800) ?ops (new_process, []) = Inr (t, live)"
      "heap_inv 0x1800 {unat (uh_brk new_process)..<unat (uh_brk t)} (first_use 0x1800 t) fs (header_of ` set live)"
    by (auto simp: new_process_def)
  have "case foldE (uop_step 14 below_kernel 0x1800) ?ops (new_process, []) of
      Inr (t, live) \<Rightarrow> live = [(0xAF78, 20), (0xA3C8, 8), (0xAF98, 100)] | _ \<Rightarrow> False"
    by code_simp
  then have "live = [(0xAF78, 20), (0xA3C8, 8), (0xAF98, 100)]" unfolding r(1) by simp
  with r show ?thesis unfolding new_process_def uheap.simps by (intro exI [of _ t] exI [of _ fs] conjI) simp_all
qed

text \<open>A size next to \<open>2 ^ 32\<close> wraps around when it is rounded up: the answer is a block for no bytes at all.\<close>

lemma malloc_huge_is_empty: "0xFFFFFFF9 \<le> nbytes \<Longrightarrow> malloc fuel grant base nbytes s = malloc fuel grant base 0 s"
proof -
  assume n: "0xFFFFFFF9 \<le> nbytes"
  have "unat (nbytes + 7) = (unat nbytes + 7) mod 2 ^ 32" by (simp add: unat_word_ariths)
  moreover have "0xFFFFFFF9 \<le> unat nbytes" using n by (simp add: word_le_nat_alt)
  moreover have "unat nbytes < 2 ^ 32" using unsigned_less [of nbytes] by simp
  ultimately have "unat (nbytes + 7) < 8" by (simp add: mod_if [of "unat nbytes + 7"])
  then have "nbytes + 7 < 8" by (simp add: word_less_nat_alt)
  from div_word_less [OF this] have "(7 + nbytes) div 8 = 0" by (simp only: add.commute)
  then show ?thesis by (simp add: malloc_def)
qed

end
