(* ===== verification/Grep.thy ===== *)
theory Grep
  imports Prelude
begin

text \<open>
  The xv6 user program \<open>grep\<close> (\<open>grep.c\<close>): the Kernighan and Pike matcher and the loop that reads the
  input through a 1024-byte buffer. The input is a list of characters and \<open>ks\<close> is how much each
  \<open>read\<close> delivers at most. A C string is the list of its characters before the NUL.
\<close>

section \<open>The matcher\<close>

abbreviation star :: char where "star \<equiv> CHR ''*''"
abbreviation dollar :: char where "dollar \<equiv> CHR ''$''"
abbreviation caret :: char where "caret \<equiv> CHR 0x5E"
abbreviation anychar :: char where "anychar \<equiv> CHR ''.''"
abbreviation newline :: char where "newline \<equiv> CHR 0x0A"
abbreviation nul :: char where "nul \<equiv> CHR 0x00"

function (sequential) matchhere :: "string \<Rightarrow> string \<Rightarrow> bool"
  and matchstar :: "char \<Rightarrow> string \<Rightarrow> string \<Rightarrow> bool" where
  "matchhere [] text = True"
| "matchhere (c # r) text =
     (if r \<noteq> [] \<and> hd r = star then matchstar c (tl r) text
      else if c = dollar \<and> r = [] then text = []
      else text \<noteq> [] \<and> (c = anychar \<or> c = hd text) \<and> matchhere r (tl text))"
| "matchstar c re text =
     (if matchhere re text then True
      else if text \<noteq> [] \<and> (hd text = c \<or> c = anychar) then matchstar c re (tl text) else False)"
  by pat_completeness auto
termination
  by (relation "measures [\<lambda>x. case x of Inl (re, text) \<Rightarrow> length re | Inr (c, re, text) \<Rightarrow> Suc (length re),
      \<lambda>x. case x of Inl (re, text) \<Rightarrow> length text | Inr (c, re, text) \<Rightarrow> length text]")
    (auto simp: Suc_le_eq)

declare matchhere.simps(2) [simp del] matchstar.simps [simp del]

fun match_from :: "string \<Rightarrow> string \<Rightarrow> bool" where
  "match_from re [] = matchhere re []"
| "match_from re (t # ts) = (matchhere re (t # ts) \<or> match_from re ts)"

definition match :: "string \<Rightarrow> string \<Rightarrow> bool" where
  "match re text = (if re \<noteq> [] \<and> hd re = caret then matchhere (tl re) text else match_from re text)"

section \<open>Input\<close>

text \<open>The lines in the buffer, up to the last newline: what is printed, and what is left over.\<close>

function grep_scan :: "string \<Rightarrow> string \<Rightarrow> string \<times> string" where
  "grep_scan pat p =
     (let line = takeWhile (\<lambda>c. c \<noteq> newline \<and> c \<noteq> nul) p; q = dropWhile (\<lambda>c. c \<noteq> newline \<and> c \<noteq> nul) p
      in if q \<noteq> [] \<and> hd q = newline then
           case grep_scan pat (tl q) of (out, rest) \<Rightarrow> ((if match pat line then line @ [newline] else []) @ out, rest)
         else ([], p))"
  by pat_completeness auto
termination
proof (relation "measure (\<lambda>(pat, p). length p)", goal_cases)
  case (2 pat p line q)
  have "length q \<le> length p" using 2(2) by (simp add: length_dropWhile_le)
  with 2(3) show ?case by (cases q) auto
qed simp

declare grep_scan.simps [simp del]

abbreviation BUF :: nat where "BUF \<equiv> 1024"

fun grep_loop :: "string \<Rightarrow> string \<Rightarrow> string \<Rightarrow> nat list \<Rightarrow> string" where
  "grep_loop pat pend inp [] = []"
| "grep_loop pat pend inp (k # ks) =
     (let n = min k (BUF - length pend - 1); chunk = take n inp
      in if chunk = [] then []
         else case grep_scan pat (pend @ chunk) of (out, rest) \<Rightarrow>
           out @ grep_loop pat (if rest = pend @ chunk then [] else rest) (drop n inp) ks)"

definition grep :: "string \<Rightarrow> string \<Rightarrow> nat list \<Rightarrow> string" where
  "grep pat inp ks = grep_loop pat [] inp ks"

section \<open>What a pattern means\<close>

text \<open>A pattern is a sequence of atoms; \<open>$\<close> at its end asks that the text ends there.\<close>

datatype atom = Star char | One char

fun atoms :: "string \<Rightarrow> atom list \<times> bool" where
  "atoms [] = ([], False)"
| "atoms [c] = (if c = dollar then ([], True) else ([One c], False))"
| "atoms (c # d # re) =
     (if d = star then (case atoms re of (as, e) \<Rightarrow> (Star c # as, e))
      else (case atoms (d # re) of (as, e) \<Rightarrow> (One c # as, e)))"

definition fits :: "char \<Rightarrow> char \<Rightarrow> bool" where
  "fits c t \<longleftrightarrow> c = anychar \<or> c = t"

fun lang :: "atom list \<Rightarrow> string set" where
  "lang [] = {[]}"
| "lang (One c # as) = {t # u |t u. fits c t \<and> u \<in> lang as}"
| "lang (Star c # as) = {u @ v |u v. (\<forall>t \<in> set u. fits c t) \<and> v \<in> lang as}"

definition prefix_in :: "string \<Rightarrow> string \<Rightarrow> bool" where
  "prefix_in re text \<longleftrightarrow> (\<exists>u v. text = u @ v \<and> u \<in> lang (fst (atoms re)) \<and> (snd (atoms re) \<longrightarrow> v = []))"

lemma matcher_meaning:
  "matchhere re tx \<longleftrightarrow> prefix_in re tx"
  "matchstar c re tx \<longleftrightarrow> (\<exists>u v. tx = u @ v \<and> (\<forall>t \<in> set u. fits c t) \<and> prefix_in re v)"
proof (induction re tx and c re tx rule: matchhere_matchstar.induct)
  case (1 tx)
  show ?case by (simp add: prefix_in_def)
next
  case (2 c r tx)
  show ?case
  proof (cases "r \<noteq> [] \<and> hd r = star")
    case True
    then obtain r' where r: "r = star # r'" by (cases r) auto
    have "prefix_in (c # r) tx \<longleftrightarrow> (\<exists>u v. tx = u @ v \<and> (\<forall>t \<in> set u. fits c t) \<and> prefix_in r' v)"
    proof
      have a: "atoms (c # r) = (Star c # fst (atoms r'), snd (atoms r'))" by (simp add: r split: prod.split)
      assume "prefix_in (c # r) tx"
      then obtain x v where x: "tx = x @ v" "x \<in> lang (Star c # fst (atoms r'))" "snd (atoms r') \<longrightarrow> v = []"
        unfolding prefix_in_def a fst_conv snd_conv by blast
      then obtain y z where h: "tx = x @ v" "x = y @ z" "\<forall>t \<in> set y. fits c t" "z \<in> lang (fst (atoms r'))"
        "snd (atoms r') \<longrightarrow> v = []" by auto
      then have "prefix_in r' (z @ v)" "tx = y @ z @ v" by (auto simp: prefix_in_def)
      with h(3) show "\<exists>u v. tx = u @ v \<and> (\<forall>t \<in> set u. fits c t) \<and> prefix_in r' v" by blast
    next
      assume "\<exists>u v. tx = u @ v \<and> (\<forall>t \<in> set u. fits c t) \<and> prefix_in r' v"
      then obtain y z v where h: "tx = y @ z @ v" "\<forall>t \<in> set y. fits c t" "z \<in> lang (fst (atoms r'))"
        "snd (atoms r') \<longrightarrow> v = []" by (auto simp: prefix_in_def)
      have a: "atoms (c # r) = (Star c # fst (atoms r'), snd (atoms r'))" by (simp add: r split: prod.split)
      have "y @ z \<in> lang (Star c # fst (atoms r'))" using h(2,3) by auto
      then have "y @ z \<in> lang (fst (atoms (c # r)))" "snd (atoms (c # r)) = snd (atoms r')"
        unfolding a by simp_all
      then show "prefix_in (c # r) tx" unfolding prefix_in_def h(1)
        by (intro exI [of _ "y @ z"] exI [of _ v]) (use h(4) in simp)
    qed
    then show ?thesis using 2(1) True r by (simp add: matchhere.simps(2))
  next
    case ns: False
    show ?thesis
    proof (cases "c = dollar \<and> r = []")
      case True
      then show ?thesis by (auto simp: matchhere.simps(2) prefix_in_def)
    next
      case False
      have a: "atoms (c # r) = (One c # fst (atoms r), snd (atoms r))"
        using ns False by (cases r) (auto split: prod.split)
      have "prefix_in (c # r) tx \<longleftrightarrow> tx \<noteq> [] \<and> fits c (hd tx) \<and> prefix_in r (tl tx)"
      proof (cases tx)
        case Nil
        then show ?thesis by (simp add: prefix_in_def a)
      next
        case (Cons t ts)
        have "prefix_in (c # r) (t # ts) \<longleftrightarrow> fits c t \<and> prefix_in r ts"
        proof
          assume "prefix_in (c # r) (t # ts)"
          then obtain x v where x: "t # ts = x @ v" "x \<in> lang (One c # fst (atoms r))" "snd (atoms r) \<longrightarrow> v = []"
            unfolding prefix_in_def a fst_conv snd_conv by blast
          then obtain u where "x = t # u" "fits c t" "u \<in> lang (fst (atoms r))" "ts = u @ v" by auto
          with x(3) show "fits c t \<and> prefix_in r ts" unfolding prefix_in_def by blast
        next
          assume f: "fits c t \<and> prefix_in r ts"
          then obtain u v where u: "ts = u @ v" "u \<in> lang (fst (atoms r))" "snd (atoms r) \<longrightarrow> v = []"
            unfolding prefix_in_def by blast
          then have "t # ts = (t # u) @ v" "t # u \<in> lang (One c # fst (atoms r))" using f by auto
          with u(3) show "prefix_in (c # r) (t # ts)" unfolding prefix_in_def a fst_conv snd_conv by blast
        qed
        then show ?thesis by (simp add: Cons)
      qed
      then show ?thesis using 2(2) ns False by (auto simp: matchhere.simps(2) fits_def)
    qed
  qed
next
  case (3 c re tx)
  have "matchstar c re tx \<longleftrightarrow> prefix_in re tx \<or>
      (tx \<noteq> [] \<and> fits c (hd tx) \<and> (\<exists>u v. tl tx = u @ v \<and> (\<forall>t \<in> set u. fits c t) \<and> prefix_in re v))"
    using 3 by (auto simp: matchstar.simps [of c re tx] fits_def)
  also have "\<dots> \<longleftrightarrow> (\<exists>u v. tx = u @ v \<and> (\<forall>t \<in> set u. fits c t) \<and> prefix_in re v)" (is "?l \<longleftrightarrow> ?r")
  proof
    assume ?l
    then show ?r
    proof
      assume "prefix_in re tx"
      then show ?r by (intro exI [of _ "[]"] exI [of _ tx]) simp
    next
      assume h: "tx \<noteq> [] \<and> fits c (hd tx) \<and> (\<exists>u v. tl tx = u @ v \<and> (\<forall>t \<in> set u. fits c t) \<and> prefix_in re v)"
      then obtain u v where u: "tl tx = u @ v" "\<forall>t \<in> set u. fits c t" "prefix_in re v" by blast
      then have "tx = (hd tx # u) @ v" using h by (cases tx) auto
      then show ?r using h u(2,3) by (intro exI [of _ "hd tx # u"] exI [of _ v]) auto
    qed
  next
    assume ?r
    then obtain u v where u: "tx = u @ v" "\<forall>t \<in> set u. fits c t" "prefix_in re v" by blast
    then show ?l by (cases u) auto
  qed
  finally show ?case .
qed

lemma match_from_iff: "match_from re tx \<longleftrightarrow> (\<exists>u v. tx = u @ v \<and> matchhere re v)"
  by (induction tx) (auto simp: Cons_eq_append_conv)

text \<open>
  C20. \<open>match\<close> decides the language of the pattern: with a leading \<open>^\<close> some prefix of the tx is in it,
  and otherwise some substring; a final \<open>$\<close> asks that it ends where the tx does.
\<close>

theorem match_meaning:
  "match re tx \<longleftrightarrow>
    (if re \<noteq> [] \<and> hd re = caret then prefix_in (tl re) tx else (\<exists>w v. tx = w @ v \<and> prefix_in re v))"
  by (simp add: match_def match_from_iff matcher_meaning(1))

section \<open>What grep prints\<close>

definition nl_lines :: "string list \<Rightarrow> string" where
  "nl_lines ls = concat (map (\<lambda>l. l @ [newline]) ls)"

definition matching :: "string \<Rightarrow> string list \<Rightarrow> string" where
  "matching pat ls = nl_lines (filter (match pat) ls)"

definition plain_line :: "string \<Rightarrow> bool" where
  "plain_line l \<longleftrightarrow> newline \<notin> set l \<and> nul \<notin> set l"

lemma nl_lines_simps [simp]: "nl_lines [] = []" "nl_lines (l # ls) = l @ newline # nl_lines ls"
  "nl_lines (ls @ ms) = nl_lines ls @ nl_lines ms"
  by (simp_all add: nl_lines_def)

lemma matching_append: "matching pat (ls @ ms) = matching pat ls @ matching pat ms"
  by (simp add: matching_def)

lemma plain_line_while:
  assumes "plain_line l"
  shows "takeWhile (\<lambda>c. c \<noteq> newline \<and> c \<noteq> nul) (l @ newline # q) = l"
    "dropWhile (\<lambda>c. c \<noteq> newline \<and> c \<noteq> nul) (l @ newline # q) = newline # q"
    "dropWhile (\<lambda>c. c \<noteq> newline \<and> c \<noteq> nul) l = []"
  using assms by (auto simp: plain_line_def takeWhile_append dropWhile_append)

lemma grep_scan_lines:
  assumes "\<forall>l \<in> set ls. plain_line l" "plain_line r"
  shows "grep_scan pat (nl_lines ls @ r) = (matching pat ls, r)"
  using assms(1)
proof (induction ls)
  case Nil
  then show ?case using plain_line_while(3) [OF assms(2)] by (subst grep_scan.simps) (simp add: matching_def)
next
  case (Cons l ls)
  then have pl: "plain_line l" by simp
  show ?case
    using Cons plain_line_while(1,2) [OF pl] by (subst grep_scan.simps) (simp add: matching_def)
qed

text \<open>Cutting the input at any point: some whole lines, and a piece of the next one.\<close>

lemma cut_lines:
  assumes "\<forall>l \<in> set ls. plain_line l" "n \<le> length (nl_lines ls)"
  shows "\<exists>as bs r q. ls = as @ bs \<and> take n (nl_lines ls) = nl_lines as @ r \<and> plain_line r \<and>
    ((r = [] \<and> drop n (nl_lines ls) = nl_lines bs) \<or>
     (\<exists>l bs'. bs = l # bs' \<and> l = r @ q \<and> drop n (nl_lines ls) = q @ newline # nl_lines bs'))"
  using assms
proof (induction ls arbitrary: n)
  case Nil
  then show ?case by (intro exI [of _ "[]"]) (simp add: plain_line_def)
next
  case (Cons l ls)
  show ?case
  proof (cases "n \<le> length l")
    case True
    have "plain_line (take n l)" using Cons.prems(1) by (auto simp: plain_line_def dest: in_set_takeD)
    then show ?thesis
      using True by (intro exI [of _ "[]"] exI [of _ "l # ls"] exI [of _ "take n l"] exI [of _ "drop n l"]) simp
  next
    case False
    then obtain m where m: "n = length l + Suc m" by (metis add_Suc_right less_natE not_le_imp_less)
    have pr: "\<forall>l \<in> set ls. plain_line l" "m \<le> length (nl_lines ls)" using Cons.prems m by auto
    obtain as bs r q where h: "ls = as @ bs" "take m (nl_lines ls) = nl_lines as @ r" "plain_line r"
      "(r = [] \<and> drop m (nl_lines ls) = nl_lines bs) \<or>
     (\<exists>l bs'. bs = l # bs' \<and> l = r @ q \<and> drop m (nl_lines ls) = q @ newline # nl_lines bs')"
      using Cons.IH [OF pr] by (elim exE conjE) (rule that)
    have "take n (nl_lines (l # ls)) = nl_lines (l # as) @ r" "drop n (nl_lines (l # ls)) = drop m (nl_lines ls)"
      using h(2) m by simp_all
    note tk = this
    show ?thesis
    proof (intro exI conjI)
      show "l # ls = (l # as) @ bs" using h(1) by simp
      show "take n (nl_lines (l # ls)) = nl_lines (l # as) @ r" by (rule tk(1))
      show "plain_line r" by (rule h(3))
      show "(r = [] \<and> drop n (nl_lines (l # ls)) = nl_lines bs) \<or>
        (\<exists>l' bs'. bs = l' # bs' \<and> l' = r @ q \<and> drop n (nl_lines (l # ls)) = q @ newline # nl_lines bs')"
        unfolding tk(2) by (rule h(4))
    qed
  qed
qed

lemma plain_append: "plain_line (r @ q) \<longleftrightarrow> plain_line r \<and> plain_line q"
  by (auto simp: plain_line_def)

text \<open>The loop, with the part \<open>r\<close> of the next line in the buffer.\<close>

lemma grep_loop_lines:
  assumes "\<forall>l \<in> set (l # ls). plain_line l \<and> length l < 512" "l = r @ q" "\<forall>k \<in> set ks. 512 \<le> k"
    "length q + length (nl_lines ls) < length ks"
  shows "grep_loop pat r (q @ newline # nl_lines ls) ks = matching pat (l # ls)"
  using assms
proof (induction ks arbitrary: l ls r q)
  case Nil
  then show ?case by simp
next
  case (Cons k ks)
  let ?inp = "q @ newline # nl_lines ls"
  define n where "n = min (min k (BUF - length r - 1)) (length ?inp)"
  have lr: "length r + length q < 512" using Cons.prems(1,2) by simp
  have n: "length q + 1 \<le> n" "n \<le> length ?inp" "take (min k (BUF - length r - 1)) ?inp = take n ?inp"
    "drop (min k (BUF - length r - 1)) ?inp = drop n ?inp"
    using lr Cons.prems(3) by (auto simp: n_def min_def)
  define m where "m = n - length q - 1"
  have nm: "n = length q + Suc m" using n(1) by (simp add: m_def)
  have tk: "r @ take n ?inp = l @ newline # take m (nl_lines ls)" "drop n ?inp = drop m (nl_lines ls)"
    using nm Cons.prems(2) by simp_all
  have pl: "\<forall>l \<in> set ls. plain_line l" "m \<le> length (nl_lines ls)" using Cons.prems(1) n(2) nm by auto
  obtain as bs r' q' where c: "ls = as @ bs" "take m (nl_lines ls) = nl_lines as @ r'" "plain_line r'"
    "(r' = [] \<and> drop m (nl_lines ls) = nl_lines bs) \<or>
     (\<exists>l bs'. bs = l # bs' \<and> l = r' @ q' \<and> drop m (nl_lines ls) = q' @ newline # nl_lines bs')"
    using cut_lines [OF pl] by (elim exE conjE) (rule that)
  have buf: "r @ take n ?inp = nl_lines (l # as) @ r'" using tk(1) c(2) by simp
  have "\<forall>x \<in> set (l # as). plain_line x" using Cons.prems(1) c(1) by auto
  then have sc: "grep_scan pat (r @ take n ?inp) = (matching pat (l # as), r')"
    unfolding buf using c(3) by (rule grep_scan_lines)
  have ne: "take n ?inp \<noteq> []" "r' \<noteq> r @ take n ?inp" using n(1) buf by auto
  have step: "grep_loop pat r ?inp (k # ks) = matching pat (l # as) @ grep_loop pat r' (drop m (nl_lines ls)) ks"
    using ne sc by (simp only: grep_loop.simps Let_def n(3,4) tk(2) prod.case if_False if_True)
  have rest: "grep_loop pat r' (drop m (nl_lines ls)) ks = matching pat bs"
  proof (cases "bs = []")
    case True
    then have "r' = []" "drop m (nl_lines ls) = []" using c(4) by auto
    then show ?thesis using True by (cases ks) (simp_all add: matching_def)
  next
    case False
    then obtain b bs' where b: "bs = b # bs'" by (cases bs) auto
    obtain q'' where q'': "b = r' @ q''" "drop m (nl_lines ls) = q'' @ newline # nl_lines bs'"
      using c(4) b by auto
    have "length (drop m (nl_lines ls)) < length ks + 1" using Cons.prems(4) by simp
    then have "length q'' + length (nl_lines bs') < length ks" unfolding q''(2) by simp
    moreover have "\<forall>x \<in> set (b # bs'). plain_line x \<and> length x < 512" using Cons.prems(1) c(1) b by auto
    ultimately show ?thesis unfolding q''(2) b using q''(1) Cons.prems(3) by (intro Cons.IH) simp_all
  qed
  show ?case using step rest by (simp add: c(1) matching_append [of pat "l # as" bs, simplified])
qed

text \<open>
  C39. On a file of lines shorter than half the buffer (and without NULs), read in pieces of 512 or more
  bytes, \<open>grep\<close> prints exactly the lines that match, in order, however the reads cut the lines.
\<close>

theorem grep_prints_matching:
  assumes "\<forall>l \<in> set ls. newline \<notin> set l \<and> nul \<notin> set l \<and> length l < 512" "\<forall>k \<in> set ks. 512 \<le> k"
    "length (concat (map (\<lambda>l. l @ [newline]) ls)) < length ks"
  shows "grep pat (concat (map (\<lambda>l. l @ [newline]) ls)) ks = concat (map (\<lambda>l. l @ [newline]) (filter (match pat) ls))"
proof (cases ls)
  case Nil
  then show ?thesis by (cases ks) (simp_all add: grep_def)
next
  case (Cons l ms)
  have "grep_loop pat [] (l @ newline # nl_lines ms) ks = matching pat (l # ms)"
    by (rule grep_loop_lines) (use assms Cons in \<open>auto simp: plain_line_def nl_lines_def\<close>)
  then show ?thesis using Cons by (simp add: grep_def matching_def nl_lines_def)
qed

theorem grep_prints_matching_witness:
  "grep ''b*$'' (''ab'' @ [newline] @ ''x'' @ [newline] @ ''^'' @ [newline]) (replicate 20 512) =
     ''ab'' @ [newline] @ ''x'' @ [newline] @ ''^'' @ [newline] \<and>
   grep ''^a.'' (''ab'' @ [newline] @ ''x'' @ [newline]) (replicate 20 512) = ''ab'' @ [newline]"
  using grep_prints_matching [of "[''ab'', ''x'', ''^'']" "replicate 20 512" "''b*$''"]
    grep_prints_matching [of "[''ab'', ''x'']" "replicate 20 512" "''^a.''"]
  by (simp add: match_def matchhere.simps matchstar.simps)

text \<open>
  A read that ends before the first newline loses what it read: the buffer is emptied although it
  is not full, so a line that arrives in two pieces is matched and printed without its beginning.
\<close>

theorem grep_drops_partial_line:
  assumes "plain_line a" "plain_line b" "0 < length a" "length a < 1024" "length b < 1023"
  shows "grep pat (a @ b @ [newline]) [length a, length b + 1] = (if match pat b then b @ [newline] else [])"
proof -
  have "grep_scan pat a = ([], a)" using grep_scan_lines [of "[]" a pat] assms(1) by (simp add: matching_def)
  moreover have "grep_scan pat (b @ [newline]) = (matching pat [b], [])"
    using grep_scan_lines [of "[b]" "[]" pat] assms(2) by (simp add: plain_line_def)
  ultimately show ?thesis using assms by (simp add: grep_def matching_def)
qed

theorem grep_drops_partial_line_witness:
  "grep ''^hello'' (''hel'' @ ''lo'' @ [newline]) [3, 3] = [] \<and> match ''^hello'' (''hel'' @ ''lo'')"
proof -
  have "grep ''^hello'' (''hel'' @ ''lo'' @ [newline]) [length ''hel'', length ''lo'' + 1] =
      (if match ''^hello'' ''lo'' then ''lo'' @ [newline] else [])"
    by (rule grep_drops_partial_line) (simp_all add: plain_line_def)
  then show ?thesis by (simp add: match_def matchhere.simps matchstar.simps numeral_3_eq_3)
qed

end
