(* ===== verification/Sh.thy ===== *)
theory Sh
  imports Prelude
begin

text \<open>
  The xv6 shell, \<open>sh.c\<close>: its recursive-descent parser, and what running a parsed command asks of the
  kernel. The text left to parse is the rest of the string, so a token is a piece of it
  (\<open>nulterminate\<close>, which ends the tokens in place, has nothing left to do). The four mutually recursive
  parsing functions take fuel; \<open>parsecmd\<close> gives them \<open>4 * length s + 4\<close>, which is enough for every input.
  The shell's own \<open>panic\<close> prints its message and exits: \<open>Inl (Panic msg)\<close>.
\<close>

section \<open>Tokens\<close>

definition whitespace :: string where
  "whitespace = [CHR 0x20, CHR 0x09, CHR 0x0D, CHR 0x0A, CHR 0x0B]"

definition symbols :: string where
  "symbols = ''<|>&;()''"

definition skip :: "string \<Rightarrow> string" where
  "skip s = dropWhile (\<lambda>c. c \<in> set whitespace) s"

definition word_char :: "char \<Rightarrow> bool" where
  "word_char c \<longleftrightarrow> c \<notin> set whitespace \<and> c \<notin> set symbols"

text \<open>\<open>peek\<close> also moves the pointer over the blanks; so does whatever follows it.\<close>

definition peek :: "string \<Rightarrow> string \<Rightarrow> bool" where
  "peek s toks \<longleftrightarrow> skip s \<noteq> [] \<and> hd (skip s) \<in> set toks"

abbreviation eof :: char where "eof \<equiv> CHR 0x00"

definition gettoken :: "string \<Rightarrow> char \<times> string \<times> string" where
  "gettoken s =
     (case skip s of
        [] \<Rightarrow> (eof, [], [])
      | c # cs \<Rightarrow>
        if c \<in> set ''|();&<'' then (c, [c], skip cs)
        else if c = CHR ''>'' then
          (if cs \<noteq> [] \<and> hd cs = CHR ''>'' then (CHR ''+'', ''>>'', skip (tl cs)) else (CHR ''>'', ''>'', skip cs))
        else (CHR ''a'', takeWhile word_char (c # cs), skip (dropWhile word_char (c # cs))))"

abbreviation tok_rest :: "string \<Rightarrow> string" where "tok_rest s \<equiv> snd (snd (gettoken s))"

lemma skip_length: "length (skip s) \<le> length s"
  unfolding skip_def by (rule length_dropWhile_le)

lemma skip_skip [simp]: "skip (skip s) = skip s"
  by (induction s) (auto simp: skip_def)

lemma gettoken_length: "skip s \<noteq> [] \<Longrightarrow> length (tok_rest s) < length s"
proof -
  assume "skip s \<noteq> []"
  then obtain c cs where c: "skip s = c # cs" by (cases "skip s") auto
  have l: "length cs < length s" using skip_length [of s] c by simp
  have k: "length (skip x) < length s" if "length x \<le> length cs" for x
    using skip_length [of x] that l by linarith
  have t: "length (tl cs) \<le> length cs" by simp
  have d: "length (dropWhile word_char (c # cs)) \<le> length cs" if "word_char c"
    using that length_dropWhile_le [of word_char cs] by simp
  have "c \<notin> set whitespace" using c hd_dropWhile [of "\<lambda>c. c \<in> set whitespace" s] by (simp add: skip_def)
  then have w: "c \<notin> set ''|();&<'' \<Longrightarrow> c \<noteq> CHR ''>'' \<Longrightarrow> word_char c" by (auto simp: word_char_def symbols_def)
  show ?thesis using k [OF order.refl] k [OF t] k [OF d] w by (auto simp: gettoken_def c)
qed

lemma peek_length: "peek s toks \<Longrightarrow> length (tok_rest s) < length s"
  by (rule gettoken_length) (simp add: peek_def)

lemma tok_rest_length: "length (tok_rest s) \<le> length s"
  using gettoken_length [of s] by (cases "skip s = []") (auto simp: gettoken_def)

lemma gettoken_word_length: "fst (gettoken s) \<noteq> eof \<Longrightarrow> length (tok_rest s) < length s"
  by (rule gettoken_length) (auto simp: gettoken_def)

lemma peek_length2: "peek s toks \<Longrightarrow> length (tok_rest (tok_rest s)) < length s"
  using peek_length [of s toks] tok_rest_length [of "tok_rest s"] by linarith

section \<open>Commands\<close>

datatype cmd =
    EXEC "string list"
  | REDIR cmd string nat nat
  | PIPE cmd cmd
  | LIST cmd cmd
  | BACK cmd

abbreviation MAXARGS :: nat where "MAXARGS \<equiv> 10"
abbreviation RD_MODE :: nat where "RD_MODE \<equiv> 0"
abbreviation WR_MODE :: nat where "WR_MODE \<equiv> 0x201"

type_synonym redir = "string \<times> nat \<times> nat"

text \<open>\<open>redirs\<close> is the loop of \<open>parseredirs\<close>; the redirections wrap the command in the order they are read.\<close>

function redirs :: "string \<Rightarrow> (redir list \<times> string) res" where
  "redirs s =
     (if peek s ''<>'' then
        case gettoken s of (tok, _, s') \<Rightarrow>
          case gettoken s' of (tok2, q, s'') \<Rightarrow>
            if tok2 \<noteq> CHR ''a'' then Inl (Panic ''missing file for redirection'')
            else bindE (redirs s'') (\<lambda>(rs, s).
              Inr ((if tok = CHR ''<'' then (q, RD_MODE, 0) else (q, WR_MODE, 1)) # rs, s))
      else Inr ([], skip s))"
  by pat_completeness auto
termination
  by (relation "measure length") (auto simp: prod_eq_iff dest!: peek_length2 intro: less_le_trans)

declare redirs.simps [simp del]

definition wrap :: "cmd \<Rightarrow> redir list \<Rightarrow> cmd" where
  "wrap c rs = foldl (\<lambda>c (fname, mode, fd). REDIR c fname mode fd) c rs"

definition parseredirs :: "cmd \<Rightarrow> string \<Rightarrow> (cmd \<times> string) res" where
  "parseredirs c s = bindE (redirs s) (\<lambda>(rs, s). Inr (wrap c rs, s))"

lemma redirs_length: "redirs s = Inr (rs, t) \<Longrightarrow> length t \<le> length s"
proof (induction s arbitrary: rs t rule: redirs.induct)
  case (1 s)
  show ?case
  proof (cases "peek s ''<>''")
    case False
    with 1(2) show ?thesis using skip_length by (auto simp: redirs.simps [of s])
  next
    case True
    obtain tok x s' where g: "gettoken s = (tok, x, s')" by (metis prod_cases3)
    obtain tok2 q s'' where g2: "gettoken s' = (tok2, q, s'')" by (metis prod_cases3)
    from 1(2) True g g2 obtain rs' where r: "redirs s'' = Inr (rs', t)" "tok2 = CHR ''a''"
      by (auto simp: redirs.simps [of s] split: if_splits)
    have "length s' < length s" using peek_length [OF True] g by simp
    moreover have "length s'' \<le> length s'"
      using gettoken_length [of s'] g2 by (cases "skip s' = []") (auto simp: gettoken_def)
    moreover have "length t \<le> length s''" using 1(1) True g g2 r by simp
    ultimately show ?thesis by simp
  qed
qed

text \<open>The arguments of a simple command, with \<open>argc\<close> of them already there.\<close>

function args_loop :: "nat \<Rightarrow> string \<Rightarrow> (string list \<times> redir list \<times> string) res" where
  "args_loop argc s =
     (if peek s ''|)&;'' then Inr ([], [], skip s)
      else case gettoken s of (tok, q, s') \<Rightarrow>
        if tok = eof then Inr ([], [], s')
        else if tok \<noteq> CHR ''a'' then Inl (Panic ''syntax'')
        else if argc + 1 \<ge> MAXARGS then Inl (Panic ''too many args'')
        else bindE (redirs s') (\<lambda>(rs, s''). bindE (args_loop (argc + 1) s'') (\<lambda>(argv, rs', s).
          Inr (q # argv, rs @ rs', s))))"
  by pat_completeness auto
termination
  by (relation "measure (\<lambda>(argc, s). length s)")
    (auto simp: prod_eq_iff intro!: le_less_trans [OF redirs_length gettoken_word_length])

declare args_loop.simps [simp del]

function backs :: "cmd \<Rightarrow> string \<Rightarrow> cmd \<times> string" where
  "backs c s = (if peek s ''&'' then backs (BACK c) (tok_rest s) else (c, skip s))"
  by pat_completeness auto
termination
  by (relation "measure (\<lambda>(c, s). length s)") (auto dest: peek_length)

declare backs.simps [simp del]

fun parseline :: "nat \<Rightarrow> string \<Rightarrow> (cmd \<times> string) res"
  and parsepipe :: "nat \<Rightarrow> string \<Rightarrow> (cmd \<times> string) res"
  and parseexec :: "nat \<Rightarrow> string \<Rightarrow> (cmd \<times> string) res"
  and parseblock :: "nat \<Rightarrow> string \<Rightarrow> (cmd \<times> string) res" where
  "parseline 0 s = Inl NoFuel"
| "parseline (Suc k) s =
     bindE (parsepipe k s) (\<lambda>(c, s). case backs c s of (c, s) \<Rightarrow>
       if peek s '';'' then bindE (parseline k (tok_rest s)) (\<lambda>(d, s). Inr (LIST c d, s)) else Inr (c, skip s))"
| "parsepipe 0 s = Inl NoFuel"
| "parsepipe (Suc k) s =
     bindE (parseexec k s) (\<lambda>(c, s).
       if peek s ''|'' then bindE (parsepipe k (tok_rest s)) (\<lambda>(d, s). Inr (PIPE c d, s)) else Inr (c, skip s))"
| "parseexec 0 s = Inl NoFuel"
| "parseexec (Suc k) s =
     (if peek s ''('' then parseblock k s
      else bindE (redirs s) (\<lambda>(rs, s). bindE (args_loop 0 s) (\<lambda>(argv, rs', s).
        Inr (wrap (EXEC argv) (rs @ rs'), s))))"
| "parseblock 0 s = Inl NoFuel"
| "parseblock (Suc k) s =
     (if \<not> peek s ''('' then Inl (Panic ''parseblock'')
      else bindE (parseline k (tok_rest s)) (\<lambda>(c, s).
        if \<not> peek s '')'' then Inl (Panic ''syntax - missing )'')
        else parseredirs c (tok_rest s)))"

definition parsecmd :: "string \<Rightarrow> cmd res" where
  "parsecmd s =
     bindE (parseline (4 * length s + 4) s) (\<lambda>(c, s). if skip s \<noteq> [] then Inl (Panic ''syntax'') else Inr c)"

section \<open>The parser returns\<close>

lemma redirs_fuel: "redirs s \<noteq> Inl NoFuel"
proof (induction s rule: redirs.induct)
  case (1 s)
  then show ?case
    by (cases "redirs (tok_rest (tok_rest s))") (auto simp: redirs.simps [of s] prod_eq_iff split: prod.splits)
qed

lemma args_loop_step:
  "gettoken s = (tok, q, s') \<Longrightarrow> args_loop argc s =
     (if peek s ''|)&;'' then Inr ([], [], skip s)
      else if tok = eof then Inr ([], [], s')
      else if tok \<noteq> CHR ''a'' then Inl (Panic ''syntax'')
      else if argc + 1 \<ge> MAXARGS then Inl (Panic ''too many args'')
      else bindE (redirs s') (\<lambda>(rs, s''). bindE (args_loop (argc + 1) s'') (\<lambda>(argv, rs', s).
        Inr (q # argv, rs @ rs', s))))"
  by (subst args_loop.simps) simp

lemma args_induct:
  assumes "\<And>argc s tok q s'. gettoken s = (tok, q, s') \<Longrightarrow>
    (\<And>rs u. tok = CHR ''a'' \<Longrightarrow> redirs s' = Inr (rs, u) \<Longrightarrow> P (argc + 1) u) \<Longrightarrow> P argc s"
  shows "P argc s"
proof (induction "length s" arbitrary: argc s rule: less_induct)
  case less
  obtain tok q s' where g: "gettoken s = (tok, q, s')" by (metis prod_cases3)
  show ?case
  proof (rule assms [OF g])
    fix rs u assume "tok = CHR ''a''" "redirs s' = Inr (rs, u)"
    then have "length u < length s" using redirs_length gettoken_word_length [of s] g by fastforce
    then show "P (argc + 1) u" by (rule less)
  qed
qed

lemma args_fuel: "args_loop argc s \<noteq> Inl NoFuel"
proof (induction argc s rule: args_induct)
  case (1 argc s tok q s')
  show ?case
  proof (cases "redirs s'")
    case (Inl e)
    then show ?thesis using redirs_fuel [of s'] by (auto simp: args_loop_step [OF 1(1)])
  next
    case (Inr r)
    then show ?thesis using 1(2) [of "fst r" "snd r"]
      by (cases r; cases "args_loop (argc + 1) (snd r)") (auto simp: args_loop_step [OF 1(1)])
  qed
qed

lemma args_length: "args_loop argc s = Inr (argv, rs, t) \<Longrightarrow> length t \<le> length s"
proof (induction argc s arbitrary: argv rs t rule: args_induct)
  case (1 argc s tok q s')
  have l: "length s' \<le> length s" using tok_rest_length [of s] 1(1) by simp
  show ?case
  proof (cases "peek s ''|)&;'' \<or> tok = eof")
    case True
    then show ?thesis using 1(3) skip_length [of s] l by (auto simp: args_loop_step [OF 1(1)] split: if_splits)
  next
    case False
    then obtain rs' u argv' rs'' where r: "tok = CHR ''a''" "redirs s' = Inr (rs', u)"
      "args_loop (argc + 1) u = Inr (argv', rs'', t)"
      using 1(3) by (auto simp: args_loop_step [OF 1(1)] split: if_splits)
    then show ?thesis using 1(2) [OF r(1,2,3)] redirs_length [OF r(2)] l by linarith
  qed
qed

lemma backs_length: "backs c s = (d, t) \<Longrightarrow> length t \<le> length s"
proof (induction c s rule: backs.induct)
  case (1 c s)
  then show ?case using peek_length [of s "''&''"] skip_length [of s]
    by (cases "peek s ''&''") (auto simp: backs.simps [of c s])
qed

lemma parse_length:
  "parseline k s = Inr (c, t) \<Longrightarrow> length t \<le> length s"
  "parsepipe k s = Inr (c, t) \<Longrightarrow> length t \<le> length s"
  "parseexec k s = Inr (c, t) \<Longrightarrow> length t \<le> length s"
  "parseblock k s = Inr (c, t) \<Longrightarrow> length t \<le> length s"
proof (induction k s and k s and k s and k s arbitrary: c t and c t and c t and c t
    rule: parseline_parsepipe_parseexec_parseblock.induct)
  case (2 k s)
  then obtain c1 s1 c2 s2 where r: "parsepipe k s = Inr (c1, s1)" "backs c1 s1 = (c2, s2)"
    by (auto) (metis surj_pair)
  have "length s2 \<le> length s" using 2(1) [OF r(1)] backs_length [OF r(2)] by simp
  then show ?case
    using 2(2) [OF r(1) refl r(2) [symmetric]] 2(3) r skip_length [of s2] tok_rest_length [of s2]
    by (auto split: if_splits)
next
  case (4 k s)
  then obtain c1 s1 where r: "parseexec k s = Inr (c1, s1)" by auto
  then show ?case
    using 4(1) [OF r] 4(2) [OF r refl] 4(3) skip_length [of s1] tok_rest_length [of s1]
    by (auto split: if_splits)
next
  case (6 k s)
  show ?case
  proof (cases "peek s ''(''")
    case False
    then show ?thesis using 6(2) by (auto dest!: redirs_length args_length)
  qed (use 6 in auto)
next
  case (8 k s)
  then show ?case using tok_rest_length [of s]
    by (auto simp: parseredirs_def split: if_splits dest!: redirs_length)
      (meson le_trans tok_rest_length)
qed simp_all

lemma parse_fuel:
  "4 * length s + 4 \<le> k \<Longrightarrow> parseline k s \<noteq> Inl NoFuel"
  "4 * length s + 3 \<le> k \<Longrightarrow> parsepipe k s \<noteq> Inl NoFuel"
  "4 * length s + 2 \<le> k \<Longrightarrow> parseexec k s \<noteq> Inl NoFuel"
  "4 * length s + 1 \<le> k \<Longrightarrow> parseblock k s \<noteq> Inl NoFuel"
proof (induction k s and k s and k s and k s rule: parseline_parsepipe_parseexec_parseblock.induct)
  case (2 k s)
  show ?case
  proof (cases "parsepipe k s")
    case (Inl e)
    then show ?thesis using 2 by auto
  next
    case (Inr r)
    obtain c1 s1 c2 s2 where r: "r = (c1, s1)" "backs c1 s1 = (c2, s2)" by (metis surj_pair)
    have l: "length s2 \<le> length s" using parse_length(2) [of k s c1 s1] backs_length [OF r(2)] Inr r by simp
    show ?thesis
      using 2(2) [OF Inr r(1) [symmetric] r(2) [symmetric]] 2(3) Inr r peek_length [of s2 "'';''"] l
      by (cases "parseline k (tok_rest s2)") auto
  qed
next
  case (4 k s)
  show ?case
  proof (cases "parseexec k s")
    case (Inl e)
    then show ?thesis using 4 by auto
  next
    case (Inr r)
    obtain c1 s1 where r: "r = (c1, s1)" by (cases r)
    have l: "length s1 \<le> length s" using parse_length(3) [of k s c1 s1] Inr r by simp
    show ?thesis
      using 4(2) [OF Inr r [symmetric]] 4(3) Inr r peek_length [of s1 "''|''"] l
      by (cases "parsepipe k (tok_rest s1)") auto
  qed
next
  case (6 k s)
  show ?case
  proof (cases "peek s ''(''")
    case False
    show ?thesis
    proof (cases "redirs s")
      case (Inl e)
      then show ?thesis using redirs_fuel [of s] False by auto
    next
      case (Inr r)
      then show ?thesis using False args_fuel [of 0 "snd r"]
        by (cases r; cases "args_loop 0 (snd r)") auto
    qed
  qed (use 6 in auto)
next
  case (8 k s)
  show ?case
  proof (cases "peek s ''('' \<and> (\<exists>r. parseline k (tok_rest s) = Inr r)")
    case False
    then show ?thesis using 8 peek_length [of s "''(''"] by (cases "parseline k (tok_rest s)") auto
  next
    case True
    then obtain c1 s1 where r: "parseline k (tok_rest s) = Inr (c1, s1)" by auto
    then show ?thesis using True redirs_fuel [of "tok_rest s1"]
      by (cases "redirs (tok_rest s1)") (auto simp: parseredirs_def)
  qed
qed simp_all

text \<open>
  C22. The parser returns on every line: it answers with a command or ends in one of the shell's own
  error messages, and the fuel it is given never runs out.
\<close>

theorem parsecmd_returns: "parsecmd s \<noteq> Inl NoFuel"
  using parse_fuel(1) [of s "4 * length s + 4"]
  by (cases "parseline (4 * length s + 4) s") (auto simp: parsecmd_def split: if_splits)

section \<open>What the parser builds\<close>

text \<open>The commands that \<open>runcmd\<close> can rely on: at most nine words to run, and redirections of standard input or output.\<close>

definition good_word :: "string \<Rightarrow> bool" where
  "good_word w \<longleftrightarrow> w \<noteq> [] \<and> (\<forall>c \<in> set w. word_char c)"

fun good_cmd :: "cmd \<Rightarrow> bool" where
  "good_cmd (EXEC argv) \<longleftrightarrow> length argv < MAXARGS \<and> (\<forall>w \<in> set argv. good_word w)"
| "good_cmd (REDIR c fname mode fd) \<longleftrightarrow> good_cmd c \<and> good_word fname \<and> (mode, fd) \<in> {(RD_MODE, 0), (WR_MODE, 1)}"
| "good_cmd (PIPE a b) \<longleftrightarrow> good_cmd a \<and> good_cmd b"
| "good_cmd (LIST a b) \<longleftrightarrow> good_cmd a \<and> good_cmd b"
| "good_cmd (BACK a) \<longleftrightarrow> good_cmd a"

lemma token_is_word: "gettoken s = (CHR ''a'', q, t) \<Longrightarrow> good_word q"
proof -
  assume g: "gettoken s = (CHR ''a'', q, t)"
  then obtain c cs where c: "skip s = c # cs" by (cases "skip s") (auto simp: gettoken_def)
  have "c \<notin> set whitespace" using c hd_dropWhile [of "\<lambda>c. c \<in> set whitespace" s] by (simp add: skip_def)
  then have "q = takeWhile word_char (c # cs)" "word_char c"
    using g by (auto simp: gettoken_def c word_char_def symbols_def split: if_splits)
  then show ?thesis by (auto simp: good_word_def dest: set_takeWhileD)
qed

lemma redirs_well: "redirs s = Inr (rs, t) \<Longrightarrow> \<forall>(q, mode, fd) \<in> set rs. good_word q \<and> (mode, fd) \<in> {(RD_MODE, 0), (WR_MODE, 1)}"
proof (induction s arbitrary: rs t rule: redirs.induct)
  case (1 s)
  show ?case
  proof (cases "peek s ''<>''")
    case False
    with 1(2) show ?thesis by (auto simp: redirs.simps [of s])
  next
    case True
    obtain tok x s' where g: "gettoken s = (tok, x, s')" by (metis prod_cases3)
    obtain tok2 q s'' where g2: "gettoken s' = (tok2, q, s'')" by (metis prod_cases3)
    from 1(2) True g g2 obtain rs' where r: "redirs s'' = Inr (rs', t)" "tok2 = CHR ''a''"
      "rs = (if tok = CHR ''<'' then (q, RD_MODE, 0) else (q, WR_MODE, 1)) # rs'"
      by (auto simp: redirs.simps [of s] split: if_splits)
    have "good_word q" using g2 r(2) token_is_word by simp
    then show ?thesis using 1(1) [OF True g [symmetric] refl g2 [symmetric] refl] r by auto
  qed
qed

lemma wrap_well: "good_cmd c \<Longrightarrow> \<forall>(q, mode, fd) \<in> set rs. good_word q \<and> (mode, fd) \<in> {(RD_MODE, 0), (WR_MODE, 1)} \<Longrightarrow> good_cmd (wrap c rs)"
  unfolding wrap_def by (induction rs arbitrary: c) auto

lemma args_well:
  "args_loop argc s = Inr (argv, rs, t) \<Longrightarrow> argc < MAXARGS \<Longrightarrow> argc + length argv < MAXARGS \<and> (\<forall>w \<in> set argv. good_word w) \<and>
    (\<forall>(q, mode, fd) \<in> set rs. good_word q \<and> (mode, fd) \<in> {(RD_MODE, 0), (WR_MODE, 1)})"
proof (induction argc s arbitrary: argv rs t rule: args_induct)
  case (1 argc s tok q s')
  show ?case
  proof (cases "peek s ''|)&;'' \<or> tok = eof")
    case True
    then show ?thesis using 1(3,4) by (auto simp: args_loop_step [OF 1(1)] split: if_splits)
  next
    case False
    then obtain rs' u argv' rs'' where r: "tok = CHR ''a''" "redirs s' = Inr (rs', u)" "args_loop (argc + 1) u = Inr (argv', rs'', t)"
      "argc + 1 < MAXARGS" "argv = q # argv'" "rs = rs' @ rs''"
      using 1(3) by (auto simp: args_loop_step [OF 1(1)] split: if_splits)
    have "good_word q" using token_is_word 1(1) r(1) by simp
    then show ?thesis using 1(2) [OF r(1,2,3,4)] redirs_well [OF r(2)] r(5,6) by auto
  qed
qed

lemma backs_well: "backs c s = (d, t) \<Longrightarrow> good_cmd c \<Longrightarrow> good_cmd d"
proof (induction c s rule: backs.induct)
  case (1 c s)
  then show ?case by (cases "peek s ''&''") (auto simp: backs.simps [of c s])
qed

lemma parse_well:
  "parseline k s = Inr (c, t) \<Longrightarrow> good_cmd c"
  "parsepipe k s = Inr (c, t) \<Longrightarrow> good_cmd c"
  "parseexec k s = Inr (c, t) \<Longrightarrow> good_cmd c"
  "parseblock k s = Inr (c, t) \<Longrightarrow> good_cmd c"
proof (induction k s and k s and k s and k s arbitrary: c t and c t and c t and c t
    rule: parseline_parsepipe_parseexec_parseblock.induct)
  case (2 k s)
  then obtain c1 s1 c2 s2 where r: "parsepipe k s = Inr (c1, s1)" "backs c1 s1 = (c2, s2)"
    by (auto) (metis surj_pair)
  have "good_cmd c2" using 2(1) [OF r(1)] backs_well [OF r(2)] by simp
  then show ?case using 2(2) [OF r(1) refl r(2) [symmetric]] 2(3) r by (auto split: if_splits)
next
  case (4 k s)
  then obtain c1 s1 where r: "parseexec k s = Inr (c1, s1)" by auto
  then show ?case using 4(1) [OF r] 4(2) [OF r refl] 4(3) by (auto split: if_splits)
next
  case (6 k s)
  show ?case
  proof (cases "peek s ''(''")
    case False
    then obtain rs u argv rs' where r: "redirs s = Inr (rs, u)" "args_loop 0 u = Inr (argv, rs', t)" "c = wrap (EXEC argv) (rs @ rs')"
      using 6(2) by auto
    have "good_cmd (EXEC argv)" using args_well [OF r(2)] by simp
    then show ?thesis unfolding r(3) by (rule wrap_well) (use args_well [OF r(2)] redirs_well [OF r(1)] in auto)
  qed (use 6 in auto)
next
  case (8 k s)
  then obtain c1 s1 rs where r: "parseline k (tok_rest s) = Inr (c1, s1)" "redirs (tok_rest s1) = Inr (rs, t)" "c = wrap c1 rs"
    "peek s ''(''"
    by (auto simp: parseredirs_def split: if_splits)
  then show ?case using 8(1) wrap_well redirs_well by simp
qed simp_all

text \<open>
  C28. Every line the parser accepts gives a well-formed command: each simple command has fewer than \<open>MAXARGS\<close> words, so that
  the NULL after them still fits in \<open>argv\<close>, words and file names are not empty and free of blanks and symbols, and a redirection is of
  standard input for reading or of standard output for writing.
\<close>

theorem parsecmd_well_formed: "parsecmd s = Inr c \<Longrightarrow> good_cmd c"
  unfolding parsecmd_def by (auto split: if_splits dest: parse_well(1))

theorem parsecmd_well_formed_witness: "\<exists>c. parsecmd ''(ls -l <in; cat) >out | wc &'' = Inr c \<and> good_cmd c"
proof -
  have "case parsecmd ''(ls -l <in; cat) >out | wc &'' of Inl _ \<Rightarrow> False | Inr _ \<Rightarrow> True" by code_simp
  then obtain c where "parsecmd ''(ls -l <in; cat) >out | wc &'' = Inr c" by (auto split: sum.splits)
  then show ?thesis using parsecmd_well_formed by blast
qed

section \<open>Printing and parsing\<close>

text \<open>A command as text, with every part of a compound command in parentheses.\<close>

fun show_cmd :: "cmd \<Rightarrow> string" where
  "show_cmd (EXEC argv) = concat (map (\<lambda>w. w @ [CHR 0x20]) argv)"
| "show_cmd (REDIR c fname mode fd) = ''('' @ show_cmd c @ '')'' @ (if mode = RD_MODE then ''<'' else ''>'') @ fname"
| "show_cmd (PIPE a b) = ''('' @ show_cmd a @ '')|('' @ show_cmd b @ '')''"
| "show_cmd (LIST a b) = ''('' @ show_cmd a @ '');('' @ show_cmd b @ '')''"
| "show_cmd (BACK a) = ''('' @ show_cmd a @ '')&''"

lemma skip_simps [simp]: "skip [] = []" "c \<notin> set whitespace \<Longrightarrow> skip (c # s) = c # s" "skip (CHR 0x20 # s) = skip s"
  by (simp_all add: skip_def whitespace_def)

lemma not_blank [simp]: "c \<in> set symbols \<Longrightarrow> c \<notin> set whitespace"
  by (auto simp: symbols_def whitespace_def)

lemma symbols_mem [simp]:
  "CHR ''('' \<in> set symbols" "CHR '')'' \<in> set symbols" "CHR ''|'' \<in> set symbols" "CHR ''&'' \<in> set symbols"
  "CHR '';'' \<in> set symbols" "CHR ''<'' \<in> set symbols" "CHR ''>'' \<in> set symbols"
  by (simp_all add: symbols_def)

lemma peek_simps [simp]: "\<not> peek [] toks" "c \<notin> set whitespace \<Longrightarrow> peek (c # s) toks = (c \<in> set toks)"
  by (simp_all add: peek_def)

lemma word_charD: "word_char c \<Longrightarrow> c \<notin> set whitespace" "word_char c \<Longrightarrow> c \<notin> set symbols"
  by (simp_all add: word_char_def)

lemma word_not_symbol:
  "word_char c \<Longrightarrow> c \<noteq> CHR ''(''" "word_char c \<Longrightarrow> c \<noteq> CHR '')''" "word_char c \<Longrightarrow> c \<noteq> CHR ''|''"
  "word_char c \<Longrightarrow> c \<noteq> CHR ''&''" "word_char c \<Longrightarrow> c \<noteq> CHR '';''" "word_char c \<Longrightarrow> c \<noteq> CHR ''<''"
  "word_char c \<Longrightarrow> c \<noteq> CHR ''>''"
  using word_charD(2) [of c] by (auto simp: symbols_def)

definition stops :: "string \<Rightarrow> bool" where
  "stops s \<longleftrightarrow> s = [] \<or> hd s = CHR '')''"

lemma stops_cases: "stops s \<Longrightarrow> (s = [] \<Longrightarrow> P) \<Longrightarrow> (\<And>t. s = CHR '')'' # t \<Longrightarrow> P) \<Longrightarrow> P"
  by (cases s) (auto simp: stops_def)

lemma gettoken_word:
  assumes "good_word w" "rest = [] \<or> \<not> word_char (hd rest)"
  shows "gettoken (w @ rest) = (CHR ''a'', w, skip rest)"
proof -
  obtain c cs where w: "w = c # cs" using assms(1) by (cases w) (auto simp: good_word_def)
  have c: "word_char c" "\<forall>c \<in> set w. word_char c" using assms(1) by (simp_all add: good_word_def w)
  have "takeWhile word_char (w @ rest) = w \<and> dropWhile word_char (w @ rest) = rest"
    using c(2) assms(2) by (cases rest) (simp_all add: takeWhile_append dropWhile_append)
  then show ?thesis
    using word_charD(1) [OF c(1)] word_not_symbol [OF c(1)] by (simp add: gettoken_def w)
qed

lemma gettoken_simps [simp]:
  "gettoken [] = (eof, [], [])" "gettoken (CHR ''('' # s) = (CHR ''('', ''('', skip s)"
  "gettoken (CHR '')'' # s) = (CHR '')'', '')'', skip s)" "gettoken (CHR ''|'' # s) = (CHR ''|'', ''|'', skip s)"
  "gettoken (CHR '';'' # s) = (CHR '';'', '';'', skip s)" "gettoken (CHR ''&'' # s) = (CHR ''&'', ''&'', skip s)"
  "gettoken (CHR ''<'' # s) = (CHR ''<'', ''<'', skip s)"
  "s = [] \<or> hd s \<noteq> CHR ''>'' \<Longrightarrow> gettoken (CHR ''>'' # s) = (CHR ''>'', ''>'', skip s)"
  by (simp_all add: gettoken_def)

text \<open>Text that does not begin with a redirection.\<close>

lemma redirs_none: "s = [] \<or> hd s \<notin> set whitespace \<and> hd s \<notin> set ''<>'' \<Longrightarrow> redirs s = Inr ([], s)"
  by (subst redirs.simps) (cases s; auto)

lemma redirs_one:
  assumes f: "good_word fname" and m: "(mode, fd) \<in> {(RD_MODE, 0), (WR_MODE, 1)}" and st: "stops rest"
  shows "redirs ((if mode = RD_MODE then ''<'' else ''>'') @ fname @ rest) = Inr ([(fname, mode, fd)], rest)"
proof -
  obtain c cs where w: "fname = c # cs" "word_char c" using f by (cases fname) (auto simp: good_word_def)
  have sk: "skip (fname @ rest) = fname @ rest" "c \<noteq> CHR ''>''"
    using word_charD(1) [OF w(2)] word_not_symbol [OF w(2)] w(1) by simp_all
  have g: "gettoken (fname @ rest) = (CHR ''a'', fname, rest)"
    by (rule stops_cases [OF st]) (use gettoken_word [OF f, of rest] in \<open>auto simp: word_char_def\<close>)
  have rn: "redirs rest = Inr ([], rest)" by (rule stops_cases [OF st]) (auto intro: redirs_none)
  have g': "gettoken (c # cs @ rest) = (CHR ''a'', c # cs, rest)" "c \<notin> set whitespace"
    using g word_charD(1) [OF w(2)] w(1) by simp_all
  show ?thesis using m sk(2) g' rn by (subst redirs.simps) (auto simp: w(1))
qed

lemma args_words:
  assumes "stops rest"
  shows "\<forall>w \<in> set argv. good_word w \<Longrightarrow> argc + length argv < MAXARGS \<Longrightarrow>
    args_loop argc (concat (map (\<lambda>w. w @ [CHR 0x20]) argv) @ rest) = Inr (argv, [], rest)"
proof (induction argv arbitrary: argc)
  case Nil
  show ?case by (rule stops_cases [OF assms]) (auto simp: args_loop.simps)
next
  case (Cons w ws)
  let ?tail = "concat (map (\<lambda>w. w @ [CHR 0x20]) ws) @ rest"
  have gw: "good_word w" using Cons.prems(1) by simp
  then obtain c cs where w: "w = c # cs" "word_char c" by (cases w) (auto simp: good_word_def)
  have tl: "?tail = [] \<or> hd ?tail \<notin> set whitespace \<and> hd ?tail \<notin> set ''<>''"
  proof (cases ws)
    case Nil
    then show ?thesis by (auto intro: stops_cases [OF assms])
  next
    case (Cons v vs)
    then obtain d ds where "v = d # ds" "word_char d" using Cons.prems(1) \<open>\<forall>w \<in> set (w # ws). good_word w\<close>
      by (cases v) (auto simp: good_word_def)
    then show ?thesis using Cons word_charD(1) [of d] word_not_symbol [of d] by simp
  qed
  then have sk: "skip ?tail = ?tail" by (cases ?tail) auto
  have "gettoken (w @ CHR 0x20 # ?tail) = (CHR ''a'', w, ?tail)"
    using gettoken_word [OF gw, of "CHR 0x20 # ?tail"] sk by (simp add: word_char_def whitespace_def)
  moreover have "\<not> peek (w @ CHR 0x20 # ?tail) ''|)&;''"
    using w word_charD(1) [OF w(2)] word_not_symbol [OF w(2)] by simp
  moreover have "args_loop (argc + 1) ?tail = Inr (ws, [], rest)" using Cons by simp
  ultimately show ?case using redirs_none [OF tl] Cons.prems(2) by (simp add: args_loop_step)
qed

lemma show_start:
  assumes "good_cmd c"
  shows "skip (show_cmd c @ CHR '')'' # s) = show_cmd c @ CHR '')'' # s"
proof (cases c)
  case (EXEC argv)
  then show ?thesis
    using assms by (cases argv; cases "hd argv") (auto simp: good_word_def word_charD(1))
qed auto

text \<open>A command in parentheses, when the text inside is parsed back.\<close>

lemma parse_block:
  assumes c: "good_cmd c" and ih: "\<And>rest. stops rest \<Longrightarrow> parseline k (show_cmd c @ rest) = Inr (c, rest)"
  shows "parseexec (Suc (Suc k)) (''('' @ show_cmd c @ '')'' @ s) = parseredirs c (skip s)"
  using show_start [OF c, of s] ih [of "CHR '')'' # s"] by (simp add: stops_def)

lemma parse_block_plain:
  assumes c: "good_cmd c" and ih: "\<And>rest. stops rest \<Longrightarrow> parseline k (show_cmd c @ rest) = Inr (c, rest)"
    and s: "s = [] \<or> hd s \<notin> set whitespace \<and> hd s \<notin> set ''<>''"
  shows "parseexec (Suc (Suc k)) (''('' @ show_cmd c @ '')'' @ s) = Inr (c, s)"
proof -
  have "skip s = s" using s by (cases s) auto
  have "parseexec (Suc (Suc k)) (''('' @ show_cmd c @ '')'' @ s) = parseredirs c (skip s)"
    by (rule parse_block [OF c ih])
  also have "\<dots> = Inr (c, s)" using redirs_none [OF s] \<open>skip s = s\<close> by (simp add: parseredirs_def wrap_def)
  finally show ?thesis .
qed

lemma stops_peek: "stops s \<Longrightarrow> \<not> peek s ''|''" "stops s \<Longrightarrow> \<not> peek s ''&''" "stops s \<Longrightarrow> \<not> peek s '';''"
  "stops s \<Longrightarrow> skip s = s"
  by (auto elim!: stops_cases)

lemma backs_stop: "stops s \<Longrightarrow> backs c s = (c, s)"
  by (subst backs.simps) (simp add: stops_peek)

lemma parseline_plain:
  assumes "parsepipe k s = Inr (c, rest)" "stops rest"
  shows "parseline (Suc k) s = Inr (c, rest)"
  using assms stops_peek(3,4) [OF assms(2)] by (simp add: backs_stop)

lemma parsepipe_plain:
  assumes "parseexec k s = Inr (c, rest)" "rest = [] \<or> hd rest \<notin> set whitespace \<and> hd rest \<noteq> CHR ''|''"
  shows "parsepipe (Suc k) s = Inr (c, rest)"
  using assms by (cases rest) auto

fun cmd_depth :: "cmd \<Rightarrow> nat" where
  "cmd_depth (EXEC argv) = 3"
| "cmd_depth (REDIR c f m fd) = cmd_depth c + 4"
| "cmd_depth (PIPE a b) = cmd_depth a + cmd_depth b + 5"
| "cmd_depth (LIST a b) = cmd_depth a + cmd_depth b + 5"
| "cmd_depth (BACK a) = cmd_depth a + 4"

lemma parse_show:
  "good_cmd c \<Longrightarrow> stops rest \<Longrightarrow> cmd_depth c \<le> k \<Longrightarrow> parseline k (show_cmd c @ rest) = Inr (c, rest)"
proof (induction c arbitrary: k rest)
  case (EXEC argv)
  define m where "m = k - 3"
  have k: "k = Suc (Suc (Suc m))" using EXEC(3) by (simp add: m_def)
  let ?s = "show_cmd (EXEC argv) @ rest"
  have st: "?s = [] \<or> hd ?s \<notin> set whitespace \<and> hd ?s \<notin> set ''<>'' \<and> hd ?s \<noteq> CHR ''(''"
  proof (cases argv)
    case Nil
    then show ?thesis using EXEC(2) by (auto elim: stops_cases)
  next
    case (Cons v vs)
    then obtain d ds where "v = d # ds" "word_char d" using EXEC(1) by (cases v) (auto simp: good_word_def)
    then show ?thesis using Cons word_charD(1) [of d] word_not_symbol [of d] by simp
  qed
  have "args_loop 0 ?s = Inr (argv, [], rest)" using args_words [OF EXEC(2), of argv 0] EXEC(1) by simp
  moreover have "redirs ?s = Inr ([], ?s)" using st by (intro redirs_none) auto
  moreover have "\<not> peek ?s ''(''" using st by (cases ?s) auto
  ultimately have "parseexec (Suc m) ?s = Inr (EXEC argv, rest)" by (simp add: wrap_def)
  then have "parsepipe (Suc (Suc m)) ?s = Inr (EXEC argv, rest)"
    by (rule parsepipe_plain) (use EXEC(2) in \<open>auto elim: stops_cases\<close>)
  then show ?case unfolding k by (rule parseline_plain) (rule EXEC(2))
next
  case (REDIR c f m fd)
  define j where "j = k - 4"
  have k: "k = Suc (Suc (Suc (Suc j)))" and d: "cmd_depth c \<le> j" using REDIR.prems(3) by (simp_all add: j_def)
  have g: "good_cmd c" "good_word f" "(m, fd) \<in> {(RD_MODE, 0), (WR_MODE, 1)}" using REDIR.prems(1) by simp_all
  let ?s = "(if m = RD_MODE then ''<'' else ''>'') @ f @ rest"
  have "parseexec (Suc (Suc j)) (''('' @ show_cmd c @ '')'' @ ?s) = parseredirs c (skip ?s)"
    by (rule parse_block [OF g(1)]) (rule REDIR.IH [OF g(1) _ d])
  moreover have "skip ?s = ?s" by simp
  ultimately have "parseexec (Suc (Suc j)) (show_cmd (REDIR c f m fd) @ rest) = Inr (REDIR c f m fd, rest)"
    using redirs_one [OF g(2,3) REDIR.prems(2)] by (simp add: parseredirs_def wrap_def)
  then have "parsepipe (Suc (Suc (Suc j))) (show_cmd (REDIR c f m fd) @ rest) = Inr (REDIR c f m fd, rest)"
    by (rule parsepipe_plain) (use REDIR.prems(2) in \<open>auto elim: stops_cases\<close>)
  then show ?case unfolding k by (rule parseline_plain) (rule REDIR.prems(2))
next
  case (PIPE a b)
  define j where "j = k - 5"
  have k: "k = Suc (Suc (Suc (Suc (Suc j))))" and d: "cmd_depth a \<le> Suc j" "cmd_depth b \<le> j"
    using PIPE.prems(3) by (simp_all add: j_def)
  have g: "good_cmd a" "good_cmd b" using PIPE.prems(1) by simp_all
  let ?b = "''('' @ show_cmd b @ '')'' @ rest"
  have "parseexec (Suc (Suc j)) ?b = Inr (b, rest)"
    by (rule parse_block_plain [OF g(2) PIPE.IH(2) [OF g(2) _ d(2)]]) (use PIPE.prems(2) in \<open>auto elim: stops_cases\<close>)
  then have pb: "parsepipe (Suc (Suc (Suc j))) ?b = Inr (b, rest)"
    by (rule parsepipe_plain) (use PIPE.prems(2) in \<open>auto elim: stops_cases\<close>)
  have "parseexec (Suc (Suc (Suc j))) (''('' @ show_cmd a @ '')'' @ ''|'' @ ?b) = Inr (a, ''|'' @ ?b)"
    by (rule parse_block_plain [OF g(1) PIPE.IH(1) [OF g(1) _ d(1)]]) auto
  then have "parsepipe (Suc (Suc (Suc (Suc j)))) (show_cmd (PIPE a b) @ rest) = Inr (PIPE a b, rest)"
    using pb stops_peek(4) [OF PIPE.prems(2)] by (simp del: parseexec.simps)
  then show ?case unfolding k by (rule parseline_plain) (rule PIPE.prems(2))
next
  case (LIST a b)
  define j where "j = k - 5"
  have k: "k = Suc (Suc (Suc (Suc (Suc j))))" and d: "cmd_depth a \<le> Suc j" "cmd_depth b \<le> j"
    using LIST.prems(3) by (simp_all add: j_def)
  have g: "good_cmd a" "good_cmd b" using LIST.prems(1) by simp_all
  let ?b = "''('' @ show_cmd b @ '')'' @ rest"
  have "parseexec (Suc (Suc j)) ?b = Inr (b, rest)"
    by (rule parse_block_plain [OF g(2) LIST.IH(2) [OF g(2) _ d(2)]]) (use LIST.prems(2) in \<open>auto elim: stops_cases\<close>)
  then have "parsepipe (Suc (Suc (Suc j))) ?b = Inr (b, rest)"
    by (rule parsepipe_plain) (use LIST.prems(2) in \<open>auto elim: stops_cases\<close>)
  then have pb: "parseline (Suc (Suc (Suc (Suc j)))) ?b = Inr (b, rest)" by (rule parseline_plain) (rule LIST.prems(2))
  have "parseexec (Suc (Suc (Suc j))) (''('' @ show_cmd a @ '')'' @ '';'' @ ?b) = Inr (a, '';'' @ ?b)"
    by (rule parse_block_plain [OF g(1) LIST.IH(1) [OF g(1) _ d(1)]]) auto
  then have pa: "parsepipe (Suc (Suc (Suc (Suc j)))) (show_cmd (LIST a b) @ rest) = Inr (a, '';'' @ ?b)"
    by (simp del: parseexec.simps)
  have "backs a ('';'' @ ?b) = (a, '';'' @ ?b)" by (subst backs.simps) simp
  then show ?case unfolding k using pa pb by (simp del: parsepipe.simps parseline.simps add: parseline.simps(2) [of "Suc (Suc (Suc (Suc j)))"])
next
  case (BACK a)
  define j where "j = k - 4"
  have k: "k = Suc (Suc (Suc (Suc j)))" and d: "cmd_depth a \<le> j" using BACK.prems(3) by (simp_all add: j_def)
  have g: "good_cmd a" using BACK.prems(1) by simp
  have "parseexec (Suc (Suc j)) (''('' @ show_cmd a @ '')'' @ ''&'' @ rest) = Inr (a, ''&'' @ rest)"
    by (rule parse_block_plain [OF g BACK.IH [OF g _ d]]) auto
  then have pa: "parsepipe (Suc (Suc (Suc j))) (show_cmd (BACK a) @ rest) = Inr (a, ''&'' @ rest)"
    by (simp del: parseexec.simps)
  have "backs a (''&'' @ rest) = backs (BACK a) rest"
    by (subst backs.simps) (simp add: stops_peek(4) [OF BACK.prems(2)])
  then have "backs a (''&'' @ rest) = (BACK a, rest)" using backs_stop [OF BACK.prems(2)] by simp
  then show ?case unfolding k using pa stops_peek(3,4) [OF BACK.prems(2)]
    by (simp del: parsepipe.simps parseline.simps add: parseline.simps(2) [of "Suc (Suc (Suc j))"])
qed

lemma depth_bound: "cmd_depth c \<le> 4 * length (show_cmd c) + 4"
  by (induction c) auto

text \<open>
  C23. Parsing undoes printing: the text of a command, with its parts in parentheses, is parsed back to
  the same tree of lists, pipelines, background jobs, redirections and simple commands.
\<close>

theorem parse_show_cmd:
  assumes "good_cmd c"
  shows "parsecmd (show_cmd c) = Inr c"
proof -
  have "parseline (4 * length (show_cmd c) + 4) (show_cmd c @ []) = Inr (c, [])"
    by (rule parse_show [OF assms _ depth_bound]) (simp add: stops_def)
  then show ?thesis by (simp add: parsecmd_def)
qed

theorem parse_show_cmd_witness:
  "parsecmd ''((cat x )|(grep y ))>out'' = Inr (REDIR (PIPE (EXEC [''cat'', ''x'']) (EXEC [''grep'', ''y''])) ''out'' WR_MODE 1)"
  using parse_show_cmd [of "REDIR (PIPE (EXEC [''cat'', ''x'']) (EXEC [''grep'', ''y''])) ''out'' WR_MODE 1"]
  by (simp add: good_word_def word_char_def whitespace_def symbols_def)

section \<open>Running a command\<close>

text \<open>
  What a process that runs a command asks of the kernel, in order and each call with its outcome, up to the call that
  ends it; a child is the list of its own calls. Which calls succeed is decided for each call of each process
  on its own: \<open>ok p n\<close> says so of the \<open>n\<close>-th call that can fail of process \<open>p\<close>, and a process is named by the numbers of the
  \<open>fork\<close>s that led to it.
\<close>

datatype fdesc = Fd nat | PipeRead | PipeWrite

datatype act =
    Exec "string list" bool
  | Close fdesc
  | Open string nat bool
  | Dup fdesc
  | MakePipe bool
  | Fork "act list option"
  | Wait
  | Chdir string bool
  | Print string
  | Quit

type_synonym outcomes = "nat list \<Rightarrow> nat \<Rightarrow> bool"

definition sh_panic :: "string \<Rightarrow> act list" where
  "sh_panic msg = [Print (msg @ [CHR 0x0A]), Quit]"

definition fork1 :: "outcomes \<Rightarrow> nat list \<Rightarrow> nat \<Rightarrow> (nat list \<Rightarrow> act list) \<Rightarrow> (nat \<Rightarrow> act list) \<Rightarrow> act list" where
  "fork1 ok p n child parent =
     (if ok p n then Fork (Some (child (n # p))) # parent (n + 1) else Fork None # sh_panic ''fork'')"

fun runcmd :: "outcomes \<Rightarrow> nat list \<Rightarrow> nat \<Rightarrow> cmd \<Rightarrow> act list" where
  "runcmd ok p n (EXEC argv) =
     (if argv = [] then [Quit]
      else Exec argv (ok p n) # (if ok p n then [] else [Print (''exec '' @ hd argv @ '' failed'' @ [CHR 0x0A]), Quit]))"
| "runcmd ok p n (REDIR c fname mode fd) =
     Close (Fd fd) # Open fname mode (ok p n) #
       (if ok p n then runcmd ok p (n + 1) c else [Print (''open '' @ fname @ '' failed'' @ [CHR 0x0A]), Quit])"
| "runcmd ok p n (LIST a b) = fork1 ok p n (\<lambda>p. runcmd ok p 0 a) (\<lambda>n. Wait # runcmd ok p n b)"
| "runcmd ok p n (PIPE a b) =
     MakePipe (ok p n) #
       (if \<not> ok p n then sh_panic ''pipe''
        else fork1 ok p (n + 1) (\<lambda>p. [Close (Fd 1), Dup PipeWrite, Close PipeRead, Close PipeWrite] @ runcmd ok p 0 a)
          (\<lambda>n. fork1 ok p n (\<lambda>p. [Close (Fd 0), Dup PipeRead, Close PipeRead, Close PipeWrite] @ runcmd ok p 0 b)
             (\<lambda>_. [Close PipeRead, Close PipeWrite, Wait, Wait, Quit])))"
| "runcmd ok p n (BACK c) = fork1 ok p n (\<lambda>p. runcmd ok p 0 c) (\<lambda>_. [Quit])"

text \<open>One line of input, as the loop of \<open>main\<close> treats it; the shell is process \<open>[]\<close>, at its \<open>n\<close>-th call.\<close>

definition sh_line :: "outcomes \<Rightarrow> nat \<Rightarrow> string \<Rightarrow> act list" where
  "sh_line ok n buf =
     (if take 3 buf = ''cd '' then
        let dir = drop 3 (butlast buf)
        in Chdir dir (ok [] n) # (if ok [] n then [] else [Print (''cannot cd '' @ dir @ [CHR 0x0A])])
      else
        fork1 ok [] n (\<lambda>p. case parsecmd buf of Inr c \<Rightarrow> runcmd ok p 0 c | Inl (Panic msg) \<Rightarrow> sh_panic msg | Inl _ \<Rightarrow> [])
          (\<lambda>_. [Wait]))"





end
