(* ===== verification/Wish.thy ===== *)
theory Wish
  imports Clib
begin

text \<open>
  The Wisconsin shell, \<open>wish.c\<close>: splitting a line into tokens, the built-in commands, redirection,
  \<open>loop\<close>, and running programs along the search path. \<open>input\<close>, the array of tokens, is a list of
  \<open>Some token\<close>, \<open>None\<close> being a null pointer; whatever is beyond its end is null too. What the calls to the
  operating system answer is a parameter; the shell's own calls are recorded in order. The answer to \<open>fork\<close> is the same
  for all rounds of a \<open>loop\<close> (a failure ends the shell), and of a redirection the name is recorded, not whether the child could open it.
\<close>

section \<open>Tokens\<close>

definition field_tokens :: "string \<Rightarrow> string list" where
  "field_tokens f = map (takeWhile (\<lambda>c. c \<noteq> NL)) (filter (\<lambda>t. t \<noteq> [] \<and> t \<noteq> [NL]) (pieces (CHR 0x20) f))"

definition readLine :: "string \<Rightarrow> string list" where
  "readLine line = butlast (concat (map (\<lambda>f. field_tokens f @ [''>'']) (pieces (CHR ''>'') line)))"

section \<open>The shell\<close>

datatype outcome = Became string "string list" | Died nat | Crashed | Another_shell

datatype wact =
    Error
  | Chdir string
  | Child "string option" "string list" outcome
  | Leave nat

record wos =
  w_access :: "string \<Rightarrow> bool"
  w_execv :: "string \<Rightarrow> string list \<Rightarrow> bool"
  w_chdir :: "string \<Rightarrow> bool"
  w_fork :: bool

text \<open>The loop over the path in the child; \<open>cpath\<close> is \<open>curr_src_path\<close>, a buffer of 100 bytes. \<open>access\<close>
  answers 0 for a file that can be executed.\<close>

fun try_paths :: "wos \<Rightarrow> string list \<Rightarrow> string list \<Rightarrow> string \<Rightarrow> string list \<Rightarrow> outcome \<times> string list" where
  "try_paths os input said cpath [] = (Another_shell, said)"
| "try_paths os input said cpath (p # ps) =
     (let cpath = cpath @ p @ ''/'' @ hd input
      in if length cpath \<ge> 100 then (Crashed, said)
         else if \<not> w_access os (cpath @ [NL]) then
           (if w_execv os cpath input then (Became cpath input, said) else try_paths os input (said @ [''error'']) cpath ps)
         else try_paths os input (said @ [''not found in '' @ cpath]) cpath ps)"

definition run_child :: "wos \<Rightarrow> string list \<Rightarrow> string list \<Rightarrow> outcome" where
  "run_child os path input =
     (if path = [] then Died 0
      else if input = [] then Crashed
      else fst (try_paths os input [] [] path))"

definition at :: "string option list \<Rightarrow> nat \<Rightarrow> string option" where
  "at input i = (if i < length input then input ! i else None)"

text \<open>The arguments up to the first null pointer.\<close>

fun upto_null :: "string option list \<Rightarrow> string list" where
  "upto_null [] = []"
| "upto_null (None # xs) = []"
| "upto_null (Some t # xs) = t # upto_null xs"

text \<open>\<open>run_fork\<close> on the array: what it does, whether the shell exits, and the array afterwards.\<close>

definition run_fork :: "wos \<Rightarrow> string list \<Rightarrow> string option list \<Rightarrow> wact list \<times> bool \<times> string option list" where
  "run_fork os path input =
     (case first_idx (\<lambda>t. t = ''>'') (upto_null input) of
        Some i \<Rightarrow>
          (if i > 0 \<and> at input (i + 1) \<noteq> None \<and> at input (i + 2) = None then
             let out = at input (i + 1); input = input[i := None, i + 1 := None]
             in if w_fork os then ([Child out (upto_null input) (run_child os path (upto_null input))], False, input)
                else ([Error, Leave 0], True, input)
           else ([Error, Leave 0], True, input))
      | None \<Rightarrow>
          (if w_fork os then ([Child None (upto_null input) (run_child os path (upto_null input))], False, input)
           else ([Error, Leave 0], True, input)))"

definition last_loop :: "string option list \<Rightarrow> nat" where
  "last_loop input = fold (\<lambda>i pos. if at input i = Some ''$loop'' then i else pos)
     [2..<2 + length (upto_null (drop 2 input))] 0"

fun loop_rounds :: "wos \<Rightarrow> string list \<Rightarrow> nat \<Rightarrow> nat list \<Rightarrow> string option list \<Rightarrow> wact list \<times> bool" where
  "loop_rounds os path pos [] input = ([], False)"
| "loop_rounds os path pos (k # ks) input =
     (let input = (if pos \<noteq> 0 then input[pos := Some (nat_dec k)] else input)
      in case run_fork os path (drop 2 input) of (acts, leave, rest) \<Rightarrow>
           if leave then (acts, True)
           else case loop_rounds os path pos ks (take 2 input @ rest) of (later, leave) \<Rightarrow> (acts @ later, leave))"

definition run_loop :: "wos \<Rightarrow> string list \<Rightarrow> string option list \<Rightarrow> wact list \<times> bool" where
  "run_loop os path input =
     (case at input 1 of None \<Rightarrow> ([Error], False)
      | Some t \<Rightarrow>
        let r = strtol10 t; loop_max = to_int32 (st_val r)
        in if st_none r \<or> loop_max < 0 then ([Error], False)
           else loop_rounds os path (last_loop input) [1..<nat loop_max + 1] input)"

section \<open>A line\<close>

text \<open>\<open>process\<close>: the calls made, the new search path, and whether the shell is left.\<close>

definition process :: "wos \<Rightarrow> string list \<Rightarrow> string \<Rightarrow> wact list \<times> string list \<times> bool" where
  "process os path line =
     (let toks = readLine line; input = map Some toks
      in case toks of
           [] \<Rightarrow> ([], path, False)
         | cmd # args \<Rightarrow>
           if cmd = ''exit'' then (if args \<noteq> [] then ([Error], path, False) else ([Leave 0], path, True))
           else if cmd = ''cd'' then
             (if args = [] then ([Error], path, False)
              else (Chdir (hd args) # (if w_chdir os (hd args) then [] else [Error]), path, False))
           else if cmd = ''path'' then ([], args, False)
           else if cmd = ''loop'' then
             (if args = [] then ([Error], path, False)
              else case run_loop os path input of (acts, leave) \<Rightarrow> (acts, path, leave))
           else case run_fork os path input of (acts, leave, _) \<Rightarrow> (acts, path, leave))"

fun run_shell :: "wos \<Rightarrow> string list \<Rightarrow> string list \<Rightarrow> wact list" where
  "run_shell os path [] = [Leave 0]"
| "run_shell os path (line # lines) =
     (case process os path line of (acts, path, leave) \<Rightarrow> if leave then acts else acts @ run_shell os path lines)"

definition wish :: "wos \<Rightarrow> string list \<Rightarrow> wact list" where
  "wish os lines = run_shell os [''/bin''] lines"

section \<open>Splitting a line\<close>

definition plain_word :: "string \<Rightarrow> bool" where
  "plain_word w \<longleftrightarrow> w \<noteq> [] \<and> CHR 0x20 \<notin> set w \<and> NL \<notin> set w \<and> CHR ''>'' \<notin> set w"

fun spaced :: "string list \<Rightarrow> string" where
  "spaced [] = []"
| "spaced [w] = w"
| "spaced (w # ws) = w @ CHR 0x20 # spaced ws"

lemma takeWhile_plain: "plain_word w \<Longrightarrow> takeWhile (\<lambda>c. c \<noteq> NL) (w @ q) = w @ takeWhile (\<lambda>c. c \<noteq> NL) q"
  by (rule takeWhile_append2) (auto simp: plain_word_def)

lemma pieces_spaced:
  "\<forall>w \<in> set ws. plain_word w \<Longrightarrow> CHR 0x20 \<notin> set e \<Longrightarrow>
    pieces (CHR 0x20) (spaced ws @ e) = (if ws = [] then [e] else butlast ws @ [last ws @ e])"
proof (induction ws rule: spaced.induct)
  case 1
  then show ?case by (simp add: pieces_plain)
next
  case (2 w)
  then show ?case by (simp add: pieces_plain plain_word_def)
next
  case (3 w v vs)
  then show ?case by (simp add: pieces_sep plain_word_def)
qed

lemma tokens_spaced:
  assumes "\<forall>w \<in> set ws. plain_word w" "e = [] \<or> e = [NL]"
  shows "field_tokens (spaced ws @ e) = ws"
proof -
  have f: "pieces (CHR 0x20) (spaced ws @ e) = (if ws = [] then [e] else butlast ws @ [last ws @ e])"
    using assms by (intro pieces_spaced) auto
  show ?thesis
  proof (cases "ws = []")
    case True
    then show ?thesis using assms(2) f by (auto simp: field_tokens_def)
  next
    case False
    have pl: "plain_word (last ws)" "\<forall>w \<in> set (butlast ws). plain_word w"
      using assms(1) False by (auto dest: in_set_butlastD)
    have tw: "takeWhile (\<lambda>c. c \<noteq> NL) w = w" if "plain_word w" for w using takeWhile_plain [OF that, of "[]"] by simp
    have "last ws @ e \<noteq> []" "last ws @ e \<noteq> [NL]"
      using pl(1) assms(2) by (auto simp: plain_word_def append_eq_Cons_conv)
    moreover have "takeWhile (\<lambda>c. c \<noteq> NL) (last ws @ e) = last ws"
      using takeWhile_plain [OF pl(1), of e] assms(2) by auto
    moreover have "filter (\<lambda>t. t \<noteq> [] \<and> t \<noteq> [NL]) (butlast ws) = butlast ws"
      using pl(2) by (auto simp: filter_id_conv plain_word_def)
    moreover have "map (takeWhile (\<lambda>c. c \<noteq> NL)) (butlast ws) = butlast ws"
      by (rule map_idI) (use pl(2) tw in blast)
    ultimately show ?thesis using f False by (simp add: field_tokens_def)
  qed
qed

text \<open>
  Splitting gives back the words of a command line, with \<open>>\<close> as a word of its own where the line has
  one, whether or not there are blanks around it.
\<close>

theorem readLine_words:
  assumes "\<forall>w \<in> set ws. plain_word w" "\<forall>w \<in> set vs. plain_word w"
  shows "readLine (spaced ws @ [NL]) = ws \<and>
    readLine (spaced ws @ ''>'' @ spaced vs @ [NL]) = ws @ [''>''] @ vs"
proof
  have ng: "CHR ''>'' \<notin> set (spaced us @ e)" if "\<forall>w \<in> set us. plain_word w" "e = [] \<or> e = [NL]" for us e
    using that by (induction us rule: spaced.induct) (auto simp: plain_word_def)
  show "readLine (spaced ws @ [NL]) = ws"
    using pieces_plain [OF ng [OF assms(1)], of "[NL]"] tokens_spaced [OF assms(1), of "[NL]"] by (simp add: readLine_def)
  have "pieces (CHR ''>'') (spaced ws @ CHR ''>'' # spaced vs @ [NL]) = [spaced ws, spaced vs @ [NL]]"
    using pieces_sep [of "CHR ''>''" "spaced ws"] ng [OF assms(1), of "[]"] pieces_plain [OF ng [OF assms(2)], of "[NL]"] by simp
  then show "readLine (spaced ws @ ''>'' @ spaced vs @ [NL]) = ws @ [''>''] @ vs"
    using tokens_spaced [OF assms(1), of "[]"] tokens_spaced [OF assms(2), of "[NL]"]
    by (simp add: readLine_def butlast_append)
qed

theorem readLine_words_witness:
  "readLine (''ls -l'' @ [NL]) = [''ls'', ''-l''] \<and> readLine (''ls -l>out'' @ [NL]) = [''ls'', ''-l'', ''>'', ''out'']"
  using readLine_words [of "[''ls'', ''-l'']" "[''out'']"] by (simp add: plain_word_def)

section \<open>Running programs\<close>

text \<open>
  The search path does not work beyond its first directory: \<open>curr_src_path\<close> is not reset between
  two directories, so the second one is tried as the first program's path followed by its own, and a
  child that found nothing goes on as a second shell.
\<close>

theorem second_directory_never_tried:
  assumes "path = [p, q]" "input \<noteq> []" "length p + length q + 2 * length (hd input) + 2 < 100"
    and "\<And>f. \<not> w_access os (f @ [NL])" "\<And>f as. w_execv os f as \<longleftrightarrow> f = q @ ''/'' @ hd input"
    and "p @ ''/'' @ hd input \<noteq> q @ ''/'' @ hd input" "p \<noteq> []"
  shows "run_child os path input = Another_shell"
proof -
  have "p @ ''/'' @ hd input @ q @ ''/'' @ hd input \<noteq> q @ ''/'' @ hd input"
  proof
    assume "p @ ''/'' @ hd input @ q @ ''/'' @ hd input = q @ ''/'' @ hd input"
    then have "length (p @ ''/'' @ hd input @ q @ ''/'' @ hd input) = length (q @ ''/'' @ hd input)" by simp
    then show False by simp
  qed
  moreover have "\<not> w_access os (p @ ''/'' @ hd input @ [NL])" "\<not> w_access os (p @ ''/'' @ hd input @ q @ ''/'' @ hd input @ [NL])"
    using assms(4) [of "p @ ''/'' @ hd input"] assms(4) [of "p @ ''/'' @ hd input @ q @ ''/'' @ hd input"] by simp_all
  ultimately show ?thesis using assms(1-3,5-7) by (simp add: run_child_def Let_def)
qed

theorem second_directory_never_tried_witness:
  "run_child \<lparr>w_access = (\<lambda>_. False), w_execv = (\<lambda>f _. f = ''/usr/bin/'' @ ''wc''), w_chdir = (\<lambda>_. True), w_fork = True\<rparr>
     [''/bin'', ''/usr/bin''] [''wc''] = Another_shell"
  by (rule second_directory_never_tried [of _ "''/bin''" "''/usr/bin''"]) auto

lemma upto_null_map: "upto_null (map Some ws @ None # xs) = ws" "upto_null (map Some ws) = ws"
  by (induction ws) auto

lemma first_redirect:
  "\<forall>w \<in> set ws. w \<noteq> ''>'' \<Longrightarrow> first_idx (\<lambda>t. t = ''>'') (ws @ ''>'' # vs) = Some (length ws)"
  "\<forall>w \<in> set ws. w \<noteq> ''>'' \<Longrightarrow> first_idx (\<lambda>t. t = ''>'') ws = None"
  by (induction ws) auto

lemma run_fork_redirect:
  assumes "ws \<noteq> []" "\<forall>w \<in> set ws. w \<noteq> ''>''" "w_fork os"
  shows "run_fork os path (map Some (ws @ [''>'', out])) =
      ([Child (Some out) ws (run_child os path ws)], False, map Some ws @ [None, None])"
    "run_fork os path (map Some ws @ [None, None]) =
      ([Child None ws (run_child os path ws)], False, map Some ws @ [None, None])"
proof -
  let ?in = "map Some (ws @ [''>'', out])"
  have u: "upto_null ?in = ws @ [''>'', out]" by (rule upto_null_map)
  have i: "?in[length ws := None, length ws + 1 := None] = map Some ws @ [None, None]"
    by (simp add: list_update_append)
  have a: "at ?in (length ws + 1) = Some out" "at ?in (length ws + 2) = None"
    by (simp_all add: at_def nth_append)
  show "run_fork os path ?in = ([Child (Some out) ws (run_child os path ws)], False, map Some ws @ [None, None])"
    unfolding run_fork_def u using first_redirect(1) [OF assms(2), of "[out]"] assms(1,3) a i upto_null_map(1) [of ws "[None]"]
    by (simp add: Let_def)
  show "run_fork os path (map Some ws @ [None, None]) = ([Child None ws (run_child os path ws)], False, map Some ws @ [None, None])"
    unfolding run_fork_def upto_null_map using first_redirect(2) [OF assms(2)] assms(3) by simp
qed

text \<open>
  C40. In \<open>loop n cmd > out\<close> only the first of the rounds is redirected: \<open>run_fork\<close> cuts the redirection off
  the token array that the next round uses again. The words do not contain \<open>$loop\<close>, and \<open>fork\<close> succeeds in every round.
\<close>

theorem loop_redirects_first_round_only:
  assumes "ws \<noteq> []" "\<forall>w \<in> set ws. w \<noteq> ''>''" "w_fork os"
  shows "loop_rounds os path 0 [1..<n + 2] (map Some ([''loop'', t] @ ws @ [''>'', out])) =
    (Child (Some out) ws (run_child os path ws) # replicate n (Child None ws (run_child os path ws)), False)"
proof -
  note r = run_fork_redirect [OF assms, where path = path]
  have later: "loop_rounds os path 0 ks ([Some ''loop'', Some t] @ map Some ws @ [None, None]) =
      (replicate (length ks) (Child None ws (run_child os path ws)), False)" for ks
    by (induction ks) (simp_all add: r(2))
  obtain ks where ks: "[1..<n + 2] = 1 # ks" "length ks = n"
    by (rule that [of "[Suc 1..<n + 2]"], rule upt_conv_Cons) (simp_all del: upt_Suc)
  show ?thesis unfolding ks(1) using later [of ks] ks(2) r(1) by simp
qed

theorem loop_redirects_first_round_only_witness:
  "let os = \<lparr>w_access = (\<lambda>_. False), w_execv = (\<lambda>_ _. True), w_chdir = (\<lambda>_. True), w_fork = True\<rparr>;
       ran = (\<lambda>out. Child out [''ls''] (Became ''/bin/ls'' [''ls'']))
   in loop_rounds os [''/bin''] 0 [1..<1 + 2] (map Some [''loop'', ''2'', ''ls'', ''>'', ''out'']) =
     ([ran (Some ''out''), ran None], False)"
proof -
  let ?os = "\<lparr>w_access = (\<lambda>_. False), w_execv = (\<lambda>_ _. True), w_chdir = (\<lambda>_. True), w_fork = True\<rparr> :: wos"
  have c: "run_child ?os [''/bin''] [''ls''] = Became ''/bin/ls'' [''ls'']" by (simp add: run_child_def)
  have "loop_rounds ?os [''/bin''] 0 [1..<1 + 2] (map Some ([''loop'', ''2''] @ [''ls''] @ [''>'', ''out''])) =
    (Child (Some ''out'') [''ls''] (run_child ?os [''/bin''] [''ls'']) #
      replicate 1 (Child None [''ls''] (run_child ?os [''/bin''] [''ls''])), False)"
    by (rule loop_redirects_first_round_only) simp_all
  then show ?thesis unfolding c Let_def by simp
qed

end
