(* ===== verification/Spec2Isabelle.thy ===== *)
theory Spec2Isabelle
  imports Kv Pzip_Threads Spinlock Trap Iocount Ide Atomic Mp Bootmain Utils Umalloc Grep Sh Wish
begin

text \<open>
  A verification library of the programs of this repository: three user programs for Unix
  (\<open>KeyValueStore/kv.c\<close>, \<open>ParallelZip/pzip.c\<close>, \<open>Wisconsin_Shell/wish.c\<close>) and the xv6 operating system of
  \<open>Scheduling_&_Virtual_memory/xv6\<close> with its tickets scheduler, \<open>getpinfo\<close>, and an address space whose
  first page stays unmapped, with its boot loader, the program \<open>mkfs\<close> that builds its disk, and user programs. Of the second
  kernel, \<open>xv6-system_calls/xv6\<close>, the functions that differ from the first one are modelled in \<open>Iocount\<close>.

  How the code is modelled. A C function is a HOL function from the state it reads to the new state and its
  result, under its own name where HOL leaves that free. It returns \<open>Inr\<close>; the ways of not returning are the
  values of \<open>stop\<close> in \<open>Prelude\<close>: \<open>Panic\<close>, \<open>Sleep\<close> and the blocked results of a system call, \<open>Fault\<close> for an
  access that C leaves undefined, \<open>Exited\<close>, and \<open>NoFuel\<close>. 32-bit quantities whose wrap-around matters are \<open>32 word\<close>
  or pass through \<open>to_int32\<close>; other counters are \<open>nat\<close> or \<open>int\<close>. Of the user programs, \<open>Kv\<close> lets any allocation fail, as the
  allocator of the kernel may; in \<open>Pzip\<close>, \<open>Wish\<close> and \<open>Sh\<close> \<open>malloc\<close> is taken to succeed. The state of the kernel is one record that grows with the layers:
  \<open>phys\<close> (memory and free list, \<open>Kalloc\<close>), \<open>kern\<close> (processes, \<open>Proc\<close>), \<open>bio\<close> (buffers and disk, \<open>Bio\<close>), \<open>logst\<close>
  (\<open>Log\<close>), \<open>fsst\<close> (inode cache, \<open>Inode\<close>), \<open>console\<close> (\<open>Console\<close>), \<open>filest\<close> (open files and pipes, \<open>File\<close>); a lower
  layer is stated for any extension of its record, so it is used by the upper ones as it is.

  The theories, bottom up.
    \<^item> \<open>Prelude\<close>: results and their sequencing, folds that may stop, scans of tables. \<open>Queues\<close>: the interface
      \<open>bounded_queue\<close> and rings with free-running indices; it is interpreted by the queue of \<open>pzip\<close> and by pipes.
    \<^item> \<open>Mem\<close> (\<open>string.c\<close>), \<open>Mmu\<close> (\<open>mmu.h\<close>, \<open>memlayout.h\<close>), \<open>Kalloc\<close> (\<open>kalloc.c\<close>, with the interface \<open>page_alloc\<close>),
      \<open>Vm\<close> (\<open>vm.c\<close>), \<open>Vm_Frames\<close> (what they leave alone), \<open>Printf\<close> (\<open>printf.c\<close>, \<open>cprintf\<close>), \<open>Spinlock\<close> (\<open>spinlock.c\<close>).
    \<^item> \<open>Proc\<close> and \<open>Process\<close> (\<open>proc.c\<close>), \<open>Bio\<close> (\<open>bio.c\<close>, \<open>sleeplock.c\<close>, \<open>memide.c\<close>), \<open>Log\<close> (\<open>log.c\<close>), \<open>Inode\<close> and \<open>Fs\<close>
      (\<open>fs.c\<close>), \<open>Console\<close> (\<open>console.c\<close>), \<open>File\<close> (\<open>file.c\<close>, \<open>pipe.c\<close>), \<open>Exec\<close> (\<open>exec.c\<close>), \<open>Syscall\<close> (\<open>syscall.c\<close>,
      \<open>sysproc.c\<close>, \<open>sysfile.c\<close>), \<open>Trap\<close> (\<open>trap.c\<close>, \<open>kbd.c\<close>), \<open>Ide\<close> (\<open>ide.c\<close>, the driver for a disk with interrupts; the
      buffer cache above is on the memory disk), \<open>Iocount\<close> (\<open>getiocount\<close> and the scheduler of the second kernel).
    \<^item> The file system as a whole, on the definitions of \<open>Inode\<close>, \<open>Fs\<close> and \<open>Log\<close>, bottom up: \<open>Blockmap\<close> (the blocks and bytes of
      a file, from its addresses and the blocks of a disk; also used by \<open>Mkfs\<close>), \<open>Txn\<close> (reading and logging a block in a
      transaction), \<open>Balloc\<close> (free blocks and the layout of the disk), \<open>Filemap\<close> (\<open>bmap\<close>), \<open>Contents\<close> (\<open>readi\<close> and
      \<open>writei\<close> on the contents of files), \<open>Dirs\<close> (a directory as a map from names), \<open>Image\<close> (the kernel on the disk that
      \<open>mkfs\<close> made), \<open>Atomic\<close> (a write and a crash).
    \<^item> \<open>Bootmain\<close> (\<open>bootmain.c\<close>), \<open>Mp\<close> (\<open>mp.c\<close>), \<open>Mkfs\<close> (\<open>mkfs.c\<close>).
    \<^item> \<open>Frames\<close>, \<open>Fd_Refs\<close>, \<open>Proc_Refs\<close>: what each layer leaves alone, and the reference counts of open files
      across all system calls.
    \<^item> \<open>Umalloc\<close> (\<open>umalloc.c\<close>), \<open>Utils\<close> (\<open>ulib.c\<close>, \<open>wc.c\<close>, \<open>cat.c\<close>, \<open>ls.c\<close>), \<open>Grep\<close> (\<open>grep.c\<close>), \<open>Sh\<close> (\<open>sh.c\<close>), and on the
      C library of \<open>Clib\<close>: \<open>Kv\<close>, \<open>Wish\<close>; \<open>Pzip\<close> and \<open>Pzip_Threads\<close>.

  What is shown, by component: the lock excludes and never deadlocks a CPU with itself (\<open>Spinlock\<close>);
  the page allocator is a set of free pages, page tables grow and shrink exactly by the pages asked
  for (\<open>Kalloc\<close>, \<open>Vm\<close>); the scheduler visits the table in order and gives every process its tickets in slices unless it blocks before,
  and a process with the largest number of tickets keeps the CPU for ever; \<open>wait\<close> and \<open>exit\<close> lose no child
  (\<open>Proc\<close>, \<open>Process\<close>); a commit is atomic under a crash after any of its writes and its reservations suffice
  when the log is larger than \<open>LOGSIZE\<close> and do not with the one that \<open>mkfs\<close> makes (\<open>Log\<close>); paths are the lists of
  their components (\<open>Fs\<close>). In a transaction \<open>readi\<close> and \<open>writei\<close> read and replace a part of the content of a file, \<open>dirlookup\<close>
  and \<open>dirlink\<close> look up and extend the map of a directory, no file touches the blocks of another, and free blocks suffice as
  counted (\<open>Contents\<close>, \<open>Dirs\<close>); after a crash in the commit of a write every file is the old one, or all are as
  written (\<open>Atomic\<close>); \<open>mkfs\<close> builds a disk on which the kernel finds and reads the files it was given (\<open>Mkfs\<close>,
  \<open>Image\<close>); the driver completes every request as the memory disk would (\<open>Ide\<close>). Pipes
  are bounded queues (\<open>File\<close>); no system call that returns, ends its process or blocks in \<open>wait\<close>, \<open>sleep\<close> or on a pipe loses or leaks a reference to an
  open file (\<open>Proc_Refs\<close>); \<open>getiocount\<close> counts, and with one ticket each the two schedulers do the same (\<open>Iocount\<close>);
  the boot loader loads every segment of the kernel (\<open>Bootmain\<close>) and \<open>mpinit\<close> reads the processor tables, or never returns
  (\<open>Mp\<close>). \<open>malloc\<close> and \<open>free\<close> keep live blocks disjoint and the free list merged (\<open>Umalloc\<close>); \<open>wc\<close> counts and \<open>cat\<close>
  copies however the input arrives (\<open>Utils\<close>); the matcher decides its language and \<open>grep\<close> prints the matching lines (\<open>Grep\<close>);
  the parsers return and undo printing, and whichever calls fail no child of the shell goes on as a shell (\<open>Sh\<close>); the store is a
  finite map as long as allocations succeed, and saves each value with what follows it in memory (\<open>Kv\<close>); \<open>pzip\<close> is the run-length
  encoding of its input under every schedule of its threads, for files of fewer than \<open>2 ^ 31\<close> bytes (\<open>Pzip_Threads\<close>).

  Bounds and fuel. A loop whose end is not structural has fuel, and the theorems say how much is
  enough: the scheduler runs each process for its tickets, which are enough fuel if they are fewer than \<open>2 ^ 31 - 1\<close>; the loops over addresses of \<open>vm.c\<close> and
  \<open>kalloc.c\<close> start with the number of pages they can visit; the parser of \<open>sh.c\<close> needs no more than
  the length of its line allows (\<open>parsecmd_returns\<close>); twice the number of calls of \<open>malloc\<close> and \<open>free\<close> and
  four more is enough for their walks along the free list (\<open>malloc_disjoint\<close>). The loops of \<open>bootmain\<close> and \<open>mpinit\<close> are partial functions, \<open>None\<close> being that they do not return, and the theorems
  say when they do. Where a wrong input makes the code run off an array or follow
  a null pointer the model says \<open>Fault\<close>.

  Concurrency. \<open>Spinlock\<close> and \<open>Pzip_Threads\<close> interleave any number of CPUs and threads, in steps of one memory
  access and of one critical section, on sequentially consistent memory. The rest of the kernel runs on one
  CPU, one system call at a time up to the point where it sleeps: a call that sleeps is \<open>Blocked\<close> with what
  it needs to go on, and \<open>syscall\<close> with that argument is the rest of it; a sleep inside the file system or for
  console input ends the model with \<open>Sleep\<close>. Calls to \<open>acquire\<close> and \<open>release\<close> around such a step are left out.

  Not modelled: assembly and start-up (\<open>bootasm.S\<close>, \<open>entry.S\<close>, \<open>main.c\<close>, \<open>swtch.S\<close>, \<open>trapasm.S\<close>), the drivers of
  interrupt controllers and of the serial port, which write constants to device registers (\<open>lapic.c\<close>, \<open>ioapic.c\<close>,
  \<open>picirq.c\<close>, \<open>uart.c\<close> but for \<open>uartputc\<close>), user programs that hand their arguments to one system call
  (\<open>echo.c\<close>, \<open>kill.c\<close>, \<open>ln.c\<close>, \<open>mkdir.c\<close>, \<open>rm.c\<close>, \<open>init.c\<close>, \<open>zombie.c\<close>), test programs (\<open>usertests.c\<close>, \<open>forktest.c\<close>,
  \<open>stressfs.c\<close>, \<open>test*.c\<close>), the earlier versions of \<open>pzip.c\<close>, and generated files. The functions of the second xv6 tree that are
  not in \<open>Iocount\<close> are those of the first one, and the definitions here stand for both; the sleeping
  of a process inside the file system and in \<open>consoleread\<close>, and more than one CPU outside of \<open>Spinlock\<close>, are not modelled.
\<close>

end
